(* ===== verification/Prelude.thy ===== *)
theory Prelude
  imports Main "HOL-Library.Word" "HOL-Library.List_Lexorder" "HOL-Library.AList"
begin

section \<open>Shared vocabulary of the registry model\<close>

text \<open>
  What the components share: bytes and JavaScript strings, \<open>Map\<close> objects, results
  that may be an error, and big-endian integers. The code under registry/src is TypeScript; its
  values are modelled as follows.
  \<^item> A \<open>Uint8Array\<close> is a list of 8-bit words.
  \<^item> A string is its list of UTF-16 code units, since \<open>length\<close> and indexing count those.
  \<^item> A number is an \<^typ>\<open>int\<close>: every number the modelled code computes with is an integer,
    and the code itself refuses values above \<open>Number.MAX_SAFE_INTEGER\<close>. The theorems
    speak about exact integer arithmetic, which is what the double arithmetic of the source
    computes as long as sums stay below $2^{53}$.
  \<^item> A \<open>Map\<close> with primitive keys is an association list in insertion order: setting an
    existing key keeps its place, a new key goes to the end.
  \<^item> A thrown error is \<open>Inl\<close> of an error value, a normal return is \<open>Inr\<close>; the messages
    of the errors are left out, their codes are kept.
\<close>

text \<open>
  The collection \<open>exec\<close> holds the defining equations that evaluate the model on concrete
  inputs by rewriting, with numerals kept in binary.
\<close>

named_theorems exec \<open>equations that evaluate the model on concrete inputs\<close>

subsection \<open>Bytes, strings and numbers\<close>

type_synonym byte = "8 word"
type_synonym bytes = "byte list"
type_synonym jsstr = "16 word list"

definition js :: "string \<Rightarrow> jsstr" where
  "js s = map of_char s"

definition MAX_SAFE_INTEGER :: int where
  "MAX_SAFE_INTEGER = 9007199254740991"

lemma js_simps [simp]:
  "js [] = []"
  "js (c # s) = of_char c # js s"
  "js (s @ t) = js s @ js t"
  by (simp_all add: js_def)

lemma length_js [simp]: "length (js s) = length s"
  by (simp add: js_def)

lemma of_char_word16: "(of_char c :: 16 word) = word_of_nat (of_char c)"
  by (simp add: of_nat_of_char)

lemma unat_of_char_word16 [simp]: "unat (of_char c :: 16 word) = of_char c"
proof -
  have "(of_char c :: nat) < 65536" by (rule less_trans [OF nat_of_char_less_256]) simp
  then show ?thesis by (simp add: of_char_word16 unat_of_nat del: of_nat_of_char)
qed

lemma of_char_word16_inj:
  assumes "(of_char c :: 16 word) = of_char d"
  shows "c = d"
proof -
  have "(of_char c :: nat) = of_char d"
    by (metis assms unat_of_char_word16)
  then show ?thesis by simp
qed

lemma js_inject [simp]: "js s = js t \<longleftrightarrow> s = t"
  by (auto simp: js_def inj_map_eq_map [OF injI [of "of_char :: char \<Rightarrow> 16 word", OF of_char_word16_inj]])

subsection \<open>Results that may be an error\<close>

text \<open>
  \<open>bindE m f\<close> runs \<open>f\<close> on the value of \<open>m\<close>, or stops with the error of \<open>m\<close>;
  \<open>failIf c e m\<close> is \<open>if (c) throw e; m\<close>. Both abbreviate a case distinction.
\<close>

named_theorems errs \<open>equations between results that may be an error\<close>

abbreviation bindE :: "'e + 'a \<Rightarrow> ('a \<Rightarrow> 'e + 'b) \<Rightarrow> 'e + 'b" where
  "bindE m f \<equiv> (case m of Inl e \<Rightarrow> Inl e | Inr x \<Rightarrow> f x)"

abbreviation failIf :: "bool \<Rightarrow> 'e \<Rightarrow> 'e + 'a \<Rightarrow> 'e + 'a" where
  "failIf c e m \<equiv> (if c then Inl e else m)"

lemma bindE_eq_Inr [errs]: "bindE m f = Inr y \<longleftrightarrow> (\<exists>x. m = Inr x \<and> f x = Inr y)"
  by (cases m) auto

lemma bindE_eq_Inl [errs]:
  "bindE m f = Inl e \<longleftrightarrow> m = Inl e \<or> (\<exists>x. m = Inr x \<and> f x = Inl e)"
  by (cases m) auto

lemma failIf_eq_Inr [errs]: "failIf c e m = Inr y \<longleftrightarrow> \<not> c \<and> m = Inr y"
  by simp

lemma failIf_eq_Inl [errs]: "failIf c e m = Inl e' \<longleftrightarrow> c \<and> e' = e \<or> \<not> c \<and> m = Inl e'"
  by auto

lemma optE_eq_Inr [errs]:
  "(case x of None \<Rightarrow> Inl e | Some y \<Rightarrow> f y) = Inr r \<longleftrightarrow> (\<exists>y. x = Some y \<and> f y = Inr r)"
  by (cases x) auto

lemma bindE_assoc: "bindE (bindE m f) g = bindE m (\<lambda>x. bindE (f x) g)"
  by (cases m) auto

primrec mapE :: "('a \<Rightarrow> 'e + 'b) \<Rightarrow> 'a list \<Rightarrow> 'e + 'b list" where
  "mapE f [] = Inr []"
| "mapE f (x # xs) = bindE (f x) (\<lambda>y. bindE (mapE f xs) (\<lambda>ys. Inr (y # ys)))"

lemma mapE_cong [fundef_cong]:
  "xs = ys \<Longrightarrow> (\<And>x. x \<in> set ys \<Longrightarrow> f x = g x) \<Longrightarrow> mapE f xs = mapE g ys"
  by (induction ys arbitrary: xs) (auto split: sum.split)

lemma mapE_eq_Inr:
  "mapE f xs = Inr ys \<longleftrightarrow> list_all2 (\<lambda>x y. f x = Inr y) xs ys"
  by (induction xs arbitrary: ys) (auto simp: errs list_all2_Cons1)

lemma mapE_length: "mapE f xs = Inr ys \<Longrightarrow> length ys = length xs"
  by (auto simp: mapE_eq_Inr dest: list_all2_lengthD)

lemma mapE_total: "(\<exists>ys. mapE f xs = Inr ys) \<longleftrightarrow> (\<forall>x\<in>set xs. \<exists>y. f x = Inr y)"
  by (induction xs) (auto simp: errs)

lemma mapE_filter:
  "mapE f xs = Inr ys \<Longrightarrow>
     mapE f (filter P xs) = Inr (map snd (filter (\<lambda>(x, y). P x) (zip xs ys)))"
  by (induction xs arbitrary: ys) (auto simp: errs)

subsection \<open>Map objects\<close>

type_synonym ('k, 'v) jsmap = "('k \<times> 'v) list"

abbreviation map_get :: "('k, 'v) jsmap \<Rightarrow> 'k \<Rightarrow> 'v option" where
  "map_get m k \<equiv> map_of m k"

abbreviation map_set :: "'k \<Rightarrow> 'v \<Rightarrow> ('k, 'v) jsmap \<Rightarrow> ('k, 'v) jsmap" where
  "map_set \<equiv> AList.update"

abbreviation map_delete :: "'k \<Rightarrow> ('k, 'v) jsmap \<Rightarrow> ('k, 'v) jsmap" where
  "map_delete \<equiv> AList.delete"

abbreviation map_has :: "('k, 'v) jsmap \<Rightarrow> 'k \<Rightarrow> bool" where
  "map_has m k \<equiv> k \<in> fst ` set m"

lemma map_get_set [simp]: "map_get (map_set k v m) k' = (if k' = k then Some v else map_get m k')"
  by (simp add: update_conv')

lemma map_get_delete [simp]:
  "map_get (map_delete k m) k' = (if k' = k then None else map_get m k')"
  by (simp add: delete_conv')

lemma distinct_map_set: "distinct (map fst m) \<Longrightarrow> distinct (map fst (map_set k v m))"
  by (rule distinct_update)

lemma length_map_set_le: "length (map_set k v m) \<le> Suc (length m)"
  by (induction m) auto

lemma length_map_set_has: "map_has m k \<Longrightarrow> length (map_set k v m) = length m"
  by (induction m) auto

lemma length_map_delete_le: "length (map_delete k m) \<le> length m"
  by (rule length_delete_le)

lemma map_has_get: "map_has m k \<longleftrightarrow> map_get m k \<noteq> None"
  by (simp add: map_of_eq_None_iff)

subsection \<open>Big-endian unsigned integers\<close>

text \<open>
  \<open>DataView.setUint16\<close>, \<open>setUint32\<close> and \<open>setBigUint64\<close> with \<open>littleEndian = false\<close>
  write \<open>be_bytes n v\<close> for \<open>n\<close> = 2, 4 and 8; the getters read \<open>be_value\<close>.
\<close>

primrec be_bytes :: "nat \<Rightarrow> nat \<Rightarrow> bytes" where
  "be_bytes 0 v = []"
| "be_bytes (Suc n) v = be_bytes n (v div 256) @ [word_of_nat (v mod 256)]"

definition be_value :: "bytes \<Rightarrow> nat" where
  "be_value bs = foldl (\<lambda>acc b. acc * 256 + unat b) 0 bs"

lemma unat_byte_of_nat: "n < 256 \<Longrightarrow> unat (word_of_nat n :: byte) = n"
  by (simp add: unat_of_nat)

lemma byte_of_unat [simp]: "(word_of_nat (unat b) :: byte) = b"
  by simp

lemma unat_byte_less [simp]: "unat (b :: byte) < 256"
  using unsigned_less [of b] by simp

lemma be_bytes_numeral [exec]:
  "be_bytes (numeral k) v = be_bytes (pred_numeral k) (v div 256) @ [word_of_nat (v mod 256)]"
  by (metis numeral_eq_Suc be_bytes.simps(2))

lemmas [exec] = be_value_def MAX_SAFE_INTEGER_def Let_def

lemma length_be_bytes [simp]: "length (be_bytes n v) = n"
  by (induction n arbitrary: v) auto

lemma be_value_Nil [simp]: "be_value [] = 0"
  by (simp add: be_value_def)

lemma be_value_snoc [simp]: "be_value (bs @ [b]) = be_value bs * 256 + unat b"
  by (simp add: be_value_def)

lemma be_value_be_bytes: "v < 256 ^ n \<Longrightarrow> be_value (be_bytes n v) = v"
proof (induction n arbitrary: v)
  case 0
  then show ?case by simp
next
  case (Suc n)
  then have "v div 256 < 256 ^ n" by (simp add: less_mult_imp_div_less mult.commute)
  then show ?case by (simp add: Suc.IH unat_byte_of_nat)
qed

lemma be_value_less: "be_value bs < 256 ^ length bs"
proof (induction bs rule: rev_induct)
  case Nil
  then show ?case by simp
next
  case (snoc b bs)
  have "be_value bs * 256 + unat b < be_value bs * 256 + 256" by simp
  also have "\<dots> = (be_value bs + 1) * 256" by simp
  also have "\<dots> \<le> 256 ^ length bs * 256"
    using snoc.IH by (intro mult_right_mono) simp_all
  finally show ?case by simp
qed

lemma be_value_zeros: "be_value (replicate n 0 @ bs) = be_value bs"
  by (induction n) (simp_all add: be_value_def)

lemma be_bytes_be_value: "be_bytes (length bs) (be_value bs) = bs"
proof (induction bs rule: rev_induct)
  case Nil
  then show ?case by simp
next
  case (snoc b bs)
  have "(be_value bs * 256 + unat b) div 256 = be_value bs"
    by (simp add: div_mult_self3)
  moreover have "(be_value bs * 256 + unat b) mod 256 = unat b"
    by (simp add: mod_mult_self3)
  ultimately show ?case using snoc.IH by simp
qed

lemma be_bytes_inject:
  assumes "v < 256 ^ n" "w < 256 ^ n" "be_bytes n v = be_bytes n w"
  shows "v = w"
  by (metis assms be_value_be_bytes)

subsection \<open>Lists\<close>

lemma take_append_drop_eq: "n \<le> length xs \<Longrightarrow> xs = take n xs @ drop n xs"
  by simp

lemma list_all2_set1: "list_all2 P xs ys \<Longrightarrow> x \<in> set xs \<Longrightarrow> \<exists>y\<in>set ys. P x y"
  by (metis in_set_conv_nth list_all2_conv_all_nth)

lemma list_all2_set2: "list_all2 P xs ys \<Longrightarrow> y \<in> set ys \<Longrightarrow> \<exists>x\<in>set xs. P x y"
  by (metis in_set_conv_nth list_all2_conv_all_nth)

subsection \<open>Texts\<close>

text \<open>\<open>split_on c s\<close> is \<open>s.split(c)\<close>.\<close>

fun split_on :: "'a \<Rightarrow> 'a list \<Rightarrow> 'a list list" where
  "split_on c [] = [[]]"
| "split_on c (x # s) =
     (if x = c then [] # split_on c s
      else (case split_on c s of p # ps \<Rightarrow> (x # p) # ps | [] \<Rightarrow> [[x]]))"

lemma split_on_not_Nil [simp]: "split_on c s \<noteq> []"
  by (induction s) (auto split: list.splits)

lemma split_on_sep: "c \<notin> set p \<Longrightarrow> split_on c (p @ c # s) = p # split_on c s"
  by (induction p) auto

lemma split_on_none: "c \<notin> set p \<Longrightarrow> split_on c p = [p]"
  by (induction p) auto

lemma split_on_parts: "p \<in> set (split_on c s) \<Longrightarrow> c \<notin> set p"
  by (induction s arbitrary: p) (auto split: if_splits list.splits)

text \<open>
  \<open>s.startsWith(p)\<close>, \<open>s.endsWith(p)\<close>, \<open>s.indexOf(p)\<close> with \<open>None\<close> for \<open>-1\<close>, and
  \<open>s.trim()\<close>, which drops what \<open>\s\<close> matches in a regular expression.
\<close>

definition starts_with :: "'a list \<Rightarrow> 'a list \<Rightarrow> bool" where
  "starts_with s p \<longleftrightarrow> take (length p) s = p"

definition ends_with :: "'a list \<Rightarrow> 'a list \<Rightarrow> bool" where
  "ends_with s p \<longleftrightarrow> length p \<le> length s \<and> drop (length s - length p) s = p"

fun find_text :: "'a list \<Rightarrow> 'a list \<Rightarrow> nat option" where
  "find_text p [] = (if p = [] then Some 0 else None)"
| "find_text p (x # s) = (if starts_with (x # s) p then Some 0 else map_option Suc (find_text p s))"

definition js_space :: "16 word \<Rightarrow> bool" where
  "js_space u \<longleftrightarrow> u \<in> {0x09, 0x0A, 0x0B, 0x0C, 0x0D, 0x20, 0xA0, 0x1680, 0x2028, 0x2029, 0x202F, 0x205F,
     0x3000, 0xFEFF} \<or> 0x2000 \<le> u \<and> u \<le> 0x200A"

definition trim :: "jsstr \<Rightarrow> jsstr" where
  "trim s = rev (dropWhile js_space (rev (dropWhile js_space s)))"

text \<open>
  \<open>toLowerCase\<close> on the letters whose lower case is in ASCII: the capital letters and the Kelvin
  sign. The lower case of every other letter is outside ASCII; it is kept as it is, which the code
  that compares the result with ASCII texts cannot tell apart.
\<close>

definition lower_unit :: "16 word \<Rightarrow> 16 word" where
  "lower_unit u = (if 0x41 \<le> u \<and> u \<le> 0x5A then u + 0x20 else if u = 0x212A then 0x6B else u)"

definition toLowerCase :: "jsstr \<Rightarrow> jsstr" where
  "toLowerCase s = map lower_unit s"

text \<open>\<open>parts.join(sep)\<close> and \<open>String(n)\<close>.\<close>

definition join_with :: "jsstr \<Rightarrow> jsstr list \<Rightarrow> jsstr" where
  "join_with sep parts = (case parts of [] \<Rightarrow> [] | p # ps \<Rightarrow> p @ concat (map (\<lambda>q. sep @ q) ps))"

fun nat_text :: "nat \<Rightarrow> jsstr" where
  "nat_text n = (if n < 10 then [of_nat (0x30 + n)] else nat_text (n div 10) @ [of_nat (0x30 + n mod 10)])"

declare nat_text.simps [simp del]

definition int_text :: "int \<Rightarrow> jsstr" where
  "int_text n = (if n < 0 then 0x2D # nat_text (nat (- n)) else nat_text (nat n))"

lemma starts_with_iff: "starts_with s p \<longleftrightarrow> (\<exists>t. s = p @ t)"
  by (metis append_eq_conv_conj append_take_drop_id starts_with_def)

lemma starts_with_append [simp]: "starts_with (p @ s) p"
  by (simp add: starts_with_def)

lemma ends_with_append [simp]: "ends_with (s @ p) p"
  by (simp add: ends_with_def)

lemma find_text_Some:
  assumes "find_text p s = Some k"
  shows "s = take k s @ p @ drop (k + length p) s" and "k + length p \<le> length s"
proof -
  have "starts_with (drop k s) p \<and> k \<le> length s"
    using assms by (induction p s arbitrary: k rule: find_text.induct)
      (auto simp: starts_with_def split: if_splits)
  then obtain t where t: "drop k s = p @ t" and k: "k \<le> length s" by (auto simp: starts_with_iff)
  then have "t = drop (k + length p) s" by (metis add.commute append_eq_conv_conj drop_drop)
  with t show "s = take k s @ p @ drop (k + length p) s" by (metis append_take_drop_id)
  have "length (drop k s) = length p + length t" using t by simp
  then show "k + length p \<le> length s" using k by simp
qed

end
