(* ===== verification/Namespace.thy ===== *)
theory Namespace
  imports Prelude
begin

section \<open>The ratified top-level domains\<close>

text \<open>
  registry/src/namespace.generated.ts: the Namespace Annex, the closed set of extensions that
  decides whether a name can exist at all. The list is given in nine parts, in the source's order,
  to keep each term small.
\<close>

definition NAMESPACE_ANNEX_1 :: "string list" where
  "NAMESPACE_ANNEX_1 = [
    ''abacus'', ''abjad'', ''abode'', ''abolition'', ''accent'', ''acre'', ''actuary'', ''ad'',
    ''advocacy'', ''agora'', ''ahimsa'', ''ai'', ''airlock'', ''airship'', ''airwave'',
    ''akhara'', ''alias'', ''allele'', ''allodial'', ''allotment'', ''alloy'', ''almanac'',
    ''alpine'', ''amphora'', ''an'', ''ancestry'', ''anchor'', ''anglers'', ''anime'',
    ''annals'', ''annuity'', ''anthem'', ''anthology'', ''antibody'', ''antiquary'',
    ''antiquity'', ''antler'', ''anvil'', ''aperture'', ''aphelion'', ''apiary'', ''apogee'',
    ''aporia'', ''apothecary'', ''apprentice'', ''aquaria'', ''aquifer'', ''ar'', ''arbor'',
    ''arborist'', ''arcade'', ''architect'', ''archive'', ''artisan'', ''as'', ''ascent'',
    ''ashram'', ''assembly'', ''asteroid'', ''astrolabe'', ''asylum'', ''at'', ''atelier'',
    ''atomic'', ''audition'', ''auditor'', ''aurora'', ''autarky'', ''autonomy'', ''avatar'',
    ''avian'', ''aviary'', ''aviator'', ''ax'', ''axiology'', ''axle'', ''ayurveda'',
    ''azimuth'', ''bachat'', ''backlot'', ''backstage'', ''bakehouse'', ''baker'', ''ballad'',
    ''ballot'', ''bangla'', ''bangle'', ''bansuri'', ''barber'', ''bard'', ''barista'', ''barn'',
    ''barnraise'', ''barrow'', ''barter'', ''basket'', ''bassline'', ''bastion'', ''batik'',
    ''bayes'', ''bazaar'', ''be'', ''bebop'', ''bedrock'', ''bedside'', ''belay'', ''bellows'',
    ''berth'', ''bespoke'', ''bestiary'', ''bhajan'', ''bhangra'', ''bibliophile'', ''bigtop'',
    ''binary'', ''bio'', ''biome'', ''birding'', ''birdsong'', ''birthright'', ''biryani'',
    ''bivouac'', ''blacksmith'', ''blog'', ''blues'', ''blurb'', ''bobbin'', ''bodega'',
    ''boiler'', ''bokeh'', ''bookkeeper'', ''bookmark'', ''bookme'', ''bookshop'', ''botany'',
    ''boycott'', ''braille'', ''brass'', ''breathe'', ''breeder'', ''brew'', ''brewer'']"

definition NAMESPACE_ANNEX_2 :: "string list" where
  "NAMESPACE_ANNEX_2 = [
    ''brine'', ''brisket'', ''broadsheet'', ''brocade'', ''brook'', ''broth'', ''brunch'',
    ''budget'', ''bulletin'', ''burrow'', ''bursary'', ''busker'', ''butcher'', ''by'',
    ''byline'', ''byre'', ''bytes'', ''cabaret'', ''cache'', ''cadence'', ''cairn'',
    ''callsheet'', ''campfire'', ''campus'', ''canine'', ''canopy'', ''canto'', ''canvas'',
    ''canyon'', ''capsule'', ''card'', ''cardiology'', ''caregiver'', ''cargo'', ''carpool'',
    ''carrom'', ''cart'', ''carton'', ''cartridge'', ''cascade'', ''caselaw'', ''cashflow'',
    ''catacomb'', ''catalyst'', ''cattery'', ''catwalk'', ''caucus'', ''cc'', ''cd'', ''cellar'',
    ''cenotaph'', ''chai'', ''chanda'', ''chapbook'', ''chapter'', ''charger'', ''charter'',
    ''chassis'', ''chatroom'', ''checkout'', ''chemist'', ''chess'', ''chicane'', ''chisel'',
    ''chit'', ''choir'', ''chords'', ''choreo'', ''chromosphere'', ''chronicle'', ''chutney'',
    ''ci'', ''cider'', ''cine'', ''cipher'', ''circle'', ''citadel'', ''citation'', ''civic'',
    ''clan'', ''classroom'', ''cleaver'', ''clemency'', ''clinician'', ''cloister'',
    ''clubhouse'', ''cluster'', ''co'', ''cobbler'', ''cockpit'', ''codex'', ''coffer'',
    ''cognate'', ''cohort'', ''collage'', ''colophon'', ''comet'', ''commons'', ''commute'',
    ''compile'', ''compost'', ''congress'', ''consign'', ''contagion'', ''contractor'',
    ''conveyor'', ''convoy'', ''coppice'', ''coral'', ''corset'', ''cortex'', ''cosmicray'',
    ''cosmos'', ''costume'', ''council'', ''counsel'', ''couplet'', ''courier'', ''courtside'',
    ''couture'', ''cowrie'', ''cradle'', ''crag'', ''crate'', ''crater'', ''creamery'',
    ''crease'', ''creole'', ''crew'', ''crochet'', ''crossword'', ''crumb'', ''crystal'',
    ''cultivar'', ''cuneiform'', ''curator'', ''curd'', ''curtain'', ''cv'', ''cyrillic'',
    ''daemon'', ''dao'']"

definition NAMESPACE_ANNEX_3 :: "string list" where
  "NAMESPACE_ANNEX_3 = [
    ''darkroom'', ''darksky'', ''darshan'', ''darzi'', ''db'', ''debug'', ''decent'', ''deed'',
    ''denim'', ''deploy'', ''depot'', ''desk'', ''devanagari'', ''dhaba'', ''dharma'',
    ''diacritic'', ''diagnosis'', ''dialect'', ''dialectic'', ''diaspora'', ''dice'', ''digest'',
    ''dignity'', ''diploma'', ''disclose'', ''dispatch'', ''dispensary'', ''dissent'',
    ''distill'', ''dividend'', ''diwali'', ''dj'', ''do'', ''docent'', ''dockyard'', ''dojo'',
    ''domestique'', ''donate'', ''doodle'', ''dosa'', ''dosage'', ''doula'', ''dovetail'',
    ''dramaturg'', ''drape'', ''drayage'', ''dub'', ''dukan'', ''dune'', ''dungeon'',
    ''dupatta'', ''easel'', ''ecology'', ''econ'', ''elegy'', ''embroider'', ''emporium'',
    ''emulator'', ''encore'', ''endangered'', ''endgame'', ''endowment'', ''ensemble'',
    ''entomology'', ''entropy'', ''enzyme'', ''ephemeris'', ''epic'', ''epigraph'', ''epilogue'',
    ''epistemic'', ''equality'', ''equine'', ''escrow'', ''espresso'', ''essay'', ''estuary'',
    ''eternal'', ''ethics'', ''ethos'', ''etymon'', ''eviction'', ''ex'', ''exchequer'',
    ''exhibit'', ''exile'', ''exoplanet'', ''exploit'', ''fable'', ''factory'', ''fairway'',
    ''falconry'', ''fallow'', ''fandom'', ''farrier'', ''fauna'', ''feast'', ''feline'',
    ''fellow'', ''ferment'', ''fern'', ''ferry'', ''fins'', ''firmware'', ''fiscal'',
    ''fixture'', ''fjord'', ''flamenco'', ''fleet'', ''flyby'', ''flyway'', ''fm'', ''foley'',
    ''folio'', ''folk'', ''folklore'', ''folkname'', ''footnote'', ''forage'', ''forebear'',
    ''forge'', ''formulary'', ''forum'', ''fossil'', ''foundry'', ''fractal'', ''free'',
    ''freedom'', ''freehold'', ''freight'', ''fresco'', ''fretboard'', ''frontier'', ''frugal'',
    ''fugue'', ''furnace'', ''furrow'', ''fx'', ''gaffer'', ''gallop'', ''gambit'', ''gamejam'']"

definition NAMESPACE_ANNEX_4 :: "string list" where
  "NAMESPACE_ANNEX_4 = [
    ''gantry'', ''gather'', ''gazette'', ''genealogy'', ''genome'', ''geriatric'', ''gg'',
    ''gharana'', ''ghazal'', ''ghee'', ''girder'', ''glacier'', ''glaze'', ''glazier'',
    ''glider'', ''glossary'', ''glyph'', ''gnosis'', ''go'', ''goldsmith'', ''gospel'',
    ''gossip'', ''gothic'', ''graft'', ''grammar'', ''granary'', ''gravity'', ''graze'',
    ''greenhouse'', ''greenroom'', ''grid'', ''griddle'', ''gridiron'', ''grimoire'', ''griot'',
    ''groomer'', ''groove'', ''grove'', ''guild'', ''gullak'', ''gurukul'', ''habeas'',
    ''habitat'', ''haggle'', ''haiku'', ''hall'', ''handle'', ''handmade'', ''hangar'',
    ''hangul'', ''harmony'', ''harvest'', ''hatchery'', ''hattrick'', ''haulage'', ''haveli'',
    ''haven'', ''hawker'', ''hd'', ''hearth'', ''hedgerow'', ''heirloom'', ''heliosphere'',
    ''hello'', ''helm'', ''hem'', ''herald'', ''herbarium'', ''herd'', ''here'', ''heritage'',
    ''hi'', ''highscore'', ''hisab'', ''hive'', ''homestead'', ''homework'', ''hoof'',
    ''hospice'', ''hound'', ''housing'', ''hr'', ''huddle'', ''human'', ''humanist'', ''humus'',
    ''hutch'', ''hydro'', ''hymn'', ''hypothesis'', ''iam'', ''id'', ''ident'', ''idiom'',
    ''if'', ''ikat'', ''immune'', ''imprint'', ''improv'', ''in'', ''inclusion'', ''indie'',
    ''indigo'', ''inflation'', ''ingot'', ''inkwell'', ''innings'', ''interpret'', ''invoice'',
    ''io'', ''ip'', ''is'', ''isotope'', ''it'', ''jamboree'', ''jamdani'', ''jargon'', ''jazz'',
    ''jigsaw'', ''joiner'', ''joinery'', ''journal'', ''joystick'', ''js'', ''justice'',
    ''kabaddi'', ''kairos'', ''kanji'', ''karigar'', ''karma'', ''kata'', ''kb'', ''kelp'',
    ''kennel'', ''kernel'', ''keystone'', ''khadi'', ''khata'', ''kibble'', ''kiln'',
    ''kilowatt'', ''kin'']"

definition NAMESPACE_ANNEX_5 :: "string list" where
  "NAMESPACE_ANNEX_5 = [
    ''kino'', ''kinship'', ''kiosk'', ''kirtan'', ''knead'', ''knit'', ''koan'', ''kollektiv'',
    ''kurta'', ''labour'', ''labs'', ''lactation'', ''lading'', ''lagoon'', ''lander'',
    ''landrace'', ''langar'', ''lanparty'', ''larder'', ''lathe'', ''laureate'', ''leaderboard'',
    ''learn'', ''leash'', ''lecture'', ''ledger'', ''legacy'', ''legalaid'', ''legend'',
    ''legume'', ''lemma'', ''lens'', ''lesson'', ''lexeme'', ''lexicon'', ''liberty'',
    ''library'', ''libre'', ''libretto'', ''lichen'', ''liftoff'', ''ligature'', ''limelight'',
    ''lineage'', ''lineup'', ''lingua'', ''linguist'', ''literacy'', ''liturgy'', ''loam'',
    ''loanword'', ''locksmith'', ''lode'', ''lodge'', ''logic'', ''logline'', ''logogram'',
    ''logos'', ''longread'', ''lookbook'', ''loom'', ''loot'', ''lore'', ''ludo'', ''lullaby'',
    ''lunar'', ''luthier'', ''machinist'', ''maestro'', ''mahjong'', ''maidan'', ''main'',
    ''maker'', ''mallet'', ''malt'', ''mandi'', ''mandir'', ''mangrove'', ''manifest'',
    ''mannequin'', ''mantra'', ''manuscript'', ''marathi'', ''marginalia'', ''marina'',
    ''marionette'', ''marquee'', ''marrow'', ''masala'', ''mason'', ''masonry'', ''masthead'',
    ''matcha'', ''matinee'', ''matte'', ''maxim'', ''me'', ''mead'', ''mechanic'', ''medic'',
    ''meeple'', ''meetup'', ''megalith'', ''mehndi'', ''mela'', ''melody'', ''memoir'',
    ''mender'', ''mentor'', ''mesh'', ''meteor'', ''metro'', ''metta'', ''microcredit'',
    ''midden'', ''midwife'', ''midwifery'', ''migrant'', ''mileage'', ''mill'', ''millet'',
    ''milliner'', ''mine'', ''mineral'', ''mixtape'', ''ml'', ''mocap'', ''mods'', ''moksha'',
    ''monastic'', ''monsoon'', ''montage'', ''mortise'', ''mosaic'', ''moss'', ''moto'',
    ''mridangam'', ''mulch'', ''mural'', ''muse'', ''muslin'', ''mutual'']"

definition NAMESPACE_ANNEX_6 :: "string list" where
  "NAMESPACE_ANNEX_6 = [
    ''my'', ''mycology'', ''myself'', ''mystic'', ''myth'', ''namaste'', ''named'', ''nastaliq'',
    ''navratri'', ''nebula'', ''necropolis'', ''nectar'', ''neighbor'', ''neonate'', ''nest'',
    ''nestegg'', ''neural'', ''neuron'', ''news'', ''no'', ''noir'', ''nook'', ''nordic'',
    ''notary'', ''notes'', ''novel'', ''novelist'', ''novella'', ''nurse'', ''nursery'',
    ''oars'', ''oasis'', ''obelisk'', ''observatory'', ''occultation'', ''octave'', ''ode'',
    ''of'', ''offgrid'', ''offside'', ''ok'', ''ombuds'', ''omnibus'', ''on'', ''oncology'',
    ''ontology'', ''oolong'', ''op'', ''open'', ''opendata'', ''opensource'', ''opera'',
    ''optician'', ''orbit'', ''orbiter'', ''orchard'', ''orthography'', ''orthotic'', ''os'',
    ''ossuary'', ''outpost'', ''oversight'', ''own'', ''ozone'', ''p2p'', ''packet'', ''paddle'',
    ''paddock'', ''paddy'', ''painter'', ''paisa'', ''palette'', ''palimpsest'', ''pallet'',
    ''palliative'', ''panchayat'', ''paneer'', ''pantry'', ''papyrus'', ''parable'',
    ''paralegal'', ''parchment'', ''pardesi'', ''parole'', ''parsec'', ''pashmina'', ''pasture'',
    ''patch'', ''pathology'', ''patina'', ''patois'', ''paws'', ''payload'', ''payout'',
    ''payroll'', ''pedal'', ''pediatrics'', ''pedigree'', ''peer'', ''pehlwan'', ''pension'',
    ''percussion'', ''pergola'', ''perigee'', ''permanent'', ''person'', ''petition'',
    ''petroglyph'', ''philology'', ''phoneme'', ''photon'', ''physics'', ''physio'', ''picket'',
    ''pickle'', ''pidgin'', ''pilgrim'', ''pinball'', ''pipeline'', ''pirouette'', ''piste'',
    ''piston'', ''pitch'', ''pitlane'', ''pixel'', ''plankton'', ''planter'', ''plasma'',
    ''plaster'', ''playtest'', ''pleat'', ''pledge'', ''plumage'', ''plumber'', ''plushie'',
    ''pm'', ''podium'', ''polis'', ''pollen'', ''polyglot'', ''polymer'', ''pongal'']"

definition NAMESPACE_ANNEX_7 :: "string list" where
  "NAMESPACE_ANNEX_7 = [
    ''pony'', ''poolside'', ''portage'', ''potager'', ''potluck'', ''pr'', ''praxis'',
    ''precept'', ''preloved'', ''premiere'', ''preprint'', ''primer'', ''prognosis'',
    ''prologue'', ''proscenium'', ''prose'', ''prosody'', ''protein'', ''protest'', ''proto'',
    ''provenance'', ''proverb'', ''psalm'', ''pulsar'', ''punchline'', ''punjabi'', ''punk'',
    ''purr'', ''puzzle'', ''py'', ''qa'', ''qawwali'', ''quantum'', ''quarry'', ''quasar'',
    ''qubit'', ''query'', ''quest'', ''quill'', ''quorum'', ''quote'', ''radiology'', ''rafter'',
    ''raga'', ''raid'', ''rails'', ''railway'', ''rally'', ''ramble'', ''rangmanch'',
    ''rangoli'', ''rd'', ''reagent'', ''rebar'', ''receipt'', ''reef'', ''reel'', ''reentry'',
    ''refinery'', ''refuge'', ''refugee'', ''regatta'', ''reggae'', ''regolith'', ''rehome'',
    ''relay'', ''relic'', ''reliquary'', ''remix'', ''render'', ''renter'', ''reptile'',
    ''resale'', ''resin'', ''resist'', ''respite'', ''restock'', ''restomod'', ''resume'',
    ''retrofit'', ''rewild'', ''rhythm'', ''riddle'', ''ridge'', ''riff'', ''rind'',
    ''ringside'', ''riyaz'', ''robot'', ''roguelike'', ''roof'', ''roofer'', ''roost'', ''root'',
    ''rootstock'', ''rosca'', ''roster'', ''rotoscope'', ''router'', ''runestone'', ''runtime'',
    ''runway'', ''sabbath'', ''sacco'', ''saddle'', ''saffron'', ''saga'', ''sakura'', ''salon'',
    ''samadhi'', ''samosa'', ''samsara'', ''sanctuary'', ''sandbox'', ''sangha'', ''sanskrit'',
    ''sapling'', ''saree'', ''satire'', ''satori'', ''saver'', ''sawdust'', ''scalpel'',
    ''schema'', ''scholar'', ''schwa'', ''score'', ''screening'', ''screenplay'', ''scribe'',
    ''scriptorium'', ''scrum'', ''scythe'', ''seam'', ''secateurs'', ''secular'', ''seed'',
    ''seedling'', ''seismic'', ''self'', ''selfhost'', ''selfrule'']"

definition NAMESPACE_ANNEX_8 :: "string list" where
  "NAMESPACE_ANNEX_8 = [
    ''seller'', ''selvedge'', ''seminar'', ''sequel'', ''serenade'', ''serif'', ''servo'',
    ''sestina'', ''setlist'', ''shard'', ''shelter'', ''sherd'', ''shoal'', ''shodo'', ''shogi'',
    ''shopfloor'', ''shrine'', ''shutter'', ''shuttle'', ''sidereal'', ''signet'', ''signing'',
    ''silicon'', ''silo'', ''simmer'', ''sitar'', ''ska'', ''skein'', ''sketch'', ''skillet'',
    ''skipper'', ''slalom'', ''slang'', ''smelter'', ''smithy'', ''smokehouse'', ''sneaker'',
    ''so'', ''society'', ''socket'', ''sojourn'', ''solace'', ''solder'', ''solidarity'',
    ''soliloquy'', ''solvency'', ''sonata'', ''sonnet'', ''sophia'', ''souk'', ''soul'',
    ''soundstage'', ''sourdough'', ''sov'', ''sovereign'', ''spaceport'', ''sparky'',
    ''sparring'', ''spay'', ''specimen'', ''spectra'', ''speedrun'', ''spice'', ''spindle'',
    ''splint'', ''spoke'', ''spokes'', ''sprite'', ''sprout'', ''stack'', ''stacks'', ''stage'',
    ''stagecraft'', ''stall'', ''standup'', ''stanza'', ''starmap'', ''statute'', ''stele'',
    ''steward'', ''stills'', ''stipend'', ''stitch'', ''stoic'', ''storefront'', ''storyboard'',
    ''strata'', ''strays'', ''streetwear'', ''strike'', ''strings'', ''studbook'', ''stumps'',
    ''stylist'', ''subsidy'', ''subtitle'', ''sudoku'', ''suffrage'', ''summit'', ''sunshine'',
    ''supernova'', ''supplier'', ''surgeon'', ''surplus'', ''surveyor'', ''sutra'', ''suture'',
    ''swahili'', ''swale'', ''swarm'', ''swing'', ''switchback'', ''syllabary'', ''syllabus'',
    ''syllogism'', ''symphony'', ''synapse'', ''syntax'', ''synth'', ''syringe'', ''tabla'',
    ''tabletop'', ''tailor'', ''takaful'', ''tally'', ''tamil'', ''tandoor'', ''tarmac'',
    ''tatami'', ''tavern'', ''taxonomy'', ''teach'', ''teahouse'', ''techno'', ''telemetry'',
    ''teleplay'', ''telescope'', ''telos'', ''tempo'', ''tenant'', ''tensor'', ''terraces'']"

definition NAMESPACE_ANNEX_9 :: "string list" where
  "NAMESPACE_ANNEX_9 = [
    ''terracotta'', ''terrier'', ''textile'', ''thali'', ''thaw'', ''theorem'', ''thespian'',
    ''thimble'', ''thread'', ''thresh'', ''thrift'', ''throttle'', ''thruster'', ''tiffin'',
    ''tiler'', ''tiller'', ''tilth'', ''tinker'', ''tipjar'', ''tithe'', ''to'', ''tome'',
    ''tongue'', ''toolshed'', ''toon'', ''topiary'', ''topology'', ''tourniquet'', ''toybox'',
    ''trader'', ''trailhead'', ''tram'', ''transit'', ''translate'', ''trapeze'', ''treasury'',
    ''triage'', ''tribe'', ''tribunal'', ''trope'', ''troupe'', ''trowel'', ''trucker'',
    ''truffle'', ''tuber'', ''tundra'', ''tuner'', ''turbine'', ''tutor'', ''tv'', ''typeset'',
    ''ui'', ''umami'', ''unbound'', ''uncensored'', ''understudy'', ''underwrite'', ''union'',
    ''up'', ''upcycle'', ''urdu'', ''us'', ''ux'', ''vaccine'', ''vaisakhi'', ''varnish'',
    ''vaudeville'', ''vault'', ''vayu'', ''vector'', ''vellum'', ''velo'', ''velodrome'',
    ''vendor'', ''veneer'', ''verdant'', ''verite'', ''vernacular'', ''verse'', ''vespers'',
    ''vidya'', ''village'', ''villanelle'', ''vineyard'', ''vintner'', ''vinyl'', ''vipassana'',
    ''virtue'', ''vitals'', ''vivarium'', ''voiceover'', ''volunteer'', ''vr'', ''wafer'',
    ''wages'', ''wander'', ''waqf'', ''ward'', ''wardrobe'', ''wares'', ''watchdog'',
    ''watershed'', ''waveform'', ''waypoint'', ''we'', ''weave'', ''weaver'', ''weld'',
    ''welder'', ''wellspring'', ''wetland'', ''wharf'', ''whiskers'', ''whittle'', ''whois'',
    ''wholesale'', ''wicket'', ''winnow'', ''wisdom'', ''woof'', ''workbench'', ''workers'',
    ''works'', ''wp'', ''wrench'', ''xr'', ''yarn'', ''yatra'', ''yeast'', ''yo'', ''yorker'',
    ''zakat'', ''zazen'', ''zine'']"

definition NAMESPACE_ANNEX :: "string list" where
  "NAMESPACE_ANNEX =
     NAMESPACE_ANNEX_1 @
     NAMESPACE_ANNEX_2 @
     NAMESPACE_ANNEX_3 @
     NAMESPACE_ANNEX_4 @
     NAMESPACE_ANNEX_5 @
     NAMESPACE_ANNEX_6 @
     NAMESPACE_ANNEX_7 @
     NAMESPACE_ANNEX_8 @
     NAMESPACE_ANNEX_9"

definition NAMESPACE_ANNEX_SIZE :: nat where
  "NAMESPACE_ANNEX_SIZE = 1270"

lemmas annex_defs = NAMESPACE_ANNEX_def NAMESPACE_ANNEX_1_def NAMESPACE_ANNEX_2_def
  NAMESPACE_ANNEX_3_def NAMESPACE_ANNEX_4_def NAMESPACE_ANNEX_5_def NAMESPACE_ANNEX_6_def
  NAMESPACE_ANNEX_7_def NAMESPACE_ANNEX_8_def NAMESPACE_ANNEX_9_def

subsection \<open>Shape of the list\<close>

text \<open>
  Each part is checked by evaluation; the parts are then put together. \<open>extension_chars\<close> is the
  grammar of an extension on the characters of the list.
\<close>

definition lower_char :: "char \<Rightarrow> bool" where
  "lower_char c = (case c of Char b0 b1 b2 b3 b4 b5 b6 b7 \<Rightarrow>
     \<not> b7 \<and> b6 \<and> b5 \<and> (b0 \<or> b1 \<or> b2 \<or> b3 \<or> b4) \<and> \<not> (b4 \<and> b3 \<and> (b2 \<or> b1 \<and> b0)))"

definition digit_char :: "char \<Rightarrow> bool" where
  "digit_char c = (case c of Char b0 b1 b2 b3 b4 b5 b6 b7 \<Rightarrow>
     \<not> b7 \<and> \<not> b6 \<and> b5 \<and> b4 \<and> \<not> (b3 \<and> (b2 \<or> b1)))"

definition extension_chars :: "string \<Rightarrow> bool" where
  "extension_chars s \<longleftrightarrow> 2 \<le> length s \<and> length s \<le> 12 \<and>
     (case s of [] \<Rightarrow> False | c # cs \<Rightarrow> lower_char c \<and> list_all (\<lambda>d. lower_char d \<or> digit_char d) cs)"

lemmas extension_defs = extension_chars_def lower_char_def digit_char_def

lemma annex_1_chars: "list_all extension_chars NAMESPACE_ANNEX_1"
  by (simp add: NAMESPACE_ANNEX_1_def extension_defs)

lemma annex_2_chars: "list_all extension_chars NAMESPACE_ANNEX_2"
  by (simp add: NAMESPACE_ANNEX_2_def extension_defs)

lemma annex_3_chars: "list_all extension_chars NAMESPACE_ANNEX_3"
  by (simp add: NAMESPACE_ANNEX_3_def extension_defs)

lemma annex_4_chars: "list_all extension_chars NAMESPACE_ANNEX_4"
  by (simp add: NAMESPACE_ANNEX_4_def extension_defs)

lemma annex_5_chars: "list_all extension_chars NAMESPACE_ANNEX_5"
  by (simp add: NAMESPACE_ANNEX_5_def extension_defs)

lemma annex_6_chars: "list_all extension_chars NAMESPACE_ANNEX_6"
  by (simp add: NAMESPACE_ANNEX_6_def extension_defs)

lemma annex_7_chars: "list_all extension_chars NAMESPACE_ANNEX_7"
  by (simp add: NAMESPACE_ANNEX_7_def extension_defs)

lemma annex_8_chars: "list_all extension_chars NAMESPACE_ANNEX_8"
  by (simp add: NAMESPACE_ANNEX_8_def extension_defs)

lemma annex_9_chars: "list_all extension_chars NAMESPACE_ANNEX_9"
  by (simp add: NAMESPACE_ANNEX_9_def extension_defs)

lemma annex_chars: "s \<in> set NAMESPACE_ANNEX \<Longrightarrow> extension_chars s"
  using annex_1_chars annex_2_chars annex_3_chars annex_4_chars annex_5_chars annex_6_chars
    annex_7_chars annex_8_chars annex_9_chars
  unfolding NAMESPACE_ANNEX_def by (auto simp: list_all_iff)

lemma annex_length: "length NAMESPACE_ANNEX = NAMESPACE_ANNEX_SIZE"
  by (simp add: annex_defs NAMESPACE_ANNEX_SIZE_def)

lemma vayu_in_annex [simp]: "''vayu'' \<in> set NAMESPACE_ANNEX"
  by (simp add: annex_defs)

end
