(* ===== verification/Names.thy ===== *)
theory Names
  imports Namespace
begin

section \<open>Labels and top-level domains\<close>

text \<open>
  registry/src/names.ts: the label grammar, the reserved labels, membership of the ratified
  extensions and the parsing of an alias target. Labels and extensions are strings, so lists of
  UTF-16 code units; the regular expressions of the source are tests on code units. The loop of
  \<open>labelRejection\<close> runs over code points; a code point of two units fails the test as a
  whole, and so does each of its units.
\<close>

definition RESERVED_LABELS :: "string list" where
  "RESERVED_LABELS =
     [''www'', ''localhost'', ''example'', ''invalid'', ''test'', ''vayu'', ''control'', ''api'',
      ''resolver'', ''proxy'', ''pac'', ''wpad'']"

definition MAX_LABEL_LENGTH :: nat where "MAX_LABEL_LENGTH = 63"
definition MAX_TLD_LENGTH :: nat where "MAX_TLD_LENGTH = 12"

datatype name_rejection =
    EMPTY | TOO_LONG | BAD_CHARACTER | LEADING_HYPHEN | TRAILING_HYPHEN | RESERVED_IDN_SHAPE
  | RESERVED_LABEL | UNKNOWN_TLD_NAME | BAD_TLD_SHAPE

definition HYPHEN :: "16 word" where "HYPHEN = 0x2D"
definition DOT :: "16 word" where "DOT = 0x2E"

definition is_lower :: "16 word \<Rightarrow> bool" where
  "is_lower u \<longleftrightarrow> 0x61 \<le> u \<and> u \<le> 0x7A"

definition is_digit :: "16 word \<Rightarrow> bool" where
  "is_digit u \<longleftrightarrow> 0x30 \<le> u \<and> u \<le> 0x39"

definition LABEL_CHARACTER :: "16 word \<Rightarrow> bool" where
  "LABEL_CHARACTER u \<longleftrightarrow> is_lower u \<or> is_digit u \<or> u = HYPHEN"

definition labelRejection :: "jsstr \<Rightarrow> name_rejection option" where
  "labelRejection label =
     (if length label = 0 then Some EMPTY
      else if length label > MAX_LABEL_LENGTH then Some TOO_LONG
      else if list_ex (\<lambda>u. \<not> LABEL_CHARACTER u) label then Some BAD_CHARACTER
      else if hd label = HYPHEN then Some LEADING_HYPHEN
      else if last label = HYPHEN then Some TRAILING_HYPHEN
      else if length label \<ge> 4 \<and> label ! 2 = HYPHEN \<and> label ! 3 = HYPHEN then Some RESERVED_IDN_SHAPE
      else if length label \<le> 2 then Some RESERVED_LABEL
      else if label \<in> js ` set RESERVED_LABELS then Some RESERVED_LABEL
      else None)"

definition isWellShapedTld :: "jsstr \<Rightarrow> bool" where
  "isWellShapedTld tld \<longleftrightarrow>
     \<not> (length tld < 2 \<or> length tld > MAX_TLD_LENGTH) \<and>
     (case tld of [] \<Rightarrow> False | c # cs \<Rightarrow> is_lower c \<and> list_all (\<lambda>u. is_lower u \<or> is_digit u) cs)"

definition isRatifiedTld :: "jsstr \<Rightarrow> bool" where
  "isRatifiedTld tld \<longleftrightarrow> tld \<in> js ` set NAMESPACE_ANNEX"

definition nameRejection :: "jsstr \<Rightarrow> jsstr \<Rightarrow> name_rejection option" where
  "nameRejection label tld =
     (if \<not> isWellShapedTld tld then Some BAD_TLD_SHAPE
      else if \<not> isRatifiedTld tld then Some UNKNOWN_TLD_NAME
      else labelRejection label)"

definition assertValidName :: "jsstr \<Rightarrow> jsstr \<Rightarrow> name_rejection + unit" where
  "assertValidName label tld =
     (case nameRejection label tld of None \<Rightarrow> Inr () | Some rejection \<Rightarrow> Inl rejection)"

text \<open>\<open>index_of c s\<close> is \<open>s.indexOf(c)\<close>, with \<open>None\<close> for \<open>-1\<close>.\<close>

fun index_of :: "'a \<Rightarrow> 'a list \<Rightarrow> nat option" where
  "index_of c [] = None"
| "index_of c (x # xs) = (if x = c then Some 0 else map_option Suc (index_of c xs))"

definition parseAlias :: "jsstr \<Rightarrow> (jsstr \<times> jsstr) option" where
  "parseAlias value =
     (case index_of DOT value of
        None \<Rightarrow> None
      | Some separator \<Rightarrow>
          if separator = 0 \<or> separator = length value - 1 then None
          else if index_of DOT (drop (separator + 1) value) \<noteq> None then None
          else let label = take separator value; tld = drop (separator + 1) value in
            if nameRejection label tld \<noteq> None then None else Some (label, tld))"

lemmas [exec] = RESERVED_LABELS_def MAX_LABEL_LENGTH_def MAX_TLD_LENGTH_def HYPHEN_def DOT_def
  is_lower_def is_digit_def LABEL_CHARACTER_def labelRejection_def isWellShapedTld_def
  nameRejection_def parseAlias_def assertValidName_def

subsection \<open>The grammar\<close>

lemma labelRejection_None:
  "labelRejection label = None \<longleftrightarrow>
     3 \<le> length label \<and> length label \<le> 63 \<and> list_all LABEL_CHARACTER label \<and>
     hd label \<noteq> HYPHEN \<and> last label \<noteq> HYPHEN \<and>
     \<not> (4 \<le> length label \<and> label ! 2 = HYPHEN \<and> label ! 3 = HYPHEN) \<and>
     label \<notin> js ` set RESERVED_LABELS"
  unfolding labelRejection_def MAX_LABEL_LENGTH_def
  by (auto simp: list_ex_iff list_all_iff)

lemma label_dot_free: "labelRejection label = None \<Longrightarrow> DOT \<notin> set label"
  unfolding labelRejection_None list_all_iff
  by (force simp: LABEL_CHARACTER_def is_lower_def is_digit_def HYPHEN_def DOT_def)

lemma of_char_letter: "lower_char c \<Longrightarrow> is_lower (of_char c)"
  by (cases c) (auto simp: lower_char_def is_lower_def word_le_nat_alt of_char_def)

lemma of_char_digit: "digit_char c \<Longrightarrow> is_digit (of_char c)"
  by (cases c) (auto simp: digit_char_def is_digit_def word_le_nat_alt of_char_def)

lemma ratified_well_shaped: "isRatifiedTld tld \<Longrightarrow> isWellShapedTld tld"
  unfolding isRatifiedTld_def
  by (auto dest!: annex_chars of_char_letter of_char_digit
      simp: extension_chars_def isWellShapedTld_def MAX_TLD_LENGTH_def list_all_iff js_def
      split: list.splits)

lemma nameRejection_None:
  "nameRejection label tld = None \<longleftrightarrow> isRatifiedTld tld \<and> labelRejection label = None"
  using ratified_well_shaped by (auto simp: nameRejection_def)

lemma ratified_vayu [simp]: "isRatifiedTld [118, 97, 121, 117]"
proof -
  have "js ''vayu'' \<in> js ` set NAMESPACE_ANNEX" by (rule imageI) simp
  then show ?thesis by (simp add: isRatifiedTld_def)
qed

subsection \<open>Alias targets\<close>

lemma index_of_None: "index_of c xs = None \<longleftrightarrow> c \<notin> set xs"
  by (induction xs) auto

lemma index_of_Some:
  "index_of c xs = Some i \<longleftrightarrow> i < length xs \<and> xs ! i = c \<and> c \<notin> set (take i xs)"
proof (induction xs arbitrary: i)
  case (Cons x xs)
  then show ?case by (cases i) auto
qed simp

lemma parseAlias_Some:
  "parseAlias value = Some (label, tld) \<longleftrightarrow>
     value = label @ DOT # tld \<and> nameRejection label tld = None"
proof
  assume "parseAlias value = Some (label, tld)"
  then obtain i where "index_of DOT value = Some i"
    and "label = take i value" "tld = drop (i + 1) value" "nameRejection label tld = None"
    by (auto simp: parseAlias_def Let_def split: option.splits if_splits)
  then show "value = label @ DOT # tld \<and> nameRejection label tld = None"
    using id_take_nth_drop [of i "value"] by (simp add: index_of_Some)
next
  assume r: "value = label @ DOT # tld \<and> nameRejection label tld = None"
  then have n: "labelRejection label = None" and t: "isWellShapedTld tld"
    using ratified_well_shaped by (auto simp: nameRejection_None)
  have "DOT \<notin> set label" using label_dot_free [OF n] .
  moreover have "DOT \<notin> set tld"
    using t by (auto simp: isWellShapedTld_def list_all_iff is_lower_def is_digit_def DOT_def
        split: list.splits)
  moreover have "label \<noteq> []" "tld \<noteq> []"
    using n t by (auto simp: labelRejection_None isWellShapedTld_def)
  moreover from calculation(1) r have "index_of DOT value = Some (length label)"
    by (simp add: index_of_Some)
  ultimately show "parseAlias value = Some (label, tld)"
    using r by (simp add: parseAlias_def index_of_None)
qed

end
