(* ===== verification/Suites.thy ===== *)
theory Suites
  imports Prelude
begin

section \<open>The cryptographic suites\<close>

text \<open>
  registry/src/suites.ts: the suite table and the bounds a verifier reads from it. The free-text
  field \<open>status\<close> of a suite is left out.
\<close>

record Suite =
  suite_id :: int
  suite_signature :: string
  suite_hash :: string
  publicKeyLength :: nat
  signatureLength :: nat
  maxRecordBytes :: nat
  active :: bool

definition LAUNCH_SUITE :: int where "LAUNCH_SUITE = 1"

definition TABLE :: "Suite list" where
  "TABLE = [
     \<lparr>suite_id = 1, suite_signature = ''Ed25519'', suite_hash = ''BLAKE2b-256'',
      publicKeyLength = 32, signatureLength = 64, maxRecordBytes = 4096, active = True\<rparr>,
     \<lparr>suite_id = 2, suite_signature = ''Ed25519 + ML-DSA-65 (hybrid)'', suite_hash = ''BLAKE2b-256'',
      publicKeyLength = 32 + 1952, signatureLength = 64 + 3309, maxRecordBytes = 10240, active = False\<rparr>,
     \<lparr>suite_id = 3, suite_signature = ''ML-DSA-65'', suite_hash = ''SHA3-256'',
      publicKeyLength = 1952, signatureLength = 3309, maxRecordBytes = 10240, active = False\<rparr>,
     \<lparr>suite_id = 4, suite_signature = ''SLH-DSA-SHAKE-128s'', suite_hash = ''SHAKE-256'',
      publicKeyLength = 32, signatureLength = 7856, maxRecordBytes = 12288, active = False\<rparr>]"

definition SUITES :: "(int, Suite) jsmap" where
  "SUITES = map (\<lambda>s. (suite_id s, s)) TABLE"

definition isSafeInteger :: "int \<Rightarrow> bool" where
  "isSafeInteger n \<longleftrightarrow> - MAX_SAFE_INTEGER \<le> n \<and> n \<le> MAX_SAFE_INTEGER"

definition suiteOf :: "int \<Rightarrow> Suite option" where
  "suiteOf n =
     (if \<not> isSafeInteger n then None
      else case map_get SUITES n of
        None \<Rightarrow> None
      | Some suite \<Rightarrow> if active suite then Some suite else None)"

definition activeSuites :: "Suite list" where
  "activeSuites = filter active TABLE"

definition MAX_ACTIVE_RECORD_BYTES :: nat where
  "MAX_ACTIVE_RECORD_BYTES = foldl (\<lambda>m s. max m (maxRecordBytes s)) 0 activeSuites"

lemmas suite_defs = LAUNCH_SUITE_def TABLE_def SUITES_def isSafeInteger_def suiteOf_def
  activeSuites_def

definition suite1 :: Suite where
  "suite1 = \<lparr>suite_id = 1, suite_signature = ''Ed25519'', suite_hash = ''BLAKE2b-256'',
      publicKeyLength = 32, signatureLength = 64, maxRecordBytes = 4096, active = True\<rparr>"

lemma suite1_simps [simp]:
  "suite_id suite1 = 1" "suite_signature suite1 = ''Ed25519''" "publicKeyLength suite1 = 32"
  "signatureLength suite1 = 64" "maxRecordBytes suite1 = 4096" "active suite1"
  by (simp_all add: suite1_def)

lemma suiteOf_eq [exec]: "suiteOf n = (if n = LAUNCH_SUITE then Some suite1 else None)"
  by (simp add: suite_defs suite1_def MAX_SAFE_INTEGER_def)

lemma suiteOf_Some: "suiteOf n = Some s \<longleftrightarrow> n = 1 \<and> s = suite1"
  by (auto simp: suiteOf_eq LAUNCH_SUITE_def)

lemma max_active [simp]: "MAX_ACTIVE_RECORD_BYTES = 4096"
  by (simp add: MAX_ACTIVE_RECORD_BYTES_def suite_defs)

lemma launch_suite_active: "suiteOf LAUNCH_SUITE \<noteq> None"
  by (simp add: suiteOf_eq)

lemmas [exec] = LAUNCH_SUITE_def

subsection \<open>Properties\<close>

text \<open>
  The bound a verifier applies before decoding is the least one that admits every record an
  active suite allows, and a suite that is reserved or unknown is never handed out.
\<close>

theorem suite_bounds:
  "(\<forall>n s. suiteOf n = Some s \<longrightarrow>
      s \<in> set TABLE \<and> suite_id s = n \<and> active s \<and> maxRecordBytes s \<le> MAX_ACTIVE_RECORD_BYTES) \<and>
   (\<exists>n s. suiteOf n = Some s \<and> maxRecordBytes s = MAX_ACTIVE_RECORD_BYTES)"
  by (auto simp: suiteOf_Some TABLE_def suite1_def)

theorem suite_bounds_witness:
  "suite1 \<in> set TABLE \<and> maxRecordBytes suite1 \<le> MAX_ACTIVE_RECORD_BYTES"
  using suite_bounds suiteOf_Some [of 1 suite1] by blast

end
