(* ===== verification/Utf8.thy ===== *)
theory Utf8
  imports Prelude
begin

section \<open>TextEncoder and TextDecoder\<close>

text \<open>
  The standard library's \<open>new TextEncoder()\<close> and
  \<open>new TextDecoder('utf-8', { fatal: true })\<close>, which cbor.ts, record.ts, keys.ts and domain.ts
  use. The encoder replaces a lone surrogate by U+FFFD. The decoder refuses malformed UTF-8 and,
  because the sources leave \<open>ignoreBOM\<close> at its default, drops a leading byte order mark.
  The lemmas show that the decoder is exact apart from that mark: what it accepts is the
  encoding of what it returns.
\<close>

subsection \<open>Code points and code units\<close>

definition is_scalar :: "nat \<Rightarrow> bool" where
  "is_scalar c \<longleftrightarrow> c < 0xD800 \<or> 0xE000 \<le> c \<and> c < 0x110000"

definition high_surrogate :: "16 word \<Rightarrow> bool" where
  "high_surrogate u \<longleftrightarrow> 0xD800 \<le> unat u \<and> unat u < 0xDC00"

definition low_surrogate :: "16 word \<Rightarrow> bool" where
  "low_surrogate u \<longleftrightarrow> 0xDC00 \<le> unat u \<and> unat u < 0xE000"

definition unit_scalar :: "16 word \<Rightarrow> nat" where
  "unit_scalar u = (if high_surrogate u \<or> low_surrogate u then 0xFFFD else unat u)"

fun scalars :: "jsstr \<Rightarrow> nat list" where
  "scalars [] = []"
| "scalars [u] = [unit_scalar u]"
| "scalars (u # v # s) =
     (if high_surrogate u \<and> low_surrogate v
      then (0x10000 + (unat u - 0xD800) * 0x400 + (unat v - 0xDC00)) # scalars s
      else unit_scalar u # scalars (v # s))"

definition units_of :: "nat \<Rightarrow> jsstr" where
  "units_of c =
     (if c < 0x10000 then [word_of_nat c]
      else [word_of_nat (0xD800 + (c - 0x10000) div 0x400),
            word_of_nat (0xDC00 + (c - 0x10000) mod 0x400)])"

subsection \<open>UTF-8\<close>

definition utf8_char :: "nat \<Rightarrow> bytes" where
  "utf8_char c =
     (if c < 0x80 then [word_of_nat c]
      else if c < 0x800 then [word_of_nat (0xC0 + c div 64), word_of_nat (0x80 + c mod 64)]
      else if c < 0x10000 then
        [word_of_nat (0xE0 + c div 4096), word_of_nat (0x80 + c div 64 mod 64),
         word_of_nat (0x80 + c mod 64)]
      else
        [word_of_nat (0xF0 + c div 262144), word_of_nat (0x80 + c div 4096 mod 64),
         word_of_nat (0x80 + c div 64 mod 64), word_of_nat (0x80 + c mod 64)])"

definition continuation :: "byte \<Rightarrow> bool" where
  "continuation b \<longleftrightarrow> 0x80 \<le> unat b \<and> unat b < 0xC0"

definition scalar2 :: "byte \<Rightarrow> byte \<Rightarrow> nat" where
  "scalar2 a b = (unat a - 0xC0) * 64 + (unat b - 0x80)"

definition scalar3 :: "byte \<Rightarrow> byte \<Rightarrow> byte \<Rightarrow> nat" where
  "scalar3 a b c = (unat a - 0xE0) * 4096 + (unat b - 0x80) * 64 + (unat c - 0x80)"

definition scalar4 :: "byte \<Rightarrow> byte \<Rightarrow> byte \<Rightarrow> byte \<Rightarrow> nat" where
  "scalar4 a b c d =
     (unat a - 0xF0) * 262144 + (unat b - 0x80) * 4096 + (unat c - 0x80) * 64 + (unat d - 0x80)"

text \<open>
  A lead byte fixes the length of a sequence; a sequence is refused when a continuation byte is
  missing, when a shorter sequence encodes the same scalar value, and when the value is a
  surrogate or above U+10FFFF.
\<close>

fun utf8_scalars :: "bytes \<Rightarrow> nat list option" where
  "utf8_scalars [] = Some []"
| "utf8_scalars (a # s) =
     (if unat a < 0x80 then map_option (Cons (unat a)) (utf8_scalars s)
      else if 0xC2 \<le> unat a \<and> unat a < 0xE0 then
        (case s of
           b # s' \<Rightarrow>
             if continuation b then map_option (Cons (scalar2 a b)) (utf8_scalars s') else None
         | _ \<Rightarrow> None)
      else if 0xE0 \<le> unat a \<and> unat a < 0xF0 then
        (case s of
           b # c # s' \<Rightarrow>
             if continuation b \<and> continuation c \<and> 0x800 \<le> scalar3 a b c \<and> is_scalar (scalar3 a b c)
             then map_option (Cons (scalar3 a b c)) (utf8_scalars s') else None
         | _ \<Rightarrow> None)
      else if 0xF0 \<le> unat a \<and> unat a < 0xF8 then
        (case s of
           b # c # d # s' \<Rightarrow>
             if continuation b \<and> continuation c \<and> continuation d \<and>
                0x10000 \<le> scalar4 a b c d \<and> is_scalar (scalar4 a b c d)
             then map_option (Cons (scalar4 a b c d)) (utf8_scalars s') else None
         | _ \<Rightarrow> None)
      else None)"

definition BOM :: bytes where
  "BOM = [0xEF, 0xBB, 0xBF]"

definition strip_bom :: "bytes \<Rightarrow> bytes" where
  "strip_bom bs = (if take 3 bs = BOM then drop 3 bs else bs)"

definition text_encode :: "jsstr \<Rightarrow> bytes" where
  "text_encode s = concat (map utf8_char (scalars s))"

definition text_decode :: "bytes \<Rightarrow> jsstr option" where
  "text_decode bs = map_option (\<lambda>cs. concat (map units_of cs)) (utf8_scalars (strip_bom bs))"

lemmas [exec] = is_scalar_def high_surrogate_def low_surrogate_def unit_scalar_def units_of_def
  utf8_char_def continuation_def scalar2_def scalar3_def scalar4_def BOM_def strip_bom_def
  text_encode_def text_decode_def

subsection \<open>The decoder returns the preimage of what it accepts\<close>

lemma utf8_char_scalar1: "unat a < 0x80 \<Longrightarrow> utf8_char (unat a) = [a]" for a :: byte
  by (simp add: utf8_char_def)

lemma continuation_bounds: "continuation b \<Longrightarrow> 0x80 \<le> unat b \<and> unat b < 0x80 + 64"
  by (simp add: continuation_def)

lemma base64_digit:
  assumes "continuation b"
  shows "(q * 64 + (unat b - 0x80)) mod 64 = unat b - 0x80"
    and "(q * 64 + (unat b - 0x80)) div 64 = q"
proof -
  have "unat b - 0x80 < 64"
    using assms by (auto simp: continuation_def)
  then show "(q * 64 + (unat b - 0x80)) mod 64 = unat b - 0x80"
    and "(q * 64 + (unat b - 0x80)) div 64 = q"
    by (simp_all add: mod_mult_self3 div_mult_self3)
qed

lemma byte_offset: "k \<le> unat b \<Longrightarrow> word_of_nat (k + (unat b - k)) = b" for b :: byte
  by simp

lemma utf8_char_scalar2:
  assumes "0xC2 \<le> unat a" "unat a < 0xE0" "continuation b"
  shows "utf8_char (scalar2 a b) = [a, b]" "is_scalar (scalar2 a b)"
proof -
  have bounds: "0x80 \<le> scalar2 a b" "scalar2 a b < 0x800"
    using assms by (auto simp: scalar2_def continuation_def)
  have "scalar2 a b div 64 = unat a - 0xC0" "scalar2 a b mod 64 = unat b - 0x80"
    using base64_digit [OF assms(3)] by (simp_all add: scalar2_def)
  moreover have "0x80 \<le> unat b" using assms(3) by (simp add: continuation_def)
  ultimately show "utf8_char (scalar2 a b) = [a, b]"
    using bounds assms(1) byte_offset [of "0xC0" a] byte_offset [of "0x80" b]
    by (simp add: utf8_char_def del: byte_of_unat)
  show "is_scalar (scalar2 a b)" using bounds by (simp add: is_scalar_def)
qed

lemma utf8_char_scalar3:
  assumes "0xE0 \<le> unat a" "unat a < 0xF0" "continuation b" "continuation c"
    and "0x800 \<le> scalar3 a b c"
  shows "utf8_char (scalar3 a b c) = [a, b, c]"
proof -
  have eq: "scalar3 a b c = ((unat a - 0xE0) * 64 + (unat b - 0x80)) * 64 + (unat c - 0x80)"
    by (simp add: scalar3_def)
  have less: "scalar3 a b c < 0x10000"
    using assms(1-4) by (auto simp: scalar3_def continuation_def)
  have low: "scalar3 a b c mod 64 = unat c - 0x80"
    and q: "scalar3 a b c div 64 = (unat a - 0xE0) * 64 + (unat b - 0x80)"
    unfolding eq by (rule base64_digit [OF assms(4)])+
  have mid: "scalar3 a b c div 64 mod 64 = unat b - 0x80"
    unfolding q by (rule base64_digit(1) [OF assms(3)])
  have top: "scalar3 a b c div 4096 = unat a - 0xE0"
  proof -
    have "scalar3 a b c div 4096 = scalar3 a b c div 64 div 64"
      by (simp add: div_mult2_eq [symmetric])
    also have "\<dots> = unat a - 0xE0" unfolding q by (rule base64_digit(2) [OF assms(3)])
    finally show ?thesis .
  qed
  have "0x80 \<le> unat b" "0x80 \<le> unat c" using assms(3,4) by (auto simp: continuation_def)
  then show ?thesis
    using less assms(1,5) low mid top byte_offset [of "0xE0" a] byte_offset [of "0x80" b]
      byte_offset [of "0x80" c]
    by (simp add: utf8_char_def del: byte_of_unat)
qed

lemma utf8_char_scalar4:
  assumes "0xF0 \<le> unat a" "continuation b" "continuation c" "continuation d"
    and "0x10000 \<le> scalar4 a b c d"
  shows "utf8_char (scalar4 a b c d) = [a, b, c, d]"
proof -
  let ?x = "(unat a - 0xF0) * 64 + (unat b - 0x80)"
  let ?y = "?x * 64 + (unat c - 0x80)"
  have eq: "scalar4 a b c d = ?y * 64 + (unat d - 0x80)"
    by (simp add: scalar4_def)
  have low: "scalar4 a b c d mod 64 = unat d - 0x80" and q1: "scalar4 a b c d div 64 = ?y"
    unfolding eq by (rule base64_digit [OF assms(4)])+
  have m1: "scalar4 a b c d div 64 mod 64 = unat c - 0x80" and q2: "scalar4 a b c d div 64 div 64 = ?x"
    unfolding q1 by (rule base64_digit [OF assms(3)])+
  have m2: "scalar4 a b c d div 64 div 64 mod 64 = unat b - 0x80"
    and q3: "scalar4 a b c d div 64 div 64 div 64 = unat a - 0xF0"
    unfolding q2 by (rule base64_digit [OF assms(2)])+
  have d1: "scalar4 a b c d div 4096 = scalar4 a b c d div 64 div 64"
    and d2: "scalar4 a b c d div 262144 = scalar4 a b c d div 64 div 64 div 64"
    by (simp_all add: div_mult2_eq [symmetric])
  have "0x80 \<le> unat b" "0x80 \<le> unat c" "0x80 \<le> unat d"
    using assms(2-4) by (auto simp: continuation_def)
  then show ?thesis
    using assms(1,5) low m1 m2 q3 byte_offset [of "0xF0" a] byte_offset [of "0x80" b]
      byte_offset [of "0x80" c] byte_offset [of "0x80" d]
    by (simp add: utf8_char_def d1 d2 del: byte_of_unat)
qed

lemma utf8_scalars_exact:
  "utf8_scalars bs = Some cs \<Longrightarrow> concat (map utf8_char cs) = bs \<and> (\<forall>c\<in>set cs. is_scalar c)"
proof (induction bs arbitrary: cs rule: utf8_scalars.induct)
  case 1
  then show ?case by simp
next
  case (2 a s)
  consider "unat a < 0x80" | "0xC2 \<le> unat a" "unat a < 0xE0"
    | "0xE0 \<le> unat a" "unat a < 0xF0" | "0xF0 \<le> unat a" "unat a < 0xF8"
    using "2.prems" by (auto split: if_splits)
  then show ?case
  proof cases
    case 1
    with "2.prems" obtain ds where "utf8_scalars s = Some ds" "cs = unat a # ds"
      by auto
    with 1 "2.IH"(1) show ?thesis by (simp add: utf8_char_scalar1 is_scalar_def)
  next
    case 2
    with "2.prems" obtain b s' ds where s: "s = b # s'" and b: "continuation b"
      and ds: "utf8_scalars s' = Some ds" and cs: "cs = scalar2 a b # ds"
      by (auto split: list.splits if_splits)
    have "concat (map utf8_char ds) = s' \<and> (\<forall>c\<in>set ds. is_scalar c)"
      using 2 by (intro "2.IH"(2) [OF _ _ s b ds]) auto
    then show ?thesis using utf8_char_scalar2 [OF 2 b] by (simp add: cs s)
  next
    case 3
    with "2.prems" obtain b c s' ds where s: "s = b # c # s'"
      and b: "continuation b \<and> continuation c \<and> 0x800 \<le> scalar3 a b c \<and> is_scalar (scalar3 a b c)"
      and ds: "utf8_scalars s' = Some ds" and cs: "cs = scalar3 a b c # ds"
      by (auto split: list.splits if_splits)
    have "concat (map utf8_char ds) = s' \<and> (\<forall>c\<in>set ds. is_scalar c)"
      using 3 s by (intro "2.IH"(3) [OF _ _ _ s refl b ds]) auto
    then show ?thesis using utf8_char_scalar3 [OF 3] b by (simp add: cs s)
  next
    case 4
    with "2.prems" obtain b c d s' ds where s: "s = b # c # d # s'"
      and b: "continuation b \<and> continuation c \<and> continuation d \<and>
        0x10000 \<le> scalar4 a b c d \<and> is_scalar (scalar4 a b c d)"
      and ds: "utf8_scalars s' = Some ds" and cs: "cs = scalar4 a b c d # ds"
      by (auto split: list.splits if_splits)
    have "concat (map utf8_char ds) = s' \<and> (\<forall>c\<in>set ds. is_scalar c)"
      using 4 s by (intro "2.IH"(4) [OF _ _ _ _ s refl refl b ds]) auto
    then show ?thesis using utf8_char_scalar4 [OF 4(1)] b by (simp add: cs s)
  qed
qed

subsection \<open>UTF-16 code units hold the scalars\<close>

lemma unat_unit: "n < 0x10000 \<Longrightarrow> unat (word_of_nat n :: 16 word) = n"
  by (simp add: unat_of_nat)

lemma scalars_units_of:
  assumes "is_scalar c"
  shows "scalars (units_of c @ s) = c # scalars s"
proof (cases "c < 0x10000")
  case True
  then have "unat (word_of_nat c :: 16 word) = c" by (rule unat_unit)
  with assms True show ?thesis
    by (cases s) (auto simp: units_of_def unit_scalar_def high_surrogate_def low_surrogate_def
        is_scalar_def)
next
  case False
  let ?d = "c - 0x10000"
  have small: "?d div 0x400 < 0x400" using assms False by (auto simp: is_scalar_def)
  have hi: "unat (word_of_nat (0xD800 + ?d div 0x400) :: 16 word) = 0xD800 + ?d div 0x400"
    by (rule unat_unit) (use small in simp)
  have lo: "unat (word_of_nat (0xDC00 + ?d mod 0x400) :: 16 word) = 0xDC00 + ?d mod 0x400"
  proof (rule unat_unit)
    have "?d mod 0x400 < 0x400" by simp
    then show "0xDC00 + ?d mod 0x400 < 0x10000" by linarith
  qed
  have "high_surrogate (word_of_nat (0xD800 + ?d div 0x400))"
    using small hi by (simp add: high_surrogate_def)
  moreover have "low_surrogate (word_of_nat (0xDC00 + ?d mod 0x400))"
    using lo by (simp add: low_surrogate_def)
  moreover have "0x10000 + ?d div 0x400 * 0x400 + ?d mod 0x400 = c"
    using False by simp
  ultimately show ?thesis
    using False hi lo by (simp add: units_of_def)
qed

lemma scalars_units:
  "\<forall>c\<in>set cs. is_scalar c \<Longrightarrow> scalars (concat (map units_of cs)) = cs"
  by (induction cs) (auto simp: scalars_units_of)

theorem text_decode_exact:
  assumes "text_decode bs = Some s" "take 3 bs \<noteq> BOM"
  shows "text_encode s = bs"
proof -
  obtain cs where cs: "utf8_scalars bs = Some cs" and s: "s = concat (map units_of cs)"
    using assms by (auto simp: text_decode_def strip_bom_def)
  from utf8_scalars_exact [OF cs] show ?thesis
    by (simp add: s text_encode_def scalars_units)
qed

subsection \<open>ASCII\<close>

definition is_ascii :: "jsstr \<Rightarrow> bool" where
  "is_ascii s \<longleftrightarrow> (\<forall>u\<in>set s. unat u < 0x80)"

lemma scalars_ascii: "is_ascii s \<Longrightarrow> scalars s = map unat s"
  by (induction s rule: scalars.induct)
    (auto simp: is_ascii_def unit_scalar_def high_surrogate_def low_surrogate_def)

lemma text_encode_ascii:
  assumes "is_ascii s"
  shows "text_encode s = map ucast s"
proof -
  have "concat (map utf8_char (map unat s)) = map ucast s"
    using assms by (induction s) (auto simp: is_ascii_def utf8_char_def)
  then show ?thesis using assms by (simp add: text_encode_def scalars_ascii)
qed

lemma length_text_encode_ascii: "is_ascii s \<Longrightarrow> length (text_encode s) = length s"
  by (simp add: text_encode_ascii)

lemma unat_ucast_byte: "unat u < 0x80 \<Longrightarrow> unat (ucast u :: byte) = unat u" for u :: "16 word"
  by (simp add: unsigned_ucast_eq take_bit_eq_mod)

lemma utf8_scalars_ascii:
  "is_ascii s \<Longrightarrow> utf8_scalars (map ucast s) = Some (map unat s)"
  by (induction s) (auto simp: is_ascii_def unat_ucast_byte)

lemma text_decode_encode_ascii:
  assumes "is_ascii s"
  shows "text_decode (text_encode s) = Some s"
proof -
  let ?bs = "map ucast s :: bytes"
  have small: "\<forall>b\<in>set ?bs. unat b < 0x80"
    using assms by (auto simp: is_ascii_def unat_ucast_byte)
  have "take 3 ?bs \<noteq> BOM"
  proof
    assume eq: "take 3 ?bs = BOM"
    then have "0xEF \<in> set (take 3 ?bs)" by (simp only: eq) (simp add: BOM_def)
    then have "(0xEF :: byte) \<in> set ?bs" by (rule in_set_takeD)
    with small have "unat (0xEF :: byte) < 0x80" by blast
    then show False by simp
  qed
  then have strip: "strip_bom ?bs = ?bs" by (simp add: strip_bom_def)
  have "concat (map units_of (map unat s)) = s"
    using assms by (induction s) (auto simp: is_ascii_def units_of_def)
  then show ?thesis
    using assms strip by (simp add: text_decode_def text_encode_ascii utf8_scalars_ascii)
qed

lemma text_encode_append_ascii:
  "is_ascii s \<Longrightarrow> is_ascii t \<Longrightarrow> text_encode (s @ t) = text_encode s @ text_encode t"
  by (simp add: text_encode_ascii is_ascii_def ball_Un)

end
