(* ===== verification/Cbor.thy ===== *)
theory Cbor
  imports Utf8
begin

unbundle bit_operations_syntax

section \<open>Deterministic CBOR\<close>

text \<open>
  registry/src/cbor.ts: the encoder and the strict decoder of the deterministic profile
  (RFC 8949, 4.2.1). The \<open>Writer\<close> is the byte list it has collected; the \<open>Reader\<close> is the
  list of bytes that remain, with the length of the whole input as \<open>limit\<close>.

  The main lemmas: the decoder accepts nothing but the encoder's output, as long as no text item
  starts with a byte order mark (which \<open>TextDecoder\<close> drops), and decoding what was
  encoded gives the value back in canonical form.
\<close>

subsection \<open>Values and errors\<close>

datatype cbor_error =
    CBOR_NEGATIVE_ARGUMENT | CBOR_ARGUMENT_TOO_LARGE | CBOR_NEGATIVE_INT | CBOR_UNSAFE_INTEGER
  | CBOR_DEPTH_EXCEEDED | CBOR_INVALID_TEXT | CBOR_DUPLICATE_KEY | CBOR_TRUNCATED
  | CBOR_NON_CANONICAL | CBOR_INDEFINITE_LENGTH | CBOR_RESERVED_ADDITIONAL
  | CBOR_LENGTH_TOO_LARGE | CBOR_INVALID_UTF8 | CBOR_BAD_MAP_KEY | CBOR_KEYS_OUT_OF_ORDER
  | CBOR_FLOAT_NOT_ALLOWED | CBOR_UNSUPPORTED_SIMPLE | CBOR_UNSUPPORTED_MAJOR
  | CBOR_TRAILING_BYTES

text \<open>
  \<open>CNum\<close> is a \<open>number\<close> and \<open>CBig\<close> a \<open>bigint\<close>. Numbers that are not integers have no
  place here, and neither have the types the encoder answers with \<open>UNSUPPORTED_TYPE\<close>.
  A \<open>Map\<close> compares byte-string keys by identity, so a map may hold two equal ones.
\<close>

datatype cbor_key = KText jsstr | KBytes bytes

datatype cbor =
    CNum int
  | CBig int
  | CBytes bytes
  | CText jsstr
  | CArr "cbor list"
  | CMap "(cbor_key \<times> cbor) list"
  | CNull

type_synonym cbor_map = "(cbor_key \<times> cbor) list"

definition MAJOR_UINT :: byte where "MAJOR_UINT = 0"
definition MAJOR_BSTR :: byte where "MAJOR_BSTR = 2"
definition MAJOR_TSTR :: byte where "MAJOR_TSTR = 3"
definition MAJOR_ARRAY :: byte where "MAJOR_ARRAY = 4"
definition MAJOR_MAP :: byte where "MAJOR_MAP = 5"
definition MAJOR_SIMPLE :: byte where "MAJOR_SIMPLE = 7"
definition SIMPLE_NULL :: byte where "SIMPLE_NULL = 22"

lemmas major_defs = MAJOR_UINT_def MAJOR_BSTR_def MAJOR_TSTR_def MAJOR_ARRAY_def MAJOR_MAP_def
  MAJOR_SIMPLE_def SIMPLE_NULL_def

subsection \<open>Encoding\<close>

definition head :: "byte \<Rightarrow> int \<Rightarrow> cbor_error + bytes" where
  "head major argument =
     (if argument < 0 then Inl CBOR_NEGATIVE_ARGUMENT
      else let base = push_bit 5 major in
        if argument < 24 then Inr [base OR word_of_int argument]
        else if argument \<le> 0xff then Inr [base OR 24, word_of_int argument]
        else if argument \<le> 0xffff then Inr ((base OR 25) # be_bytes 2 (nat argument))
        else if argument \<le> 0xffffffff then Inr ((base OR 26) # be_bytes 4 (nat argument))
        else if argument \<le> 0xffffffffffffffff then Inr ((base OR 27) # be_bytes 8 (nat argument))
        else Inl CBOR_ARGUMENT_TOO_LARGE)"

fun assertUint :: "cbor \<Rightarrow> cbor_error + int" where
  "assertUint (CBig n) = failIf (n < 0) CBOR_NEGATIVE_INT (Inr n)"
| "assertUint (CNum n) =
     failIf (n < 0) CBOR_NEGATIVE_INT (failIf (n > MAX_SAFE_INTEGER) CBOR_UNSAFE_INTEGER (Inr n))"
| "assertUint _ = Inr 0"

fun compareBytes :: "bytes \<Rightarrow> bytes \<Rightarrow> int" where
  "compareBytes (a # as) (b # bs) =
     (if a \<noteq> b then (if a < b then -1 else 1) else compareBytes as bs)"
| "compareBytes [] [] = 0"
| "compareBytes [] _ = -1"
| "compareBytes _ [] = 1"

fun adjacent_equal :: "bytes list \<Rightarrow> bool" where
  "adjacent_equal (a # b # ks) \<longleftrightarrow> compareBytes a b = 0 \<or> adjacent_equal (b # ks)"
| "adjacent_equal _ \<longleftrightarrow> False"

primrec key_value :: "cbor_key \<Rightarrow> cbor" where
  "key_value (KText s) = CText s"
| "key_value (KBytes b) = CBytes b"

function encodeValue :: "cbor \<Rightarrow> nat \<Rightarrow> cbor_error + bytes" where
  "encodeValue CNull depth =
     failIf (32 < depth) CBOR_DEPTH_EXCEEDED (Inr [push_bit 5 MAJOR_SIMPLE OR SIMPLE_NULL])"
| "encodeValue (CNum n) depth =
     failIf (32 < depth) CBOR_DEPTH_EXCEEDED (bindE (assertUint (CNum n)) (head MAJOR_UINT))"
| "encodeValue (CBig n) depth =
     failIf (32 < depth) CBOR_DEPTH_EXCEEDED (bindE (assertUint (CBig n)) (head MAJOR_UINT))"
| "encodeValue (CBytes b) depth =
     failIf (32 < depth) CBOR_DEPTH_EXCEEDED
       (bindE (head MAJOR_BSTR (int (length b))) (\<lambda>h. Inr (h @ b)))"
| "encodeValue (CText s) depth =
     failIf (32 < depth) CBOR_DEPTH_EXCEEDED
       (let b = text_encode s in
        failIf (text_decode b \<noteq> Some s) CBOR_INVALID_TEXT
          (bindE (head MAJOR_TSTR (int (length b))) (\<lambda>h. Inr (h @ b))))"
| "encodeValue (CArr xs) depth =
     failIf (32 < depth) CBOR_DEPTH_EXCEEDED
       (bindE (head MAJOR_ARRAY (int (length xs))) (\<lambda>h.
        bindE (mapE (\<lambda>x. encodeValue x (Suc depth)) xs) (\<lambda>bs. Inr (h @ concat bs))))"
| "encodeValue (CMap m) depth =
     failIf (32 < depth) CBOR_DEPTH_EXCEEDED
       (bindE (mapE (\<lambda>(k, v). bindE (encodeValue (key_value k) (Suc depth)) (\<lambda>kb. Inr (kb, v))) m)
         (\<lambda>entries.
          let sorted_entries = sort_key fst entries in
          failIf (adjacent_equal (map fst sorted_entries)) CBOR_DUPLICATE_KEY
            (bindE (head MAJOR_MAP (int (length sorted_entries))) (\<lambda>h.
             bindE (mapE (\<lambda>(kb, v). bindE (encodeValue v (Suc depth)) (\<lambda>b. Inr (kb @ b))) sorted_entries)
               (\<lambda>bs. Inr (h @ concat bs))))))"
  by pat_completeness auto
termination
  by (relation "measure (\<lambda>(v, depth). 33 - depth)") auto

definition encode :: "cbor \<Rightarrow> cbor_error + bytes" where
  "encode v = encodeValue v 0"

subsection \<open>Decoding\<close>

primrec read_byte :: "bytes \<Rightarrow> cbor_error + byte \<times> bytes" where
  "read_byte [] = Inl CBOR_TRUNCATED"
| "read_byte (b # bs) = Inr (b, bs)"

definition read_take :: "nat \<Rightarrow> bytes \<Rightarrow> cbor_error + bytes \<times> bytes" where
  "read_take n bs = failIf (length bs < n) CBOR_TRUNCATED (Inr (take n bs, drop n bs))"

definition readArgument :: "nat \<Rightarrow> bytes \<Rightarrow> cbor_error + nat \<times> bytes" where
  "readArgument additional bs =
     (if additional < 24 then Inr (additional, bs)
      else if additional = 24 then
        bindE (read_byte bs) (\<lambda>(b, r). failIf (unat b < 24) CBOR_NON_CANONICAL (Inr (unat b, r)))
      else if additional = 25 then
        bindE (read_take 2 bs) (\<lambda>(b, r).
          failIf (be_value b \<le> 0xff) CBOR_NON_CANONICAL (Inr (be_value b, r)))
      else if additional = 26 then
        bindE (read_take 4 bs) (\<lambda>(b, r).
          failIf (be_value b \<le> 0xffff) CBOR_NON_CANONICAL (Inr (be_value b, r)))
      else if additional = 27 then
        bindE (read_take 8 bs) (\<lambda>(b, r).
          failIf (be_value b \<le> 0xffffffff) CBOR_NON_CANONICAL (Inr (be_value b, r)))
      else if additional = 31 then Inl CBOR_INDEFINITE_LENGTH
      else Inl CBOR_RESERVED_ADDITIONAL)"

definition toLength :: "nat \<Rightarrow> nat \<Rightarrow> cbor_error + nat" where
  "toLength argument limit = failIf (limit < argument) CBOR_LENGTH_TOO_LARGE (Inr argument)"

definition readLength :: "nat \<Rightarrow> nat \<Rightarrow> bytes \<Rightarrow> cbor_error + nat \<times> bytes" where
  "readLength limit additional bs =
     bindE (readArgument additional bs) (\<lambda>(v, r).
     bindE (toLength v limit) (\<lambda>len. Inr (len, r)))"

definition put_entry :: "cbor_key \<Rightarrow> cbor \<Rightarrow> cbor_map \<Rightarrow> cbor_map" where
  "put_entry k v m = (case k of KText _ \<Rightarrow> map_set k v m | KBytes _ \<Rightarrow> m @ [(k, v)])"

fun map_key :: "cbor \<Rightarrow> cbor_error + cbor_key" where
  "map_key (CText s) = Inr (KText s)"
| "map_key (CBytes b) = Inr (KBytes b)"
| "map_key _ = Inl CBOR_BAD_MAP_KEY"

primrec key_order :: "bytes option \<Rightarrow> bytes \<Rightarrow> cbor_error + unit" where
  "key_order None kb = Inr ()"
| "key_order (Some prev) kb =
     (if compareBytes prev kb = 0 then Inl CBOR_DUPLICATE_KEY
      else if compareBytes prev kb > 0 then Inl CBOR_KEYS_OUT_OF_ORDER
      else Inr ())"

function decodeValue :: "nat \<Rightarrow> nat \<Rightarrow> bytes \<Rightarrow> cbor_error + cbor \<times> bytes"
  and decodeItems :: "nat \<Rightarrow> nat \<Rightarrow> nat \<Rightarrow> bytes \<Rightarrow> cbor_error + cbor list \<times> bytes"
  and decodeEntries ::
    "nat \<Rightarrow> nat \<Rightarrow> nat \<Rightarrow> bytes option \<Rightarrow> cbor_map \<Rightarrow> bytes \<Rightarrow> cbor_error + cbor_map \<times> bytes"
where
  "decodeValue limit depth bs =
     failIf (32 < depth) CBOR_DEPTH_EXCEEDED
       (bindE (read_byte bs) (\<lambda>(initial, bs1).
        let major = drop_bit 5 initial; additional = unat (initial AND 0x1f) in
        if major = MAJOR_UINT then
          bindE (readArgument additional bs1) (\<lambda>(v, r).
            Inr (if int v \<le> MAX_SAFE_INTEGER then CNum (int v) else CBig (int v), r))
        else if major = MAJOR_BSTR then
          bindE (readLength limit additional bs1) (\<lambda>(len, bs2).
          bindE (read_take len bs2) (\<lambda>(raw, r). Inr (CBytes raw, r)))
        else if major = MAJOR_TSTR then
          bindE (readLength limit additional bs1) (\<lambda>(len, bs2).
          bindE (read_take len bs2) (\<lambda>(raw, r).
            case text_decode raw of None \<Rightarrow> Inl CBOR_INVALID_UTF8 | Some s \<Rightarrow> Inr (CText s, r)))
        else if major = MAJOR_ARRAY then
          bindE (readLength limit additional bs1) (\<lambda>(len, bs2).
          bindE (decodeItems limit (Suc depth) len bs2) (\<lambda>(xs, r). Inr (CArr xs, r)))
        else if major = MAJOR_MAP then
          bindE (readLength limit additional bs1) (\<lambda>(len, bs2).
          bindE (decodeEntries limit (Suc depth) len None [] bs2) (\<lambda>(m, r). Inr (CMap m, r)))
        else if major = MAJOR_SIMPLE then
          (if additional = unat SIMPLE_NULL then Inr (CNull, bs1)
           else if additional \<in> {25, 26, 27} then Inl CBOR_FLOAT_NOT_ALLOWED
           else Inl CBOR_UNSUPPORTED_SIMPLE)
        else Inl CBOR_UNSUPPORTED_MAJOR))"
| "decodeItems limit depth 0 bs = Inr ([], bs)"
| "decodeItems limit depth (Suc n) bs =
     bindE (decodeValue limit depth bs) (\<lambda>(x, bs1).
     bindE (decodeItems limit depth n bs1) (\<lambda>(xs, r). Inr (x # xs, r)))"
| "decodeEntries limit depth 0 prev out bs = Inr (out, bs)"
| "decodeEntries limit depth (Suc n) prev out bs =
     bindE (decodeValue limit depth bs) (\<lambda>(key, bs1).
     let keyBytes = take (length bs - length bs1) bs in
     bindE (map_key key) (\<lambda>k.
     bindE (key_order prev keyBytes) (\<lambda>_.
     bindE (decodeValue limit depth bs1) (\<lambda>(v, bs2).
       decodeEntries limit depth n (Some keyBytes) (put_entry k v out) bs2))))"
  by pat_completeness auto
termination
  by (relation "measures
      [\<lambda>p. case p of Inl (_, d, _) \<Rightarrow> 33 - d | Inr (Inl (_, d, _, _)) \<Rightarrow> 33 - d
              | Inr (Inr (_, d, _, _, _, _)) \<Rightarrow> 33 - d,
       \<lambda>p. case p of Inl _ \<Rightarrow> 0 | Inr (Inl (_, _, n, _)) \<Rightarrow> Suc n
              | Inr (Inr (_, _, n, _, _, _)) \<Rightarrow> Suc n]") auto

declare decodeValue.simps [simp del]

definition decode :: "bytes \<Rightarrow> cbor_error + cbor" where
  "decode bs =
     bindE (decodeValue (length bs) 0 bs) (\<lambda>(v, r).
     failIf (r \<noteq> []) CBOR_TRAILING_BYTES (Inr v))"

definition isDeterministic :: "bytes \<Rightarrow> bool" where
  "isDeterministic bs =
     (case decode bs of
        Inl _ \<Rightarrow> False
      | Inr v \<Rightarrow> (case encode v of Inl _ \<Rightarrow> False | Inr bs' \<Rightarrow> compareBytes bs' bs = 0))"


lemma decodeItems_numeral [exec]:
  "decodeItems limit depth (numeral k) bs =
     bindE (decodeValue limit depth bs) (\<lambda>(x, bs1).
     bindE (decodeItems limit depth (pred_numeral k) bs1) (\<lambda>(xs, r). Inr (x # xs, r)))"
  by (metis numeral_eq_Suc decodeItems.simps(2))

lemma decodeEntries_numeral [exec]:
  "decodeEntries limit depth (numeral k) prev out bs =
     bindE (decodeValue limit depth bs) (\<lambda>(key, bs1).
     let keyBytes = take (length bs - length bs1) bs in
     bindE (map_key key) (\<lambda>k'.
     bindE (key_order prev keyBytes) (\<lambda>_.
     bindE (decodeValue limit depth bs1) (\<lambda>(v, bs2).
       decodeEntries limit depth (pred_numeral k) (Some keyBytes) (put_entry k' v out) bs2))))"
  by (metis numeral_eq_Suc decodeEntries.simps(2))

lemmas [exec] = major_defs head_def encode_def read_take_def readArgument_def toLength_def
  readLength_def put_entry_def decodeValue.simps decode_def isDeterministic_def

subsection \<open>Heads\<close>

lemma and_31: "b AND 31 = take_bit 5 (b::byte)"
  by (simp add: take_bit_eq_mask mask_eq_exp_minus_1)

lemma take_bit_small: "unat w < 2 ^ n \<Longrightarrow> take_bit n w = (w :: byte)"
  by (simp add: word_unat_eq_iff unsigned_take_bit_eq take_bit_nat_eq_self)

lemma head_split: "push_bit 5 (drop_bit 5 b) OR (b AND 31) = (b::byte)"
  unfolding and_31 by (rule bit_word_eqI) (auto simp: bit_simps)

lemma head_join:
  fixes m a :: byte
  assumes "unat m < 8" "unat a < 32"
  shows "drop_bit 5 (push_bit 5 m OR a) = m" "(push_bit 5 m OR a) AND 31 = a"
proof -
  have m: "take_bit 3 m = m" and a: "take_bit 5 a = a"
    using assms by (simp_all add: take_bit_small)
  have "drop_bit 5 (push_bit 5 (take_bit 3 m) OR take_bit 5 a) = take_bit 3 m"
    by (rule bit_word_eqI) (auto simp: bit_simps)
  then show "drop_bit 5 (push_bit 5 m OR a) = m" by (simp only: m a)
  have "take_bit 5 (push_bit 5 m OR take_bit 5 a) = take_bit 5 a"
    by (rule bit_word_eqI) (auto simp: bit_simps)
  then show "(push_bit 5 m OR a) AND 31 = a" by (simp only: and_31 a)
qed
lemma compareBytes_eq: "compareBytes a b = (if a = b then 0 else if a < b then -1 else 1)"
  by (induction a b rule: compareBytes.induct) auto
lemma adjacent_equal_sorted: "sorted ks \<Longrightarrow> adjacent_equal ks \<longleftrightarrow> \<not> distinct ks"
  by (induction ks rule: adjacent_equal.induct) (auto simp: compareBytes_eq)

lemma be_bytes_1: "be_bytes (Suc 0) v = [word_of_nat (v mod 256)]"
  by simp

lemma word_of_int_byte: "word_of_int (int n) = (word_of_nat n :: byte)"
  by simp

lemma read_take_eq: "read_take n bs = Inr (b, r) \<longleftrightarrow> bs = b @ r \<and> length b = n"
  by (auto simp: read_take_def errs)

lemma read_byte_eq: "read_byte bs = Inr (b, r) \<longleftrightarrow> bs = b # r"
  by (cases bs) auto

lemma unat_eq_byte: "unat (b :: byte) = n \<longleftrightarrow> n < 256 \<and> b = word_of_nat n"
  by (auto simp: unat_of_nat)

lemma readArgument_head:
  assumes "readArgument (unat (b AND 31)) bs = Inr (v, r)"
  shows "\<exists>p. bs = p @ r \<and> head (drop_bit 5 b) (int v) = Inr (b # p)"
proof -
  let ?a = "unat (b AND 31)"
  have split: "push_bit 5 (drop_bit 5 b) OR word_of_nat ?a = b"
    using head_split [of b] by simp
  have a: "x = word_of_nat n" if "unat x = n" for x :: byte and n using that by auto
  from assms consider (small) "?a < 24" "v = ?a" "bs = r"
    | (one) x where "?a = 24" "bs = x # r" "v = unat x" "24 \<le> v"
    | (two) w where "?a = 25" "bs = w @ r" "length w = 2" "v = be_value w" "0xff < v"
    | (four) w where "?a = 26" "bs = w @ r" "length w = 4" "v = be_value w" "0xffff < v"
    | (eight) w where "?a = 27" "bs = w @ r" "length w = 8" "v = be_value w" "0xffffffff < v"
    by (auto simp: readArgument_def errs read_take_eq read_byte_eq not_less not_le split: if_splits)
  then show ?thesis
  proof cases
    case small
    then have "int ?a < 24" by linarith
    then show ?thesis using small split by (auto simp: head_def Let_def)
  next
    case one
    then have "24 \<le> int v" "int v < 256" using unat_byte_less [of x] by linarith+
    then show ?thesis using one split by (auto simp: head_def Let_def)
  next
    case two
    then have "v < 65536" using be_value_less [of w] by simp
    then show ?thesis using two split be_bytes_be_value [of w] by (auto simp: head_def Let_def)
  next
    case four
    then have "v < 4294967296" using be_value_less [of w] by simp
    then show ?thesis using four split be_bytes_be_value [of w] by (auto simp: head_def Let_def)
  next
    case eight
    then have "v < 18446744073709551616" using be_value_less [of w] by simp
    then show ?thesis using eight split be_bytes_be_value [of w] by (auto simp: head_def Let_def)
  qed
qed

lemma head_nonneg: "head major n = Inr h \<Longrightarrow> 0 \<le> n"
  by (auto simp: head_def split: if_splits)

lemma head_readArgument:
  assumes "head major n = Inr h" "unat major < 8"
  obtains i p where "h = i # p" "drop_bit 5 i = major"
    "\<And>r. readArgument (unat (i AND 31)) (p @ r) = Inr (nat n, r)"
proof -
  have join: "drop_bit 5 (push_bit 5 major OR a) = major" "(push_bit 5 major OR a) AND 31 = a"
    if "unat a < 32" for a
    using head_join [OF assms(2) that] by auto
  have n: "0 \<le> n" using assms(1) by (rule head_nonneg)
  have be: "be_value (be_bytes k (nat n)) = nat n" if "nat n < 256 ^ k" for k
    using that by (rule be_value_be_bytes)
  consider (small) "n < 24" "h = [push_bit 5 major OR word_of_int n]"
    | (one) "24 \<le> n" "n \<le> 0xff" "h = [push_bit 5 major OR 24, word_of_int n]"
    | (two) "0xff < n" "n \<le> 0xffff" "h = (push_bit 5 major OR 25) # be_bytes 2 (nat n)"
    | (four) "0xffff < n" "n \<le> 0xffffffff" "h = (push_bit 5 major OR 26) # be_bytes 4 (nat n)"
    | (eight) "0xffffffff < n" "n \<le> 0xffffffffffffffff"
        "h = (push_bit 5 major OR 27) # be_bytes 8 (nat n)"
    using assms(1) by (auto simp: head_def Let_def split: if_splits)
  then show ?thesis
  proof cases
    case small
    have u: "unat (word_of_int n :: byte) = nat n"
      using small(1) n unat_byte_of_nat [of "nat n"] by simp
    then have "unat (word_of_int n :: byte) < 32" using small(1) n by linarith
    from join [OF this] show ?thesis
      by (intro that [OF small(2)]) (use small u in \<open>simp_all add: readArgument_def\<close>)
  next
    case one
    have u: "unat (word_of_int n :: byte) = nat n"
      using one(2) n unat_byte_of_nat [of "nat n"] by simp
    show ?thesis
      by (rule that [OF one(3)]) (use one u join [of 24] in \<open>simp_all add: readArgument_def\<close>)
  next
    case two
    show ?thesis
      by (rule that [OF two(3)])
        (use two be [of 2] join [of 25] in \<open>simp_all add: readArgument_def read_take_def\<close>)
  next
    case four
    show ?thesis
      by (rule that [OF four(3)])
        (use four be [of 4] join [of 26] in \<open>simp_all add: readArgument_def read_take_def\<close>)
  next
    case eight
    show ?thesis
      by (rule that [OF eight(3)])
        (use eight be [of 8] join [of 27] in \<open>simp_all add: readArgument_def read_take_def\<close>)
  qed
qed

subsection \<open>The decoder accepts only the encoder's output\<close>

fun no_bom :: "bytes \<Rightarrow> bool" where
  "no_bom [] = True"
| "no_bom (b # bs) = (take 3 (b # bs) \<noteq> BOM \<and> no_bom bs)"

lemma no_bom_appendD: "no_bom (p @ r) \<Longrightarrow> no_bom r"
  by (induction p) auto

lemma no_bom_prefixD: "no_bom (p @ r) \<Longrightarrow> take 3 p \<noteq> BOM"
proof (cases p)
  case Nil
  then show ?thesis by (simp add: BOM_def)
next
  case (Cons b bs)
  assume nb: "no_bom (p @ r)"
  show ?thesis
  proof
    assume bom: "take 3 p = BOM"
    then have "3 \<le> length p" by (metis BOM_def One_nat_def length_take list.size(3,4) min_def nat_le_linear numeral_3_eq_3 plus_nat.add_0 plus_nat.simps(2) order_refl)
    then have "take 3 (p @ r) = BOM" using bom by simp
    with nb Cons show False by simp
  qed
qed

lemma readLength_eq:
  "readLength limit a bs = Inr (len, r) \<longleftrightarrow> readArgument a bs = Inr (len, r) \<and> len \<le> limit"
  by (auto simp: readLength_def toLength_def errs)

lemma decodeValue_cases:
  assumes "decodeValue limit depth bs = Inr (v, r)"
  obtains
    (num) i bs1 n where "depth \<le> 32" "bs = i # bs1" "drop_bit 5 i = MAJOR_UINT"
      "readArgument (unat (i AND 31)) bs1 = Inr (n, r)"
      "v = (if int n \<le> MAX_SAFE_INTEGER then CNum (int n) else CBig (int n))"
  | (byt) i bs1 len bs2 raw where "depth \<le> 32" "bs = i # bs1" "drop_bit 5 i = MAJOR_BSTR"
      "readArgument (unat (i AND 31)) bs1 = Inr (len, bs2)" "len \<le> limit"
      "bs2 = raw @ r" "length raw = len" "v = CBytes raw"
  | (str) i bs1 len bs2 raw s where "depth \<le> 32" "bs = i # bs1" "drop_bit 5 i = MAJOR_TSTR"
      "readArgument (unat (i AND 31)) bs1 = Inr (len, bs2)" "len \<le> limit"
      "bs2 = raw @ r" "length raw = len" "text_decode raw = Some s" "v = CText s"
  | (arr) i bs1 len bs2 xs where "depth \<le> 32" "bs = i # bs1" "drop_bit 5 i = MAJOR_ARRAY"
      "readArgument (unat (i AND 31)) bs1 = Inr (len, bs2)" "len \<le> limit"
      "decodeItems limit (Suc depth) len bs2 = Inr (xs, r)" "v = CArr xs"
  | (map) i bs1 len bs2 m where "depth \<le> 32" "bs = i # bs1" "drop_bit 5 i = MAJOR_MAP"
      "readArgument (unat (i AND 31)) bs1 = Inr (len, bs2)" "len \<le> limit"
      "decodeEntries limit (Suc depth) len None [] bs2 = Inr (m, r)" "v = CMap m"
  | (null) i where "depth \<le> 32" "bs = i # r" "drop_bit 5 i = MAJOR_SIMPLE"
      "unat (i AND 31) = unat SIMPLE_NULL" "v = CNull"
proof -
  from assms have d: "depth \<le> 32" by (simp add: decodeValue.simps [of limit depth bs] errs)
  from assms obtain i bs1 where bs: "bs = i # bs1"
    by (cases bs) (auto simp: decodeValue.simps [of limit depth] errs)
  note eq = assms [unfolded bs decodeValue.simps [of limit depth "i # bs1"]]
  have distinct: "distinct [MAJOR_UINT, MAJOR_BSTR, MAJOR_TSTR, MAJOR_ARRAY, MAJOR_MAP, MAJOR_SIMPLE]"
    by (simp add: major_defs)
  let ?m = "drop_bit 5 i"
  consider "?m = MAJOR_UINT" | "?m = MAJOR_BSTR" | "?m = MAJOR_TSTR" | "?m = MAJOR_ARRAY"
    | "?m = MAJOR_MAP" | "?m = MAJOR_SIMPLE"
    | "?m \<notin> {MAJOR_UINT, MAJOR_BSTR, MAJOR_TSTR, MAJOR_ARRAY, MAJOR_MAP, MAJOR_SIMPLE}" by blast
  then show ?thesis
  proof cases
    case 1
    with eq d show ?thesis by (auto simp: errs Let_def intro: num [OF d bs])
  next
    case 2
    with eq d distinct show ?thesis
      by (auto simp: errs Let_def read_take_eq readLength_eq intro: byt [OF d bs])
  next
    case 3
    with eq d distinct obtain raw s where
      "readArgument (unat (i AND 31)) bs1 = Inr (length raw, raw @ r)" "length raw \<le> limit"
      "text_decode raw = Some s" "v = CText s"
      by (auto simp: errs Let_def read_take_eq readLength_eq split: option.splits)
    then show ?thesis by (intro str [OF d bs 3]) auto
  next
    case 4
    with eq d distinct show ?thesis
      by (auto simp: errs Let_def readLength_eq intro: arr [OF d bs])
  next
    case 5
    with eq d distinct show ?thesis
      by (auto simp: errs Let_def readLength_eq intro: map [OF d bs])
  next
    case 6
    with eq d distinct bs show ?thesis
      by (auto simp: errs Let_def split: if_splits intro: null)
  next
    case 7
    with eq d show ?thesis by (simp add: errs Let_def)
  qed
qed

definition value_exact :: "nat \<Rightarrow> nat \<Rightarrow> bool" where
  "value_exact limit depth \<longleftrightarrow>
     (\<forall>bs v r. decodeValue limit depth bs = Inr (v, r) \<longrightarrow> no_bom bs \<longrightarrow>
        (\<exists>p. bs = p @ r \<and> encodeValue v depth = Inr p))"

lemma value_exactD:
  assumes "value_exact limit depth" "decodeValue limit depth bs = Inr (v, r)" "no_bom bs"
  obtains p where "bs = p @ r" "encodeValue v depth = Inr p" "no_bom r"
  using assms no_bom_appendD unfolding value_exact_def by blast

lemma decodeItems_exact:
  assumes "value_exact limit depth"
  shows "decodeItems limit depth n bs = Inr (vs, r) \<Longrightarrow> no_bom bs \<Longrightarrow>
    \<exists>ps. bs = concat ps @ r \<and> length vs = n \<and> mapE (\<lambda>x. encodeValue x depth) vs = Inr ps"
proof (induction n arbitrary: bs vs)
  case 0
  then show ?case by simp
next
  case (Suc n)
  from Suc.prems obtain x bs1 xs where x: "decodeValue limit depth bs = Inr (x, bs1)"
    and xs: "decodeItems limit depth n bs1 = Inr (xs, r)" and vs: "vs = x # xs"
    by (auto simp: errs)
  from value_exactD [OF assms x Suc.prems(2)] obtain p
    where p: "bs = p @ bs1" "encodeValue x depth = Inr p" "no_bom bs1" .
  from Suc.IH [OF xs p(3)] obtain ps where
    "bs1 = concat ps @ r" "length xs = n" "mapE (\<lambda>x. encodeValue x depth) xs = Inr ps" by blast
  with p show ?case by (intro exI [of _ "p # ps"]) (simp add: vs)
qed

definition entry_bytes :: "nat \<Rightarrow> cbor_key \<times> cbor \<Rightarrow> bytes \<times> bytes \<Rightarrow> bool" where
  "entry_bytes depth e b \<longleftrightarrow>
     encodeValue (key_value (fst e)) depth = Inr (fst b) \<and> encodeValue (snd e) depth = Inr (snd b)"

lemma map_key_value: "map_key v = Inr k \<Longrightarrow> key_value k = v"
  by (cases v rule: map_key.cases) auto

lemma put_entry_new:
  assumes "\<forall>(k', v')\<in>set m. k' \<noteq> k"
  shows "put_entry k v m = m @ [(k, v)]"
proof (cases k)
  case (KText s)
  have "map_set k v m = m @ [(k, v)]" using assms by (induction m) auto
  then show ?thesis by (simp add: put_entry_def KText)
qed (simp add: put_entry_def)

lemma decodeEntries_exact:
  assumes V: "value_exact limit depth"
  shows "decodeEntries limit depth n prev out bs = Inr (m, r) \<Longrightarrow> no_bom bs \<Longrightarrow>
    \<forall>(k, v)\<in>set out. \<exists>kb pk. encodeValue (key_value k) depth = Inr kb \<and> prev = Some pk \<and> kb \<le> pk \<Longrightarrow>
    \<exists>new kvs. m = out @ new \<and> length new = n \<and> list_all2 (entry_bytes depth) new kvs \<and>
      sorted_wrt (<) (map fst kvs) \<and> (\<forall>pk. prev = Some pk \<longrightarrow> (\<forall>kb\<in>fst ` set kvs. pk < kb)) \<and>
      bs = concat (map (\<lambda>(kb, vb). kb @ vb) kvs) @ r"
proof (induction n arbitrary: bs prev out)
  case 0
  then show ?case by (intro exI [of _ "[]"]) simp
next
  case (Suc n)
  from Suc.prems(1) obtain key bs1 k v bs2 where key: "decodeValue limit depth bs = Inr (key, bs1)"
    and k: "map_key key = Inr k" and v: "decodeValue limit depth bs1 = Inr (v, bs2)"
    and ord: "key_order prev (take (length bs - length bs1) bs) = Inr ()"
    and rest: "decodeEntries limit depth n (Some (take (length bs - length bs1) bs))
        (put_entry k v out) bs2 = Inr (m, r)"
    by (auto simp: errs Let_def)
  from value_exactD [OF V key Suc.prems(2)] obtain kb
    where kb: "bs = kb @ bs1" "encodeValue key depth = Inr kb" "no_bom bs1" .
  from value_exactD [OF V v kb(3)] obtain vb
    where vb: "bs1 = vb @ bs2" "encodeValue v depth = Inr vb" "no_bom bs2" .
  have kbs: "take (length bs - length bs1) bs = kb" by (simp add: kb(1))
  have enc_k: "encodeValue (key_value k) depth = Inr kb" using map_key_value [OF k] kb(2) by simp
  have below: "pk < kb" if "prev = Some pk" for pk
    using ord that by (auto simp: kbs compareBytes_eq split: if_splits)
  have fresh: "\<forall>(k', v')\<in>set out. k' \<noteq> k"
    using Suc.prems(3) enc_k below by (fastforce simp: not_less [symmetric])
  have out': "put_entry k v out = out @ [(k, v)]" using fresh by (rule put_entry_new)
  have "\<forall>(k, v)\<in>set (out @ [(k, v)]).
      \<exists>kb' pk. encodeValue (key_value k) depth = Inr kb' \<and> Some kb = Some pk \<and> kb' \<le> pk"
    using Suc.prems(3) enc_k below by (fastforce dest: order_le_less_trans)
  from Suc.IH [OF rest [unfolded kbs out'] vb(3) this] obtain new kvs where
    new: "m = (out @ [(k, v)]) @ new" "length new = n" "list_all2 (entry_bytes depth) new kvs"
      "sorted_wrt (<) (map fst kvs)" "\<forall>kb'\<in>fst ` set kvs. kb < kb'"
      "bs2 = concat (map (\<lambda>(kb, vb). kb @ vb) kvs) @ r" by auto
  show ?case
  proof (intro exI conjI)
    show "m = out @ ((k, v) # new)" using new(1) by simp
    show "list_all2 (entry_bytes depth) ((k, v) # new) ((kb, vb) # kvs)"
      using new(3) enc_k vb(2) by (simp add: entry_bytes_def)
    show "\<forall>pk. prev = Some pk \<longrightarrow> (\<forall>kb'\<in>fst ` set ((kb, vb) # kvs). pk < kb')"
      using below new(5) by (auto intro: less_trans)
  qed (use new kb vb in auto)
qed

lemma encode_entries:
  assumes "list_all2 (entry_bytes d) m kvs"
  shows "mapE (\<lambda>(k, v). bindE (encodeValue (key_value k) d) (\<lambda>kb. Inr (kb, v))) m =
      Inr (zip (map fst kvs) (map snd m))"
    and "mapE (\<lambda>(kb, v). bindE (encodeValue v d) (\<lambda>b. Inr (kb @ b))) (zip (map fst kvs) (map snd m)) =
      Inr (map (\<lambda>(kb, vb). kb @ vb) kvs)"
  using assms by (induction rule: list_all2_induct) (auto simp: entry_bytes_def)

lemma sorted_less_distinct: "sorted_wrt (<) xs \<Longrightarrow> distinct xs \<and> sorted xs"
  for xs :: "bytes list"
  by (simp add: strict_sorted_iff)

lemma encode_sorted_map:
  assumes kvs: "list_all2 (entry_bytes (Suc depth)) m kvs" and sorted: "sorted_wrt (<) (map fst kvs)"
    and "depth \<le> 32" and h: "head MAJOR_MAP (int (length m)) = Inr h"
  shows "encodeValue (CMap m) depth = Inr (h @ concat (map (\<lambda>(kb, vb). kb @ vb) kvs))"
proof -
  let ?es = "zip (map fst kvs) (map snd m)"
  have len: "length kvs = length m" using kvs by (simp add: list_all2_lengthD)
  then have keys: "map fst ?es = map fst kvs" by simp
  have sk: "sort_key fst ?es = ?es"
    by (rule sort_key_id_if_sorted) (use sorted_less_distinct [OF sorted] keys in simp)
  have "\<not> adjacent_equal (map fst ?es)"
    unfolding keys using sorted_less_distinct [OF sorted] by (simp add: adjacent_equal_sorted)
  then show ?thesis
    using encode_entries [OF kvs] assms(3) h len by (simp add: sk Let_def)
qed

lemma value_exact: "value_exact limit depth"
proof (induction "33 - depth" arbitrary: depth)
  case 0
  have "\<not> depth \<le> 32" using 0 by simp
  then show ?case by (auto simp: value_exact_def decodeValue.simps [of limit depth])
next
  case (Suc k)
  then have V: "value_exact limit (Suc depth)" by simp
  show ?case
    unfolding value_exact_def
  proof (intro allI impI)
    fix bs v r
    assume dec: "decodeValue limit depth bs = Inr (v, r)" and nb: "no_bom bs"
    from dec show "\<exists>p. bs = p @ r \<and> encodeValue v depth = Inr p"
    proof (cases rule: decodeValue_cases)
      case (num i bs1 n)
      from readArgument_head [OF num(4)] obtain p where "bs1 = p @ r"
        "head MAJOR_UINT (int n) = Inr (i # p)" by (auto simp: num(3))
      with num show ?thesis by (intro exI [of _ "i # p"]) auto
    next
      case (byt i bs1 len bs2 raw)
      from readArgument_head [OF byt(4)] obtain p where "bs1 = p @ bs2"
        "head MAJOR_BSTR (int len) = Inr (i # p)" by (auto simp: byt(3))
      with byt show ?thesis by (intro exI [of _ "(i # p) @ raw"]) auto
    next
      case (str i bs1 len bs2 raw s)
      from readArgument_head [OF str(4)] obtain p where p: "bs1 = p @ bs2"
        "head MAJOR_TSTR (int len) = Inr (i # p)" by (auto simp: str(3))
      have "bs = (i # p) @ raw @ r" using str p by simp
      then have "no_bom (raw @ r)" using nb no_bom_appendD by metis
      then have "text_encode s = raw"
        by (intro text_decode_exact [OF str(8)] no_bom_prefixD)
      with str p show ?thesis by (intro exI [of _ "(i # p) @ raw"]) (auto simp: Let_def)
    next
      case (arr i bs1 len bs2 xs)
      from readArgument_head [OF arr(4)] obtain p where p: "bs1 = p @ bs2"
        "head MAJOR_ARRAY (int len) = Inr (i # p)" by (auto simp: arr(3))
      have "bs = (i # p) @ bs2" using arr p by simp
      then have "no_bom bs2" using nb no_bom_appendD by metis
      from decodeItems_exact [OF V arr(6) this] obtain ps where "bs2 = concat ps @ r"
        "length xs = len" "mapE (\<lambda>x. encodeValue x (Suc depth)) xs = Inr ps" by blast
      with arr p show ?thesis by (intro exI [of _ "(i # p) @ concat ps"]) auto
    next
      case (map i bs1 len bs2 m)
      from readArgument_head [OF map(4)] obtain p where p: "bs1 = p @ bs2"
        "head MAJOR_MAP (int len) = Inr (i # p)" by (auto simp: map(3))
      have "bs = (i # p) @ bs2" using map p by simp
      then have "no_bom bs2" using nb no_bom_appendD by metis
      from decodeEntries_exact [OF V map(6) this] obtain kvs where kvs: "length m = len"
        "list_all2 (entry_bytes (Suc depth)) m kvs" "sorted_wrt (<) (List.map fst kvs)"
        "bs2 = concat (List.map (\<lambda>(kb, vb). kb @ vb) kvs) @ r" by auto
      have "encodeValue (CMap m) depth = Inr ((i # p) @ concat (List.map (\<lambda>(kb, vb). kb @ vb) kvs))"
        by (rule encode_sorted_map) (use kvs p map in auto)
      with map p kvs(4) show ?thesis by auto
    next
      case (null i)
      have "i AND 31 = SIMPLE_NULL" using null(4) by (rule word_unat_eq_iff [THEN iffD2])
      then have "[push_bit 5 MAJOR_SIMPLE OR SIMPLE_NULL] = [i]"
        using null(3) head_split [of i] by simp
      with null show ?thesis by auto
    qed
  qed
qed

lemma decode_exact:
  assumes "decode bs = Inr v" "no_bom bs"
  shows "encode v = Inr bs"
proof -
  have "decodeValue (length bs) 0 bs = Inr (v, [])"
    using assms(1) by (auto simp: decode_def errs)
  from value_exactD [OF value_exact this assms(2)] show ?thesis by (simp add: encode_def)
qed

subsection \<open>Decoding what was encoded\<close>

definition key_bytes :: "cbor_key \<Rightarrow> bytes" where
  "key_bytes k = (case encodeValue (key_value k) 0 of Inl _ \<Rightarrow> [] | Inr b \<Rightarrow> b)"

primrec canon :: "cbor \<Rightarrow> cbor" where
  "canon (CNum n) = CNum n"
| "canon (CBig n) = (if n \<le> MAX_SAFE_INTEGER then CNum n else CBig n)"
| "canon (CBytes b) = CBytes b"
| "canon (CText s) = CText s"
| "canon (CArr xs) = CArr (map canon xs)"
| "canon (CMap m) = CMap (sort_key (\<lambda>(k, v). key_bytes k) (map (map_prod id canon) m))"
| "canon CNull = CNull"

lemma insort_key_map: "insort_key g (f x) (map f xs) = map f (insort_key (\<lambda>x. g (f x)) x xs)"
  by (induction xs) auto

lemma sort_key_map: "sort_key g (map f xs) = map f (sort_key (\<lambda>x. g (f x)) xs)"
  by (induction xs) (auto simp: insort_key_map)

lemma canon_key_value [simp]: "canon (key_value k) = key_value k"
  by (cases k) auto

lemma map_key_key_value [simp]: "map_key (key_value k) = Inr k"
  by (cases k) auto

lemma key_bytes_eq: "encodeValue (key_value k) d = Inr kb \<Longrightarrow> key_bytes k = kb"
  by (cases k) (auto simp: key_bytes_def errs Let_def)

lemma head_not_Nil: "head major n = Inr h \<Longrightarrow> h \<noteq> []"
  by (auto simp: head_def Let_def split: if_splits)

lemma encodeValue_not_Nil: "encodeValue v depth = Inr p \<Longrightarrow> p \<noteq> []"
  by (cases v) (auto simp: errs Let_def dest: head_not_Nil)

lemma length_le_concat: "\<forall>p\<in>set ps. p \<noteq> [] \<Longrightarrow> length ps \<le> length (concat ps)"
proof (induction ps)
  case (Cons p ps)
  then have "1 \<le> length p" by (simp add: Suc_le_eq)
  with Cons show ?case by simp
qed simp

definition value_back :: "nat \<Rightarrow> nat \<Rightarrow> bool" where
  "value_back limit depth \<longleftrightarrow>
     (\<forall>v p r. encodeValue v depth = Inr p \<longrightarrow> length p \<le> limit \<longrightarrow>
        decodeValue limit depth (p @ r) = Inr (canon v, r))"

lemma decodeItems_back:
  assumes "value_back limit d"
  shows "mapE (\<lambda>x. encodeValue x d) vs = Inr ps \<Longrightarrow> length (concat ps) \<le> limit \<Longrightarrow>
    decodeItems limit d (length vs) (concat ps @ r) = Inr (map canon vs, r)"
proof (induction vs arbitrary: ps)
  case Nil
  then show ?case by simp
next
  case (Cons v vs)
  from Cons.prems obtain p qs where p: "encodeValue v d = Inr p" "ps = p # qs"
    and qs: "mapE (\<lambda>x. encodeValue x d) vs = Inr qs" by (auto simp: errs)
  have "decodeValue limit d (p @ (concat qs @ r)) = Inr (canon v, concat qs @ r)"
    using assms p Cons.prems(2) unfolding value_back_def by simp
  with Cons.IH [OF qs] Cons.prems(2) p show ?case by simp
qed

lemma entry_bytes_pair: "entry_bytes d (k, v) (kb, vb) \<longleftrightarrow>
    encodeValue (key_value k) d = Inr kb \<and> encodeValue v d = Inr vb"
  by (simp add: entry_bytes_def)

lemma decodeEntries_back:
  assumes V: "value_back limit d"
  shows "list_all2 (entry_bytes d) m kvs \<Longrightarrow> sorted_wrt (<) (map fst kvs) \<Longrightarrow>
    \<forall>pk. prev = Some pk \<longrightarrow> (\<forall>kb\<in>fst ` set kvs. pk < kb) \<Longrightarrow>
    \<forall>(k, v)\<in>set out. \<exists>pk. prev = Some pk \<and> key_bytes k \<le> pk \<Longrightarrow>
    length (concat (map (\<lambda>(kb, vb). kb @ vb) kvs)) \<le> limit \<Longrightarrow>
    decodeEntries limit d (length m) prev out (concat (map (\<lambda>(kb, vb). kb @ vb) kvs) @ r) =
      Inr (out @ map (map_prod id canon) m, r)"
proof (induction m arbitrary: kvs prev out)
  case Nil
  then show ?case by simp
next
  case (Cons e m)
  obtain k v where e: "e = (k, v)" by (cases e)
  from Cons.prems(1) e obtain kb vb ls where kvs: "kvs = (kb, vb) # ls"
    and kb: "encodeValue (key_value k) d = Inr kb" and vb: "encodeValue v d = Inr vb"
    and ls: "list_all2 (entry_bytes d) m ls"
    by (auto simp: list_all2_Cons1 entry_bytes_pair)
  let ?tail = "concat (map (\<lambda>(kb, vb). kb @ vb) ls) @ r"
  have dk: "decodeValue limit d (kb @ (vb @ ?tail)) = Inr (key_value k, vb @ ?tail)"
    using V kb Cons.prems(5) unfolding value_back_def by (simp add: kvs)
  have dv: "decodeValue limit d (vb @ ?tail) = Inr (canon v, ?tail)"
    using V vb Cons.prems(5) unfolding value_back_def by (simp add: kvs)
  have ord: "key_order prev kb = Inr ()"
    using Cons.prems(3) kvs by (cases prev) (auto simp: compareBytes_eq dest: less_asym)
  have kbk: "key_bytes k = kb" using kb by (rule key_bytes_eq)
  have "\<forall>(k', v')\<in>set out. k' \<noteq> k"
    using Cons.prems(3,4) kvs kbk by fastforce
  then have out': "put_entry k (canon v) out = out @ [(k, canon v)]" by (rule put_entry_new)
  have inv: "\<forall>(k', v')\<in>set (out @ [(k, canon v)]). \<exists>pk. Some kb = Some pk \<and> key_bytes k' \<le> pk"
    using Cons.prems(3,4) kvs kbk by (fastforce dest: order_le_less_trans)
  have "decodeEntries limit d (length m) (Some kb) (out @ [(k, canon v)]) ?tail =
      Inr ((out @ [(k, canon v)]) @ map (map_prod id canon) m, r)"
    by (rule Cons.IH [OF ls]) (use Cons.prems(2,5) kvs inv in auto)
  then show ?case
    using dk dv ord out' by (simp add: e kvs Let_def id_def)
qed

lemma encodeValue_map_inv:
  assumes "encodeValue (CMap m) depth = Inr p"
  obtains h kvs where "depth \<le> 32" "head MAJOR_MAP (int (length m)) = Inr h"
    "list_all2 (entry_bytes (Suc depth)) (sort_key (\<lambda>(k, v). key_bytes k) m) kvs"
    "sorted_wrt (<) (map fst kvs)" "p = h @ concat (map (\<lambda>(kb, vb). kb @ vb) kvs)"
proof -
  let ?d = "Suc depth" and ?m = "sort_key (\<lambda>(k, v). key_bytes k) m"
  from assms obtain es h bs where d: "depth \<le> 32"
    and es: "mapE (\<lambda>(k, v). bindE (encodeValue (key_value k) ?d) (\<lambda>kb. Inr (kb, v))) m = Inr es"
    and nd: "\<not> adjacent_equal (map fst (sort_key fst es))"
    and h: "head MAJOR_MAP (int (length es)) = Inr h"
    and bs: "mapE (\<lambda>(kb, v). bindE (encodeValue v ?d) (\<lambda>b. Inr (kb @ b))) (sort_key fst es) = Inr bs"
    and p: "p = h @ concat bs"
    by (auto simp: errs Let_def not_less)
  have es_eq: "es = map (\<lambda>(k, v). (key_bytes k, v)) m \<and>
      (\<forall>(k, v)\<in>set m. encodeValue (key_value k) ?d = Inr (key_bytes k))"
    using es by (induction m arbitrary: es) (auto simp: errs dest: key_bytes_eq)
  then have sorted_es: "sort_key fst es = map (\<lambda>(k, v). (key_bytes k, v)) ?m"
    by (simp add: sort_key_map case_prod_unfold)
  define kvs where "kvs = map2 (\<lambda>(k, v) b. (key_bytes k, drop (length (key_bytes k)) b)) ?m bs"
  have all: "list_all2 (\<lambda>(k, v) b. bindE (encodeValue v ?d) (\<lambda>b. Inr (key_bytes k @ b)) = Inr b) ?m bs"
    using bs by (simp add: sorted_es mapE_eq_Inr list_all2_map1 case_prod_unfold cong: sum.case_cong)
  have keys: "\<forall>(k, v)\<in>set ?m. encodeValue (key_value k) ?d = Inr (key_bytes k)"
    using es_eq by simp
  have "list_all2 (entry_bytes ?d) ?m kvs \<and> map fst kvs = map (\<lambda>(k, v). key_bytes k) ?m \<and>
      concat (map (\<lambda>(kb, vb). kb @ vb) kvs) = concat bs"
    unfolding kvs_def using all keys
    by (induction rule: list_all2_induct) (auto simp: errs entry_bytes_pair)
  moreover have "sorted_wrt (<) (map (\<lambda>(k, v). key_bytes k) ?m)"
  proof -
    have eq: "map fst (sort_key fst es) = map (\<lambda>(k, v). key_bytes k) ?m"
      by (simp add: sorted_es case_prod_unfold comp_def)
    have "sorted (map fst (sort_key fst es))" by simp
    then show ?thesis using nd adjacent_equal_sorted [of "map fst (sort_key fst es)"]
      unfolding eq by (simp add: strict_sorted_iff)
  qed
  moreover have "length es = length m" using es_eq by simp
  ultimately show ?thesis using that [of h kvs] d h p by simp
qed

lemma value_back: "value_back limit depth"
proof (induction "33 - depth" arbitrary: depth)
  case 0
  have "\<not> depth \<le> 32" using 0 by simp
  then have "encodeValue v depth = Inl CBOR_DEPTH_EXCEEDED" for v by (cases v) auto
  then show ?case by (simp add: value_back_def)
next
  case (Suc k)
  then have V: "value_back limit (Suc depth)" and d: "\<not> 32 < depth" by simp_all
  show ?case
    unfolding value_back_def
  proof (intro allI impI)
    fix v p r
    assume enc: "encodeValue v depth = Inr p" and len: "length p \<le> limit"
    have u8: "unat MAJOR_UINT < 8" "unat MAJOR_BSTR < 8" "unat MAJOR_TSTR < 8"
      "unat MAJOR_ARRAY < 8" "unat MAJOR_MAP < 8" by (simp_all add: major_defs)
    have num: "decodeValue limit depth (p @ r) =
        Inr (if n \<le> MAX_SAFE_INTEGER then CNum n else CBig n, r)"
      if h: "head MAJOR_UINT n = Inr p" for n
    proof -
      obtain i q where "p = i # q" "drop_bit 5 i = MAJOR_UINT"
        "readArgument (unat (i AND 31)) (q @ r) = Inr (nat n, r)"
        using head_readArgument [OF h u8(1)] by metis
      then show ?thesis
        using head_nonneg [OF h] d by (simp add: decodeValue.simps [of limit depth] Let_def)
    qed
    show "decodeValue limit depth (p @ r) = Inr (canon v, r)"
    proof (cases v)
      case CNull
      then have "p = [0xF6]" using enc d by (simp add: major_defs)
      then show ?thesis
        using CNull d by (simp add: decodeValue.simps [of limit depth] Let_def major_defs)
    next
      case (CNum n)
      then show ?thesis using enc num [of n] by (auto simp: errs)
    next
      case (CBig n)
      then show ?thesis using enc num [of n] by (auto simp: errs)
    next
      case (CBytes b)
      then obtain h where h: "head MAJOR_BSTR (int (length b)) = Inr h" and p: "p = h @ b"
        using enc by (auto simp: errs)
      obtain i q where "h = i # q" "drop_bit 5 i = MAJOR_BSTR"
        "readArgument (unat (i AND 31)) (q @ b @ r) = Inr (length b, b @ r)"
        using head_readArgument [OF h u8(2)] by (metis nat_int)
      then show ?thesis
        using d len p CBytes
        by (simp add: decodeValue.simps [of limit depth] Let_def major_defs readLength_def
            toLength_def read_take_def)
    next
      case (CText s)
      let ?b = "text_encode s"
      obtain h where h: "head MAJOR_TSTR (int (length ?b)) = Inr h" and p: "p = h @ ?b"
        and dec: "text_decode ?b = Some s"
        using enc CText by (auto simp: errs Let_def)
      obtain i q where "h = i # q" "drop_bit 5 i = MAJOR_TSTR"
        "readArgument (unat (i AND 31)) (q @ ?b @ r) = Inr (length ?b, ?b @ r)"
        using head_readArgument [OF h u8(3)] by (metis nat_int)
      then show ?thesis
        using d len p CText dec
        by (simp add: decodeValue.simps [of limit depth] Let_def major_defs readLength_def
            toLength_def read_take_def)
    next
      case (CArr xs)
      then obtain h ps where h: "head MAJOR_ARRAY (int (length xs)) = Inr h"
        and ps: "mapE (\<lambda>x. encodeValue x (Suc depth)) xs = Inr ps" and p: "p = h @ concat ps"
        using enc by (auto simp: errs)
      have "length xs \<le> length (concat ps)"
        using ps length_le_concat [of ps] mapE_length [OF ps]
        by (auto simp: mapE_eq_Inr dest!: list_all2_set2 encodeValue_not_Nil)
      moreover obtain i q where "h = i # q" "drop_bit 5 i = MAJOR_ARRAY"
        "readArgument (unat (i AND 31)) (q @ concat ps @ r) = Inr (length xs, concat ps @ r)"
        using head_readArgument [OF h u8(4)] by (metis nat_int)
      moreover have "decodeItems limit (Suc depth) (length xs) (concat ps @ r) = Inr (map canon xs, r)"
        by (rule decodeItems_back [OF V ps]) (use len p in simp)
      ultimately show ?thesis
        using d len p CArr
        by (simp add: decodeValue.simps [of limit depth] Let_def major_defs readLength_def toLength_def)
    next
      case (CMap m)
      let ?m = "sort_key (\<lambda>(k, v). key_bytes k) m"
      obtain h kvs where h: "head MAJOR_MAP (int (length m)) = Inr h"
        and kvs: "list_all2 (entry_bytes (Suc depth)) ?m kvs" "sorted_wrt (<) (map fst kvs)"
        and p: "p = h @ concat (map (\<lambda>(kb, vb). kb @ vb) kvs)"
        using encodeValue_map_inv enc CMap by blast
      let ?t = "concat (map (\<lambda>(kb, vb). kb @ vb) kvs)"
      have ne: "\<forall>q\<in>set (map (\<lambda>(kb, vb). kb @ vb) kvs). q \<noteq> []"
        using kvs(1) by (auto simp: entry_bytes_def dest!: list_all2_set2 encodeValue_not_Nil)
      have "length m \<le> length ?t"
        using length_le_concat [OF ne] list_all2_lengthD [OF kvs(1)] by simp
      moreover obtain i q where "h = i # q" "drop_bit 5 i = MAJOR_MAP"
        "readArgument (unat (i AND 31)) (q @ ?t @ r) = Inr (length m, ?t @ r)"
        using head_readArgument [OF h u8(5)] by (metis nat_int)
      moreover have "decodeEntries limit (Suc depth) (length ?m) None [] (?t @ r) =
          Inr ([] @ map (map_prod id canon) ?m, r)"
        by (rule decodeEntries_back [OF V kvs]) (use len p in simp_all)
      moreover have "map (map_prod id canon) ?m =
          sort_key (\<lambda>(k, v). key_bytes k) (map (map_prod id canon) m)"
        by (simp add: sort_key_map case_prod_unfold)
      ultimately show ?thesis
        using d len p CMap
        by (simp add: decodeValue.simps [of limit depth] Let_def major_defs readLength_def toLength_def)
    qed
  qed
qed

lemma decode_encode_canon:
  assumes "encode v = Inr bs"
  shows "decode bs = Inr (canon v)"
proof -
  have "decodeValue (length bs) 0 (bs @ []) = Inr (canon v, [])"
    using value_back [of "length bs" 0] assms unfolding value_back_def encode_def by blast
  then show ?thesis by (simp add: decode_def)
qed

subsection \<open>The encoder is canonical\<close>

lemma encodeValue_canon: "encodeValue v depth = Inr p \<Longrightarrow> encodeValue (canon v) depth = Inr p"
proof (induction "33 - depth" arbitrary: depth v p)
  case 0
  have "\<not> depth \<le> 32" using 0 by simp
  then have "encodeValue v depth = Inl CBOR_DEPTH_EXCEEDED" by (cases v) auto
  with 0 show ?case by simp
next
  case (Suc k)
  then have IH: "\<And>v p. encodeValue v (Suc depth) = Inr p \<Longrightarrow> encodeValue (canon v) (Suc depth) = Inr p"
    by simp
  show ?case
  proof (cases v)
    case (CArr xs)
    then obtain h ps where "depth \<le> 32" "head MAJOR_ARRAY (int (length xs)) = Inr h"
      "list_all2 (\<lambda>x p. encodeValue x (Suc depth) = Inr p) xs ps" "p = h @ concat ps"
      using Suc.prems by (auto simp: errs mapE_eq_Inr)
    moreover from this(3) have "mapE (\<lambda>x. encodeValue x (Suc depth)) (map canon xs) = Inr ps"
      by (auto simp: mapE_eq_Inr list_all2_map1 intro: list_all2_mono IH)
    ultimately show ?thesis using CArr by simp
  next
    case (CMap m)
    let ?m = "sort_key (\<lambda>(k, v). key_bytes k) m"
    obtain h kvs where d: "depth \<le> 32" and h: "head MAJOR_MAP (int (length m)) = Inr h"
      and kvs: "list_all2 (entry_bytes (Suc depth)) ?m kvs" "sorted_wrt (<) (map fst kvs)"
      and p: "p = h @ concat (map (\<lambda>(kb, vb). kb @ vb) kvs)"
      using encodeValue_map_inv Suc.prems CMap by blast
    have "list_all2 (entry_bytes (Suc depth)) (map (map_prod id canon) ?m) kvs"
      using kvs(1) by (auto simp: list_all2_map1 entry_bytes_def IH elim!: list_all2_mono)
    moreover have "map (map_prod id canon) ?m =
        sort_key (\<lambda>(k, v). key_bytes k) (map (map_prod id canon) m)"
      by (simp add: sort_key_map case_prod_unfold)
    ultimately show ?thesis
      using encode_sorted_map [OF _ kvs(2) d] h by (simp add: CMap p)
  qed (use Suc.prems in \<open>auto simp: errs split: if_splits\<close>)
qed

lemma isDeterministic_eq: "isDeterministic bs \<longleftrightarrow> (\<exists>v. decode bs = Inr v \<and> encode v = Inr bs)"
  by (auto simp: isDeterministic_def compareBytes_eq split: sum.splits if_splits)

subsection \<open>Properties\<close>

text \<open>
  C3. What the strict decoder accepts is the encoder's output for the value it returns, so one
  value has one accepted encoding, provided no three consecutive bytes of the input are a UTF-8
  byte order mark.
\<close>

theorem decode_canonical:
  assumes "decode bs = Inr v" and "no_bom bs"
  shows "encode v = Inr bs"
  using assms by (rule decode_exact)

theorem decode_canonical_witness:
  "decode [0xA1, 0x61, 0x61, 0x82, 0x05, 0xF6] = Inr (CMap [(KText (js ''a''), CArr [CNum 5, CNull])]) \<and>
   encode (CMap [(KText (js ''a''), CArr [CNum 5, CNull])]) = Inr [0xA1, 0x61, 0x61, 0x82, 0x05, 0xF6]"
proof -
  have d: "decode [0xA1, 0x61, 0x61, 0x82, 0x05, 0xF6] =
      Inr (CMap [(KText (js ''a''), CArr [CNum 5, CNull])])"
    by (simp add: exec)
  have "no_bom [0xA1, 0x61, 0x61, 0x82, 0x05, 0xF6]" by (simp add: BOM_def)
  from d decode_canonical [OF d this] show ?thesis by simp
qed

text \<open>
  Decoding an encoded value gives the value back in canonical form: map entries in the order
  of their encoded keys, small big integers as numbers, everything else unchanged.
\<close>

theorem decode_encode:
  assumes "encode v = Inr bs"
  shows "decode bs = Inr (canon v)"
  using assms by (rule decode_encode_canon)

theorem decode_encode_witness:
  "decode [0xA2, 0x61, 0x61, 0x05, 0x61, 0x62, 0xF6] =
     Inr (CMap [(KText (js ''a''), CNum 5), (KText (js ''b''), CNull)])"
proof -
  have e: "encode (CMap [(KText (js ''b''), CNull), (KText (js ''a''), CBig 5)]) =
      Inr [0xA2, 0x61, 0x61, 0x05, 0x61, 0x62, 0xF6]"
    by (simp add: exec)
  show ?thesis using decode_encode [OF e] by (simp add: exec key_bytes_def)
qed

text \<open>
  The bytes that \<open>isDeterministic\<close> accepts are exactly the outputs of the encoder, and on
  them decoding is injective: no two accepted byte strings carry the same value.
\<close>

theorem isDeterministic_exact:
  "(isDeterministic bs \<longleftrightarrow> (\<exists>v. encode v = Inr bs)) \<and>
   (isDeterministic bs \<and> isDeterministic bs' \<and> decode bs = decode bs' \<longrightarrow> bs = bs')"
proof
  show "isDeterministic bs \<longleftrightarrow> (\<exists>v. encode v = Inr bs)"
    using decode_encode_canon encodeValue_canon unfolding isDeterministic_eq encode_def by metis
  show "isDeterministic bs \<and> isDeterministic bs' \<and> decode bs = decode bs' \<longrightarrow> bs = bs'"
    unfolding isDeterministic_eq by auto
qed

theorem isDeterministic_exact_witness:
  "(\<exists>v. encode v = Inr [0x05]) \<and> {bs. isDeterministic bs \<and> decode bs = Inr (CNum 5)} = {[0x05]}"
proof -
  have "isDeterministic [0x05]" "decode [0x05] = Inr (CNum 5)" by (simp_all add: exec)
  then show ?thesis using isDeterministic_exact by (auto intro!: set_eqI) metis+
qed

text \<open>
  The decoder alone is not injective: \<open>TextDecoder\<close> drops a leading byte order mark, so a
  text item that holds nothing but the mark decodes to the same value as the empty text. Only
  the re-encoding in \<open>isDeterministic\<close> and in the verifier tells the two apart.
\<close>

theorem decode_bom_collision:
  "decode [0x63, 0xEF, 0xBB, 0xBF] = Inr (CText []) \<and> decode [0x60] = Inr (CText []) \<and>
   \<not> isDeterministic [0x63, 0xEF, 0xBB, 0xBF] \<and> isDeterministic [0x60]"
  by (simp add: exec)

end
