(* ===== verification/Signature.thy ===== *)
theory Signature
  imports Prelude
begin

section \<open>Ed25519 signatures\<close>

text \<open>
  registry/src/signature.ts: strict verification on top of the Ed25519 of \<open>@noble/curves\<close>,
  which is not part of the repository. The primitives the registry takes from \<open>@noble\<close> are the
  fields of the record \<open>crypto\<close>; a primitive that may throw returns an option.
\<close>

record crypto =
  ed25519_verify :: "bytes \<Rightarrow> bytes \<Rightarrow> bytes \<Rightarrow> bool option"
  ed25519_sign :: "bytes \<Rightarrow> bytes \<Rightarrow> bytes"
  ed25519_getPublicKey :: "bytes \<Rightarrow> bytes"
  blake2b_256 :: "bytes \<Rightarrow> bytes"
  sha256 :: "bytes \<Rightarrow> bytes"
  argon2id :: "bytes \<Rightarrow> bytes \<Rightarrow> nat \<Rightarrow> nat \<Rightarrow> nat \<Rightarrow> nat \<Rightarrow> nat \<Rightarrow> bytes"

text \<open>What \<open>dkLen: 32\<close> documents of BLAKE2b.\<close>

definition hash_length_ok :: "crypto \<Rightarrow> bool" where
  "hash_length_ok C \<longleftrightarrow> (\<forall>m. length (blake2b_256 C m) = 32)"

definition PUBLIC_KEY_LENGTH :: nat where "PUBLIC_KEY_LENGTH = 32"
definition SECRET_KEY_LENGTH :: nat where "SECRET_KEY_LENGTH = 32"
definition SIGNATURE_LENGTH :: nat where "SIGNATURE_LENGTH = 64"

definition SMALL_ORDER_ENCODINGS :: "string list" where
  "SMALL_ORDER_ENCODINGS = [
     ''0000000000000000000000000000000000000000000000000000000000000000'',
     ''0100000000000000000000000000000000000000000000000000000000000000'',
     ''0000000000000000000000000000000000000000000000000000000000000080'',
     ''0100000000000000000000000000000000000000000000000000000000000080'',
     ''e0eb7a7c3b41b8ae1656e3faf19fc46ada098deb9c32b1fd866205165f49b800'',
     ''e0eb7a7c3b41b8ae1656e3faf19fc46ada098deb9c32b1fd866205165f49b880'',
     ''5f9c95bca3508c24b1d0b1559c83ef5b04445cc4581c8e86d8224eddd09f1157'',
     ''5f9c95bca3508c24b1d0b1559c83ef5b04445cc4581c8e86d8224eddd09f11d7'',
     ''ecffffffffffffffffffffffffffffffffffffffffffffffffffffffffffff7f'',
     ''ecffffffffffffffffffffffffffffffffffffffffffffffffffffffffffffff'',
     ''edffffffffffffffffffffffffffffffffffffffffffffffffffffffffffff7f'',
     ''edffffffffffffffffffffffffffffffffffffffffffffffffffffffffffffff'',
     ''eeffffffffffffffffffffffffffffffffffffffffffffffffffffffffffff7f'',
     ''eeffffffffffffffffffffffffffffffffffffffffffffffffffffffffffffff'']"

definition toHex :: "bytes \<Rightarrow> string" where
  "toHex bs = concat (map (\<lambda>b. [''0123456789abcdef'' ! (unat b div 16),
                                ''0123456789abcdef'' ! (unat b mod 16)]) bs)"

datatype signature_rejection = BAD_KEY_LENGTH | SMALL_ORDER_KEY | BAD_SIGNATURE_LENGTH | SIG_BAD_SIG

definition isSmallOrderKey :: "bytes \<Rightarrow> bool" where
  "isSmallOrderKey key \<longleftrightarrow> length key = PUBLIC_KEY_LENGTH \<and> toHex key \<in> set SMALL_ORDER_ENCODINGS"

definition verifyStrict :: "crypto \<Rightarrow> bytes \<Rightarrow> bytes \<Rightarrow> bytes \<Rightarrow> bool" where
  "verifyStrict C publicKey message signature =
     (if length publicKey \<noteq> PUBLIC_KEY_LENGTH then False
      else if length signature \<noteq> SIGNATURE_LENGTH then False
      else if isSmallOrderKey publicKey then False
      else case ed25519_verify C signature message publicKey of Some ok \<Rightarrow> ok | None \<Rightarrow> False)"

definition assertValidSignature ::
  "crypto \<Rightarrow> bytes \<Rightarrow> bytes \<Rightarrow> bytes \<Rightarrow> signature_rejection + unit" where
  "assertValidSignature C publicKey message signature =
     failIf (length publicKey \<noteq> PUBLIC_KEY_LENGTH) BAD_KEY_LENGTH
       (failIf (length signature \<noteq> SIGNATURE_LENGTH) BAD_SIGNATURE_LENGTH
         (failIf (isSmallOrderKey publicKey) SMALL_ORDER_KEY
           (failIf (\<not> verifyStrict C publicKey message signature) SIG_BAD_SIG (Inr ()))))"

definition sign :: "crypto \<Rightarrow> bytes \<Rightarrow> bytes \<Rightarrow> signature_rejection + bytes" where
  "sign C secretKey message =
     failIf (length secretKey \<noteq> SECRET_KEY_LENGTH) BAD_KEY_LENGTH (Inr (ed25519_sign C message secretKey))"

definition publicKeyFrom :: "crypto \<Rightarrow> bytes \<Rightarrow> signature_rejection + bytes" where
  "publicKeyFrom C secretKey =
     failIf (length secretKey \<noteq> SECRET_KEY_LENGTH) BAD_KEY_LENGTH (Inr (ed25519_getPublicKey C secretKey))"

definition GROUP_ORDER :: nat where
  "GROUP_ORDER = 0x1000000000000000000000000000000014def9dea2f79cd65812631a5cf5d3ed"

text \<open>The loop runs from byte 63 down to byte 32: \<open>S\<close> is little-endian.\<close>

definition isCanonicalScalar :: "bytes \<Rightarrow> bool" where
  "isCanonicalScalar signature \<longleftrightarrow>
     length signature = SIGNATURE_LENGTH \<and>
     foldl (\<lambda>s b. s * 256 + unat b) 0 (rev (drop 32 signature)) < GROUP_ORDER"

lemmas [exec] = PUBLIC_KEY_LENGTH_def SECRET_KEY_LENGTH_def SIGNATURE_LENGTH_def

lemma toHex_simps [simp]:
  "toHex [] = []"
  "toHex (b # bs) = ''0123456789abcdef'' ! (unat b div 16) # ''0123456789abcdef'' ! (unat b mod 16) # toHex bs"
  by (simp_all add: toHex_def)

lemma length_toHex [simp]: "length (toHex bs) = 2 * length bs"
  by (induction bs) auto

lemma hex_digit_inject:
  assumes "''0123456789abcdef'' ! i = ''0123456789abcdef'' ! j" "i < 16" "j < 16"
  shows "i = j"
proof -
  have "distinct ''0123456789abcdef''" by simp
  then show ?thesis using nth_eq_iff_index_eq [of "''0123456789abcdef''" i j] assms by simp
qed

lemma toHex_inject: "toHex bs = toHex cs \<longleftrightarrow> bs = cs"
proof
  assume "toHex bs = toHex cs"
  moreover from this have "length bs = length cs"
    by (metis length_toHex mult_cancel1 zero_neq_numeral)
  ultimately show "bs = cs"
  proof (induction bs cs rule: list_induct2')
    case (4 b bs c cs)
    have d: "unat b div 16 = unat c div 16"
      by (rule hex_digit_inject)
        (use 4 unat_byte_less [of b] unat_byte_less [of c] in \<open>simp_all add: less_mult_imp_div_less\<close>)
    have "unat b mod 16 = unat c mod 16"
      by (rule hex_digit_inject) (use 4 in simp_all)
    with d have "unat b = unat c" by (metis div_mult_mod_eq)
    then show ?case using 4 by (simp add: word_unat_eq_iff)
  qed auto
qed simp

lemma verifyStrict_iff:
  "verifyStrict C key message signature \<longleftrightarrow>
     length key = 32 \<and> length signature = 64 \<and> \<not> isSmallOrderKey key \<and>
     ed25519_verify C signature message key = Some True"
  by (auto simp: verifyStrict_def PUBLIC_KEY_LENGTH_def SIGNATURE_LENGTH_def split: option.splits)

text \<open>
  Concrete functions in place of the primitives, for evaluating the model on examples. They are
  not secure; they only have the shapes the library documents.
\<close>

definition sample_crypto :: crypto where
  "sample_crypto =
     \<lparr>ed25519_verify = (\<lambda>signature message key. Some (signature = key @ key)),
      ed25519_sign = (\<lambda>message secret. secret @ secret),
      ed25519_getPublicKey = (\<lambda>secret. secret),
      blake2b_256 = (\<lambda>m. be_bytes 32 (be_value m)),
      sha256 = (\<lambda>m. be_bytes 32 (be_value m)),
      argon2id = (\<lambda>nonce salt _ _ _ _ dkLen. replicate (dkLen - length nonce) 0 @ nonce)\<rparr>"

lemma sample_crypto_simps [simp]:
  "ed25519_verify sample_crypto signature message key = Some (signature = key @ key)"
  "ed25519_sign sample_crypto message secret = secret @ secret"
  "ed25519_getPublicKey sample_crypto secret = secret"
  "blake2b_256 sample_crypto m = be_bytes 32 (be_value m)"
  "sha256 sample_crypto m = be_bytes 32 (be_value m)"
  by (simp_all add: sample_crypto_def)

lemma sample_hash_length: "hash_length_ok sample_crypto"
  by (simp add: hash_length_ok_def)

subsection \<open>Properties\<close>

text \<open>
  The two verification routines agree, and neither accepts a key or a signature of the wrong
  length or a key that encodes a point of small order, whatever the library answers.
\<close>

theorem assertValidSignature_exact:
  "(assertValidSignature C key message signature = Inr () \<longleftrightarrow> verifyStrict C key message signature) \<and>
   (length key \<noteq> 32 \<or> length signature \<noteq> 64 \<or> toHex key \<in> set SMALL_ORDER_ENCODINGS \<longrightarrow>
      \<not> verifyStrict C key message signature)"
  by (auto simp: assertValidSignature_def verifyStrict_iff isSmallOrderKey_def
      PUBLIC_KEY_LENGTH_def SIGNATURE_LENGTH_def)

theorem assertValidSignature_exact_witness:
  "\<forall>C message signature. \<not> verifyStrict C (replicate 31 0) message signature"
  using assertValidSignature_exact [where key = "replicate 31 0"] by simp

end
