(* ===== verification/Domain.thy ===== *)
theory Domain
  imports Cbor Signature
begin

section \<open>Domain separation and record hashes\<close>

text \<open>
  registry/src/domain.ts: the bytes a signature covers and the bytes a record hash covers. The
  load-time assertions on the two prefixes are the lemmas \<open>prefix_lengths\<close> and
  \<open>prefix_printable\<close>. \<open>bytesEqual\<close> keeps the loop without early exit.
\<close>

definition RECORD_SIGNING_PREFIX :: jsstr where
  "RECORD_SIGNING_PREFIX = js ''VayuWeb-Registry-Record-v1''"

definition RECORD_HASH_PREFIX :: jsstr where
  "RECORD_HASH_PREFIX = js ''VayuWeb-Registry-Hash-v1''"

definition RECORD_HASH_LENGTH :: nat where "RECORD_HASH_LENGTH = 32"

definition ZERO_HASH :: bytes where "ZERO_HASH = replicate RECORD_HASH_LENGTH 0"

definition SIGNATURE_FIELDS :: "cbor_key list" where
  "SIGNATURE_FIELDS = [KText (js ''sig''), KText (js ''coSig'')]"

definition SIGNING_PREFIX_BYTES :: bytes where
  "SIGNING_PREFIX_BYTES = text_encode RECORD_SIGNING_PREFIX"

definition HASH_PREFIX_BYTES :: bytes where
  "HASH_PREFIX_BYTES = text_encode RECORD_HASH_PREFIX"

definition withDomain :: "bytes \<Rightarrow> bytes \<Rightarrow> bytes \<Rightarrow> bytes" where
  "withDomain prefix body extra = prefix @ [0] @ extra @ body"

text \<open>The keys of a \<open>Map\<close> are distinct, so setting the kept entries one by one filters it.\<close>

definition core :: "cbor_map \<Rightarrow> cbor_map" where
  "core m = filter (\<lambda>(k, v). k \<notin> set SIGNATURE_FIELDS) m"

abbreviation field :: "cbor_map \<Rightarrow> string \<Rightarrow> cbor option" where
  "field m name \<equiv> map_get m (KText (js name))"

datatype signing_error = NO_SUITE_BYTE | SIGNING_CBOR cbor_error

definition signingInput :: "cbor_map \<Rightarrow> signing_error + bytes" where
  "signingInput m =
     (case field m ''suite'' of
        Some (CNum suite) \<Rightarrow>
          if suite < 0 \<or> suite > 255 then Inl NO_SUITE_BYTE
          else (case encode (CMap (core m)) of
                  Inl e \<Rightarrow> Inl (SIGNING_CBOR e)
                | Inr body \<Rightarrow> Inr (withDomain SIGNING_PREFIX_BYTES body [word_of_int suite]))
      | _ \<Rightarrow> Inl NO_SUITE_BYTE)"

definition recordHashFromBytes :: "crypto \<Rightarrow> bytes \<Rightarrow> bytes" where
  "recordHashFromBytes C recordBytes = blake2b_256 C (withDomain HASH_PREFIX_BYTES recordBytes [])"

definition bytesEqual :: "bytes \<Rightarrow> bytes \<Rightarrow> bool" where
  "bytesEqual a b =
     (if length a \<noteq> length b then False
      else foldl (\<lambda>diff (x, y). diff OR (x XOR y)) 0 (zip a b) = 0)"

definition isZeroHash :: "bytes \<Rightarrow> bool" where
  "isZeroHash h = bytesEqual h ZERO_HASH"

subsection \<open>Comparison\<close>

lemma or_eq_zero: "(a :: byte) OR b = 0 \<longleftrightarrow> a = 0 \<and> b = 0"
  by (metis or.right_neutral or_eq_0_iff)

lemma xor_eq_zero: "(a :: byte) XOR b = 0 \<longleftrightarrow> a = b"
  by (metis xor.assoc xor.left_neutral xor_self_eq)

lemma fold_diff:
  "length a = length b \<Longrightarrow>
     foldl (\<lambda>diff (x, y). diff OR (x XOR y)) d (zip a b) = 0 \<longleftrightarrow> d = (0 :: byte) \<and> a = b"
  by (induction a b arbitrary: d rule: list_induct2) (auto simp: or_eq_zero xor_eq_zero)

lemma bytesEqual_iff [simp]: "bytesEqual a b \<longleftrightarrow> a = b"
  by (auto simp: bytesEqual_def fold_diff)

lemma isZeroHash_iff: "isZeroHash h \<longleftrightarrow> h = replicate 32 0"
  by (simp add: isZeroHash_def ZERO_HASH_def RECORD_HASH_LENGTH_def)

subsection \<open>The prefixes\<close>

lemma prefix_bytes:
  "SIGNING_PREFIX_BYTES = map of_char ''VayuWeb-Registry-Record-v1''"
  "HASH_PREFIX_BYTES = map of_char ''VayuWeb-Registry-Hash-v1''"
  by (simp_all add: SIGNING_PREFIX_BYTES_def HASH_PREFIX_BYTES_def RECORD_SIGNING_PREFIX_def
      RECORD_HASH_PREFIX_def text_encode_ascii is_ascii_def)

lemma prefix_lengths:
  "length SIGNING_PREFIX_BYTES = 26" "length HASH_PREFIX_BYTES = 24"
  by (simp_all add: prefix_bytes)

lemma prefix_printable:
  "b \<in> set SIGNING_PREFIX_BYTES \<union> set HASH_PREFIX_BYTES \<Longrightarrow> 0x20 \<le> b \<and> b \<le> 0x7E"
  by (auto simp: prefix_bytes)

lemma domains_differ: "withDomain SIGNING_PREFIX_BYTES body extra \<noteq> withDomain HASH_PREFIX_BYTES body' extra'"
  by (simp add: withDomain_def prefix_bytes)

lemma withDomain_inject:
  "withDomain p body [x] = withDomain p body' [y] \<longleftrightarrow> x = y \<and> body = body'"
  "withDomain p body [] = withDomain p body' [] \<longleftrightarrow> body = body'"
  by (auto simp: withDomain_def)

subsection \<open>The signing input\<close>

lemma signingInput_Inr:
  "signingInput m = Inr i \<longleftrightarrow>
     (\<exists>n body. field m ''suite'' = Some (CNum n) \<and> 0 \<le> n \<and> n \<le> 255 \<and>
        encode (CMap (core m)) = Inr body \<and>
        i = withDomain SIGNING_PREFIX_BYTES body [word_of_int n])"
  by (auto simp: signingInput_def split: option.splits cbor.splits sum.splits)

text \<open>What can be encoded can still be encoded without its signature fields.\<close>

lemma head_le: "head major n = Inr h \<Longrightarrow> 0 \<le> k \<Longrightarrow> k \<le> n \<Longrightarrow> \<exists>h'. head major k = Inr h'"
  by (auto simp: head_def Let_def split: if_splits)

lemma encodeValue_filter:
  assumes "encodeValue (CMap m) depth = Inr p"
  shows "\<exists>q. encodeValue (CMap (filter P m)) depth = Inr q"
proof -
  let ?f = "\<lambda>(k, v). bindE (encodeValue (key_value k) (Suc depth)) (\<lambda>kb. Inr (kb, v))"
  let ?g = "\<lambda>(kb, v). bindE (encodeValue v (Suc depth)) (\<lambda>b. Inr (kb @ b))"
  from assms obtain es h bs where d: "\<not> 32 < depth" and es: "mapE ?f m = Inr es"
    and nd: "\<not> adjacent_equal (map fst (sort_key fst es))"
    and h: "head MAJOR_MAP (int (length (sort_key fst es))) = Inr h"
    and bs: "mapE ?g (sort_key fst es) = Inr bs"
    by (auto simp: errs Let_def simp del: length_sort)
  define fs where "fs = map snd (filter (\<lambda>(x, y). P x) (zip m es))"
  have fs: "mapE ?f (filter P m) = Inr fs"
    unfolding fs_def by (rule mapE_filter [OF es])
  have sub: "set fs \<subseteq> set es" unfolding fs_def by (auto dest: set_zip_rightD)
  have "distinct (map fst es)"
    using nd adjacent_equal_sorted [of "map fst (sort_key fst es)"]
    by (simp add: distinct_map)
  then have "distinct (map (fst \<circ> snd) (zip m es))"
    using mapE_length [OF es] by (simp flip: map_map)
  then have "distinct (map fst fs)"
    unfolding fs_def map_map by (rule distinct_map_filter)
  then have "\<not> adjacent_equal (map fst (sort_key fst fs))"
    using adjacent_equal_sorted [of "map fst (sort_key fst fs)"] by (simp add: distinct_map)
  moreover have "length fs \<le> length es"
    using mapE_length [OF es] length_filter_le [of "\<lambda>(x, y). P x" "zip m es"] unfolding fs_def
    by simp
  then obtain h' where "head MAJOR_MAP (int (length (sort_key fst fs))) = Inr h'"
    using head_le [OF h, of "int (length fs)"] by auto
  moreover have "\<exists>cs. mapE ?g (sort_key fst fs) = Inr cs"
  proof -
    have "\<forall>x\<in>set es. \<exists>y. ?g x = Inr y"
      using bs mapE_total [of ?g "sort_key fst es"] by auto
    with sub show ?thesis by (subst mapE_total) auto
  qed
  ultimately show ?thesis using d fs by (auto simp: Let_def)
qed

lemma signingInput_total:
  assumes "encode (CMap m) = Inr bs" "field m ''suite'' = Some (CNum n)" "0 \<le> n" "n \<le> 255"
  shows "\<exists>i. signingInput m = Inr i"
  using assms encodeValue_filter [of m 0 bs "\<lambda>(k, v). k \<notin> set SIGNATURE_FIELDS"]
  unfolding signingInput_Inr encode_def core_def by blast

subsection \<open>The bytes of a map determine its fields\<close>

lemma encode_distinct_keys:
  assumes "encode (CMap m) = Inr bs"
  shows "distinct (map fst m)"
proof -
  let ?m = "sort_key (\<lambda>(k, v). key_bytes k) m"
  obtain kvs where kvs: "list_all2 (entry_bytes 1) ?m kvs" and s: "sorted_wrt (<) (map fst kvs)"
    using encodeValue_map_inv assms unfolding encode_def by (metis One_nat_def)
  have "map fst kvs = map key_bytes (map fst ?m)"
    using kvs by (induction rule: list_all2_induct) (auto simp: entry_bytes_def key_bytes_eq)
  with s have "distinct (map key_bytes (map fst ?m))" by (simp add: strict_sorted_iff)
  then have "distinct (map fst ?m)" by (simp only: distinct_map)
  then show ?thesis by (simp add: distinct_map)
qed

lemma map_of_canon:
  assumes "encode (CMap m) = Inr bs" "canon (CMap m) = CMap c"
  shows "map_of c k = map_option canon (map_of m k)"
proof -
  let ?n = "map (map_prod id canon) m"
  have c: "c = sort_key (\<lambda>(k, v). key_bytes k) ?n" using assms(2) by simp
  have "map fst ?n = map fst m" by (induction m) auto
  then have d: "distinct (map fst ?n)" using encode_distinct_keys [OF assms(1)] by metis
  then have "distinct (map fst c)"
    unfolding c using distinct_map [of fst] by (metis distinct_sort set_sort)
  with d have "map_of c = map_of ?n" by (subst map_of_inject_set) (simp_all add: c)
  moreover have "?n = map (\<lambda>(k, v). (k, canon v)) m" by auto
  ultimately show ?thesis by (simp add: map_of_map)
qed

lemma encode_map_value:
  assumes "encode (CMap m) = Inr bs" "(k, v) \<in> set m"
  shows "\<exists>b. encodeValue v 1 = Inr b"
proof -
  let ?m = "sort_key (\<lambda>(k, v). key_bytes k) m"
  obtain kvs where kvs: "list_all2 (entry_bytes 1) ?m kvs"
    using encodeValue_map_inv assms(1) unfolding encode_def by (metis One_nat_def)
  obtain y where "entry_bytes 1 (k, v) y"
    using list_all2_set1 [OF kvs, of "(k, v)"] assms(2) by auto
  then show ?thesis by (auto simp: entry_bytes_def)
qed

lemma decode_map:
  assumes "encode (CMap m) = Inr bs"
  obtains c where "decode bs = Inr (CMap c)" "\<forall>k. map_of c k = map_option canon (map_of m k)"
proof -
  obtain c where c: "canon (CMap m) = CMap c" by simp
  show ?thesis
    using that [of c] decode_encode_canon [OF assms] map_of_canon [OF assms c] c by simp
qed

lemma encode_number: "encodeValue (CNum n) d = Inr b \<Longrightarrow> 0 \<le> n \<and> n \<le> MAX_SAFE_INTEGER"
  by (auto simp: errs split: if_splits)

lemma encode_same_fields:
  assumes "encode (CMap m) = Inr bs" "encode (CMap m') = Inr bs"
  shows "map_option canon (map_of m k) = map_option canon (map_of m' k)"
proof -
  obtain c where c: "canon (CMap m) = CMap c" "canon (CMap m') = CMap c"
    using decode_encode_canon [OF assms(1)] decode_encode_canon [OF assms(2)] by simp
  show ?thesis using map_of_canon [OF assms(1) c(1)] map_of_canon [OF assms(2) c(2)] by simp
qed

lemma map_of_core: "k \<notin> set SIGNATURE_FIELDS \<Longrightarrow> map_of (core m) k = map_of m k"
  unfolding core_def by (induction m) auto

lemmas [exec] = SIGNATURE_FIELDS_def prefix_bytes withDomain_def core_def signingInput_def
  recordHashFromBytes_def isZeroHash_iff

subsection \<open>Properties\<close>

text \<open>
  Domain separation and coverage. Records with one signing input agree on every field but the
  two signatures (big and small integers of one value counting as equal); no signing input is the
  preimage of a record hash; and a hash preimage determines the record bytes.
\<close>

theorem domain_separation:
  assumes "signingInput m = Inr i"
  shows "(signingInput m' = Inr i \<and> key \<notin> set SIGNATURE_FIELDS \<longrightarrow>
            map_option canon (map_get m key) = map_option canon (map_get m' key)) \<and>
         i \<noteq> withDomain HASH_PREFIX_BYTES body [] \<and>
         (withDomain HASH_PREFIX_BYTES body [] = withDomain HASH_PREFIX_BYTES body' [] \<longrightarrow> body = body')"
proof (intro conjI impI)
  obtain n b where n: "encode (CMap (core m)) = Inr b"
      "i = withDomain SIGNING_PREFIX_BYTES b [word_of_int n]"
    using assms unfolding signingInput_Inr by blast
  then show "i \<noteq> withDomain HASH_PREFIX_BYTES body []" by (simp add: domains_differ)
  show "body = body'"
    if "withDomain HASH_PREFIX_BYTES body [] = withDomain HASH_PREFIX_BYTES body' []"
    using that by (simp add: withDomain_inject)
  assume a: "signingInput m' = Inr i \<and> key \<notin> set SIGNATURE_FIELDS"
  then have "encode (CMap (core m')) = Inr b"
    using n unfolding signingInput_Inr by (auto simp: withDomain_inject)
  from encode_same_fields [OF n(1) this, of key] a
  show "map_option canon (map_get m key) = map_option canon (map_get m' key)"
    by (simp add: map_of_core)
qed

theorem domain_separation_witness:
  "\<exists>i. signingInput [(KText (js ''suite''), CNum 2)] = Inr i \<and>
     signingInput [(KText (js ''suite''), CNum 1), (KText (js ''sig''), CBytes [1])] \<noteq> Inr i"
proof -
  have "\<exists>i. signingInput [(KText (js ''suite''), CNum 2)] = Inr i" by (simp add: exec)
  then obtain i where b: "signingInput [(KText (js ''suite''), CNum 2)] = Inr i" by blast
  have "signingInput [(KText (js ''suite''), CNum 1), (KText (js ''sig''), CBytes [1])] \<noteq> Inr i"
    using domain_separation [OF b, of _ "KText (js ''suite'')"]
    by (fastforce simp: SIGNATURE_FIELDS_def)
  with b show ?thesis by blast
qed

end
