(* ===== verification/Pow.thy ===== *)
theory Pow
  imports Domain "HOL-Library.Log_Nat"
begin

section \<open>Proof of work\<close>

text \<open>
  registry/src/pow.ts: the difficulty of a name, the window that feeds it, the salt derived from
  the record, the test on the tag, verification and search. Argon2id and SHA-256 are fields of
  \<open>crypto\<close>. \<open>Math.floor(Math.log2(x))\<close> is integer arithmetic (\<open>log2_floor\<close>), which
  lemma \<open>log2_floor_log\<close> relates to the real logarithm. The progress callback of the search
  is left out.
\<close>

definition POW_ALGORITHM :: jsstr where "POW_ALGORITHM = js ''argon2id-v19-m65536-t2-p1''"
definition POW_MEMORY_KIB :: nat where "POW_MEMORY_KIB = 65536"
definition POW_ITERATIONS :: nat where "POW_ITERATIONS = 2"
definition POW_LANES :: nat where "POW_LANES = 1"
definition POW_VERSION :: nat where "POW_VERSION = 0x13"
definition POW_TAG_LENGTH :: nat where "POW_TAG_LENGTH = 32"
definition POW_NONCE_LENGTH :: nat where "POW_NONCE_LENGTH = 16"
definition POW_SALT_PREFIX :: jsstr where "POW_SALT_PREFIX = js ''vayuweb-pow-v1''"
definition POW_SALT_LENGTH :: nat where "POW_SALT_LENGTH = 16"
definition MAX_DIFFICULTY_BITS :: nat where "MAX_DIFFICULTY_BITS = 20"
definition EPOCH_SECONDS :: int where "EPOCH_SECONDS = 3600"
definition RATE_WINDOW_SECONDS :: int where "RATE_WINDOW_SECONDS = 2592000"
definition RATE_FLOOR :: nat where "RATE_FLOOR = 512"

definition SALT_PREFIX_BYTES :: bytes where
  "SALT_PREFIX_BYTES = text_encode POW_SALT_PREFIX"

subsection \<open>Difficulty\<close>

definition baseBits :: "nat \<Rightarrow> nat" where
  "baseBits labelLength =
     (if labelLength \<le> 2 then 10
      else if labelLength = 3 then 9
      else if labelLength = 4 then 8
      else if labelLength \<le> 6 then 7
      else if labelLength \<le> 9 then 6
      else if labelLength \<le> 15 then 5
      else 4)"

fun log2_floor :: "nat \<Rightarrow> nat" where
  "log2_floor n = (if n < 2 then 0 else Suc (log2_floor (n div 2)))"

declare log2_floor.simps [simp del]

definition requiredBits :: "nat \<Rightarrow> nat \<Rightarrow> nat" where
  "requiredBits labelLength windowCount =
     (let base = baseBits labelLength;
          rate = (if windowCount < RATE_FLOOR then 0 else min 8 (log2_floor (windowCount div RATE_FLOOR)))
      in min MAX_DIFFICULTY_BITS (base + rate))"

definition rateWindow :: "int \<Rightarrow> int \<times> int" where
  "rateWindow notBefore =
     (let epoch = notBefore div EPOCH_SECONDS; end_s = epoch * EPOCH_SECONDS
      in (end_s - RATE_WINDOW_SECONDS, end_s))"

subsection \<open>Salt and tag\<close>

definition powSaltPreimage :: "cbor_map \<Rightarrow> cbor_error + bytes" where
  "powSaltPreimage m =
     (let stripped = map_delete (KText (js ''sig'')) m;
          stripped = (case field stripped ''powProof'' of
              Some (CMap proof) \<Rightarrow>
                map_set (KText (js ''powProof'')) (CMap (map_delete (KText (js ''nonce'')) proof)) stripped
            | _ \<Rightarrow> stripped)
      in bindE (encode (CMap stripped)) (\<lambda>body. Inr (SALT_PREFIX_BYTES @ body)))"

definition powSalt :: "crypto \<Rightarrow> cbor_map \<Rightarrow> cbor_error + bytes" where
  "powSalt C m = bindE (powSaltPreimage m) (\<lambda>p. Inr (take POW_SALT_LENGTH (sha256 C p)))"

definition powTag :: "crypto \<Rightarrow> bytes \<Rightarrow> bytes \<Rightarrow> bytes" where
  "powTag C nonce salt =
     argon2id C nonce salt POW_MEMORY_KIB POW_ITERATIONS POW_LANES POW_VERSION POW_TAG_LENGTH"

text \<open>
  The two variables of the loop are \<open>leading\<close> and \<open>stillZero\<close>; the loop looks at every
  bit of the tag.
\<close>

definition tag_bit :: "byte \<Rightarrow> nat \<times> nat \<Rightarrow> nat \<Rightarrow> nat \<times> nat" where
  "tag_bit b s shift =
     (let isZero = (if drop_bit shift b AND 1 = 0 then 1 else 0);
          stillZero = snd s AND isZero
      in (fst s + stillZero, stillZero))"

definition tagSatisfies :: "bytes \<Rightarrow> nat \<Rightarrow> bool" where
  "tagSatisfies tag bits \<longleftrightarrow>
     fst (foldl (\<lambda>s b. foldl (tag_bit b) s [7, 6, 5, 4, 3, 2, 1, 0]) (0, 1) tag) \<ge> bits"

subsection \<open>Verification and search\<close>

datatype pow_rejection =
    POW_BAD_ALGORITHM | POW_BAD_NONCE | POW_INSUFFICIENT_DIFFICULTY | POW_TAG_FAILS

text \<open>
  The outcome is \<open>None\<close> for \<open>ok: true\<close>; the outer \<open>Inl\<close> is an exception of the encoder.
\<close>

definition verifyPow :: "crypto \<Rightarrow> cbor_map \<Rightarrow> nat \<Rightarrow> cbor_error + pow_rejection option" where
  "verifyPow C m requiredBitsForRecord =
     (case field m ''powProof'' of
        Some (CMap proof) \<Rightarrow>
          if field proof ''alg'' \<noteq> Some (CText POW_ALGORITHM) then Inr (Some POW_BAD_ALGORITHM)
          else (case field proof ''nonce'' of
            Some (CBytes nonce) \<Rightarrow>
              if length nonce \<noteq> POW_NONCE_LENGTH then Inr (Some POW_BAD_NONCE)
              else (case field proof ''bits'' of
                Some (CNum claimed) \<Rightarrow>
                  if claimed < int requiredBitsForRecord then Inr (Some POW_INSUFFICIENT_DIFFICULTY)
                  else bindE (powSalt C m) (\<lambda>salt.
                    if \<not> tagSatisfies (powTag C nonce salt) (nat claimed) then Inr (Some POW_TAG_FAILS)
                    else Inr None)
              | _ \<Rightarrow> Inr (Some POW_INSUFFICIENT_DIFFICULTY))
          | _ \<Rightarrow> Inr (Some POW_BAD_NONCE))
      | _ \<Rightarrow> Inr (Some POW_BAD_ALGORITHM))"

fun increment_from :: "bytes \<Rightarrow> bytes" where
  "increment_from [] = []"
| "increment_from (b # bs) = (if b + 1 \<noteq> 0 then (b + 1) # bs else (b + 1) # increment_from bs)"

definition incrementNonce :: "bytes \<Rightarrow> bytes" where
  "incrementNonce nonce = rev (increment_from (rev nonce))"

primrec solve_loop :: "crypto \<Rightarrow> bytes \<Rightarrow> nat \<Rightarrow> nat \<Rightarrow> bytes \<Rightarrow> bytes option" where
  "solve_loop C salt bits 0 nonce = None"
| "solve_loop C salt bits (Suc attempts) nonce =
     (let nonce = incrementNonce nonce in
      if tagSatisfies (powTag C nonce salt) bits then Some nonce
      else solve_loop C salt bits attempts nonce)"

datatype solve_error = NO_POW_MAP | SOLVE_CBOR cbor_error

definition solvePow :: "crypto \<Rightarrow> cbor_map \<Rightarrow> nat \<Rightarrow> nat \<Rightarrow> solve_error + bytes option" where
  "solvePow C m bits limit =
     (case field m ''powProof'' of
        Some (CMap proof) \<Rightarrow>
          (case powSalt C m of
             Inl e \<Rightarrow> Inl (SOLVE_CBOR e)
           | Inr salt \<Rightarrow> Inr (solve_loop C salt bits limit (replicate POW_NONCE_LENGTH 0)))
      | _ \<Rightarrow> Inl NO_POW_MAP)"

lemmas pow_constants = POW_MEMORY_KIB_def POW_ITERATIONS_def POW_LANES_def POW_VERSION_def
  POW_TAG_LENGTH_def POW_NONCE_LENGTH_def POW_SALT_LENGTH_def MAX_DIFFICULTY_BITS_def
  EPOCH_SECONDS_def RATE_WINDOW_SECONDS_def RATE_FLOOR_def

lemma salt_prefix_bytes: "SALT_PREFIX_BYTES = map of_char ''vayuweb-pow-v1''"
  by (simp add: SALT_PREFIX_BYTES_def POW_SALT_PREFIX_def text_encode_ascii is_ascii_def)

lemmas [exec] = pow_constants POW_ALGORITHM_def salt_prefix_bytes powSaltPreimage_def powSalt_def
  powTag_def verifyPow_def rateWindow_def requiredBits_def baseBits_def

subsection \<open>Difficulty: bounds and the real logarithm\<close>

lemma log2_floor_bounds: "0 < n \<Longrightarrow> 2 ^ log2_floor n \<le> n \<and> n < 2 ^ Suc (log2_floor n)"
proof (induction n rule: log2_floor.induct)
  case (1 n)
  show ?case
  proof (cases "n < 2")
    case True
    then show ?thesis using 1 by (simp add: log2_floor.simps [of n])
  next
    case False
    then have IH: "2 ^ log2_floor (n div 2) \<le> n div 2" "n div 2 < 2 ^ Suc (log2_floor (n div 2))"
      using 1 by auto
    moreover have "n = 2 * (n div 2) + n mod 2" "n mod 2 < 2" by auto
    moreover have "log2_floor n = Suc (log2_floor (n div 2))"
      using False by (simp add: log2_floor.simps [of n])
    ultimately show ?thesis
      unfolding \<open>log2_floor n = Suc (log2_floor (n div 2))\<close> power_Suc by linarith
  qed
qed

lemma log2_floor_mono: "m \<le> n \<Longrightarrow> log2_floor m \<le> log2_floor n"
proof (induction n arbitrary: m rule: log2_floor.induct)
  case (1 n)
  then show ?case
    using div_le_mono [of m n 2] by (auto simp: log2_floor.simps [of n] log2_floor.simps [of m])
qed

lemma log2_floor_log:
  assumes "512 \<le> w"
  shows "int (log2_floor (w div 512)) = \<lfloor>log 2 (real w / 512)\<rfloor>"
proof -
  let ?k = "log2_floor (w div 512)"
  have "0 < w div 512" using assms by simp
  then have "2 ^ ?k \<le> w div 512" "w div 512 < 2 ^ Suc ?k" using log2_floor_bounds by blast+
  then have "2 ^ ?k * 512 \<le> w" "w < 2 ^ Suc ?k * 512"
    by (auto simp: less_eq_div_iff_mult_less_eq div_less_iff_less_mult)
  then have "real (2 ^ ?k * 512) \<le> real w" "real w < real (2 ^ Suc ?k * 512)"
    by (simp_all only: of_nat_le_iff of_nat_less_iff)
  then have "2 powr real ?k \<le> real w / 512" "real w / 512 < 2 powr (real ?k + 1)"
    by (simp_all add: powr_realpow powr_add)
  moreover have "0 < real w / 512" using assms by simp
  ultimately have "real ?k \<le> log 2 (real w / 512)" "log 2 (real w / 512) < real ?k + 1"
    by (simp_all add: le_log_iff log_less_iff)
  then show ?thesis by linarith
qed

lemma baseBits_bounds: "4 \<le> baseBits n \<and> baseBits n \<le> 10"
  by (simp add: baseBits_def)

lemma baseBits_mono: "m \<le> n \<Longrightarrow> baseBits n \<le> baseBits m"
  by (simp add: baseBits_def)

subsection \<open>The test on the tag\<close>

text \<open>
  \<open>tag_bits\<close> lists the bits of a tag, most significant first; \<open>leading_zeros\<close> is what the
  loop counts.
\<close>

definition tag_bits :: "bytes \<Rightarrow> bool list" where
  "tag_bits tag = concat (map (\<lambda>b. map (bit b) [7, 6, 5, 4, 3, 2, 1, 0]) tag)"

definition leading_zeros :: "bool list \<Rightarrow> nat" where
  "leading_zeros bs = length (takeWhile Not bs)"

definition bits_value :: "bool list \<Rightarrow> nat" where
  "bits_value bs = foldl (\<lambda>a b. 2 * a + of_bool b) 0 bs"

lemma length_tag_bits [simp]: "length (tag_bits tag) = 8 * length tag"
  by (induction tag) (auto simp: tag_bits_def)

lemma tag_bit_eq:
  "z \<le> 1 \<Longrightarrow> tag_bit b (n, z) i = (n + (if bit b i then 0 else z), if bit b i then 0 else z)"
  using less_2_cases_iff [of z]
  by (auto simp: tag_bit_def Let_def and_one_eq odd_iff_mod_2_eq_one bit_iff_odd_drop_bit)

lemma tag_bit_run:
  "z \<le> 1 \<Longrightarrow> foldl (tag_bit b) (n, z) is =
     (n + z * leading_zeros (map (bit b) is), z * of_bool (\<forall>i\<in>set is. \<not> bit b i))"
proof (induction "is" arbitrary: n z)
  case (Cons i ks)
  then show ?case
    by (cases "bit b i") (auto simp: tag_bit_eq leading_zeros_def)
qed (simp add: leading_zeros_def)

lemma leading_zeros_append:
  "leading_zeros (xs @ ys) = (if \<forall>x\<in>set xs. \<not> x then length xs + leading_zeros ys else leading_zeros xs)"
  by (induction xs) (auto simp: leading_zeros_def)

lemma tag_run:
  "z \<le> 1 \<Longrightarrow> fst (foldl (\<lambda>s b. foldl (tag_bit b) s [7, 6, 5, 4, 3, 2, 1, 0]) (n, z) tag) =
     n + z * leading_zeros (tag_bits tag)"
proof (induction tag arbitrary: n z)
  case (Cons b bs)
  let ?is = "[7, 6, 5, 4, 3, 2, 1, 0] :: nat list"
  have t: "tag_bits (b # bs) = map (bit b) ?is @ tag_bits bs" by (simp add: tag_bits_def)
  have step: "foldl (tag_bit b) (n, z) ?is =
      (n + z * leading_zeros (map (bit b) ?is), z * of_bool (\<forall>i\<in>set ?is. \<not> bit b i))"
    by (rule tag_bit_run [OF Cons.prems])
  have "z * of_bool (\<forall>i\<in>set ?is. \<not> bit b i) \<le> 1" using Cons.prems by simp
  from Cons.IH [OF this] step have
    "fst (foldl (\<lambda>s b. foldl (tag_bit b) s ?is) (n, z) (b # bs)) =
       n + z * leading_zeros (map (bit b) ?is) +
       z * of_bool (\<forall>i\<in>set ?is. \<not> bit b i) * leading_zeros (tag_bits bs)"
    by (simp only: foldl_Cons)
  then show ?case
    unfolding t leading_zeros_append
    by (cases "\<forall>i\<in>set ?is. \<not> bit b i") (simp_all add: leading_zeros_def)
qed (simp add: leading_zeros_def tag_bits_def)

lemma bits_value_append: "bits_value (xs @ ys) = bits_value xs * 2 ^ length ys + bits_value ys"
proof (induction ys rule: rev_induct)
  case (snoc y ys)
  have "bits_value ((xs @ ys) @ [y]) = 2 * bits_value (xs @ ys) + of_bool y"
    "bits_value (ys @ [y]) = 2 * bits_value ys + of_bool y"
    by (simp_all add: bits_value_def)
  with snoc show ?case by simp
qed (simp add: bits_value_def)

lemma bits_value_less: "bits_value bs < 2 ^ length bs"
  by (induction bs rule: rev_induct) (auto simp: bits_value_def)

lemma bits_value_byte: "bits_value (map (bit b) [7, 6, 5, 4, 3, 2, 1, 0]) = unat (b :: byte)"
proof -
  have "take_bit 8 (unat b) = horner_sum of_bool 2 (map (bit (unat b)) [0..<8])"
    by (simp only: horner_sum_bit_eq_take_bit)
  moreover have "take_bit 8 (unat b) = unat b" by (simp add: take_bit_nat_eq_self)
  moreover have "bit (unat b) = bit b" by (auto simp: bit_unsigned_iff dest: bit_imp_le_length)
  ultimately have "unat b = horner_sum of_bool 2 (map (bit b) [0..<8])" by metis
  moreover have "[0..<8] = [0, 1, 2, 3, 4, 5, 6, 7 :: nat]" by (simp add: upt_rec)
  ultimately show ?thesis by (simp add: bits_value_def)
qed

lemma bits_value_tag: "bits_value (tag_bits tag) = be_value tag"
proof (induction tag rule: rev_induct)
  case (snoc b bs)
  have "tag_bits (bs @ [b]) = tag_bits bs @ map (bit b) [7, 6, 5, 4, 3, 2, 1, 0]"
    by (simp add: tag_bits_def)
  then show ?case using snoc by (simp only: bits_value_append bits_value_byte be_value_snoc) simp
qed (simp add: tag_bits_def bits_value_def)

lemma leading_zeros_value:
  "n \<le> leading_zeros bs \<longleftrightarrow> n \<le> length bs \<and> bits_value bs < 2 ^ (length bs - n)"
proof (induction bs arbitrary: n)
  case (Cons b bs)
  have v: "bits_value (b # bs) = of_bool b * 2 ^ length bs + bits_value bs"
    using bits_value_append [of "[b]" bs] by (simp add: bits_value_def)
  show ?case
  proof (cases n)
    case 0
    then show ?thesis using bits_value_less [of "b # bs"] by simp
  next
    case (Suc k)
    have "\<not> 2 ^ length bs + bits_value bs < 2 ^ (length bs - k)"
      using power_increasing [of "length bs - k" "length bs" "2 :: nat"] by linarith
    then show ?thesis
      using Cons.IH [of k] Suc v by (cases b) (auto simp: leading_zeros_def)
  qed
qed (simp add: leading_zeros_def bits_value_def)

lemma tagSatisfies_iff:
  "tagSatisfies tag n \<longleftrightarrow> n \<le> 8 * length tag \<and> be_value tag < 2 ^ (8 * length tag - n)"
  using tag_run [of 1 0 tag] leading_zeros_value [of n "tag_bits tag"]
  by (simp add: tagSatisfies_def bits_value_tag)

subsection \<open>The search\<close>

lemma length_increment_from [simp]: "length (increment_from bs) = length bs"
  by (induction bs) auto

lemma length_incrementNonce [simp]: "length (incrementNonce nonce) = length nonce"
  by (simp add: incrementNonce_def)

lemma unat_byte_succ: "unat (b + 1 :: byte) = (if b + 1 = 0 then 0 else Suc (unat b))"
  by (simp add: unat_word_ariths(1) word_unat_eq_iff mod_Suc)

lemma be_value_increment_from:
  "be_value (rev (increment_from bs)) = (be_value (rev bs) + 1) mod 256 ^ length bs"
proof (induction bs)
  case (Cons b bs)
  show ?case
  proof (cases "b + 1 = 0")
    case True
    then have b: "unat b = 255"
      using unat_byte_less [of b] by (simp add: unat_word_ariths(1) word_unat_eq_iff mod_Suc split: if_splits)
    let ?v = "be_value (rev bs)" and ?k = "256 ^ length bs :: nat"
    have "be_value (rev (increment_from (b # bs))) = Suc ?v mod ?k * 256"
      using True Cons.IH by simp
    also have "\<dots> = (?v * 256 + 256) mod (256 * ?k)"
      using mult_mod_right [of 256 "Suc ?v" ?k] by (simp add: mult.commute add.commute)
    also have "\<dots> = (be_value (rev (b # bs)) + 1) mod 256 ^ length (b # bs)"
      using b by (simp add: add.commute)
    finally show ?thesis .
  next
    case False
    then have "unat b < 255"
      using unat_byte_succ [of b] unat_byte_less [of "b + 1"] by simp
    moreover have "be_value (rev bs) < 256 ^ length bs"
      using be_value_less [of "rev bs"] by simp
    then have "Suc (be_value (rev bs)) * 256 \<le> 256 ^ length bs * 256"
      by (intro mult_right_mono) simp_all
    ultimately show ?thesis using False by (simp add: unat_byte_succ)
  qed
qed simp

lemma be_value_incrementNonce:
  "be_value (incrementNonce nonce) = (be_value nonce + 1) mod 256 ^ length nonce"
  using be_value_increment_from [of "rev nonce"] by (simp add: incrementNonce_def)

lemma nonce_walk:
  "be_value ((incrementNonce ^^ i) (replicate 16 0)) = i mod 256 ^ 16 \<and>
   length ((incrementNonce ^^ i) (replicate 16 0)) = 16"
proof (induction i)
  case 0
  have "be_value (replicate 16 0) = 0"
    using be_value_zeros [of 16 "[]"] by (simp only: append_Nil2 be_value_Nil)
  then show ?case by simp
next
  case (Suc i)
  then show ?case by (simp add: be_value_incrementNonce mod_Suc_eq)
qed

lemma solve_loop_Some:
  "solve_loop C salt bits limit nonce = Some n \<Longrightarrow>
     \<exists>i. 1 \<le> i \<and> i \<le> limit \<and> n = (incrementNonce ^^ i) nonce \<and>
       tagSatisfies (powTag C n salt) bits \<and>
       (\<forall>j. 1 \<le> j \<and> j < i \<longrightarrow> \<not> tagSatisfies (powTag C ((incrementNonce ^^ j) nonce) salt) bits)"
proof (induction limit arbitrary: nonce)
  case (Suc limit)
  show ?case
  proof (cases "tagSatisfies (powTag C (incrementNonce nonce) salt) bits")
    case True
    then show ?thesis using Suc.prems by (intro exI [of _ 1]) (simp add: Let_def)
  next
    case False
    then obtain i where i: "1 \<le> i" "i \<le> limit" "n = (incrementNonce ^^ i) (incrementNonce nonce)"
      "tagSatisfies (powTag C n salt) bits"
      "\<forall>j. 1 \<le> j \<and> j < i \<longrightarrow>
         \<not> tagSatisfies (powTag C ((incrementNonce ^^ j) (incrementNonce nonce)) salt) bits"
      using Suc by (auto simp: Let_def)
    have "\<not> tagSatisfies (powTag C ((incrementNonce ^^ j) nonce) salt) bits" if "1 \<le> j" "j < Suc i" for j
      using that i(5) False by (cases j; cases "j - 1") (auto simp: funpow_swap1)
    then show ?thesis
      using i by (intro exI [of _ "Suc i"]) (simp add: funpow_swap1)
  qed
qed simp

lemma solve_loop_None:
  "solve_loop C salt bits limit nonce = None \<Longrightarrow> 1 \<le> i \<Longrightarrow> i \<le> limit \<Longrightarrow>
     \<not> tagSatisfies (powTag C ((incrementNonce ^^ i) nonce) salt) bits"
proof (induction limit arbitrary: nonce i)
  case (Suc limit)
  then obtain j where "i = Suc j" by (cases i) auto
  then show ?case
    using Suc.prems Suc.IH [of "incrementNonce nonce" j]
    by (cases j) (auto simp: Let_def funpow_swap1 split: if_splits)
qed simp

lemma powSalt_nonce:
  assumes "field m ''powProof'' = Some (CMap proof)"
  shows "powSalt C (map_set (KText (js ''powProof'')) (CMap (map_set (KText (js ''nonce'')) v proof)) m) =
    powSalt C m"
  using assms by (simp add: powSalt_def powSaltPreimage_def delete_update delete_update_same Let_def)

subsection \<open>A sample proof\<close>

definition sample_proof_fields :: "int \<Rightarrow> cbor_map" where
  "sample_proof_fields bits =
     [(KText (js ''alg''), CText POW_ALGORITHM), (KText (js ''bits''), CNum bits)]"

definition sample_proof :: "int \<Rightarrow> cbor_map" where
  "sample_proof bits = [(KText (js ''powProof''), CMap (sample_proof_fields bits))]"

lemma sample_tag: "tagSatisfies (powTag sample_crypto (be_bytes 16 1) salt) 4"
  by (simp add: tagSatisfies_iff powTag_def sample_crypto_def pow_constants be_value_zeros
      be_value_be_bytes)

lemma sample_salt: "\<exists>salt. powSalt sample_crypto (sample_proof 4) = Inr salt"
proof -
  have "\<exists>p. powSaltPreimage (sample_proof 4) = Inr p"
    by (simp add: sample_proof_def sample_proof_fields_def exec)
  then show ?thesis by (auto simp: powSalt_def)
qed

lemma sample_solve: "solvePow sample_crypto (sample_proof 4) 4 10 = Inr (Some (be_bytes 16 1))"
proof -
  obtain salt where s: "powSalt sample_crypto (sample_proof 4) = Inr salt"
    using sample_salt by blast
  have "incrementNonce (replicate 16 0) = be_bytes 16 1"
    using nonce_walk [of 1] be_bytes_be_value [of "incrementNonce (replicate 16 0)"] by simp
  then have "solve_loop sample_crypto salt 4 (Suc 9) (replicate 16 0) = Some (be_bytes 16 1)"
    using sample_tag [of salt] unfolding solve_loop.simps Let_def by simp
  moreover have "Suc 9 = 10" by simp
  ultimately have "solve_loop sample_crypto salt 4 10 (replicate 16 0) = Some (be_bytes 16 1)" by metis
  then show ?thesis using s by (simp add: solvePow_def sample_proof_def POW_NONCE_LENGTH_def)
qed

subsection \<open>Properties\<close>

text \<open>
  The difficulty is the base for the length plus the whole number of doublings of the volume
  above the floor, at most eight; it never falls as volume grows and never rises with the length
  of the label; and it lies between 4 and 18, so the cap of 20 never applies.
\<close>

theorem requiredBits_spec:
  "requiredBits n w = baseBits n + (if w < 512 then 0 else min 8 (nat \<lfloor>log 2 (real w / 512)\<rfloor>)) \<and>
   4 \<le> requiredBits n w \<and> requiredBits n w \<le> 18 \<and>
   (m \<le> n \<and> v \<le> w \<longrightarrow> requiredBits n v \<le> requiredBits m w)"
proof (intro conjI impI)
  show eq: "requiredBits n w = baseBits n + (if w < 512 then 0 else min 8 (nat \<lfloor>log 2 (real w / 512)\<rfloor>))"
  proof (cases "w < 512")
    case False
    then have "nat \<lfloor>log 2 (real w / 512)\<rfloor> = log2_floor (w div 512)"
      using log2_floor_log [of w] by (metis nat_int not_less)
    then show ?thesis
      using False baseBits_bounds [of n]
      by (auto simp: requiredBits_def pow_constants Let_def min_def)
  qed (use baseBits_bounds [of n] in \<open>simp add: requiredBits_def pow_constants Let_def\<close>)
  show "4 \<le> requiredBits n w" "requiredBits n w \<le> 18"
    using baseBits_bounds [of n] unfolding eq by auto
  assume mv: "m \<le> n \<and> v \<le> w"
  then have "baseBits n \<le> baseBits m" by (simp add: baseBits_mono)
  moreover have "log2_floor (v div 512) \<le> log2_floor (w div 512)"
    using mv by (simp add: log2_floor_mono div_le_mono)
  ultimately show "requiredBits n v \<le> requiredBits m w"
    using mv by (auto simp: requiredBits_def pow_constants Let_def)
qed

theorem requiredBits_spec_witness:
  "requiredBits 9 511 \<le> requiredBits 5 1024"
  using requiredBits_spec [of 9 511 5 511] requiredBits_spec [of 9 1024 5 511] by simp

text \<open>
  The branch-free test on the tag is the numeric one: a tag passes at \<open>n\<close> bits when the
  big-endian number it spells is below \<open>2^(8 * length - n)\<close>.
\<close>

theorem tagSatisfies_numeric:
  "tagSatisfies tag n \<longleftrightarrow> n \<le> 8 * length tag \<and> be_value tag < 2 ^ (8 * length tag - n)"
  by (rule tagSatisfies_iff)

text \<open>
  What the search returns is accepted: the nonce it found, written into the record's proof,
  passes the verifier at the claimed difficulty and at any lower requirement.
\<close>

theorem solvePow_verifies:
  assumes "field m ''powProof'' = Some (CMap proof)"
    and "field proof ''alg'' = Some (CText POW_ALGORITHM)"
    and "field proof ''bits'' = Some (CNum (int bits))" and "required \<le> bits"
    and "solvePow C m bits limit = Inr (Some nonce)"
  shows "verifyPow C (map_set (KText (js ''powProof''))
             (CMap (map_set (KText (js ''nonce'')) (CBytes nonce) proof)) m) required = Inr None"
proof -
  obtain salt where salt: "powSalt C m = Inr salt"
    and "solve_loop C salt bits limit (replicate POW_NONCE_LENGTH 0) = Some nonce"
    using assms(1,5) by (auto simp: solvePow_def split: sum.splits)
  then have "length nonce = 16" "tagSatisfies (powTag C nonce salt) bits"
    using solve_loop_Some nonce_walk by (auto simp: POW_NONCE_LENGTH_def dest!: solve_loop_Some)
  then show ?thesis
    using assms(2-4) salt powSalt_nonce [OF assms(1)]
    by (simp add: verifyPow_def POW_NONCE_LENGTH_def)
qed

theorem solvePow_verifies_witness:
  "\<exists>nonce. solvePow sample_crypto (sample_proof 4) 4 10 = Inr (Some nonce) \<and>
     verifyPow sample_crypto (map_set (KText (js ''powProof''))
       (CMap (map_set (KText (js ''nonce'')) (CBytes nonce) (sample_proof_fields 4))) (sample_proof 4)) 3 = Inr None"
proof -
  have s: "solvePow sample_crypto (sample_proof 4) 4 10 = Inr (Some (be_bytes 16 1))"
    by (rule sample_solve)
  show ?thesis
    using solvePow_verifies [of "sample_proof 4" "sample_proof_fields 4" 4 3, OF _ _ _ _ s] s
    by (simp add: sample_proof_def sample_proof_fields_def)
qed

text \<open>
  The search is exhaustive up to its limit and does not repeat itself: it tries the nonces
  1, 2, 3, ... in order, returns the first that satisfies the difficulty, and returns nothing only
  when none of the first \<open>limit\<close> does.
\<close>

theorem solvePow_exhaustive:
  assumes "field m ''powProof'' = Some (CMap proof)" and "powSalt C m = Inr salt"
    and "limit < 256 ^ 16"
  shows "solvePow C m bits limit =
    Inr (map_option (be_bytes 16)
      (find (\<lambda>i. tagSatisfies (powTag C (be_bytes 16 i) salt) bits) [1..<Suc limit]))"
proof -
  let ?nonce = "\<lambda>i. (incrementNonce ^^ i) (replicate 16 0)"
  have walk: "?nonce i = be_bytes 16 i" if "i \<le> limit" for i
    using nonce_walk [of i] be_bytes_be_value [of "?nonce i"] that assms(3) by simp
  have "solve_loop C salt bits limit (replicate 16 0) =
      map_option (be_bytes 16) (find (\<lambda>i. tagSatisfies (powTag C (be_bytes 16 i) salt) bits) [1..<Suc limit])"
  proof (cases "solve_loop C salt bits limit (replicate 16 0)")
    case None
    then have "\<forall>i. 1 \<le> i \<and> i \<le> limit \<longrightarrow> \<not> tagSatisfies (powTag C (be_bytes 16 i) salt) bits"
      using solve_loop_None walk by metis
    then have "find (\<lambda>i. tagSatisfies (powTag C (be_bytes 16 i) salt) bits) [1..<Suc limit] = None"
      by (auto simp: find_None_iff)
    with None show ?thesis by simp
  next
    case (Some n)
    then obtain i where i: "1 \<le> i" "i \<le> limit" "n = be_bytes 16 i" "tagSatisfies (powTag C n salt) bits"
      "\<forall>j. 1 \<le> j \<and> j < i \<longrightarrow> \<not> tagSatisfies (powTag C (be_bytes 16 j) salt) bits"
      using solve_loop_Some [OF Some] walk by force
    then have "find (\<lambda>i. tagSatisfies (powTag C (be_bytes 16 i) salt) bits) [1..<Suc limit] = Some i"
      unfolding find_Some_iff by (intro exI [of _ "i - 1"]) (auto simp del: upt_Suc)
    with Some i show ?thesis by simp
  qed
  then show ?thesis using assms(1,2) by (simp add: solvePow_def POW_NONCE_LENGTH_def)
qed

theorem solvePow_exhaustive_witness:
  "solvePow sample_crypto (sample_proof 4) 4 1 = Inr (Some (be_bytes 16 1))"
proof -
  obtain salt where s: "powSalt sample_crypto (sample_proof 4) = Inr salt"
    using sample_salt by blast
  have "field (sample_proof 4) ''powProof'' = Some (CMap (sample_proof_fields 4))"
    by (simp add: sample_proof_def)
  from solvePow_exhaustive [OF this s, of 1 4] show ?thesis
    by (simp add: sample_tag [unfolded One_nat_def] upt_rec)
qed

text \<open>
  A proof is bound to its record: records with one salt preimage agree on every field but
  the signature and the nonce inside the proof.
\<close>

theorem powSalt_binds:
  assumes "powSaltPreimage m = Inr p" and "powSaltPreimage m' = Inr p"
    and "key \<noteq> KText (js ''sig'')" and "key \<noteq> KText (js ''powProof'')"
  shows "map_option canon (map_get m key) = map_option canon (map_get m' key)"
proof -
  let ?s = "\<lambda>m. case field (map_delete (KText (js ''sig'')) m) ''powProof'' of
      Some (CMap proof) \<Rightarrow> map_set (KText (js ''powProof''))
        (CMap (map_delete (KText (js ''nonce'')) proof)) (map_delete (KText (js ''sig'')) m)
    | _ \<Rightarrow> map_delete (KText (js ''sig'')) m"
  obtain b where "encode (CMap (?s m)) = Inr b" "encode (CMap (?s m')) = Inr b"
    using assms(1,2) unfolding powSaltPreimage_def Let_def by (auto simp: errs)
  from encode_same_fields [OF this, of key]
  have "map_option canon (map_get (?s m) key) = map_option canon (map_get (?s m') key)" .
  moreover have "map_get (?s m) key = map_get m key" for m
    using assms(3,4) by (simp split: option.split cbor.split)
  ultimately show ?thesis by simp
qed

theorem powSalt_binds_witness:
  "\<exists>p. powSaltPreimage [(KText (js ''name''), CText (js ''a''))] = Inr p \<and>
     powSaltPreimage [(KText (js ''name''), CText (js ''b'')), (KText (js ''sig''), CNull)] \<noteq> Inr p"
proof -
  have "\<exists>p. powSaltPreimage [(KText (js ''name''), CText (js ''a''))] = Inr p" by (simp add: exec)
  then obtain p where "powSaltPreimage [(KText (js ''name''), CText (js ''a''))] = Inr p" by blast
  then show ?thesis
    using powSalt_binds [of "[(KText (js ''name''), CText (js ''a''))]" p
        "[(KText (js ''name''), CText (js ''b'')), (KText (js ''sig''), CNull)]" "KText (js ''name'')"]
    by fastforce
qed

end
