(* ===== verification/Registry_Record.thy ===== *)
theory Registry_Record
  imports Names Suites Pow
begin

section \<open>The record schema\<close>

text \<open>
  registry/src/record.ts: structural validation of a decoded map. \<open>rejection\<close> holds the codes
  of \<open>RECORD_REJECTIONS\<close> and of verify.ts's \<open>VERIFY_ONLY_REJECTIONS\<close>. A thrown
  \<open>RecordError\<close> is \<open>Inl\<close> of its code.

  The main lemma, \<open>parseRecord_iff\<close>, says exactly which maps parse and to what; the
  well-formedness invariant \<open>well_formed\<close> collects what later components rely on.
\<close>

datatype rejection =
    NON_CANONICAL | TOO_LARGE | NOT_A_MAP | MISSING_FIELD | BAD_FIELD_TYPE | UNSUPPORTED_VERSION
  | UNKNOWN_SUITE | UNKNOWN_OP | BAD_LABEL | UNKNOWN_TLD | BAD_KEY | BAD_SEQ | BAD_TERM
  | TOO_MANY_RECORDS | BAD_RECORD_ENTRY | BAD_POW_SHAPE | UNEXPECTED_POW | MISSING_POW
  | BAD_CHAIN | BAD_COSIG
  | NAME_TAKEN | BACKDATED | BAD_SIG | BAD_POW | NO_PREDECESSOR | TOO_SOON | REVOKED | BAD_OWNER
  | SUITE_DOWNGRADE | UNSETTLED | EXPIRED

definition RECORD_REJECTIONS :: "rejection list" where
  "RECORD_REJECTIONS =
     [NON_CANONICAL, TOO_LARGE, NOT_A_MAP, MISSING_FIELD, BAD_FIELD_TYPE, UNSUPPORTED_VERSION,
      UNKNOWN_SUITE, UNKNOWN_OP, BAD_LABEL, UNKNOWN_TLD, BAD_KEY, BAD_SEQ, BAD_TERM,
      TOO_MANY_RECORDS, BAD_RECORD_ENTRY, BAD_POW_SHAPE, UNEXPECTED_POW, MISSING_POW, BAD_CHAIN,
      BAD_COSIG]"

datatype operation = REGISTER | UPDATE | RENEW | TRANSFER | RELINQUISH | REVOKE

definition OPERATIONS :: "(jsstr, operation) jsmap" where
  "OPERATIONS =
     [(js ''REGISTER'', REGISTER), (js ''UPDATE'', UPDATE), (js ''RENEW'', RENEW),
      (js ''TRANSFER'', TRANSFER), (js ''RELINQUISH'', RELINQUISH), (js ''REVOKE'', REVOKE)]"

definition SUPPORTED_VERSION :: int where "SUPPORTED_VERSION = 1"
definition MAX_RECORD_BYTES :: nat where "MAX_RECORD_BYTES = MAX_ACTIVE_RECORD_BYTES"
definition MAX_RECORD_ENTRIES :: nat where "MAX_RECORD_ENTRIES = 32"
definition MAX_ENTRY_VALUE_BYTES :: nat where "MAX_ENTRY_VALUE_BYTES = 512"
definition MAX_SEQ :: int where "MAX_SEQ = 0xffffffff"
definition MIN_TTL :: int where "MIN_TTL = 60"
definition MAX_TTL :: int where "MAX_TTL = 86400"
definition DEFAULT_TTL :: int where "DEFAULT_TTL = 3600"

definition KNOWN_ENTRY_TYPES :: "jsstr list" where
  "KNOWN_ENTRY_TYPES = [js ''peer'', js ''ipns'', js ''cid'', js ''txt'', js ''alias'']"

record PowProof =
  p_alg :: jsstr
  p_nonce :: bytes
  p_bits :: int

record RecordEntry =
  e_type :: jsstr
  e_value :: cbor
  e_ttl :: int
  e_known :: bool

record RegistryRecord =
  r_version :: int
  r_suite :: int
  r_op :: operation
  r_name :: jsstr
  r_tld :: jsstr
  r_ownerKey :: bytes
  r_seq :: int
  r_notBefore :: int
  r_notAfter :: int
  r_entries :: "RecordEntry list"
  r_powProof :: "PowProof option"
  r_prevHash :: bytes
  r_sig :: bytes
  r_coSig :: "bytes option"
  r_map :: cbor_map

subsection \<open>Fields\<close>

definition uintField :: "cbor_map \<Rightarrow> string \<Rightarrow> rejection + int" where
  "uintField m key =
     (case field m key of
        None \<Rightarrow> Inl MISSING_FIELD
      | Some (CNum n) \<Rightarrow> Inr n
      | Some _ \<Rightarrow> Inl BAD_FIELD_TYPE)"

definition textField :: "cbor_map \<Rightarrow> string \<Rightarrow> rejection + jsstr" where
  "textField m key =
     (case field m key of
        None \<Rightarrow> Inl MISSING_FIELD
      | Some (CText s) \<Rightarrow> Inr s
      | Some _ \<Rightarrow> Inl BAD_FIELD_TYPE)"

definition bytesField :: "cbor_map \<Rightarrow> string \<Rightarrow> nat \<Rightarrow> rejection + bytes" where
  "bytesField m key n =
     (case field m key of
        None \<Rightarrow> Inl MISSING_FIELD
      | Some (CBytes b) \<Rightarrow> failIf (length b \<noteq> n) BAD_FIELD_TYPE (Inr b)
      | Some _ \<Rightarrow> Inl BAD_FIELD_TYPE)"

definition utf8Length :: "jsstr \<Rightarrow> nat" where
  "utf8Length s = length (text_encode s)"

subsection \<open>Parsing\<close>

definition parsePowProof :: "cbor \<Rightarrow> rejection + PowProof" where
  "parsePowProof v =
     (case v of
        CMap m \<Rightarrow>
          bindE (textField m ''alg'') (\<lambda>alg.
          failIf (alg \<noteq> POW_ALGORITHM) BAD_POW_SHAPE
            (failIf (list_ex (\<lambda>forbidden. map_has m (KText (js forbidden))) [''m'', ''t'', ''p'', ''salt''])
              BAD_POW_SHAPE
              (bindE (bytesField m ''nonce'' POW_NONCE_LENGTH) (\<lambda>nonce.
               bindE (uintField m ''bits'') (\<lambda>bits.
               failIf (bits = 0 \<or> bits > 256) BAD_POW_SHAPE
                 (Inr \<lparr>p_alg = alg, p_nonce = nonce, p_bits = bits\<rparr>))))))
      | _ \<Rightarrow> Inl BAD_POW_SHAPE)"

definition parseTtl :: "cbor option \<Rightarrow> rejection + int" where
  "parseTtl rawTtl =
     (case rawTtl of
        None \<Rightarrow> Inr DEFAULT_TTL
      | Some (CNum ttl) \<Rightarrow> failIf (ttl < MIN_TTL \<or> ttl > MAX_TTL) BAD_RECORD_ENTRY (Inr ttl)
      | Some _ \<Rightarrow> Inl BAD_RECORD_ENTRY)"

definition entry_size :: "cbor \<Rightarrow> nat" where
  "entry_size v = (case v of CBytes b \<Rightarrow> length b | CText s \<Rightarrow> utf8Length s | _ \<Rightarrow> 0)"

text \<open>The \<open>switch\<close> on a known type: does the value fit the type?\<close>

definition known_entry_ok :: "jsstr \<Rightarrow> cbor \<Rightarrow> bool" where
  "known_entry_ok type v =
     (if type = js ''peer'' then (case v of CBytes b \<Rightarrow> length b = 32 | _ \<Rightarrow> False)
      else if type = js ''ipns'' then
        (case v of CText s \<Rightarrow> \<not> (length s < 1 \<or> length s > 128) | _ \<Rightarrow> False)
      else if type = js ''cid'' then
        (case v of CBytes b \<Rightarrow> \<not> (length b < 1 \<or> length b > 64) | _ \<Rightarrow> False)
      else if type = js ''txt'' then
        (case v of
           CText text \<Rightarrow>
             \<not> (utf8Length text < 1 \<or> utf8Length text > 255) \<and> \<not> list_ex (\<lambda>u. u < 0x20) text
         | _ \<Rightarrow> False)
      else if type = js ''alias'' then (case v of CText s \<Rightarrow> parseAlias s \<noteq> None | _ \<Rightarrow> False)
      else True)"

definition parseEntry :: "cbor \<Rightarrow> rejection + RecordEntry" where
  "parseEntry v =
     (case v of
        CMap m \<Rightarrow>
          bindE (textField m ''type'') (\<lambda>type.
          case field m ''value'' of
            None \<Rightarrow> Inl BAD_RECORD_ENTRY
          | Some entryValue \<Rightarrow>
              bindE (parseTtl (field m ''ttl'')) (\<lambda>ttl.
              let known = type \<in> set KNOWN_ENTRY_TYPES in
              failIf (entry_size entryValue > MAX_ENTRY_VALUE_BYTES) BAD_RECORD_ENTRY
                (failIf (known \<and> \<not> known_entry_ok type entryValue) BAD_RECORD_ENTRY
                  (Inr \<lparr>e_type = type, e_value = entryValue, e_ttl = ttl, e_known = known\<rparr>))))
      | _ \<Rightarrow> Inl BAD_RECORD_ENTRY)"

definition entry_alias :: "RecordEntry \<Rightarrow> (jsstr \<times> jsstr) option" where
  "entry_alias e = (case e_value e of CText s \<Rightarrow> parseAlias s | _ \<Rightarrow> None)"

text \<open>The rules on the entries as a whole: at most one alias, alone, and not to the name itself.\<close>

definition checkAliases :: "jsstr \<Rightarrow> jsstr \<Rightarrow> RecordEntry list \<Rightarrow> rejection + unit" where
  "checkAliases name tld entries =
     (let aliases = filter (\<lambda>e. e_type e = js ''alias'') entries in
      failIf (length aliases > 1) BAD_RECORD_ENTRY
        (failIf (length aliases = 1 \<and> length entries > 1) BAD_RECORD_ENTRY
          (failIf (length aliases = 1 \<and> entry_alias (hd aliases) = Some (name, tld)) BAD_RECORD_ENTRY
            (Inr ()))))"

definition parseEntries :: "cbor_map \<Rightarrow> jsstr \<Rightarrow> jsstr \<Rightarrow> rejection + RecordEntry list" where
  "parseEntries m name tld =
     (case field m ''records'' of
        None \<Rightarrow> Inl MISSING_FIELD
      | Some (CArr entryValues) \<Rightarrow>
          failIf (length entryValues > MAX_RECORD_ENTRIES) TOO_MANY_RECORDS
            (bindE (mapE parseEntry entryValues) (\<lambda>entries.
             bindE (checkAliases name tld entries) (\<lambda>_. Inr entries)))
      | Some _ \<Rightarrow> Inl BAD_FIELD_TYPE)"

definition parsePow :: "cbor_map \<Rightarrow> operation \<Rightarrow> rejection + PowProof option" where
  "parsePow m op =
     (case field m ''powProof'' of
        None \<Rightarrow> Inl MISSING_FIELD
      | Some rawPow \<Rightarrow>
          bindE (if rawPow = CNull then Inr None else bindE (parsePowProof rawPow) (\<lambda>p. Inr (Some p)))
            (\<lambda>powProof.
             let needsPow = (op = REGISTER \<or> op = RENEW) in
             failIf (needsPow \<and> powProof = None) MISSING_POW
               (failIf (\<not> needsPow \<and> powProof \<noteq> None) UNEXPECTED_POW (Inr powProof))))"

definition parseCoSig :: "cbor_map \<Rightarrow> operation \<Rightarrow> nat \<Rightarrow> rejection + bytes option" where
  "parseCoSig m op n =
     bindE
       (case field m ''coSig'' of
          None \<Rightarrow> Inr None
        | Some CNull \<Rightarrow> Inr None
        | Some (CBytes b) \<Rightarrow> failIf (length b \<noteq> n) BAD_COSIG (Inr (Some b))
        | Some _ \<Rightarrow> Inl BAD_COSIG)
       (\<lambda>coSig.
        failIf (op = TRANSFER \<and> coSig = None) BAD_COSIG
          (failIf (op \<noteq> TRANSFER \<and> coSig \<noteq> None) BAD_COSIG (Inr coSig)))"

definition parseRecord :: "cbor_map \<Rightarrow> rejection + RegistryRecord" where
  "parseRecord m =
     bindE (uintField m ''version'') (\<lambda>version.
     failIf (version \<noteq> SUPPORTED_VERSION) UNSUPPORTED_VERSION
    (bindE (uintField m ''suite'') (\<lambda>suiteId.
     case suiteOf suiteId of None \<Rightarrow> Inl UNKNOWN_SUITE | Some suite \<Rightarrow>
     bindE (textField m ''op'') (\<lambda>opText.
     case map_get OPERATIONS opText of None \<Rightarrow> Inl UNKNOWN_OP | Some op \<Rightarrow>
     bindE (textField m ''name'') (\<lambda>name.
     failIf (labelRejection name \<noteq> None) BAD_LABEL
    (bindE (textField m ''tld'') (\<lambda>tld.
     failIf (\<not> isRatifiedTld tld) UNKNOWN_TLD
    (bindE (bytesField m ''ownerKey'' (publicKeyLength suite)) (\<lambda>ownerKey.
     failIf (suite_signature suite = ''Ed25519'' \<and> isSmallOrderKey ownerKey) BAD_KEY
    (bindE (uintField m ''seq'') (\<lambda>seq.
     failIf (seq > MAX_SEQ) BAD_SEQ
    (bindE (uintField m ''notBefore'') (\<lambda>notBefore.
     bindE (uintField m ''notAfter'') (\<lambda>notAfter.
     failIf (notAfter < notBefore) BAD_TERM
    (bindE (parseEntries m name tld) (\<lambda>entries.
     bindE (parsePow m op) (\<lambda>powProof.
     bindE (bytesField m ''prevHash'' RECORD_HASH_LENGTH) (\<lambda>prevHash.
     bindE (bytesField m ''sig'' (signatureLength suite)) (\<lambda>sig.
     bindE (parseCoSig m op (signatureLength suite)) (\<lambda>coSig.
       Inr \<lparr>r_version = version, r_suite = suiteId, r_op = op, r_name = name, r_tld = tld,
            r_ownerKey = ownerKey, r_seq = seq, r_notBefore = notBefore, r_notAfter = notAfter,
            r_entries = entries, r_powProof = powProof, r_prevHash = prevHash, r_sig = sig,
            r_coSig = coSig, r_map = m\<rparr>))))))))))))))))))))"

text \<open>
  After \<open>isDeterministic\<close> the second decoding cannot fail; its exception would leave the
  function as a \<open>CborError\<close>, for which \<open>NON_CANONICAL\<close> stands here.
\<close>

definition parseRecordBytes :: "bytes \<Rightarrow> rejection + RegistryRecord" where
  "parseRecordBytes bs =
     failIf (length bs > MAX_RECORD_BYTES) TOO_LARGE
       (failIf (\<not> isDeterministic bs) NON_CANONICAL
         (case decode bs of
            Inl _ \<Rightarrow> Inl NON_CANONICAL
          | Inr (CMap m) \<Rightarrow>
              bindE (parseRecord m) (\<lambda>r.
              let limit = (case suiteOf (r_suite r) of
                             None \<Rightarrow> MAX_RECORD_BYTES | Some s \<Rightarrow> maxRecordBytes s) in
              failIf (length bs > limit) TOO_LARGE (Inr r))
          | Inr _ \<Rightarrow> Inl NOT_A_MAP))"

lemmas record_constants = SUPPORTED_VERSION_def MAX_RECORD_BYTES_def MAX_RECORD_ENTRIES_def
  MAX_ENTRY_VALUE_BYTES_def MAX_SEQ_def MIN_TTL_def MAX_TTL_def DEFAULT_TTL_def

lemmas [exec] = record_constants OPERATIONS_def KNOWN_ENTRY_TYPES_def uintField_def textField_def
  bytesField_def utf8Length_def parsePowProof_def parseTtl_def entry_size_def known_entry_ok_def
  parseEntry_def entry_alias_def checkAliases_def parseEntries_def parsePow_def parseCoSig_def
  parseRecord_def parseRecordBytes_def RECORD_HASH_LENGTH_def

subsection \<open>What parses\<close>

lemma uintField_Inr [errs]: "uintField m key = Inr n \<longleftrightarrow> field m key = Some (CNum n)"
  by (auto simp: uintField_def split: option.splits cbor.splits)

lemma textField_Inr [errs]: "textField m key = Inr s \<longleftrightarrow> field m key = Some (CText s)"
  by (auto simp: textField_def split: option.splits cbor.splits)

lemma bytesField_Inr [errs]:
  "bytesField m key n = Inr b \<longleftrightarrow> field m key = Some (CBytes b) \<and> length b = n"
  by (auto simp: bytesField_def split: option.splits cbor.splits)

definition op_text :: "operation \<Rightarrow> jsstr" where
  "op_text op = (case op of
     REGISTER \<Rightarrow> js ''REGISTER'' | UPDATE \<Rightarrow> js ''UPDATE'' | RENEW \<Rightarrow> js ''RENEW''
   | TRANSFER \<Rightarrow> js ''TRANSFER'' | RELINQUISH \<Rightarrow> js ''RELINQUISH'' | REVOKE \<Rightarrow> js ''REVOKE'')"

lemma OPERATIONS_Some: "map_get OPERATIONS s = Some op \<longleftrightarrow> s = op_text op"
  unfolding OPERATIONS_def op_text_def by (cases op) (simp_all del: js_simps)

text \<open>A proof of work and an entry, as they stand in the map and as they are well formed.\<close>

definition proof_reads :: "cbor_map \<Rightarrow> PowProof \<Rightarrow> bool" where
  "proof_reads m p \<longleftrightarrow>
     field m ''alg'' = Some (CText (p_alg p)) \<and> field m ''nonce'' = Some (CBytes (p_nonce p)) \<and>
     field m ''bits'' = Some (CNum (p_bits p)) \<and>
     (\<forall>key\<in>{''m'', ''t'', ''p'', ''salt''}. field m key = None)"

definition proof_ok :: "PowProof \<Rightarrow> bool" where
  "proof_ok p \<longleftrightarrow> p_alg p = POW_ALGORITHM \<and> length (p_nonce p) = 16 \<and> p_bits p \<noteq> 0 \<and> p_bits p \<le> 256"

definition entry_reads :: "cbor \<Rightarrow> RecordEntry \<Rightarrow> bool" where
  "entry_reads v e \<longleftrightarrow> (\<exists>m. v = CMap m \<and>
     field m ''type'' = Some (CText (e_type e)) \<and> field m ''value'' = Some (e_value e) \<and>
     (field m ''ttl'' = Some (CNum (e_ttl e)) \<or> field m ''ttl'' = None \<and> e_ttl e = 3600))"

definition entry_ok :: "RecordEntry \<Rightarrow> bool" where
  "entry_ok e \<longleftrightarrow> 60 \<le> e_ttl e \<and> e_ttl e \<le> 86400 \<and> (e_known e \<longleftrightarrow> e_type e \<in> set KNOWN_ENTRY_TYPES) \<and>
     entry_size (e_value e) \<le> 512 \<and> (e_known e \<longrightarrow> known_entry_ok (e_type e) (e_value e))"

lemma parsePowProof_Inr [errs]:
  "parsePowProof v = Inr p \<longleftrightarrow> (\<exists>m. v = CMap m \<and> proof_reads m p \<and> proof_ok p)"
  by (cases p, cases v)
    (auto simp: parsePowProof_def errs proof_reads_def proof_ok_def POW_NONCE_LENGTH_def
      map_of_eq_None_iff list_ex_iff simp del: js_simps)

lemma parseTtl_Inr [errs]:
  "parseTtl t = Inr ttl \<longleftrightarrow> (t = Some (CNum ttl) \<or> t = None \<and> ttl = 3600) \<and> 60 \<le> ttl \<and> ttl \<le> 86400"
  by (auto simp: parseTtl_def record_constants split: option.splits cbor.splits)

lemma parseEntry_Inr: "parseEntry v = Inr e \<longleftrightarrow> entry_reads v e \<and> entry_ok e"
  by (cases e, cases v)
    (auto simp: parseEntry_def errs entry_reads_def entry_ok_def Let_def record_constants
      simp del: js_simps)

definition aliases_ok :: "jsstr \<Rightarrow> jsstr \<Rightarrow> RecordEntry list \<Rightarrow> bool" where
  "aliases_ok name tld entries \<longleftrightarrow>
     (\<forall>e\<in>set entries. e_type e = js ''alias'' \<longrightarrow> entries = [e] \<and> entry_alias e \<noteq> Some (name, tld))"

lemma checkAliases_Inr [errs]: "checkAliases name tld entries = Inr u \<longleftrightarrow> aliases_ok name tld entries"
proof -
  let ?al = "\<lambda>e. e_type e = js ''alias''"
  consider "filter ?al entries = []" | a where "filter ?al entries = [a]"
    | a b xs where "filter ?al entries = a # b # xs"
    by (metis neq_Nil_conv)
  then show ?thesis
  proof cases
    case 1
    then show ?thesis by (auto simp: checkAliases_def aliases_ok_def filter_empty_conv simp del: js_simps)
  next
    case 2
    then have a: "a \<in> set entries" "?al a" by (auto simp: filter_eq_Cons_iff)
    have "length entries \<le> 1 \<longleftrightarrow> entries = [a]"
      using a(1) by (cases entries; cases "tl entries") auto
    then show ?thesis
      using 2 a by (auto simp: checkAliases_def aliases_ok_def simp del: js_simps)
  next
    case 3
    then have "length (filter ?al entries) \<ge> 2" by simp
    then have "length entries \<ge> 2" by (metis length_filter_le order_trans)
    moreover have "a \<in> set entries" "?al a"
      using 3 by (auto simp: filter_eq_Cons_iff)
    ultimately show ?thesis
      using 3 by (fastforce simp: checkAliases_def aliases_ok_def simp del: js_simps)
  qed
qed

lemma parseEntries_Inr [errs]:
  "parseEntries m name tld = Inr es \<longleftrightarrow>
     (\<exists>vs. field m ''records'' = Some (CArr vs) \<and> list_all2 entry_reads vs es) \<and>
     length es \<le> 32 \<and> (\<forall>e\<in>set es. entry_ok e) \<and> aliases_ok name tld es"
proof -
  have "mapE parseEntry vs = Inr es \<longleftrightarrow> list_all2 entry_reads vs es \<and> (\<forall>e\<in>set es. entry_ok e)" for vs
    unfolding mapE_eq_Inr parseEntry_Inr
    by (auto simp: list_all2_conv_all_nth all_set_conv_all_nth)
  then show ?thesis
    by (cases "field m ''records''"; cases "the (field m ''records'')")
      (auto simp: parseEntries_def errs MAX_RECORD_ENTRIES_def dest: list_all2_lengthD
        simp del: js_simps)
qed

lemma parsePow_Inr [errs]:
  "parsePow m op = Inr pow \<longleftrightarrow>
     (case pow of
        None \<Rightarrow> field m ''powProof'' = Some CNull \<and> op \<noteq> REGISTER \<and> op \<noteq> RENEW
      | Some p \<Rightarrow> (op = REGISTER \<or> op = RENEW) \<and> proof_ok p \<and>
          (\<exists>pm. field m ''powProof'' = Some (CMap pm) \<and> proof_reads pm p))"
  by (cases "field m ''powProof''"; cases pow)
    (auto simp: parsePow_def errs Let_def split: if_splits simp del: js_simps)

lemma parseCoSig_Inr [errs]:
  "parseCoSig m op n = Inr co \<longleftrightarrow>
     (case co of
        None \<Rightarrow> op \<noteq> TRANSFER \<and> (field m ''coSig'' = None \<or> field m ''coSig'' = Some CNull)
      | Some c \<Rightarrow> op = TRANSFER \<and> length c = n \<and> field m ''coSig'' = Some (CBytes c))"
  by (cases co)
    (auto simp: parseCoSig_def errs split: option.splits cbor.splits if_splits simp del: js_simps)

definition reads :: "cbor_map \<Rightarrow> RegistryRecord \<Rightarrow> bool" where
  "reads m r \<longleftrightarrow>
     field m ''version'' = Some (CNum (r_version r)) \<and> field m ''suite'' = Some (CNum (r_suite r)) \<and>
     field m ''op'' = Some (CText (op_text (r_op r))) \<and>
     field m ''name'' = Some (CText (r_name r)) \<and> field m ''tld'' = Some (CText (r_tld r)) \<and>
     field m ''ownerKey'' = Some (CBytes (r_ownerKey r)) \<and> field m ''seq'' = Some (CNum (r_seq r)) \<and>
     field m ''notBefore'' = Some (CNum (r_notBefore r)) \<and>
     field m ''notAfter'' = Some (CNum (r_notAfter r)) \<and>
     (\<exists>vs. field m ''records'' = Some (CArr vs) \<and> list_all2 entry_reads vs (r_entries r)) \<and>
     (case r_powProof r of
        None \<Rightarrow> field m ''powProof'' = Some CNull
      | Some p \<Rightarrow> \<exists>pm. field m ''powProof'' = Some (CMap pm) \<and> proof_reads pm p) \<and>
     field m ''prevHash'' = Some (CBytes (r_prevHash r)) \<and> field m ''sig'' = Some (CBytes (r_sig r)) \<and>
     (case r_coSig r of
        None \<Rightarrow> field m ''coSig'' = None \<or> field m ''coSig'' = Some CNull
      | Some c \<Rightarrow> field m ''coSig'' = Some (CBytes c)) \<and>
     r_map r = m"

definition well_formed :: "RegistryRecord \<Rightarrow> bool" where
  "well_formed r \<longleftrightarrow>
     r_version r = 1 \<and> r_suite r = 1 \<and> labelRejection (r_name r) = None \<and> isRatifiedTld (r_tld r) \<and>
     length (r_ownerKey r) = 32 \<and> \<not> isSmallOrderKey (r_ownerKey r) \<and> r_seq r \<le> 2 ^ 32 - 1 \<and>
     r_notBefore r \<le> r_notAfter r \<and>
     length (r_entries r) \<le> 32 \<and> (\<forall>e\<in>set (r_entries r). entry_ok e) \<and>
     aliases_ok (r_name r) (r_tld r) (r_entries r) \<and>
     (r_powProof r \<noteq> None \<longleftrightarrow> r_op r = REGISTER \<or> r_op r = RENEW) \<and>
     (\<forall>p. r_powProof r = Some p \<longrightarrow> proof_ok p) \<and>
     length (r_prevHash r) = 32 \<and> length (r_sig r) = 64 \<and>
     (r_coSig r \<noteq> None \<longleftrightarrow> r_op r = TRANSFER) \<and> (\<forall>c. r_coSig r = Some c \<longrightarrow> length c = 64)"

lemma parseRecord_reads: "parseRecord m = Inr r \<Longrightarrow> reads m r"
  apply (simp only: parseRecord_def errs suiteOf_Some OPERATIONS_Some sum.inject)
  apply (elim exE conjE)
  apply hypsubst
  apply (simp add: reads_def del: js_simps split: option.splits)
  done

lemma parseRecord_well_formed: "parseRecord m = Inr r \<Longrightarrow> well_formed r"
  apply (simp only: parseRecord_def errs suiteOf_Some OPERATIONS_Some sum.inject)
  apply (elim exE conjE)
  apply hypsubst
  apply (simp add: well_formed_def record_constants RECORD_HASH_LENGTH_def del: js_simps split: option.splits)
  done

lemma reads_parseRecord:
  assumes "reads m r" "well_formed r"
  shows "parseRecord m = Inr r"
proof -
  have u: "uintField m ''version'' = Inr (r_version r)" "uintField m ''suite'' = Inr (r_suite r)"
    "uintField m ''seq'' = Inr (r_seq r)" "uintField m ''notBefore'' = Inr (r_notBefore r)"
    "uintField m ''notAfter'' = Inr (r_notAfter r)"
    using assms(1) by (simp_all only: uintField_Inr reads_def)
  have t: "textField m ''op'' = Inr (op_text (r_op r))" "textField m ''name'' = Inr (r_name r)"
    "textField m ''tld'' = Inr (r_tld r)" "map_get OPERATIONS (op_text (r_op r)) = Some (r_op r)"
    using assms(1) by (simp_all only: textField_Inr reads_def OPERATIONS_Some)
  have b: "bytesField m ''ownerKey'' 32 = Inr (r_ownerKey r)" "bytesField m ''prevHash'' 32 = Inr (r_prevHash r)"
    "bytesField m ''sig'' 64 = Inr (r_sig r)"
    using assms by (simp_all only: bytesField_Inr reads_def well_formed_def)
  have c: "parseCoSig m (r_op r) 64 = Inr (r_coSig r)"
    using assms by (auto simp: parseCoSig_Inr reads_def well_formed_def split: option.splits simp del: js_simps)
  have p: "parsePow m (r_op r) = Inr (r_powProof r)"
    using assms by (auto simp: parsePow_Inr reads_def well_formed_def split: option.splits simp del: js_simps)
  have e: "parseEntries m (r_name r) (r_tld r) = Inr (r_entries r)"
    using assms by (auto simp: parseEntries_Inr reads_def well_formed_def simp del: js_simps)
  have "suiteOf (r_suite r) = Some suite1" "r_map r = m"
    using assms by (simp_all add: suiteOf_Some well_formed_def reads_def)
  then show ?thesis
    using assms(2)
    by (simp add: parseRecord_def u t b c p e RECORD_HASH_LENGTH_def record_constants well_formed_def
        del: js_simps)
qed

lemma parseRecord_iff: "parseRecord m = Inr r \<longleftrightarrow> reads m r \<and> well_formed r"
  using parseRecord_reads parseRecord_well_formed reads_parseRecord by blast

lemma parseRecord_map [simp]: "parseRecord m = Inr r \<Longrightarrow> r_map r = m"
  by (simp add: parseRecord_iff reads_def)

lemma parseRecordBytes_Inr:
  "parseRecordBytes bs = Inr r \<longleftrightarrow>
     length bs \<le> 4096 \<and> (\<exists>m. decode bs = Inr (CMap m) \<and> encode (CMap m) = Inr bs \<and> parseRecord m = Inr r)"
proof -
  have "maxRecordBytes s = 4096" if "suiteOf n = Some s" for n s
    using that by (auto simp: suiteOf_Some)
  then show ?thesis
    by (auto simp: parseRecordBytes_def errs isDeterministic_eq Let_def MAX_RECORD_BYTES_def
        split: sum.splits cbor.splits option.splits)
qed

subsection \<open>Sample records\<close>

text \<open>
  A registration and an update of one name, for evaluating the model on examples. The entries of
  the map stand in the order of the deterministic encoding.
\<close>

definition sample_map ::
  "operation \<Rightarrow> int \<Rightarrow> int \<Rightarrow> int \<Rightarrow> byte \<Rightarrow> cbor \<Rightarrow> bytes \<Rightarrow> cbor_map" where
  "sample_map op seq notBefore notAfter k pow prev =
     [(KText (js ''op''), CText (op_text op)),
      (KText (js ''seq''), CNum seq),
      (KText (js ''sig''), CBytes (replicate 64 k)),
      (KText (js ''tld''), CText (js ''vayu'')),
      (KText (js ''name''), CText (js ''abc'')),
      (KText (js ''suite''), CNum 1),
      (KText (js ''records''), CArr []),
      (KText (js ''version''), CNum 1),
      (KText (js ''notAfter''), CNum notAfter),
      (KText (js ''ownerKey''), CBytes (replicate 32 k)),
      (KText (js ''powProof''), pow),
      (KText (js ''prevHash''), CBytes prev),
      (KText (js ''notBefore''), CNum notBefore)]"

definition sample_pow :: cbor where
  "sample_pow = CMap
     [(KText (js ''alg''), CText POW_ALGORITHM), (KText (js ''bits''), CNum 8),
      (KText (js ''nonce''), CBytes (be_bytes 16 1))]"

definition sample_register_map :: cbor_map where
  "sample_register_map = sample_map REGISTER 0 1000000 32536000 7 sample_pow (replicate 32 0)"

definition sample_register :: RegistryRecord where
  "sample_register =
     \<lparr>r_version = 1, r_suite = 1, r_op = REGISTER, r_name = js ''abc'', r_tld = js ''vayu'',
      r_ownerKey = replicate 32 7, r_seq = 0, r_notBefore = 1000000, r_notAfter = 32536000,
      r_entries = [],
      r_powProof = Some \<lparr>p_alg = POW_ALGORITHM, p_nonce = be_bytes 16 1, p_bits = 8\<rparr>,
      r_prevHash = replicate 32 0, r_sig = replicate 64 7, r_coSig = None,
      r_map = sample_register_map\<rparr>"

definition sample_bytes :: "cbor_map \<Rightarrow> bytes" where
  "sample_bytes m = (case encode (CMap m) of Inl _ \<Rightarrow> [] | Inr bs \<Rightarrow> bs)"

definition sample_transfer_map :: cbor_map where
  "sample_transfer_map =
     [(KText (js ''op''), CText (js ''TRANSFER'')),
      (KText (js ''seq''), CNum 2),
      (KText (js ''sig''), CBytes (replicate 64 9)),
      (KText (js ''tld''), CText (js ''vayu'')),
      (KText (js ''name''), CText (js ''abc'')),
      (KText (js ''coSig''), CBytes (replicate 64 9)),
      (KText (js ''suite''), CNum 1),
      (KText (js ''records''), CArr []),
      (KText (js ''version''), CNum 1),
      (KText (js ''notAfter''), CNum 32536000),
      (KText (js ''ownerKey''), CBytes (replicate 32 9)),
      (KText (js ''powProof''), CNull),
      (KText (js ''prevHash''), CBytes (replicate 32 1)),
      (KText (js ''notBefore''), CNum 1000600)]"

definition sample_transfer :: RegistryRecord where
  "sample_transfer =
     \<lparr>r_version = 1, r_suite = 1, r_op = TRANSFER, r_name = js ''abc'', r_tld = js ''vayu'',
      r_ownerKey = replicate 32 9, r_seq = 2, r_notBefore = 1000600, r_notAfter = 32536000,
      r_entries = [], r_powProof = None, r_prevHash = replicate 32 1, r_sig = replicate 64 9,
      r_coSig = Some (replicate 64 9), r_map = sample_transfer_map\<rparr>"

lemma sample_key: "k \<in> {7, 9} \<Longrightarrow> \<not> isSmallOrderKey (replicate 32 k)"
proof -
  assume "k \<in> {7, 9}"
  then consider "toHex (replicate 32 k) = concat (replicate 32 ''07'')"
    | "toHex (replicate 32 k) = concat (replicate 32 ''09'')"
    by (auto simp: toHex_def map_replicate)
  moreover have "concat (replicate 32 s) = s @ s @ concat (replicate 30 s)" for s :: string
    by (simp add: numeral_eq_Suc)
  ultimately show ?thesis
    by cases (simp_all add: isSmallOrderKey_def SMALL_ORDER_ENCODINGS_def)
qed

lemma sample_verifies:
  "k \<in> {7, 9} \<Longrightarrow> verifyStrict sample_crypto (replicate 32 k) input (replicate 64 k)"
  using replicate_add [of 32 32 k] by (simp add: verifyStrict_iff sample_key)

lemma sample_register_encode:
  "encode (CMap sample_register_map) = Inr (sample_bytes sample_register_map) \<and>
   length (sample_bytes sample_register_map) \<le> 400"
proof -
  have "\<exists>bs. encode (CMap sample_register_map) = Inr bs \<and> length bs \<le> 400"
    by (simp add: sample_register_map_def sample_map_def sample_pow_def op_text_def exec)
  then show ?thesis by (auto simp: sample_bytes_def)
qed

lemma sample_transfer_encode:
  "encode (CMap sample_transfer_map) = Inr (sample_bytes sample_transfer_map) \<and>
   length (sample_bytes sample_transfer_map) \<le> 500"
proof -
  have "\<exists>bs. encode (CMap sample_transfer_map) = Inr bs \<and> length bs \<le> 500"
    by (simp add: sample_transfer_map_def exec)
  then show ?thesis by (auto simp: sample_bytes_def)
qed

lemma sample_canon:
  "canon (CMap sample_register_map) = CMap sample_register_map"
  "canon (CMap sample_transfer_map) = CMap sample_transfer_map"
  by (simp_all add: sample_register_map_def sample_transfer_map_def sample_map_def sample_pow_def
      key_bytes_def exec)

lemma sample_parse:
  "parseRecord sample_register_map = Inr sample_register"
  "parseRecord sample_transfer_map = Inr sample_transfer"
  unfolding parseRecord_iff
  by (simp_all add: sample_register_def sample_transfer_def reads_def well_formed_def
      sample_register_map_def sample_transfer_map_def sample_map_def sample_pow_def op_text_def
      proof_reads_def proof_ok_def aliases_ok_def exec labelRejection_None sample_key)

lemma sample_decode:
  "decode (sample_bytes sample_register_map) = Inr (CMap sample_register_map)"
  "decode (sample_bytes sample_transfer_map) = Inr (CMap sample_transfer_map)"
  using decode_encode_canon sample_register_encode sample_transfer_encode sample_canon by metis+

lemma sample_map_of [simp]:
  "r_map sample_register = sample_register_map" "r_map sample_transfer = sample_transfer_map"
  by (simp_all add: sample_register_def sample_transfer_def)

subsection \<open>Properties\<close>

text \<open>
  C4. A map parses exactly when it carries the fields of the result, unchanged, and the result is
  well formed: one supported version and an active suite, a valid label in a ratified extension,
  keys and signatures of the suite's length and not of small order, an ordered term, at most 32
  well-shaped entries with at most one alias, a proof of work exactly on REGISTER and RENEW and a
  countersignature exactly on TRANSFER. Everything else in the map is ignored and kept.
\<close>

theorem parseRecord_exact: "parseRecord m = Inr r \<longleftrightarrow> reads m r \<and> well_formed r"
  by (rule parseRecord_iff)

lemma parseRecordBytes_encode:
  assumes "parseRecordBytes bs = Inr r"
  shows "encode (CMap (r_map r)) = Inr bs" and "parseRecord (r_map r) = Inr r"
    and "length bs \<le> 4096"
proof -
  obtain m where m: "length bs \<le> 4096" "encode (CMap m) = Inr bs" "parseRecord m = Inr r"
    using assms unfolding parseRecordBytes_Inr by blast
  have "r_map r = m"
    using m(3) by (rule parseRecord_map)
  with m show "encode (CMap (r_map r)) = Inr bs" and "parseRecord (r_map r) = Inr r"
    and "length bs \<le> 4096"
    by simp_all
qed

lemma parseRecordBytes_inject:
  assumes "parseRecordBytes bs = Inr r" "parseRecordBytes bs' = Inr r'" "r_map r' = r_map r"
  shows "bs' = bs"
  using parseRecordBytes_encode(1) [OF assms(1)] parseRecordBytes_encode(1) [OF assms(2)] assms(3)
  by simp

lemma suiteOf_maxRecordBytes: "suiteOf n = Some s \<Longrightarrow> maxRecordBytes s = 4096"
  unfolding suiteOf_Some by (drule conjunct2, erule ssubst) (rule suite1_simps(5))

text \<open>
  Bytes that parse are the deterministic encoding of the map kept in the record, so two byte
  strings that parse to records with one map are the same bytes; and they are within the size limit
  of the record's own suite.
\<close>

theorem parseRecordBytes_canonical:
  assumes "parseRecordBytes bs = Inr r"
  shows "encode (CMap (r_map r)) = Inr bs \<and> well_formed r \<and>
    (\<forall>s. suiteOf (r_suite r) = Some s \<longrightarrow> length bs \<le> maxRecordBytes s) \<and>
    (\<forall>bs' r'. parseRecordBytes bs' = Inr r' \<and> r_map r' = r_map r \<longrightarrow> bs' = bs)"
proof (intro conjI allI impI)
  show "encode (CMap (r_map r)) = Inr bs"
    using assms by (rule parseRecordBytes_encode)
  show "well_formed r"
    using parseRecordBytes_encode(2) [OF assms] by (rule parseRecord_well_formed)
  show "length bs \<le> maxRecordBytes s" if "suiteOf (r_suite r) = Some s" for s
    using parseRecordBytes_encode(3) [OF assms] suiteOf_maxRecordBytes [OF that] by simp
  show "bs' = bs" if "parseRecordBytes bs' = Inr r' \<and> r_map r' = r_map r" for bs' r'
    using assms conjunct1 [OF that] conjunct2 [OF that] by (rule parseRecordBytes_inject)
qed

theorem parseRecordBytes_canonical_witness:
  "encode (CMap (r_map sample_register)) = Inr (sample_bytes sample_register_map) \<and>
   {bs. \<exists>r. parseRecordBytes bs = Inr r \<and> r_map r = sample_register_map} =
     {sample_bytes sample_register_map}"
proof -
  have p: "parseRecordBytes (sample_bytes sample_register_map) = Inr sample_register"
    using sample_register_encode sample_parse(1) sample_decode(1)
    unfolding parseRecordBytes_Inr by fastforce
  note c = parseRecordBytes_canonical [OF p]
  note uniq = c [THEN conjunct2, THEN conjunct2, THEN conjunct2, rule_format]
  have "bs = sample_bytes sample_register_map"
    if "parseRecordBytes bs = Inr r" "r_map r = sample_register_map" for bs r
    by (rule uniq [OF conjI, OF that(1) trans [OF that(2) sample_map_of(1) [symmetric]]])
  then have "{bs. \<exists>r. parseRecordBytes bs = Inr r \<and> r_map r = sample_register_map} =
      {sample_bytes sample_register_map}"
    using p sample_map_of(1) by blast
  with conjunct1 [OF c] show ?thesis by (rule conjI)
qed

end
