(* ===== verification/Converge.thy ===== *)
theory Converge
  imports Registry_Record "HOL-Library.Multiset"
begin

section \<open>Convergence\<close>

text \<open>
  registry/src/converge.ts: which of several conflicting records wins, and what a losing record
  takes down with it. The candidates of a conflict are distinct objects, so \<open>others\<close> drops
  the winner by its position. The chain given to \<open>voidedChain\<close> is compared with the loser by
  value; the store passes it records of which none but the loser itself equals the loser.

  The comparison of \<open>sort\<close> throws when two hashes differ in length. A sort that compares
  enough pairs to order its input compares two of different length whenever there are any.
\<close>

record Candidate =
  c_record :: RegistryRecord
  c_hash :: bytes
  c_logIndex :: "int option"
  c_valid :: bool

datatype conflict_rule = SOLE_VALID | SMALLER_HASH

record Resolution =
  res_winner :: Candidate
  res_losers :: "Candidate list"
  res_rule :: conflict_rule

datatype converge_error =
    HASH_LENGTHS | NO_CANDIDATES | DIFFERENT_NAMES | DIFFERENT_SEQ | NONE_VALID

definition compareHashes :: "bytes \<Rightarrow> bytes \<Rightarrow> converge_error + int" where
  "compareHashes a b = failIf (length a \<noteq> length b) HASH_LENGTHS (Inr (compareBytes a b))"

definition conflicts :: "Candidate \<Rightarrow> Candidate \<Rightarrow> converge_error + bool" where
  "conflicts a b =
     (if r_name (c_record a) \<noteq> r_name (c_record b) \<or> r_tld (c_record a) \<noteq> r_tld (c_record b) then Inr False
      else if r_seq (c_record a) \<noteq> r_seq (c_record b) then Inr False
      else bindE (compareHashes (c_hash a) (c_hash b)) (\<lambda>c. Inr (c \<noteq> 0)))"

definition isEquivocation :: "Candidate \<Rightarrow> Candidate \<Rightarrow> converge_error + bool" where
  "isEquivocation a b =
     bindE (conflicts a b) (\<lambda>c.
       if \<not> c then Inr False
       else Inr (compareBytes (r_ownerKey (c_record a)) (r_ownerKey (c_record b)) = 0))"

definition others :: "(nat \<times> Candidate) list \<Rightarrow> nat \<Rightarrow> Candidate list" where
  "others candidates winner = map snd (filter (\<lambda>(i, c). i \<noteq> winner) candidates)"

primrec sameTarget :: "Candidate \<Rightarrow> Candidate list \<Rightarrow> converge_error + unit" where
  "sameTarget first [] = Inr ()"
| "sameTarget first (c # cs) =
     failIf (r_name (c_record c) \<noteq> r_name (c_record first) \<or> r_tld (c_record c) \<noteq> r_tld (c_record first))
       DIFFERENT_NAMES
       (failIf (r_seq (c_record c) \<noteq> r_seq (c_record first)) DIFFERENT_SEQ (sameTarget first cs))"

text \<open>Rules 1 and 3, on the valid candidates with their positions.\<close>

definition pickWinner ::
  "(nat \<times> Candidate) list \<Rightarrow> (nat \<times> Candidate) list \<Rightarrow> converge_error + Resolution" where
  "pickWinner indexed valid =
     (case valid of
        [] \<Rightarrow> Inl NONE_VALID
      | [v] \<Rightarrow> Inr \<lparr>res_winner = snd v, res_losers = others indexed (fst v), res_rule = SOLE_VALID\<rparr>
      | v # vs \<Rightarrow>
          failIf (list_ex (\<lambda>x. length (c_hash (snd x)) \<noteq> length (c_hash (snd v))) vs) HASH_LENGTHS
            (let byHash = sort_key (\<lambda>x. c_hash (snd x)) valid in
             Inr \<lparr>res_winner = snd (hd byHash), res_losers = others indexed (fst (hd byHash)),
                  res_rule = SMALLER_HASH\<rparr>))"

definition resolveConflict :: "Candidate list \<Rightarrow> converge_error + Resolution" where
  "resolveConflict candidates =
     (case candidates of
        [] \<Rightarrow> Inl NO_CANDIDATES
      | [c] \<Rightarrow> Inr \<lparr>res_winner = c, res_losers = [], res_rule = SOLE_VALID\<rparr>
      | first # rest \<Rightarrow>
          bindE (sameTarget first rest) (\<lambda>_.
          let indexed = enumerate 0 candidates in
          pickWinner indexed (filter (\<lambda>(i, c). c_valid c) indexed)))"

definition voided_step :: "Candidate \<Rightarrow> Candidate list \<Rightarrow> Candidate \<Rightarrow> Candidate list" where
  "voided_step loser voided candidate =
     (if candidate = loser then voided
      else if list_ex (\<lambda>v. compareBytes (r_prevHash (c_record candidate)) (c_hash v) = 0) voided
      then voided @ [candidate]
      else voided)"

definition voidedChain :: "Candidate \<Rightarrow> Candidate list \<Rightarrow> Candidate list" where
  "voidedChain loser chain =
     foldl (voided_step loser) [loser] (sort_key (\<lambda>c. r_seq (c_record c)) chain)"

subsection \<open>The smallest hash\<close>

text \<open>
  \<open>least_hash cs h\<close>: \<open>h\<close> is the hash of a valid candidate and no valid candidate has a smaller
  one. It does not mention positions, so it is the same on every peer.
\<close>

definition least_hash :: "Candidate list \<Rightarrow> bytes \<Rightarrow> bool" where
  "least_hash cs h \<longleftrightarrow> (\<exists>c\<in>set cs. c_valid c \<and> c_hash c = h) \<and> (\<forall>c\<in>set cs. c_valid c \<longrightarrow> h \<le> c_hash c)"

lemma least_hash_unique: "least_hash cs h \<Longrightarrow> least_hash cs h' \<Longrightarrow> h = h'"
  unfolding least_hash_def by (metis order_antisym)

lemma least_hash_cong: "set cs = set ds \<Longrightarrow> least_hash cs h \<longleftrightarrow> least_hash ds h"
  by (simp add: least_hash_def)

lemma sameTarget_Inr:
  "sameTarget first cs = Inr u \<longleftrightarrow>
     (\<forall>c\<in>set cs. r_name (c_record c) = r_name (c_record first) \<and>
        r_tld (c_record c) = r_tld (c_record first) \<and> r_seq (c_record c) = r_seq (c_record first))"
  by (induction cs) auto

lemma set_enumerate_snd: "snd ` set (enumerate n cs) = set cs"
  by (metis list.set_map map_snd_enumerate)

lemma hd_sort_key:
  assumes "xs \<noteq> []"
  shows "hd (sort_key f xs) \<in> set xs \<and> (\<forall>x\<in>set xs. f (hd (sort_key f xs)) \<le> f x)"
proof -
  have ne: "sort_key f xs \<noteq> []" using assms by (metis length_0_conv length_sort)
  then obtain y ys where y: "sort_key f xs = y # ys" by (cases "sort_key f xs") auto
  have "sorted (map f (sort_key f xs))" by simp
  then have "\<forall>z\<in>set (y # ys). f y \<le> f z" unfolding y by auto
  moreover have "set (y # ys) = set xs" by (metis set_sort y)
  ultimately show ?thesis by (auto simp: y)
qed

lemma enumerate_split:
  assumes "(i, c) \<in> set (enumerate 0 cs)"
  shows "cs = take i cs @ c # drop (Suc i) cs \<and>
    others (enumerate 0 cs) i = take i cs @ drop (Suc i) cs"
proof -
  have i: "i < length cs" "cs ! i = c"
    using assms by (auto simp: in_set_enumerate_eq)
  have split: "cs = take i cs @ c # drop (Suc i) cs"
    using id_take_nth_drop [OF i(1)] i(2) by simp
  have keep: "map snd (filter (\<lambda>(j, c). j \<noteq> i) (enumerate n xs)) = xs"
    if "i < n \<or> n + length xs \<le> i" for n xs
    using that by (induction xs arbitrary: n) auto
  have "enumerate 0 cs = enumerate 0 (take i cs) @ (i, c) # enumerate (Suc i) (drop (Suc i) cs)"
    using i(1) by (subst split) (simp add: enumerate_append_eq min_def)
  then have "others (enumerate 0 cs) i = take i cs @ drop (Suc i) cs"
    using keep [of 0 "take i cs"] keep [of "Suc i" "drop (Suc i) cs"]
    by (simp add: others_def)
  with split show ?thesis by simp
qed

lemma valid_indexed: "map snd (filter (\<lambda>(i, c). c_valid c) (enumerate n cs)) = filter c_valid cs"
  by (induction cs arbitrary: n) auto

lemma mset_others:
  assumes "(i, c) \<in> set (enumerate 0 cs)"
  shows "mset cs = add_mset c (mset (others (enumerate 0 cs) i))"
proof -
  have m: "mset cs = mset (take i cs @ c # drop (Suc i) cs)"
    using enumerate_split [OF assms] by metis
  show ?thesis unfolding m conjunct2 [OF enumerate_split [OF assms]] by simp
qed

text \<open>The outcomes of a resolution of at least two candidates.\<close>

lemma pickWinner_simps:
  "pickWinner indexed [] = Inl NONE_VALID"
  "pickWinner indexed [x] =
     Inr \<lparr>res_winner = snd x, res_losers = others indexed (fst x), res_rule = SOLE_VALID\<rparr>"
  "pickWinner indexed (x # y # ys) =
     failIf (\<exists>z\<in>set (y # ys). length (c_hash (snd z)) \<noteq> length (c_hash (snd x))) HASH_LENGTHS
       (let byHash = sort_key (\<lambda>x. c_hash (snd x)) (x # y # ys) in
        Inr \<lparr>res_winner = snd (hd byHash), res_losers = others indexed (fst (hd byHash)),
             res_rule = SMALLER_HASH\<rparr>)"
  unfolding pickWinner_def list_ex_iff by simp_all

lemma pickWinner_Inr:
  assumes "pickWinner indexed v = Inr r"
  obtains x where "x \<in> set v" "res_winner r = snd x" "res_losers r = others indexed (fst x)"
    "\<forall>y\<in>set v. c_hash (snd x) \<le> c_hash (snd y)" "res_rule r = SOLE_VALID \<longleftrightarrow> length v = 1"
proof (cases v)
  case Nil
  then show ?thesis using assms by (simp add: pickWinner_def)
next
  case (Cons w ws)
  show ?thesis
  proof (cases ws)
    case Nil
    then show ?thesis using that [of w] assms Cons by (auto simp: pickWinner_simps)
  next
    case (Cons y ys)
    define m where "m = hd (sort_key (\<lambda>x. c_hash (snd x)) v)"
    have "m \<in> set v \<and> (\<forall>x\<in>set v. c_hash (snd m) \<le> c_hash (snd x))"
      unfolding m_def by (rule hd_sort_key) (simp add: \<open>v = w # ws\<close>)
    moreover have "res_winner r = snd m" "res_losers r = others indexed (fst m)" "res_rule r = SMALLER_HASH"
      using assms unfolding m_def \<open>v = w # ws\<close> Cons pickWinner_simps Let_def
      by (auto split: if_splits simp del: sort_key_simps)
    ultimately show ?thesis using that [of m] \<open>v = w # ws\<close> Cons by simp
  qed
qed

lemma pickWinner_resolves:
  "(\<exists>r. pickWinner indexed v = Inr r) \<longleftrightarrow>
     v \<noteq> [] \<and> (\<forall>x\<in>set v. length (c_hash (snd x)) = length (c_hash (snd (hd v))))"
proof (cases v)
  case (Cons w ws)
  then show ?thesis
    by (cases ws) (auto simp: pickWinner_simps Let_def)
qed (simp add: pickWinner_simps)

lemma resolveConflict_eq:
  assumes "length cs \<ge> 2"
  shows "resolveConflict cs =
    bindE (sameTarget (hd cs) (tl cs))
      (\<lambda>_. pickWinner (enumerate 0 cs) (filter (\<lambda>(i, c). c_valid c) (enumerate 0 cs)))"
proof -
  obtain a b ds where cs: "cs = a # b # ds"
    using assms by (cases cs; cases "tl cs") auto
  show ?thesis unfolding cs resolveConflict_def Let_def by (simp del: enumerate_simps sameTarget.simps)
qed

lemma resolveConflict_Inr:
  assumes "resolveConflict cs = Inr r" and "length cs \<ge> 2"
  shows "least_hash cs (c_hash (res_winner r)) \<and> c_valid (res_winner r) \<and>
    mset cs = add_mset (res_winner r) (mset (res_losers r)) \<and>
    (res_rule r = SOLE_VALID \<longleftrightarrow> length (filter c_valid cs) = 1)"
proof -
  let ?v = "filter (\<lambda>(i, c). c_valid c) (enumerate 0 cs)"
  have valid: "map snd ?v = filter c_valid cs" by (rule valid_indexed)
  have "pickWinner (enumerate 0 cs) ?v = Inr r"
    using assms(1) unfolding resolveConflict_eq [OF assms(2)] by (simp add: errs)
  then obtain x where x: "x \<in> set ?v" "res_winner r = snd x" "res_losers r = others (enumerate 0 cs) (fst x)"
    "\<forall>y\<in>set ?v. c_hash (snd x) \<le> c_hash (snd y)" "res_rule r = SOLE_VALID \<longleftrightarrow> length ?v = 1"
    by (rule pickWinner_Inr)
  have mem: "(fst x, snd x) \<in> set (enumerate 0 cs)" "c_valid (snd x)" using x(1) by auto
  then have "snd x \<in> set cs" using set_enumerate_snd [of 0 cs] by force
  moreover have "\<forall>c\<in>set (filter c_valid cs). c_hash (snd x) \<le> c_hash c"
    using x(4) unfolding valid [symmetric] by simp
  moreover have "length ?v = length (filter c_valid cs)" using valid by (metis length_map)
  ultimately show ?thesis
    using mem(2) mset_others [OF mem(1)] x(2,3,5) unfolding least_hash_def by auto
qed

text \<open>Whether a conflict resolves at all does not depend on the order either.\<close>

definition resolvable :: "Candidate list \<Rightarrow> bool" where
  "resolvable cs \<longleftrightarrow>
     (\<forall>c\<in>set cs. \<forall>d\<in>set cs. r_name (c_record c) = r_name (c_record d) \<and>
        r_tld (c_record c) = r_tld (c_record d) \<and> r_seq (c_record c) = r_seq (c_record d)) \<and>
     (\<exists>c\<in>set cs. c_valid c) \<and>
     (\<forall>c\<in>set (filter c_valid cs). \<forall>d\<in>set (filter c_valid cs). length (c_hash c) = length (c_hash d))"

lemma resolveConflict_resolves:
  assumes "length cs \<ge> 2"
  shows "(\<exists>r. resolveConflict cs = Inr r) \<longleftrightarrow> resolvable cs"
proof -
  let ?v = "filter (\<lambda>(i, c). c_valid c) (enumerate 0 cs)"
  have v: "map snd ?v = filter c_valid cs" by (rule valid_indexed)
  have ne: "?v \<noteq> [] \<longleftrightarrow> (\<exists>c\<in>set cs. c_valid c)"
    by (metis v map_is_Nil_conv filter_empty_conv)
  have same: "(\<exists>u. sameTarget (hd cs) (tl cs) = Inr u) \<longleftrightarrow>
      (\<forall>c\<in>set cs. \<forall>d\<in>set cs. r_name (c_record c) = r_name (c_record d) \<and>
        r_tld (c_record c) = r_tld (c_record d) \<and> r_seq (c_record c) = r_seq (c_record d))"
    using assms by (cases cs) (auto simp: sameTarget_Inr)
  have lens: "(\<forall>x\<in>set ?v. length (c_hash (snd x)) = length (c_hash (snd (hd ?v)))) \<longleftrightarrow>
      (\<forall>c\<in>set (filter c_valid cs). \<forall>d\<in>set (filter c_valid cs). length (c_hash c) = length (c_hash d))"
    if "?v \<noteq> []"
  proof -
    have "(\<forall>x\<in>A. f x = f h) \<longleftrightarrow> (\<forall>x\<in>A. \<forall>y\<in>A. f x = f y)" if "h \<in> A" for A h and f :: "nat \<times> Candidate \<Rightarrow> nat"
      using that by metis
    from this [OF hd_in_set [OF that], of "\<lambda>x. length (c_hash (snd x))"] show ?thesis
      unfolding v [symmetric] by simp
  qed
  have "(\<exists>r. resolveConflict cs = Inr r) \<longleftrightarrow>
      (\<exists>u. sameTarget (hd cs) (tl cs) = Inr u) \<and> (\<exists>r. pickWinner (enumerate 0 cs) ?v = Inr r)"
    unfolding resolveConflict_eq [OF assms] by (auto simp: errs)
  then show ?thesis unfolding pickWinner_resolves resolvable_def same using ne lens by blast
qed

lemma resolvable_cong: "set cs = set ds \<Longrightarrow> resolvable cs \<longleftrightarrow> resolvable ds"
  by (simp add: resolvable_def)

subsection \<open>The voided chain\<close>

text \<open>What is void when \<open>loser\<close> is: the loser and, transitively, what chains onto it.\<close>

inductive void :: "Candidate \<Rightarrow> Candidate list \<Rightarrow> Candidate \<Rightarrow> bool" for loser chain where
  loser: "void loser chain loser"
| successor: "void loser chain d \<Longrightarrow> c \<in> set chain \<Longrightarrow> r_prevHash (c_record c) = c_hash d \<Longrightarrow>
    void loser chain c"

inductive_cases voidE: "void loser chain c"

definition chain_ordered :: "Candidate list \<Rightarrow> bool" where
  "chain_ordered cs \<longleftrightarrow>
     (\<forall>c\<in>set cs. \<forall>d\<in>set cs. r_prevHash (c_record c) = c_hash d \<longrightarrow> r_seq (c_record d) < r_seq (c_record c))"

lemma void_in: "void loser chain c \<Longrightarrow> c \<in> set (loser # chain)"
  by (induction rule: void.induct) auto

lemma voided_step_set:
  "set (voided_step loser vs c) =
     set vs \<union> (if c \<noteq> loser \<and> (\<exists>v\<in>set vs. r_prevHash (c_record c) = c_hash v) then {c} else {})"
  by (auto simp: voided_step_def list_ex_iff compareBytes_eq split: if_splits)

lemma voided_prefix:
  assumes "chain_ordered (loser # chain)" "set ps \<subseteq> set chain" "sorted (map (\<lambda>c. r_seq (c_record c)) ps)"
    and "\<forall>c\<in>set chain. \<forall>p\<in>set ps. r_seq (c_record c) < r_seq (c_record p) \<longrightarrow> c \<in> set ps"
  shows "set (foldl (voided_step loser) [loser] ps) = {c \<in> set (loser # ps). void loser chain c}"
  using assms(2-)
proof (induction ps rule: rev_induct)
  case Nil
  then show ?case by (auto intro: void.loser)
next
  case (snoc p ps)
  have closed: "\<forall>c\<in>set chain. \<forall>q\<in>set ps. r_seq (c_record c) < r_seq (c_record q) \<longrightarrow> c \<in> set ps"
  proof (intro ballI impI)
    fix c q assume cq: "c \<in> set chain" "q \<in> set ps" "r_seq (c_record c) < r_seq (c_record q)"
    moreover have "r_seq (c_record q) \<le> r_seq (c_record p)"
      using snoc.prems(2) cq(2) by (auto simp: sorted_append)
    ultimately show "c \<in> set ps" using snoc.prems(3) by fastforce
  qed
  then have IH: "set (foldl (voided_step loser) [loser] ps) = {c \<in> set (loser # ps). void loser chain c}"
    using snoc by (auto simp: sorted_append)
  have p: "p \<in> set chain" using snoc.prems(1) by simp
  have "void loser chain p \<longleftrightarrow>
      p = loser \<or> (\<exists>v\<in>{c \<in> set (loser # ps). void loser chain c}. r_prevHash (c_record p) = c_hash v)"
  proof
    assume "void loser chain p"
    then show "p = loser \<or>
        (\<exists>v\<in>{c \<in> set (loser # ps). void loser chain c}. r_prevHash (c_record p) = c_hash v)"
    proof (cases rule: void.cases)
      case (successor d)
      have d: "d \<in> set (loser # chain)" using successor(1) by (rule void_in)
      then have "r_seq (c_record d) < r_seq (c_record p)"
        using assms(1) p successor(3) unfolding chain_ordered_def by auto
      then have "d = loser \<or> d \<in> set (ps @ [p])" using d snoc.prems(3) by auto
      then have "d \<in> set (loser # ps)"
        using \<open>r_seq (c_record d) < r_seq (c_record p)\<close> by auto
      with successor show ?thesis by blast
    qed simp
  next
    assume "p = loser \<or>
        (\<exists>v\<in>{c \<in> set (loser # ps). void loser chain c}. r_prevHash (c_record p) = c_hash v)"
    then show "void loser chain p" using p by (auto intro: void.intros)
  qed
  then show ?case using IH by (auto simp: voided_step_set)
qed

lemma voidedChain_set:
  assumes "chain_ordered (loser # chain)"
  shows "set (voidedChain loser chain) = {c. void loser chain c}"
proof -
  let ?ps = "sort_key (\<lambda>c. r_seq (c_record c)) chain"
  have "set (foldl (voided_step loser) [loser] ?ps) = {c \<in> set (loser # ?ps). void loser chain c}"
    by (rule voided_prefix [OF assms]) simp_all
  then show ?thesis using void_in unfolding voidedChain_def by fastforce
qed

subsection \<open>Properties\<close>

definition strip :: "Candidate \<Rightarrow> Candidate" where
  "strip c = c\<lparr>c_logIndex := None\<rparr>"

lemma strip_simps [simp]:
  "c_record (strip c) = c_record c" "c_hash (strip c) = c_hash c" "c_valid (strip c) = c_valid c"
  by (simp_all add: strip_def)

lemma least_hash_strip: "least_hash (map strip cs) h \<longleftrightarrow> least_hash cs h"
  by (auto simp: least_hash_def)

lemma resolvable_strip: "resolvable (map strip cs) \<longleftrightarrow> resolvable cs"
  by (simp add: resolvable_def filter_map comp_def)

text \<open>
  C36. Convergence. Two peers that hold the same candidates - in any order and at any positions of
  their own logs - either both resolve the conflict or both refuse to, by the same rule, and award
  the name to the same record; the losers are everyone else.
\<close>

theorem convergence_order_independent:
  assumes "mset (map strip cs) = mset (map strip ds)" and "length cs \<ge> 2"
    and "\<forall>c\<in>set cs. \<forall>d\<in>set cs. c_hash c = c_hash d \<longrightarrow> strip c = strip d"
    and "resolveConflict cs = Inr r"
  shows "\<exists>s. resolveConflict ds = Inr s \<and> strip (res_winner s) = strip (res_winner r) \<and>
    res_rule s = res_rule r \<and> mset (map strip (res_losers s)) = mset (map strip (res_losers r))"
proof -
  have set: "set (map strip cs) = set (map strip ds)" using assms(1) by (metis set_mset_mset)
  have len: "length ds \<ge> 2" using assms(1,2) by (metis length_map size_mset)
  have "resolvable cs" using resolveConflict_resolves [OF assms(2)] assms(4) by blast
  then have "resolvable ds" using set resolvable_cong resolvable_strip by metis
  then obtain s where s: "resolveConflict ds = Inr s" using resolveConflict_resolves [OF len] by blast
  note r' = resolveConflict_Inr [OF assms(4,2)] and s' = resolveConflict_Inr [OF s len]
  have "least_hash cs (c_hash (res_winner s))"
    using s' set least_hash_cong least_hash_strip by metis
  then have h: "c_hash (res_winner s) = c_hash (res_winner r)" using r' least_hash_unique by blast
  have "res_winner r \<in> set cs" using r' by (metis set_mset_mset union_single_eq_member)
  moreover have "res_winner s \<in> set ds" using s' by (metis set_mset_mset union_single_eq_member)
  then obtain c where "c \<in> set cs" "strip c = strip (res_winner s)"
    using set by (metis image_iff list.set_map)
  moreover from this(2) have "c_hash c = c_hash (res_winner s)" by (metis strip_simps(2))
  ultimately have w: "strip (res_winner s) = strip (res_winner r)" using assms(3) h by metis
  have "mset (map c_valid cs) = mset (map c_valid ds)"
  proof -
    have "mset (map c_valid (map strip cs)) = mset (map c_valid (map strip ds))"
      using assms(1) by (metis mset_map)
    then show ?thesis by (simp add: comp_def)
  qed
  then have "mset (filter id (map c_valid cs)) = mset (filter id (map c_valid ds))"
    by (metis mset_filter)
  then have "length (filter c_valid cs) = length (filter c_valid ds)"
    by (metis filter_map length_map size_mset comp_id id_comp)
  then have rule: "res_rule s = res_rule r"
    using r' s' by (cases "res_rule r"; cases "res_rule s") auto
  have "mset (map strip cs) = add_mset (strip (res_winner r)) (mset (map strip (res_losers r)))"
    "mset (map strip ds) = add_mset (strip (res_winner s)) (mset (map strip (res_losers s)))"
    using r' s' by (metis image_mset_add_mset mset_map)+
  then have "mset (map strip (res_losers s)) = mset (map strip (res_losers r))"
    using assms(1) w by (metis add_mset_add_mset_same_iff)
  with s w rule show ?thesis by blast
qed

definition sample_candidate :: "byte \<Rightarrow> int option \<Rightarrow> Candidate" where
  "sample_candidate b i =
     \<lparr>c_record = sample_register, c_hash = replicate 32 b, c_logIndex = i, c_valid = True\<rparr>"

theorem convergence_order_independent_witness:
  "\<exists>r s. resolveConflict [sample_candidate 1 (Some 4), sample_candidate 2 None] = Inr r \<and>
     resolveConflict [sample_candidate 2 (Some 4), sample_candidate 1 None] = Inr s \<and>
     strip (res_winner s) = strip (res_winner r)"
proof -
  let ?cs = "[sample_candidate 1 (Some 4), sample_candidate 2 None]"
  let ?ds = "[sample_candidate 2 (Some 4), sample_candidate 1 None]"
  have "resolvable ?cs" by (simp add: resolvable_def sample_candidate_def)
  then obtain r where r: "resolveConflict ?cs = Inr r" using resolveConflict_resolves [of ?cs] by auto
  have "mset (map strip ?cs) = mset (map strip ?ds)"
    by (simp add: strip_def sample_candidate_def add_mset_commute)
  moreover have "\<forall>c\<in>set ?cs. \<forall>d\<in>set ?cs. c_hash c = c_hash d \<longrightarrow> strip c = strip d"
    using replicate_eq_replicate [of 32 "1 :: byte" 32 2] by (simp add: sample_candidate_def strip_def)
  ultimately show ?thesis using convergence_order_independent [of ?cs ?ds r] r by fastforce
qed

text \<open>
  What a lost registration takes with it: when every record comes after the one it chains onto,
  \<open>voidedChain\<close> returns the loser and exactly the records that descend from it, through any number
  of links.
\<close>

theorem voidedChain_transitive:
  assumes "chain_ordered (loser # chain)"
  shows "set (voidedChain loser chain) = {c. void loser chain c}"
  using assms by (rule voidedChain_set)

definition sample_successor :: Candidate where
  "sample_successor =
     \<lparr>c_record = sample_register\<lparr>r_op := UPDATE, r_seq := 1, r_prevHash := replicate 32 1\<rparr>,
      c_hash = replicate 32 2, c_logIndex = None, c_valid = True\<rparr>"

theorem voidedChain_transitive_witness:
  "set (voidedChain (sample_candidate 1 None) [sample_successor, sample_candidate 1 None]) =
     {sample_candidate 1 None, sample_successor}"
proof -
  let ?c = "sample_candidate 1 None" and ?d = sample_successor
  have ne: "replicate 32 (0 :: byte) \<noteq> replicate 32 1" "replicate 32 (0 :: byte) \<noteq> replicate 32 2"
    "replicate 32 (1 :: byte) \<noteq> replicate 32 2"
    by (simp_all add: replicate_eq_replicate)
  have "chain_ordered [?c, ?d, ?c]"
    using ne by (simp add: chain_ordered_def sample_candidate_def sample_successor_def sample_register_def)
  note eq = voidedChain_transitive [OF this]
  have "void ?c [?d, ?c] ?d"
    by (rule void.successor [OF void.loser]) (simp_all add: sample_candidate_def sample_successor_def)
  then show ?thesis
    unfolding eq using void_in [of ?c "[?d, ?c]"] void.loser [of ?c "[?d, ?c]"] by auto
qed

end
