(* ===== verification/Merkle.thy ===== *)
theory Merkle
  imports Domain
begin

section \<open>The log's Merkle tree\<close>

text \<open>
  registry/src/merkle.ts: node hashes, the tree that grows one entry at a time, inclusion proofs
  and their verification. BLAKE2b is the function of \<open>crypto\<close>. Sizes and indices of a proof come
  from outside and are integers; writing one that is out of range throws. \<open>peaks\<close> and
  \<open>spans\<close> keep the order of the arrays, left to right.

  The lemmas relate the incremental tree to a reference, \<open>peak\<close>, defined on the list of entries:
  appending keeps the peaks of the binary decomposition of the length, and proofs are folds along
  one path of the reference.
\<close>

definition LEAF_TYPE :: byte where "LEAF_TYPE = 0"
definition PARENT_TYPE :: byte where "PARENT_TYPE = 1"
definition ROOT_TYPE :: byte where "ROOT_TYPE = 2"
definition HASH_LENGTH :: nat where "HASH_LENGTH = 32"

datatype merkle_error = SIZE_OUT_OF_RANGE | LEAF_OUTSIDE | NO_ENTRY

record Root =
  rt_hash :: bytes
  rt_index :: int
  rt_size :: int

definition uint64be :: "int \<Rightarrow> merkle_error + bytes" where
  "uint64be v = failIf (v < 0 \<or> v > MAX_SAFE_INTEGER) SIZE_OUT_OF_RANGE (Inr (be_bytes 8 (nat v)))"

definition hash_parts :: "crypto \<Rightarrow> bytes list \<Rightarrow> bytes" where
  "hash_parts C parts = blake2b_256 C (concat parts)"

definition leafHash :: "crypto \<Rightarrow> bytes \<Rightarrow> merkle_error + bytes" where
  "leafHash C data =
     bindE (uint64be (int (length data))) (\<lambda>n. Inr (hash_parts C [[LEAF_TYPE], n, data]))"

definition parentHash :: "crypto \<Rightarrow> Root \<Rightarrow> Root \<Rightarrow> merkle_error + bytes" where
  "parentHash C left right =
     bindE (uint64be (rt_size left + rt_size right)) (\<lambda>n.
       Inr (hash_parts C [[PARENT_TYPE], n, rt_hash left, rt_hash right]))"

definition rootPart :: "Root \<Rightarrow> merkle_error + bytes" where
  "rootPart root =
     bindE (uint64be (rt_index root)) (\<lambda>i. bindE (uint64be (rt_size root)) (\<lambda>s. Inr (rt_hash root @ i @ s)))"

definition treeHash :: "crypto \<Rightarrow> Root list \<Rightarrow> merkle_error + bytes" where
  "treeHash C roots = bindE (mapE rootPart roots) (\<lambda>parts. Inr (hash_parts C ([ROOT_TYPE] # parts)))"

definition flatIndex :: "nat \<Rightarrow> nat \<Rightarrow> int" where
  "flatIndex start count = 2 * int start + int count - 1"

subsection \<open>The growing tree\<close>

record MerkleTree =
  mt_peaks :: "Root list"
  mt_spans :: "nat list"
  mt_leafCount :: nat
  mt_bytes :: nat

definition empty_tree :: MerkleTree where
  "empty_tree = \<lparr>mt_peaks = [], mt_spans = [], mt_leafCount = 0, mt_bytes = 0\<rparr>"

function carry_loop ::
  "crypto \<Rightarrow> nat \<Rightarrow> Root list \<Rightarrow> nat list \<Rightarrow> Root \<Rightarrow> nat \<Rightarrow> merkle_error + Root list \<times> nat list" where
  "carry_loop C leafCount peaks spans carry span =
     (if spans \<noteq> [] \<and> last spans = span then
        let left = last peaks in
        bindE (parentHash C left carry) (\<lambda>h.
          carry_loop C leafCount (butlast peaks) (butlast spans)
            \<lparr>rt_hash = h, rt_index = flatIndex (leafCount - span * 2) (span * 2),
             rt_size = rt_size left + rt_size carry\<rparr>
            (span * 2))
      else Inr (peaks @ [carry], spans @ [span]))"
  by pat_completeness auto
termination
  by (relation "measure (\<lambda>(_, _, _, spans, _, _). length spans)") auto

declare carry_loop.simps [simp del]

definition tree_append :: "crypto \<Rightarrow> bytes \<Rightarrow> MerkleTree \<Rightarrow> merkle_error + MerkleTree" where
  "tree_append C data t =
     bindE (leafHash C data) (\<lambda>h.
     let leaf = \<lparr>rt_hash = h, rt_index = flatIndex (mt_leafCount t) 1, rt_size = int (length data)\<rparr>;
         leafCount = mt_leafCount t + 1 in
     bindE (carry_loop C leafCount (mt_peaks t) (mt_spans t) leaf 1) (\<lambda>(peaks, spans).
       Inr \<lparr>mt_peaks = peaks, mt_spans = spans, mt_leafCount = leafCount,
            mt_bytes = mt_bytes t + length data\<rparr>))"

primrec appendAll :: "crypto \<Rightarrow> bytes list \<Rightarrow> MerkleTree \<Rightarrow> merkle_error + MerkleTree" where
  "appendAll C [] t = Inr t"
| "appendAll C (e # es) t = bindE (tree_append C e t) (appendAll C es)"

definition treeOf :: "crypto \<Rightarrow> bytes list \<Rightarrow> merkle_error + MerkleTree" where
  "treeOf C entries = appendAll C entries empty_tree"

definition tree_root :: "crypto \<Rightarrow> MerkleTree \<Rightarrow> merkle_error + bytes" where
  "tree_root C t = treeHash C (mt_peaks t)"

subsection \<open>Inclusion proofs\<close>

record Proof =
  pf_leafIndex :: nat
  pf_leafSize :: nat
  pf_siblings :: "Root list"
  pf_siblingIsLeft :: "bool list"
  pf_roots :: "Root list"
  pf_rootIndex :: int

function subtreeRoot :: "crypto \<Rightarrow> bytes list \<Rightarrow> nat \<Rightarrow> nat \<Rightarrow> merkle_error + Root" where
  "subtreeRoot C entries start span =
     (if span \<le> 1 then
        if start < length entries then
          bindE (leafHash C (entries ! start)) (\<lambda>h.
            Inr \<lparr>rt_hash = h, rt_index = flatIndex start 1, rt_size = int (length (entries ! start))\<rparr>)
        else Inl NO_ENTRY
      else let half = span div 2 in
        bindE (subtreeRoot C entries start half) (\<lambda>left.
        bindE (subtreeRoot C entries (start + half) half) (\<lambda>right.
        bindE (parentHash C left right) (\<lambda>h.
          Inr \<lparr>rt_hash = h, rt_index = flatIndex start span, rt_size = rt_size left + rt_size right\<rparr>))))"
  by pat_completeness auto
termination
  by (relation "measure (\<lambda>(_, _, _, span). span)") auto

declare subtreeRoot.simps [simp del]

text \<open>The loop from bit 52 down to 0: pairs of start and span.\<close>

primrec peakSpans :: "nat \<Rightarrow> nat \<Rightarrow> nat \<Rightarrow> (nat \<times> nat) list" where
  "peakSpans 0 start remaining = []"
| "peakSpans (Suc k) start remaining =
     (if remaining \<ge> 2 ^ k
      then (start, 2 ^ k) # peakSpans k (start + 2 ^ k) (remaining - 2 ^ k)
      else peakSpans k start remaining)"

function walkDown ::
  "crypto \<Rightarrow> bytes list \<Rightarrow> nat \<Rightarrow> nat \<Rightarrow> nat \<Rightarrow> merkle_error + (Root \<times> bool) list" where
  "walkDown C entries leafIndex lo span =
     (if span > 1 then
        let half = span div 2; goRight = (leafIndex \<ge> lo + half) in
        bindE (if goRight then subtreeRoot C entries lo half
               else subtreeRoot C entries (lo + half) half) (\<lambda>sibling.
        bindE (walkDown C entries leafIndex (if goRight then lo + half else lo) half) (\<lambda>rest.
          Inr ((sibling, goRight) # rest)))
      else Inr [])"
  by pat_completeness auto
termination
  by (relation "measure (\<lambda>(_, _, _, _, span). span)") auto

declare walkDown.simps [simp del]

definition proveInclusion :: "crypto \<Rightarrow> bytes list \<Rightarrow> nat \<Rightarrow> merkle_error + Proof" where
  "proveInclusion C entries leafIndex =
     (if leafIndex \<ge> length entries then Inl LEAF_OUTSIDE
      else let spans = peakSpans 53 0 (length entries);
               covering = (\<lambda>(start, span). start \<le> leafIndex \<and> leafIndex < start + span) in
        (case find (\<lambda>i. covering (spans ! i)) [0..<length spans] of
           None \<Rightarrow> Inl NO_ENTRY
         | Some rootIndex \<Rightarrow>
             (case spans ! rootIndex of (lo, span) \<Rightarrow>
               bindE (walkDown C entries leafIndex lo span) (\<lambda>path.
               bindE (mapE (\<lambda>(start, span). subtreeRoot C entries start span) spans) (\<lambda>roots.
                 Inr \<lparr>pf_leafIndex = leafIndex, pf_leafSize = length (entries ! leafIndex),
                      pf_siblings = map fst path, pf_siblingIsLeft = map snd path,
                      pf_roots = roots, pf_rootIndex = int rootIndex\<rparr>)))))"

text \<open>The fold runs over the siblings from the last to the first.\<close>

primrec foldUp :: "crypto \<Rightarrow> Root \<Rightarrow> (Root \<times> bool) list \<Rightarrow> merkle_error + Root" where
  "foldUp C node [] = Inr node"
| "foldUp C node (p # path) =
     bindE (foldUp C node path) (\<lambda>node.
     let sibling = fst p; left = (if snd p then sibling else node); right = (if snd p then node else sibling) in
     bindE (parentHash C left right) (\<lambda>h.
       Inr \<lparr>rt_hash = h, rt_index = 0, rt_size = rt_size left + rt_size right\<rparr>))"

definition same_bytes :: "bytes \<Rightarrow> bytes \<Rightarrow> bool" where
  "same_bytes a b \<longleftrightarrow>
     length a = length b \<and> foldl (\<lambda>mismatch (x, y). mismatch OR (x XOR y)) 0 (zip a b) = 0"

definition verifyInclusion :: "crypto \<Rightarrow> bytes \<Rightarrow> Proof \<Rightarrow> bytes \<Rightarrow> merkle_error + bool" where
  "verifyInclusion C data pf expectedRoot =
     (if length data \<noteq> pf_leafSize pf then Inr False
      else if length (pf_siblings pf) \<noteq> length (pf_siblingIsLeft pf) then Inr False
      else if pf_rootIndex pf < 0 \<or> pf_rootIndex pf \<ge> int (length (pf_roots pf)) then Inr False
      else
        bindE (leafHash C data) (\<lambda>h.
        bindE (foldUp C \<lparr>rt_hash = h, rt_index = 0, rt_size = int (length data)\<rparr>
                 (zip (pf_siblings pf) (pf_siblingIsLeft pf))) (\<lambda>node.
        let claimed = pf_roots pf ! nat (pf_rootIndex pf) in
        if \<not> same_bytes (rt_hash claimed) (rt_hash node) then Inr False
        else bindE (treeHash C (pf_roots pf)) (\<lambda>root. Inr (same_bytes root expectedRoot)))))"

lemma same_bytes_iff [simp]: "same_bytes a b \<longleftrightarrow> a = b"
  by (auto simp: same_bytes_def fold_diff)

subsection \<open>The reference tree\<close>

text \<open>
  \<open>peak C start k ds\<close> is the node over the first \<open>2^k\<close> entries of \<open>ds\<close>, which stand from
  position \<open>start\<close> of the log on; \<open>peak_list\<close> lines up the peaks for the exponents \<open>ks\<close>.
\<close>

definition leaf_hash :: "crypto \<Rightarrow> bytes \<Rightarrow> bytes" where
  "leaf_hash C d = hash_parts C [[LEAF_TYPE], be_bytes 8 (length d), d]"

definition parent_hash :: "crypto \<Rightarrow> int \<Rightarrow> bytes \<Rightarrow> bytes \<Rightarrow> bytes" where
  "parent_hash C n l r = hash_parts C [[PARENT_TYPE], be_bytes 8 (nat n), l, r]"

definition total :: "bytes list \<Rightarrow> nat" where
  "total ds = sum_list (map length ds)"

primrec peak :: "crypto \<Rightarrow> nat \<Rightarrow> nat \<Rightarrow> bytes list \<Rightarrow> Root" where
  "peak C start 0 ds =
     \<lparr>rt_hash = leaf_hash C (hd ds), rt_index = flatIndex start 1, rt_size = int (length (hd ds))\<rparr>"
| "peak C start (Suc k) ds =
     (let left = peak C start k ds; right = peak C (start + 2 ^ k) k (drop (2 ^ k) ds) in
      \<lparr>rt_hash = parent_hash C (rt_size left + rt_size right) (rt_hash left) (rt_hash right),
       rt_index = flatIndex start (2 ^ Suc k), rt_size = rt_size left + rt_size right\<rparr>)"

primrec peak_list :: "crypto \<Rightarrow> nat \<Rightarrow> nat list \<Rightarrow> bytes list \<Rightarrow> Root list" where
  "peak_list C start [] ds = []"
| "peak_list C start (k # ks) ds = peak C start k ds # peak_list C (start + 2 ^ k) ks (drop (2 ^ k) ds)"

definition span_sum :: "nat list \<Rightarrow> nat" where
  "span_sum ks = sum_list (map (\<lambda>k. 2 ^ k) ks)"

lemma span_sum_simps [simp]:
  "span_sum [] = 0" "span_sum (k # ks) = 2 ^ k + span_sum ks" "span_sum (ks @ ls) = span_sum ks + span_sum ls"
  by (simp_all add: span_sum_def)

lemma total_simps [simp]:
  "total [] = 0" "total (d # ds) = length d + total ds" "total (ds @ es) = total ds + total es"
  by (simp_all add: total_def)

lemma total_take_drop: "total (take n ds) + total (drop n ds) = total ds"
  by (metis append_take_drop_id total_simps(3))

lemma total_drop_le: "total (drop n ds) \<le> total ds"
  using total_take_drop [of n ds] by simp

lemma total_take_le: "total (take n ds) \<le> total ds"
  using total_take_drop [of n ds] by simp

lemma peak_size: "2 ^ k \<le> length ds \<Longrightarrow> rt_size (peak C start k ds) = int (total (take (2 ^ k) ds))"
proof (induction k arbitrary: start ds)
  case 0
  then show ?case by (cases ds) auto
next
  case (Suc k)
  have "take (2 ^ Suc k) ds = take (2 ^ k) ds @ take (2 ^ k) (drop (2 ^ k) ds)"
    using take_add [of "2 ^ k" "2 ^ k" ds] by (simp add: mult_2)
  then show ?case using Suc by (simp add: Let_def)
qed

lemma peak_index: "rt_index (peak C start k ds) = flatIndex start (2 ^ k)"
  by (cases k) (simp_all add: Let_def)

lemma peak_take: "2 ^ k \<le> n \<Longrightarrow> peak C start k (take n ds) = peak C start k ds"
proof (induction k arbitrary: start n ds)
  case 0
  then show ?case by (cases ds; cases n) auto
next
  case (Suc k)
  then show ?case by (simp add: Let_def drop_take)
qed

lemma peak_append: "2 ^ k \<le> length ds \<Longrightarrow> peak C start k (ds @ es) = peak C start k ds"
  using peak_take [of k "length ds" C start "ds @ es"] by simp

lemma peak_list_append:
  "peak_list C start (ks @ ls) ds =
     peak_list C start ks ds @ peak_list C (start + span_sum ks) ls (drop (span_sum ks) ds)"
  by (induction ks arbitrary: start ds) (simp_all add: ac_simps)

lemma peak_list_extend:
  "span_sum ks \<le> length ds \<Longrightarrow> peak_list C start ks (ds @ es) = peak_list C start ks ds"
  by (induction ks arbitrary: start ds) (simp_all add: peak_append)

lemma length_peak_list [simp]: "length (peak_list C start ks ds) = length ks"
  by (induction ks arbitrary: start ds) auto

lemma safe_uint64be: "0 \<le> v \<Longrightarrow> v \<le> MAX_SAFE_INTEGER \<Longrightarrow> uint64be v = Inr (be_bytes 8 (nat v))"
  by (simp add: uint64be_def)

lemma leafHash_eq: "int (length d) \<le> MAX_SAFE_INTEGER \<Longrightarrow> leafHash C d = Inr (leaf_hash C d)"
  by (simp add: leafHash_def safe_uint64be leaf_hash_def)

lemma parentHash_eq:
  "0 \<le> rt_size l + rt_size r \<Longrightarrow> rt_size l + rt_size r \<le> MAX_SAFE_INTEGER \<Longrightarrow>
     parentHash C l r = Inr (parent_hash C (rt_size l + rt_size r) (rt_hash l) (rt_hash r))"
  by (simp add: parentHash_def safe_uint64be parent_hash_def)

lemma parentHash_Inr:
  "parentHash C l r = Inr h \<longleftrightarrow> 0 \<le> rt_size l + rt_size r \<and> rt_size l + rt_size r \<le> MAX_SAFE_INTEGER \<and>
     h = parent_hash C (rt_size l + rt_size r) (rt_hash l) (rt_hash r)"
  by (auto simp: parentHash_def uint64be_def parent_hash_def)

subsection \<open>Appending keeps the binary decomposition\<close>

definition tree_inv :: "crypto \<Rightarrow> bytes list \<Rightarrow> MerkleTree \<Rightarrow> bool" where
  "tree_inv C ds t \<longleftrightarrow>
     (\<exists>ks. sorted_wrt (>) ks \<and> span_sum ks = length ds \<and> mt_spans t = map (\<lambda>k. 2 ^ k) ks \<and>
        mt_peaks t = peak_list C 0 ks ds) \<and>
     mt_leafCount t = length ds \<and> mt_bytes t = total ds"

lemma carry_loop_peaks:
  assumes "sorted_wrt (>) ks" "\<forall>k\<in>set ks. j \<le> k" "span_sum ks + 2 ^ j = length ds"
    and "int (total ds) \<le> MAX_SAFE_INTEGER"
  shows "\<exists>ls. sorted_wrt (>) ls \<and> span_sum ls = length ds \<and>
    carry_loop C (length ds) (peak_list C 0 ks ds) (map (\<lambda>k. 2 ^ k) ks)
      (peak C (span_sum ks) j (drop (span_sum ks) ds)) (2 ^ j) =
    Inr (peak_list C 0 ls ds, map (\<lambda>k. 2 ^ k) ls)"
  using assms
proof (induction ks arbitrary: j rule: rev_induct)
  case Nil
  then show ?case
    by (intro exI [of _ "[j]"]) (simp add: carry_loop.simps)
next
  case (snoc k ks)
  show ?case
  proof (cases "k = j")
    case False
    then show ?thesis
      using snoc.prems
      by (intro exI [of _ "ks @ [k, j]"])
        (auto simp: carry_loop.simps [of C _ _ _ _ "2 ^ j"] peak_list_append sorted_wrt_append
          ac_simps power_inject_exp dest: le_neq_implies_less order_trans)
  next
    case True
    let ?m = "span_sum ks" and ?ds = "drop (span_sum ks) ds"
    have len: "?m + (2 ^ j + 2 ^ j) = length ds" using snoc.prems(3) True by simp
    have l: "rt_size (peak C ?m j ?ds) = int (total (take (2 ^ j) ?ds))"
      by (rule peak_size) (use len in simp)
    have r: "rt_size (peak C (?m + 2 ^ j) j (drop (2 ^ j) ?ds)) = int (total (take (2 ^ j) (drop (2 ^ j) ?ds)))"
      by (rule peak_size) (use len in simp)
    have "total (take (2 ^ j) ?ds) + total (take (2 ^ j) (drop (2 ^ j) ?ds)) \<le> total ds"
      using total_take_drop [of "2 ^ j" ?ds] total_drop_le [of ?m ds]
        total_take_le [of "2 ^ j" "drop (2 ^ j) ?ds"] by simp
    then have p: "parentHash C (peak C ?m j ?ds) (peak C (?m + 2 ^ j) j (drop (2 ^ j) ?ds)) =
        Inr (rt_hash (peak C ?m (Suc j) ?ds))"
      using l r snoc.prems(4) by (subst parentHash_eq) (simp_all add: Let_def)
    have step: "carry_loop C (length ds) (peak_list C 0 (ks @ [k]) ds) (map (\<lambda>k. 2 ^ k) (ks @ [k]))
        (peak C (?m + 2 ^ j) j (drop (2 ^ j) ?ds)) (2 ^ j) =
      carry_loop C (length ds) (peak_list C 0 ks ds) (map (\<lambda>k. 2 ^ k) ks) (peak C ?m (Suc j) ?ds) (2 ^ Suc j)"
    proof -
      have "length ds - (2 ^ j + 2 ^ j) = ?m" using len by simp
      then show ?thesis
        using p True
        by (subst carry_loop.simps) (simp add: peak_list_append Let_def mult_2 mult_2_right peak_index)
    qed
    have "\<forall>k'\<in>set ks. Suc j \<le> k'" using snoc.prems(1) True by (auto simp: sorted_wrt_append)
    moreover have "sorted_wrt (>) ks" using snoc.prems(1) by (simp add: sorted_wrt_append)
    moreover have "span_sum ks + 2 ^ Suc j = length ds" using len by simp
    ultimately obtain ls where "sorted_wrt (>) ls" "span_sum ls = length ds"
      "carry_loop C (length ds) (peak_list C 0 ks ds) (map (\<lambda>k. 2 ^ k) ks) (peak C ?m (Suc j) ?ds) (2 ^ Suc j) =
        Inr (peak_list C 0 ls ds, map (\<lambda>k. 2 ^ k) ls)"
      using snoc.IH [of "Suc j"] snoc.prems(4) by blast
    moreover have "peak C (span_sum (ks @ [k])) j (drop (span_sum (ks @ [k])) ds) =
        peak C (?m + 2 ^ j) j (drop (2 ^ j) ?ds)"
      using True by (simp add: add.commute)
    ultimately show ?thesis using step by metis
  qed
qed

lemma tree_append_inv:
  assumes "tree_inv C ds t" and "int (total (ds @ [d])) \<le> MAX_SAFE_INTEGER"
  shows "\<exists>t'. tree_append C d t = Inr t' \<and> tree_inv C (ds @ [d]) t'"
proof -
  obtain ks where ks: "sorted_wrt (>) ks" "span_sum ks = length ds" "mt_spans t = map (\<lambda>k. 2 ^ k) ks"
    "mt_peaks t = peak_list C 0 ks ds" "mt_leafCount t = length ds" "mt_bytes t = total ds"
    using assms(1) unfolding tree_inv_def by blast
  obtain ls where ls: "sorted_wrt (>) ls" "span_sum ls = length (ds @ [d])"
    "carry_loop C (length (ds @ [d])) (peak_list C 0 ks (ds @ [d])) (map (\<lambda>k. 2 ^ k) ks)
      (peak C (span_sum ks) 0 (drop (span_sum ks) (ds @ [d]))) (2 ^ 0) =
     Inr (peak_list C 0 ls (ds @ [d]), map (\<lambda>k. 2 ^ k) ls)"
    using carry_loop_peaks [of ks 0 "ds @ [d]" C] ks assms(2) by auto
  have "leafHash C d = Inr (leaf_hash C d)" using assms(2) by (intro leafHash_eq) simp
  then have "tree_append C d t = Inr \<lparr>mt_peaks = peak_list C 0 ls (ds @ [d]),
      mt_spans = map (\<lambda>k. 2 ^ k) ls, mt_leafCount = length ds + 1, mt_bytes = total ds + length d\<rparr>"
    using ls(3) ks by (simp add: tree_append_def Let_def peak_list_extend)
  then show ?thesis using ls unfolding tree_inv_def by (intro exI conjI) auto
qed

lemma appendAll_inv:
  assumes "tree_inv C ds t" and "int (total (ds @ es)) \<le> MAX_SAFE_INTEGER"
  shows "\<exists>t'. appendAll C es t = Inr t' \<and> tree_inv C (ds @ es) t'"
  using assms
proof (induction es arbitrary: ds t)
  case (Cons e es)
  obtain t' where t': "tree_append C e t = Inr t'" "tree_inv C (ds @ [e]) t'"
    using tree_append_inv [OF Cons.prems(1), of e] Cons.prems(2) by auto
  then show ?case using Cons.IH [of "ds @ [e]" t'] Cons.prems(2) by auto
qed simp

lemma treeOf_inv:
  assumes "int (total es) \<le> MAX_SAFE_INTEGER"
  shows "\<exists>t. treeOf C es = Inr t \<and> tree_inv C es t"
  using appendAll_inv [of C "[]" empty_tree es] assms
  by (auto simp: treeOf_def tree_inv_def empty_tree_def)

subsection \<open>The proof side builds the same peaks\<close>

primrec spans_of :: "nat \<Rightarrow> nat list \<Rightarrow> (nat \<times> nat) list" where
  "spans_of start [] = []"
| "spans_of start (k # ks) = (start, 2 ^ k) # spans_of (start + 2 ^ k) ks"

lemma length_spans_of [simp]: "length (spans_of start ks) = length ks"
  by (induction ks arbitrary: start) auto

lemma peakSpans_spans_of:
  "r < 2 ^ n \<Longrightarrow> \<exists>ks. sorted_wrt (>) ks \<and> span_sum ks = r \<and> (\<forall>k\<in>set ks. k < n) \<and>
     peakSpans n start r = spans_of start ks"
proof (induction n arbitrary: start r)
  case 0
  then show ?case by (intro exI [of _ "[]"]) simp
next
  case (Suc n)
  show ?case
  proof (cases "r \<ge> 2 ^ n")
    case True
    then have "r - 2 ^ n < 2 ^ n" using Suc.prems by (simp add: less_diff_conv2)
    then obtain ks where "sorted_wrt (>) ks" "span_sum ks = r - 2 ^ n" "\<forall>k\<in>set ks. k < n"
      "peakSpans n (start + 2 ^ n) (r - 2 ^ n) = spans_of (start + 2 ^ n) ks"
      using Suc.IH [of "r - 2 ^ n" "start + 2 ^ n"] by blast
    then show ?thesis using True by (intro exI [of _ "n # ks"]) auto
  next
    case False
    then obtain ks where "sorted_wrt (>) ks" "span_sum ks = r" "\<forall>k\<in>set ks. k < n"
      "peakSpans n start r = spans_of start ks"
      using Suc.IH [of r start] by auto
    then show ?thesis using False by (intro exI [of _ ks]) auto
  qed
qed

lemma span_sum_less: "sorted_wrt (>) ks \<Longrightarrow> \<forall>k\<in>set ks. k < n \<Longrightarrow> span_sum ks < 2 ^ n"
proof (induction ks arbitrary: n)
  case (Cons k ks)
  then have "span_sum ks < 2 ^ k" by simp
  moreover have "(2 :: nat) ^ Suc k \<le> 2 ^ n" using Cons.prems(2) by (intro power_increasing) auto
  ultimately show ?case by simp
qed simp

lemma span_sum_inject:
  "sorted_wrt (>) ks \<Longrightarrow> sorted_wrt (>) ls \<Longrightarrow> span_sum ks = span_sum ls \<Longrightarrow> ks = ls"
proof (induction ks arbitrary: ls)
  case Nil
  then show ?case by (cases ls) auto
next
  case (Cons k ks)
  then obtain l ms where ls: "ls = l # ms" by (cases ls) auto
  have "span_sum ks < 2 ^ k" "span_sum ms < 2 ^ l"
    using Cons.prems(1,2) ls by (auto intro!: span_sum_less)
  then have "2 ^ k \<le> span_sum (k # ks)" "span_sum (k # ks) < 2 ^ Suc k"
    "2 ^ l \<le> span_sum (k # ks)" "span_sum (k # ks) < 2 ^ Suc l"
    using Cons.prems(3) ls by auto
  then have "(2 :: nat) ^ k < 2 ^ Suc l" "(2 :: nat) ^ l < 2 ^ Suc k" by linarith+
  then have "k < Suc l" "l < Suc k" by (metis power_less_imp_less_exp one_less_numeral_iff semiring_norm(76))+
  then have "k = l" by simp
  then show ?case using Cons ls by auto
qed

lemma subtreeRoot_peak:
  assumes "start + 2 ^ k \<le> length es" and "int (total es) \<le> MAX_SAFE_INTEGER"
  shows "subtreeRoot C es start (2 ^ k) = Inr (peak C start k (drop start es))"
  using assms(1)
proof (induction k arbitrary: start)
  case 0
  then have "start < length es" by simp
  moreover have "length (es ! start) \<le> total es"
    using calculation member_le_sum_list [of "length (es ! start)" "map length es"]
    by (simp add: total_def)
  ultimately show ?case
    using assms(2) by (subst subtreeRoot.simps) (simp add: leafHash_eq hd_drop_conv_nth)
next
  case (Suc k)
  let ?l = "peak C start k (drop start es)" and ?r = "peak C (start + 2 ^ k) k (drop (start + 2 ^ k) es)"
  have sizes: "rt_size ?l = int (total (take (2 ^ k) (drop start es)))"
    "rt_size ?r = int (total (take (2 ^ k) (drop (2 ^ k) (drop start es))))"
    using Suc.prems by (simp_all add: peak_size add.commute)
  have "total (take (2 ^ k) (drop start es)) + total (take (2 ^ k) (drop (2 ^ k) (drop start es))) \<le> total es"
    using total_take_drop [of "2 ^ k" "drop start es"] total_drop_le [of start es]
      total_take_le [of "2 ^ k" "drop (2 ^ k) (drop start es)"] by linarith
  then have "parentHash C ?l ?r = Inr (parent_hash C (rt_size ?l + rt_size ?r) (rt_hash ?l) (rt_hash ?r))"
    using sizes assms(2) by (subst parentHash_eq) simp_all
  moreover have "\<not> 2 * 2 ^ k \<le> Suc 0" using one_le_power [of "2 :: nat" k] by linarith
  ultimately show ?case
    using Suc.prems Suc.IH [of start] Suc.IH [of "start + 2 ^ k"]
    by (subst subtreeRoot.simps) (simp add: Let_def add.commute mult.commute)
qed

lemma subtreeRoots_peak_list:
  assumes "int (total es) \<le> MAX_SAFE_INTEGER"
  shows "start + span_sum ks \<le> length es \<Longrightarrow>
    mapE (\<lambda>(start, span). subtreeRoot C es start span) (spans_of start ks) =
      Inr (peak_list C start ks (drop start es))"
proof (induction ks arbitrary: start)
  case (Cons k ks)
  then show ?case
    using subtreeRoot_peak [of start k es C] assms by (simp add: add.assoc add.commute)
qed simp

text \<open>The peaks of the grown tree are the subtree roots the proof computes.\<close>

lemma tree_peaks:
  assumes "treeOf C es = Inr t" and "int (total es) \<le> MAX_SAFE_INTEGER" and "length es < 2 ^ 53"
  obtains ks where "sorted_wrt (>) ks" "span_sum ks = length es"
    "peakSpans 53 0 (length es) = spans_of 0 ks" "mt_peaks t = peak_list C 0 ks es"
proof -
  obtain ks where ks: "sorted_wrt (>) ks" "span_sum ks = length es" "mt_peaks t = peak_list C 0 ks es"
    using treeOf_inv [OF assms(2), of C] assms(1) unfolding tree_inv_def by auto
  obtain ls where "sorted_wrt (>) ls" "span_sum ls = length es" "peakSpans 53 0 (length es) = spans_of 0 ls"
    using peakSpans_spans_of [OF assms(3)] by blast
  then show ?thesis using that [OF ks(1,2)] ks span_sum_inject by metis
qed

lemma walkDown_foldUp:
  assumes "int (total es) \<le> MAX_SAFE_INTEGER" and "lo \<le> i" and "i < lo + 2 ^ k" and "lo + 2 ^ k \<le> length es"
  shows "\<exists>path node. walkDown C es i lo (2 ^ k) = Inr path \<and>
    foldUp C \<lparr>rt_hash = leaf_hash C (es ! i), rt_index = 0, rt_size = int (length (es ! i))\<rparr> path = Inr node \<and>
    rt_hash node = rt_hash (peak C lo k (drop lo es)) \<and> rt_size node = rt_size (peak C lo k (drop lo es))"
  using assms(2-)
proof (induction k arbitrary: lo)
  case 0
  then have "i = lo" by simp
  then show ?case using 0 by (subst walkDown.simps) (simp add: hd_drop_conv_nth)
next
  case (Suc k)
  let ?l = "peak C lo k (drop lo es)" and ?r = "peak C (lo + 2 ^ k) k (drop (lo + 2 ^ k) es)"
  have l: "subtreeRoot C es lo (2 ^ k) = Inr ?l" and r: "subtreeRoot C es (lo + 2 ^ k) (2 ^ k) = Inr ?r"
    using Suc.prems assms(1) by (simp_all add: subtreeRoot_peak)
  have "total (take (2 ^ k) (drop lo es)) + total (take (2 ^ k) (drop (2 ^ k) (drop lo es))) \<le> total es"
    using total_take_drop [of "2 ^ k" "drop lo es"] total_drop_le [of lo es]
      total_take_le [of "2 ^ k" "drop (2 ^ k) (drop lo es)"] by linarith
  then have sum: "0 \<le> rt_size ?l + rt_size ?r" "rt_size ?l + rt_size ?r \<le> MAX_SAFE_INTEGER"
    using Suc.prems assms(1) by (simp_all add: peak_size add.commute)
  have half: "(2 :: nat) ^ Suc k div 2 = 2 ^ k" "(1 :: nat) < 2 ^ Suc k"
    by simp (rule one_less_power, simp_all)
  show ?case
  proof (cases "lo + 2 ^ k \<le> i")
    case True
    obtain path node where p: "walkDown C es i (lo + 2 ^ k) (2 ^ k) = Inr path"
      "foldUp C \<lparr>rt_hash = leaf_hash C (es ! i), rt_index = 0, rt_size = int (length (es ! i))\<rparr> path = Inr node"
      "rt_hash node = rt_hash ?r" "rt_size node = rt_size ?r"
      using Suc.IH [of "lo + 2 ^ k"] Suc.prems True by auto
    show ?thesis
      using p l sum True half
      by (subst walkDown.simps) (simp add: Let_def parentHash_eq add.commute)
  next
    case False
    obtain path node where p: "walkDown C es i lo (2 ^ k) = Inr path"
      "foldUp C \<lparr>rt_hash = leaf_hash C (es ! i), rt_index = 0, rt_size = int (length (es ! i))\<rparr> path = Inr node"
      "rt_hash node = rt_hash ?l" "rt_size node = rt_size ?l"
      using Suc.IH [of lo] Suc.prems False by auto
    show ?thesis
      using p r sum False half
      by (subst walkDown.simps) (simp add: Let_def parentHash_eq add.commute)
  qed
qed

subsection \<open>Completeness\<close>

lemma spans_of_covering:
  assumes "start \<le> i" "i < start + span_sum ks"
  obtains j where "j < length ks" "find (\<lambda>j. fst (spans_of start ks ! j) \<le> i \<and>
      i < fst (spans_of start ks ! j) + snd (spans_of start ks ! j)) [0..<length ks] = Some j"
    "spans_of start ks ! j = (start + span_sum (take j ks), 2 ^ (ks ! j))"
    "start + span_sum (take j ks) \<le> i" "i < start + span_sum (take j ks) + 2 ^ (ks ! j)"
proof -
  have nth: "spans_of start ks ! j = (start + span_sum (take j ks), 2 ^ (ks ! j))" if "j < length ks" for j
    using that
  proof (induction ks arbitrary: start j)
    case (Cons k ks)
    then show ?case by (cases j) auto
  qed simp
  have "\<exists>j<length ks. start + span_sum (take j ks) \<le> i \<and> i < start + span_sum (take j ks) + 2 ^ (ks ! j)"
    using assms
  proof (induction ks arbitrary: start)
    case (Cons k ks)
    show ?case
    proof (cases "i < start + 2 ^ k")
      case True
      then show ?thesis using Cons.prems by (intro exI [of _ 0]) auto
    next
      case False
      then obtain j where "j < length ks" "start + 2 ^ k + span_sum (take j ks) \<le> i"
        "i < start + 2 ^ k + span_sum (take j ks) + 2 ^ (ks ! j)"
        using Cons.IH [of "start + 2 ^ k"] Cons.prems by auto
      then show ?thesis by (intro exI [of _ "Suc j"]) (auto simp: ac_simps)
    qed
  qed simp
  then obtain j where "j < length ks" "start + span_sum (take j ks) \<le> i"
    "i < start + span_sum (take j ks) + 2 ^ (ks ! j)" by blast
  then have "find (\<lambda>j. fst (spans_of start ks ! j) \<le> i \<and>
      i < fst (spans_of start ks ! j) + snd (spans_of start ks ! j)) [0..<length ks] \<noteq> None"
    using nth [of j] by (auto simp: find_None_iff intro!: exI [of _ j])
  then obtain j' where j': "find (\<lambda>j. fst (spans_of start ks ! j) \<le> i \<and>
      i < fst (spans_of start ks ! j) + snd (spans_of start ks ! j)) [0..<length ks] = Some j'" by blast
  then have "j' < length ks" "fst (spans_of start ks ! j') \<le> i"
    "i < fst (spans_of start ks ! j') + snd (spans_of start ks ! j')"
    by (auto simp: find_Some_iff)
  then show ?thesis using that [of j'] j' nth [of j'] by simp
qed

lemma peak_list_nth:
  "j < length ks \<Longrightarrow> peak_list C start ks ds ! j =
     peak C (start + span_sum (take j ks)) (ks ! j) (drop (span_sum (take j ks)) ds)"
proof (induction ks arbitrary: start j ds)
  case (Cons k ks)
  then show ?case by (cases j) (auto simp: ac_simps)
qed simp

lemma span_sum_take: "j < length ks \<Longrightarrow> span_sum (take j ks) + 2 ^ (ks ! j) \<le> span_sum ks"
proof (induction ks arbitrary: j)
  case (Cons k ks)
  then show ?case by (cases j) auto
qed simp

lemma treeHash_peaks:
  assumes "span_sum ks = length es" and "int (total es) \<le> MAX_SAFE_INTEGER"
    and "2 * int (length es) \<le> MAX_SAFE_INTEGER"
  shows "\<exists>root. treeHash C (peak_list C 0 ks es) = Inr root"
proof -
  have "\<exists>p. rootPart x = Inr p" if x: "x \<in> set (peak_list C 0 ks es)" for x
  proof -
    obtain j where j: "j < length ks" "x = peak_list C 0 ks es ! j"
      using x by (auto simp: in_set_conv_nth)
    let ?m = "span_sum (take j ks)"
    have le: "?m + 2 ^ (ks ! j) \<le> length es" using span_sum_take [OF j(1)] assms(1) by simp
    have x: "x = peak C ?m (ks ! j) (drop ?m es)" using j peak_list_nth [OF j(1), of C 0 es] by simp
    have "rt_size x = int (total (take (2 ^ (ks ! j)) (drop ?m es)))"
      unfolding x by (rule peak_size) (use le in simp)
    moreover have "total (take (2 ^ (ks ! j)) (drop ?m es)) \<le> total es"
      using total_take_le [of "2 ^ (ks ! j)" "drop ?m es"] total_drop_le [of ?m es] by linarith
    moreover have "rt_index x = 2 * int ?m + int (2 ^ (ks ! j)) - 1"
      unfolding x peak_index flatIndex_def by simp
    moreover have "(1 :: nat) \<le> 2 ^ (ks ! j)" by simp
    then have "1 \<le> int (2 ^ (ks ! j))" by (metis of_nat_1 of_nat_le_iff)
    moreover have "int ?m + int (2 ^ (ks ! j)) \<le> int (length es)"
      using le by (metis of_nat_add of_nat_le_iff)
    ultimately have "uint64be (rt_size x) = Inr (be_bytes 8 (nat (rt_size x)))"
      "uint64be (rt_index x) = Inr (be_bytes 8 (nat (rt_index x)))"
      using assms(2,3) by (intro safe_uint64be; linarith)+
    then show ?thesis by (simp add: rootPart_def)
  qed
  then obtain parts where "mapE rootPart (peak_list C 0 ks es) = Inr parts"
    using mapE_total [of rootPart "peak_list C 0 ks es"] by blast
  then show ?thesis by (simp add: treeHash_def)
qed

lemma inclusion_complete:
  assumes "i < length es" and "int (total es) \<le> MAX_SAFE_INTEGER" and "2 * int (length es) \<le> MAX_SAFE_INTEGER"
  shows "\<exists>t root pf. treeOf C es = Inr t \<and> tree_root C t = Inr root \<and> proveInclusion C es i = Inr pf \<and>
    verifyInclusion C (es ! i) pf root = Inr True \<and> pf_roots pf = mt_peaks t"
proof -
  have len: "length es < 2 ^ 53" using assms(3) by (simp add: MAX_SAFE_INTEGER_def)
  obtain t where t: "treeOf C es = Inr t" using treeOf_inv [OF assms(2)] by blast
  obtain ks where ks: "span_sum ks = length es" "peakSpans 53 0 (length es) = spans_of 0 ks"
    "mt_peaks t = peak_list C 0 ks es"
    by (rule tree_peaks [OF t assms(2) len])
  obtain root where root: "treeHash C (peak_list C 0 ks es) = Inr root"
    using treeHash_peaks [OF ks(1) assms(2,3)] by blast
  obtain j where j: "j < length ks"
    "find (\<lambda>j. fst (spans_of 0 ks ! j) \<le> i \<and> i < fst (spans_of 0 ks ! j) + snd (spans_of 0 ks ! j))
       [0..<length ks] = Some j"
    "spans_of 0 ks ! j = (0 + span_sum (take j ks), 2 ^ (ks ! j))"
    "0 + span_sum (take j ks) \<le> i" "i < 0 + span_sum (take j ks) + 2 ^ (ks ! j)"
    by (rule spans_of_covering [of 0 i ks]) (use assms(1) ks(1) in simp_all)
  let ?m = "span_sum (take j ks)"
  have le: "?m + 2 ^ (ks ! j) \<le> length es" using span_sum_take [OF j(1)] ks(1) by simp
  obtain path node where p: "walkDown C es i ?m (2 ^ (ks ! j)) = Inr path"
    "foldUp C \<lparr>rt_hash = leaf_hash C (es ! i), rt_index = 0, rt_size = int (length (es ! i))\<rparr> path = Inr node"
    "rt_hash node = rt_hash (peak C ?m (ks ! j) (drop ?m es))"
    using walkDown_foldUp [OF assms(2) _ _ le, of i C] j by auto
  have roots: "mapE (\<lambda>(start, span). subtreeRoot C es start span) (spans_of 0 ks) = Inr (peak_list C 0 ks es)"
    using subtreeRoots_peak_list [OF assms(2), of 0 ks C] ks(1) by simp
  define pf where "pf = \<lparr>pf_leafIndex = i, pf_leafSize = length (es ! i), pf_siblings = map fst path,
      pf_siblingIsLeft = map snd path, pf_roots = peak_list C 0 ks es, pf_rootIndex = int j\<rparr>"
  have prove: "proveInclusion C es i = Inr pf"
    using assms(1) ks(2) j p(1) roots
    by (simp add: proveInclusion_def Let_def case_prod_unfold pf_def)
  have "length (es ! i) \<le> total es"
    using assms(1) member_le_sum_list [of "length (es ! i)" "map length es"] by (simp add: total_def)
  then have leaf: "leafHash C (es ! i) = Inr (leaf_hash C (es ! i))" using assms(2) by (simp add: leafHash_eq)
  have "zip (map fst path) (map snd path) = path" by (simp add: zip_map_fst_snd)
  then have "verifyInclusion C (es ! i) pf root = Inr True"
    using j(1) leaf p(2,3) root peak_list_nth [OF j(1), of C 0 es]
    by (simp add: verifyInclusion_def pf_def Let_def)
  moreover have "pf_roots pf = mt_peaks t" by (simp add: pf_def ks(3))
  ultimately show ?thesis using t root prove ks(3) unfolding tree_root_def by metis
qed

subsection \<open>Soundness up to a collision\<close>

text \<open>
  A collision is always one between two strings that were really hashed: one while verifying the
  proof (\<open>path_inputs\<close>, the leaf and the roots), one while building the log (\<open>peak_inputs\<close> and the
  roots). Merely saying that some collision exists would say nothing of a 32-byte hash.
\<close>

definition leaf_input :: "bytes \<Rightarrow> bytes" where
  "leaf_input d = [LEAF_TYPE] @ be_bytes 8 (length d) @ d"

definition parent_input :: "int \<Rightarrow> bytes \<Rightarrow> bytes \<Rightarrow> bytes" where
  "parent_input n l r = [PARENT_TYPE] @ be_bytes 8 (nat n) @ l @ r"

definition root_input :: "Root list \<Rightarrow> bytes" where
  "root_input roots =
     [ROOT_TYPE] @ concat (map (\<lambda>x. rt_hash x @ be_bytes 8 (nat (rt_index x)) @ be_bytes 8 (nat (rt_size x))) roots)"

lemma hash_inputs:
  "leaf_hash C d = blake2b_256 C (leaf_input d)"
  "parent_hash C n l r = blake2b_256 C (parent_input n l r)"
  by (simp_all add: leaf_hash_def leaf_input_def parent_hash_def parent_input_def hash_parts_def)

lemma treeHash_input:
  "treeHash C roots = Inr h \<Longrightarrow> h = blake2b_256 C (root_input roots)"
proof -
  assume "treeHash C roots = Inr h"
  then obtain parts where p: "list_all2 (\<lambda>x y. rootPart x = Inr y) roots parts"
    and h: "h = hash_parts C ([ROOT_TYPE] # parts)"
    by (auto simp: treeHash_def errs mapE_eq_Inr)
  from p have "parts = map (\<lambda>x. rt_hash x @ be_bytes 8 (nat (rt_index x)) @ be_bytes 8 (nat (rt_size x))) roots"
    by (induction rule: list_all2_induct) (auto simp: rootPart_def uint64be_def errs)
  then show ?thesis using h by (simp add: hash_parts_def root_input_def)
qed

primrec peak_inputs :: "crypto \<Rightarrow> nat \<Rightarrow> nat \<Rightarrow> bytes list \<Rightarrow> bytes list" where
  "peak_inputs C start 0 ds = [leaf_input (hd ds)]"
| "peak_inputs C start (Suc k) ds =
     (let left = peak C start k ds; right = peak C (start + 2 ^ k) k (drop (2 ^ k) ds) in
      parent_input (rt_size left + rt_size right) (rt_hash left) (rt_hash right) #
      peak_inputs C start k ds @ peak_inputs C (start + 2 ^ k) k (drop (2 ^ k) ds))"

primrec log_peak_inputs :: "crypto \<Rightarrow> nat \<Rightarrow> nat list \<Rightarrow> bytes list \<Rightarrow> bytes list" where
  "log_peak_inputs C start [] ds = []"
| "log_peak_inputs C start (k # ks) ds =
     peak_inputs C start k ds @ log_peak_inputs C (start + 2 ^ k) ks (drop (2 ^ k) ds)"

primrec path_inputs :: "crypto \<Rightarrow> Root \<Rightarrow> (Root \<times> bool) list \<Rightarrow> bytes list" where
  "path_inputs C node [] = []"
| "path_inputs C node (p # path) =
     (case foldUp C node path of
        Inl _ \<Rightarrow> []
      | Inr n \<Rightarrow>
          let left = (if snd p then fst p else n); right = (if snd p then n else fst p) in
          [parent_input (rt_size left + rt_size right) (rt_hash left) (rt_hash right)]) @ path_inputs C node path"

definition collision :: "crypto \<Rightarrow> bytes set \<Rightarrow> bytes set \<Rightarrow> bool" where
  "collision C A B \<longleftrightarrow> (\<exists>x\<in>A. \<exists>y\<in>B. x \<noteq> y \<and> blake2b_256 C x = blake2b_256 C y)"

lemma collisionI:
  "blake2b_256 C x = blake2b_256 C y \<Longrightarrow> x \<noteq> y \<Longrightarrow> x \<in> A \<Longrightarrow> y \<in> B \<Longrightarrow> collision C A B"
  unfolding collision_def by blast

lemma collision_mono: "collision C A B \<Longrightarrow> A \<subseteq> A' \<Longrightarrow> B \<subseteq> B' \<Longrightarrow> collision C A' B'"
  unfolding collision_def by blast

lemma leaf_input_inject: "leaf_input d = leaf_input e \<longleftrightarrow> d = e"
  by (auto simp: leaf_input_def)

lemma inputs_differ: "leaf_input d \<noteq> parent_input n l r" "leaf_input d \<noteq> root_input xs"
  by (simp_all add: leaf_input_def parent_input_def root_input_def LEAF_TYPE_def PARENT_TYPE_def ROOT_TYPE_def)

lemma parent_input_inject:
  "parent_input n l r = parent_input m l' r' \<Longrightarrow> length l = length l' \<or> length r = length r' \<Longrightarrow>
     l = l' \<and> r = r'"
  by (auto simp: parent_input_def)

lemma length_node_hash:
  assumes "hash_length_ok C"
  shows "length (rt_hash (peak C start k ds)) = 32"
  using assms by (cases k) (simp_all add: Let_def hash_inputs hash_length_ok_def)

lemma hd_peak_inputs: "\<exists>x\<in>set (peak_inputs C start k ds). rt_hash (peak C start k ds) = blake2b_256 C x"
  by (cases k) (simp_all add: Let_def hash_inputs)

lemma foldUp_sound:
  assumes "hash_length_ok C" and "foldUp C \<lparr>rt_hash = leaf_hash C d, rt_index = 0, rt_size = n\<rparr> path = Inr node"
    and "rt_hash node = rt_hash (peak C start k ds)" and "2 ^ k \<le> length ds"
  shows "d \<in> set (take (2 ^ k) ds) \<or>
    collision C (set (leaf_input d # path_inputs C \<lparr>rt_hash = leaf_hash C d, rt_index = 0, rt_size = n\<rparr> path))
      (set (peak_inputs C start k ds))"
  using assms(2-)
proof (induction path arbitrary: node start k ds)
  case Nil
  show ?case
  proof (cases k)
    case 0
    then show ?thesis
      using Nil leaf_input_inject [of d "hd ds"]
      by (cases ds) (auto simp: hash_inputs collision_def)
  next
    case (Suc j)
    then have "blake2b_256 C (leaf_input d) = blake2b_256 C (parent_input
        (rt_size (peak C start j ds) + rt_size (peak C (start + 2 ^ j) j (drop (2 ^ j) ds)))
        (rt_hash (peak C start j ds)) (rt_hash (peak C (start + 2 ^ j) j (drop (2 ^ j) ds))))"
      using Nil(1,2) by (auto simp: hash_inputs Let_def)
    then have "collision C (set (leaf_input d # path_inputs C \<lparr>rt_hash = leaf_hash C d, rt_index = 0, rt_size = n\<rparr> []))
        (set (peak_inputs C start k ds))"
      by (rule collisionI) (simp_all add: inputs_differ Suc Let_def)
    then show ?thesis ..
  qed
next
  case (Cons p path)
  let ?leaf = "\<lparr>rt_hash = leaf_hash C d, rt_index = 0, rt_size = n\<rparr>"
  obtain m where m: "foldUp C ?leaf path = Inr m"
    and node: "rt_hash node = parent_hash C (rt_size (fst p) + rt_size m)
        (rt_hash (if snd p then fst p else m)) (rt_hash (if snd p then m else fst p))"
    using Cons.prems(1) by (auto simp: errs Let_def parentHash_Inr add.commute split: if_splits)
  let ?in = "parent_input (rt_size (fst p) + rt_size m)
      (rt_hash (if snd p then fst p else m)) (rt_hash (if snd p then m else fst p))"
  have mem: "?in \<in> set (path_inputs C ?leaf (p # path))" using m by (simp add: Let_def add.commute)
  show ?case
  proof (cases k)
    case 0
    then have "blake2b_256 C ?in = blake2b_256 C (leaf_input (hd ds))"
      using Cons.prems(2) node by (simp only: hash_inputs peak.simps Root.select_convs)
    then have "collision C (set (leaf_input d # path_inputs C ?leaf (p # path))) (set (peak_inputs C start k ds))"
    proof (rule collisionI)
      show "?in \<noteq> leaf_input (hd ds)" using inputs_differ(1) by metis
    qed (use mem 0 in simp_all)
    then show ?thesis ..
  next
    case (Suc j)
    let ?l = "peak C start j ds" and ?r = "peak C (start + 2 ^ j) j (drop (2 ^ j) ds)"
    let ?out = "parent_input (rt_size ?l + rt_size ?r) (rt_hash ?l) (rt_hash ?r)"
    have eq: "blake2b_256 C ?in = blake2b_256 C ?out"
      using Cons.prems(2) node Suc by (simp add: hash_inputs Let_def)
    have out: "?out \<in> set (peak_inputs C start k ds)" using Suc by (simp add: Let_def)
    show ?thesis
    proof (cases "?in = ?out")
      case False
      with eq have "collision C (set (leaf_input d # path_inputs C ?leaf (p # path))) (set (peak_inputs C start k ds))"
        by (rule collisionI) (use mem out in simp_all)
      then show ?thesis ..
    next
      case True
      have "length (rt_hash m) = 32"
      proof (cases path)
        case Nil
        then show ?thesis using m assms(1) by (auto simp: hash_inputs hash_length_ok_def)
      next
        case (Cons q qs)
        then show ?thesis using m assms(1)
          by (auto simp: errs Let_def parentHash_Inr hash_inputs hash_length_ok_def)
      qed
      then have h: "rt_hash (if snd p then fst p else m) = rt_hash ?l \<and>
          rt_hash (if snd p then m else fst p) = rt_hash ?r"
        using length_node_hash [OF assms(1)] by (intro parent_input_inject [OF True]) auto
      have sub: "set (leaf_input d # path_inputs C ?leaf path) \<subseteq> set (leaf_input d # path_inputs C ?leaf (p # path))"
        "set (peak_inputs C start j ds) \<subseteq> set (peak_inputs C start k ds)"
        "set (peak_inputs C (start + 2 ^ j) j (drop (2 ^ j) ds)) \<subseteq> set (peak_inputs C start k ds)"
        unfolding Suc by (simp_all add: Let_def) blast+
      have dr: "2 ^ j \<le> length ds" "2 ^ j \<le> length (drop (2 ^ j) ds)" using Cons.prems(3) Suc by simp_all
      show ?thesis
      proof (cases "snd p")
        case True
        then have "rt_hash m = rt_hash ?r" using h by simp
        from Cons.IH [OF m this dr(2)] have "d \<in> set (take (2 ^ j) (drop (2 ^ j) ds)) \<or>
            collision C (set (leaf_input d # path_inputs C ?leaf path)) (set (peak_inputs C (start + 2 ^ j) j (drop (2 ^ j) ds)))" .
        moreover have "set (take (2 ^ j) (drop (2 ^ j) ds)) \<subseteq> set (take (2 ^ k) ds)"
          using take_add [of "2 ^ j" "2 ^ j" ds] Suc by (simp add: mult_2)
        ultimately show ?thesis using collision_mono [OF _ sub(1,3)] by blast
      next
        case False
        then have "rt_hash m = rt_hash ?l" using h by simp
        from Cons.IH [OF m this dr(1)] have "d \<in> set (take (2 ^ j) ds) \<or>
            collision C (set (leaf_input d # path_inputs C ?leaf path)) (set (peak_inputs C start j ds))" .
        moreover have "set (take (2 ^ j) ds) \<subseteq> set (take (2 ^ k) ds)"
          using Suc by (intro set_take_subset_set_take) simp
        ultimately show ?thesis using collision_mono [OF _ sub(1,2)] by blast
      qed
    qed
  qed
qed

lemma root_input_inject:
  assumes "root_input xs = root_input ys" "\<forall>x\<in>set xs. length (rt_hash x) = 32" "\<forall>y\<in>set ys. length (rt_hash y) = 32"
  shows "map rt_hash xs = map rt_hash ys"
proof -
  let ?p = "\<lambda>x. rt_hash x @ be_bytes 8 (nat (rt_index x)) @ be_bytes 8 (nat (rt_size x))"
  have "concat (map ?p xs) = concat (map ?p ys)" using assms(1) by (simp add: root_input_def)
  then show ?thesis using assms(2,3)
  proof (induction xs ys rule: list_induct2')
    case (2 x xs)
    then have "length (?p x) = 0" by simp
    then show ?case using 2 by simp
  next
    case (3 y ys)
    then have "length (?p y) = 0" by simp
    then show ?case using 3 by simp
  next
    case (4 x xs y ys)
    then have "?p x = ?p y" "concat (map ?p xs) = concat (map ?p ys)"
      by (simp_all add: append_eq_append_conv del: append_assoc)
    then show ?case using 4 by (auto simp: append_eq_append_conv)
  qed simp
qed

definition proof_inputs :: "crypto \<Rightarrow> bytes \<Rightarrow> Proof \<Rightarrow> bytes list" where
  "proof_inputs C d pf =
     leaf_input d # root_input (pf_roots pf) #
     path_inputs C \<lparr>rt_hash = leaf_hash C d, rt_index = 0, rt_size = int (length d)\<rparr>
       (zip (pf_siblings pf) (pf_siblingIsLeft pf))"

definition log_inputs :: "crypto \<Rightarrow> nat list \<Rightarrow> bytes list \<Rightarrow> bytes list" where
  "log_inputs C ks es = root_input (peak_list C 0 ks es) # log_peak_inputs C 0 ks es"

lemma peak_inputs_in_log:
  "j < length ks \<Longrightarrow>
     set (peak_inputs C (start + span_sum (take j ks)) (ks ! j) (drop (span_sum (take j ks)) ds)) \<subseteq>
     set (log_peak_inputs C start ks ds)"
proof (induction ks arbitrary: start j ds)
  case (Cons k ks)
  show ?case
  proof (cases j)
    case (Suc i)
    then show ?thesis using Cons.IH [of i "start + 2 ^ k" "drop (2 ^ k) ds"] Cons.prems by (auto simp: ac_simps)
  qed simp
qed simp

lemma inclusion_sound:
  assumes "hash_length_ok C" and "treeOf C es = Inr t" and "tree_root C t = Inr root"
    and "int (total es) \<le> MAX_SAFE_INTEGER" and "length es < 2 ^ 53"
    and "\<forall>x\<in>set (pf_roots pf). length (rt_hash x) = 32"
    and "verifyInclusion C d pf root = Inr True"
  shows "\<exists>ks. mt_peaks t = peak_list C 0 ks es \<and> span_sum ks = length es \<and>
    (d \<in> set es \<or> collision C (set (proof_inputs C d pf)) (set (log_inputs C ks es)))"
proof -
  obtain ks where ks: "span_sum ks = length es" "mt_peaks t = peak_list C 0 ks es"
    by (rule tree_peaks [OF assms(2,4,5)])
  let ?leaf = "\<lparr>rt_hash = leaf_hash C d, rt_index = 0, rt_size = int (length d)\<rparr>"
  let ?path = "zip (pf_siblings pf) (pf_siblingIsLeft pf)"
  obtain node where node: "foldUp C ?leaf ?path = Inr node"
    and idx: "0 \<le> pf_rootIndex pf" "pf_rootIndex pf < int (length (pf_roots pf))"
    and claimed: "rt_hash (pf_roots pf ! nat (pf_rootIndex pf)) = rt_hash node"
    and root: "treeHash C (pf_roots pf) = Inr root"
    using assms(7)
    by (auto simp: verifyInclusion_def errs Let_def leafHash_def uint64be_def leaf_hash_def split: if_splits)
  have "blake2b_256 C (root_input (pf_roots pf)) = blake2b_256 C (root_input (peak_list C 0 ks es))"
    using treeHash_input [OF root] assms(3) ks(2) treeHash_input [of C "peak_list C 0 ks es" root]
    by (simp add: tree_root_def)
  show ?thesis
  proof (cases "root_input (pf_roots pf) = root_input (peak_list C 0 ks es)")
    case False
    then have "collision C (set (proof_inputs C d pf)) (set (log_inputs C ks es))"
      using \<open>blake2b_256 C _ = _\<close>
      by (intro collisionI [of C "root_input (pf_roots pf)" "root_input (peak_list C 0 ks es)"])
        (simp_all add: proof_inputs_def log_inputs_def)
    then show ?thesis using ks by blast
  next
    case True
    have "\<forall>x\<in>set (peak_list C 0 ks es). length (rt_hash x) = 32"
      using length_node_hash [OF assms(1)] by (auto simp: in_set_conv_nth peak_list_nth)
    then have hs: "map rt_hash (pf_roots pf) = map rt_hash (peak_list C 0 ks es)"
      using root_input_inject [OF True assms(6)] by blast
    define j where "j = nat (pf_rootIndex pf)"
    have "length (pf_roots pf) = length ks" using hs by (metis length_map length_peak_list)
    then have j: "j < length ks" using idx unfolding j_def by simp
    let ?m = "span_sum (take j ks)"
    have "rt_hash node = rt_hash (peak_list C 0 ks es ! j)"
      using claimed hs j \<open>length (pf_roots pf) = length ks\<close> unfolding j_def [symmetric]
      by (metis length_peak_list nth_map)
    then have n: "rt_hash node = rt_hash (peak C ?m (ks ! j) (drop ?m es))"
      using peak_list_nth [OF j, of C 0 es] by simp
    have "2 ^ (ks ! j) \<le> length (drop ?m es)" using span_sum_take [OF j] ks(1) by simp
    from foldUp_sound [OF assms(1) node n this]
    have "d \<in> set (take (2 ^ (ks ! j)) (drop ?m es)) \<or>
        collision C (set (leaf_input d # path_inputs C ?leaf ?path)) (set (peak_inputs C ?m (ks ! j) (drop ?m es)))" .
    moreover have "set (peak_inputs C ?m (ks ! j) (drop ?m es)) \<subseteq> set (log_inputs C ks es)"
      using peak_inputs_in_log [OF j, of C 0 es] by (auto simp: log_inputs_def)
    moreover have "set (leaf_input d # path_inputs C ?leaf ?path) \<subseteq> set (proof_inputs C d pf)"
      by (auto simp: proof_inputs_def)
    ultimately have "d \<in> set es \<or> collision C (set (proof_inputs C d pf)) (set (log_inputs C ks es))"
      by (metis collision_mono in_set_dropD in_set_takeD)
    then show ?thesis using ks by blast
  qed
qed

subsection \<open>The root commits to the log\<close>

lemma peak_inject:
  assumes "hash_length_ok C"
  shows "2 ^ k \<le> length ds \<Longrightarrow> 2 ^ k \<le> length es \<Longrightarrow>
    rt_hash (peak C start k ds) = rt_hash (peak C start k es) \<Longrightarrow>
    take (2 ^ k) ds = take (2 ^ k) es \<or>
    collision C (set (peak_inputs C start k ds)) (set (peak_inputs C start k es))"
proof (induction k arbitrary: start ds es)
  case 0
  then have "blake2b_256 C (leaf_input (hd ds)) = blake2b_256 C (leaf_input (hd es))"
    by (simp add: hash_inputs)
  then have "hd ds = hd es \<or> collision C (set (peak_inputs C start 0 ds)) (set (peak_inputs C start 0 es))"
    using collisionI [of C "leaf_input (hd ds)" "leaf_input (hd es)"] by (auto simp: leaf_input_inject)
  then show ?case using 0 by (cases ds; cases es) auto
next
  case (Suc k)
  let ?in = "\<lambda>ds. parent_input (rt_size (peak C start k ds) + rt_size (peak C (start + 2 ^ k) k (drop (2 ^ k) ds)))
      (rt_hash (peak C start k ds)) (rt_hash (peak C (start + 2 ^ k) k (drop (2 ^ k) ds)))"
  have eq: "blake2b_256 C (?in ds) = blake2b_256 C (?in es)"
    using Suc.prems(3) by (simp add: hash_inputs Let_def)
  have mem: "?in ds \<in> set (peak_inputs C start (Suc k) ds)" "?in es \<in> set (peak_inputs C start (Suc k) es)"
    by (simp_all add: Let_def)
  show ?case
  proof (cases "?in ds = ?in es")
    case False
    then show ?thesis using collisionI [OF eq _ mem] by blast
  next
    case True
    then have h: "rt_hash (peak C start k ds) = rt_hash (peak C start k es) \<and>
        rt_hash (peak C (start + 2 ^ k) k (drop (2 ^ k) ds)) = rt_hash (peak C (start + 2 ^ k) k (drop (2 ^ k) es))"
      by (rule parent_input_inject) (simp add: length_node_hash [OF assms])
    have sub: "set (peak_inputs C start k ds) \<subseteq> set (peak_inputs C start (Suc k) ds)"
      "set (peak_inputs C (start + 2 ^ k) k (drop (2 ^ k) ds)) \<subseteq> set (peak_inputs C start (Suc k) ds)" for ds
      by (simp_all add: Let_def) blast+
    have len: "2 ^ k \<le> length ds" "2 ^ k \<le> length es"
        "2 ^ k \<le> length (drop (2 ^ k) ds)" "2 ^ k \<le> length (drop (2 ^ k) es)"
      using Suc.prems(1,2) by simp_all
    have "take (2 ^ k) ds = take (2 ^ k) es \<or>
        collision C (set (peak_inputs C start (Suc k) ds)) (set (peak_inputs C start (Suc k) es))"
      using Suc.IH [OF len(1,2) conjunct1 [OF h]] collision_mono [OF _ sub(1) sub(1)] by blast
    moreover have "take (2 ^ k) (drop (2 ^ k) ds) = take (2 ^ k) (drop (2 ^ k) es) \<or>
        collision C (set (peak_inputs C start (Suc k) ds)) (set (peak_inputs C start (Suc k) es))"
      using Suc.IH [OF len(3,4) conjunct2 [OF h]] collision_mono [OF _ sub(2) sub(2)] by blast
    moreover have "take (2 ^ Suc k) xs = take (2 ^ k) xs @ take (2 ^ k) (drop (2 ^ k) xs)" for xs :: "bytes list"
      using take_add [of "2 ^ k" "2 ^ k" xs] by (simp add: mult_2)
    ultimately show ?thesis by metis
  qed
qed

lemma peak_list_inject:
  assumes "hash_length_ok C"
  shows "span_sum ks = length ds \<Longrightarrow> span_sum ks = length es \<Longrightarrow>
    map rt_hash (peak_list C start ks ds) = map rt_hash (peak_list C start ks es) \<Longrightarrow>
    ds = es \<or> collision C (set (log_peak_inputs C start ks ds)) (set (log_peak_inputs C start ks es))"
proof (induction ks arbitrary: start ds es)
  case (Cons k ks)
  let ?in = "\<lambda>ds. set (log_peak_inputs C start (k # ks) ds)"
  have sub: "set (peak_inputs C start k ds) \<subseteq> ?in ds"
    "set (log_peak_inputs C (start + 2 ^ k) ks (drop (2 ^ k) ds)) \<subseteq> ?in ds" for ds
    by simp_all
  have len: "2 ^ k \<le> length ds" "2 ^ k \<le> length es"
      "span_sum ks = length (drop (2 ^ k) ds)" "span_sum ks = length (drop (2 ^ k) es)"
    using Cons.prems(1,2) by simp_all
  have h: "rt_hash (peak C start k ds) = rt_hash (peak C start k es)"
      "map rt_hash (peak_list C (start + 2 ^ k) ks (drop (2 ^ k) ds)) =
       map rt_hash (peak_list C (start + 2 ^ k) ks (drop (2 ^ k) es))"
    using Cons.prems(3) by simp_all
  have "take (2 ^ k) ds = take (2 ^ k) es \<or> collision C (?in ds) (?in es)"
    using peak_inject [OF assms len(1,2) h(1)] collision_mono [OF _ sub(1) sub(1)] by blast
  moreover have "drop (2 ^ k) ds = drop (2 ^ k) es \<or> collision C (?in ds) (?in es)"
    using Cons.IH [OF len(3,4) h(2)] collision_mono [OF _ sub(2) sub(2)] by blast
  ultimately show ?case by (metis append_take_drop_id)
qed simp

lemma index_determines:
  "map rt_index (peak_list C start ks ds) = map rt_index (peak_list C start ls es) \<Longrightarrow> ks = ls"
proof (induction ks arbitrary: start ls ds es)
  case Nil
  then show ?case by (cases ls) auto
next
  case (Cons k ks)
  then obtain l ms where ls: "ls = l # ms" by (cases ls) auto
  have "(2 :: int) ^ k = 2 ^ l" using Cons.prems ls by (simp add: peak_index flatIndex_def)
  then have "k = l" by simp
  then show ?case using Cons ls by auto
qed

lemma root_input_index:
  assumes "root_input xs = root_input ys" "\<forall>x\<in>set xs \<union> set ys. length (rt_hash x) = 32 \<and>
      0 \<le> rt_index x \<and> rt_index x < 256 ^ 8"
  shows "map rt_index xs = map rt_index ys"
proof -
  let ?p = "\<lambda>x. rt_hash x @ be_bytes 8 (nat (rt_index x)) @ be_bytes 8 (nat (rt_size x))"
  have "concat (map ?p xs) = concat (map ?p ys)" using assms(1) by (simp add: root_input_def)
  then show ?thesis using assms(2)
  proof (induction xs ys rule: list_induct2')
    case (2 x xs)
    then have "length (?p x) = 0" by simp
    then show ?case using 2 by simp
  next
    case (3 y ys)
    then have "length (?p y) = 0" by simp
    then show ?case using 3 by simp
  next
    case (4 x xs y ys)
    then have e: "?p x = ?p y" "concat (map ?p xs) = concat (map ?p ys)"
      by (simp_all add: append_eq_append_conv del: append_assoc)
    then have "be_bytes 8 (nat (rt_index x)) = be_bytes 8 (nat (rt_index y))"
      using 4 by (simp add: append_eq_append_conv)
    moreover have r: "0 \<le> rt_index x \<and> rt_index x < 256 ^ 8" "0 \<le> rt_index y \<and> rt_index y < 256 ^ 8"
      using 4(3) by simp_all
    then have "nat (rt_index x) < 256 ^ 8" "nat (rt_index y) < 256 ^ 8"
      by (simp_all add: nat_less_iff)
    ultimately have "nat (rt_index x) = nat (rt_index y)" using be_bytes_inject by blast
    then have "rt_index x = rt_index y"
      using eq_nat_nat_iff [OF conjunct1 [OF r(1)] conjunct1 [OF r(2)]] by blast
    then show ?case using 4(1) [OF e(2)] 4(3) by simp
  qed simp
qed

lemma peak_list_hash_length:
  assumes "hash_length_ok C" "x \<in> set (peak_list C start ks ds)"
  shows "length (rt_hash x) = 32"
proof -
  obtain j where "j < length ks" "x = peak_list C start ks ds ! j"
    using assms(2) by (auto simp: in_set_conv_nth)
  then show ?thesis by (simp add: peak_list_nth length_node_hash [OF assms(1)])
qed

lemma peak_list_index_range:
  assumes "span_sum ks < 2 ^ 53" "x \<in> set (peak_list C 0 ks ds)"
  shows "0 \<le> rt_index x \<and> rt_index x < 256 ^ 8"
proof -
  obtain j where j: "j < length ks" "x = peak_list C 0 ks ds ! j"
    using assms(2) by (auto simp: in_set_conv_nth)
  have "span_sum (take j ks) + 2 ^ (ks ! j) < 2 ^ 53"
    using span_sum_take [OF j(1)] assms(1) by linarith
  then have b: "int (span_sum (take j ks)) + 2 ^ (ks ! j) < 2 ^ 53"
    by (simp flip: of_nat_less_iff [where 'a = int])
  have i: "rt_index x = 2 * int (span_sum (take j ks)) + 2 ^ (ks ! j) - 1"
    using j by (simp add: peak_list_nth peak_index flatIndex_def)
  have "1 \<le> (2 :: int) ^ (ks ! j)" "(2 :: int) * 2 ^ 53 < 256 ^ 8" by simp_all
  then show ?thesis using b unfolding i by linarith
qed

lemma root_commits:
  assumes "hash_length_ok C" and "treeOf C ds = Inr t" and "treeOf C es = Inr u"
    and "tree_root C t = Inr root" and "tree_root C u = Inr root"
    and "int (total ds) \<le> MAX_SAFE_INTEGER" and "int (total es) \<le> MAX_SAFE_INTEGER"
    and "length ds < 2 ^ 53" and "length es < 2 ^ 53"
  obtains ks ls where "mt_peaks t = peak_list C 0 ks ds" "span_sum ks = length ds"
    "mt_peaks u = peak_list C 0 ls es" "span_sum ls = length es"
    "ds = es \<or> collision C (set (log_inputs C ks ds)) (set (log_inputs C ls es))"
proof -
  obtain ks where ks: "span_sum ks = length ds" "mt_peaks t = peak_list C 0 ks ds"
    by (rule tree_peaks [OF assms(2,6,8)])
  obtain ls where ls: "span_sum ls = length es" "mt_peaks u = peak_list C 0 ls es"
    by (rule tree_peaks [OF assms(3,7,9)])
  let ?xs = "peak_list C 0 ks ds" and ?ys = "peak_list C 0 ls es"
  let ?A = "set (log_inputs C ks ds)" and ?B = "set (log_inputs C ls es)"
  have eq: "blake2b_256 C (root_input ?xs) = blake2b_256 C (root_input ?ys)"
    using treeHash_input [of C ?xs root] treeHash_input [of C ?ys root] assms(4,5) ks(2) ls(2)
    by (simp add: tree_root_def)
  have "ds = es \<or> collision C ?A ?B"
  proof (cases "root_input ?xs = root_input ?ys")
    case False
    then have "collision C ?A ?B"
      by (intro collisionI [OF eq]) (simp_all add: log_inputs_def)
    then show ?thesis ..
  next
    case True
    note len = peak_list_hash_length [OF assms(1)]
    have hs: "map rt_hash ?xs = map rt_hash ?ys"
      by (intro root_input_inject [OF True] ballI) (rule len, assumption)+
    have sums: "span_sum ks < 2 ^ 53" "span_sum ls < 2 ^ 53" using ks(1) ls(1) assms(8,9) by simp_all
    have "map rt_index ?xs = map rt_index ?ys"
    proof (intro root_input_index [OF True] ballI)
      show "length (rt_hash x) = 32 \<and> 0 \<le> rt_index x \<and> rt_index x < 256 ^ 8"
        if "x \<in> set ?xs \<union> set ?ys" for x
        using that len peak_list_index_range [OF sums(1)] peak_list_index_range [OF sums(2)] by blast
    qed
    then have "ks = ls" by (rule index_determines)
    then have "ds = es \<or> collision C (set (log_peak_inputs C 0 ks ds)) (set (log_peak_inputs C 0 ls es))"
      using peak_list_inject [OF assms(1), of ks ds es 0] ks(1) ls(1) hs by simp
    moreover have "set (log_peak_inputs C 0 ks' xs) \<subseteq> set (log_inputs C ks' xs)" for ks' xs
      by (simp add: log_inputs_def subset_insertI)
    ultimately show ?thesis using collision_mono by blast
  qed
  then show ?thesis using that ks ls by blast
qed

section \<open>Properties\<close>

text \<open>
  A log grown one entry at a time keeps exactly the roots that the proof side computes from
  scratch: the subtree roots over the power-of-two spans of its length, left to right, with the
  number of entries and of bytes it holds.
\<close>

theorem merkle_incremental:
  assumes "treeOf C es = Inr t" and "int (total es) \<le> MAX_SAFE_INTEGER" and "length es < 2 ^ 53"
  shows "mapE (\<lambda>(start, span). subtreeRoot C es start span) (peakSpans 53 0 (length es)) = Inr (mt_peaks t) \<and>
    mt_leafCount t = length es \<and> mt_bytes t = total es"
proof -
  obtain ks where ks: "span_sum ks = length es" "peakSpans 53 0 (length es) = spans_of 0 ks"
      "mt_peaks t = peak_list C 0 ks es"
    by (rule tree_peaks [OF assms])
  have "tree_inv C es t" using treeOf_inv [OF assms(2), of C] assms(1) by auto
  then show ?thesis
    using subtreeRoots_peak_list [OF assms(2), of 0 ks C] ks by (simp add: tree_inv_def)
qed

lemma sample_log_small:
  "int (total [[1], [2], [3]]) \<le> MAX_SAFE_INTEGER" "2 * int (length [[1], [2], [3 :: byte]]) \<le> MAX_SAFE_INTEGER"
  "length [[1], [2], [3 :: byte]] < 2 ^ 53"
  by (simp_all add: MAX_SAFE_INTEGER_def)

theorem merkle_incremental_witness:
  "\<exists>t. treeOf sample_crypto [[1], [2], [3]] = Inr t \<and>
     mapE (\<lambda>(start, span). subtreeRoot sample_crypto [[1], [2], [3]] start span) 
       (peakSpans 53 0 (length [[1], [2], [3 :: byte]])) = Inr (mt_peaks t) \<and> mt_leafCount t = 3"
  using merkle_incremental [OF _ sample_log_small(1,3), of sample_crypto]
    treeOf_inv [OF sample_log_small(1), of sample_crypto] by auto

text \<open>
  Every entry of a log has an inclusion proof, and that proof verifies against the root of the
  tree grown from the log.
\<close>

theorem inclusion_proof_verifies:
  assumes "i < length es" and "int (total es) \<le> MAX_SAFE_INTEGER"
    and "2 * int (length es) \<le> MAX_SAFE_INTEGER"
  shows "\<exists>t root pf. treeOf C es = Inr t \<and> tree_root C t = Inr root \<and>
    proveInclusion C es i = Inr pf \<and> verifyInclusion C (es ! i) pf root = Inr True"
  using inclusion_complete [OF assms] by blast

theorem inclusion_proof_verifies_witness:
  "\<exists>t root pf. treeOf sample_crypto [[1], [2], [3]] = Inr t \<and> tree_root sample_crypto t = Inr root \<and>
     proveInclusion sample_crypto [[1], [2], [3]] 2 = Inr pf \<and>
     verifyInclusion sample_crypto [3] pf root = Inr True"
  using inclusion_proof_verifies [OF _ sample_log_small(1,2), of 2 sample_crypto] by simp

text \<open>
  C37. A proof with 32-byte roots that verifies against the root of a log proves membership: either
  the bytes are an entry of the log, or one of the inputs hashed while checking the proof collides
  with one of the inputs hashed while building the log.
\<close>

theorem inclusion_proof_sound:
  assumes "hash_length_ok C" and "treeOf C es = Inr t" and "tree_root C t = Inr root"
    and "int (total es) \<le> MAX_SAFE_INTEGER" and "length es < 2 ^ 53"
    and "\<forall>x\<in>set (pf_roots pf). length (rt_hash x) = 32"
    and "verifyInclusion C d pf root = Inr True"
  shows "\<exists>ks. mt_peaks t = peak_list C 0 ks es \<and> span_sum ks = length es \<and>
    (d \<in> set es \<or> collision C (set (proof_inputs C d pf)) (set (log_inputs C ks es)))"
  by (rule inclusion_sound [OF assms])

theorem inclusion_proof_sound_witness:
  "\<exists>t pf ks. treeOf sample_crypto [[1], [2], [3]] = Inr t \<and>
     proveInclusion sample_crypto [[1], [2], [3]] 1 = Inr pf \<and>
     mt_peaks t = peak_list sample_crypto 0 ks [[1], [2], [3]] \<and>
     ([2 :: byte] \<in> set [[1], [2], [3]] \<or>
      collision sample_crypto (set (proof_inputs sample_crypto [2] pf))
        (set (log_inputs sample_crypto ks [[1], [2], [3]])))"
proof -
  obtain t root pf where p: "treeOf sample_crypto [[1], [2], [3]] = Inr t" "tree_root sample_crypto t = Inr root"
      "proveInclusion sample_crypto [[1], [2], [3]] 1 = Inr pf"
      "verifyInclusion sample_crypto [2] pf root = Inr True" "pf_roots pf = mt_peaks t"
    using inclusion_complete [OF _ sample_log_small(1,2), of 1 sample_crypto] by auto
  have "\<forall>x\<in>set (pf_roots pf). length (rt_hash x) = 32"
    using tree_peaks [OF p(1) sample_log_small(1,3)] peak_list_hash_length [OF sample_hash_length] p(5)
    by metis
  from inclusion_proof_sound [OF sample_hash_length p(1,2) sample_log_small(1,3) this p(4)] p(1,3)
  show ?thesis by blast
qed

text \<open>
  The root commits to the whole log: two logs with one root are the same list of entries, or an
  input hashed for the one collides with an input hashed for the other.
\<close>

theorem root_commits_to_log:
  assumes "hash_length_ok C" and "treeOf C ds = Inr t" and "treeOf C es = Inr u"
    and "tree_root C t = Inr root" and "tree_root C u = Inr root"
    and "int (total ds) \<le> MAX_SAFE_INTEGER" and "int (total es) \<le> MAX_SAFE_INTEGER"
    and "length ds < 2 ^ 53" and "length es < 2 ^ 53"
  shows "\<exists>ks ls. mt_peaks t = peak_list C 0 ks ds \<and> span_sum ks = length ds \<and>
    mt_peaks u = peak_list C 0 ls es \<and> span_sum ls = length es \<and>
    (ds = es \<or> collision C (set (log_inputs C ks ds)) (set (log_inputs C ls es)))"
  by (rule root_commits [OF assms]) blast

theorem root_commits_to_log_witness:
  "\<exists>t ks ls. treeOf sample_crypto [[1], [2], [3]] = Inr t \<and>
     mt_peaks t = peak_list sample_crypto 0 ks [[1], [2], [3]] \<and>
     mt_peaks t = peak_list sample_crypto 0 ls [[1], [2], [3]]"
proof -
  obtain t root where p: "treeOf sample_crypto [[1], [2], [3]] = Inr t" "tree_root sample_crypto t = Inr root"
    using inclusion_complete [OF _ sample_log_small(1,2), of 1 sample_crypto] by auto
  from root_commits_to_log [OF sample_hash_length p(1) p(1) p(2) p(2) sample_log_small(1,1,3,3)] p(1)
  show ?thesis by blast
qed

end
