(* ===== verification/Lifecycle.thy ===== *)
theory Lifecycle
  imports Registry_Record
begin

section \<open>The lifecycle of a name\<close>

text \<open>
  registry/src/lifecycle.ts: the instants at which a name changes state, and the two questions the
  verifier asks of them. Times are seconds, as integers.
\<close>

definition GRACE_SECONDS :: int where "GRACE_SECONDS = 2592000"
definition QUARANTINE_SECONDS :: int where "QUARANTINE_SECONDS = 2592000"

datatype name_state = LIVE | GRACE | QUARANTINE | FREE | PENDING

record lifecycle =
  liveFrom :: int
  liveUntil :: int
  graceUntil :: int
  quarantineUntil :: int
  revoked :: bool

definition lifecycleOf :: "RegistryRecord \<Rightarrow> lifecycle" where
  "lifecycleOf r =
     (if r_op r = RELINQUISH then
        (let expiry = r_notAfter r in
         \<lparr>liveFrom = r_notBefore r, liveUntil = expiry, graceUntil = expiry,
          quarantineUntil = expiry + QUARANTINE_SECONDS, revoked = False\<rparr>)
      else if r_op r = REVOKE then
        \<lparr>liveFrom = r_notBefore r, liveUntil = r_notBefore r, graceUntil = r_notAfter r,
         quarantineUntil = r_notAfter r + QUARANTINE_SECONDS, revoked = True\<rparr>
      else
        (let until_grace = r_notAfter r + GRACE_SECONDS in
         \<lparr>liveFrom = r_notBefore r, liveUntil = r_notAfter r, graceUntil = until_grace,
          quarantineUntil = until_grace + QUARANTINE_SECONDS, revoked = False\<rparr>))"

definition stateAt :: "RegistryRecord \<Rightarrow> int \<Rightarrow> name_state" where
  "stateAt r now =
     (let life = lifecycleOf r in
      if now < liveFrom life then PENDING
      else if now < liveUntil life then LIVE
      else if now < graceUntil life then GRACE
      else if now < quarantineUntil life then QUARANTINE
      else FREE)"

definition isFullyReleased :: "RegistryRecord \<Rightarrow> int \<Rightarrow> bool" where
  "isFullyReleased r now \<longleftrightarrow> now \<ge> quarantineUntil (lifecycleOf r)"

definition acceptsSuccessor :: "RegistryRecord \<Rightarrow> int \<Rightarrow> operation \<Rightarrow> bool" where
  "acceptsSuccessor r now op =
     (let life = lifecycleOf r in
      if revoked life then False
      else if now < liveFrom life then False
      else if op = RENEW then now < graceUntil life else now < liveUntil life)"

lemmas lifecycle_defs = GRACE_SECONDS_def QUARANTINE_SECONDS_def lifecycleOf_def stateAt_def
  isFullyReleased_def acceptsSuccessor_def

text \<open>The states in the order time passes through them.\<close>

instantiation name_state :: linorder
begin

definition phase :: "name_state \<Rightarrow> nat" where
  "phase s = (case s of PENDING \<Rightarrow> 0 | LIVE \<Rightarrow> 1 | GRACE \<Rightarrow> 2 | QUARANTINE \<Rightarrow> 3 | FREE \<Rightarrow> 4)"

definition less_eq_name_state :: "name_state \<Rightarrow> name_state \<Rightarrow> bool" where
  "less_eq_name_state s t \<longleftrightarrow> phase s \<le> phase t"

definition less_name_state :: "name_state \<Rightarrow> name_state \<Rightarrow> bool" where
  "less_name_state s t \<longleftrightarrow> phase s < phase t"

instance
proof
  fix s t u :: name_state
  show "s < t \<longleftrightarrow> s \<le> t \<and> \<not> t \<le> s"
    by (auto simp: less_eq_name_state_def less_name_state_def)
  show "s \<le> s" by (simp add: less_eq_name_state_def)
  show "s \<le> u" if "s \<le> t" "t \<le> u" using that by (simp add: less_eq_name_state_def)
  show "s = t" if "s \<le> t" "t \<le> s"
    using that by (cases s; cases t) (simp_all add: less_eq_name_state_def phase_def)
  show "s \<le> t \<or> t \<le> s" by (auto simp: less_eq_name_state_def)
qed

end

lemmas name_state_order = less_eq_name_state_def less_name_state_def phase_def

lemma lifecycle_ordered:
  assumes "r_notBefore r \<le> r_notAfter r"
  shows "liveFrom (lifecycleOf r) \<le> liveUntil (lifecycleOf r)"
    "liveUntil (lifecycleOf r) \<le> graceUntil (lifecycleOf r)"
    "graceUntil (lifecycleOf r) + QUARANTINE_SECONDS = quarantineUntil (lifecycleOf r)"
  using assms by (auto simp: lifecycleOf_def Let_def GRACE_SECONDS_def)

lemma stateAt_mono: "t \<le> u \<Longrightarrow> stateAt r t \<le> stateAt r u"
  by (auto simp: stateAt_def Let_def name_state_order split: if_splits)

lemma isFullyReleased_mono: "isFullyReleased r t \<Longrightarrow> t \<le> u \<Longrightarrow> isFullyReleased r u"
  by (simp add: isFullyReleased_def)

lemma acceptsSuccessor_state:
  assumes "r_notBefore r \<le> r_notAfter r"
  shows "acceptsSuccessor r now op \<longleftrightarrow>
    r_op r \<noteq> REVOKE \<and> (stateAt r now = LIVE \<or> op = RENEW \<and> stateAt r now = GRACE)"
  using assms by (auto simp: lifecycle_defs Let_def split: if_splits)

subsection \<open>Properties\<close>

text \<open>
  C5. A name moves only forward through pending, live, grace, quarantine and free; the thirty days
  before it is free are quarantine, whatever the last operation was; a successor is accepted
  exactly in the live state, and a renewal in grace too, never after a revocation; and no instant
  both lets a successor in and gives the name back to the pool.
\<close>

theorem lifecycle_phases:
  assumes "r_notBefore r \<le> r_notAfter r"
  shows "(\<forall>t u. t \<le> u \<longrightarrow> stateAt r t \<le> stateAt r u) \<and>
    (\<exists>q \<ge> r_notAfter r. \<forall>now. (isFullyReleased r now \<longleftrightarrow> q + 30 * 86400 \<le> now) \<and>
       (q \<le> now \<and> now < q + 30 * 86400 \<longrightarrow> stateAt r now = QUARANTINE)) \<and>
    (\<forall>now. isFullyReleased r now \<longleftrightarrow> stateAt r now = FREE) \<and>
    (\<forall>now op. acceptsSuccessor r now op \<longleftrightarrow>
       r_op r \<noteq> REVOKE \<and> (stateAt r now = LIVE \<or> op = RENEW \<and> stateAt r now = GRACE)) \<and>
    (\<forall>now op. \<not> (acceptsSuccessor r now op \<and> isFullyReleased r now))"
proof (intro conjI)
  let ?q = "graceUntil (lifecycleOf r)"
  have "r_notAfter r \<le> ?q" by (simp add: lifecycle_defs Let_def)
  moreover have "(isFullyReleased r now \<longleftrightarrow> ?q + 30 * 86400 \<le> now) \<and>
      (?q \<le> now \<and> now < ?q + 30 * 86400 \<longrightarrow> stateAt r now = QUARANTINE)" for now
    using lifecycle_ordered [OF assms]
    by (auto simp: isFullyReleased_def stateAt_def Let_def QUARANTINE_SECONDS_def)
  ultimately show "\<exists>q \<ge> r_notAfter r. \<forall>now. (isFullyReleased r now \<longleftrightarrow> q + 30 * 86400 \<le> now) \<and>
       (q \<le> now \<and> now < q + 30 * 86400 \<longrightarrow> stateAt r now = QUARANTINE)" by blast
  show "\<forall>now. isFullyReleased r now \<longleftrightarrow> stateAt r now = FREE"
    using lifecycle_ordered [OF assms]
    by (auto simp: isFullyReleased_def stateAt_def Let_def QUARANTINE_SECONDS_def)
  then show "\<forall>now op. \<not> (acceptsSuccessor r now op \<and> isFullyReleased r now)"
    using acceptsSuccessor_state [OF assms] by auto
qed (use stateAt_mono acceptsSuccessor_state [OF assms] in blast)+

theorem lifecycle_phases_witness:
  "stateAt sample_register 1000000 \<le> stateAt sample_register 40000000 \<and>
   \<not> (acceptsSuccessor sample_register 40000000 RENEW \<and> isFullyReleased sample_register 40000000)"
proof -
  have "r_notBefore sample_register \<le> r_notAfter sample_register" by (simp add: sample_register_def)
  note * = lifecycle_phases [OF this]
  have "stateAt sample_register 1000000 \<le> stateAt sample_register 40000000"
    using * by (elim conjE allE impE) simp_all
  moreover have "\<not> (acceptsSuccessor sample_register 40000000 RENEW \<and> isFullyReleased sample_register 40000000)"
    using * by (elim conjE) blast
  ultimately show ?thesis ..
qed

end
