(* ===== verification/Verify.thy ===== *)
theory Verify
  imports Lifecycle
begin

section \<open>Verification against registry state\<close>

text \<open>
  registry/src/verify.ts: the verdict on a record received as bytes. \<open>RegistryView\<close> is the
  record of functions the caller supplies. A verdict carries no detail text. \<open>signingInput\<close> is
  called outside the \<open>try\<close> block, so its exception would leave \<open>verify\<close>: the outer \<open>Inl\<close>.

  Lemma \<open>verify_accept_iff\<close> gives the exact conditions of acceptance (\<open>acceptable\<close>);
  the properties of single rules follow from it.
\<close>

definition TERM_SECONDS :: int where "TERM_SECONDS = 31536000"
definition RENEWAL_WINDOW_SECONDS :: int where "RENEWAL_WINDOW_SECONDS = 5184000"
definition MIN_INTERVAL_SECONDS :: int where "MIN_INTERVAL_SECONDS = 300"
definition MAX_CLOCK_SKEW_SECONDS :: int where "MAX_CLOCK_SKEW_SECONDS = 300"
definition MAX_BACKDATE_SECONDS :: int where "MAX_BACKDATE_SECONDS = 86400"
definition SETTLEMENT_SECONDS :: int where "SETTLEMENT_SECONDS = 1209600"

definition VERIFY_ONLY_REJECTIONS :: "rejection list" where
  "VERIFY_ONLY_REJECTIONS =
     [NAME_TAKEN, BACKDATED, BAD_SIG, BAD_POW, NO_PREDECESSOR, TOO_SOON, REVOKED, BAD_OWNER,
      SUITE_DOWNGRADE, UNSETTLED, EXPIRED]"

definition VERIFY_REJECTIONS :: "rejection list" where
  "VERIFY_REJECTIONS = RECORD_REJECTIONS @ VERIFY_ONLY_REJECTIONS"

text \<open>
  An accepted verdict: the record, the hashes of the records it voids if it won a conflict, and
  whether it was held already.
\<close>

datatype verdict =
    Accept RegistryRecord "bytes list option" bool
  | Reject rejection
  | Defer

record Predecessor =
  pd_record :: RegistryRecord
  pd_hash :: bytes
  pd_signerKey :: bytes

record RegistryView =
  v_current :: "jsstr \<Rightarrow> jsstr \<Rightarrow> Predecessor option"
  v_fullyReleased :: "Predecessor \<Rightarrow> int \<Rightarrow> bool"
  v_revoked :: "jsstr \<Rightarrow> jsstr \<Rightarrow> bool"
  v_powVerified :: "RegistryRecord \<Rightarrow> bool"

definition controllingKey :: "Predecessor \<Rightarrow> int \<Rightarrow> bytes" where
  "controllingKey previous t =
     (let prev = pd_record previous in
      if r_op prev = TRANSFER \<and> t < r_notBefore prev + SETTLEMENT_SECONDS
      then pd_signerKey previous
      else r_ownerKey prev)"

definition clockVerdict :: "int \<Rightarrow> int \<Rightarrow> verdict option" where
  "clockVerdict notBefore now =
     (if notBefore > now + MAX_CLOCK_SKEW_SECONDS then Some Defer
      else if notBefore < now - MAX_BACKDATE_SECONDS then Some (Reject BACKDATED)
      else None)"

definition verifyOperation ::
  "crypto \<Rightarrow> RegistryRecord \<Rightarrow> RegistryRecord \<Rightarrow> bytes \<Rightarrow> RegistryView \<Rightarrow> verdict" where
  "verifyOperation C r prev input state =
     (case r_op r of
        UPDATE \<Rightarrow>
          if r_notAfter r \<noteq> r_notAfter prev then Reject BAD_TERM
          else Accept r None False
      | RENEW \<Rightarrow>
          if r_powProof r = None then Reject MISSING_POW
          else if r_notBefore r < r_notAfter prev - RENEWAL_WINDOW_SECONDS then Reject TOO_SOON
          else let base = max (r_notAfter prev) (r_notBefore r) in
            if r_notAfter r \<noteq> base + TERM_SECONDS then Reject BAD_TERM
            else if \<not> v_powVerified state r then Reject BAD_POW
            else Accept r None False
      | TRANSFER \<Rightarrow>
          if bytesEqual (r_ownerKey r) (r_ownerKey prev) then Reject BAD_OWNER
          else if r_notAfter r \<noteq> r_notAfter prev then Reject BAD_TERM
          else if r_notAfter r - r_notBefore r < SETTLEMENT_SECONDS then Reject UNSETTLED
          else (case r_coSig r of
              None \<Rightarrow> Reject BAD_COSIG
            | Some coSig \<Rightarrow>
                if \<not> verifyStrict C (r_ownerKey r) input coSig then Reject BAD_COSIG
                else Accept r None False)
      | RELINQUISH \<Rightarrow>
          if length (r_entries r) \<noteq> 0 then Reject BAD_RECORD_ENTRY
          else if r_notAfter r \<noteq> r_notBefore r then Reject BAD_TERM
          else Accept r None False
      | REVOKE \<Rightarrow>
          if length (r_entries r) \<noteq> 0 then Reject BAD_RECORD_ENTRY
          else if r_notAfter r \<noteq> r_notAfter prev then Reject BAD_TERM
          else Accept r None False
      | REGISTER \<Rightarrow> Reject UNKNOWN_OP)"

definition verifyRegister ::
  "crypto \<Rightarrow> RegistryRecord \<Rightarrow> Predecessor option \<Rightarrow> bytes \<Rightarrow> RegistryView \<Rightarrow> int \<Rightarrow> bool \<Rightarrow> verdict" where
  "verifyRegister C r previous input state now ignoreIncumbent =
     (if r_seq r \<noteq> 0 \<or> \<not> isZeroHash (r_prevHash r) then Reject BAD_CHAIN
      else if (case previous of None \<Rightarrow> False | Some p \<Rightarrow> \<not> v_fullyReleased state p now) \<and> \<not> ignoreIncumbent
        then Reject NAME_TAKEN
      else if r_notAfter r - r_notBefore r \<noteq> TERM_SECONDS then Reject BAD_TERM
      else if \<not> verifyStrict C (r_ownerKey r) input (r_sig r) then Reject BAD_SIG
      else if \<not> v_powVerified state r then Reject BAD_POW
      else case clockVerdict (r_notBefore r) now of Some v \<Rightarrow> v | None \<Rightarrow> Accept r None False)"

definition verifySuccessor ::
  "crypto \<Rightarrow> RegistryRecord \<Rightarrow> Predecessor \<Rightarrow> bytes \<Rightarrow> RegistryView \<Rightarrow> int \<Rightarrow> verdict" where
  "verifySuccessor C r previous input state now =
     (let prev = pd_record previous in
      if r_seq r \<noteq> r_seq prev + 1 then Reject BAD_SEQ
      else if \<not> bytesEqual (r_prevHash r) (pd_hash previous) then Reject BAD_CHAIN
      else if r_notBefore r < r_notBefore prev + MIN_INTERVAL_SECONDS then Reject TOO_SOON
      else if r_suite r < r_suite prev then Reject SUITE_DOWNGRADE
      else if v_revoked state (r_name r) (r_tld r) then Reject REVOKED
      else if \<not> acceptsSuccessor prev now (r_op r) then Reject EXPIRED
      else if r_op prev = TRANSFER \<and> r_notBefore r < r_notBefore prev + SETTLEMENT_SECONDS
          \<and> r_op r \<noteq> TRANSFER then Reject UNSETTLED
      else if \<not> verifyStrict C (controllingKey previous (r_notBefore r)) input (r_sig r) then Reject BAD_SIG
      else case clockVerdict (r_notBefore r) now of
          Some v \<Rightarrow> v
        | None \<Rightarrow>
            if r_op r \<noteq> TRANSFER \<and> \<not> bytesEqual (r_ownerKey r) (r_ownerKey prev) then Reject BAD_OWNER
            else if r_op r \<noteq> RENEW \<and> r_powProof r \<noteq> None then Reject UNEXPECTED_POW
            else verifyOperation C r prev input state)"

definition verifyRecord ::
  "crypto \<Rightarrow> RegistryRecord \<Rightarrow> RegistryView \<Rightarrow> int \<Rightarrow> bool \<Rightarrow> signing_error + verdict" where
  "verifyRecord C r state now ignoreIncumbent =
     bindE (signingInput (r_map r)) (\<lambda>input.
     let previous = v_current state (r_name r) (r_tld r) in
     Inr (if r_op r = REGISTER then verifyRegister C r previous input state now ignoreIncumbent
          else case previous of
              None \<Rightarrow> Reject NO_PREDECESSOR
            | Some p \<Rightarrow> verifySuccessor C r p input state now))"

definition verify ::
  "crypto \<Rightarrow> bytes \<Rightarrow> RegistryView \<Rightarrow> int \<Rightarrow> bool \<Rightarrow> signing_error + verdict" where
  "verify C bs state now ignoreIncumbent =
     (if length bs > MAX_RECORD_BYTES then Inr (Reject TOO_LARGE)
      else case decode bs of
          Inl _ \<Rightarrow> Inr (Reject NON_CANONICAL)
        | Inr (CMap m) \<Rightarrow>
            (case parseRecord m of
               Inl code \<Rightarrow> Inr (Reject code)
             | Inr r \<Rightarrow>
                 (case encode (CMap m) of
                    Inl _ \<Rightarrow> Inr (Reject NON_CANONICAL)
                  | Inr bs' \<Rightarrow>
                      if \<not> bytesEqual bs' bs then Inr (Reject NON_CANONICAL)
                      else verifyRecord C r state now ignoreIncumbent))
        | Inr _ \<Rightarrow> Inr (Reject NOT_A_MAP))"

text \<open>The argument \<open>signerKey\<close> is optional; leaving it out for a TRANSFER is an error.\<close>

definition predecessorFrom ::
  "crypto \<Rightarrow> RegistryRecord \<Rightarrow> bytes \<Rightarrow> bytes option \<Rightarrow> unit + Predecessor" where
  "predecessorFrom C r bs signerKey =
     (if r_op r = TRANSFER \<and> signerKey = None then Inl ()
      else Inr \<lparr>pd_record = r, pd_hash = recordHashFromBytes C bs,
                pd_signerKey = (case signerKey of None \<Rightarrow> r_ownerKey r | Some k \<Rightarrow> k)\<rparr>)"

lemmas verify_constants = TERM_SECONDS_def RENEWAL_WINDOW_SECONDS_def MIN_INTERVAL_SECONDS_def
  MAX_CLOCK_SKEW_SECONDS_def MAX_BACKDATE_SECONDS_def SETTLEMENT_SECONDS_def

subsection \<open>When a record is accepted\<close>

definition in_clock :: "RegistryRecord \<Rightarrow> int \<Rightarrow> bool" where
  "in_clock r now \<longleftrightarrow> now - 86400 \<le> r_notBefore r \<and> r_notBefore r \<le> now + 300"

definition register_ok ::
  "crypto \<Rightarrow> RegistryRecord \<Rightarrow> Predecessor option \<Rightarrow> bytes \<Rightarrow> RegistryView \<Rightarrow> int \<Rightarrow> bool \<Rightarrow> bool" where
  "register_ok C r previous input state now ignoreIncumbent \<longleftrightarrow>
     r_seq r = 0 \<and> r_prevHash r = replicate 32 0 \<and>
     (ignoreIncumbent \<or> (\<forall>p. previous = Some p \<longrightarrow> v_fullyReleased state p now)) \<and>
     r_notAfter r = r_notBefore r + 31536000 \<and>
     verifyStrict C (r_ownerKey r) input (r_sig r) \<and> v_powVerified state r \<and> in_clock r now"

text \<open>What each operation may do with the term, the owner and the entries of its predecessor.\<close>

definition operation_ok :: "crypto \<Rightarrow> RegistryRecord \<Rightarrow> RegistryRecord \<Rightarrow> bytes \<Rightarrow> RegistryView \<Rightarrow> bool" where
  "operation_ok C r prev input state \<longleftrightarrow>
     (case r_op r of
        REGISTER \<Rightarrow> False
      | UPDATE \<Rightarrow> r_ownerKey r = r_ownerKey prev \<and> r_notAfter r = r_notAfter prev
      | RENEW \<Rightarrow> r_ownerKey r = r_ownerKey prev \<and> r_notAfter prev - 5184000 \<le> r_notBefore r \<and>
          r_notAfter r = max (r_notAfter prev) (r_notBefore r) + 31536000 \<and> v_powVerified state r
      | TRANSFER \<Rightarrow> r_ownerKey r \<noteq> r_ownerKey prev \<and> r_notAfter r = r_notAfter prev \<and>
          1209600 \<le> r_notAfter r - r_notBefore r \<and>
          (\<exists>c. r_coSig r = Some c \<and> verifyStrict C (r_ownerKey r) input c)
      | RELINQUISH \<Rightarrow> r_ownerKey r = r_ownerKey prev \<and> r_entries r = [] \<and> r_notAfter r = r_notBefore r
      | REVOKE \<Rightarrow> r_ownerKey r = r_ownerKey prev \<and> r_entries r = [] \<and> r_notAfter r = r_notAfter prev)"

definition unsettled :: "RegistryRecord \<Rightarrow> int \<Rightarrow> bool" where
  "unsettled prev t \<longleftrightarrow> r_op prev = TRANSFER \<and> t < r_notBefore prev + 1209600"

definition successor_ok ::
  "crypto \<Rightarrow> RegistryRecord \<Rightarrow> Predecessor \<Rightarrow> bytes \<Rightarrow> RegistryView \<Rightarrow> int \<Rightarrow> bool" where
  "successor_ok C r previous input state now \<longleftrightarrow>
     (let prev = pd_record previous in
      r_seq r = r_seq prev + 1 \<and> r_prevHash r = pd_hash previous \<and>
      r_notBefore prev + 300 \<le> r_notBefore r \<and> r_suite prev \<le> r_suite r \<and>
      \<not> v_revoked state (r_name r) (r_tld r) \<and> acceptsSuccessor prev now (r_op r) \<and>
      (unsettled prev (r_notBefore r) \<longrightarrow> r_op r = TRANSFER) \<and>
      verifyStrict C (controllingKey previous (r_notBefore r)) input (r_sig r) \<and>
      in_clock r now \<and> operation_ok C r prev input state)"

definition acceptable :: "crypto \<Rightarrow> RegistryRecord \<Rightarrow> bytes \<Rightarrow> RegistryView \<Rightarrow> int \<Rightarrow> bool \<Rightarrow> bool" where
  "acceptable C r input state now ignoreIncumbent \<longleftrightarrow>
     (let previous = v_current state (r_name r) (r_tld r) in
      if r_op r = REGISTER then register_ok C r previous input state now ignoreIncumbent
      else \<exists>p. previous = Some p \<and> successor_ok C r p input state now)"

lemma clockVerdict_None: "clockVerdict (r_notBefore r) now = None \<longleftrightarrow> in_clock r now"
  by (auto simp: clockVerdict_def in_clock_def verify_constants)

lemma clockVerdict_Some: "clockVerdict t now = Some v \<Longrightarrow> v = Defer \<or> v = Reject BACKDATED"
  by (auto simp: clockVerdict_def split: if_splits)

lemma verifyRegister_Accept:
  "verifyRegister C r previous input state now ign = Accept r' voided dup \<longleftrightarrow>
     r' = r \<and> voided = None \<and> \<not> dup \<and> register_ok C r previous input state now ign"
  using clockVerdict_None [of r now]
  by (auto simp: verifyRegister_def register_ok_def verify_constants isZeroHash_iff
      split: if_splits option.splits dest: clockVerdict_Some)

lemma verifyOperation_Accept:
  "verifyOperation C r prev input state = Accept r' voided dup \<Longrightarrow> r' = r \<and> voided = None \<and> \<not> dup"
  by (auto simp: verifyOperation_def Let_def split: operation.splits if_splits option.splits)

lemma verifyOperation_iff:
  assumes "well_formed r" and "r_op r \<noteq> TRANSFER \<longrightarrow> r_ownerKey r = r_ownerKey prev"
  shows "verifyOperation C r prev input state = Accept r None False \<longleftrightarrow> operation_ok C r prev input state"
  using assms
  by (auto simp: verifyOperation_def operation_ok_def well_formed_def verify_constants Let_def max_def
      split: operation.splits if_splits option.splits)

lemma verifySuccessor_Accept:
  assumes "well_formed r"
  shows "verifySuccessor C r p input state now = Accept r' voided dup \<longleftrightarrow>
     r' = r \<and> voided = None \<and> \<not> dup \<and> successor_ok C r p input state now"
proof -
  let ?prev = "pd_record p"
  have pow: "r_op r \<noteq> RENEW \<longrightarrow> r_op r \<noteq> REGISTER \<longrightarrow> r_powProof r = None"
    using assms by (auto simp: well_formed_def)
  have key: "r_op r \<noteq> TRANSFER \<longrightarrow> r_ownerKey r = r_ownerKey ?prev"
    if "operation_ok C r ?prev input state"
    using that by (auto simp: operation_ok_def split: operation.splits)
  have reg: "r_op r \<noteq> REGISTER" if "operation_ok C r ?prev input state"
    using that by (auto simp: operation_ok_def)
  show ?thesis
  proof
    assume a: "verifySuccessor C r p input state now = Accept r' voided dup"
    then have o: "verifyOperation C r ?prev input state = Accept r' voided dup"
      and k: "r_op r \<noteq> TRANSFER \<longrightarrow> r_ownerKey r = r_ownerKey ?prev"
      and c: "in_clock r now"
      using clockVerdict_None [of r now]
      by (auto simp: verifySuccessor_def Let_def split: if_splits option.splits dest: clockVerdict_Some)
    from o have e: "r' = r \<and> voided = None \<and> \<not> dup" by (rule verifyOperation_Accept)
    with o verifyOperation_iff [OF assms k] have "operation_ok C r ?prev input state" by auto
    with a c show "r' = r \<and> voided = None \<and> \<not> dup \<and> successor_ok C r p input state now"
      unfolding e by (auto simp: verifySuccessor_def successor_ok_def unsettled_def Let_def
          verify_constants e split: if_splits)
  next
    assume a: "r' = r \<and> voided = None \<and> \<not> dup \<and> successor_ok C r p input state now"
    then have o: "operation_ok C r ?prev input state" and c: "clockVerdict (r_notBefore r) now = None"
      by (auto simp: successor_ok_def Let_def clockVerdict_None)
    then have "verifyOperation C r ?prev input state = Accept r None False"
      using verifyOperation_iff [OF assms key] by simp
    with a c key [OF o] reg [OF o] pow
    show "verifySuccessor C r p input state now = Accept r' voided dup"
      by (auto simp: verifySuccessor_def successor_ok_def unsettled_def Let_def verify_constants)
  qed
qed

lemma verifyRecord_Accept:
  assumes "well_formed r" "signingInput (r_map r) = Inr input"
  shows "verifyRecord C r state now ign = Inr (Accept r' voided dup) \<longleftrightarrow>
     r' = r \<and> voided = None \<and> \<not> dup \<and> acceptable C r input state now ign"
  using assms(2)
  by (auto simp: verifyRecord_def acceptable_def Let_def verifyRegister_Accept
      verifySuccessor_Accept [OF assms(1)] split: option.splits)

lemma verified_signingInput:
  assumes "parseRecord m = Inr r" "encode (CMap m) = Inr bs"
  shows "\<exists>input. signingInput (r_map r) = Inr input"
proof -
  have "field m ''suite'' = Some (CNum 1)" "r_map r = m"
    using assms(1) unfolding parseRecord_iff by (auto simp: reads_def well_formed_def)
  then show ?thesis using signingInput_total [OF assms(2), of 1] by simp
qed

lemma verify_accept_iff:
  "verify C bs state now ign = Inr (Accept r voided dup) \<longleftrightarrow>
     length bs \<le> 4096 \<and> decode bs = Inr (CMap (r_map r)) \<and> encode (CMap (r_map r)) = Inr bs \<and>
     parseRecord (r_map r) = Inr r \<and> voided = None \<and> \<not> dup \<and>
     (\<exists>input. signingInput (r_map r) = Inr input \<and> acceptable C r input state now ign)"
proof
  assume a: "verify C bs state now ign = Inr (Accept r voided dup)"
  then obtain m r0 where m: "decode bs = Inr (CMap m)" "parseRecord m = Inr r0" "encode (CMap m) = Inr bs"
    and l: "length bs \<le> 4096"
    and v: "verifyRecord C r0 state now ign = Inr (Accept r voided dup)"
    by (auto simp: verify_def MAX_RECORD_BYTES_def split: if_splits sum.splits cbor.splits)
  obtain input where i: "signingInput (r_map r0) = Inr input"
    using verified_signingInput [OF m(2,3)] by blast
  have r: "r_map r0 = m" using m(2) by simp
  show "length bs \<le> 4096 \<and> decode bs = Inr (CMap (r_map r)) \<and> encode (CMap (r_map r)) = Inr bs \<and>
     parseRecord (r_map r) = Inr r \<and> voided = None \<and> \<not> dup \<and>
     (\<exists>input. signingInput (r_map r) = Inr input \<and> acceptable C r input state now ign)"
    using v m l i r unfolding verifyRecord_Accept [OF parseRecord_well_formed [OF m(2)] i] by auto
next
  assume a: "length bs \<le> 4096 \<and> decode bs = Inr (CMap (r_map r)) \<and> encode (CMap (r_map r)) = Inr bs \<and>
     parseRecord (r_map r) = Inr r \<and> voided = None \<and> \<not> dup \<and>
     (\<exists>input. signingInput (r_map r) = Inr input \<and> acceptable C r input state now ign)"
  then obtain input where i: "signingInput (r_map r) = Inr input" "acceptable C r input state now ign"
    by blast
  have "well_formed r" using a parseRecord_well_formed by blast
  from verifyRecord_Accept [OF this i(1)] a i(2)
  show "verify C bs state now ign = Inr (Accept r voided dup)"
    by (simp add: verify_def MAX_RECORD_BYTES_def)
qed

lemma verify_total: "\<exists>v. verify C bs state now ign = Inr v"
proof -
  have "\<exists>v. verifyRecord C r state now ign = Inr v"
    if "parseRecord m = Inr r" "encode (CMap m) = Inr bs" for m r bs
    using verified_signingInput [OF that] by (auto simp: verifyRecord_def Let_def)
  then show ?thesis
    by (auto simp: verify_def split: sum.splits cbor.splits)
qed

lemma verify_accept_cases:
  assumes "verify C bs state now ign = Inr (Accept r voided dup)"
  obtains (register) input where "well_formed r" "signingInput (r_map r) = Inr input" "r_op r = REGISTER"
      "register_ok C r (v_current state (r_name r) (r_tld r)) input state now ign"
  | (successor) input p where "well_formed r" "signingInput (r_map r) = Inr input" "r_op r \<noteq> REGISTER"
      "v_current state (r_name r) (r_tld r) = Some p" "successor_ok C r p input state now"
proof -
  obtain input where i: "signingInput (r_map r) = Inr input" "acceptable C r input state now ign"
    and w: "well_formed r"
    using assms parseRecord_well_formed unfolding verify_accept_iff by blast
  show ?thesis
  proof (cases "r_op r = REGISTER")
    case True
    then show ?thesis using register [OF w i(1)] i(2) by (simp add: acceptable_def Let_def)
  next
    case False
    then show ?thesis using successor [OF w i(1)] i(2) by (auto simp: acceptable_def Let_def)
  qed
qed

lemma verify_Defer:
  assumes "verify C bs state now ign = Inr Defer"
  obtains m r input where "decode bs = Inr (CMap m)" "encode (CMap m) = Inr bs" "parseRecord m = Inr r"
    "signingInput m = Inr input" "verifyRecord C r state now ign = Inr Defer"
proof -
  obtain m r where m: "decode bs = Inr (CMap m)" "parseRecord m = Inr r" "encode (CMap m) = Inr bs"
    "verifyRecord C r state now ign = Inr Defer"
    using assms by (auto simp: verify_def split: if_splits sum.splits cbor.splits)
  moreover obtain input where "signingInput (r_map r) = Inr input"
    using verified_signingInput [OF m(2,3)] by blast
  ultimately show ?thesis using that by simp
qed

subsection \<open>A sample view\<close>

definition sample_view :: "Predecessor option \<Rightarrow> RegistryView" where
  "sample_view p =
     \<lparr>v_current = (\<lambda>_ _. p), v_fullyReleased = (\<lambda>p now. isFullyReleased (pd_record p) now),
      v_revoked = (\<lambda>_ _. False), v_powVerified = (\<lambda>_. True)\<rparr>"

text \<open>A pending transfer from key 9 to key 7, and its cancellation by key 9.\<close>

definition sample_pending :: Predecessor where
  "sample_pending =
     \<lparr>pd_record = sample_register\<lparr>r_op := TRANSFER, r_seq := 1\<rparr>,
      pd_hash = replicate 32 1, pd_signerKey = replicate 32 9\<rparr>"

lemma sample_accept_register:
  "verify sample_crypto (sample_bytes sample_register_map) (sample_view None) 1000000 False =
     Inr (Accept sample_register None False)"
proof -
  obtain input where "signingInput (r_map sample_register) = Inr input"
    using verified_signingInput sample_parse(1) sample_register_encode by blast
  moreover have "acceptable sample_crypto sample_register input (sample_view None) 1000000 False"
    using sample_verifies [of 7 input]
    by (simp add: acceptable_def register_ok_def sample_register_def sample_view_def in_clock_def)
  ultimately show ?thesis
    using sample_register_encode sample_decode(1) sample_parse(1) unfolding verify_accept_iff by fastforce
qed

lemma sample_accept_cancel:
  "verify sample_crypto (sample_bytes sample_transfer_map) (sample_view (Some sample_pending)) 1000700 False =
     Inr (Accept sample_transfer None False)"
proof -
  obtain input where "signingInput (r_map sample_transfer) = Inr input"
    using verified_signingInput sample_parse(2) sample_transfer_encode by blast
  moreover have "acceptable sample_crypto sample_transfer input (sample_view (Some sample_pending)) 1000700 False"
    using sample_verifies [of 9 input]
    by (simp add: acceptable_def successor_ok_def sample_transfer_def sample_pending_def sample_register_def
        sample_view_def in_clock_def Let_def lifecycle_defs operation_ok_def controllingKey_def
        SETTLEMENT_SECONDS_def)
  ultimately show ?thesis
    using sample_transfer_encode sample_decode(2) sample_parse(2) unfolding verify_accept_iff by fastforce
qed

subsection \<open>Properties\<close>

text \<open>
  C1. Exactly what is accepted: bytes within the limit that are the deterministic encoding of their
  own map, that parse to the accepted record, and that meet every rule of \<open>acceptable\<close> for its
  operation - chain, term, authority, countersignature, proof of work, clock. The verifier voids
  nothing and reports no duplicate itself.
\<close>

theorem verify_accepts_exactly:
  "verify C bs state now ign = Inr (Accept r voided dup) \<longleftrightarrow>
     length bs \<le> 4096 \<and> decode bs = Inr (CMap (r_map r)) \<and> encode (CMap (r_map r)) = Inr bs \<and>
     parseRecord (r_map r) = Inr r \<and> voided = None \<and> \<not> dup \<and>
     (\<exists>input. signingInput (r_map r) = Inr input \<and> acceptable C r input state now ign)"
  by (rule verify_accept_iff)

text \<open>
  Verification always returns a verdict: no input makes it throw, although the signing input is
  built outside the handler that turns exceptions into rejections.
\<close>

theorem verify_never_throws: "\<exists>v. verify C bs state now ign = Inr v"
  by (rule verify_total)

text \<open>
  C2. The settlement delay. While a transfer is settling, the only successor accepted is another
  transfer signed by the key that signed the pending one; from the fourteenth day on a successor must
  be signed by the recipient's key. (A registration is accepted over it only when the name has been
  fully released, or when the caller asks to ignore the incumbent.)
\<close>

theorem settlement_control:
  assumes "verify C bs state now False = Inr (Accept r voided dup)"
    and "v_current state (r_name r) (r_tld r) = Some p" and "r_op (pd_record p) = TRANSFER"
    and "\<not> v_fullyReleased state p now"
  shows "\<exists>input. signingInput (r_map r) = Inr input \<and>
    (if r_notBefore r < r_notBefore (pd_record p) + 14 * 86400
     then r_op r = TRANSFER \<and> verifyStrict C (pd_signerKey p) input (r_sig r)
     else r_op r \<noteq> REGISTER \<and> verifyStrict C (r_ownerKey (pd_record p)) input (r_sig r))"
  using assms(1)
proof (cases rule: verify_accept_cases)
  case (register input)
  then show ?thesis using assms(2,4) by (simp add: register_ok_def)
next
  case (successor input q)
  then show ?thesis
    using assms(2,3)
    by (auto simp: successor_ok_def Let_def unsettled_def controllingKey_def SETTLEMENT_SECONDS_def)
qed

theorem settlement_control_witness:
  "\<exists>input. signingInput sample_transfer_map = Inr input \<and>
     verifyStrict sample_crypto (replicate 32 9) input (r_sig sample_transfer)"
proof -
  have "v_current (sample_view (Some sample_pending)) (r_name sample_transfer) (r_tld sample_transfer) =
      Some sample_pending" "r_op (pd_record sample_pending) = TRANSFER"
    "\<not> v_fullyReleased (sample_view (Some sample_pending)) sample_pending 1000700"
    by (simp_all add: sample_view_def sample_pending_def lifecycle_defs Let_def sample_register_def)
  from settlement_control [OF sample_accept_cancel this]
  show ?thesis by (auto simp: sample_pending_def sample_transfer_def sample_register_def)
qed

text \<open>
  C6. A gap in the settlement window. When less than twenty-eight days of the term are left at the
  transfer, the countermanding transfer must itself leave fourteen days to settle in, so from
  fourteen days before expiry on the transferor can no longer cancel, although the transfer has not
  settled: no successor dated in that part of the window is accepted.
\<close>

theorem settlement_cancellation_gap:
  assumes "v_current state (r_name r) (r_tld r) = Some p" and "r_op (pd_record p) = TRANSFER"
    and "\<not> v_fullyReleased state p now"
    and "r_notAfter (pd_record p) - 14 * 86400 < r_notBefore r"
    and "r_notBefore r < r_notBefore (pd_record p) + 14 * 86400"
  shows "verify C bs state now False \<noteq> Inr (Accept r voided dup)"
proof
  assume "verify C bs state now False = Inr (Accept r voided dup)"
  then show False
  proof (cases rule: verify_accept_cases)
    case (register input)
    then show ?thesis using assms by (simp add: register_ok_def)
  next
    case (successor input q)
    then show ?thesis
      using assms
      by (auto simp: successor_ok_def operation_ok_def Let_def unsettled_def split: operation.splits)
  qed
qed

theorem settlement_cancellation_gap_witness:
  "\<forall>bs voided dup. verify sample_crypto bs
     (sample_view (Some (sample_pending\<lparr>pd_record := (pd_record sample_pending)\<lparr>r_notAfter := 2500000\<rparr>\<rparr>)))
     1800000 False \<noteq> Inr (Accept (sample_transfer\<lparr>r_notBefore := 1800000\<rparr>) voided dup)"
proof (intro allI)
  fix bs voided dup
  let ?p = "sample_pending\<lparr>pd_record := (pd_record sample_pending)\<lparr>r_notAfter := 2500000\<rparr>\<rparr>"
  show "verify sample_crypto bs (sample_view (Some ?p)) 1800000 False \<noteq>
      Inr (Accept (sample_transfer\<lparr>r_notBefore := 1800000\<rparr>) voided dup)"
    by (rule settlement_cancellation_gap [where p = ?p])
      (simp_all add: sample_view_def sample_pending_def sample_transfer_def sample_register_def
        lifecycle_defs Let_def)
qed

text \<open>
  No term is bought in advance. A registration or renewal accepted at \<open>now\<close> ends at most a
  year, sixty days and the five minutes of tolerated skew later, and every other operation leaves
  the end of the term where it was or, for a relinquishment, ends it at once.
\<close>

theorem accepted_term_bounded:
  assumes "verify C bs state now ign = Inr (Accept r voided dup)"
  shows "now - 86400 \<le> r_notBefore r \<and> r_notBefore r \<le> now + 300 \<and>
    (if r_op r = REGISTER \<or> r_op r = RENEW then r_notAfter r \<le> now + 300 + 60 * 86400 + 365 * 86400
     else \<exists>p. v_current state (r_name r) (r_tld r) = Some p \<and>
       r_notAfter r = (if r_op r = RELINQUISH then r_notBefore r else r_notAfter (pd_record p)))"
  using assms
proof (cases rule: verify_accept_cases)
  case (register input)
  then show ?thesis by (auto simp: register_ok_def in_clock_def)
next
  case (successor input p)
  then show ?thesis
    by (auto simp: successor_ok_def in_clock_def operation_ok_def Let_def max_def
        split: operation.splits if_splits)
qed

theorem accepted_term_bounded_witness:
  "r_notAfter sample_register \<le> 1000000 + 300 + 60 * 86400 + 365 * 86400"
  using accepted_term_bounded [OF sample_accept_register] by (simp add: sample_register_def)

text \<open>
  A deferral is earned: a record is held for later only if it is dated ahead of the clock, its
  encoding is canonical, and it carries a signature by the key in control - and, for a
  registration, a proof of work and a name that is free.
\<close>

theorem defer_is_earned:
  assumes "verify C bs state now ign = Inr Defer"
  shows "\<exists>r input. parseRecord (r_map r) = Inr r \<and> encode (CMap (r_map r)) = Inr bs \<and>
    signingInput (r_map r) = Inr input \<and> now + 300 < r_notBefore r \<and>
    (if r_op r = REGISTER then verifyStrict C (r_ownerKey r) input (r_sig r) \<and> v_powVerified state r \<and>
        (ign \<or> (\<forall>p. v_current state (r_name r) (r_tld r) = Some p \<longrightarrow> v_fullyReleased state p now))
     else \<exists>p. v_current state (r_name r) (r_tld r) = Some p \<and> r_prevHash r = pd_hash p \<and>
        verifyStrict C (controllingKey p (r_notBefore r)) input (r_sig r))"
proof -
  obtain m r input where m: "decode bs = Inr (CMap m)" "encode (CMap m) = Inr bs" "parseRecord m = Inr r"
    "signingInput m = Inr input" and d: "verifyRecord C r state now ign = Inr Defer"
    using verify_Defer [OF assms] by metis
  have r: "r_map r = m" using m(3) by simp
  have clock: "now + 300 < t" if "clockVerdict t now = Some Defer" for t
    using that by (auto simp: clockVerdict_def verify_constants split: if_splits)
  have opd: "verifyOperation C r prev input state \<noteq> Defer" for prev
    by (auto simp: verifyOperation_def Let_def split: operation.splits option.splits)
  show ?thesis
    using d m r opd
    by (intro exI [of _ r] exI [of _ input])
      (auto simp: verifyRecord_def verifyRegister_def verifySuccessor_def Let_def
        split: if_splits option.splits dest!: clock)
qed

theorem defer_is_earned_witness:
  "\<exists>r. parseRecord (r_map r) = Inr r \<and> encode (CMap (r_map r)) = Inr (sample_bytes sample_register_map) \<and>
     900000 + 300 < r_notBefore r"
proof -
  obtain input where i: "signingInput sample_register_map = Inr input"
    using verified_signingInput sample_parse(1) sample_register_encode by (metis sample_map_of(1))
  have "verify sample_crypto (sample_bytes sample_register_map) (sample_view None) 900000 False = Inr Defer"
    using sample_verifies [of 7 input] sample_register_encode i
    by (simp add: verify_def MAX_RECORD_BYTES_def sample_decode sample_parse verifyRecord_def
        verifyRegister_def sample_view_def clockVerdict_def verify_constants isZeroHash_iff
        sample_register_def)
  from defer_is_earned [OF this] show ?thesis by blast
qed

end
