(* ===== verification/Messages.thy ===== *)
theory Messages
  imports Converge Verify
begin

section \<open>Replication messages and equivocation evidence\<close>

text \<open>
  registry/src/replicate.ts, the part without a session: the bounds, the five messages and their
  encoding, and the check of equivocation evidence. A thrown \<open>ReplicationError\<close> is its code,
  an exception of the CBOR encoder is kept apart from it. The description texts of
  \<open>MESSAGE_TYPES\<close> and of the errors are left out.
\<close>

definition PROTOCOL_VERSION :: int where "PROTOCOL_VERSION = 1"

record limits =
  messageBytes :: nat
  wantCount :: int
  recordsPerBatch :: nat
  recordBytes :: nat
  outstandingWants :: nat
  wantDeadlineSeconds :: int
  deferred :: nat

definition LIMITS :: limits where
  "LIMITS =
     \<lparr>messageBytes = 65536, wantCount = 256, recordsPerBatch = 256, recordBytes = 4096,
      outstandingWants = 8, wantDeadlineSeconds = 60, deferred = 1024\<rparr>"

definition RECORDS_ENVELOPE_BYTES :: nat where "RECORDS_ENVELOPE_BYTES = 64"

lemma limits_simps [simp]:
  "messageBytes LIMITS = 65536" "wantCount LIMITS = 256" "recordsPerBatch LIMITS = 256"
  "recordBytes LIMITS = 4096" "outstandingWants LIMITS = 8" "wantDeadlineSeconds LIMITS = 60"
  "deferred LIMITS = 1024"
  by (simp_all add: LIMITS_def)

text \<open>The tagged union \<open>Message\<close>, the fields in the order of the interfaces.\<close>

datatype message =
    HELLO (h_v: int) (h_len: int) (h_root: bytes)
  | WANT (w_from: int) (w_count: int)
  | RECORDS (r_from: int) (r_recs: "bytes list")
  | CHECKPOINT (c_len: int) (c_treeRoot: bytes) (c_indexRoot: bytes) (c_liveNames: int)
  | EQUIVOCATION bytes bytes

datatype replication_rejection =
    MESSAGE_TOO_LARGE | MESSAGE_NON_CANONICAL | MALFORMED | UNKNOWN_TYPE | MESSAGE_UNSUPPORTED_VERSION
  | HELLO_EXPECTED | HELLO_REPEATED | LIMIT_EXCEEDED | NOT_EQUIVOCATION

datatype message_error = REPLICATION replication_rejection | ENCODING cbor_error

subsection \<open>Encoding\<close>

definition message_map :: "message \<Rightarrow> cbor_map" where
  "message_map m =
     (case m of
        HELLO v len digest \<Rightarrow>
          [(KText (js ''t''), CText (js ''HELLO'')), (KText (js ''v''), CNum v),
           (KText (js ''len''), CNum len), (KText (js ''root''), CBytes digest)]
      | WANT start n \<Rightarrow>
          [(KText (js ''t''), CText (js ''WANT'')), (KText (js ''from''), CNum start),
           (KText (js ''count''), CNum n)]
      | RECORDS start recs \<Rightarrow>
          [(KText (js ''t''), CText (js ''RECORDS'')), (KText (js ''from''), CNum start),
           (KText (js ''recs''), CArr (map CBytes recs))]
      | CHECKPOINT len treeRoot indexRoot liveNames \<Rightarrow>
          [(KText (js ''t''), CText (js ''CHECKPOINT'')), (KText (js ''len''), CNum len),
           (KText (js ''treeRoot''), CBytes treeRoot), (KText (js ''indexRoot''), CBytes indexRoot),
           (KText (js ''liveNames''), CNum liveNames)]
      | EQUIVOCATION a b \<Rightarrow>
          [(KText (js ''t''), CText (js ''EQUIVOCATION'')), (KText (js ''a''), CBytes a),
           (KText (js ''b''), CBytes b)])"

definition encodeMessage :: "message \<Rightarrow> message_error + bytes" where
  "encodeMessage m =
     (case encode (CMap (message_map m)) of
        Inl e \<Rightarrow> Inl (ENCODING e)
      | Inr bs \<Rightarrow> failIf (length bs > messageBytes LIMITS) (REPLICATION MESSAGE_TOO_LARGE) (Inr bs))"

subsection \<open>Decoding\<close>

definition uint :: "cbor_map \<Rightarrow> string \<Rightarrow> message_error + int" where
  "uint m key =
     (case field m key of
        Some (CNum n) \<Rightarrow>
          failIf (n > MAX_SAFE_INTEGER \<or> n < - MAX_SAFE_INTEGER \<or> n < 0) (REPLICATION MALFORMED) (Inr n)
      | _ \<Rightarrow> Inl (REPLICATION MALFORMED))"

definition bstr :: "cbor_map \<Rightarrow> string \<Rightarrow> nat option \<Rightarrow> message_error + bytes" where
  "bstr m key len =
     (case field m key of
        Some (CBytes b) \<Rightarrow>
          failIf (case len of None \<Rightarrow> False | Some n \<Rightarrow> length b \<noteq> n) (REPLICATION MALFORMED) (Inr b)
      | _ \<Rightarrow> Inl (REPLICATION MALFORMED))"

definition byte_string :: "cbor \<Rightarrow> message_error + bytes" where
  "byte_string v = (case v of CBytes b \<Rightarrow> Inr b | _ \<Rightarrow> Inl (REPLICATION MALFORMED))"

definition decode_fields :: "cbor_map \<Rightarrow> jsstr \<Rightarrow> message_error + message" where
  "decode_fields m type =
     (if type = js ''HELLO'' then
        bindE (uint m ''v'') (\<lambda>v. bindE (uint m ''len'') (\<lambda>len. bindE (bstr m ''root'' (Some 32)) (\<lambda>digest.
          Inr (HELLO v len digest))))
      else if type = js ''WANT'' then
        bindE (uint m ''from'') (\<lambda>start. bindE (uint m ''count'') (\<lambda>n. Inr (WANT start n)))
      else if type = js ''RECORDS'' then
        (case field m ''recs'' of
           Some (CArr recs) \<Rightarrow>
             failIf (length recs > recordsPerBatch LIMITS) (REPLICATION LIMIT_EXCEEDED)
               (bindE (mapE byte_string recs) (\<lambda>out.
                bindE (uint m ''from'') (\<lambda>start. Inr (RECORDS start out))))
         | _ \<Rightarrow> Inl (REPLICATION MALFORMED))
      else if type = js ''CHECKPOINT'' then
        bindE (uint m ''len'') (\<lambda>len. bindE (bstr m ''treeRoot'' (Some 32)) (\<lambda>treeRoot.
        bindE (bstr m ''indexRoot'' (Some 32)) (\<lambda>indexRoot. bindE (uint m ''liveNames'') (\<lambda>liveNames.
          Inr (CHECKPOINT len treeRoot indexRoot liveNames)))))
      else if type = js ''EQUIVOCATION'' then
        bindE (bstr m ''a'' None) (\<lambda>a. bindE (bstr m ''b'' None) (\<lambda>b. Inr (EQUIVOCATION a b)))
      else Inl (REPLICATION UNKNOWN_TYPE))"

definition decodeMessage :: "bytes \<Rightarrow> message_error + message" where
  "decodeMessage bs =
     failIf (length bs > messageBytes LIMITS) (REPLICATION MESSAGE_TOO_LARGE)
       (case decode bs of
          Inl _ \<Rightarrow> Inl (REPLICATION MESSAGE_NON_CANONICAL)
        | Inr (CMap m) \<Rightarrow>
            (case field m ''t'' of
               Some (CText type) \<Rightarrow> decode_fields m type
             | _ \<Rightarrow> Inl (REPLICATION MALFORMED))
        | Inr _ \<Rightarrow> Inl (REPLICATION MALFORMED))"

subsection \<open>Equivocation evidence\<close>

datatype evidence_error = EV_CONVERGE converge_error | EV_SIGNING signing_error

definition signedByNamedOwner :: "crypto \<Rightarrow> RegistryRecord \<Rightarrow> signing_error + bool" where
  "signedByNamedOwner C r =
     (case (if r_op r = TRANSFER then r_coSig r else Some (r_sig r)) of
        None \<Rightarrow> Inr False
      | Some signature \<Rightarrow>
          bindE (signingInput (r_map r)) (\<lambda>input. Inr (verifyStrict C (r_ownerKey r) input signature)))"

definition evidence_candidate :: "crypto \<Rightarrow> bytes \<Rightarrow> rejection + Candidate" where
  "evidence_candidate C bs =
     bindE (parseRecordBytes bs) (\<lambda>r.
       Inr \<lparr>c_record = r, c_hash = recordHashFromBytes C bs, c_logIndex = None, c_valid = True\<rparr>)"

definition verifyEquivocation :: "crypto \<Rightarrow> bytes \<Rightarrow> bytes \<Rightarrow> evidence_error + bool" where
  "verifyEquivocation C a b =
     (if length a > recordBytes LIMITS \<or> length b > recordBytes LIMITS then Inr False
      else case (evidence_candidate C a, evidence_candidate C b) of
          (Inr left, Inr right) \<Rightarrow>
            (case isEquivocation left right of
               Inl e \<Rightarrow> Inl (EV_CONVERGE e)
             | Inr False \<Rightarrow> Inr False
             | Inr True \<Rightarrow>
                 (case signedByNamedOwner C (c_record left) of
                    Inl e \<Rightarrow> Inl (EV_SIGNING e)
                  | Inr False \<Rightarrow> Inr False
                  | Inr True \<Rightarrow>
                      (case signedByNamedOwner C (c_record right) of
                         Inl e \<Rightarrow> Inl (EV_SIGNING e)
                       | Inr ok \<Rightarrow> Inr ok)))
        | _ \<Rightarrow> Inr False)"

subsection \<open>Records that parse\<close>

lemma parseRecordBytes_signingInput:
  assumes "parseRecordBytes bs = Inr r"
  shows "\<exists>i. signingInput (r_map r) = Inr i"
  using parseRecordBytes_encode(1,2) [OF assms] by (rule verified_signingInput [rotated])

definition signed_by_owner :: "crypto \<Rightarrow> RegistryRecord \<Rightarrow> bool" where
  "signed_by_owner C r \<longleftrightarrow>
     (\<exists>s i. (if r_op r = TRANSFER then r_coSig r else Some (r_sig r)) = Some s \<and>
        signingInput (r_map r) = Inr i \<and> verifyStrict C (r_ownerKey r) i s)"

lemma signedByNamedOwner_eq:
  assumes "parseRecordBytes bs = Inr r"
  shows "signedByNamedOwner C r = Inr (signed_by_owner C r)"
proof -
  obtain i where "signingInput (r_map r) = Inr i"
    using parseRecordBytes_signingInput [OF assms] by blast
  then show ?thesis
    by (cases "if r_op r = TRANSFER then r_coSig r else Some (r_sig r)")
      (simp_all add: signedByNamedOwner_def signed_by_owner_def)
qed

text \<open>
  What evidence shows: two records for one name at one \<open>seq\<close>, both signed by the owner they name,
  that are not the same record.
\<close>

definition equivocates :: "crypto \<Rightarrow> bytes \<Rightarrow> bytes \<Rightarrow> bool" where
  "equivocates C a b \<longleftrightarrow>
     (\<exists>r s. parseRecordBytes a = Inr r \<and> parseRecordBytes b = Inr s \<and>
        r_name r = r_name s \<and> r_tld r = r_tld s \<and> r_seq r = r_seq s \<and> r_ownerKey r = r_ownerKey s \<and>
        recordHashFromBytes C a \<noteq> recordHashFromBytes C b \<and> signed_by_owner C r \<and> signed_by_owner C s)"

lemma recordHash_length: "hash_length_ok C \<Longrightarrow> length (recordHashFromBytes C bs) = 32"
  by (simp add: recordHashFromBytes_def hash_length_ok_def)

lemma isEquivocation_eq:
  assumes "length (c_hash x) = length (c_hash y)"
  shows "isEquivocation x y =
    Inr (r_name (c_record x) = r_name (c_record y) \<and> r_tld (c_record x) = r_tld (c_record y) \<and>
      r_seq (c_record x) = r_seq (c_record y) \<and> c_hash x \<noteq> c_hash y \<and>
      r_ownerKey (c_record x) = r_ownerKey (c_record y))"
  using assms by (auto simp: isEquivocation_def conflicts_def compareHashes_def compareBytes_eq)

lemma verifyEquivocation_eq:
  assumes "hash_length_ok C"
  shows "verifyEquivocation C a b = Inr (equivocates C a b)"
proof -
  have small: "length bs \<le> 4096" if "parseRecordBytes bs = Inr r" for bs r
    using parseRecordBytes_encode(3) [OF that] .
  show ?thesis
  proof (cases "parseRecordBytes a")
    case (Inl e)
    then show ?thesis by (simp add: verifyEquivocation_def evidence_candidate_def equivocates_def)
  next
    case a: (Inr r)
    show ?thesis
    proof (cases "parseRecordBytes b")
      case (Inl e)
      then show ?thesis by (simp add: verifyEquivocation_def evidence_candidate_def equivocates_def a)
    next
      case b: (Inr s)
      show ?thesis
        using small [OF a] small [OF b]
        by (auto simp: verifyEquivocation_def evidence_candidate_def equivocates_def a b
            isEquivocation_eq recordHash_length [OF assms] signedByNamedOwner_eq [OF a]
            signedByNamedOwner_eq [OF b] split: bool.split)
    qed
  qed
qed

subsection \<open>The encoding of a message decodes to it\<close>

lemma mapE_byte_string: "mapE byte_string (map CBytes bs) = Inr bs"
  by (induction bs) (simp_all add: byte_string_def)

definition valid_message :: "message \<Rightarrow> bool" where
  "valid_message m \<longleftrightarrow>
     (case m of
        HELLO v len digest \<Rightarrow> length digest = 32
      | WANT start n \<Rightarrow> True
      | RECORDS start recs \<Rightarrow> length recs \<le> 256
      | CHECKPOINT len treeRoot indexRoot liveNames \<Rightarrow> length treeRoot = 32 \<and> length indexRoot = 32
      | EQUIVOCATION a b \<Rightarrow> True)"

lemma uint_back:
  "field c key = Some (CNum n) \<Longrightarrow> 0 \<le> n \<and> n \<le> MAX_SAFE_INTEGER \<Longrightarrow> uint c key = Inr n"
  by (auto simp: uint_def MAX_SAFE_INTEGER_def)

lemma bstr_back:
  "field c key = Some (CBytes b) \<Longrightarrow> (case len of None \<Rightarrow> True | Some n \<Rightarrow> length b = n) \<Longrightarrow> bstr c key len = Inr b"
  by (auto simp: bstr_def split: option.splits)

lemma message_back:
  assumes "encodeMessage m = Inr bs" "valid_message m"
  shows "decodeMessage bs = Inr m"
proof -
  have e: "encode (CMap (message_map m)) = Inr bs" and l: "length bs \<le> 65536"
    using assms(1) by (auto simp: encodeMessage_def split: sum.splits if_splits)
  obtain c where c: "decode bs = Inr (CMap c)" "\<forall>k. map_of c k = map_option canon (map_of (message_map m) k)"
    by (rule decode_map [OF e])
  have num: "0 \<le> n \<and> n \<le> MAX_SAFE_INTEGER" if "(k, CNum n) \<in> set (message_map m)" for k n
    using encode_map_value [OF e that] encode_number by blast
  note mm = message_map_def
  show ?thesis
  proof (cases m)
    case (HELLO v len digest)
    then show ?thesis
      using l c num [of "KText (js ''v'')" v] num [of "KText (js ''len'')" len] assms(2)
      by (simp add: decodeMessage_def decode_fields_def mm uint_back bstr_back valid_message_def del: js_simps)
  next
    case (WANT start n)
    then show ?thesis
      using l c num [of "KText (js ''from'')" start] num [of "KText (js ''count'')" n]
      by (simp add: decodeMessage_def decode_fields_def mm uint_back del: js_simps)
  next
    case (RECORDS start recs)
    then show ?thesis
      using l c num [of "KText (js ''from'')" start] assms(2) mapE_byte_string [of recs]
      by (simp add: decodeMessage_def decode_fields_def mm uint_back valid_message_def comp_def del: js_simps)
  next
    case (CHECKPOINT len treeRoot indexRoot liveNames)
    then show ?thesis
      using l c num [of "KText (js ''len'')" len] num [of "KText (js ''liveNames'')" liveNames] assms(2)
      by (simp add: decodeMessage_def decode_fields_def mm uint_back bstr_back valid_message_def del: js_simps)
  next
    case (EQUIVOCATION a b)
    then show ?thesis
      using l c by (simp add: decodeMessage_def decode_fields_def mm bstr_back del: js_simps)
  qed
qed

lemma bstr_length: "bstr m key (Some n) = Inr b \<Longrightarrow> length b = n"
  by (auto simp: bstr_def split: option.splits cbor.splits if_splits)

lemma decode_fields_valid: "decode_fields m type = Inr x \<Longrightarrow> valid_message x"
  by (auto simp: decode_fields_def valid_message_def bindE_eq_Inr simp del: js_simps
      split: if_splits option.splits cbor.splits dest: bstr_length mapE_length)

lemma decodeMessage_valid: "decodeMessage bs = Inr m \<Longrightarrow> valid_message m \<and> length bs \<le> 65536"
  by (auto simp: decodeMessage_def split: if_splits sum.splits cbor.splits option.splits
      dest: decode_fields_valid)

subsection \<open>Typed messages\<close>

text \<open>
  The types of the messages: numbers are safe integers that are not negative, digests and batches
  have their sizes.
\<close>

definition safe_nat :: "int \<Rightarrow> bool" where
  "safe_nat n \<longleftrightarrow> 0 \<le> n \<and> n \<le> MAX_SAFE_INTEGER"

definition typed_message :: "message \<Rightarrow> bool" where
  "typed_message m \<longleftrightarrow> valid_message m \<and>
     (case m of
        HELLO v len digest \<Rightarrow> safe_nat v \<and> safe_nat len
      | WANT start n \<Rightarrow> safe_nat start \<and> safe_nat n
      | RECORDS start recs \<Rightarrow> safe_nat start
      | CHECKPOINT len treeRoot indexRoot liveNames \<Rightarrow> safe_nat len \<and> safe_nat liveNames
      | EQUIVOCATION a b \<Rightarrow> True)"

lemma uint_safe: "uint m key = Inr n \<Longrightarrow> safe_nat n"
  by (auto simp: uint_def safe_nat_def split: option.splits cbor.splits if_splits)

lemma decode_fields_typed: "decode_fields m type = Inr x \<Longrightarrow> typed_message x"
  using decode_fields_valid [of m type x]
  by (auto simp: typed_message_def decode_fields_def bindE_eq_Inr simp del: js_simps
      split: if_splits option.splits cbor.splits dest: uint_safe)

lemma mapE_byte_string_Inl: "mapE byte_string es = Inl e \<Longrightarrow> e = REPLICATION MALFORMED"
  by (induction es) (auto simp: byte_string_def errs split: cbor.splits)

lemma decode_fields_error: "decode_fields m type = Inl e \<Longrightarrow> e \<noteq> ENCODING x"
  by (auto simp: decode_fields_def uint_def bstr_def errs simp del: js_simps
      split: if_splits option.splits cbor.splits dest: mapE_byte_string_Inl)

lemma decodeMessage_typed:
  "decodeMessage bs = Inr m \<Longrightarrow> typed_message m"
  "decodeMessage bs = Inl e \<Longrightarrow> e \<noteq> ENCODING x"
  by (auto simp: decodeMessage_def split: if_splits sum.splits cbor.splits option.splits
      dest: decode_fields_typed decode_fields_error)

subsection \<open>Encoded sizes\<close>

lemma head_small: "0 \<le> n \<Longrightarrow> n \<le> 65535 \<Longrightarrow> \<exists>h. head major n = Inr h \<and> length h \<le> 3"
  by (auto simp: head_def Let_def)

lemma encode_bytes_small:
  assumes "length b \<le> 65535"
  obtains h where "length h \<le> 3" "\<And>d. d \<le> 32 \<Longrightarrow> encodeValue (CBytes b) d = Inr (h @ b)"
proof -
  obtain h where "head MAJOR_BSTR (int (length b)) = Inr h" "length h \<le> 3"
    using head_small [of "int (length b)" MAJOR_BSTR] assms by auto
  then show ?thesis by (intro that [of h]) simp_all
qed

subsection \<open>What a parsed record guarantees\<close>

lemma parsed_well_formed: "parseRecordBytes bs = Inr r \<Longrightarrow> well_formed r"
  using parseRecordBytes_encode(2) parseRecord_well_formed by blast

lemma parsed_no_space:
  assumes "parseRecordBytes bs = Inr r"
  shows "0x20 \<notin> set (r_name r)" "0x20 \<notin> set (r_tld r)"
proof -
  have w: "labelRejection (r_name r) = None" "isWellShapedTld (r_tld r)"
    using parsed_well_formed [OF assms] ratified_well_shaped by (simp_all add: well_formed_def)
  show "0x20 \<notin> set (r_name r)"
    using w(1) unfolding labelRejection_None list_all_iff
    by (force simp: LABEL_CHARACTER_def is_lower_def is_digit_def HYPHEN_def)
  show "0x20 \<notin> set (r_tld r)"
    using w(2) by (auto simp: isWellShapedTld_def list_all_iff is_lower_def is_digit_def split: list.splits)
qed

lemma parsed_seq:
  assumes "parseRecordBytes bs = Inr r"
  shows "0 \<le> r_seq r"
proof -
  have "field (r_map r) ''seq'' = Some (CNum (r_seq r))"
    using parseRecordBytes_encode(2) [OF assms] unfolding parseRecord_iff by (simp add: reads_def del: js_simps)
  then have "(KText (js ''seq''), CNum (r_seq r)) \<in> set (r_map r)" by (rule map_of_SomeD)
  then show ?thesis
    using encode_map_value [OF parseRecordBytes_encode(1) [OF assms]] encode_number by blast
qed

section \<open>Properties\<close>

text \<open>
  Every message that encodes, with digests of 32 bytes and at most 256 records, decodes to
  itself; and whatever decodes has digests and batches of those sizes.
\<close>

theorem message_roundtrip:
  "(encodeMessage m = Inr bs \<and> valid_message m \<longrightarrow> decodeMessage bs = Inr m) \<and>
   (decodeMessage bs = Inr m \<longrightarrow> valid_message m \<and> length bs \<le> 65536)"
  using message_back decodeMessage_valid by blast

theorem message_roundtrip_witness:
  "\<exists>bs. encodeMessage (WANT 7 256) = Inr bs \<and> decodeMessage bs = Inr (WANT 7 256)"
proof -
  have "\<exists>bs. encodeMessage (WANT 7 256) = Inr bs"
    by (simp add: exec encodeMessage_def message_map_def)
  then obtain bs where "encodeMessage (WANT 7 256) = Inr bs" by blast
  moreover from this message_roundtrip [of "WANT 7 256" bs] have "decodeMessage bs = Inr (WANT 7 256)"
    by (simp add: valid_message_def)
  ultimately show ?thesis by blast
qed

text \<open>
  Evidence is accepted exactly when both halves are canonical records for one name, one
  \<open>seq\<close> and one owner key, with different hashes, and both carry that owner's signature; the check
  never throws.
\<close>

theorem verifyEquivocation_exact:
  assumes "hash_length_ok C"
  shows "verifyEquivocation C a b = Inr (equivocates C a b)"
  using assms by (rule verifyEquivocation_eq)

theorem verifyEquivocation_exact_witness:
  "verifyEquivocation sample_crypto (sample_bytes sample_register_map) (sample_bytes sample_register_map) =
     Inr False"
  using verifyEquivocation_exact [OF sample_hash_length] by (simp add: equivocates_def)

end
