(* ===== verification/Log.thy ===== *)
theory Log
  imports Messages
begin

section \<open>The log file and the sorted index\<close>

text \<open>
  registry/src/store.ts, the functions outside the class: framing of entries, the key of the name
  index, and the sorted arrays behind the difficulty window. The messages and byte positions of a
  \<open>StoreError\<close> are left out. File contents are byte lists; creating directories and the file
  itself is not modelled.
\<close>

definition LENGTH_PREFIX_BYTES :: nat where "LENGTH_PREFIX_BYTES = 4"
definition MAX_ENTRY_BYTES :: nat where "MAX_ENTRY_BYTES = 65536"

datatype store_error =
    ENTRY_TOO_LARGE | TRUNCATED_PREFIX | ZERO_LENGTH_ENTRY | ENTRY_LENGTH_EXCEEDED | TRUNCATED_ENTRY
  | NO_LONGER_VERIFIES nat verdict
  | STORE_RECORD rejection | STORE_SIGNING signing_error | STORE_CONVERGE converge_error
  | NO_SIGNER_KEY

definition nameKey :: "jsstr \<Rightarrow> jsstr \<Rightarrow> jsstr" where
  "nameKey name tld = tld @ [0x20] @ name"

function lower_bound_loop :: "int list \<Rightarrow> int \<Rightarrow> nat \<Rightarrow> nat \<Rightarrow> nat" where
  "lower_bound_loop xs v low high =
     (if low < high then
        let mid = (low + high) div 2 in
        if xs ! mid < v then lower_bound_loop xs v (mid + 1) high else lower_bound_loop xs v low mid
      else low)"
  by pat_completeness auto
termination
  by (relation "measure (\<lambda>(_, _, low, high). high - low)") auto

declare lower_bound_loop.simps [simp del]

definition lowerBound :: "int list \<Rightarrow> int \<Rightarrow> nat" where
  "lowerBound xs v = lower_bound_loop xs v 0 (length xs)"

definition insertSorted :: "int list \<Rightarrow> int \<Rightarrow> int list" where
  "insertSorted xs v = take (lowerBound xs v) xs @ [v] @ drop (lowerBound xs v) xs"

definition frame :: "bytes \<Rightarrow> store_error + bytes" where
  "frame bs =
     failIf (length bs > MAX_ENTRY_BYTES) ENTRY_TOO_LARGE
       (Inr (be_bytes LENGTH_PREFIX_BYTES (length bs) @ bs))"

function unframe :: "bytes \<Rightarrow> store_error + bytes list" where
  "unframe contents =
     (if contents = [] then Inr []
      else if LENGTH_PREFIX_BYTES > length contents then Inl TRUNCATED_PREFIX
      else let n = be_value (take LENGTH_PREFIX_BYTES contents) in
        if n = 0 then Inl ZERO_LENGTH_ENTRY
        else if n > MAX_ENTRY_BYTES then Inl ENTRY_LENGTH_EXCEEDED
        else if LENGTH_PREFIX_BYTES + n > length contents then Inl TRUNCATED_ENTRY
        else bindE (unframe (drop (LENGTH_PREFIX_BYTES + n) contents)) (\<lambda>entries.
          Inr (take n (drop LENGTH_PREFIX_BYTES contents) # entries)))"
  by pat_completeness auto
termination
  by (relation "measure length") (auto simp: LENGTH_PREFIX_BYTES_def)

declare unframe.simps [simp del]

definition writeLog :: "bytes list \<Rightarrow> store_error + bytes" where
  "writeLog entries = bindE (mapE frame entries) (\<lambda>framed. Inr (concat framed))"

subsection \<open>Keys\<close>

text \<open>The label grammar keeps the space out of both parts of a name.\<close>

lemma nameKey_inject:
  assumes "0x20 \<notin> set tld" "0x20 \<notin> set tld'"
  shows "nameKey name tld = nameKey name' tld' \<longleftrightarrow> name = name' \<and> tld = tld'"
proof
  assume "nameKey name tld = nameKey name' tld'"
  then have eq: "tld @ 0x20 # name = tld' @ 0x20 # name'" by (simp add: nameKey_def)
  have tw: "takeWhile (\<lambda>c. c \<noteq> 0x20) (t @ 0x20 # n) = t" if "0x20 \<notin> set t" for t n :: jsstr
    using that by (subst takeWhile_append2) auto
  have "tld = tld'" using tw [OF assms(1), of name] tw [OF assms(2), of name'] eq by simp
  with eq show "name = name' \<and> tld = tld'" by simp
qed simp

subsection \<open>Framing\<close>

lemma unframe_unfold:
  "unframe contents =
     (if contents = [] then Inr []
      else if 4 > length contents then Inl TRUNCATED_PREFIX
      else let n = be_value (take 4 contents) in
        if n = 0 then Inl ZERO_LENGTH_ENTRY
        else if n > 65536 then Inl ENTRY_LENGTH_EXCEEDED
        else if 4 + n > length contents then Inl TRUNCATED_ENTRY
        else bindE (unframe (drop (4 + n) contents)) (\<lambda>entries. Inr (take n (drop 4 contents) # entries)))"
  using unframe.simps [of contents] unfolding LENGTH_PREFIX_BYTES_def MAX_ENTRY_BYTES_def .

lemma unframe_Cons:
  assumes "e \<noteq> []" "length e \<le> 65536"
  shows "unframe (be_bytes 4 (length e) @ e @ rest) = bindE (unframe rest) (\<lambda>es. Inr (e # es))"
proof -
  have "be_value (be_bytes 4 (length e)) = length e"
    using assms(2) by (simp add: be_value_be_bytes)
  then show ?thesis
    using assms by (cases "unframe rest") (simp_all add: unframe_unfold [of "be_bytes 4 (length e) @ e @ rest"] Let_def)
qed

lemma frame_Inr: "frame e = Inr f \<longleftrightarrow> length e \<le> 65536 \<and> f = be_bytes 4 (length e) @ e"
  by (auto simp: frame_def MAX_ENTRY_BYTES_def LENGTH_PREFIX_BYTES_def)

lemma unframe_framed:
  "mapE frame es = Inr fs \<Longrightarrow> \<forall>e\<in>set es. e \<noteq> [] \<Longrightarrow>
     unframe (concat fs @ rest) = bindE (unframe rest) (\<lambda>more. Inr (es @ more))"
proof (induction es arbitrary: fs)
  case Nil
  then show ?case by (cases "unframe rest") auto
next
  case (Cons e es)
  then obtain gs where "length e \<le> 65536" "fs = (be_bytes 4 (length e) @ e) # gs" "mapE frame es = Inr gs"
    by (auto simp: bindE_eq_Inr frame_Inr)
  then show ?case
    using Cons unframe_Cons [of e "concat gs @ rest"] by (auto split: sum.split)
qed

lemma unframe_Nil [simp]: "unframe [] = Inr []"
  by (simp add: unframe.simps)

lemma unframe_exact:
  "unframe contents = Inr es \<Longrightarrow> (\<forall>e\<in>set es. e \<noteq> []) \<and> writeLog es = Inr contents"
proof (induction contents arbitrary: es rule: unframe.induct)
  case (1 contents)
  show ?case
  proof (cases "contents = []")
    case True
    with 1 show ?thesis by (simp add: writeLog_def)
  next
    case False
    let ?n = "be_value (take 4 contents)"
    have c: "4 \<le> length contents" "?n \<noteq> 0" "?n \<le> 65536" "4 + ?n \<le> length contents"
      using "1.prems" False by (auto simp: unframe_unfold [of contents] Let_def split: if_splits)
    then obtain rest where rest: "unframe (drop (4 + ?n) contents) = Inr rest"
      and es: "es = take ?n (drop 4 contents) # rest"
      using "1.prems" False by (auto simp: unframe_unfold [of contents] Let_def bindE_eq_Inr)
    have IH: "(\<forall>e\<in>set rest. e \<noteq> []) \<and> writeLog rest = Inr (drop (4 + ?n) contents)"
      using "1.IH" [of ?n rest] False c rest by (simp add: LENGTH_PREFIX_BYTES_def MAX_ENTRY_BYTES_def)
    let ?e = "take ?n (drop 4 contents)"
    have len: "length ?e = ?n" using c by simp
    have pre: "be_bytes 4 ?n = take 4 contents"
      using be_bytes_be_value [of "take 4 contents"] c(1) by simp
    have split: "contents = take 4 contents @ ?e @ drop (4 + ?n) contents"
      by (metis append_take_drop_id drop_drop add.commute)
    have "?e \<noteq> []" using len c(2) by (metis list.size(3))
    moreover have "writeLog (?e # rest) = Inr (take 4 contents @ ?e @ drop (4 + ?n) contents)"
      using IH len pre c(3) by (auto simp: writeLog_def errs frame_def LENGTH_PREFIX_BYTES_def MAX_ENTRY_BYTES_def)
    ultimately show ?thesis using IH es split by simp
  qed
qed

lemma unframe_iff: "unframe contents = Inr es \<longleftrightarrow> (\<forall>e\<in>set es. e \<noteq> []) \<and> writeLog es = Inr contents"
proof
  assume a: "(\<forall>e\<in>set es. e \<noteq> []) \<and> writeLog es = Inr contents"
  then obtain fs where "mapE frame es = Inr fs" "contents = concat fs"
    by (auto simp: writeLog_def errs)
  then show "unframe contents = Inr es" using unframe_framed [of es fs "[]"] a by simp
qed (rule unframe_exact)

lemma writeLog_append:
  "writeLog (es @ ds) = bindE (writeLog es) (\<lambda>a. bindE (writeLog ds) (\<lambda>b. Inr (a @ b)))"
  by (induction es) (auto simp: writeLog_def split: sum.splits)

lemma writeLog_snoc:
  "writeLog es = Inr contents \<Longrightarrow> frame e = Inr f \<Longrightarrow> writeLog (es @ [e]) = Inr (contents @ f)"
  by (simp add: writeLog_append) (simp add: writeLog_def)

text \<open>A log cut off inside its last entry does not open.\<close>

lemma unframe_truncated:
  assumes "writeLog es = Inr contents" "\<forall>e\<in>set es. e \<noteq> []" "frame e = Inr f" "e \<noteq> []"
    and "0 < n" "n < length f"
  shows "unframe (contents @ take n f) \<in> {Inl TRUNCATED_PREFIX, Inl TRUNCATED_ENTRY}"
proof -
  obtain fs where fs: "mapE frame es = Inr fs" "contents = concat fs"
    using assms(1) by (auto simp: writeLog_def errs)
  have f: "f = be_bytes 4 (length e) @ e" "length e \<le> 65536" using assms(3) by (simp_all add: frame_Inr)
  have "unframe (take n f) \<in> {Inl TRUNCATED_PREFIX, Inl TRUNCATED_ENTRY}"
  proof (cases "n < 4")
    case True
    moreover have "f \<noteq> []" using assms(6) by auto
    ultimately show ?thesis using assms(5,6) by (simp add: unframe_unfold [of "take n f"])
  next
    case False
    have v: "be_value (take 4 f) = length e" using f by (simp add: be_value_be_bytes)
    have "4 \<le> length (take n f)" "length (take n f) < 4 + length e" "length e \<noteq> 0"
      using False assms(4,6) f by auto
    then show ?thesis using f(2) by (subst unframe_unfold) (auto simp: v Let_def)
  qed
  then show ?thesis using unframe_framed [OF fs(1) assms(2), of "take n f"] fs(2) by auto
qed

subsection \<open>Binary search\<close>

lemma lower_bound_loop_spec:
  assumes "sorted xs" "low \<le> high" "high \<le> length xs"
    and "\<forall>i<low. xs ! i < v" "\<forall>i<length xs. high \<le> i \<longrightarrow> v \<le> xs ! i"
  shows "low \<le> lower_bound_loop xs v low high \<and> lower_bound_loop xs v low high \<le> high \<and>
    (\<forall>i<lower_bound_loop xs v low high. xs ! i < v) \<and>
    (\<forall>i<length xs. lower_bound_loop xs v low high \<le> i \<longrightarrow> v \<le> xs ! i)"
  using assms
proof (induction xs v low high rule: lower_bound_loop.induct)
  case (1 xs v low high)
  show ?case
  proof (cases "low < high")
    case False
    then have "lower_bound_loop xs v low high = low" by (simp add: lower_bound_loop.simps [of xs v low high])
    then show ?thesis using False "1.prems" by simp
  next
    case True
    let ?mid = "(low + high) div 2"
    have mid: "low \<le> ?mid" "?mid < high" "?mid < length xs" using True "1.prems"(3) by auto
    show ?thesis
    proof (cases "xs ! ?mid < v")
      case less: True
      have "\<forall>i<?mid + 1. xs ! i < v"
        using sorted_nth_mono [OF "1.prems"(1)] less mid by (metis Suc_eq_plus1 le_less_trans less_Suc_eq_le)
      moreover have "lower_bound_loop xs v low high = lower_bound_loop xs v (?mid + 1) high"
        using less True by (simp add: lower_bound_loop.simps [of xs v low high] Let_def)
      ultimately show ?thesis
        using "1.IH"(1) [OF True refl less "1.prems"(1) _ "1.prems"(3) _ "1.prems"(5)] mid by auto
    next
      case geq: False
      have "\<forall>i<length xs. ?mid \<le> i \<longrightarrow> v \<le> xs ! i"
        using sorted_nth_mono [OF "1.prems"(1)] geq by (metis linorder_not_less order_trans)
      moreover have "lower_bound_loop xs v low high = lower_bound_loop xs v low ?mid"
        using geq True by (simp add: lower_bound_loop.simps [of xs v low high] Let_def)
      ultimately show ?thesis
        using "1.IH"(2) [OF True refl geq "1.prems"(1) mid(1) less_imp_le [OF mid(3)] "1.prems"(4)]
          less_imp_le [OF mid(2)] by auto
    qed
  qed
qed

lemma lowerBound_spec:
  assumes "sorted xs"
  shows "lowerBound xs v \<le> length xs \<and> (\<forall>i<lowerBound xs v. xs ! i < v) \<and>
    (\<forall>i<length xs. lowerBound xs v \<le> i \<longrightarrow> v \<le> xs ! i)"
  using lower_bound_loop_spec [OF assms, of 0 "length xs" v] by (simp add: lowerBound_def)

lemma lowerBound_split:
  assumes "sorted xs"
  shows "\<forall>x\<in>set (take (lowerBound xs v) xs). x < v" "\<forall>x\<in>set (drop (lowerBound xs v) xs). v \<le> x"
  using lowerBound_spec [OF assms, of v] by (auto simp: in_set_conv_nth)

lemma lowerBound_count:
  assumes "sorted xs"
  shows "lowerBound xs v = length (filter (\<lambda>x. x < v) xs)"
proof -
  let ?n = "lowerBound xs v"
  have "filter (\<lambda>x. x < v) (take ?n xs @ drop ?n xs) = take ?n xs"
    using lowerBound_split [OF assms, of v] unfolding filter_append
    by (fastforce simp: filter_id_conv filter_empty_conv)
  then show ?thesis using lowerBound_spec [OF assms, of v] by simp
qed

lemma insertSorted_sorted: "sorted xs \<Longrightarrow> sorted (insertSorted xs v)"
proof -
  assume s: "sorted xs"
  have "\<forall>x\<in>set (take (lowerBound xs v) xs). \<forall>y\<in>set (drop (lowerBound xs v) xs). x \<le> y"
    using lowerBound_split [OF s, of v] by (meson less_imp_le order_trans)
  then show ?thesis
    using s lowerBound_split [OF s, of v]
    by (auto simp: insertSorted_def sorted_append sorted_wrt_take sorted_wrt_drop less_imp_le)
qed

lemma insertSorted_mset: "mset (insertSorted xs v) = add_mset v (mset xs)"
proof -
  have "mset xs = mset (take (lowerBound xs v) xs @ drop (lowerBound xs v) xs)" by simp
  then show ?thesis unfolding insertSorted_def by (metis append_Cons append_Nil mset.simps(2) mset_append union_mset_add_mset_right)
qed

lemma lowerBound_window:
  assumes "sorted xs" "a \<le> b"
  shows "lowerBound xs b - lowerBound xs a = length (filter (\<lambda>x. a \<le> x \<and> x < b) xs) \<and> lowerBound xs a \<le> lowerBound xs b"
proof -
  have "length (filter (\<lambda>x. x < b) xs) = length (filter (\<lambda>x. x < a) xs) + length (filter (\<lambda>x. a \<le> x \<and> x < b) xs)"
    using assms(2) by (induction xs) auto
  then show ?thesis by (simp add: lowerBound_count [OF assms(1)])
qed

section \<open>Properties\<close>

text \<open>
  A log file splits into non-empty entries exactly when it is what writing those entries
  produces: framing loses nothing, no other bytes are accepted, and entries over the limit cannot
  be written.
\<close>

theorem log_framing:
  "unframe contents = Inr es \<longleftrightarrow> (\<forall>e\<in>set es. e \<noteq> []) \<and> writeLog es = Inr contents"
  by (rule unframe_iff)

theorem log_framing_witness:
  "unframe [0, 0, 0, 1, 7, 0, 0, 0, 2, 8, 9] = Inr [[7], [8, 9]]"
proof -
  have "writeLog [[7], [8, 9]] = Inr [0, 0, 0, 1, 7, 0, 0, 0, 2, 8, 9]"
    by (simp add: exec writeLog_def frame_def MAX_ENTRY_BYTES_def LENGTH_PREFIX_BYTES_def)
  then show ?thesis using log_framing [of "[0, 0, 0, 1, 7, 0, 0, 0, 2, 8, 9]" "[[7], [8, 9]]"] by simp
qed

end
