(* ===== verification/Ledger.thy ===== *)
theory Ledger
  imports Log
begin

section \<open>The equivocation ledger\<close>

text \<open>
  registry/src/equivocation.ts: the durable, bounded record of equivocation. The state of an
  \<open>EquivocationLedger\<close> keeps the contents of its file (\<open>None\<close> for an ephemeral ledger, whose
  path is empty). \<open>ledger_record\<close> throws only what its callees throw.

  The interface \<open>EquivocationRecorder\<close> the store uses is the record \<open>recorder\<close> of functions; the
  locale of its laws is interpreted here for the ledger.
\<close>

datatype origin = Detected | Received

datatype record_outcome = Recorded | Duplicate | Unverified | Full

record LedgerEntry =
  l_origin :: origin
  l_key :: jsstr
  l_a :: bytes
  l_b :: bytes

record equivocation_limits =
  limit_detected :: nat
  limit_received :: nat
  perConnection :: nat

definition EQUIVOCATION_LIMITS :: equivocation_limits where
  "EQUIVOCATION_LIMITS = \<lparr>limit_detected = 1024, limit_received = 256, perConnection = 32\<rparr>"

definition MAX_LEDGER_ENTRY_BYTES :: nat where
  "MAX_LEDGER_ENTRY_BYTES = 2 * recordBytes LIMITS + 512"

record Refusals =
  rf_unverified :: nat
  rf_full :: nat
  rf_unreadable :: nat

record Ledger =
  lg_file :: "bytes option"
  lg_held :: "LedgerEntry list"
  lg_byKey :: "jsstr set"
  lg_detected :: nat
  lg_received :: nat
  lg_refusals :: Refusals

datatype ledger_error =
    LEDGER_EVIDENCE evidence_error | LEDGER_CBOR cbor_error | LEDGER_STORE store_error

subsection \<open>The identity of a fact\<close>

fun decimal :: "nat \<Rightarrow> jsstr" where
  "decimal n = (if n < 10 then [word_of_nat (48 + n)] else decimal (n div 10) @ [word_of_nat (48 + n mod 10)])"

declare decimal.simps [simp del]

definition equivocationKey :: "RegistryRecord \<Rightarrow> jsstr" where
  "equivocationKey r =
     js (toHex (r_ownerKey r)) @ js '' '' @ r_tld r @ js '' '' @ r_name r @ js '' '' @ decimal (nat (r_seq r))"

subsection \<open>Recording\<close>

definition ledger_counts :: "Ledger \<Rightarrow> origin \<Rightarrow> nat" where
  "ledger_counts L origin = (case origin of Detected \<Rightarrow> lg_detected L | Received \<Rightarrow> lg_received L)"

definition budget :: "origin \<Rightarrow> nat" where
  "budget origin =
     (if origin = Detected then limit_detected EQUIVOCATION_LIMITS else limit_received EQUIVOCATION_LIMITS)"

definition settled :: "Ledger \<Rightarrow> RegistryRecord \<Rightarrow> origin \<Rightarrow> bool" where
  "settled L r origin \<longleftrightarrow> equivocationKey r \<in> lg_byKey L \<or> ledger_counts L origin \<ge> budget origin"

definition entry_map :: "LedgerEntry \<Rightarrow> cbor_map" where
  "entry_map e =
     [(KText (js ''o''), CText (if l_origin e = Detected then js ''d'' else js ''r'')),
      (KText (js ''a''), CBytes (l_a e)), (KText (js ''b''), CBytes (l_b e))]"

definition persist :: "Ledger \<Rightarrow> LedgerEntry \<Rightarrow> ledger_error + Ledger" where
  "persist L e =
     (case lg_file L of
        None \<Rightarrow> Inr L
      | Some old \<Rightarrow>
          (case encode (CMap (entry_map e)) of
             Inl x \<Rightarrow> Inl (LEDGER_CBOR x)
           | Inr bs \<Rightarrow>
               (case frame bs of
                  Inl x \<Rightarrow> Inl (LEDGER_STORE x)
                | Inr f \<Rightarrow> Inr (L\<lparr>lg_file := Some (old @ f)\<rparr>))))"

definition refuse_unverified :: "Ledger \<Rightarrow> Ledger" where
  "refuse_unverified L = L\<lparr>lg_refusals := (lg_refusals L)\<lparr>rf_unverified := rf_unverified (lg_refusals L) + 1\<rparr>\<rparr>"

definition refuse_full :: "Ledger \<Rightarrow> Ledger" where
  "refuse_full L = L\<lparr>lg_refusals := (lg_refusals L)\<lparr>rf_full := rf_full (lg_refusals L) + 1\<rparr>\<rparr>"

definition refuse_unreadable :: "nat \<Rightarrow> Ledger \<Rightarrow> Ledger" where
  "refuse_unreadable n L =
     L\<lparr>lg_refusals := (lg_refusals L)\<lparr>rf_unreadable := rf_unreadable (lg_refusals L) + n\<rparr>\<rparr>"

definition hold_entry :: "Ledger \<Rightarrow> LedgerEntry \<Rightarrow> Ledger" where
  "hold_entry L e =
     L\<lparr>lg_held := lg_held L @ [e], lg_byKey := insert (l_key e) (lg_byKey L),
       lg_detected := lg_detected L + (if l_origin e = Detected then 1 else 0),
       lg_received := lg_received L + (if l_origin e = Received then 1 else 0)\<rparr>"

definition ledger_record ::
  "crypto \<Rightarrow> Ledger \<Rightarrow> bytes \<Rightarrow> bytes \<Rightarrow> origin \<Rightarrow> bool \<Rightarrow> ledger_error + Ledger \<times> record_outcome" where
  "ledger_record C L a b origin persisting =
     (case verifyEquivocation C a b of
        Inl e \<Rightarrow> Inl (LEDGER_EVIDENCE e)
      | Inr False \<Rightarrow> Inr (refuse_unverified L, Unverified)
      | Inr True \<Rightarrow>
          (case parseRecordBytes a of
             Inl _ \<Rightarrow> Inr (refuse_unverified L, Unverified)
           | Inr r \<Rightarrow>
               let key = equivocationKey r in
               if key \<in> lg_byKey L then Inr (L, Duplicate)
               else if ledger_counts L origin \<ge> budget origin then Inr (refuse_full L, Full)
               else let e = \<lparr>l_origin = origin, l_key = key, l_a = a, l_b = b\<rparr> in
                 bindE (if persisting then persist L e else Inr L) (\<lambda>L. Inr (hold_entry L e, Recorded))))"

subsection \<open>Reading the file back\<close>

definition parseLedgerEntry :: "bytes \<Rightarrow> (origin \<times> bytes \<times> bytes) option" where
  "parseLedgerEntry bs =
     (case decode bs of
        Inr (CMap m) \<Rightarrow>
          (case (field m ''o'', field m ''a'', field m ''b'') of
             (Some (CText t), Some (CBytes a), Some (CBytes b)) \<Rightarrow>
               if t = js ''d'' then Some (Detected, a, b)
               else if t = js ''r'' then Some (Received, a, b) else None
           | _ \<Rightarrow> None)
      | _ \<Rightarrow> None)"

text \<open>The entries, and by how much \<open>unreadable\<close> grows.\<close>

function readEntries :: "bytes \<Rightarrow> (origin \<times> bytes \<times> bytes) list \<times> nat" where
  "readEntries bs =
     (if bs = [] then ([], 0)
      else if LENGTH_PREFIX_BYTES > length bs then ([], 0)
      else let n = be_value (take LENGTH_PREFIX_BYTES bs) in
        if n = 0 \<or> n + LENGTH_PREFIX_BYTES > MAX_LEDGER_ENTRY_BYTES then ([], 1)
        else if LENGTH_PREFIX_BYTES + n > length bs then ([], 0)
        else (case parseLedgerEntry (take n (drop LENGTH_PREFIX_BYTES bs)) of
            None \<Rightarrow> ([], 1)
          | Some e \<Rightarrow>
              let rest = readEntries (drop (LENGTH_PREFIX_BYTES + n) bs) in (e # fst rest, snd rest)))"
  by pat_completeness auto
termination
  by (relation "measure length") (auto simp: LENGTH_PREFIX_BYTES_def)

declare readEntries.simps [simp del]

definition empty_ledger :: "bytes option \<Rightarrow> Ledger" where
  "empty_ledger contents =
     \<lparr>lg_file = contents, lg_held = [], lg_byKey = {}, lg_detected = 0, lg_received = 0,
      lg_refusals = \<lparr>rf_unverified = 0, rf_full = 0, rf_unreadable = 0\<rparr>\<rparr>"

primrec replay_entries ::
  "crypto \<Rightarrow> (origin \<times> bytes \<times> bytes) list \<Rightarrow> Ledger \<Rightarrow> ledger_error + Ledger" where
  "replay_entries C [] L = Inr L"
| "replay_entries C (x # xs) L =
     (case x of (origin, a, b) \<Rightarrow>
       bindE (ledger_record C L a b origin False) (\<lambda>(L, outcome).
         replay_entries C xs (if outcome \<noteq> Recorded then refuse_unreadable 1 L else L)))"

text \<open>A missing file is \<open>None\<close>.\<close>

definition ledger_open :: "crypto \<Rightarrow> bytes option \<Rightarrow> ledger_error + Ledger" where
  "ledger_open C contents =
     (case contents of
        None \<Rightarrow> Inr (empty_ledger (Some []))
      | Some bs \<Rightarrow>
          let read = readEntries bs in
          replay_entries C (fst read) (refuse_unreadable (snd read) (empty_ledger (Some bs))))"

definition ephemeral :: Ledger where
  "ephemeral = empty_ledger None"

subsection \<open>The recorder interface\<close>

record 'l recorder =
  rec_settled :: "'l \<Rightarrow> RegistryRecord \<Rightarrow> origin \<Rightarrow> bool"
  rec_record :: "'l \<Rightarrow> bytes \<Rightarrow> bytes \<Rightarrow> origin \<Rightarrow> ledger_error + 'l"

definition ledger_recorder :: "crypto \<Rightarrow> Ledger recorder" where
  "ledger_recorder C =
     \<lparr>rec_settled = settled,
      rec_record = (\<lambda>L a b origin. bindE (ledger_record C L a b origin True) (\<lambda>(L, _). Inr L))\<rparr>"

subsection \<open>Entries survive the file\<close>

lemma encode_entry:
  assumes "length (l_a e) \<le> 4096" "length (l_b e) \<le> 4096"
  shows "\<exists>bs. encode (CMap (entry_map e)) = Inr bs \<and> bs \<noteq> [] \<and> length bs \<le> 8700"
proof -
  obtain h where h: "length h \<le> 3" "\<And>d. d \<le> 32 \<Longrightarrow> encodeValue (CBytes (l_a e)) d = Inr (h @ l_a e)"
    using encode_bytes_small [of "l_a e"] assms(1) by auto
  obtain g where g: "length g \<le> 3" "\<And>d. d \<le> 32 \<Longrightarrow> encodeValue (CBytes (l_b e)) d = Inr (g @ l_b e)"
    using encode_bytes_small [of "l_b e"] assms(2) by auto
  show ?thesis
    using assms h(1) g(1)
    by (simp add: exec entry_map_def h(2) g(2) del: encodeValue.simps(4))
qed

lemma parse_entry:
  assumes "encode (CMap (entry_map e)) = Inr bs"
  shows "parseLedgerEntry bs = Some (l_origin e, l_a e, l_b e)"
proof -
  obtain c where c: "decode bs = Inr (CMap c)" "\<forall>k. map_of c k = map_option canon (map_of (entry_map e) k)"
    by (rule decode_map [OF assms])
  show ?thesis
    using c by (cases "l_origin e") (simp_all add: parseLedgerEntry_def entry_map_def del: js_simps)
qed

lemma readEntries_unfold:
  "readEntries bs =
     (if bs = [] then ([], 0)
      else if 4 > length bs then ([], 0)
      else let n = be_value (take 4 bs) in
        if n = 0 \<or> n + 4 > 8704 then ([], 1)
        else if 4 + n > length bs then ([], 0)
        else (case parseLedgerEntry (take n (drop 4 bs)) of
            None \<Rightarrow> ([], 1)
          | Some e \<Rightarrow> let rest = readEntries (drop (4 + n) bs) in (e # fst rest, snd rest)))"
proof -
  have "MAX_LEDGER_ENTRY_BYTES = 8704" by (simp add: MAX_LEDGER_ENTRY_BYTES_def)
  then show ?thesis using readEntries.simps [of bs] unfolding LENGTH_PREFIX_BYTES_def by metis
qed

lemma readEntries_Cons:
  assumes "parseLedgerEntry b = Some e" "b \<noteq> []" "length b \<le> 8700"
  shows "readEntries (be_bytes 4 (length b) @ b @ rest) = (e # fst (readEntries rest), snd (readEntries rest))"
proof -
  have "be_value (be_bytes 4 (length b)) = length b" using assms(3) by (simp add: be_value_be_bytes)
  then show ?thesis
    using assms by (simp add: readEntries_unfold [of "be_bytes 4 (length b) @ b @ rest"] Let_def)
qed

definition entry_frame :: "LedgerEntry \<Rightarrow> bytes" where
  "entry_frame e =
     (case encode (CMap (entry_map e)) of Inl _ \<Rightarrow> [] | Inr bs \<Rightarrow> be_bytes 4 (length bs) @ bs)"

definition small_entry :: "LedgerEntry \<Rightarrow> bool" where
  "small_entry e \<longleftrightarrow> length (l_a e) \<le> 4096 \<and> length (l_b e) \<le> 4096"

definition entry_data :: "LedgerEntry \<Rightarrow> origin \<times> bytes \<times> bytes" where
  "entry_data e = (l_origin e, l_a e, l_b e)"

lemma entry_frame:
  assumes "small_entry e"
  obtains bs where "encode (CMap (entry_map e)) = Inr bs" "bs \<noteq> []" "length bs \<le> 8700"
    "entry_frame e = be_bytes 4 (length bs) @ bs" "frame bs = Inr (entry_frame e)"
  using encode_entry [of e] assms
  by (force simp: small_entry_def entry_frame_def frame_Inr)

lemma readEntries_frames:
  "\<forall>e\<in>set es. small_entry e \<Longrightarrow>
     readEntries (concat (map entry_frame es) @ rest) =
       (map entry_data es @ fst (readEntries rest), snd (readEntries rest))"
proof (induction es)
  case (Cons e es)
  then obtain bs where bs: "encode (CMap (entry_map e)) = Inr bs" "bs \<noteq> []" "length bs \<le> 8700"
    "entry_frame e = be_bytes 4 (length bs) @ bs"
    using entry_frame [of e] by auto
  from readEntries_Cons [OF parse_entry [OF bs(1)] bs(2,3)] Cons bs(4)
  show ?case by (simp add: entry_data_def)
qed simp

lemma readEntries_Nil [simp]: "readEntries [] = ([], 0)"
  by (simp add: readEntries.simps)

lemma readEntries_short:
  assumes "length bs < 4 + n" "n < 256 ^ 4" "take 4 bs = be_bytes 4 n" "0 < n" "n \<le> 8700"
  shows "readEntries bs = ([], 0)"
proof -
  have "be_value (take 4 bs) = n" using assms(2,3) by (simp add: be_value_be_bytes)
  then show ?thesis using assms by (simp add: readEntries_unfold [of bs] Let_def)
qed

subsection \<open>The invariant\<close>

definition ledger_inv :: "crypto \<Rightarrow> Ledger \<Rightarrow> bool" where
  "ledger_inv C L \<longleftrightarrow>
     lg_byKey L = l_key ` set (lg_held L) \<and> distinct (map l_key (lg_held L)) \<and>
     lg_detected L = length (filter (\<lambda>e. l_origin e = Detected) (lg_held L)) \<and> lg_detected L \<le> 1024 \<and>
     lg_received L = length (filter (\<lambda>e. l_origin e = Received) (lg_held L)) \<and> lg_received L \<le> 256 \<and>
     (\<forall>e\<in>set (lg_held L). equivocates C (l_a e) (l_b e) \<and> small_entry e \<and>
        (\<exists>r. parseRecordBytes (l_a e) = Inr r \<and> l_key e = equivocationKey r))"

definition ledger_synced :: "Ledger \<Rightarrow> bool" where
  "ledger_synced L \<longleftrightarrow> (\<forall>bs. lg_file L = Some bs \<longrightarrow> bs = concat (map entry_frame (lg_held L)))"

lemma refuse_simps [simp]:
  "lg_held (refuse_unverified L) = lg_held L" "lg_held (refuse_full L) = lg_held L"
  "lg_held (refuse_unreadable n L) = lg_held L" "lg_file (refuse_unverified L) = lg_file L"
  "lg_file (refuse_full L) = lg_file L" "lg_file (refuse_unreadable n L) = lg_file L"
  "lg_byKey (refuse_unverified L) = lg_byKey L" "lg_byKey (refuse_full L) = lg_byKey L"
  "lg_byKey (refuse_unreadable n L) = lg_byKey L"
  "ledger_inv C (refuse_unverified L) = ledger_inv C L" "ledger_inv C (refuse_full L) = ledger_inv C L"
  "ledger_inv C (refuse_unreadable n L) = ledger_inv C L"
  "ledger_synced (refuse_unverified L) = ledger_synced L" "ledger_synced (refuse_full L) = ledger_synced L"
  "ledger_synced (refuse_unreadable n L) = ledger_synced L"
  by (simp_all add: refuse_unverified_def refuse_full_def refuse_unreadable_def ledger_inv_def ledger_synced_def)

lemma budget_simps [simp]: "budget Detected = 1024" "budget Received = 256"
  by (simp_all add: budget_def EQUIVOCATION_LIMITS_def)

lemma equivocates_small: "equivocates C a b \<Longrightarrow> length a \<le> 4096 \<and> length b \<le> 4096"
  using parseRecordBytes_encode(3) unfolding equivocates_def by blast

lemma hold_inv:
  assumes "ledger_inv C L" "equivocates C a b" "parseRecordBytes a = Inr r"
    and "equivocationKey r \<notin> lg_byKey L" "ledger_counts L origin < budget origin"
  shows "ledger_inv C (hold_entry L \<lparr>l_origin = origin, l_key = equivocationKey r, l_a = a, l_b = b\<rparr>)"
  using assms equivocates_small [OF assms(2)]
  by (cases origin) (auto simp: ledger_inv_def hold_entry_def small_entry_def ledger_counts_def)

lemma persist_ok:
  assumes "small_entry e"
  shows "persist L e = Inr (L\<lparr>lg_file := map_option (\<lambda>old. old @ entry_frame e) (lg_file L)\<rparr>)"
proof -
  obtain bs where "encode (CMap (entry_map e)) = Inr bs" "frame bs = Inr (entry_frame e)"
    using entry_frame [OF assms] by metis
  then show ?thesis by (cases "lg_file L") (simp_all add: persist_def)
qed

text \<open>What recording does, on every branch.\<close>

lemma ledger_record_cases:
  assumes "hash_length_ok C"
  obtains
    (unverified) "\<not> equivocates C a b" "ledger_record C L a b origin p = Inr (refuse_unverified L, Unverified)"
  | (duplicate) r where "equivocates C a b" "parseRecordBytes a = Inr r" "equivocationKey r \<in> lg_byKey L"
      "ledger_record C L a b origin p = Inr (L, Duplicate)"
  | (full) r where "equivocates C a b" "parseRecordBytes a = Inr r" "equivocationKey r \<notin> lg_byKey L"
      "ledger_counts L origin \<ge> budget origin" "ledger_record C L a b origin p = Inr (refuse_full L, Full)"
  | (recorded) r e where "equivocates C a b" "parseRecordBytes a = Inr r" "equivocationKey r \<notin> lg_byKey L"
      "ledger_counts L origin < budget origin"
      "e = \<lparr>l_origin = origin, l_key = equivocationKey r, l_a = a, l_b = b\<rparr>" "small_entry e"
      "ledger_record C L a b origin p =
         Inr (hold_entry (if p then L\<lparr>lg_file := map_option (\<lambda>old. old @ entry_frame e) (lg_file L)\<rparr> else L) e,
              Recorded)"
proof (cases "equivocates C a b")
  case False
  then have "ledger_record C L a b origin p = Inr (refuse_unverified L, Unverified)"
    by (simp add: ledger_record_def verifyEquivocation_eq [OF assms])
  with False unverified show ?thesis by blast
next
  case True
  then obtain r where r: "parseRecordBytes a = Inr r" unfolding equivocates_def by blast
  define e where "e = \<lparr>l_origin = origin, l_key = equivocationKey r, l_a = a, l_b = b\<rparr>"
  have s: "small_entry e" using equivocates_small [OF True] by (simp add: e_def small_entry_def)
  have eq: "ledger_record C L a b origin p =
      (if equivocationKey r \<in> lg_byKey L then Inr (L, Duplicate)
       else if ledger_counts L origin \<ge> budget origin then Inr (refuse_full L, Full)
       else bindE (if p then persist L e else Inr L) (\<lambda>L. Inr (hold_entry L e, Recorded)))"
    by (cases "persist L e") (simp_all add: ledger_record_def verifyEquivocation_eq [OF assms] True r Let_def e_def)
  show ?thesis
  proof (cases "equivocationKey r \<in> lg_byKey L")
    case in_key: True
    then show ?thesis using duplicate True r eq by auto
  next
    case new: False
    show ?thesis
    proof (cases "ledger_counts L origin \<ge> budget origin")
      case True
      then show ?thesis using full \<open>equivocates C a b\<close> r new eq by auto
    next
      case False
      then show ?thesis
        using recorded [OF \<open>equivocates C a b\<close> r new _ e_def s] eq new persist_ok [OF s, of L] by auto
    qed
  qed
qed

lemma ledger_record_total:
  "hash_length_ok C \<Longrightarrow> \<exists>M out. ledger_record C L a b origin p = Inr (M, out)"
  by (erule ledger_record_cases [of C a b L origin p]) auto

lemma ledger_record_inv:
  assumes "hash_length_ok C" "ledger_inv C L" "ledger_record C L a b origin p = Inr (M, out)"
  shows "ledger_inv C M"
  using assms(1)
proof (cases rule: ledger_record_cases [of C a b L origin p])
  case (recorded r e)
  let ?L = "if p then L\<lparr>lg_file := map_option (\<lambda>old. old @ entry_frame e) (lg_file L)\<rparr> else L"
  have inv: "ledger_inv C ?L" and same: "lg_byKey ?L = lg_byKey L" "ledger_counts ?L origin = ledger_counts L origin"
    using assms(2) by (simp_all add: ledger_inv_def ledger_counts_def cong: origin.case_cong)
  have "ledger_inv C (hold_entry ?L e)"
    using hold_inv [OF inv recorded(1,2), of origin, folded recorded(5)] recorded(3,4) same by simp
  then show ?thesis using recorded(7) assms(3) by simp
qed (use assms(2,3) in auto)

lemma ledger_record_synced:
  assumes "hash_length_ok C" "ledger_synced L" "ledger_record C L a b origin True = Inr (M, out)"
  shows "ledger_synced M"
  using assms(1)
proof (cases rule: ledger_record_cases [of C a b L origin True])
  case (recorded r e)
  then show ?thesis using assms(2,3) by (auto simp: ledger_synced_def hold_entry_def)
qed (use assms(2,3) in auto)

text \<open>Nothing held is ever dropped, and one origin cannot touch the other's count.\<close>

lemma ledger_record_extends:
  assumes "hash_length_ok C" "ledger_record C L a b origin p = Inr (M, out)"
  shows "\<exists>new. lg_held M = lg_held L @ new \<and> length new = (if out = Recorded then 1 else 0) \<and>
    (\<forall>o'. o' \<noteq> origin \<longrightarrow> ledger_counts M o' = ledger_counts L o')"
  using assms(1)
proof (cases rule: ledger_record_cases [of C a b L origin p])
  case (recorded r e)
  then show ?thesis
    using assms(2) by (cases origin) (auto simp: hold_entry_def ledger_counts_def split: origin.splits)
qed (use assms(2) in \<open>auto simp: ledger_counts_def refuse_unverified_def refuse_full_def split: origin.splits\<close>)

subsection \<open>Opening\<close>

lemma replay_inv:
  assumes "hash_length_ok C"
  shows "ledger_inv C L \<Longrightarrow> \<exists>M. replay_entries C xs L = Inr M \<and> ledger_inv C M \<and> lg_file M = lg_file L"
proof (induction xs arbitrary: L)
  case (Cons x xs)
  obtain origin a b where x: "x = (origin, a, b)" by (cases x)
  obtain M out where M: "ledger_record C L a b origin False = Inr (M, out)"
    using ledger_record_total [OF assms] by blast
  have "ledger_inv C M" using ledger_record_inv [OF assms Cons.prems M] .
  moreover have "lg_file M = lg_file L"
    using assms by (cases rule: ledger_record_cases [of C a b L origin False]) (use M in \<open>auto simp: hold_entry_def\<close>)
  moreover have "lg_file (refuse_unreadable 1 M) = lg_file M" by simp
  ultimately show ?case
    using Cons.IH [of "if out \<noteq> Recorded then refuse_unreadable 1 M else M"] M
    by (cases "out = Recorded") (simp_all add: x)
qed simp

lemma ledger_open_inv:
  assumes "hash_length_ok C"
  shows "\<exists>L. ledger_open C contents = Inr L \<and> ledger_inv C L"
proof (cases contents)
  case None
  then show ?thesis by (simp add: ledger_open_def empty_ledger_def ledger_inv_def)
next
  case (Some bs)
  have "ledger_inv C (refuse_unreadable n (empty_ledger (Some bs)))" for n
    by (simp only: refuse_simps) (simp add: empty_ledger_def ledger_inv_def)
  then show ?thesis using replay_inv [OF assms] Some by (fastforce simp: ledger_open_def Let_def)
qed

text \<open>Replaying the entries of a ledger that meets the invariant holds them all again.\<close>

lemma replay_held:
  assumes "hash_length_ok C" "ledger_inv C L"
  shows "\<lbrakk>lg_held L = es @ fs; ledger_inv C M; lg_held M = es; lg_refusals M = rf\<rbrakk> \<Longrightarrow>
    \<exists>N. replay_entries C (map entry_data fs) M = Inr N \<and> lg_held N = es @ fs \<and> lg_refusals N = rf \<and>
      lg_file N = lg_file M"
proof (induction fs arbitrary: es M)
  case (Cons e fs)
  have e: "e \<in> set (lg_held L)" using Cons.prems(1) by simp
  have q: "equivocates C (l_a e) (l_b e)" and s: "small_entry e"
    using assms(2) e by (auto simp: ledger_inv_def)
  obtain r where r: "parseRecordBytes (l_a e) = Inr r" "l_key e = equivocationKey r"
    using assms(2) e unfolding ledger_inv_def by blast
  have "l_key e \<notin> l_key ` set es"
    using assms(2) Cons.prems(1) by (auto simp: ledger_inv_def)
  then have new: "equivocationKey r \<notin> lg_byKey M" using Cons.prems(2,3) r(2) by (simp add: ledger_inv_def)
  have room: "ledger_counts M (l_origin e) < budget (l_origin e)"
    using assms(2) Cons.prems(1-3) by (cases "l_origin e") (auto simp: ledger_inv_def ledger_counts_def)
  have ee: "\<lparr>l_origin = l_origin e, l_key = equivocationKey r, l_a = l_a e, l_b = l_b e\<rparr> = e"
    using r(2) by simp
  have rec: "ledger_record C M (l_a e) (l_b e) (l_origin e) False = Inr (hold_entry M e, Recorded)"
    using new room r by (simp add: ledger_record_def verifyEquivocation_eq [OF assms(1)] q ee Let_def)
  have inv: "ledger_inv C (hold_entry M e)" using hold_inv [OF Cons.prems(2) q r(1) new room] ee by simp
  have "\<exists>N. replay_entries C (map entry_data fs) (hold_entry M e) = Inr N \<and> lg_held N = (es @ [e]) @ fs \<and>
      lg_refusals N = rf \<and> lg_file N = lg_file (hold_entry M e)"
    by (rule Cons.IH) (use Cons.prems inv in \<open>simp_all add: hold_entry_def\<close>)
  moreover have "lg_file (hold_entry M e) = lg_file M" by (simp add: hold_entry_def)
  moreover have "entry_data e = (l_origin e, l_a e, l_b e)" by (simp add: entry_data_def)
  ultimately show ?case using rec by simp
qed simp

lemma ledger_reopen:
  assumes "hash_length_ok C" "ledger_inv C L" "ledger_synced L" "lg_file L = Some bs"
  shows "\<exists>M. ledger_open C (Some bs) = Inr M \<and> lg_held M = lg_held L \<and> lg_byKey M = lg_byKey L \<and>
    lg_refusals M = \<lparr>rf_unverified = 0, rf_full = 0, rf_unreadable = 0\<rparr>"
proof -
  let ?E = "empty_ledger (Some bs)"
  have bs: "bs = concat (map entry_frame (lg_held L))" using assms(3,4) by (simp add: ledger_synced_def)
  have read: "readEntries bs = (map entry_data (lg_held L), 0)"
    using readEntries_frames [of "lg_held L" "[]"] assms(2) by (simp add: bs ledger_inv_def)
  have start: "refuse_unreadable 0 ?E = ?E" by (simp add: refuse_unreadable_def empty_ledger_def)
  have E: "ledger_inv C ?E" "lg_held ?E = []" "lg_refusals ?E = \<lparr>rf_unverified = 0, rf_full = 0, rf_unreadable = 0\<rparr>"
    by (simp_all add: empty_ledger_def ledger_inv_def)
  obtain M where M: "replay_entries C (map entry_data (lg_held L)) ?E = Inr M" "lg_held M = lg_held L"
      "lg_refusals M = \<lparr>rf_unverified = 0, rf_full = 0, rf_unreadable = 0\<rparr>"
    using replay_held [OF assms(1,2) _ E, of "lg_held L"] by auto
  moreover have "ledger_inv C M" using replay_inv [OF assms(1) E(1), of "map entry_data (lg_held L)"] M(1) by simp
  ultimately show ?thesis
    using assms(2) by (simp add: ledger_open_def read start Let_def ledger_inv_def)
qed

subsection \<open>One entry for one fact\<close>

definition undecimal :: "jsstr \<Rightarrow> nat" where
  "undecimal s = foldl (\<lambda>n c. n * 10 + (unat c - 48)) 0 s"

lemma unat_digit: "d < 10 \<Longrightarrow> unat (word_of_nat (48 + d) :: 16 word) = 48 + d"
  by (simp add: unat_of_nat del: of_nat_add)

lemma undecimal_decimal: "undecimal (decimal n) = n"
proof (induction n rule: decimal.induct)
  case (1 n)
  show ?case
  proof (cases "n < 10")
    case True
    then show ?thesis using unat_digit [OF True] by (simp add: decimal.simps [of n] undecimal_def)
  next
    case False
    then show ?thesis
      using 1 [OF False] unat_digit [of "n mod 10"] by (simp add: decimal.simps [of n] undecimal_def)
  qed
qed

lemma decimal_inject: "decimal m = decimal n \<longleftrightarrow> m = n"
  by (metis undecimal_decimal)

definition fact :: "RegistryRecord \<Rightarrow> bytes \<times> jsstr \<times> jsstr \<times> int" where
  "fact r = (r_ownerKey r, r_tld r, r_name r, r_seq r)"

lemma split_at_space:
  assumes "xs @ 0x20 # ys = xs' @ 0x20 # ys'" "(0x20 :: 16 word) \<notin> set xs" "0x20 \<notin> set xs'"
  shows "xs = xs' \<and> ys = ys'"
proof -
  have tw: "takeWhile (\<lambda>c. c \<noteq> 0x20) (t @ 0x20 # n) = t" if "0x20 \<notin> set t" for t n :: jsstr
    using that by (subst takeWhile_append2) auto
  have "xs = xs'" using tw [OF assms(2)] tw [OF assms(3)] assms(1) by metis
  with assms(1) show ?thesis by simp
qed

lemma equivocationKey_fact:
  assumes "parseRecordBytes a = Inr r" "parseRecordBytes b = Inr s"
  shows "equivocationKey r = equivocationKey s \<longleftrightarrow> fact r = fact s"
proof
  assume eq: "equivocationKey r = equivocationKey s"
  have sp: "js '' '' = [0x20]" by simp
  have "length (js (toHex (r_ownerKey r))) = length (js (toHex (r_ownerKey s)))"
    using parsed_well_formed [OF assms(1)] parsed_well_formed [OF assms(2)] by (simp add: well_formed_def)
  with eq have "js (toHex (r_ownerKey r)) = js (toHex (r_ownerKey s))"
    and "r_tld r @ 0x20 # r_name r @ 0x20 # decimal (nat (r_seq r)) =
         r_tld s @ 0x20 # r_name s @ 0x20 # decimal (nat (r_seq s))"
    unfolding equivocationKey_def sp by simp_all
  moreover from this(2) have "r_tld r = r_tld s"
    and n: "r_name r @ 0x20 # decimal (nat (r_seq r)) = r_name s @ 0x20 # decimal (nat (r_seq s))"
    using split_at_space parsed_no_space(2) [OF assms(1)] parsed_no_space(2) [OF assms(2)] by blast+
  moreover from n have "r_name r = r_name s" "decimal (nat (r_seq r)) = decimal (nat (r_seq s))"
    using split_at_space parsed_no_space(1) [OF assms(1)] parsed_no_space(1) [OF assms(2)] by blast+
  ultimately show "fact r = fact s"
    using parsed_seq [OF assms(1)] parsed_seq [OF assms(2)]
    by (simp add: fact_def toHex_inject decimal_inject nat_eq_iff2)
qed (simp add: fact_def equivocationKey_def)

text \<open>Ledgers grown from an empty one by recording, whatever is reported.\<close>

inductive recorded_from :: "crypto \<Rightarrow> Ledger \<Rightarrow> bool" for C where
  start: "recorded_from C (empty_ledger (Some []))"
| report: "recorded_from C L \<Longrightarrow> ledger_record C L a b origin True = Inr (M, out) \<Longrightarrow> recorded_from C M"

lemma recorded_inv:
  assumes "hash_length_ok C" "recorded_from C L"
  shows "ledger_inv C L \<and> ledger_synced L \<and> (\<exists>bs. lg_file L = Some bs)"
  using assms(2)
proof (induction rule: recorded_from.induct)
  case start
  show ?case by (simp add: empty_ledger_def ledger_inv_def ledger_synced_def)
next
  case (report L a b origin M out)
  have "\<exists>bs. lg_file M = Some bs"
    using assms(1)
    by (cases rule: ledger_record_cases [of C a b L origin True])
      (use report in \<open>auto simp: hold_entry_def\<close>)
  then show ?case
    using ledger_record_inv [OF assms(1)] ledger_record_synced [OF assms(1)] report by blast
qed

subsection \<open>The recorder's contract\<close>

text \<open>
  What the store relies on: reporting does not throw, keeps the recorder well-formed, and a report
  that verifies is settled afterwards.
\<close>

locale equivocation_recorder =
  fixes C :: crypto and R :: "'l recorder" and ok :: "'l \<Rightarrow> bool"
  assumes record_total: "ok l \<Longrightarrow> \<exists>m. rec_record R l a b origin = Inr m \<and> ok m"
    and record_settles: "ok l \<Longrightarrow> rec_record R l a b origin = Inr m \<Longrightarrow> equivocates C a b \<Longrightarrow>
      parseRecordBytes b = Inr r \<Longrightarrow> rec_settled R m r origin"
    and settled_mono: "ok l \<Longrightarrow> rec_record R l a b origin = Inr m \<Longrightarrow>
      rec_settled R l r origin' \<Longrightarrow> rec_settled R m r origin'"
begin

lemma record_ok: "ok l \<Longrightarrow> rec_record R l a b origin = Inr m \<Longrightarrow> ok m"
  using record_total [of l a b origin] by auto

end

lemma ledger_settles:
  assumes "hash_length_ok C" "ledger_record C L a b origin True = Inr (M, out)" "equivocates C a b"
    "parseRecordBytes b = Inr s"
  shows "settled M s origin"
proof -
  obtain r where r: "parseRecordBytes a = Inr r" "fact r = fact s"
    using assms(3,4) unfolding equivocates_def fact_def by auto
  then have eq: "equivocationKey s = equivocationKey r" using equivocationKey_fact assms(4) by metis
  show ?thesis
    using assms(1)
    by (cases rule: ledger_record_cases [of C a b L origin True])
      (use assms r eq in \<open>auto simp: settled_def hold_entry_def ledger_counts_def refuse_full_def split: origin.splits\<close>)
qed

lemma ledger_settled_mono:
  assumes "hash_length_ok C" "ledger_record C L a b origin True = Inr (M, out)" "settled L r origin'"
  shows "settled M r origin'"
  using assms(1)
  by (cases rule: ledger_record_cases [of C a b L origin True])
    (use assms in \<open>auto simp: settled_def hold_entry_def ledger_counts_def refuse_full_def
        refuse_unverified_def split: origin.splits\<close>)

definition ledger_ok :: "crypto \<Rightarrow> Ledger \<Rightarrow> bool" where
  "ledger_ok C L \<longleftrightarrow> hash_length_ok C \<and> ledger_inv C L"

lemma ledger_recorder_simps [simp]:
  "rec_settled (ledger_recorder C) = settled"
  "rec_record (ledger_recorder C) L a b origin = Inr M \<longleftrightarrow>
     (\<exists>out. ledger_record C L a b origin True = Inr (M, out))"
  by (auto simp: ledger_recorder_def split: sum.splits)

interpretation ledger: equivocation_recorder C "ledger_recorder C" "ledger_ok C" for C
proof unfold_locales
  fix L M a b origin origin' r
  show "\<exists>M. rec_record (ledger_recorder C) L a b origin = Inr M \<and> ledger_ok C M" if ok: "ledger_ok C L"
  proof -
    obtain M out where M: "ledger_record C L a b origin True = Inr (M, out)"
      using ledger_record_total [of C L a b origin True] ok unfolding ledger_ok_def by blast
    then have "ledger_ok C M" using ok ledger_record_inv [OF _ _ M] by (simp add: ledger_ok_def)
    with M show ?thesis by auto
  qed
  assume M: "rec_record (ledger_recorder C) L a b origin = Inr M" and L: "ledger_ok C L"
  obtain out where out: "ledger_record C L a b origin True = Inr (M, out)" using M by auto
  have h: "hash_length_ok C" using L by (simp add: ledger_ok_def)
  show "rec_settled (ledger_recorder C) M r origin" if "equivocates C a b" "parseRecordBytes b = Inr r"
    using ledger_settles [OF h out that] by simp
  show "rec_settled (ledger_recorder C) M r origin'" if "rec_settled (ledger_recorder C) L r origin'"
    using ledger_settled_mono [OF h out] that by simp
qed

section \<open>Properties\<close>

text \<open>
  The ledger's invariant. Recording never throws, drops nothing that is held and adds at most
  one entry; afterwards every entry still is verified evidence, no two entries share a key, each
  origin stays within its own budget, and the other origin's count is untouched.
\<close>

theorem ledger_bounded:
  assumes "hash_length_ok C" and "ledger_inv C L"
  shows "\<exists>M out. ledger_record C L a b origin p = Inr (M, out) \<and> ledger_inv C M \<and>
    (\<exists>new. lg_held M = lg_held L @ new \<and> length new = (if out = Recorded then 1 else 0)) \<and>
    (\<forall>other. other \<noteq> origin \<longrightarrow> ledger_counts M other = ledger_counts L other)"
proof -
  obtain M out where M: "ledger_record C L a b origin p = Inr (M, out)"
    using ledger_record_total [OF assms(1)] by blast
  show ?thesis
    using M ledger_record_inv [OF assms M] ledger_record_extends [OF assms(1) M] by blast
qed

theorem ledger_bounded_witness:
  "\<exists>M out. ledger_record sample_crypto ephemeral [1] [2] Received True = Inr (M, out) \<and>
     ledger_inv sample_crypto M \<and> ledger_counts M Detected = 0"
proof -
  have "ledger_inv sample_crypto ephemeral" by (simp add: ephemeral_def empty_ledger_def ledger_inv_def)
  from ledger_bounded [OF sample_hash_length this, of "[1]" "[2]" Received True]
  show ?thesis by (fastforce simp: ledger_counts_def ephemeral_def empty_ledger_def)
qed

text \<open>
  Durability. Whatever sequence of reports a ledger took, opening the file it wrote holds the
  same entries in the same order and refuses none.
\<close>

theorem ledger_durable:
  assumes "hash_length_ok C" and "recorded_from C L"
  shows "\<exists>bs M. lg_file L = Some bs \<and> ledger_open C (Some bs) = Inr M \<and> lg_held M = lg_held L \<and>
    lg_refusals M = \<lparr>rf_unverified = 0, rf_full = 0, rf_unreadable = 0\<rparr>"
  using recorded_inv [OF assms] ledger_reopen [OF assms(1), of L] by blast

theorem ledger_durable_witness:
  "\<exists>bs M. lg_file (empty_ledger (Some [])) = Some bs \<and> ledger_open sample_crypto (Some bs) = Inr M \<and> lg_held M = []"
  using ledger_durable [OF sample_hash_length recorded_from.start] by (auto simp: empty_ledger_def)

text \<open>
  A report cut off on disk takes later ones with it. When the last frame \<open>f\<close> of a ledger file is
  cut after its length prefix and the next report \<open>g\<close> is shorter than what is missing, reading the
  file yields only the entries before the cut, and the loss is not counted as unreadable.
\<close>

theorem ledger_tail_loss:
  assumes "\<forall>e\<in>set es. small_entry e" and "small_entry e" and "4 \<le> n"
    and "n + length g < length (entry_frame e)"
  shows "readEntries (concat (map entry_frame es) @ take n (entry_frame e) @ g) = (map entry_data es, 0)"
proof -
  obtain bs where bs: "entry_frame e = be_bytes 4 (length bs) @ bs" "bs \<noteq> []" "length bs \<le> 8700"
    using entry_frame [OF assms(2)] by metis
  have "readEntries (take n (entry_frame e) @ g) = ([], 0)"
    by (rule readEntries_short [of _ "length bs"]) (use assms(3,4) bs in simp_all)
  then show ?thesis using readEntries_frames [OF assms(1), of "take n (entry_frame e) @ g"] by simp
qed

theorem ledger_tail_loss_witness:
  "readEntries (take 4 (entry_frame \<lparr>l_origin = Detected, l_key = [], l_a = [], l_b = []\<rparr>) @ [1]) = ([], 0)"
proof -
  let ?e = "\<lparr>l_origin = Detected, l_key = [], l_a = [], l_b = []\<rparr>"
  have s: "small_entry ?e" by (simp add: small_entry_def)
  obtain bs where bs: "encode (CMap (entry_map ?e)) = Inr bs" "entry_frame ?e = be_bytes 4 (length bs) @ bs"
    using entry_frame [OF s] by metis
  have "length bs = 11" using bs(1) by (auto simp: exec entry_map_def)
  then show ?thesis using ledger_tail_loss [of "[]" ?e 4 "[1]"] s bs(2) by simp
qed

end
