(* ===== verification/Keys.thy ===== *)
theory Keys
  imports Domain
begin

section \<open>The index keyspace\<close>

text \<open>
  registry/src/keys.ts: the four keyspaces of the index, their range bounds and decoders. A key is
  a byte list ordered lexicographically. \<open>decodeTimestamp\<close> sums in double arithmetic; the sum
  exceeds the safe range exactly when the integer does, so the integer is modelled.

  The lemmas show that keys decode to what they were made of and that a range scan returns exactly
  the keys it is meant to.
\<close>

definition OWNER_KEY_FIELD_BYTES :: nat where "OWNER_KEY_FIELD_BYTES = 32"
definition TAG_CURRENT :: byte where "TAG_CURRENT = 0x6E"
definition TAG_BY_OWNER :: byte where "TAG_BY_OWNER = 0x6F"
definition TAG_EXPIRY :: byte where "TAG_EXPIRY = 0x78"
definition TAG_RATE :: byte where "TAG_RATE = 0x72"
definition SEPARATOR :: byte where "SEPARATOR = 0"
definition TIMESTAMP_BYTES :: nat where "TIMESTAMP_BYTES = 8"
definition MAX_TIMESTAMP :: int where "MAX_TIMESTAMP = 2 ^ 53 - 1"

datatype key_error =
    EMPTY_COMPONENT | ZERO_BYTE | NOT_IN_GRAMMAR | TIMESTAMP_OUT_OF_RANGE | OWNER_KEY_LENGTH
  | RANGE_REVERSED | WRONG_TAG | TRUNCATED_TIMESTAMP | UNSAFE_TIMESTAMP | TRUNCATED_OWNER_KEY
  | MISSING_TEXT | NOT_UTF8 | TRAILING_BYTES

text \<open>The character class of the regular expression in \<open>textComponent\<close>.\<close>

definition key_char :: "16 word \<Rightarrow> bool" where
  "key_char u \<longleftrightarrow> 0x61 \<le> u \<and> u \<le> 0x7A \<or> 0x30 \<le> u \<and> u \<le> 0x39 \<or> u = 0x2D"

definition textComponent :: "jsstr \<Rightarrow> key_error + bytes" where
  "textComponent s =
     (let bs = text_encode s in
      failIf (length bs = 0) EMPTY_COMPONENT
        (failIf (SEPARATOR \<in> set bs) ZERO_BYTE
          (failIf (\<not> (s \<noteq> [] \<and> list_all key_char s)) NOT_IN_GRAMMAR (Inr bs))))"

definition encodeTimestamp :: "int \<Rightarrow> key_error + bytes" where
  "encodeTimestamp v =
     failIf (v < 0 \<or> v > MAX_TIMESTAMP) TIMESTAMP_OUT_OF_RANGE (Inr (be_bytes TIMESTAMP_BYTES (nat v)))"

definition decodeTimestamp :: "bytes \<Rightarrow> nat \<Rightarrow> key_error + int" where
  "decodeTimestamp bs offset =
     failIf (offset + TIMESTAMP_BYTES > length bs) TRUNCATED_TIMESTAMP
       (let v = int (be_value (take TIMESTAMP_BYTES (drop offset bs))) in
        failIf (v > MAX_TIMESTAMP) UNSAFE_TIMESTAMP (Inr v))"

subsection \<open>Encoders\<close>

definition currentKey :: "jsstr \<Rightarrow> jsstr \<Rightarrow> key_error + bytes" where
  "currentKey tld label =
     bindE (textComponent tld) (\<lambda>t. bindE (textComponent label) (\<lambda>l.
       Inr (concat [[TAG_CURRENT], [SEPARATOR], t, [SEPARATOR], l])))"

definition byOwnerKey :: "bytes \<Rightarrow> jsstr \<Rightarrow> jsstr \<Rightarrow> key_error + bytes" where
  "byOwnerKey ownerKey tld label =
     failIf (length ownerKey \<noteq> OWNER_KEY_FIELD_BYTES) OWNER_KEY_LENGTH
       (bindE (textComponent tld) (\<lambda>t. bindE (textComponent label) (\<lambda>l.
         Inr (concat [[TAG_BY_OWNER], [SEPARATOR], ownerKey, [SEPARATOR], t, [SEPARATOR], l]))))"

definition expiryKey :: "int \<Rightarrow> jsstr \<Rightarrow> jsstr \<Rightarrow> key_error + bytes" where
  "expiryKey notAfter tld label =
     bindE (encodeTimestamp notAfter) (\<lambda>ts.
     bindE (textComponent tld) (\<lambda>t. bindE (textComponent label) (\<lambda>l.
       Inr (concat [[TAG_EXPIRY], [SEPARATOR], ts, [SEPARATOR], t, [SEPARATOR], l]))))"

definition rateKey :: "jsstr \<Rightarrow> int \<Rightarrow> jsstr \<Rightarrow> key_error + bytes" where
  "rateKey tld notBefore label =
     bindE (textComponent tld) (\<lambda>t. bindE (encodeTimestamp notBefore) (\<lambda>ts.
     bindE (textComponent label) (\<lambda>l.
       Inr (concat [[TAG_RATE], [SEPARATOR], t, [SEPARATOR], ts, [SEPARATOR], l]))))"

subsection \<open>Range bounds\<close>

definition currentPrefix :: "jsstr \<Rightarrow> key_error + bytes" where
  "currentPrefix tld =
     bindE (textComponent tld) (\<lambda>t. Inr (concat [[TAG_CURRENT], [SEPARATOR], t, [SEPARATOR]]))"

definition byOwnerPrefix :: "bytes \<Rightarrow> key_error + bytes" where
  "byOwnerPrefix ownerKey =
     failIf (length ownerKey \<noteq> OWNER_KEY_FIELD_BYTES) OWNER_KEY_LENGTH
       (Inr (concat [[TAG_BY_OWNER], [SEPARATOR], ownerKey, [SEPARATOR]]))"

definition expiryRange :: "int \<Rightarrow> int \<Rightarrow> key_error + bytes \<times> bytes" where
  "expiryRange start stop =
     failIf (stop < start) RANGE_REVERSED
       (let bound = (\<lambda>t. bindE (encodeTimestamp t) (\<lambda>ts.
              Inr (concat [[TAG_EXPIRY], [SEPARATOR], ts]))) in
        bindE (bound start) (\<lambda>gte. bindE (bound stop) (\<lambda>lt. Inr (gte, lt))))"

definition rateRange :: "jsstr \<Rightarrow> int \<Rightarrow> int \<Rightarrow> key_error + bytes \<times> bytes" where
  "rateRange tld start stop =
     failIf (stop < start) RANGE_REVERSED
       (let bound = (\<lambda>t. bindE (textComponent tld) (\<lambda>c. bindE (encodeTimestamp t) (\<lambda>ts.
              Inr (concat [[TAG_RATE], [SEPARATOR], c, [SEPARATOR], ts])))) in
        bindE (bound start) (\<lambda>gte. bindE (bound stop) (\<lambda>lt. Inr (gte, lt))))"

subsection \<open>Decoders\<close>

text \<open>The text and the offset behind its separator.\<close>

definition readText :: "bytes \<Rightarrow> nat \<Rightarrow> key_error + jsstr \<times> nat" where
  "readText key offset =
     (let raw = takeWhile (\<lambda>b. b \<noteq> SEPARATOR) (drop offset key) in
      failIf (raw = []) MISSING_TEXT
        (case text_decode raw of
           None \<Rightarrow> Inl NOT_UTF8
         | Some v \<Rightarrow> Inr (v, offset + length raw + 1)))"

definition expectTag :: "bytes \<Rightarrow> byte \<Rightarrow> key_error + unit" where
  "expectTag key expected =
     failIf (length key < 2 \<or> key ! 0 \<noteq> expected \<or> key ! 1 \<noteq> SEPARATOR) WRONG_TAG (Inr ())"

definition decodeCurrentKey :: "bytes \<Rightarrow> key_error + jsstr \<times> jsstr" where
  "decodeCurrentKey key =
     bindE (expectTag key TAG_CURRENT) (\<lambda>_.
     bindE (readText key 2) (\<lambda>(tld, n).
     bindE (readText key n) (\<lambda>(label, n').
     failIf (n' \<noteq> length key + 1) TRAILING_BYTES (Inr (tld, label)))))"

definition decodeByOwnerKey :: "bytes \<Rightarrow> key_error + bytes \<times> jsstr \<times> jsstr" where
  "decodeByOwnerKey key =
     bindE (expectTag key TAG_BY_OWNER) (\<lambda>_.
     let stop = 2 + OWNER_KEY_FIELD_BYTES in
     failIf (length key < stop + 1 \<or> key ! stop \<noteq> SEPARATOR) TRUNCATED_OWNER_KEY
       (bindE (readText key (stop + 1)) (\<lambda>(tld, n).
        bindE (readText key n) (\<lambda>(label, n').
        failIf (n' \<noteq> length key + 1) TRAILING_BYTES
          (Inr (take (stop - 2) (drop 2 key), tld, label))))))"

definition decodeExpiryKey :: "bytes \<Rightarrow> key_error + int \<times> jsstr \<times> jsstr" where
  "decodeExpiryKey key =
     bindE (expectTag key TAG_EXPIRY) (\<lambda>_.
     let stop = 2 + TIMESTAMP_BYTES in
     failIf (length key < stop + 1 \<or> key ! stop \<noteq> SEPARATOR) TRUNCATED_TIMESTAMP
       (bindE (decodeTimestamp key 2) (\<lambda>notAfter.
        bindE (readText key (stop + 1)) (\<lambda>(tld, n).
        bindE (readText key n) (\<lambda>(label, n').
        failIf (n' \<noteq> length key + 1) TRAILING_BYTES (Inr (notAfter, tld, label)))))))"

definition decodeRateKey :: "bytes \<Rightarrow> key_error + jsstr \<times> int \<times> jsstr" where
  "decodeRateKey key =
     bindE (expectTag key TAG_RATE) (\<lambda>_.
     bindE (readText key 2) (\<lambda>(tld, n).
     let stop = n + TIMESTAMP_BYTES in
     failIf (length key < stop + 1 \<or> key ! stop \<noteq> SEPARATOR) TRUNCATED_TIMESTAMP
       (bindE (decodeTimestamp key n) (\<lambda>notBefore.
        bindE (readText key (stop + 1)) (\<lambda>(label, n').
        failIf (n' \<noteq> length key + 1) TRAILING_BYTES (Inr (tld, notBefore, label)))))))"

lemmas key_constants = OWNER_KEY_FIELD_BYTES_def TAG_CURRENT_def TAG_BY_OWNER_def TAG_EXPIRY_def
  TAG_RATE_def SEPARATOR_def TIMESTAMP_BYTES_def MAX_TIMESTAMP_def

subsection \<open>Components\<close>

definition component_ok :: "jsstr \<Rightarrow> bool" where
  "component_ok s \<longleftrightarrow> s \<noteq> [] \<and> list_all key_char s"

lemma key_char_bounds: "key_char u \<Longrightarrow> 0 < unat u \<and> unat u < 0x80"
  by (auto simp: key_char_def word_le_nat_alt)

lemma component_ascii: "component_ok s \<Longrightarrow> is_ascii s"
  using key_char_bounds by (auto simp: component_ok_def is_ascii_def list_all_iff)

lemma component_bytes:
  assumes "component_ok s"
  shows "text_encode s \<noteq> []" "0 \<notin> set (text_encode s)" "text_decode (text_encode s) = Some s"
proof -
  note a = component_ascii [OF assms]
  show "text_encode s \<noteq> []" using assms by (simp add: text_encode_ascii [OF a] component_ok_def)
  show "0 \<notin> set (text_encode s)"
  proof
    assume "0 \<in> set (text_encode s)"
    then obtain u where u: "u \<in> set s" "(ucast u :: byte) = 0" by (auto simp: text_encode_ascii [OF a])
    have b: "0 < unat u \<and> unat u < 0x80"
      using assms u(1) key_char_bounds by (auto simp: component_ok_def list_all_iff)
    then have "unat (ucast u :: byte) = unat u" by (simp add: unat_ucast_byte)
    with b u(2) show False by simp
  qed
  show "text_decode (text_encode s) = Some s" using a by (rule text_decode_encode_ascii)
qed

lemma textComponent_Inr: "textComponent s = Inr t \<longleftrightarrow> component_ok s \<and> t = text_encode s"
  using component_bytes [of s]
  by (auto simp: textComponent_def Let_def SEPARATOR_def component_ok_def)

lemma encodeTimestamp_Inr:
  "encodeTimestamp v = Inr t \<longleftrightarrow> 0 \<le> v \<and> v < 2 ^ 53 \<and> t = be_bytes 8 (nat v)"
  by (auto simp: encodeTimestamp_def key_constants)

lemma text_encode_inject:
  "component_ok s \<Longrightarrow> component_ok t \<Longrightarrow> text_encode s = text_encode t \<longleftrightarrow> s = t"
  using component_bytes(3) by (metis option.inject)

subsection \<open>Reading back\<close>

lemma readText_sep:
  assumes "component_ok s" "drop offset key = text_encode s @ 0 # rest"
  shows "readText key offset = Inr (s, offset + length (text_encode s) + 1)"
proof -
  have "takeWhile (\<lambda>b. b \<noteq> SEPARATOR) (drop offset key) = text_encode s"
    unfolding assms(2) using component_bytes(2) [OF assms(1)]
    by (subst takeWhile_append2) (auto simp: SEPARATOR_def)
  then show ?thesis using component_bytes [OF assms(1)] by (simp add: readText_def Let_def)
qed

lemma readText_end:
  assumes "component_ok s" "drop offset key = text_encode s"
  shows "readText key offset = Inr (s, offset + length (text_encode s) + 1)"
proof -
  have "takeWhile (\<lambda>b. b \<noteq> SEPARATOR) (drop offset key) = text_encode s"
    unfolding assms(2) using component_bytes(2) [OF assms(1)]
    by (subst takeWhile_eq_all_conv) (auto simp: SEPARATOR_def)
  then show ?thesis using component_bytes [OF assms(1)] by (simp add: readText_def Let_def)
qed

lemma decodeTimestamp_at:
  assumes "0 \<le> v" "v < 2 ^ 53" "drop offset key = be_bytes 8 (nat v) @ rest"
  shows "decodeTimestamp key offset = Inr v"
proof -
  have "offset + 8 \<le> length key"
    using arg_cong [OF assms(3), of length] by simp
  moreover have "be_value (be_bytes 8 (nat v)) = nat v"
    using assms(1,2) by (intro be_value_be_bytes) (simp add: nat_less_iff)
  ultimately show ?thesis using assms by (simp add: decodeTimestamp_def key_constants Let_def)
qed

lemma drop_prefix: "key = p @ rest \<Longrightarrow> length p = n \<Longrightarrow> drop n key = rest"
  by simp

lemma decode_currentKey:
  assumes "currentKey tld label = Inr key"
  shows "decodeCurrentKey key = Inr (tld, label)"
proof -
  let ?t = "text_encode tld" and ?l = "text_encode label"
  have ok: "component_ok tld" "component_ok label"
    and key: "key = TAG_CURRENT # 0 # ?t @ 0 # ?l"
    using assms by (auto simp: currentKey_def errs textComponent_Inr SEPARATOR_def)
  have "readText key 2 = Inr (tld, 2 + length ?t + 1)"
    by (rule readText_sep [OF ok(1)]) (simp add: key)
  moreover have "readText key (2 + length ?t + 1) = Inr (label, (2 + length ?t + 1) + length ?l + 1)"
    by (rule readText_end [OF ok(2)]) (simp add: key)
  moreover have "expectTag key TAG_CURRENT = Inr ()" by (simp add: expectTag_def key SEPARATOR_def)
  ultimately show ?thesis by (simp add: decodeCurrentKey_def key)
qed

lemma decode_byOwnerKey:
  assumes "byOwnerKey owner tld label = Inr key"
  shows "decodeByOwnerKey key = Inr (owner, tld, label)"
proof -
  let ?t = "text_encode tld" and ?l = "text_encode label"
  have ok: "component_ok tld" "component_ok label" "length owner = 32"
    and key: "key = TAG_BY_OWNER # 0 # owner @ 0 # ?t @ 0 # ?l"
    using assms by (auto simp: byOwnerKey_def errs textComponent_Inr SEPARATOR_def OWNER_KEY_FIELD_BYTES_def)
  have "readText key 35 = Inr (tld, 35 + length ?t + 1)"
    by (rule readText_sep [OF ok(1)]) (use ok(3) in \<open>simp add: key\<close>)
  moreover have "readText key (35 + length ?t + 1) = Inr (label, (35 + length ?t + 1) + length ?l + 1)"
    by (rule readText_end [OF ok(2)], rule drop_prefix [of _ "TAG_BY_OWNER # 0 # owner @ 0 # ?t @ [0]"])
      (use ok(3) in \<open>simp_all add: key\<close>)
  moreover have "expectTag key TAG_BY_OWNER = Inr ()" by (simp add: expectTag_def key SEPARATOR_def)
  moreover have "key ! 34 = 0" using ok(3) by (simp add: key nth_append)
  moreover have "take 32 (drop 2 key) = owner" "length key = 36 + length ?t + length ?l"
    using ok(3) by (simp_all add: key)
  ultimately show ?thesis
    by (simp add: decodeByOwnerKey_def OWNER_KEY_FIELD_BYTES_def SEPARATOR_def Let_def)
qed

lemma decode_expiryKey:
  assumes "expiryKey notAfter tld label = Inr key"
  shows "decodeExpiryKey key = Inr (notAfter, tld, label)"
proof -
  let ?t = "text_encode tld" and ?l = "text_encode label" and ?n = "be_bytes 8 (nat notAfter)"
  have ok: "component_ok tld" "component_ok label" "0 \<le> notAfter" "notAfter < 2 ^ 53"
    and key: "key = TAG_EXPIRY # 0 # ?n @ 0 # ?t @ 0 # ?l"
    using assms by (auto simp: expiryKey_def errs textComponent_Inr encodeTimestamp_Inr SEPARATOR_def)
  have "readText key 11 = Inr (tld, 11 + length ?t + 1)"
    by (rule readText_sep [OF ok(1)]) (simp add: key)
  moreover have "readText key (11 + length ?t + 1) = Inr (label, (11 + length ?t + 1) + length ?l + 1)"
    by (rule readText_end [OF ok(2)], rule drop_prefix [of _ "TAG_EXPIRY # 0 # ?n @ 0 # ?t @ [0]"])
      (simp_all add: key)
  moreover have "expectTag key TAG_EXPIRY = Inr ()" by (simp add: expectTag_def key SEPARATOR_def)
  moreover have "key ! 10 = 0" by (simp add: key nth_append)
  moreover have "decodeTimestamp key 2 = Inr notAfter"
    by (rule decodeTimestamp_at [OF ok(3,4)]) (simp add: key)
  moreover have "length key = 12 + length ?t + length ?l" by (simp add: key)
  ultimately show ?thesis
    by (simp add: decodeExpiryKey_def TIMESTAMP_BYTES_def SEPARATOR_def Let_def)
qed

lemma decode_rateKey:
  assumes "rateKey tld notBefore label = Inr key"
  shows "decodeRateKey key = Inr (tld, notBefore, label)"
proof -
  let ?t = "text_encode tld" and ?l = "text_encode label" and ?n = "be_bytes 8 (nat notBefore)"
  have ok: "component_ok tld" "component_ok label" "0 \<le> notBefore" "notBefore < 2 ^ 53"
    and key: "key = TAG_RATE # 0 # ?t @ 0 # ?n @ 0 # ?l"
    using assms by (auto simp: rateKey_def errs textComponent_Inr encodeTimestamp_Inr SEPARATOR_def)
  define n where "n = 2 + length ?t + 1"
  have "readText key 2 = Inr (tld, n)"
    unfolding n_def by (rule readText_sep [OF ok(1)]) (simp add: key)
  moreover have "readText key (n + 8 + 1) = Inr (label, (n + 8 + 1) + length ?l + 1)"
    by (rule readText_end [OF ok(2)], rule drop_prefix [of _ "TAG_RATE # 0 # ?t @ 0 # ?n @ [0]"])
      (simp_all add: key n_def)
  moreover have "expectTag key TAG_RATE = Inr ()" by (simp add: expectTag_def key SEPARATOR_def)
  moreover have "key ! (n + 8) = 0" by (simp add: key n_def nth_append)
  moreover have "decodeTimestamp key n = Inr notBefore"
    by (rule decodeTimestamp_at [OF ok(3,4)]) (simp add: key n_def)
  moreover have "length key = n + 9 + length ?l" by (simp add: key n_def)
  ultimately show ?thesis
    by (simp add: decodeRateKey_def TIMESTAMP_BYTES_def SEPARATOR_def Let_def)
qed

subsection \<open>Order\<close>

lemma less_append:
  "length xs = length ys \<Longrightarrow> xs @ a < ys @ b \<longleftrightarrow> xs < ys \<or> xs = ys \<and> (a :: bytes) < b"
  by (induction xs ys rule: list_induct2) auto

lemma less_same_prefix [simp]: "xs @ a < xs @ b \<longleftrightarrow> (a :: bytes) < b"
  by (simp add: less_append)

lemma be_value_Cons: "be_value (b # bs) = unat b * 256 ^ length bs + be_value bs"
proof (induction bs rule: rev_induct)
  case (snoc x xs)
  have "be_value ((b # xs) @ [x]) = be_value (b # xs) * 256 + unat x" by (rule be_value_snoc)
  then show ?case using snoc by (simp add: algebra_simps)
qed (simp add: be_value_def)

lemma less_be_value: "length xs = length ys \<Longrightarrow> xs < ys \<longleftrightarrow> be_value xs < be_value ys"
proof (induction xs ys rule: list_induct2)
  case (Cons x xs y ys)
  have b: "be_value xs < 256 ^ length xs" "be_value ys < 256 ^ length xs"
    using be_value_less [of xs] be_value_less [of ys] Cons.hyps by simp_all
  have lt: "m * k + v < n * k + w" if "m < n" "v < k" for m n k v w :: nat
  proof -
    have "m * k + v < (m + 1) * k" using that(2) by simp
    also have "\<dots> \<le> n * k" using that(1) by (intro mult_le_mono1) simp
    finally show ?thesis by simp
  qed
  have gt: "x < y \<Longrightarrow> unat x * 256 ^ length xs + be_value xs < unat y * 256 ^ length xs + be_value ys"
    "y < x \<Longrightarrow> unat y * 256 ^ length xs + be_value ys < unat x * 256 ^ length xs + be_value xs"
    using lt b by (simp_all add: word_less_nat_alt)
  show ?case
    using gt Cons by (cases x y rule: linorder_cases) (auto simp: be_value_Cons Cons.hyps)
qed simp

lemma timestamp_less:
  assumes "0 \<le> v" "v < 2 ^ 53" "0 \<le> w" "w < 2 ^ 53"
  shows "be_bytes 8 (nat v) < be_bytes 8 (nat w) \<longleftrightarrow> v < w" "be_bytes 8 (nat v) = be_bytes 8 (nat w) \<longleftrightarrow> v = w"
proof -
  have "be_value (be_bytes 8 (nat v)) = nat v" "be_value (be_bytes 8 (nat w)) = nat w"
    using assms by (simp_all add: be_value_be_bytes nat_less_iff)
  note vals = this
  show "be_bytes 8 (nat v) < be_bytes 8 (nat w) \<longleftrightarrow> v < w"
    using assms(1,3) less_be_value [of "be_bytes 8 (nat v)" "be_bytes 8 (nat w)"] unfolding vals by auto
  show "be_bytes 8 (nat v) = be_bytes 8 (nat w) \<longleftrightarrow> v = w"
    using vals eq_nat_nat_iff [OF assms(1,3)] by metis
qed

text \<open>Different texts without a zero byte are ordered before what follows their separators.\<close>

lemma less_separated:
  "xs \<noteq> ys \<Longrightarrow> 0 \<notin> set xs \<Longrightarrow> 0 \<notin> set ys \<Longrightarrow> xs @ 0 # a < ys @ 0 # b \<longleftrightarrow> xs < (ys :: bytes)"
proof (induction xs arbitrary: ys)
  case Nil
  then show ?case by (cases ys) (auto simp: word_neq_0_conv)
next
  case (Cons x xs)
  then show ?case by (cases ys) (auto simp: word_neq_0_conv dest: less_asym)
qed

lemma expiryRange_exact:
  assumes "expiryRange start stop = Inr (gte, lt)" "expiryKey notAfter tld label = Inr key"
  shows "gte \<le> key \<and> key < lt \<longleftrightarrow> start \<le> notAfter \<and> notAfter < stop"
proof -
  let ?ts = "\<lambda>v. be_bytes 8 (nat v)"
  have r: "0 \<le> start" "start < 2 ^ 53" "0 \<le> stop" "stop < 2 ^ 53" "0 \<le> notAfter" "notAfter < 2 ^ 53"
    and e: "gte = TAG_EXPIRY # 0 # ?ts start" "lt = TAG_EXPIRY # 0 # ?ts stop"
      "key = TAG_EXPIRY # 0 # ?ts notAfter @ 0 # text_encode tld @ 0 # text_encode label"
    using assms by (auto simp: expiryRange_def expiryKey_def errs textComponent_Inr encodeTimestamp_Inr
        SEPARATOR_def Let_def)
  have "\<not> key < gte \<longleftrightarrow> start \<le> notAfter"
    using less_append [of "?ts notAfter" "?ts start" "0 # text_encode tld @ 0 # text_encode label" "[]"]
      timestamp_less [OF r(5,6,1,2)] by (auto simp: e)
  moreover have "key < lt \<longleftrightarrow> notAfter < stop"
    using less_append [of "?ts notAfter" "?ts stop" "0 # text_encode tld @ 0 # text_encode label" "[]"]
      timestamp_less [OF r(5,6,3,4)] by (simp add: e)
  ultimately show ?thesis by (simp add: not_less)
qed

lemma rateRange_exact:
  assumes "rateRange tld start stop = Inr (gte, lt)" "rateKey tld' notBefore label = Inr key"
  shows "gte \<le> key \<and> key < lt \<longleftrightarrow> tld' = tld \<and> start \<le> notBefore \<and> notBefore < stop"
proof -
  let ?ts = "\<lambda>v. be_bytes 8 (nat v)" and ?t = "text_encode tld" and ?t' = "text_encode tld'"
  have r: "0 \<le> start" "start < 2 ^ 53" "0 \<le> stop" "stop < 2 ^ 53" "0 \<le> notBefore" "notBefore < 2 ^ 53"
    and ok: "component_ok tld" "component_ok tld'"
    and e: "gte = TAG_RATE # 0 # ?t @ 0 # ?ts start" "lt = TAG_RATE # 0 # ?t @ 0 # ?ts stop"
      "key = TAG_RATE # 0 # ?t' @ 0 # ?ts notBefore @ 0 # text_encode label"
    using assms by (auto simp: rateRange_def rateKey_def errs textComponent_Inr encodeTimestamp_Inr
        SEPARATOR_def Let_def)
  show ?thesis
  proof (cases "tld' = tld")
    case True
    have "\<not> key < gte \<longleftrightarrow> start \<le> notBefore"
      using less_append [of "?ts notBefore" "?ts start" "0 # text_encode label" "[]"]
        timestamp_less [OF r(5,6,1,2)] True by (auto simp: e)
    moreover have "key < lt \<longleftrightarrow> notBefore < stop"
      using less_append [of "?ts notBefore" "?ts stop" "0 # text_encode label" "[]"]
        timestamp_less [OF r(5,6,3,4)] True by (simp add: e)
    ultimately show ?thesis using True by (simp add: not_less)
  next
    case False
    then have ne: "?t' \<noteq> ?t" using text_encode_inject ok by simp
    have "key < gte \<longleftrightarrow> ?t' < ?t" "key < lt \<longleftrightarrow> ?t' < ?t"
      using less_separated [OF ne component_bytes(2) [OF ok(2)] component_bytes(2) [OF ok(1)]]
      by (simp_all add: e)
    then show ?thesis using False by auto
  qed
qed

section \<open>Properties\<close>

text \<open>Every key of the four keyspaces decodes to the components it was made of.\<close>

theorem keys_roundtrip:
  "(currentKey tld label = Inr k \<longrightarrow> decodeCurrentKey k = Inr (tld, label)) \<and>
   (byOwnerKey owner tld label = Inr k \<longrightarrow> decodeByOwnerKey k = Inr (owner, tld, label)) \<and>
   (expiryKey t tld label = Inr k \<longrightarrow> decodeExpiryKey k = Inr (t, tld, label)) \<and>
   (rateKey tld t label = Inr k \<longrightarrow> decodeRateKey k = Inr (tld, t, label))"
  using decode_currentKey decode_byOwnerKey decode_expiryKey decode_rateKey by blast

theorem keys_roundtrip_witness:
  "\<exists>k. rateKey (js ''vayu'') 1700000000 (js ''example'') = Inr k \<and>
     decodeRateKey k = Inr (js ''vayu'', 1700000000, js ''example'')"
proof -
  have "component_ok (js ''vayu'')" "component_ok (js ''example'')"
    by (simp_all add: component_ok_def key_char_def)
  then have "\<exists>k. rateKey (js ''vayu'') 1700000000 (js ''example'') = Inr k"
    by (simp add: rateKey_def errs textComponent_Inr encodeTimestamp_Inr)
  then show ?thesis using keys_roundtrip by blast
qed

text \<open>
  A range scan returns what it is asked for: the keys between the bounds of \<open>expiryRange\<close> are
  those that expire in the half-open interval, and between the bounds of \<open>rateRange\<close> those of that
  very extension in the interval, whatever other extensions sort next to it.
\<close>

theorem key_ranges_exact:
  assumes "expiryRange start stop = Inr (gte, lt)" and "expiryKey t tld label = Inr key"
    and "rateRange tld start stop = Inr (gte', lt')" and "rateKey tld' t label = Inr key'"
  shows "(gte \<le> key \<and> key < lt \<longleftrightarrow> start \<le> t \<and> t < stop) \<and>
    (gte' \<le> key' \<and> key' < lt' \<longleftrightarrow> tld' = tld \<and> start \<le> t \<and> t < stop)"
  using expiryRange_exact [OF assms(1,2)] rateRange_exact [OF assms(3,4)] by blast

theorem key_ranges_exact_witness:
  "\<exists>gte lt key. rateRange (js ''vayu'') 5 9 = Inr (gte, lt) \<and> rateKey (js ''vayu2'') 7 (js ''a'') = Inr key \<and>
     \<not> (gte \<le> key \<and> key < lt)"
proof -
  have ok: "component_ok (js ''vayu'')" "component_ok (js ''vayu2'')" "component_ok (js ''a'')"
    by (simp_all add: component_ok_def key_char_def)
  obtain gte lt key where r: "rateRange (js ''vayu'') 5 9 = Inr (gte, lt)" "rateKey (js ''vayu2'') 7 (js ''a'') = Inr key"
    using ok by (simp add: rateKey_def rateRange_def errs textComponent_Inr encodeTimestamp_Inr Let_def del: js_simps)
  obtain gte' lt' key' where e: "expiryRange 5 9 = Inr (gte', lt')" "expiryKey 7 (js ''vayu'') (js ''a'') = Inr key'"
    using ok by (simp add: expiryKey_def expiryRange_def errs textComponent_Inr encodeTimestamp_Inr Let_def del: js_simps)
  have "\<not> (gte \<le> key \<and> key < lt)"
    using key_ranges_exact [OF e r] by (simp del: js_simps)
  with r show ?thesis by blast
qed

end
