(* ===== verification/Checkpoint.thy ===== *)
theory Checkpoint
  imports Merkle Keys Lifecycle "HOL-Library.Multiset"
begin

section \<open>Checkpoints and light clients\<close>

text \<open>
  registry/src/checkpoint.ts: what a checkpoint commits to, how two are compared, what a light
  client may conclude, which length it trusts, and the ledger of forks. The detail texts of an
  answer are the constructors of \<open>detail\<close>.
\<close>

definition CHECKPOINT_INTERVAL :: int where "CHECKPOINT_INTERVAL = 10000"

definition INDEX_ROOT_PREFIX :: jsstr where "INDEX_ROOT_PREFIX = js ''VayuWeb-Registry-Index-v1''"

definition INDEX_PREFIX_BYTES :: bytes where "INDEX_PREFIX_BYTES = text_encode INDEX_ROOT_PREFIX"

datatype checkpoint_error = NOT_LABEL_TLD | CP_KEY key_error | CP_MERKLE merkle_error

record Checkpoint =
  cp_logLength :: int
  cp_treeRoot :: bytes
  cp_indexRoot :: bytes
  cp_liveNames :: int

definition isCheckpointLength :: "int \<Rightarrow> bool" where
  "isCheckpointLength logLength \<longleftrightarrow> logLength > 0 \<and> logLength mod CHECKPOINT_INTERVAL = 0"

text \<open>\<open>lastIndexOf\<close>, with \<open>None\<close> for \<open>-1\<close>.\<close>

definition last_index_of :: "'a \<Rightarrow> 'a list \<Rightarrow> nat option" where
  "last_index_of c xs = map_option (\<lambda>i. length xs - 1 - i) (index_of c (rev xs))"

definition index_row :: "jsstr \<times> bytes \<Rightarrow> checkpoint_error + bytes" where
  "index_row e =
     (case e of (name, recordHash) \<Rightarrow>
        (case last_index_of DOT name of
           None \<Rightarrow> Inl NOT_LABEL_TLD
         | Some dot \<Rightarrow>
             failIf (dot = 0) NOT_LABEL_TLD
               (case currentKey (drop (dot + 1) name) (take dot name) of
                  Inl x \<Rightarrow> Inl (CP_KEY x)
                | Inr key \<Rightarrow> Inr (key @ recordHash))))"

text \<open>The comparison of \<open>rows.sort\<close> is the lexicographic order of byte lists.\<close>

definition indexRoot :: "crypto \<Rightarrow> (jsstr, bytes) jsmap \<Rightarrow> checkpoint_error + bytes" where
  "indexRoot C current =
     bindE (mapE index_row current) (\<lambda>rows.
       Inr (blake2b_256 C (INDEX_PREFIX_BYTES @ [0] @ concat (sort rows))))"

definition resolves_at :: "RegistryRecord \<Rightarrow> int \<Rightarrow> bool" where
  "resolves_at r now =
     (let life = lifecycleOf r in \<not> revoked life \<and> now \<ge> liveFrom life \<and> now < liveUntil life)"

definition checkpointOf ::
  "crypto \<Rightarrow> bytes list \<Rightarrow> (jsstr, bytes) jsmap \<Rightarrow> (jsstr, RegistryRecord) jsmap \<Rightarrow> int \<Rightarrow>
     checkpoint_error + Checkpoint" where
  "checkpointOf C entries current records now =
     (let liveNames = foldl (\<lambda>n r. if resolves_at r now then n + 1 else n) 0 (map snd records) in
      case bindE (treeOf C entries) (tree_root C) of
        Inl e \<Rightarrow> Inl (CP_MERKLE e)
      | Inr treeRoot \<Rightarrow>
          bindE (indexRoot C current) (\<lambda>index.
            Inr \<lparr>cp_logLength = int (length entries), cp_treeRoot = treeRoot, cp_indexRoot = index,
                 cp_liveNames = liveNames\<rparr>))"

datatype comparison = IDENTICAL | DIVERGED | DIFFERENT_LENGTH | INDEX_DIVERGED

definition compareCheckpoints :: "Checkpoint \<Rightarrow> Checkpoint \<Rightarrow> comparison" where
  "compareCheckpoints a b =
     (if cp_logLength a \<noteq> cp_logLength b then DIFFERENT_LENGTH
      else if \<not> same_bytes (cp_treeRoot a) (cp_treeRoot b) then DIVERGED
      else if \<not> same_bytes (cp_indexRoot a) (cp_indexRoot b) then INDEX_DIVERGED
      else IDENTICAL)"

subsection \<open>Light clients\<close>

datatype detail = NO_PEER | PROOF_PAST_LENGTH | PROOF_FAILS | SINGLE_PEER | CORROBORATED

record LightClientAnswer =
  a_name :: jsstr
  a_verified :: bool
  a_logLength :: int
  a_observedAt :: int
  a_peersAgreeing :: int
  a_freshnessUnproven :: bool
  a_detail :: detail

definition verifyNameInclusion ::
  "crypto \<Rightarrow> jsstr \<Rightarrow> bytes \<Rightarrow> Proof \<Rightarrow> bytes \<Rightarrow> int \<Rightarrow> int \<Rightarrow> int \<Rightarrow> merkle_error + LightClientAnswer" where
  "verifyNameInclusion C name recordBytes pf treeRoot logLength observedAt peersAgreeing =
     (let answer = (\<lambda>verified detail.
        \<lparr>a_name = name, a_verified = verified, a_logLength = logLength, a_observedAt = observedAt,
         a_peersAgreeing = peersAgreeing, a_freshnessUnproven = True, a_detail = detail\<rparr>) in
      if peersAgreeing < 1 then Inr (answer False NO_PEER)
      else if int (pf_leafIndex pf) \<ge> logLength then Inr (answer False PROOF_PAST_LENGTH)
      else bindE (verifyInclusion C recordBytes pf treeRoot) (\<lambda>ok.
        Inr (if \<not> ok then answer False PROOF_FAILS
             else answer True (if peersAgreeing = 1 then SINGLE_PEER else CORROBORATED))))"

definition claim_counts :: "int list \<Rightarrow> (int, nat) jsmap" where
  "claim_counts claims =
     foldl (\<lambda>counts claim.
       map_set claim ((case map_get counts claim of None \<Rightarrow> 0 | Some n \<Rightarrow> n) + 1) counts) [] claims"

definition better_length :: "int list \<Rightarrow> int \<Rightarrow> (int \<times> int) option \<Rightarrow> int \<times> nat \<Rightarrow> (int \<times> int) option" where
  "better_length claims quorum best entry =
     (let len = fst entry;
          agreeing = foldl (\<lambda>n claim. if claim \<ge> len then n + 1 else n) (0 :: int) claims in
      if agreeing \<ge> quorum \<and> (case best of None \<Rightarrow> True | Some b \<Rightarrow> len > fst b)
      then Some (len, agreeing) else best)"

definition greatestCorroboratedLength :: "int list \<Rightarrow> int \<Rightarrow> (int \<times> int) option" where
  "greatestCorroboratedLength claims quorum =
     (if claims = [] then None
      else foldl (better_length claims quorum) None (claim_counts claims))"

subsection \<open>The ledger of forks\<close>

record checkpoint_limits =
  lim_lengths :: nat
  lim_forks :: nat

definition CHECKPOINT_LIMITS :: checkpoint_limits where
  "CHECKPOINT_LIMITS = \<lparr>lim_lengths = 64, lim_forks = 32\<rparr>"

datatype observation = FIRST | AGREES | FORK | NOT_A_CHECKPOINT_LENGTH | LEDGER_FULL

record ForkReport =
  fr_logLength :: int
  fr_first :: Checkpoint
  fr_other :: Checkpoint
  fr_difference :: comparison

record CheckpointLedger =
  cl_seen :: "(int, Checkpoint) jsmap"
  cl_disagreements :: "ForkReport list"
  cl_refusedCount :: nat

definition empty_checkpoint_ledger :: CheckpointLedger where
  "empty_checkpoint_ledger = \<lparr>cl_seen = [], cl_disagreements = [], cl_refusedCount = 0\<rparr>"

definition refuse_checkpoint :: "CheckpointLedger \<Rightarrow> CheckpointLedger" where
  "refuse_checkpoint L = L\<lparr>cl_refusedCount := cl_refusedCount L + 1\<rparr>"

definition observe :: "CheckpointLedger \<Rightarrow> Checkpoint \<Rightarrow> CheckpointLedger \<times> observation" where
  "observe L c =
     (if \<not> isCheckpointLength (cp_logLength c) then (refuse_checkpoint L, NOT_A_CHECKPOINT_LENGTH)
      else case map_get (cl_seen L) (cp_logLength c) of
          None \<Rightarrow>
            if length (cl_seen L) \<ge> lim_lengths CHECKPOINT_LIMITS then (refuse_checkpoint L, LEDGER_FULL)
            else (L\<lparr>cl_seen := map_set (cp_logLength c) c (cl_seen L)\<rparr>, FIRST)
        | Some held \<Rightarrow>
            let difference = compareCheckpoints held c in
            if difference = IDENTICAL then (L, AGREES)
            else
              (if length (cl_disagreements L) < lim_forks CHECKPOINT_LIMITS
               then L\<lparr>cl_disagreements := cl_disagreements L @
                       [\<lparr>fr_logLength = cp_logLength c, fr_first = held, fr_other = c,
                         fr_difference = difference\<rparr>]\<rparr>
               else refuse_checkpoint L, FORK))"

primrec observe_all :: "CheckpointLedger \<Rightarrow> Checkpoint list \<Rightarrow> CheckpointLedger" where
  "observe_all L [] = L"
| "observe_all L (c # cs) = observe_all (fst (observe L c)) cs"

subsection \<open>The index root does not depend on the order of insertion\<close>

lemma mapE_mset:
  "mset xs = mset ys \<Longrightarrow> mapE f xs = Inr as \<Longrightarrow> \<exists>bs. mapE f ys = Inr bs \<and> mset as = mset bs"
proof (induction xs arbitrary: ys as)
  case (Cons x xs)
  then obtain a as' where a: "f x = Inr a" "mapE f xs = Inr as'" "as = a # as'" by (auto simp: errs)
  have "x \<in> set ys" using Cons.prems(1) by (metis list.set_intros(1) mset_eq_setD)
  then obtain us vs where ys: "ys = us @ x # vs" by (meson split_list)
  have "mset xs = mset (us @ vs)" using Cons.prems(1) ys by simp
  from Cons.IH [OF this a(2)] obtain bs where bs: "mapE f (us @ vs) = Inr bs" "mset as' = mset bs" by blast
  have split: "mapE f (us @ ws) = bindE (mapE f us) (\<lambda>p. bindE (mapE f ws) (\<lambda>q. Inr (p @ q)))" for ws
    by (induction us) (auto split: sum.splits)
  obtain p q where "mapE f us = Inr p" "mapE f vs = Inr q" "bs = p @ q"
    using bs(1) by (auto simp: split errs)
  then show ?case using a bs(2) ys by (simp add: split)
qed simp

lemma indexRoot_order:
  assumes "mset current = mset current'" "indexRoot C current = Inr h"
  shows "indexRoot C current' = Inr h"
proof -
  obtain rows where r: "mapE index_row current = Inr rows"
      "h = blake2b_256 C (INDEX_PREFIX_BYTES @ [0] @ concat (sort rows))"
    using assms(2) by (auto simp: indexRoot_def errs)
  obtain rows' where "mapE index_row current' = Inr rows'" "mset rows = mset rows'"
    using mapE_mset [OF assms(1) r(1)] by blast
  moreover from this(2) have "sort rows = sort rows'"
    by (metis properties_for_sort mset_sort sorted_sort)
  ultimately show ?thesis using r by (simp add: indexRoot_def)
qed

subsection \<open>The corroborated length\<close>

definition claiming :: "int list \<Rightarrow> int \<Rightarrow> int" where
  "claiming claims len = int (length (filter (\<lambda>c. c \<ge> len) claims))"

lemma agreeing_fold:
  "foldl (\<lambda>n claim. if claim \<ge> len then n + 1 else n) k claims = k + claiming claims (len :: int)"
  unfolding claiming_def by (induction claims arbitrary: k) simp_all

lemma claim_counts_keys: "fst ` set (claim_counts claims) = set claims"
proof -
  have "fst ` set (foldl (\<lambda>counts claim.
      map_set claim ((case map_get counts claim of None \<Rightarrow> 0 | Some n \<Rightarrow> n) + 1) counts) m claims) =
      fst ` set m \<union> set claims" for m :: "(int, nat) jsmap"
    by (induction claims arbitrary: m) (auto simp: dom_update)
  then show ?thesis by (simp add: claim_counts_def)
qed

definition best_among :: "int list \<Rightarrow> int \<Rightarrow> int set \<Rightarrow> (int \<times> int) option \<Rightarrow> bool" where
  "best_among claims quorum S best \<longleftrightarrow>
     (case best of
        None \<Rightarrow> \<forall>l\<in>S. claiming claims l < quorum
      | Some (l, n) \<Rightarrow> l \<in> S \<and> n = claiming claims l \<and> quorum \<le> n \<and>
          (\<forall>m\<in>S. quorum \<le> claiming claims m \<longrightarrow> m \<le> l))"

lemma better_length_best:
  assumes "best_among claims quorum S best"
  shows "best_among claims quorum (insert (fst e) S) (better_length claims quorum best e)"
  using assms
  by (auto simp: best_among_def better_length_def agreeing_fold Let_def split: option.splits)

lemma better_length_fold:
  "best_among claims quorum S best \<Longrightarrow>
     best_among claims quorum (S \<union> fst ` set es) (foldl (better_length claims quorum) best es)"
proof (induction es arbitrary: S best)
  case (Cons e es)
  then show ?case using better_length_best [OF Cons.prems, of e] Cons.IH by fastforce
qed simp

lemma corroborated_best: "best_among claims quorum (set claims) (greatestCorroboratedLength claims quorum)"
proof (cases "claims = []")
  case False
  have "best_among claims quorum {} None" by (simp add: best_among_def)
  from better_length_fold [OF this, of "claim_counts claims"] False show ?thesis
    by (simp add: greatestCorroboratedLength_def claim_counts_keys)
qed (simp add: greatestCorroboratedLength_def best_among_def)

lemma corroborated_bound:
  assumes "greatestCorroboratedLength claims quorum = Some (l, n)"
    and "int (length (filter (\<lambda>c. c > honest) claims)) < quorum"
  shows "l \<le> honest"
proof (rule ccontr)
  assume "\<not> l \<le> honest"
  then have "claiming claims l \<le> int (length (filter (\<lambda>c. c > honest) claims))"
    unfolding claiming_def by (induction claims) auto
  moreover have "quorum \<le> claiming claims l"
    using corroborated_best [of claims quorum] assms(1) by (auto simp: best_among_def)
  ultimately show False using assms(2) by simp
qed

subsection \<open>Forks are surfaced\<close>

lemma compare_identical:
  "compareCheckpoints a b = IDENTICAL \<longleftrightarrow>
     cp_logLength a = cp_logLength b \<and> cp_treeRoot a = cp_treeRoot b \<and> cp_indexRoot a = cp_indexRoot b"
  by (simp add: compareCheckpoints_def)

lemma observe_grows:
  "(\<exists>new. cl_disagreements (fst (observe L c)) = cl_disagreements L @ new) \<and>
   (map_get (cl_seen L) len = Some h \<longrightarrow> map_get (cl_seen (fst (observe L c))) len = Some h) \<and>
   length (cl_seen L) \<le> length (cl_seen (fst (observe L c)))"
proof -
  have "length m \<le> length (map_set k v m)" for k v and m :: "(int, Checkpoint) jsmap"
    by (induction m) auto
  then show ?thesis
    by (auto simp: observe_def refuse_checkpoint_def Let_def split: option.splits)
qed

lemma observe_all_grows:
  "(\<exists>new. cl_disagreements (observe_all L cs) = cl_disagreements L @ new) \<and>
   (map_get (cl_seen L) len = Some h \<longrightarrow> map_get (cl_seen (observe_all L cs)) len = Some h) \<and>
   length (cl_seen L) \<le> length (cl_seen (observe_all L cs))"
proof (induction cs arbitrary: L)
  case (Cons c cs)
  from observe_grows [of L c len h] Cons.IH [of "fst (observe L c)"] show ?case by fastforce
qed simp

text \<open>A length that was refused for lack of room is never taken up later.\<close>

lemma full_stays_out:
  "map_get (cl_seen L) len = None \<Longrightarrow> 64 \<le> length (cl_seen L) \<Longrightarrow>
     map_get (cl_seen (observe_all L cs)) len = None"
proof (induction cs arbitrary: L)
  case (Cons c cs)
  have "map_get (cl_seen (fst (observe L c))) len = None"
    using Cons.prems by (auto simp: observe_def refuse_checkpoint_def CHECKPOINT_LIMITS_def Let_def split: option.splits)
  moreover have "64 \<le> length (cl_seen (fst (observe L c)))"
    using Cons.prems(2) observe_grows [of L c len undefined] by simp
  ultimately show ?case using Cons.IH by simp
qed simp

definition reported :: "CheckpointLedger \<Rightarrow> int \<Rightarrow> Checkpoint \<Rightarrow> Checkpoint \<Rightarrow> bool" where
  "reported L len h x \<longleftrightarrow>
     (\<exists>r\<in>set (cl_disagreements L). fr_logLength r = len \<and> fr_first r = h \<and> fr_other r = x)"

lemma reported_grows:
  "reported L len h x \<or> 32 \<le> length (cl_disagreements L) \<Longrightarrow>
     reported (observe_all L cs) len h x \<or> 32 \<le> length (cl_disagreements (observe_all L cs))"
proof -
  assume a: "reported L len h x \<or> 32 \<le> length (cl_disagreements L)"
  obtain new where "cl_disagreements (observe_all L cs) = cl_disagreements L @ new"
    using observe_all_grows [of L cs len h] by blast
  with a show ?thesis by (auto simp: reported_def)
qed

lemma fork_reported:
  assumes "map_get (cl_seen (observe_all L cs)) (cp_logLength x) = Some h" "x \<in> set cs"
    and "isCheckpointLength (cp_logLength x)" "compareCheckpoints h x \<noteq> IDENTICAL"
  shows "reported (observe_all L cs) (cp_logLength x) h x \<or> 32 \<le> length (cl_disagreements (observe_all L cs))"
  using assms(1,2)
proof (induction cs arbitrary: L)
  case (Cons c cs)
  show ?case
  proof (cases "x \<in> set cs")
    case True
    then show ?thesis using Cons by simp
  next
    case False
    then have c: "c = x" using Cons.prems by simp
    let ?len = "cp_logLength x" and ?M = "fst (observe L x)"
    have final: "map_get (cl_seen (observe_all ?M cs)) ?len = Some h" using Cons.prems c by simp
    have "reported ?M ?len h x \<or> 32 \<le> length (cl_disagreements ?M)"
    proof (cases "map_get (cl_seen L) ?len")
      case None
      show ?thesis
      proof (cases "64 \<le> length (cl_seen L)")
        case True
        then have "cl_seen ?M = cl_seen L"
          using assms(3) None by (simp add: observe_def refuse_checkpoint_def CHECKPOINT_LIMITS_def)
        then show ?thesis using full_stays_out [of ?M ?len cs] None True final by simp
      next
        case False
        then have "map_get (cl_seen ?M) ?len = Some x"
          using assms(3) None by (simp add: observe_def CHECKPOINT_LIMITS_def)
        then have "h = x" using observe_all_grows [of ?M cs ?len x] final by simp
        then show ?thesis using assms(4) by (simp add: compare_identical)
      qed
    next
      case (Some h')
      then have "map_get (cl_seen ?M) ?len = Some h'" using observe_grows [of L x ?len h'] by blast
      then have "h' = h" using observe_all_grows [of ?M cs ?len h'] final by simp
      then show ?thesis
        using assms(3,4) Some
        by (auto simp: observe_def reported_def refuse_checkpoint_def CHECKPOINT_LIMITS_def Let_def)
    qed
    then show ?thesis using reported_grows [of ?M ?len h x cs] c by simp
  qed
qed simp

definition ledger_within :: "CheckpointLedger \<Rightarrow> bool" where
  "ledger_within L \<longleftrightarrow>
     length (cl_seen L) \<le> 64 \<and> length (cl_disagreements L) \<le> 32 \<and>
     (\<forall>(len, c)\<in>set (cl_seen L). isCheckpointLength len \<and> cp_logLength c = len) \<and>
     (\<forall>r\<in>set (cl_disagreements L). cp_logLength (fr_first r) = fr_logLength r \<and>
        cp_logLength (fr_other r) = fr_logLength r \<and>
        fr_difference r = compareCheckpoints (fr_first r) (fr_other r) \<and> fr_difference r \<noteq> IDENTICAL)"

lemma observe_within:
  assumes "ledger_within L"
  shows "ledger_within (fst (observe L c))"
proof -
  have upd: "set (map_set k v m) \<subseteq> insert (k, v) (set m)" for k v and m :: "(int, Checkpoint) jsmap"
    by (induction m) auto
  show ?thesis
  proof (cases "map_get (cl_seen L) (cp_logLength c)")
    case None
    then show ?thesis
      using assms upd [of "cp_logLength c" c "cl_seen L"] length_map_set_le [of "cp_logLength c" c "cl_seen L"]
      by (auto simp: observe_def ledger_within_def refuse_checkpoint_def CHECKPOINT_LIMITS_def)
  next
    case (Some h)
    then have "cp_logLength h = cp_logLength c"
      using assms by (auto simp: ledger_within_def dest: map_of_SomeD)
    then show ?thesis
      using assms Some
      by (auto simp: observe_def ledger_within_def refuse_checkpoint_def CHECKPOINT_LIMITS_def Let_def)
  qed
qed

lemma observe_all_within: "ledger_within L \<Longrightarrow> ledger_within (observe_all L cs)"
  by (induction cs arbitrary: L) (simp_all add: observe_within)

subsection \<open>What comparing and proving establish\<close>

lemma checkpointOf_root:
  assumes "checkpointOf C es current records now = Inr c"
  obtains t where "treeOf C es = Inr t" "tree_root C t = Inr (cp_treeRoot c)" "cp_logLength c = int (length es)"
  using assms by (auto simp: checkpointOf_def errs Let_def split: sum.splits)

lemma verifyNameInclusion_verified:
  "verifyNameInclusion C name bs pf treeRoot len observedAt peers = Inr a \<and> a_verified a \<longleftrightarrow>
     1 \<le> peers \<and> int (pf_leafIndex pf) < len \<and> verifyInclusion C bs pf treeRoot = Inr True \<and>
     a = \<lparr>a_name = name, a_verified = True, a_logLength = len, a_observedAt = observedAt,
          a_peersAgreeing = peers, a_freshnessUnproven = True,
          a_detail = (if peers = 1 then SINGLE_PEER else CORROBORATED)\<rparr>"
  by (auto simp: verifyNameInclusion_def errs Let_def)

section \<open>Properties\<close>

text \<open>
  The length a light client trusts is the greatest claimed length that a quorum of peers claims
  to reach; as long as fewer than a quorum of peers overstate, it is not past the true length.
\<close>

theorem corroborated_length_sound:
  assumes "greatestCorroboratedLength claims quorum = Some (l, n)"
  shows "l \<in> set claims \<and> n = claiming claims l \<and> quorum \<le> n \<and>
    (\<forall>m\<in>set claims. quorum \<le> claiming claims m \<longrightarrow> m \<le> l) \<and>
    (\<forall>honest. int (length (filter (\<lambda>c. c > honest) claims)) < quorum \<longrightarrow> l \<le> honest)"
  using corroborated_best [of claims quorum] corroborated_bound [OF assms] assms by (auto simp: best_among_def)

theorem corroborated_length_sound_witness:
  "greatestCorroboratedLength [100, 9000, 100, 40] 2 = Some (100, 3) \<and> claiming [100, 9000, 100, 40] 100 = 3"
proof -
  have g: "greatestCorroboratedLength [100, 9000, 100, 40] 2 = Some (100, 3)"
    by (simp add: greatestCorroboratedLength_def claim_counts_def better_length_def Let_def)
  from g corroborated_length_sound [OF g] show ?thesis by simp
qed

text \<open>
  A fork is surfaced and no side is picked. When two of the checkpoints a ledger observed differ
  at one length it kept, then it holds a report at that length of one of them against the
  checkpoint it saw first, unless its 32 reports are used up; and every report it holds is of two
  checkpoints at one length that differ.
\<close>

theorem fork_surfaced:
  assumes "x \<in> set cs" and "y \<in> set cs" and "cp_logLength x = cp_logLength y"
    and "compareCheckpoints x y \<noteq> IDENTICAL" and "isCheckpointLength (cp_logLength x)"
    and "map_get (cl_seen (observe_all empty_checkpoint_ledger cs)) (cp_logLength x) = Some h"
  shows "ledger_within (observe_all empty_checkpoint_ledger cs) \<and>
    (reported (observe_all empty_checkpoint_ledger cs) (cp_logLength x) h x \<or>
     reported (observe_all empty_checkpoint_ledger cs) (cp_logLength x) h y \<or>
     length (cl_disagreements (observe_all empty_checkpoint_ledger cs)) = 32)"
proof -
  let ?L = "observe_all empty_checkpoint_ledger cs"
  have w: "ledger_within ?L"
    by (rule observe_all_within) (simp add: ledger_within_def empty_checkpoint_ledger_def)
  then have le: "length (cl_disagreements ?L) \<le> 32" by (simp add: ledger_within_def)
  have "compareCheckpoints h x \<noteq> IDENTICAL \<or> compareCheckpoints h y \<noteq> IDENTICAL"
    using assms(4) by (auto simp: compare_identical)
  then show ?thesis
    using fork_reported [OF assms(6,1,5)] fork_reported [of empty_checkpoint_ledger cs y h] assms w le
    by auto
qed

definition sample_checkpoint :: "byte \<Rightarrow> Checkpoint" where
  "sample_checkpoint b =
     \<lparr>cp_logLength = 10000, cp_treeRoot = [b], cp_indexRoot = [], cp_liveNames = 0\<rparr>"

theorem fork_surfaced_witness:
  "reported (observe_all empty_checkpoint_ledger [sample_checkpoint 1, sample_checkpoint 2]) 10000
     (sample_checkpoint 1) (sample_checkpoint 2)"
proof -
  have "ledger_within (observe_all empty_checkpoint_ledger [sample_checkpoint 1, sample_checkpoint 2]) \<and>
      (reported (observe_all empty_checkpoint_ledger [sample_checkpoint 1, sample_checkpoint 2]) 10000
         (sample_checkpoint 1) (sample_checkpoint 1) \<or>
       reported (observe_all empty_checkpoint_ledger [sample_checkpoint 1, sample_checkpoint 2]) 10000
         (sample_checkpoint 1) (sample_checkpoint 2) \<or>
       length (cl_disagreements (observe_all empty_checkpoint_ledger
         [sample_checkpoint 1, sample_checkpoint 2])) = 32)"
    using fork_surfaced [of "sample_checkpoint 1" "[sample_checkpoint 1, sample_checkpoint 2]"
        "sample_checkpoint 2" "sample_checkpoint 1"]
    by (simp add: sample_checkpoint_def compare_identical isCheckpointLength_def CHECKPOINT_INTERVAL_def
        observe_def CHECKPOINT_LIMITS_def empty_checkpoint_ledger_def Let_def)
  then show ?thesis
    by (simp add: reported_def sample_checkpoint_def observe_def isCheckpointLength_def
        CHECKPOINT_INTERVAL_def CHECKPOINT_LIMITS_def empty_checkpoint_ledger_def Let_def compareCheckpoints_def)
qed

text \<open>
  What agreement means: when the checkpoints of two logs do not differ in length and tree root
  the logs are the same entries in the same order, or an input hashed for the one collides with an
  input hashed for the other; and when the tree roots differ at one length the logs differ.
\<close>

theorem checkpoint_agreement:
  assumes "hash_length_ok C"
    and "checkpointOf C ds current records now = Inr a" and "checkpointOf C es current' records' now' = Inr b"
    and "int (total ds) \<le> MAX_SAFE_INTEGER" and "int (total es) \<le> MAX_SAFE_INTEGER"
    and "length ds < 2 ^ 53" and "length es < 2 ^ 53"
  shows "(compareCheckpoints a b = DIVERGED \<longrightarrow> ds \<noteq> es) \<and>
    (compareCheckpoints a b \<in> {IDENTICAL, INDEX_DIVERGED} \<longrightarrow>
      (\<exists>ks ls. span_sum ks = length ds \<and> span_sum ls = length es \<and>
        (ds = es \<or> collision C (set (log_inputs C ks ds)) (set (log_inputs C ls es)))))"
proof -
  obtain t where t: "treeOf C ds = Inr t" "tree_root C t = Inr (cp_treeRoot a)"
    by (rule checkpointOf_root [OF assms(2)])
  obtain u where u: "treeOf C es = Inr u" "tree_root C u = Inr (cp_treeRoot b)"
    by (rule checkpointOf_root [OF assms(3)])
  have "ds \<noteq> es" if "compareCheckpoints a b = DIVERGED"
    using that t u by (auto simp: compareCheckpoints_def split: if_splits)
  moreover have "\<exists>ks ls. span_sum ks = length ds \<and> span_sum ls = length es \<and>
      (ds = es \<or> collision C (set (log_inputs C ks ds)) (set (log_inputs C ls es)))"
    if "compareCheckpoints a b \<in> {IDENTICAL, INDEX_DIVERGED}"
  proof -
    have "cp_treeRoot b = cp_treeRoot a" using that by (auto simp: compareCheckpoints_def split: if_splits)
    then have "tree_root C u = Inr (cp_treeRoot a)" using u(2) by simp
    from root_commits [OF assms(1) t(1) u(1) t(2) this assms(4-7)] show ?thesis by metis
  qed
  ultimately show ?thesis by blast
qed

theorem checkpoint_agreement_witness:
  "\<exists>a. checkpointOf sample_crypto [[1], [2], [3]] [] [] 0 = Inr a \<and> compareCheckpoints a a \<noteq> DIVERGED"
proof -
  obtain t root where t: "treeOf sample_crypto [[1], [2], [3]] = Inr t" "tree_root sample_crypto t = Inr root"
    using inclusion_complete [OF _ sample_log_small(1,2), of 1 sample_crypto] by auto
  then obtain a where a: "checkpointOf sample_crypto [[1], [2], [3]] [] [] 0 = Inr a"
    by (simp add: checkpointOf_def indexRoot_def)
  from checkpoint_agreement [OF sample_hash_length a a sample_log_small(1,1,3,3)] a show ?thesis by blast
qed

text \<open>
  C38. Honest peers look like a fork. Two peers that hold the same entries, arrived in different orders,
  state checkpoints at the same length that a comparing peer reports as a fork, unless hashing
  collided: the tree root commits to the order of arrival, which no rule fixes.
\<close>

theorem honest_orders_fork:
  assumes "hash_length_ok C" and "mset fs = mset es" and "fs \<noteq> es"
    and "isCheckpointLength (int (length es))" and "int (total es) \<le> MAX_SAFE_INTEGER" and "length es < 2 ^ 53"
    and "checkpointOf C es current records now = Inr a" and "checkpointOf C fs current' records' now' = Inr b"
  shows "snd (observe (fst (observe empty_checkpoint_ledger a)) b) = FORK \<or>
    (\<exists>ks ls. span_sum ks = length es \<and> span_sum ls = length fs \<and>
      collision C (set (log_inputs C ks es)) (set (log_inputs C ls fs)))"
proof -
  have len: "length fs = length es" using assms(2) by (rule mset_eq_length)
  have "mset (map length fs) = mset (map length es)" using assms(2) by simp
  then have "sum_list (map length fs) = sum_list (map length es)" by (metis sum_mset_sum_list)
  then have tot: "total fs = total es" by (simp add: total_def)
  have l: "cp_logLength a = int (length es)" "cp_logLength b = int (length es)"
    using checkpointOf_root [OF assms(7)] checkpointOf_root [OF assms(8)] len by metis+
  have agree: "compareCheckpoints a b \<in> {IDENTICAL, INDEX_DIVERGED} \<Longrightarrow>
      \<exists>ks ls. span_sum ks = length es \<and> span_sum ls = length fs \<and>
        collision C (set (log_inputs C ks es)) (set (log_inputs C ls fs))"
    using checkpoint_agreement [OF assms(1,7,8,5) _ assms(6)] assms(3,5,6) tot len by simp
  have "compareCheckpoints a b \<noteq> DIFFERENT_LENGTH" using l by (auto simp: compareCheckpoints_def)
  moreover have "snd (observe (fst (observe empty_checkpoint_ledger a)) b) =
      (if compareCheckpoints a b = IDENTICAL then AGREES else FORK)"
    using assms(4) l
    by (simp add: observe_def empty_checkpoint_ledger_def CHECKPOINT_LIMITS_def Let_def)
  ultimately show ?thesis using agree by (cases "compareCheckpoints a b") simp_all
qed

definition many_entries :: "bytes list" where "many_entries = replicate 9999 [2]"

theorem honest_orders_fork_witness:
  "\<exists>a b. checkpointOf sample_crypto ([1] # many_entries) [] [] 0 = Inr a \<and>
     checkpointOf sample_crypto (many_entries @ [[1]]) [] [] 0 = Inr b \<and>
     (snd (observe (fst (observe empty_checkpoint_ledger a)) b) = FORK \<or>
      (\<exists>ks ls. collision sample_crypto (set (log_inputs sample_crypto ks ([1] # many_entries)))
         (set (log_inputs sample_crypto ls (many_entries @ [[1]])))))"
proof -
  let ?es = "[1] # many_entries" and ?fs = "many_entries @ [[1]]"
  have small: "int (total ?es) \<le> MAX_SAFE_INTEGER" "int (total ?fs) \<le> MAX_SAFE_INTEGER" "length ?es = 10000" "length ?fs = 10000"
    by (simp_all add: many_entries_def total_def sum_list_replicate MAX_SAFE_INTEGER_def)
  have two: "2 * int (length ?es) \<le> MAX_SAFE_INTEGER" "2 * int (length ?fs) \<le> MAX_SAFE_INTEGER"
    by (simp_all only: small) (simp_all add: MAX_SAFE_INTEGER_def)
  obtain t root where t: "treeOf sample_crypto ?es = Inr t" "tree_root sample_crypto t = Inr root"
    using inclusion_complete [OF _ small(1) two(1), of 0 sample_crypto] by auto
  obtain u top where u: "treeOf sample_crypto ?fs = Inr u" "tree_root sample_crypto u = Inr top"
    using inclusion_complete [OF _ small(2) two(2), of 0 sample_crypto] small(4) by auto
  obtain a where a: "checkpointOf sample_crypto ?es [] [] 0 = Inr a" using t by (simp add: checkpointOf_def indexRoot_def)
  obtain b where b: "checkpointOf sample_crypto ?fs [] [] 0 = Inr b" using u by (simp add: checkpointOf_def indexRoot_def)
  have "last ?fs = [1]" by simp
  moreover have "last ?es = [2]"
  proof -
    have "many_entries \<noteq> []" "set many_entries = {[2]}"
      unfolding many_entries_def by (simp_all only: replicate_empty set_replicate_conv_if) simp_all
    then show ?thesis using last_in_set [of many_entries] by simp
  qed
  moreover have "([1] :: bytes) \<noteq> [2]" by simp
  ultimately have "?fs \<noteq> ?es" by metis
  moreover have "isCheckpointLength (int (length ?es))"
    by (simp only: small) (simp add: isCheckpointLength_def CHECKPOINT_INTERVAL_def)
  moreover have "length ?es < 2 ^ 53" by (simp only: small) simp
  moreover have "mset ?fs = mset ?es" by simp
  ultimately have "snd (observe (fst (observe empty_checkpoint_ledger a)) b) = FORK \<or>
      (\<exists>ks ls. collision sample_crypto (set (log_inputs sample_crypto ks ?es)) (set (log_inputs sample_crypto ls ?fs)))"
    using honest_orders_fork [OF sample_hash_length _ _ _ small(1) _ a b] by blast
  with a b show ?thesis by blast
qed

text \<open>
  What a light client concludes: an answer is \<open>verified\<close> only with a peer behind it, a leaf
  within the claimed length and a proof that checks out; then the record's bytes are in the log with
  that root, unless hashing collided; and no answer ever claims freshness.
\<close>

theorem light_client_sound:
  assumes "hash_length_ok C" and "treeOf C es = Inr t" and "tree_root C t = Inr treeRoot"
    and "int (total es) \<le> MAX_SAFE_INTEGER" and "length es < 2 ^ 53"
    and "\<forall>x\<in>set (pf_roots pf). length (rt_hash x) = 32"
    and "verifyNameInclusion C name bs pf treeRoot len observedAt peers = Inr a"
  shows "a_freshnessUnproven a \<and>
    (a_verified a \<longrightarrow> 1 \<le> peers \<and> int (pf_leafIndex pf) < len \<and>
      (\<exists>ks. span_sum ks = length es \<and>
        (bs \<in> set es \<or> collision C (set (proof_inputs C bs pf)) (set (log_inputs C ks es)))))"
proof -
  have "a_freshnessUnproven a" using assms(7) by (auto simp: verifyNameInclusion_def errs Let_def split: if_splits)
  moreover have "1 \<le> peers \<and> int (pf_leafIndex pf) < len \<and> verifyInclusion C bs pf treeRoot = Inr True"
    if "a_verified a"
    using that assms(7) verifyNameInclusion_verified by blast
  ultimately show ?thesis using inclusion_sound [OF assms(1-6)] by blast
qed

theorem light_client_sound_witness:
  "\<exists>pf root a. verifyNameInclusion sample_crypto [] [2] pf root 3 0 2 = Inr a \<and> a_freshnessUnproven a"
proof -
  obtain t root pf where p: "treeOf sample_crypto [[1], [2], [3]] = Inr t" "tree_root sample_crypto t = Inr root"
      "verifyInclusion sample_crypto [2] pf root = Inr True" "pf_roots pf = mt_peaks t"
    using inclusion_complete [OF _ sample_log_small(1,2), of 1 sample_crypto] by auto
  have "\<forall>x\<in>set (pf_roots pf). length (rt_hash x) = 32"
    using tree_peaks [OF p(1) sample_log_small(1,3)] peak_list_hash_length [OF sample_hash_length] p(4)
    by metis
  moreover obtain a where a: "verifyNameInclusion sample_crypto [] [2] pf root 3 0 2 = Inr a"
    using p(3) by (cases "3 \<le> pf_leafIndex pf") (auto simp: verifyNameInclusion_def Let_def)
  ultimately show ?thesis
    using light_client_sound [OF sample_hash_length p(1,2) sample_log_small(1,3) _ a] by blast
qed

end
