(* ===== verification/Store.thy ===== *)
theory Store
  imports Ledger Checkpoint
begin

section \<open>The local log and its index\<close>

text \<open>
  registry/src/store.ts, the class \<open>Store\<close> and \<open>sinkOver\<close>. The state holds the contents of the
  log file (\<open>None\<close> when it does not exist), the entries, the name index, the set of hashes, the
  rates per extension and the recorder of equivocation, if one is attached. Every operation returns
  the new state; where it throws, the error. Making directories is not modelled.
\<close>

record LogEntry =
  le_index :: nat
  le_bytes :: bytes
  le_record :: RegistryRecord
  le_hash :: bytes

record NameEntry =
  ne_current :: Predecessor
  ne_logIndex :: nat
  ne_revoked :: bool
  ne_rootHash :: bytes

record 'l Store =
  st_file :: "bytes option"
  st_entries :: "LogEntry list"
  st_names :: "(jsstr, NameEntry) jsmap"
  st_seen :: "string set"
  st_rates :: "(jsstr, int list) jsmap"
  st_equivocation :: "('l recorder \<times> 'l) option"

datatype append_error = LOG_ERROR store_error | RECORDER_ERROR ledger_error

definition new_store :: "bytes option \<Rightarrow> 'l Store" where
  "new_store contents =
     \<lparr>st_file = contents, st_entries = [], st_names = [], st_seen = {}, st_rates = [],
      st_equivocation = None\<rparr>"

definition watchEquivocation :: "'l Store \<Rightarrow> 'l recorder \<times> 'l \<Rightarrow> 'l Store" where
  "watchEquivocation s recorder = s\<lparr>st_equivocation := Some recorder\<rparr>"

abbreviation entry_key :: "LogEntry \<Rightarrow> jsstr" where
  "entry_key e \<equiv> nameKey (r_name (le_record e)) (r_tld (le_record e))"

subsection \<open>The view of the verifier\<close>

definition store_current :: "'l Store \<Rightarrow> jsstr \<Rightarrow> jsstr \<Rightarrow> Predecessor option" where
  "store_current s name tld = map_option ne_current (map_get (st_names s) (nameKey name tld))"

definition store_revoked :: "'l Store \<Rightarrow> jsstr \<Rightarrow> jsstr \<Rightarrow> bool" where
  "store_revoked s name tld =
     (case map_get (st_names s) (nameKey name tld) of None \<Rightarrow> False | Some e \<Rightarrow> ne_revoked e)"

definition registrationsInWindow :: "'l Store \<Rightarrow> jsstr \<Rightarrow> int \<Rightarrow> nat" where
  "registrationsInWindow s tld t =
     (case rateWindow t of (start, stop) \<Rightarrow>
        (case map_get (st_rates s) tld of
           None \<Rightarrow> 0
         | Some ts \<Rightarrow> lowerBound ts stop - lowerBound ts start))"

definition in_window :: "jsstr \<Rightarrow> int \<Rightarrow> int \<Rightarrow> RegistryRecord \<Rightarrow> bool" where
  "in_window tld start stop r \<longleftrightarrow>
     \<not> r_tld r \<noteq> tld \<and> \<not> (r_op r \<noteq> REGISTER \<and> r_op r \<noteq> RENEW) \<and> r_notBefore r \<ge> start \<and> r_notBefore r < stop"

definition registrationsInWindowNaive :: "'l Store \<Rightarrow> jsstr \<Rightarrow> int \<Rightarrow> nat" where
  "registrationsInWindowNaive s tld t =
     (case rateWindow t of (start, stop) \<Rightarrow>
        foldl (\<lambda>n e. if in_window tld start stop (le_record e) then n + 1 else n) 0 (st_entries s))"

definition requiredBitsFor :: "'l Store \<Rightarrow> RegistryRecord \<Rightarrow> nat" where
  "requiredBitsFor s r =
     (let thisEpoch = registrationsInWindow s (r_tld r) (r_notBefore r);
          previousEpoch = registrationsInWindow s (r_tld r) (r_notBefore r - EPOCH_SECONDS)
      in min (requiredBits (length (r_name r)) thisEpoch) (requiredBits (length (r_name r)) previousEpoch))"

definition powVerified :: "crypto \<Rightarrow> 'l Store \<Rightarrow> RegistryRecord \<Rightarrow> bool" where
  "powVerified C s r \<longleftrightarrow> verifyPow C (r_map r) (requiredBitsFor s r) = Inr None"

definition store_view :: "crypto \<Rightarrow> 'l Store \<Rightarrow> RegistryView" where
  "store_view C s =
     \<lparr>v_current = store_current s, v_fullyReleased = (\<lambda>p now. isFullyReleased (pd_record p) now),
      v_revoked = store_revoked s, v_powVerified = powVerified C s\<rparr>"

definition difficultyFor :: "'l Store \<Rightarrow> jsstr \<Rightarrow> jsstr \<Rightarrow> int \<Rightarrow> nat" where
  "difficultyFor s label tld t = requiredBits (length label) (registrationsInWindow s tld t)"

definition verifyAt :: "crypto \<Rightarrow> 'l Store \<Rightarrow> bytes \<Rightarrow> int \<Rightarrow> bool \<Rightarrow> store_error + verdict" where
  "verifyAt C s bs now ignoreIncumbent =
     (case verify C bs (store_view C s) now ignoreIncumbent of
        Inl e \<Rightarrow> Inl (STORE_SIGNING e)
      | Inr v \<Rightarrow> Inr v)"

subsection \<open>Writing and indexing\<close>

definition store_has :: "crypto \<Rightarrow> 'l Store \<Rightarrow> bytes \<Rightarrow> bool" where
  "store_has C s bs \<longleftrightarrow> toHex (recordHashFromBytes C bs) \<in> st_seen s"

definition store_write :: "'l Store \<Rightarrow> bytes \<Rightarrow> store_error + 'l Store" where
  "store_write s bs =
     bindE (frame bs) (\<lambda>f.
       Inr (s\<lparr>st_file := Some ((case st_file s of None \<Rightarrow> [] | Some old \<Rightarrow> old) @ f)\<rparr>))"

definition signer_of :: "NameEntry option \<Rightarrow> RegistryRecord \<Rightarrow> bytes" where
  "signer_of held r =
     (case held of
        Some h \<Rightarrow> if r_op r = TRANSFER then controllingKey (ne_current h) (r_notBefore r) else r_ownerKey r
      | None \<Rightarrow> r_ownerKey r)"

definition index_entry :: "NameEntry option \<Rightarrow> RegistryRecord \<Rightarrow> Predecessor \<Rightarrow> nat \<Rightarrow> bytes \<Rightarrow> NameEntry" where
  "index_entry held r current i h =
     \<lparr>ne_current = current, ne_logIndex = i,
      ne_revoked = (if r_op r = REGISTER then False
                    else (case held of None \<Rightarrow> False | Some e \<Rightarrow> ne_revoked e) \<or> r_op r = REVOKE),
      ne_rootHash = (if r_op r = REGISTER then h
                     else (case held of None \<Rightarrow> h | Some e \<Rightarrow> ne_rootHash e))\<rparr>"

definition add_rate :: "RegistryRecord \<Rightarrow> (jsstr, int list) jsmap \<Rightarrow> (jsstr, int list) jsmap" where
  "add_rate r rates =
     (if r_op r = REGISTER \<or> r_op r = RENEW
      then map_set (r_tld r)
             (insertSorted (case map_get rates (r_tld r) of None \<Rightarrow> [] | Some ts \<Rightarrow> ts) (r_notBefore r))
             rates
      else rates)"

definition store_apply :: "crypto \<Rightarrow> 'l Store \<Rightarrow> bytes \<Rightarrow> RegistryRecord \<Rightarrow> store_error + 'l Store" where
  "store_apply C s bs r =
     (let i = length (st_entries s);
          h = recordHashFromBytes C bs;
          key = nameKey (r_name r) (r_tld r);
          held = map_get (st_names s) key in
      case predecessorFrom C r bs (Some (signer_of held r)) of
        Inl _ \<Rightarrow> Inl NO_SIGNER_KEY
      | Inr current \<Rightarrow>
          Inr (s\<lparr>st_entries := st_entries s @ [\<lparr>le_index = i, le_bytes = bs, le_record = r, le_hash = h\<rparr>],
                 st_seen := insert (toHex h) (st_seen s),
                 st_rates := add_rate r (st_rates s),
                 st_names := map_set key (index_entry held r current i h) (st_names s)\<rparr>))"

definition write_apply :: "crypto \<Rightarrow> 'l Store \<Rightarrow> bytes \<Rightarrow> RegistryRecord \<Rightarrow> store_error + 'l Store" where
  "write_apply C s bs r = bindE (store_write s bs) (\<lambda>s. store_apply C s bs r)"

subsection \<open>Opening\<close>

primrec replay_log :: "crypto \<Rightarrow> (nat \<times> bytes) list \<Rightarrow> 'l Store \<Rightarrow> store_error + 'l Store" where
  "replay_log C [] s = Inr s"
| "replay_log C (p # ps) s =
     (case p of (position, bs) \<Rightarrow>
        (case parseRecordBytes bs of
           Inl e \<Rightarrow> Inl (STORE_RECORD e)
         | Inr r \<Rightarrow>
             bindE (verifyAt C s bs (r_notBefore r) False) (\<lambda>v.
               (case v of
                  Accept _ _ _ \<Rightarrow> bindE (store_apply C s bs r) (replay_log C ps)
                | _ \<Rightarrow> Inl (NO_LONGER_VERIFIES position v)))))"

definition store_open :: "crypto \<Rightarrow> bytes option \<Rightarrow> store_error + 'l Store" where
  "store_open C contents =
     (case contents of
        None \<Rightarrow> Inr (new_store None)
      | Some bs \<Rightarrow> bindE (unframe bs) (\<lambda>raw. replay_log C (enumerate 0 raw) (new_store contents)))"

subsection \<open>Equivocation and conflicts\<close>

definition other_half :: "crypto \<Rightarrow> 'l Store \<Rightarrow> RegistryRecord \<Rightarrow> bytes \<Rightarrow> LogEntry option" where
  "other_half C s incoming bs =
     find (\<lambda>e. r_seq (le_record e) = r_seq incoming \<and>
               entry_key e = nameKey (r_name incoming) (r_tld incoming) \<and>
               compareBytes (r_ownerKey (le_record e)) (r_ownerKey incoming) = 0 \<and>
               toHex (le_hash e) \<noteq> toHex (recordHashFromBytes C bs))
       (st_entries s)"

definition noteEquivocation :: "crypto \<Rightarrow> 'l Store \<Rightarrow> bytes \<Rightarrow> append_error + 'l Store" where
  "noteEquivocation C s bs =
     (case st_equivocation s of
        None \<Rightarrow> Inr s
      | Some (R, l) \<Rightarrow>
          (case parseRecordBytes bs of
             Inl _ \<Rightarrow> Inr s
           | Inr incoming \<Rightarrow>
               if \<not> map_has (st_names s) (nameKey (r_name incoming) (r_tld incoming)) then Inr s
               else if rec_settled R l incoming Detected then Inr s
               else
                 (case signedByNamedOwner C incoming of
                    Inl e \<Rightarrow> Inl (LOG_ERROR (STORE_SIGNING e))
                  | Inr False \<Rightarrow> Inr s
                  | Inr True \<Rightarrow>
                      (case other_half C s incoming bs of
                         None \<Rightarrow> Inr s
                       | Some e \<Rightarrow>
                           (case rec_record R l (le_bytes e) bs Detected of
                              Inl x \<Rightarrow> Inl (RECORDER_ERROR x)
                            | Inr l' \<Rightarrow> Inr (s\<lparr>st_equivocation := Some (R, l')\<rparr>))))))"

definition rootEntryFor :: "'l Store \<Rightarrow> jsstr \<Rightarrow> LogEntry option" where
  "rootEntryFor s key =
     find (\<lambda>e. entry_key e = key \<and> r_op (le_record e) = REGISTER \<and> r_seq (le_record e) = 0) (st_entries s)"

definition encodingOf :: "'l Store \<Rightarrow> bytes \<Rightarrow> bytes option" where
  "encodingOf s h = map_option le_bytes (find (\<lambda>e. toHex (le_hash e) = toHex h) (st_entries s))"

definition entry_candidate :: "LogEntry \<Rightarrow> Candidate" where
  "entry_candidate e =
     \<lparr>c_record = le_record e, c_hash = le_hash e, c_logIndex = Some (int (le_index e)), c_valid = True\<rparr>"

definition voided_chain_of :: "'l Store \<Rightarrow> jsstr \<Rightarrow> LogEntry \<Rightarrow> Candidate list" where
  "voided_chain_of s key incumbent =
     voidedChain (entry_candidate incumbent)
       (map entry_candidate (filter (\<lambda>e. entry_key e = key) (st_entries s)))"

definition voided_encodings :: "'l Store \<Rightarrow> Candidate list \<Rightarrow> bytes list" where
  "voided_encodings s voided = List.map_filter (\<lambda>c. encodingOf s (c_hash c)) voided"

text \<open>Steps 3 and 4, once the newcomer is known to have the smaller hash.\<close>

definition settleConflict ::
  "crypto \<Rightarrow> 'l Store \<Rightarrow> bytes \<Rightarrow> RegistryRecord \<Rightarrow> LogEntry \<Rightarrow> int \<Rightarrow> verdict \<Rightarrow> store_error + 'l Store \<times> verdict" where
  "settleConflict C s bs incoming incumbent now taken =
     (let key = nameKey (r_name incoming) (r_tld incoming);
          incomingHash = recordHashFromBytes C bs in
      bindE (verifyAt C s bs now True) (\<lambda>onMerits.
        (case onMerits of
           Accept _ _ _ \<Rightarrow>
             (case resolveConflict
                 [\<lparr>c_record = incoming, c_hash = incomingHash, c_logIndex = None, c_valid = True\<rparr>,
                  entry_candidate incumbent] of
                Inl e \<Rightarrow> Inl (STORE_CONVERGE e)
              | Inr resolution \<Rightarrow>
                  (case compareHashes (c_hash (res_winner resolution)) incomingHash of
                     Inl e \<Rightarrow> Inl (STORE_CONVERGE e)
                   | Inr c \<Rightarrow>
                       if c \<noteq> 0 then Inr (s, taken)
                       else
                         let voided = voided_chain_of s key incumbent in
                         bindE (write_apply C s bs incoming) (\<lambda>s'.
                           Inr (s', Accept incoming (Some (voided_encodings s' voided)) False))))
         | _ \<Rightarrow> Inr (s, onMerits))))"

definition mergeConflict ::
  "crypto \<Rightarrow> 'l Store \<Rightarrow> bytes \<Rightarrow> int \<Rightarrow> verdict \<Rightarrow> store_error + 'l Store \<times> verdict" where
  "mergeConflict C s bs now taken =
     (case parseRecordBytes bs of
        Inl _ \<Rightarrow> Inr (s, taken)
      | Inr incoming \<Rightarrow>
          if r_op incoming \<noteq> REGISTER \<or> r_seq incoming \<noteq> 0 then Inr (s, taken)
          else let key = nameKey (r_name incoming) (r_tld incoming) in
            (case (map_get (st_names s) key, rootEntryFor s key) of
               (Some held, Some incumbent) \<Rightarrow>
                 if r_notBefore incoming - r_notBefore (le_record incumbent) > MAX_BACKDATE_SECONDS
                 then Inr (s, taken)
                 else if compareBytes (r_ownerKey incoming) (r_ownerKey (le_record incumbent)) = 0
                 then Inr (s, taken)
                 else
                   (case compareHashes (recordHashFromBytes C bs) (ne_rootHash held) of
                      Inl e \<Rightarrow> Inl (STORE_CONVERGE e)
                    | Inr c \<Rightarrow>
                        if c \<ge> 0 then Inr (s, taken)
                        else settleConflict C s bs incoming incumbent now taken)
             | _ \<Rightarrow> Inr (s, taken)))"

subsection \<open>Appending\<close>

abbreviation accepted :: "verdict \<Rightarrow> bool" where
  "accepted v \<equiv> (case v of Accept _ _ _ \<Rightarrow> True | _ \<Rightarrow> False)"

definition note_refused :: "crypto \<Rightarrow> bytes \<Rightarrow> 'l Store \<Rightarrow> verdict \<Rightarrow> append_error + 'l Store \<times> verdict" where
  "note_refused C bs s v = bindE (noteEquivocation C s bs) (\<lambda>s. Inr (s, v))"

definition log_step :: "store_error + 'a \<Rightarrow> append_error + 'a" where
  "log_step m = (case m of Inl e \<Rightarrow> Inl (LOG_ERROR e) | Inr x \<Rightarrow> Inr x)"

definition store_append :: "crypto \<Rightarrow> 'l Store \<Rightarrow> bytes \<Rightarrow> int \<Rightarrow> append_error + 'l Store \<times> verdict" where
  "store_append C s bs now =
     (if store_has C s bs then
        (case parseRecordBytes bs of
           Inl e \<Rightarrow> Inl (LOG_ERROR (STORE_RECORD e))
         | Inr r \<Rightarrow> Inr (s, Accept r None True))
      else
        bindE (log_step (verifyAt C s bs now False)) (\<lambda>v.
          (case v of
             Accept r _ _ \<Rightarrow> bindE (log_step (write_apply C s bs r)) (\<lambda>s. Inr (s, v))
           | Reject NAME_TAKEN \<Rightarrow>
               bindE (log_step (mergeConflict C s bs now v)) (\<lambda>(s, merged).
                 if accepted merged then Inr (s, merged) else note_refused C bs s merged)
           | _ \<Rightarrow> note_refused C bs s v)))"

subsection \<open>Reads\<close>

definition lookup :: "'l Store \<Rightarrow> jsstr \<Rightarrow> jsstr \<Rightarrow> NameEntry option" where
  "lookup s name tld = map_get (st_names s) (nameKey name tld)"

definition entryAt :: "'l Store \<Rightarrow> nat \<Rightarrow> LogEntry option" where
  "entryAt s i = (if i < length (st_entries s) then Some (st_entries s ! i) else None)"

datatype listed_state = L_REVOKED | L_LIVE | L_GRACE | L_QUARANTINE | L_FREE

record listed =
  ls_name :: jsstr
  ls_tld :: jsstr
  ls_state :: listed_state
  ls_notAfter :: int

definition listed_entry :: "int \<Rightarrow> NameEntry \<Rightarrow> listed" where
  "listed_entry now e =
     (let r = pd_record (ne_current e); life = lifecycleOf r in
      \<lparr>ls_name = r_name r, ls_tld = r_tld r,
       ls_state = (if ne_revoked e then L_REVOKED
                   else if now < liveUntil life then L_LIVE
                   else if now < graceUntil life then L_GRACE
                   else if now < quarantineUntil life then L_QUARANTINE
                   else L_FREE),
       ls_notAfter = r_notAfter r\<rparr>)"

text \<open>
  \<open>localeCompare\<close> orders by the rules of the host's locale: a parameter, read as \<open>a\<close> sorts
  before or with \<open>b\<close>. The sort is stable.
\<close>

primrec insert_by :: "('a \<Rightarrow> 'a \<Rightarrow> bool) \<Rightarrow> 'a \<Rightarrow> 'a list \<Rightarrow> 'a list" where
  "insert_by le x [] = [x]"
| "insert_by le x (y # ys) = (if le x y then x # y # ys else y # insert_by le x ys)"

definition list_names :: "(jsstr \<Rightarrow> jsstr \<Rightarrow> bool) \<Rightarrow> 'l Store \<Rightarrow> int \<Rightarrow> listed list" where
  "list_names locale_le s now =
     foldr (insert_by (\<lambda>a b. locale_le (ls_tld a @ ls_name a) (ls_tld b @ ls_name b)))
       (map (listed_entry now \<circ> snd) (st_names s)) []"

definition readable_name :: "jsstr \<Rightarrow> jsstr" where
  "readable_name key =
     (case index_of 0x20 key of
        None \<Rightarrow> key @ [DOT] @ butlast key
      | Some space \<Rightarrow> drop (space + 1) key @ [DOT] @ take space key)"

definition indexSnapshot :: "'l Store \<Rightarrow> (jsstr, bytes) jsmap \<times> (jsstr, RegistryRecord) jsmap" where
  "indexSnapshot s =
     (foldl (\<lambda>m (key, held). map_set (readable_name key) (pd_hash (ne_current held)) m) [] (st_names s),
      foldl (\<lambda>m (key, held). map_set (readable_name key) (pd_record (ne_current held)) m) [] (st_names s))"

definition store_checkpoint :: "crypto \<Rightarrow> 'l Store \<Rightarrow> int \<Rightarrow> checkpoint_error + Checkpoint option" where
  "store_checkpoint C s now =
     (if \<not> isCheckpointLength (int (length (st_entries s))) then Inr None
      else let (current, records) = indexSnapshot s in
        bindE (checkpointOf C (map le_bytes (st_entries s)) current records now) (\<lambda>c. Inr (Some c)))"

definition store_treeRoot :: "crypto \<Rightarrow> 'l Store \<Rightarrow> merkle_error + bytes" where
  "store_treeRoot C s = bindE (treeOf C (map le_bytes (st_entries s))) (tree_root C)"

definition encodingAt :: "'l Store \<Rightarrow> nat \<Rightarrow> bytes option" where
  "encodingAt s i = map_option le_bytes (entryAt s i)"

subsection \<open>The index is derived from the log\<close>

definition derive :: "NameEntry option \<Rightarrow> LogEntry \<Rightarrow> NameEntry" where
  "derive held e =
     index_entry held (le_record e)
       \<lparr>pd_record = le_record e, pd_hash = le_hash e, pd_signerKey = signer_of held (le_record e)\<rparr>
       (le_index e) (le_hash e)"

definition held_after :: "LogEntry list \<Rightarrow> jsstr \<Rightarrow> NameEntry option" where
  "held_after es key = foldl (\<lambda>held e. if entry_key e = key then Some (derive held e) else held) None es"

definition rate_times :: "LogEntry list \<Rightarrow> jsstr \<Rightarrow> int list" where
  "rate_times es tld =
     map (r_notBefore \<circ> le_record)
       (filter (\<lambda>e. r_tld (le_record e) = tld \<and> (r_op (le_record e) = REGISTER \<or> r_op (le_record e) = RENEW)) es)"

definition entry_ok_at :: "crypto \<Rightarrow> nat \<Rightarrow> LogEntry \<Rightarrow> bool" where
  "entry_ok_at C i e \<longleftrightarrow>
     le_index e = i \<and> le_hash e = recordHashFromBytes C (le_bytes e) \<and> parseRecordBytes (le_bytes e) = Inr (le_record e)"

definition rates_ok :: "LogEntry list \<Rightarrow> (jsstr, int list) jsmap \<Rightarrow> bool" where
  "rates_ok es rates \<longleftrightarrow>
     (\<forall>tld. sorted (case map_get rates tld of None \<Rightarrow> [] | Some ts \<Rightarrow> ts) \<and>
        mset (case map_get rates tld of None \<Rightarrow> [] | Some ts \<Rightarrow> ts) = mset (rate_times es tld))"

definition store_inv :: "crypto \<Rightarrow> 'l Store \<Rightarrow> bool" where
  "store_inv C s \<longleftrightarrow>
     (\<forall>i<length (st_entries s). entry_ok_at C i (st_entries s ! i)) \<and>
     st_seen s = toHex ` le_hash ` set (st_entries s) \<and>
     rates_ok (st_entries s) (st_rates s) \<and>
     (\<forall>key. map_get (st_names s) key = held_after (st_entries s) key) \<and>
     writeLog (map le_bytes (st_entries s)) = Inr (case st_file s of None \<Rightarrow> [] | Some bs \<Rightarrow> bs)"

lemma new_store_inv: "store_inv C (new_store None)" "store_inv C (new_store (Some []))"
  by (simp_all add: store_inv_def new_store_def rates_ok_def rate_times_def held_after_def writeLog_def)

lemma held_after_snoc:
  "held_after (es @ [e]) key =
     (if entry_key e = key then Some (derive (held_after es key) e) else held_after es key)"
  by (simp add: held_after_def)

lemma rates_ok_snoc:
  assumes "rates_ok es rates"
  shows "rates_ok (es @ [e]) (add_rate (le_record e) rates)"
proof -
  have step: "sorted (case map_get (add_rate r rates) tld of None \<Rightarrow> [] | Some ts \<Rightarrow> ts) \<and>
      mset (case map_get (add_rate r rates) tld of None \<Rightarrow> [] | Some ts \<Rightarrow> ts) =
      mset (rate_times (es @ [e]) tld)"
    if "r = le_record e" for r tld
    using assms [unfolded rates_ok_def, rule_format, of tld] that
    by (auto simp: add_rate_def rate_times_def insertSorted_sorted insertSorted_mset split: if_splits)
  then show ?thesis by (simp add: rates_ok_def)
qed

definition next_entry :: "crypto \<Rightarrow> 'l Store \<Rightarrow> bytes \<Rightarrow> RegistryRecord \<Rightarrow> LogEntry" where
  "next_entry C s bs r =
     \<lparr>le_index = length (st_entries s), le_bytes = bs, le_record = r, le_hash = recordHashFromBytes C bs\<rparr>"

lemma next_entry_simps [simp]:
  "le_index (next_entry C s bs r) = length (st_entries s)" "le_bytes (next_entry C s bs r) = bs"
  "le_record (next_entry C s bs r) = r" "le_hash (next_entry C s bs r) = recordHashFromBytes C bs"
  by (simp_all add: next_entry_def)

lemma store_apply_eq:
  "store_apply C s bs r =
     Inr (s\<lparr>st_entries := st_entries s @ [next_entry C s bs r],
            st_seen := insert (toHex (recordHashFromBytes C bs)) (st_seen s),
            st_rates := add_rate r (st_rates s),
            st_names := map_set (nameKey (r_name r) (r_tld r))
              (derive (map_get (st_names s) (nameKey (r_name r) (r_tld r))) (next_entry C s bs r)) (st_names s)\<rparr>)"
  by (simp add: store_apply_def predecessorFrom_def derive_def Let_def next_entry_def)

lemma write_apply_ok:
  assumes "store_inv C s" "parseRecordBytes bs = Inr r"
  obtains s' where "write_apply C s bs r = Inr s'" "store_inv C s'"
    "st_entries s' = st_entries s @ [next_entry C s bs r]" "st_equivocation s' = st_equivocation s"
    "\<exists>f. frame bs = Inr f \<and> st_file s' = Some ((case st_file s of None \<Rightarrow> [] | Some old \<Rightarrow> old) @ f)"
proof -
  have "length bs \<le> 65536" using parseRecordBytes_encode(3) [OF assms(2)] by simp
  then obtain f where f: "frame bs = Inr f" by (simp add: frame_Inr)
  let ?old = "case st_file s of None \<Rightarrow> [] | Some old \<Rightarrow> old"
  obtain s' where s': "write_apply C s bs r = Inr s'" by (simp add: write_apply_def store_write_def f store_apply_eq)
  then have fields: "st_entries s' = st_entries s @ [next_entry C s bs r]"
      "st_seen s' = insert (toHex (recordHashFromBytes C bs)) (st_seen s)"
      "st_rates s' = add_rate r (st_rates s)" "st_file s' = Some (?old @ f)"
      "st_equivocation s' = st_equivocation s"
      "st_names s' = map_set (nameKey (r_name r) (r_tld r))
        (derive (map_get (st_names s) (nameKey (r_name r) (r_tld r))) (next_entry C s bs r)) (st_names s)"
    by (auto simp: write_apply_def store_write_def f store_apply_eq next_entry_def)
  have names: "map_get (st_names s') key = held_after (st_entries s') key" for key
    using assms(1) unfolding fields held_after_snoc store_inv_def by auto
  have log: "writeLog (map le_bytes (st_entries s')) = Inr (?old @ f)"
    unfolding fields using writeLog_snoc [OF _ f] assms(1) by (simp add: store_inv_def)
  have entries: "entry_ok_at C i (st_entries s' ! i)" if "i < length (st_entries s')" for i
    using that assms unfolding fields store_inv_def
    by (auto simp: nth_append less_Suc_eq entry_ok_at_def)
  have seen: "st_seen s' = toHex ` le_hash ` set (st_entries s')"
    using assms(1) by (simp add: fields store_inv_def)
  have rates: "rates_ok (st_entries s') (st_rates s')"
    using rates_ok_snoc [of "st_entries s" "st_rates s" "next_entry C s bs r"] assms(1)
    by (simp add: fields store_inv_def)
  have "store_inv C s'"
    unfolding store_inv_def using names entries seen rates log fields(4) by simp
  then show ?thesis using that s' fields f by blast
qed

lemma entry_ok_in:
  assumes "store_inv C s" "e \<in> set (st_entries s)"
  shows "le_hash e = recordHashFromBytes C (le_bytes e)" "parseRecordBytes (le_bytes e) = Inr (le_record e)"
  using assms by (auto simp: store_inv_def entry_ok_at_def in_set_conv_nth)

subsection \<open>The difficulty window\<close>

lemma window_naive:
  "foldl (\<lambda>n e. if P (le_record e) then n + 1 else n) k es = k + length (filter (P \<circ> le_record) es)"
  by (induction es arbitrary: k) simp_all

lemma rateWindow_ordered: "rateWindow t = (start, stop) \<Longrightarrow> start \<le> stop"
  by (auto simp: rateWindow_def Let_def RATE_WINDOW_SECONDS_def)

lemma registrationsInWindow_naive:
  assumes "rates_ok (st_entries s) (st_rates s)"
  shows "registrationsInWindow s tld t = registrationsInWindowNaive s tld t"
proof -
  obtain start stop where w: "rateWindow t = (start, stop)" by (cases "rateWindow t")
  let ?ts = "case map_get (st_rates s) tld of None \<Rightarrow> [] | Some ts \<Rightarrow> ts"
  have ts: "sorted ?ts" "mset ?ts = mset (rate_times (st_entries s) tld)"
    using assms by (simp_all add: rates_ok_def)
  have "registrationsInWindow s tld t = lowerBound ?ts stop - lowerBound ?ts start"
    by (cases "map_get (st_rates s) tld") (simp_all add: registrationsInWindow_def w lowerBound_count)
  also have "\<dots> = length (filter (\<lambda>x. start \<le> x \<and> x < stop) ?ts)"
    using lowerBound_window [OF ts(1) rateWindow_ordered [OF w]] by simp
  also have "\<dots> = length (filter (\<lambda>x. start \<le> x \<and> x < stop) (rate_times (st_entries s) tld))"
    using ts(2) by (metis mset_filter size_mset)
  also have "\<dots> = registrationsInWindowNaive s tld t"
  proof -
    have "length (filter (\<lambda>x. start \<le> x \<and> x < stop) (rate_times es tld)) =
        length (filter (in_window tld start stop \<circ> le_record) es)" for es
      by (induction es) (auto simp: rate_times_def in_window_def)
    then show ?thesis by (simp add: registrationsInWindowNaive_def w window_naive)
  qed
  finally show ?thesis .
qed

subsection \<open>What the index holds\<close>

lemma held_after_entry:
  "held_after es key = Some h \<Longrightarrow>
     (\<exists>e\<in>set es. entry_key e = key \<and> pd_record (ne_current h) = le_record e \<and> pd_hash (ne_current h) = le_hash e) \<and>
     (\<exists>e\<in>set es. entry_key e = key \<and> ne_rootHash h = le_hash e)"
proof (induction es arbitrary: h rule: rev_induct)
  case (snoc e es)
  show ?case
  proof (cases "entry_key e = key")
    case True
    then have h: "h = derive (held_after es key) e" using snoc.prems by (simp add: held_after_snoc)
    have "\<exists>e'\<in>set (es @ [e]). entry_key e' = key \<and> ne_rootHash h = le_hash e'"
    proof (cases "held_after es key")
      case None
      then show ?thesis using True by (simp add: h derive_def index_entry_def)
    next
      case (Some g)
      then show ?thesis using True snoc.IH [OF Some] by (auto simp: h derive_def index_entry_def)
    qed
    then show ?thesis using True by (simp add: h derive_def index_entry_def)
  next
    case False
    then show ?thesis using snoc by (auto simp: held_after_snoc)
  qed
qed (simp add: held_after_def)

lemma store_names:
  assumes "store_inv C s" "map_get (st_names s) key = Some h"
  obtains e e' where "e \<in> set (st_entries s)" "entry_key e = key" "pd_record (ne_current h) = le_record e"
    "pd_hash (ne_current h) = le_hash e" "e' \<in> set (st_entries s)" "entry_key e' = key" "ne_rootHash h = le_hash e'"
proof -
  have "held_after (st_entries s) key = Some h" using assms by (simp add: store_inv_def)
  then show ?thesis using held_after_entry that by blast
qed

lemma entry_name:
  assumes "store_inv C s" "e \<in> set (st_entries s)" "entry_key e = nameKey (r_name r) (r_tld r)"
    and "parseRecordBytes bs = Inr r"
  shows "r_name (le_record e) = r_name r" "r_tld (le_record e) = r_tld r"
  using assms(3) nameKey_inject parsed_no_space(2) [OF entry_ok_in(2) [OF assms(1,2)]]
    parsed_no_space(2) [OF assms(4)] by blast+

lemma verify_accept_parse:
  assumes "verify C bs view now ign = Inr (Accept r voided dup)"
  shows "parseRecordBytes bs = Inr r" "voided = None" "\<not> dup"
  using assms unfolding verify_accept_iff parseRecordBytes_Inr by blast+

lemma verifyAt_total: "\<exists>v. verifyAt C s bs now ign = Inr v"
  using verify_total [of C bs "store_view C s" now ign] by (auto simp: verifyAt_def)

lemma verifyAt_accept:
  assumes "verifyAt C s bs now ign = Inr (Accept r voided dup)"
  shows "verify C bs (store_view C s) now ign = Inr (Accept r None False)"
    "parseRecordBytes bs = Inr r" "voided = None" "\<not> dup"
proof -
  have "verify C bs (store_view C s) now ign = Inr (Accept r voided dup)"
    using assms by (simp add: verifyAt_def split: sum.splits)
  then show "verify C bs (store_view C s) now ign = Inr (Accept r None False)"
    "parseRecordBytes bs = Inr r" "voided = None" "\<not> dup"
    using verify_accept_parse [of C bs "store_view C s" now ign r voided dup] by simp_all
qed

subsection \<open>Conflicts\<close>

lemma compareBytes_less: "compareBytes a b \<ge> 0 \<longleftrightarrow> \<not> a < b" "compareBytes a b = 0 \<longleftrightarrow> a = b"
  by (auto simp: compareBytes_eq)

lemma rootEntryFor_Some:
  assumes "rootEntryFor s key = Some e"
  shows "e \<in> set (st_entries s)" "entry_key e = key" "r_op (le_record e) = REGISTER" "r_seq (le_record e) = 0"
  using assms unfolding rootEntryFor_def by (auto simp: find_Some_iff)

definition beats :: "crypto \<Rightarrow> 'l Store \<Rightarrow> bytes \<Rightarrow> int \<Rightarrow> RegistryRecord \<Rightarrow> NameEntry \<Rightarrow> LogEntry \<Rightarrow> bool" where
  "beats C s bs now r held incumbent \<longleftrightarrow>
     parseRecordBytes bs = Inr r \<and> r_op r = REGISTER \<and> r_seq r = 0 \<and>
     map_get (st_names s) (nameKey (r_name r) (r_tld r)) = Some held \<and>
     rootEntryFor s (nameKey (r_name r) (r_tld r)) = Some incumbent \<and>
     r_notBefore r - r_notBefore (le_record incumbent) \<le> 86400 \<and>
     r_ownerKey r \<noteq> r_ownerKey (le_record incumbent) \<and>
     recordHashFromBytes C bs < ne_rootHash held \<and> recordHashFromBytes C bs \<le> le_hash incumbent \<and>
     verify C bs (store_view C s) now True = Inr (Accept r None False)"

lemma conflict_resolves:
  assumes "hash_length_ok C" "store_inv C s" "parseRecordBytes bs = Inr r" "r_seq r = 0"
    and "rootEntryFor s (nameKey (r_name r) (r_tld r)) = Some e"
  obtains res where "resolveConflict
      [\<lparr>c_record = r, c_hash = recordHashFromBytes C bs, c_logIndex = None, c_valid = True\<rparr>, entry_candidate e] = Inr res"
    "c_hash (res_winner res) = min (recordHashFromBytes C bs) (le_hash e)"
proof -
  let ?c = "\<lparr>c_record = r, c_hash = recordHashFromBytes C bs, c_logIndex = None, c_valid = True\<rparr>"
  note root = rootEntryFor_Some [OF assms(5)]
  have nm: "r_name (le_record e) = r_name r" "r_tld (le_record e) = r_tld r"
    using entry_name [OF assms(2) root(1,2) assms(3)] .
  have "le_hash e = recordHashFromBytes C (le_bytes e)" using entry_ok_in [OF assms(2) root(1)] by simp
  then have len: "length (le_hash e) = length (recordHashFromBytes C bs)"
    by (simp add: recordHash_length [OF assms(1)])
  have "resolvable [?c, entry_candidate e]"
    using nm len root(4) assms(4) by (simp add: resolvable_def entry_candidate_def)
  then obtain res where res: "resolveConflict [?c, entry_candidate e] = Inr res"
    using resolveConflict_resolves [of "[?c, entry_candidate e]"] by auto
  have "least_hash [?c, entry_candidate e] (c_hash (res_winner res))"
    using resolveConflict_Inr [OF res] by simp
  then have "c_hash (res_winner res) = min (recordHashFromBytes C bs) (le_hash e)"
    by (auto simp: least_hash_def entry_candidate_def min_def)
  with res that show ?thesis by blast
qed

text \<open>A conflict ends with the store untouched, or with the newcomer in the log.\<close>

lemma settleConflict_cases:
  assumes "hash_length_ok C" "store_inv C s" "parseRecordBytes bs = Inr r" "r_op r = REGISTER" "r_seq r = 0"
    and "rootEntryFor s (nameKey (r_name r) (r_tld r)) = Some e" "\<not> accepted taken"
  obtains
    (refused) v where "settleConflict C s bs r e now taken = Inr (s, v)" "\<not> accepted v"
  | (won) s' where "settleConflict C s bs r e now taken =
        Inr (s', Accept r (Some (voided_encodings s' (voided_chain_of s (nameKey (r_name r) (r_tld r)) e))) False)"
      "write_apply C s bs r = Inr s'"
      "verify C bs (store_view C s) now True = Inr (Accept r None False)" "recordHashFromBytes C bs \<le> le_hash e"
proof -
  obtain v where v: "verifyAt C s bs now True = Inr v" using verifyAt_total by blast
  show ?thesis
  proof (cases v)
    case (Accept r' voided dup)
    then have a: "verify C bs (store_view C s) now True = Inr (Accept r' None False)" "r' = r"
      using verifyAt_accept [of C s bs now True r' voided dup] v assms(3) by auto
    obtain res where res: "resolveConflict
        [\<lparr>c_record = r, c_hash = recordHashFromBytes C bs, c_logIndex = None, c_valid = True\<rparr>, entry_candidate e] = Inr res"
      "c_hash (res_winner res) = min (recordHashFromBytes C bs) (le_hash e)"
      by (rule conflict_resolves [OF assms(1-3,5,6)])
    have "le_hash e = recordHashFromBytes C (le_bytes e)"
      using entry_ok_in [OF assms(2) rootEntryFor_Some(1) [OF assms(6)]] by simp
    then have cmp: "compareHashes (c_hash (res_winner res)) (recordHashFromBytes C bs) =
        Inr (compareBytes (min (recordHashFromBytes C bs) (le_hash e)) (recordHashFromBytes C bs))"
      by (auto simp: compareHashes_def res(2) recordHash_length [OF assms(1)] min_def)
    obtain s' where s': "write_apply C s bs r = Inr s'" by (rule write_apply_ok [OF assms(2,3)])
    show ?thesis
    proof (cases "recordHashFromBytes C bs \<le> le_hash e")
      case True
      then show ?thesis
        using won [of s'] v Accept a res s' cmp
        by (simp add: settleConflict_def Let_def compareBytes_less(2) min_def)
    next
      case False
      then have "le_hash e \<noteq> recordHashFromBytes C bs" by auto
      with False show ?thesis
        using refused [of taken] v Accept a res cmp assms(7)
        by (auto simp: settleConflict_def Let_def compareBytes_less(2) min_def)
    qed
  qed (use refused v in \<open>simp_all add: settleConflict_def Let_def\<close>)
qed

lemma mergeConflict_cases:
  assumes "hash_length_ok C" "store_inv C s" "\<not> accepted taken"
  obtains
    (refused) v where "mergeConflict C s bs now taken = Inr (s, v)" "\<not> accepted v"
  | (won) s' r held e where "mergeConflict C s bs now taken =
        Inr (s', Accept r (Some (voided_encodings s' (voided_chain_of s (nameKey (r_name r) (r_tld r)) e))) False)"
      "write_apply C s bs r = Inr s'" "beats C s bs now r held e"
proof (cases "parseRecordBytes bs")
  case (Inl x)
  then show ?thesis using refused [of taken] assms(3) by (simp add: mergeConflict_def)
next
  case r: (Inr r)
  note outer = refused won
  let ?key = "nameKey (r_name r) (r_tld r)"
  show ?thesis
  proof (cases "r_op r = REGISTER \<and> r_seq r = 0 \<and> (\<exists>h e. map_get (st_names s) ?key = Some h \<and> rootEntryFor s ?key = Some e)")
    case False
    then show ?thesis
      using refused [of taken] assms(3) r
      by (auto simp: mergeConflict_def Let_def split: option.splits)
  next
    case True
    then obtain h e where h: "map_get (st_names s) ?key = Some h" "rootEntryFor s ?key = Some e"
      and op: "r_op r = REGISTER" "r_seq r = 0" by blast
    obtain e' where "e' \<in> set (st_entries s)" "ne_rootHash h = le_hash e'"
      by (rule store_names [OF assms(2) h(1)])
    then have "length (ne_rootHash h) = 32"
      using entry_ok_in(1) [OF assms(2)] recordHash_length [OF assms(1)] by metis
    then have cmp: "compareHashes (recordHashFromBytes C bs) (ne_rootHash h) =
        Inr (compareBytes (recordHashFromBytes C bs) (ne_rootHash h))"
      by (simp add: compareHashes_def recordHash_length [OF assms(1)])
    show ?thesis
    proof (cases "r_notBefore r - r_notBefore (le_record e) \<le> 86400 \<and> r_ownerKey r \<noteq> r_ownerKey (le_record e) \<and>
        recordHashFromBytes C bs < ne_rootHash h")
      case False
      then show ?thesis
        using refused [of taken] assms(3) r h op cmp
        by (auto simp: mergeConflict_def Let_def MAX_BACKDATE_SECONDS_def compareBytes_less)
    next
      case ok: True
      have eq: "mergeConflict C s bs now taken = settleConflict C s bs r e now taken"
        using ok r h op cmp
        by (auto simp: mergeConflict_def Let_def MAX_BACKDATE_SECONDS_def compareBytes_less)
      from assms(1,2) r op h(2) assms(3) show ?thesis
      proof (cases rule: settleConflict_cases [of C s bs r e taken now])
        case (refused v)
        then show ?thesis using outer(1) eq by simp
      next
        case (won s')
        then show ?thesis
          using outer(2) [of s' r e h] eq r h op ok by (simp add: beats_def)
      qed
    qed
  qed
qed

subsection \<open>Appending\<close>

text \<open>
  The log as the verifier sees it, without the recorder; and hashes of new bytes that do not
  collide with a held entry's.
\<close>

definition same_log :: "'l Store \<Rightarrow> 'l Store \<Rightarrow> bool" where
  "same_log s t \<longleftrightarrow> (\<exists>x. t = s\<lparr>st_equivocation := x\<rparr>)"

lemma same_log_refl [simp]: "same_log s s"
  unfolding same_log_def by (rule exI [of _ "st_equivocation s"]) simp

lemma same_log_fields:
  "same_log s t \<Longrightarrow> st_entries t = st_entries s \<and> st_file t = st_file s \<and> st_names t = st_names s \<and>
     st_seen t = st_seen s \<and> st_rates t = st_rates s \<and> store_inv C t = store_inv C s"
  by (auto simp: same_log_def store_inv_def)

definition no_collision :: "crypto \<Rightarrow> 'l Store \<Rightarrow> bytes \<Rightarrow> bool" where
  "no_collision C s bs \<longleftrightarrow> (\<forall>e\<in>set (st_entries s). le_hash e = recordHashFromBytes C bs \<longrightarrow> le_bytes e = bs)"

lemma store_has_entry:
  assumes "store_inv C s"
  shows "store_has C s bs \<longleftrightarrow> (\<exists>e\<in>set (st_entries s). le_hash e = recordHashFromBytes C bs)"
proof -
  have "st_seen s = toHex ` le_hash ` set (st_entries s)" using assms by (simp add: store_inv_def)
  then show ?thesis
    by (simp add: store_has_def toHex_inject image_iff eq_commute [of "recordHashFromBytes C bs"])
qed

lemma log_step_simps [simp]: "log_step (Inr x) = Inr x" "log_step (Inl e) = Inl (LOG_ERROR e)"
  by (simp_all add: log_step_def)

context equivocation_recorder
begin

definition watched :: "'l Store \<Rightarrow> bool" where
  "watched s \<longleftrightarrow> (case st_equivocation s of None \<Rightarrow> True | Some (R', l) \<Rightarrow> R' = R \<and> ok l)"

lemma noteEquivocation_ok:
  assumes "watched s"
  obtains s' where "noteEquivocation C s bs = Inr s'" "same_log s s'" "watched s'"
proof (cases "noteEquivocation C s bs = Inr s")
  case True
  then show ?thesis using that assms by simp
next
  case False
  then obtain l where l: "st_equivocation s = Some (R, l)" "ok l"
    using assms by (cases "st_equivocation s") (auto simp: noteEquivocation_def watched_def)
  then obtain r where r: "parseRecordBytes bs = Inr r"
    using False by (auto simp: noteEquivocation_def split: sum.splits)
  note signed = signedByNamedOwner_eq [OF r]
  obtain e where e: "other_half C s r bs = Some e"
    "noteEquivocation C s bs =
      (case rec_record R l (le_bytes e) bs Detected of
         Inl x \<Rightarrow> Inl (RECORDER_ERROR x) | Inr l' \<Rightarrow> Inr (s\<lparr>st_equivocation := Some (R, l')\<rparr>))"
    using False l r signed [of C]
    by (auto simp: noteEquivocation_def split: if_splits option.splits bool.splits)
  obtain m where m: "rec_record R l (le_bytes e) bs Detected = Inr m" "ok m"
    using record_total [OF l(2)] by blast
  show ?thesis
    by (rule that [of "s\<lparr>st_equivocation := Some (R, m)\<rparr>"])
      (use e m in \<open>auto simp: same_log_def watched_def\<close>)
qed

text \<open>Every way an append can end.\<close>

lemma store_append_cases:
  assumes "hash_length_ok C" "store_inv C s" "watched s" "no_collision C s bs"
  obtains
    (duplicate) r where "parseRecordBytes bs = Inr r" "bs \<in> le_bytes ` set (st_entries s)"
      "store_append C s bs now = Inr (s, Accept r None True)"
  | (refused) s' v where "bs \<notin> le_bytes ` set (st_entries s)" "same_log s s'" "watched s'" "\<not> accepted v"
      "store_append C s bs now = Inr (s', v)"
  | (appended) s' r where "bs \<notin> le_bytes ` set (st_entries s)"
      "verify C bs (store_view C s) now False = Inr (Accept r None False)"
      "write_apply C s bs r = Inr s'" "store_append C s bs now = Inr (s', Accept r None False)"
  | (merged) s' r held e voided where "bs \<notin> le_bytes ` set (st_entries s)"
      "verify C bs (store_view C s) now False = Inr (Reject NAME_TAKEN)" "beats C s bs now r held e"
      "write_apply C s bs r = Inr s'" "store_append C s bs now = Inr (s', Accept r (Some voided) False)"
proof (cases "store_has C s bs")
  case True
  then obtain e where e: "e \<in> set (st_entries s)" "le_bytes e = bs"
    using assms(4) unfolding store_has_entry [OF assms(2)] no_collision_def by blast
  then have p: "parseRecordBytes bs = Inr (le_record e)" using entry_ok_in [OF assms(2)] by blast
  from e have "bs \<in> le_bytes ` set (st_entries s)" by blast
  with True p show ?thesis using duplicate by (simp add: store_append_def)
next
  case new: False
  have fresh: "bs \<notin> le_bytes ` set (st_entries s)"
    using new entry_ok_in(1) [OF assms(2)] by (fastforce simp: store_has_entry [OF assms(2)])
  obtain v where v: "verifyAt C s bs now False = Inr v" using verifyAt_total by blast
  have note_ok: "\<exists>s'. note_refused C bs s w = Inr (s', w) \<and> same_log s s' \<and> watched s'" for w
    using noteEquivocation_ok [OF assms(3), of bs] by (metis note_refused_def old.sum.simps(6))
  have accept: thesis if "v = Accept r voided dup" for r voided dup
  proof -
    note a = verifyAt_accept [OF v [unfolded that]]
    obtain s' where "write_apply C s bs r = Inr s'" by (rule write_apply_ok [OF assms(2) a(2)])
    then show thesis using appended [OF fresh a(1)] new v that a(3,4) by (simp add: store_append_def)
  qed
  have refuse: thesis if "\<not> accepted v" "v \<noteq> Reject NAME_TAKEN"
  proof -
    obtain s' where s': "note_refused C bs s v = Inr (s', v)" "same_log s s'" "watched s'"
      using note_ok by blast
    have "store_append C s bs now = note_refused C bs s v"
      using that new v by (simp add: store_append_def split: verdict.splits rejection.splits)
    then show thesis using refused [OF fresh s'(2,3) that(1)] s'(1) by simp
  qed
  note refused_append = refused
  have taken: thesis if t: "v = Reject NAME_TAKEN"
  proof -
    have "verify C bs (store_view C s) now False = Inr (Reject NAME_TAKEN)"
      using v t by (simp add: verifyAt_def split: sum.splits)
    note appended_merge = merged [OF fresh this]
    have nt: "\<not> accepted v" by (simp add: t)
    from assms(1,2) nt show thesis
    proof (cases rule: mergeConflict_cases [of C s v bs now])
      case (refused w)
      obtain s' where s': "note_refused C bs s w = Inr (s', w)" "same_log s s'" "watched s'"
        using note_ok by blast
      have "store_append C s bs now = note_refused C bs s w"
        using refused new v t by (simp add: store_append_def)
      then show thesis using refused_append [OF fresh s'(2,3) refused(2)] s'(1) by simp
    next
      case (won s' r held e)
      then show thesis using appended_merge [OF won(3,2)] new v t by (simp add: store_append_def)
    qed
  qed
  show thesis
    using accept refuse taken by (cases v) auto
qed

end

subsection \<open>Reopening\<close>

lemma held_after_parsed:
  assumes "store_inv C s" "map_get (st_names s) (nameKey (r_name r) (r_tld r)) = Some h"
  shows "store_current s (r_name r) (r_tld r) = Some (ne_current h)"
  using assms(2) by (simp add: store_current_def)

text \<open>Stores with the same entries answer the verifier alike.\<close>

lemma same_entries_view:
  assumes "store_inv C s" "store_inv C t" "st_entries s = st_entries t"
  shows "store_view C s = store_view C t" "st_seen s = st_seen t"
proof -
  have names: "map_get (st_names s) = map_get (st_names t)"
    using assms by (auto simp: store_inv_def)
  have "rates_ok (st_entries s) (st_rates s)" "rates_ok (st_entries t) (st_rates t)"
    using assms(1,2) by (simp_all add: store_inv_def)
  then have "registrationsInWindow s = registrationsInWindow t"
    by (intro ext) (simp add: registrationsInWindow_naive registrationsInWindowNaive_def assms(3))
  then have "powVerified C s = powVerified C t" by (intro ext) (simp add: powVerified_def requiredBitsFor_def)
  moreover have "store_current s = store_current t" "store_revoked s = store_revoked t"
    by (intro ext, simp add: store_current_def store_revoked_def names)+
  ultimately show "store_view C s = store_view C t" by (simp add: store_view_def)
  show "st_seen s = st_seen t" using assms by (simp add: store_inv_def)
qed

lemma replay_append:
  "replay_log C (ps @ qs) s = bindE (replay_log C ps s) (replay_log C qs)"
proof (induction ps arbitrary: s)
  case (Cons p ps)
  then show ?case by (cases p) (simp split: sum.splits verdict.splits)
qed simp

definition index_inv :: "crypto \<Rightarrow> 'l Store \<Rightarrow> bool" where
  "index_inv C s \<longleftrightarrow> store_inv C (s\<lparr>st_file :=
     Some (case writeLog (map le_bytes (st_entries s)) of Inl _ \<Rightarrow> [] | Inr f \<Rightarrow> f)\<rparr>)"

lemma apply_index:
  assumes "index_inv C s" "parseRecordBytes bs = Inr r"
  obtains s' where "store_apply C s bs r = Inr s'" "index_inv C s'"
    "st_entries s' = st_entries s @ [next_entry C s bs r]" "st_file s' = st_file s"
    "st_equivocation s' = st_equivocation s"
proof -
  let ?log = "\<lambda>s. case writeLog (map le_bytes (st_entries s)) of Inl _ \<Rightarrow> [] | Inr f \<Rightarrow> f"
  let ?t = "s\<lparr>st_file := Some (?log s)\<rparr>"
  obtain t' where t': "write_apply C ?t bs r = Inr t'" "store_inv C t'"
    by (rule write_apply_ok [OF assms(1) [unfolded index_inv_def] assms(2)])
  obtain s' where s': "store_apply C s bs r = Inr s'" by (simp add: store_apply_eq)
  have "length bs \<le> 65536" using parseRecordBytes_encode(3) [OF assms(2)] by simp
  then obtain f where f: "frame bs = Inr f" by (simp add: frame_Inr)
  have eq: "t' = s'\<lparr>st_file := Some (?log s @ f)\<rparr>"
    using t'(1) s' by (simp add: write_apply_def store_write_def f store_apply_eq next_entry_def)
      (auto simp: next_entry_def)
  have "writeLog (map le_bytes (st_entries t')) = Inr (?log s @ f)"
    using t'(2) eq by (simp add: store_inv_def)
  then have "index_inv C s'" using t'(2) eq by (simp add: index_inv_def)
  moreover have "st_entries s' = st_entries s @ [next_entry C s bs r]" "st_file s' = st_file s"
    "st_equivocation s' = st_equivocation s"
    using s' by (auto simp: store_apply_eq)
  ultimately show ?thesis using that s' by blast
qed

lemma replay_entries:
  "replay_log C ps s = Inr t \<Longrightarrow> index_inv C s \<Longrightarrow>
     index_inv C t \<and> map le_bytes (st_entries t) = map le_bytes (st_entries s) @ map snd ps \<and>
     st_file t = st_file s \<and> st_equivocation t = st_equivocation s"
proof (induction ps arbitrary: s)
  case (Cons p ps)
  obtain i bs where p: "p = (i, bs)" by (cases p)
  obtain r where parse: "parseRecordBytes bs = Inr r"
    using Cons.prems(1) p by (cases "parseRecordBytes bs") simp_all
  obtain v where v: "verifyAt C s bs (r_notBefore r) False = Inr v" using verifyAt_total by blast
  have "bindE (store_apply C s bs r) (replay_log C ps) = Inr t"
    using Cons.prems(1) p parse v by (cases v) simp_all
  then obtain s' where r: "parseRecordBytes bs = Inr r" "store_apply C s bs r = Inr s'" "replay_log C ps s' = Inr t"
    using parse by (auto simp: bindE_eq_Inr)
  obtain s'' where "store_apply C s bs r = Inr s''" "index_inv C s''"
    "st_entries s'' = st_entries s @ [next_entry C s bs r]" "st_file s'' = st_file s"
    "st_equivocation s'' = st_equivocation s"
    by (rule apply_index [OF Cons.prems(2) r(1)])
  then show ?case using Cons.IH [OF r(3)] r(2) by (simp add: p)
qed simp

lemma open_inv:
  assumes "store_open C contents = Inr s"
  shows "store_inv C s \<and> st_file s = contents \<and> st_equivocation s = None \<and>
    (\<forall>bs. contents = Some bs \<longrightarrow> unframe bs = Inr (map le_bytes (st_entries s)))"
proof (cases contents)
  case None
  then have "s = new_store None" using assms by (simp add: store_open_def)
  then show ?thesis using None new_store_inv(1) [of C] by (simp add: new_store_def)
next
  case (Some bs)
  then obtain raw where raw: "unframe bs = Inr raw" "replay_log C (enumerate 0 raw) (new_store contents) = Inr s"
    using assms by (auto simp: store_open_def errs)
  have "index_inv C (new_store contents :: 'a Store)"
    using new_store_inv(2) [of C] by (simp add: index_inv_def new_store_def writeLog_def)
  from replay_entries [OF raw(2) this]
  have s: "index_inv C s" "map le_bytes (st_entries s) = raw" "st_file s = contents" "st_equivocation s = None"
    by (simp_all add: new_store_def)
  have "writeLog raw = Inr bs" using raw(1) unframe_iff by blast
  then have "store_inv C s" using s Some by (simp add: index_inv_def store_inv_def)
  then show ?thesis using s raw(1) Some by simp
qed

lemma entries_from_bytes:
  fixes s :: "'l Store" and t :: "'m Store"
  assumes "store_inv C s" "store_inv C t" "map le_bytes (st_entries s) = map le_bytes (st_entries t)"
  shows "st_entries s = st_entries t"
proof (rule nth_equalityI)
  show l: "length (st_entries s) = length (st_entries t)" using assms(3) by (metis length_map)
  fix i assume i: "i < length (st_entries s)"
  have b: "le_bytes (st_entries s ! i) = le_bytes (st_entries t ! i)"
    using assms(3) i l by (metis nth_map)
  have "entry_ok_at C i (st_entries s ! i)" "entry_ok_at C i (st_entries t ! i)"
    using assms(1,2) i l by (simp_all add: store_inv_def)
  then show "st_entries s ! i = st_entries t ! i" using b by (simp add: entry_ok_at_def)
qed

lemma reopen_same:
  fixes s :: "'l Store" and t :: "'m Store"
  assumes "store_inv C s" "st_file s = Some bs" "store_open C (Some bs) = Inr t"
    and "\<forall>e\<in>set (st_entries s). le_bytes e \<noteq> []"
  shows "st_entries t = st_entries s" "store_inv C t"
proof -
  have t: "store_inv C t" "unframe bs = Inr (map le_bytes (st_entries t))"
    using open_inv [OF assms(3)] by simp_all
  have "writeLog (map le_bytes (st_entries s)) = Inr bs" using assms(1,2) by (simp add: store_inv_def)
  then have "unframe bs = Inr (map le_bytes (st_entries s))"
    using assms(4) by (simp add: unframe_iff)
  then have "map le_bytes (st_entries s) = map le_bytes (st_entries t)" using t(2) by simp
  then have "st_entries s = st_entries t" by (rule entries_from_bytes [OF assms(1) t(1)])
  then show "st_entries t = st_entries s" by simp
  show "store_inv C t" by (rule t(1))
qed

subsection \<open>Reachable stores\<close>

text \<open>What is accepted is signed by the owner it names: a TRANSFER by its countersignature.\<close>

lemma accept_signed:
  assumes "verify C bs view now ign = Inr (Accept r voided dup)"
  shows "signed_by_owner C r"
  using assms
proof (cases rule: verify_accept_cases)
  case (register input)
  then show ?thesis by (auto simp: signed_by_owner_def register_ok_def)
next
  case (successor input p)
  let ?prev = "pd_record p"
  have ok: "operation_ok C r ?prev input view" and k: "verifyStrict C (controllingKey p (r_notBefore r)) input (r_sig r)"
    and u: "unsettled ?prev (r_notBefore r) \<longrightarrow> r_op r = TRANSFER"
    using successor(5) by (simp_all add: successor_ok_def Let_def)
  show ?thesis
  proof (cases "r_op r = TRANSFER")
    case True
    then show ?thesis using ok successor(2) by (auto simp: signed_by_owner_def operation_ok_def)
  next
    case False
    then have "controllingKey p (r_notBefore r) = r_ownerKey ?prev"
      using u by (auto simp: controllingKey_def unsettled_def SETTLEMENT_SECONDS_def Let_def)
    moreover have "r_ownerKey r = r_ownerKey ?prev"
      using ok False by (auto simp: operation_ok_def split: operation.splits)
    ultimately show ?thesis using k False successor(2) by (simp add: signed_by_owner_def)
  qed
qed

definition log_signed :: "crypto \<Rightarrow> 'l Store \<Rightarrow> bool" where
  "log_signed C s \<longleftrightarrow> (\<forall>e\<in>set (st_entries s). signed_by_owner C (le_record e) \<and> le_bytes e \<noteq> [])"

lemma parsed_not_Nil: "parseRecordBytes bs = Inr r \<Longrightarrow> bs \<noteq> []"
  using parseRecordBytes_encode(1) encodeValue_not_Nil unfolding encode_def by blast

definition store_ok :: "crypto \<Rightarrow> Ledger Store \<Rightarrow> bool" where
  "store_ok C s \<longleftrightarrow> store_inv C s \<and> log_signed C s \<and> ledger.watched C s"

lemma ledger_watched:
  "ledger.watched C s \<longleftrightarrow>
     (\<forall>R L. st_equivocation s = Some (R, L) \<longrightarrow> R = ledger_recorder C \<and> hash_length_ok C \<and> ledger_inv C L)"
  by (cases "st_equivocation s") (auto simp: ledger.watched_def ledger_ok_def)

definition fits_after :: "crypto \<Rightarrow> Ledger Store \<Rightarrow> bytes \<Rightarrow> Ledger Store \<Rightarrow> verdict \<Rightarrow> bool" where
  "fits_after C s bs s' v \<longleftrightarrow>
     (if st_entries s' = st_entries s
      then same_log s s' \<and> (accepted v \<longrightarrow> (\<exists>r. v = Accept r None True) \<and> bs \<in> le_bytes ` set (st_entries s))
      else \<exists>r f voided. v = Accept r voided False \<and> parseRecordBytes bs = Inr r \<and> frame bs = Inr f \<and>
        st_entries s' = st_entries s @ [next_entry C s bs r] \<and>
        st_file s' = Some ((case st_file s of None \<Rightarrow> [] | Some old \<Rightarrow> old) @ f))"

lemma store_append_step:
  assumes "hash_length_ok C" "store_ok C s" "no_collision C s bs"
  shows "\<exists>s' v. store_append C s bs now = Inr (s', v) \<and> store_ok C s' \<and> fits_after C s bs s' v"
proof -
  have inv: "store_inv C s" and sg: "log_signed C s" and w: "ledger.watched C s"
    using assms(2) by (simp_all add: store_ok_def)
  have grow: "\<exists>s' v. store_append C s bs now = Inr (s', v) \<and> store_ok C s' \<and> fits_after C s bs s' v"
    if app: "store_append C s bs now = Inr (t, Accept r voided False)" and wr: "write_apply C s bs r = Inr t"
      and p: "parseRecordBytes bs = Inr r" and signed: "signed_by_owner C r" for t r voided
  proof -
    obtain s' where s': "write_apply C s bs r = Inr s'" "store_inv C s'"
      "st_entries s' = st_entries s @ [next_entry C s bs r]" "st_equivocation s' = st_equivocation s"
      "\<exists>f. frame bs = Inr f \<and> st_file s' = Some ((case st_file s of None \<Rightarrow> [] | Some old \<Rightarrow> old) @ f)"
      by (rule write_apply_ok [OF inv p])
    have t: "t = s'" using wr s'(1) by simp
    have "store_ok C s'"
      using s'(2-4) sg w signed parsed_not_Nil [OF p]
      by (simp add: store_ok_def log_signed_def ledger_watched)
    moreover have "fits_after C s bs s' (Accept r voided False)" using s'(3,5) p by (auto simp: fits_after_def)
    ultimately show ?thesis using app t by blast
  qed
  from assms(1) inv w assms(3) show ?thesis
  proof (cases rule: ledger.store_append_cases [of C s bs now])
    case (duplicate r)
    then show ?thesis using assms(2) by (auto simp: fits_after_def)
  next
    case (refused s' v)
    have "store_ok C s'"
      using inv sg refused(3) same_log_fields [OF refused(2), of C] by (simp add: store_ok_def log_signed_def)
    moreover have "fits_after C s bs s' v"
      using refused(2,4) same_log_fields [OF refused(2)] by (auto simp: fits_after_def)
    ultimately show ?thesis using refused(5) by blast
  next
    case (appended s' r)
    then show ?thesis using grow [OF appended(4,3)] accept_signed verify_accept_parse(1) by blast
  next
    case (merged s' r held e voided)
    then show ?thesis using grow [OF merged(5,4)] accept_signed by (auto simp: beats_def)
  qed
qed

lemma store_append_preserves:
  assumes "hash_length_ok C" "store_ok C s" "no_collision C s bs" "store_append C s bs now = Inr (s', v)"
  shows "store_ok C s'" "fits_after C s bs s' v"
  using store_append_step [OF assms(1-3), of now] assms(4) by auto

text \<open>Stores opened from a file or new, then fed with arbitrary bytes at arbitrary times.\<close>

inductive reachable :: "crypto \<Rightarrow> Ledger Store \<Rightarrow> bool" for C where
  opened: "store_open C contents = Inr s \<Longrightarrow> reachable C s"
| watch: "reachable C s \<Longrightarrow> ledger_inv C L \<Longrightarrow> reachable C (watchEquivocation s (ledger_recorder C, L))"
| arrival: "reachable C s \<Longrightarrow> no_collision C s bs \<Longrightarrow> store_append C s bs now = Inr (s', v) \<Longrightarrow> reachable C s'"

inductive_cases reachableE: "reachable C s"

lemma replay_signed:
  "replay_log C ps s = Inr t \<Longrightarrow> log_signed C s \<Longrightarrow> log_signed C t"
proof (induction ps arbitrary: s)
  case (Cons p ps)
  obtain i bs where p: "p = (i, bs)" by (cases p)
  obtain r where parse: "parseRecordBytes bs = Inr r"
    using Cons.prems(1) p by (cases "parseRecordBytes bs") simp_all
  obtain v where v: "verifyAt C s bs (r_notBefore r) False = Inr v" using verifyAt_total by blast
  obtain r' voided dup where a: "v = Accept r' voided dup"
    using Cons.prems(1) p parse v by (cases v) simp_all
  have "signed_by_owner C r"
    using verifyAt_accept [OF v [unfolded a]] accept_signed parse by fastforce
  moreover obtain s' where s': "store_apply C s bs r = Inr s'"
    "st_entries s' = st_entries s @ [next_entry C s bs r]" by (simp add: store_apply_eq)
  ultimately have "log_signed C s'"
    using Cons.prems(2) parsed_not_Nil [OF parse] by (simp add: log_signed_def)
  moreover have "replay_log C ps s' = Inr t" using Cons.prems(1) p parse v a s'(1) by simp
  ultimately show ?case using Cons.IH by blast
qed simp

lemma open_ok:
  assumes "store_open C contents = Inr s"
  shows "store_ok C s"
proof -
  have "log_signed C s"
  proof (cases contents)
    case None
    then show ?thesis using assms by (auto simp: store_open_def log_signed_def new_store_def)
  next
    case (Some bs)
    then obtain raw where "replay_log C (enumerate 0 raw) (new_store contents) = Inr s"
      using assms by (auto simp: store_open_def errs)
    then show ?thesis by (rule replay_signed) (simp add: log_signed_def new_store_def)
  qed
  then show ?thesis using open_inv [OF assms] by (simp add: store_ok_def ledger_watched)
qed

lemma reachable_ok:
  assumes "hash_length_ok C" "reachable C s"
  shows "store_ok C s"
  using assms(2)
proof (induction rule: reachable.induct)
  case (opened contents s)
  then show ?case by (rule open_ok)
next
  case (watch s L)
  then show ?case
    using assms(1) by (simp add: store_ok_def ledger_watched watchEquivocation_def store_inv_def log_signed_def)
next
  case (arrival s bs now s' v)
  then show ?case using store_append_preserves(1) [OF assms(1)] by blast
qed

end
