(* ===== verification/Store_Append.thy ===== *)
theory Store_Append
  imports Store
begin

section \<open>How an append ends\<close>

text \<open>
  When \<open>append\<close> of registry/src/store.ts adds a record to a sound log, and what the index
  holds afterwards: the direct case and the conflict the newcomer wins.
\<close>

lemma names_after:
  assumes "write_apply C s bs r = Inr s'" "store_inv C s" "parseRecordBytes bs = Inr r"
  shows "map_get (st_names s') key =
     (if key = nameKey (r_name r) (r_tld r)
      then Some (derive (map_get (st_names s) key) (next_entry C s bs r)) else map_get (st_names s) key)"
    and "st_rates s' = add_rate r (st_rates s)" and "st_entries s' = st_entries s @ [next_entry C s bs r]"
    and "st_equivocation s' = st_equivocation s" and "store_inv C s'"
proof -
  obtain t where t: "write_apply C s bs r = Inr t" "store_inv C t"
    "st_entries t = st_entries s @ [next_entry C s bs r]" "st_equivocation t = st_equivocation s"
    by (rule write_apply_ok [OF assms(2,3)])
  then have "t = s'" using assms(1) by simp
  with t show "st_entries s' = st_entries s @ [next_entry C s bs r]" "st_equivocation s' = st_equivocation s"
    "store_inv C s'" by simp_all
  show "map_get (st_names s') key =
     (if key = nameKey (r_name r) (r_tld r)
      then Some (derive (map_get (st_names s) key) (next_entry C s bs r)) else map_get (st_names s) key)"
    using assms(1) by (auto simp: write_apply_def store_write_def store_apply_eq bindE_eq_Inr next_entry_def)
  show "st_rates s' = add_rate r (st_rates s)"
    using assms(1) by (auto simp: write_apply_def store_write_def store_apply_eq bindE_eq_Inr)
qed

lemma register_derived:
  assumes "r_op (le_record e) = REGISTER"
  shows "pd_record (ne_current (derive h e)) = le_record e" "ne_rootHash (derive h e) = le_hash e"
    "ne_revoked (derive h e) = False" "pd_hash (ne_current (derive h e)) = le_hash e"
    "pd_signerKey (ne_current (derive h e)) = r_ownerKey (le_record e)"
  using assms by (auto simp: derive_def index_entry_def signer_of_def split: option.splits)

lemma append_accepts:
  assumes "store_inv C s" "\<not> store_has C s bs"
    and "verify C bs (store_view C s) now False = Inr (Accept r None False)"
  obtains s' where "store_append C s bs now = Inr (s', Accept r None False)" "write_apply C s bs r = Inr s'"
proof -
  have v: "verifyAt C s bs now False = Inr (Accept r None False)" using assms(3) by (simp add: verifyAt_def)
  obtain s' where "write_apply C s bs r = Inr s'"
    by (rule write_apply_ok [OF assms(1) verifyAt_accept(2) [OF v]])
  then show ?thesis using that v assms(2) by (simp add: store_append_def)
qed

lemma append_wins:
  assumes "hash_length_ok C" "store_inv C s" "\<not> store_has C s bs"
    and "verify C bs (store_view C s) now False = Inr (Reject NAME_TAKEN)" and "beats C s bs now r held e"
  obtains s' voided where "store_append C s bs now = Inr (s', Accept r (Some voided) False)"
    "write_apply C s bs r = Inr s'"
proof -
  note b = assms(5) [unfolded beats_def]
  have v: "verifyAt C s bs now False = Inr (Reject NAME_TAKEN)" "verifyAt C s bs now True = Inr (Accept r None False)"
    using assms(4) b by (simp_all add: verifyAt_def)
  have p: "parseRecordBytes bs = Inr r" and seq: "r_seq r = 0" using b by simp_all
  obtain s' where s': "write_apply C s bs r = Inr s'" by (rule write_apply_ok [OF assms(2) p])
  have root: "rootEntryFor s (nameKey (r_name r) (r_tld r)) = Some e"
    and h: "map_get (st_names s) (nameKey (r_name r) (r_tld r)) = Some held" using b by simp_all
  obtain res where res: "resolveConflict
      [\<lparr>c_record = r, c_hash = recordHashFromBytes C bs, c_logIndex = None, c_valid = True\<rparr>, entry_candidate e] = Inr res"
    "c_hash (res_winner res) = min (recordHashFromBytes C bs) (le_hash e)"
    by (rule conflict_resolves [OF assms(1,2) p seq root])
  have w: "c_hash (res_winner res) = recordHashFromBytes C bs" using res(2) b by (simp add: min_def)
  obtain e' where "e' \<in> set (st_entries s)" "ne_rootHash held = le_hash e'"
    by (rule store_names [OF assms(2) h])
  then have "length (ne_rootHash held) = 32"
    using entry_ok_in(1) [OF assms(2)] recordHash_length [OF assms(1)] by metis
  then have cmp: "compareHashes (recordHashFromBytes C bs) (ne_rootHash held) =
        Inr (compareBytes (recordHashFromBytes C bs) (ne_rootHash held))"
      "compareHashes (recordHashFromBytes C bs) (recordHashFromBytes C bs) = Inr 0"
    by (simp_all add: compareHashes_def recordHash_length [OF assms(1)] compareBytes_eq)
  have "mergeConflict C s bs now (Reject NAME_TAKEN) =
      Inr (s', Accept r (Some (voided_encodings s' (voided_chain_of s (nameKey (r_name r) (r_tld r)) e))) False)"
    using b p h root cmp res(1) w v(2) s'
    by (simp add: mergeConflict_def settleConflict_def Let_def MAX_BACKDATE_SECONDS_def compareBytes_less)
  then show ?thesis using that s' v(1) assms(3) by (simp add: store_append_def)
qed

text \<open>A refused append is exactly one look for equivocation.\<close>

lemma append_refused_notes:
  assumes "hash_length_ok C" "store_inv C s" "store_append C s bs now = Inr (s', v)" "\<not> accepted v"
  shows "noteEquivocation C s bs = Inr s'"
proof -
  have new: "\<not> store_has C s bs"
    using assms(3,4) by (auto simp: store_append_def split: sum.splits)
  obtain w where w: "verifyAt C s bs now False = Inr w" using verifyAt_total by blast
  show ?thesis
  proof (cases "w = Reject NAME_TAKEN")
    case True
    then have nt: "\<not> accepted w" by simp
    from assms(1,2) nt show ?thesis
    proof (cases rule: mergeConflict_cases [of C s w bs now])
      case (refused u)
      then show ?thesis
        using assms(3) new w True by (auto simp: store_append_def note_refused_def bindE_eq_Inr)
    next
      case (won t r held e)
      then show ?thesis using assms(3,4) new w True by (auto simp: store_append_def)
    qed
  next
    case False
    then show ?thesis
      using assms(3,4) new w
      by (auto simp: store_append_def note_refused_def bindE_eq_Inr split: verdict.splits rejection.splits)
  qed
qed

lemma held_after_known: "e \<in> set es \<Longrightarrow> held_after es (entry_key e) \<noteq> None"
  by (induction es rule: rev_induct) (auto simp: held_after_snoc)

context equivocation_recorder
begin

lemma noted_settles:
  assumes "noteEquivocation C s bs = Inr s'" "store_inv C s" "log_signed C s" "no_collision C s bs"
    and "st_equivocation s = Some (R, l)" "ok l"
    and "parseRecordBytes bs = Inr r" "signed_by_owner C r" "e \<in> set (st_entries s)"
    and "entry_key e = nameKey (r_name r) (r_tld r)" "r_seq (le_record e) = r_seq r"
      "r_ownerKey (le_record e) = r_ownerKey r" "le_bytes e \<noteq> bs"
  shows "\<exists>m. st_equivocation s' = Some (R, m) \<and> rec_settled R m r Detected"
proof (cases "rec_settled R l r Detected")
  case True
  then have "s' = s"
    using assms(1,5,7) by (auto simp: noteEquivocation_def split: if_splits)
  then show ?thesis using True assms(5) by blast
next
  case False
  have known: "map_has (st_names s) (nameKey (r_name r) (r_tld r))"
    using held_after_known [OF assms(9)] assms(2,10) unfolding map_has_get by (simp add: store_inv_def)
  have "le_hash e \<noteq> recordHashFromBytes C bs" using assms(4,9,13) by (auto simp: no_collision_def)
  then have "other_half C s r bs \<noteq> None"
    using assms(9-12) unfolding other_half_def find_None_iff by (auto simp: toHex_inject compareBytes_less)
  then obtain x where x: "other_half C s r bs = Some x" by blast
  then have half: "x \<in> set (st_entries s)" "r_seq (le_record x) = r_seq r"
    "entry_key x = nameKey (r_name r) (r_tld r)" "r_ownerKey (le_record x) = r_ownerKey r"
    "le_hash x \<noteq> recordHashFromBytes C bs"
    unfolding other_half_def find_Some_iff by (auto simp: compareBytes_less)
  have names: "r_name (le_record x) = r_name r" "r_tld (le_record x) = r_tld r"
    using entry_name [OF assms(2) half(1,3) assms(7)] .
  have "equivocates C (le_bytes x) bs"
    using half names assms(3,7,8) entry_ok_in [OF assms(2) half(1)]
    by (auto simp: equivocates_def log_signed_def)
  moreover obtain m where m: "rec_record R l (le_bytes x) bs Detected = Inr m"
    "s' = s\<lparr>st_equivocation := Some (R, m)\<rparr>"
    using assms(1,5,7,8) False known x signedByNamedOwner_eq [OF assms(7), of C]
    by (auto simp: noteEquivocation_def split: sum.splits)
  ultimately show ?thesis using record_settles [OF assms(6) m(1) _ assms(7)] m(2) by simp
qed

end

end
