(* ===== verification/Samples.thy ===== *)
theory Samples
  imports Store_Append "HOL-Library.Sublist"
begin

section \<open>Sample registrations\<close>

text \<open>
  Registrations of one name by two keys, a second apart, and the stores they produce, for
  evaluating the properties of the store and of the session on concrete inputs. Nothing here models
  code.
\<close>

definition claim_pow :: cbor where
  "claim_pow = CMap
     [(KText (js ''alg''), CText POW_ALGORITHM), (KText (js ''bits''), CNum 9),
      (KText (js ''nonce''), CBytes (be_bytes 16 1))]"

definition claim_map :: "byte \<Rightarrow> int \<Rightarrow> cbor_map" where
  "claim_map k t = sample_map REGISTER 0 t (t + 31536000) k claim_pow (replicate 32 0)"

definition claim :: "byte \<Rightarrow> int \<Rightarrow> RegistryRecord" where
  "claim k t =
     \<lparr>r_version = 1, r_suite = 1, r_op = REGISTER, r_name = js ''abc'', r_tld = js ''vayu'',
      r_ownerKey = replicate 32 k, r_seq = 0, r_notBefore = t, r_notAfter = t + 31536000,
      r_entries = [],
      r_powProof = Some \<lparr>p_alg = POW_ALGORITHM, p_nonce = be_bytes 16 1, p_bits = 9\<rparr>,
      r_prevHash = replicate 32 0, r_sig = replicate 64 k, r_coSig = None, r_map = claim_map k t\<rparr>"

definition claim_bytes :: "byte \<Rightarrow> int \<Rightarrow> bytes" where
  "claim_bytes k t = sample_bytes (claim_map k t)"

text \<open>The hash of the sample library is the last 32 bytes of the record, which end in the start of the term.\<close>

definition claim_hash :: "int \<Rightarrow> bytes" where
  "claim_hash t = replicate 17 0 @ [105, 110, 111, 116, 66, 101, 102, 111, 114, 101, 26, 0, 15, 66, if t = 1000000 then 64 else 65]"

definition sample_claim :: "byte \<Rightarrow> int \<Rightarrow> bool" where
  "sample_claim k t \<longleftrightarrow> k \<in> {7, 9} \<and> t \<in> {1000000, 1000001}"

lemma sample_claim_cases:
  assumes "sample_claim k t"
  obtains "t = 1000000" "\<not> isSmallOrderKey (replicate 32 k)" | "t = 1000001" "\<not> isSmallOrderKey (replicate 32 k)"
  using assms sample_key [of k] unfolding sample_claim_def by blast

lemma claim_simps [simp]:
  "r_op (claim k t) = REGISTER" "r_name (claim k t) = js ''abc''" "r_tld (claim k t) = js ''vayu''"
  "r_ownerKey (claim k t) = replicate 32 k" "r_seq (claim k t) = 0" "r_notBefore (claim k t) = t"
  "r_notAfter (claim k t) = t + 31536000" "r_prevHash (claim k t) = replicate 32 0"
  "r_sig (claim k t) = replicate 64 k" "r_map (claim k t) = claim_map k t"
  by (simp_all add: claim_def)

lemma claim_encode:
  assumes "sample_claim k t"
  shows "encode (CMap (claim_map k t)) = Inr (claim_bytes k t) \<and> length (claim_bytes k t) \<le> 400 \<and>
    suffix (replicate 15 0 @ claim_hash t) (claim_bytes k t)"
proof -
  have "\<exists>bs. encode (CMap (claim_map k t)) = Inr bs \<and> length bs \<le> 400 \<and>
      suffix (replicate 15 0 @ claim_hash t) bs"
    using assms
    by (cases rule: sample_claim_cases; simp add: claim_map_def sample_map_def claim_pow_def op_text_def claim_hash_def exec
        append_assoc [symmetric] replicate_add [symmetric] del: append_assoc;
        intro suffix_ConsI suffix_appendI suffix_order.refl)
  then show ?thesis by (auto simp: claim_bytes_def sample_bytes_def)
qed

lemma claim_parse:
  assumes "sample_claim k t"
  shows "parseRecord (claim_map k t) = Inr (claim k t)"
  unfolding parseRecord_iff
  using assms by (cases rule: sample_claim_cases; simp add: claim_def reads_def well_formed_def claim_map_def sample_map_def
      claim_pow_def op_text_def proof_reads_def proof_ok_def aliases_ok_def exec labelRejection_None sample_key)

lemma claim_canon:
  assumes "sample_claim k t"
  shows "canon (CMap (claim_map k t)) = CMap (claim_map k t)"
  using assms
  by (cases rule: sample_claim_cases; simp add: claim_map_def sample_map_def claim_pow_def key_bytes_def exec)

lemma claim_decode: "sample_claim k t \<Longrightarrow> decode (claim_bytes k t) = Inr (CMap (claim_map k t))"
  using decode_encode_canon [of "CMap (claim_map k t)" "claim_bytes k t"] claim_encode claim_canon by simp

lemma claim_parses: "sample_claim k t \<Longrightarrow> parseRecordBytes (claim_bytes k t) = Inr (claim k t)"
  using claim_encode [of k t] claim_parse [of k t] claim_decode [of k t]
  unfolding parseRecordBytes_Inr by fastforce

lemma be_bytes_tail: "length ys = n \<Longrightarrow> be_bytes n (be_value (xs @ ys)) = ys"
proof (induction ys arbitrary: n rule: rev_induct)
  case (snoc y ys)
  then obtain m where m: "n = Suc m" "length ys = m" by (cases n) auto
  have "unat y < 256" using unsigned_less [of y] by simp
  then have "be_value (xs @ ys @ [y]) div 256 = be_value (xs @ ys)" "be_value (xs @ ys @ [y]) mod 256 = unat y"
    using be_value_snoc [of "xs @ ys" y] by simp_all
  with m snoc.IH show ?case by simp
qed simp

lemma claim_hash:
  assumes "sample_claim k t"
  shows "recordHashFromBytes sample_crypto (claim_bytes k t) = claim_hash t"
proof -
  obtain p where p: "claim_bytes k t = p @ claim_hash t"
    using claim_encode [OF assms] by (auto simp: suffix_def)
  have "length (claim_hash t) = 32" by (simp add: claim_hash_def)
  with p show ?thesis
    using be_bytes_tail [of "claim_hash t" 32 "HASH_PREFIX_BYTES @ [0] @ p"]
    by (simp add: recordHashFromBytes_def withDomain_def)
qed

lemma claim_hash_less: "claim_hash 1000000 < claim_hash 1000001"
  by (simp add: claim_hash_def)

subsection \<open>Proof of work and acceptance\<close>

lemma claim_difficulty:
  assumes "map_get (st_rates s) (js ''vayu'') = None \<or> map_get (st_rates s) (js ''vayu'') = Some [x]"
  shows "requiredBitsFor s (claim k t) \<le> 9"
proof -
  have "lowerBound [x] v - n \<le> 1" for v n
    using lowerBound_spec [of "[x]" v] by (simp add: le_diff_conv)
  then have "registrationsInWindow s (js ''vayu'') u \<le> 1" for u
    using assms by (auto simp: registrationsInWindow_def rateWindow_def Let_def simp del: js_simps le_diff_conv)
  then have "registrationsInWindow s (js ''vayu'') u < 512" for u
    by (rule le_less_trans) simp
  then show ?thesis
    by (simp add: requiredBitsFor_def Let_def requiredBits_def RATE_FLOOR_def baseBits_def exec)
qed

lemma claim_pow_ok:
  assumes "sample_claim k t" "requiredBitsFor s (claim k t) \<le> 9"
  shows "powVerified sample_crypto s (claim k t)"
proof -
  have f: "field (claim_map k t) ''powProof'' = Some claim_pow"
    by (simp add: claim_map_def sample_map_def)
  have "\<exists>p. powSaltPreimage (claim_map k t) = Inr p"
    using assms(1)
    by (cases rule: sample_claim_cases; simp add: powSaltPreimage_def claim_map_def sample_map_def claim_pow_def op_text_def exec)
  then obtain salt where "powSalt sample_crypto (claim_map k t) = Inr salt" by (auto simp: powSalt_def)
  moreover have "tagSatisfies (powTag sample_crypto (be_bytes 16 1) salt) 9"
    by (simp add: tagSatisfies_iff powTag_def sample_crypto_def pow_constants be_value_zeros be_value_be_bytes)
  ultimately show ?thesis
    using assms(2) by (simp add: powVerified_def verifyPow_def f claim_pow_def POW_NONCE_LENGTH_def del: js_simps)
qed

lemma claim_accept:
  assumes "sample_claim k t" "v_powVerified view (claim k t)" "t \<le> now + 300" "now \<le> t + 86400"
    and "ign \<or> v_current view (js ''abc'') (js ''vayu'') = None"
  shows "verify sample_crypto (claim_bytes k t) view now ign = Inr (Accept (claim k t) None False)"
proof -
  obtain input where "signingInput (claim_map k t) = Inr input"
    using verified_signingInput [OF claim_parse [OF assms(1)]] claim_encode [OF assms(1)] by auto
  moreover have "k \<in> {7, 9}" using assms(1) by (auto simp: sample_claim_def)
  then have "acceptable sample_crypto (claim k t) input view now ign"
    using sample_verifies [of k input] assms(2-5)
    by (auto simp: acceptable_def register_ok_def in_clock_def)
  ultimately show ?thesis
    using claim_encode [OF assms(1)] claim_decode [OF assms(1)] claim_parse [OF assms(1)]
    unfolding verify_accept_iff by fastforce
qed

subsection \<open>Stores with one registration\<close>

definition first_entry :: "byte \<Rightarrow> int \<Rightarrow> LogEntry" where
  "first_entry k t = \<lparr>le_index = 0, le_bytes = claim_bytes k t, le_record = claim k t, le_hash = claim_hash t\<rparr>"

lemma first_entry_simps [simp]:
  "le_bytes (first_entry k t) = claim_bytes k t" "le_record (first_entry k t) = claim k t"
  "le_hash (first_entry k t) = claim_hash t" "le_index (first_entry k t) = 0"
  by (simp_all add: first_entry_def)

lemma first_claim:
  assumes "sample_claim k t" "t \<le> now + 300" "now \<le> t + 86400"
  obtains s where "store_append sample_crypto (new_store None) (claim_bytes k t) now = Inr (s, Accept (claim k t) None False)"
    "reachable sample_crypto s" "st_entries s = [first_entry k t]" "store_inv sample_crypto s"
    "map_get (st_names s) (nameKey (js ''abc'') (js ''vayu'')) = Some (derive None (first_entry k t))"
    "map_get (st_rates s) (js ''vayu'') = Some [t]" "st_equivocation s = None"
    "write_apply sample_crypto (new_store None) (claim_bytes k t) (claim k t) = Inr s"
    "verify sample_crypto (claim_bytes k t) (store_view sample_crypto (new_store None :: Ledger Store)) now False =
       Inr (Accept (claim k t) None False)"
proof -
  let ?n = "new_store None :: Ledger Store" and ?b = "claim_bytes k t"
  have e: "next_entry sample_crypto ?n ?b (claim k t) = first_entry k t"
    by (simp add: next_entry_def first_entry_def claim_hash [OF assms(1)] new_store_def)
  have "powVerified sample_crypto ?n (claim k t)"
    by (intro claim_pow_ok [OF assms(1)] claim_difficulty) (simp add: new_store_def)
  then have v: "verify sample_crypto ?b (store_view sample_crypto ?n) now False = Inr (Accept (claim k t) None False)"
    using assms by (intro claim_accept) (simp_all add: store_view_def store_current_def new_store_def)
  have fresh: "\<not> store_has sample_crypto ?n ?b" by (simp add: store_has_def new_store_def)
  obtain s where s: "store_append sample_crypto ?n ?b now = Inr (s, Accept (claim k t) None False)"
    "write_apply sample_crypto ?n ?b (claim k t) = Inr s"
    by (rule append_accepts [OF new_store_inv(1) fresh v])
  note after = names_after [OF s(2) new_store_inv(1) claim_parses [OF assms(1)]]
  have r: "reachable sample_crypto ?n"
    by (rule reachable.opened [of _ None]) (simp add: store_open_def)
  have "reachable sample_crypto s"
    by (rule reachable.arrival [OF r _ s(1)]) (simp add: no_collision_def new_store_def)
  moreover have "map_get (st_rates s) (js ''vayu'') = Some [t]"
    by (simp add: after(2) add_rate_def new_store_def insertSorted_def lowerBound_def lower_bound_loop.simps)
  ultimately show ?thesis
    using that s after e v by (simp add: new_store_def)
qed

end
