(* ===== verification/Store_Safety.thy ===== *)
theory Store_Safety
  imports Samples
begin

section \<open>What the local registry guarantees\<close>

text \<open>
  Properties of the store of registry/src/store.ts with the equivocation ledger attached: the index
  is derived from an append-only log, a held name changes hands only by the convergence rule, two
  peers that receive a concurrent pair in opposite orders agree, and equivocation gets recorded.
  Then three behaviours the code has and its comments do not promise.
\<close>

subsection \<open>Verdicts on registrations\<close>

lemma verify_name_taken:
  assumes "verify C bs view now True = Inr (Accept r None False)" "r_op r = REGISTER"
    and "v_current view (r_name r) (r_tld r) = Some p" "\<not> v_fullyReleased view p t"
  shows "verify C bs view t False = Inr (Reject NAME_TAKEN)"
proof -
  have m: "length bs \<le> 4096" "decode bs = Inr (CMap (r_map r))" "encode (CMap (r_map r)) = Inr bs"
      "parseRecord (r_map r) = Inr r"
    and ex: "\<exists>input. signingInput (r_map r) = Inr input \<and> acceptable C r input view now True"
    using assms(1) unfolding verify_accept_iff by blast+
  obtain input where i: "signingInput (r_map r) = Inr input" "acceptable C r input view now True"
    using ex by blast
  have "r_seq r = 0" "isZeroHash (r_prevHash r)"
    using i(2) assms(2) by (simp_all add: acceptable_def register_ok_def isZeroHash_iff Let_def)
  then have "verifyRecord C r view t False = Inr (Reject NAME_TAKEN)"
    using i(1) assms(2-4) by (simp add: verifyRecord_def verifyRegister_def Let_def)
  then show ?thesis using m by (simp add: verify_def MAX_RECORD_BYTES_def del: parseRecord_map)
qed

lemma verify_ignoring:
  assumes "verify C bs view now ign = Inr (Accept r None False)" "r_op r = REGISTER"
    and "v_powVerified view' r" "in_clock r now'"
  shows "verify C bs view' now' True = Inr (Accept r None False)"
proof -
  obtain input where i: "signingInput (r_map r) = Inr input" "acceptable C r input view now ign"
    using assms(1) unfolding verify_accept_iff by blast
  then have "acceptable C r input view' now' True"
    using assms(2-4) by (simp add: acceptable_def register_ok_def Let_def)
  with i(1) assms(1) show ?thesis unfolding verify_accept_iff by blast
qed

lemma register_accept:
  assumes "verify C bs view now ign = Inr (Accept r None False)" "r_op r = REGISTER"
  shows "r_seq r = 0" "r_notAfter r = r_notBefore r + 31536000" "in_clock r now"
    "ign \<or> (\<forall>p. v_current view (r_name r) (r_tld r) = Some p \<longrightarrow> v_fullyReleased view p now)"
  using assms unfolding verify_accept_iff by (auto simp: acceptable_def register_ok_def Let_def)

lemma live_not_released: "r_op r = REGISTER \<Longrightarrow> now < r_notAfter r \<Longrightarrow> \<not> isFullyReleased r now"
  by (simp add: isFullyReleased_def lifecycleOf_def QUARANTINE_SECONDS_def GRACE_SECONDS_def Let_def)

lemma view_simps [simp]:
  "v_current (store_view C s) = store_current s" "v_revoked (store_view C s) = store_revoked s"
  "v_fullyReleased (store_view C s) p t = isFullyReleased (pd_record p) t"
  "v_powVerified (store_view C s) = powVerified C s"
  by (simp_all add: store_view_def)

subsection \<open>The append-only log\<close>

text \<open>
  C7. In every store opened from a file or grown from arriving bytes, an append of bytes whose hash
  does not collide never throws; it leaves the log and the index as they were, or accepts the record
  and appends exactly its bytes to the entries and its frame to the file; the index, the rates and
  the hashes remain the ones derived from the entries, and every entry carries its named owner's
  signature.
\<close>

theorem append_only:
  assumes "hash_length_ok C" and "reachable C s" and "no_collision C s bs"
  shows "\<exists>s' v. store_append C s bs now = Inr (s', v) \<and> fits_after C s bs s' v \<and>
    reachable C s' \<and> store_inv C s' \<and> log_signed C s'"
proof -
  have "store_ok C s" by (rule reachable_ok [OF assms(1,2)])
  then obtain s' v where a: "store_append C s bs now = Inr (s', v)" "store_ok C s'" "fits_after C s bs s' v"
    using store_append_step [OF assms(1) _ assms(3)] by blast
  then show ?thesis using reachable.arrival [OF assms(2,3) a(1)] by (auto simp: store_ok_def)
qed

lemma empty_reachable: "reachable C (new_store None)"
  by (rule reachable.opened [of _ None]) (simp add: store_open_def)

lemma empty_no_collision [simp]: "no_collision C (new_store f) bs"
  by (simp add: no_collision_def new_store_def)

theorem append_only_witness:
  "\<exists>s' v. store_append sample_crypto (new_store None :: Ledger Store) [1, 2, 3] 7 = Inr (s', v) \<and> store_inv sample_crypto s'"
  using append_only [OF sample_hash_length empty_reachable empty_no_collision, of "[1, 2, 3]" 7] by blast

text \<open>
  C8. The fast count of registrations in the difficulty window, two binary searches in a sorted
  array, is the count by scanning the log, for every extension and instant of every reachable store.
\<close>

theorem window_equals_naive:
  assumes "hash_length_ok C" and "reachable C s"
  shows "registrationsInWindow s tld t = registrationsInWindowNaive s tld t"
  using reachable_ok [OF assms] by (intro registrationsInWindow_naive) (simp add: store_ok_def store_inv_def)

theorem window_equals_naive_witness:
  "registrationsInWindow (new_store None :: Ledger Store) (js ''vayu'') 5 = 0"
  using window_equals_naive [OF sample_hash_length empty_reachable, of "js ''vayu''" 5]
  by (simp add: registrationsInWindowNaive_def new_store_def rateWindow_def Let_def)

text \<open>
  C9. Opening what a reachable store wrote either fails or gives back the same entries, and with them
  the same answers to the verifier.
\<close>

theorem reopen_refines:
  assumes "hash_length_ok C" and "reachable C s" and "st_file s = Some bs"
    and "store_open C (Some bs) = Inr (t :: Ledger Store)"
  shows "st_entries t = st_entries s \<and> store_view C t = store_view C s \<and> st_file t = st_file s"
proof -
  have ok: "store_inv C s" "\<forall>e\<in>set (st_entries s). le_bytes e \<noteq> []"
    using reachable_ok [OF assms(1,2)] by (simp_all add: store_ok_def log_signed_def)
  note same = reopen_same [OF ok(1) assms(3,4) ok(2)]
  show ?thesis
    using same same_entries_view [OF same(2) ok(1) same(1)] open_inv [OF assms(4)] assms(3) by simp
qed

theorem reopen_refines_witness:
  "\<exists>t. store_open sample_crypto (Some []) = Inr (t :: Ledger Store) \<and> st_entries t = []"
proof -
  have o: "store_open sample_crypto (Some []) = Inr (new_store (Some []) :: Ledger Store)"
    by (simp add: store_open_def)
  have "reachable sample_crypto (new_store (Some []))" by (rule reachable.opened [OF o])
  from reopen_refines [OF sample_hash_length this _ o] o show ?thesis by (simp add: new_store_def)
qed

subsection \<open>Who can take a name\<close>

text \<open>The two ways a second registration of a held name ends.\<close>

lemma current_after:
  assumes "write_apply C s bs r = Inr s'" "store_inv C s" "parseRecordBytes bs = Inr r" "r_op r = REGISTER"
  obtains h where "map_get (st_names s') (nameKey (r_name r) (r_tld r)) = Some h"
    "pd_record (ne_current h) = r" "ne_rootHash h = recordHashFromBytes C bs"
    "store_current s' (r_name r) (r_tld r) = Some (ne_current h)"
proof -
  let ?h = "derive (map_get (st_names s) (nameKey (r_name r) (r_tld r))) (next_entry C s bs r)"
  have "map_get (st_names s') (nameKey (r_name r) (r_tld r)) = Some ?h"
    using names_after(1) [OF assms(1-3)] by simp
  with that register_derived [of "next_entry C s bs r"] assms(4) show ?thesis
    by (simp add: store_current_def)
qed

lemma free_no_root:
  assumes "store_inv C s" "map_get (st_names s) key = None"
  shows "filter (\<lambda>e. entry_key e = key) (st_entries s) = []" "rootEntryFor s key = None"
proof -
  have "entry_key e \<noteq> key" if "e \<in> set (st_entries s)" for e
    using held_after_known [OF that] assms by (auto simp: store_inv_def)
  then show "filter (\<lambda>e. entry_key e = key) (st_entries s) = []" "rootEntryFor s key = None"
    by (auto simp: filter_empty_conv rootEntryFor_def find_None_iff)
qed

lemma first_root:
  assumes "store_inv C s" "map_get (st_names s) (nameKey (r_name r) (r_tld r)) = None"
    and "st_entries t = st_entries s @ [next_entry C s bs r]" "r_op r = REGISTER" "r_seq r = 0"
  shows "rootEntryFor t (nameKey (r_name r) (r_tld r)) = Some (next_entry C s bs r)"
proof -
  have "find P (xs @ [x]) = Some x" if "find P xs = None" "P x" for P and xs :: "LogEntry list" and x
    using that by (induction xs) (auto split: if_splits)
  then show ?thesis
    using free_no_root(2) [OF assms(1,2)] assms(3-5) by (simp add: rootEntryFor_def)
qed

lemma newcomer_wins:
  assumes "hash_length_ok C" "store_inv C s" "map_get (st_names s) (nameKey (r_name r) (r_tld r)) = None"
    and "write_apply C s b q = Inr t" "parseRecordBytes b = Inr q" "r_op q = REGISTER" "r_seq q = 0"
    and "r_name q = r_name r" "r_tld q = r_tld r" "r_ownerKey q \<noteq> r_ownerKey r"
    and "r_notBefore r - r_notBefore q \<le> 86400" "recordHashFromBytes C a < recordHashFromBytes C b"
    and "\<not> store_has C t a" "now < r_notAfter q" "r_op r = REGISTER"
    and "verify C a (store_view C t) now True = Inr (Accept r None False)"
  obtains t' voided held where "store_append C t a now = Inr (t', Accept r (Some voided) False)"
    "write_apply C t a r = Inr t'" "beats C t a now r held (next_entry C s b q)"
    "ne_rootHash held = recordHashFromBytes C b" "store_inv C t"
proof -
  let ?key = "nameKey (r_name r) (r_tld r)"
  note after = names_after [OF assms(4,2,5)]
  obtain h where h: "map_get (st_names t) ?key = Some h" "pd_record (ne_current h) = q"
    "ne_rootHash h = recordHashFromBytes C b" "store_current t (r_name r) (r_tld r) = Some (ne_current h)"
    using current_after [OF assms(4,2,5,6)] assms(8,9) by metis
  have root: "rootEntryFor t ?key = Some (next_entry C s b q)"
    using first_root [of C s q t b] assms(2,3,6-9) after(3) by simp
  have seq: "r_seq r = 0" using register_accept(1) [OF assms(16,15)] .
  have p: "parseRecordBytes a = Inr r" using verify_accept_parse(1) [OF assms(16)] .
  have "\<not> isFullyReleased (pd_record (ne_current h)) now"
    unfolding h(2) by (rule live_not_released [OF assms(6,14)])
  then have taken: "verify C a (store_view C t) now False = Inr (Reject NAME_TAKEN)"
    using h(4) by (intro verify_name_taken [OF assms(16,15), of "ne_current h"]) simp_all
  have beats: "beats C t a now r h (next_entry C s b q)"
    using h root seq p assms(10-12,15,16) by (simp add: beats_def)
  obtain t' voided where "store_append C t a now = Inr (t', Accept r (Some voided) False)"
    "write_apply C t a r = Inr t'"
    by (rule append_wins [OF assms(1) after(5) assms(13) taken beats])
  then show ?thesis using that beats h(3) after(5) by blast
qed

lemma second_loses:
  assumes "hash_length_ok C" "store_ok C s" "no_collision C s b" "b \<notin> le_bytes ` set (st_entries s)"
    and "parseRecordBytes b = Inr q" "map_get (st_names s) (nameKey (r_name r) (r_tld r)) = Some h"
    and "pd_record (ne_current h) = r" "ne_rootHash h = recordHashFromBytes C a"
    and "r_op r = REGISTER" "r_op q = REGISTER" "r_name q = r_name r" "r_tld q = r_tld r"
    and "recordHashFromBytes C a < recordHashFromBytes C b" "now < r_notAfter r"
  shows "\<exists>s' v. store_append C s b now = Inr (s', v) \<and>
    map_option pd_record (store_current s' (r_name r) (r_tld r)) = Some r"
proof -
  have inv: "store_inv C s" and w: "ledger.watched C s" using assms(2) by (simp_all add: store_ok_def)
  have cur: "store_current s (r_name r) (r_tld r) = Some (ne_current h)"
    using assms(6) by (simp add: store_current_def)
  from assms(1) inv w assms(3) show ?thesis
  proof (cases rule: ledger.store_append_cases [of C s b now])
    case (refused s' v)
    then have "store_current s' = store_current s" by (auto simp: same_log_def store_current_def fun_eq_iff)
    then show ?thesis using refused(5) cur assms(7) by simp
  next
    case (appended s' q')
    then have "q' = q" using verify_accept_parse(1) assms(5) by fastforce
    then have "isFullyReleased r now"
      using register_accept(4) [OF appended(2)] assms(7,10-12) cur by simp
    then show ?thesis using live_not_released [OF assms(9,14)] by simp
  next
    case (merged s' q' held e voided)
    then have "q' = q" "recordHashFromBytes C b < ne_rootHash held" "held = h"
      using assms(5,6,11,12) by (auto simp: beats_def)
    then show ?thesis using assms(8,13) by simp
  qed (use assms(4) in simp)
qed

lemma sample_takeover:
  obtains s t v and held :: NameEntry where
    "store_append sample_crypto s (claim_bytes 7 1000000) 1000001 = Inr (t, Accept (claim 7 1000000) (Some v) False)"
    "reachable sample_crypto s" "st_entries s = [first_entry 9 1000001]"
    "store_current s (js ''abc'') (js ''vayu'') = Some (ne_current held)"
    "pd_record (ne_current held) = claim 9 1000001"
proof -
  let ?n = "new_store None :: Ledger Store" and ?a = "claim_bytes 7 1000000" and ?b = "claim_bytes 9 1000001"
  have c: "sample_claim 9 1000001" "sample_claim 7 1000000" by (simp_all add: sample_claim_def)
  obtain s where s: "store_append sample_crypto ?n ?b 1000001 = Inr (s, Accept (claim 9 1000001) None False)"
    "reachable sample_crypto s" "st_entries s = [first_entry 9 1000001]" "store_inv sample_crypto s"
    "map_get (st_names s) (nameKey (js ''abc'') (js ''vayu'')) = Some (derive None (first_entry 9 1000001))"
    "map_get (st_rates s) (js ''vayu'') = Some [1000001]"
    "write_apply sample_crypto ?n ?b (claim 9 1000001) = Inr s"
    using first_claim [OF c(1), of 1000001] by (metis add_increasing2 order_refl zero_le_numeral)
  have "verify sample_crypto ?a (store_view sample_crypto s) 1000001 True = Inr (Accept (claim 7 1000000) None False)"
    using s(6) by (intro claim_accept [OF c(2)]) (simp_all add: claim_pow_ok [OF c(2) claim_difficulty])
  moreover have "\<not> store_has sample_crypto s ?a"
    using claim_hash_less by (auto simp: store_has_entry [OF s(4)] s(3) claim_hash [OF c(2)])
  moreover have "map_get (st_names ?n) k = None" for k by (simp add: new_store_def)
  ultimately obtain t v where
    "store_append sample_crypto s ?a 1000001 = Inr (t, Accept (claim 7 1000000) (Some v) False)"
    using newcomer_wins [OF sample_hash_length new_store_inv(1) _ s(7) claim_parses [OF c(1)],
        of "claim 7 1000000" ?a 1000001]
    using claim_hash_less by (simp add: claim_hash c) blast
  then show thesis
    using that [of s t v "derive None (first_entry 9 1000001)"] s(2,3,5) by (simp add: store_current_def register_derived)
qed

text \<open>
  C11. A registration takes a held name only by the convergence rule. (A TRANSFER of its holder is no
  registration; \<open>settlement_control\<close> says who can make one.) When an append adds a REGISTER for a
  name whose current record is not fully released, then the newcomer is no more than a day later than
  the first registration in the log, names another owner, has a smaller hash than the registration
  the current chain descends from, and would be accepted if the name were free.
\<close>

theorem takeover_needs_convergence:
  assumes "hash_length_ok C" and "reachable C s" and "no_collision C s bs"
    and "store_append C s bs now = Inr (s', Accept r voided False)" and "r_op r = REGISTER"
    and "store_current s (r_name r) (r_tld r) = Some p" and "\<not> isFullyReleased (pd_record p) now"
  shows "\<exists>held e. beats C s bs now r held e \<and> p = ne_current held"
proof -
  have ok: "store_inv C s" "ledger.watched C s"
    using reachable_ok [OF assms(1,2)] by (simp_all add: store_ok_def)
  from assms(1) ok assms(3) show ?thesis
  proof (cases rule: ledger.store_append_cases [of C s bs now])
    case (appended t q)
    then have "q = r" using assms(4) by simp
    then show ?thesis using register_accept(4) [OF appended(2)] assms(5-7) by simp
  next
    case (merged t q held e w)
    then have q: "q = r" using assms(4) by simp
    then have "map_get (st_names s) (nameKey (r_name r) (r_tld r)) = Some held"
      using merged(3) by (simp add: beats_def)
    then have "p = ne_current held" using assms(6) by (simp add: store_current_def)
    then show ?thesis using merged(3) q by blast
  qed (use assms(4) in auto)
qed

lemma sample_takeover_fresh:
  "st_entries s = [first_entry 9 1000001] \<Longrightarrow> no_collision sample_crypto s (claim_bytes 7 1000000)"
  using claim_hash_less claim_hash [of 7 1000000] by (auto simp: no_collision_def sample_claim_def)

theorem takeover_needs_convergence_witness:
  "\<exists>s t v held. reachable sample_crypto s \<and>
     store_append sample_crypto s (claim_bytes 7 1000000) 1000001 = Inr (t, Accept (claim 7 1000000) (Some v) False) \<and>
     beats sample_crypto s (claim_bytes 7 1000000) 1000001 (claim 7 1000000) held (first_entry 9 1000001)"
proof -
  have c: "sample_claim 9 1000001" "sample_claim 7 1000000" by (simp_all add: sample_claim_def)
  obtain s t v and held :: NameEntry where s: "store_append sample_crypto s (claim_bytes 7 1000000) 1000001 =
      Inr (t, Accept (claim 7 1000000) (Some v) False)" "reachable sample_crypto s"
    "st_entries s = [first_entry 9 1000001]" "store_current s (js ''abc'') (js ''vayu'') = Some (ne_current held)"
    "pd_record (ne_current held) = claim 9 1000001"
    by (rule sample_takeover)
  have "no_collision sample_crypto s (claim_bytes 7 1000000)"
    using claim_hash_less by (auto simp: no_collision_def s(3) claim_hash [OF c(2)])
  moreover have "\<not> isFullyReleased (claim 9 1000001) 1000001" by (rule live_not_released) simp_all
  ultimately obtain h e where "beats sample_crypto s (claim_bytes 7 1000000) 1000001 (claim 7 1000000) h e"
    using takeover_needs_convergence [OF sample_hash_length s(2) _ s(1)] s(4,5) by force
  moreover from this have "e = first_entry 9 1000001"
    using rootEntryFor_Some(1) s(3) by (fastforce simp: beats_def)
  ultimately show ?thesis using s(1,2) by blast
qed

subsection \<open>A concurrent pair in both orders\<close>

text \<open>
  C10. Delivery order does not decide a race. Two registrations of a free name by different owners,
  dated at most a day apart, arrive at two peers with the same log in opposite orders, each at a time
  when it is neither early nor stale and with enough work for the log it meets: no append throws and
  both peers end up with the registration that has the smaller hash.
\<close>

theorem race_converges:
  assumes "hash_length_ok C" and "reachable C s"
    and "parseRecordBytes a = Inr r" and "parseRecordBytes b = Inr q"
    and "r_name q = r_name r" and "r_tld q = r_tld r" and "r_ownerKey q \<noteq> r_ownerKey r"
    and "\<bar>r_notBefore q - r_notBefore r\<bar> \<le> 86400"
    and "recordHashFromBytes C a < recordHashFromBytes C b"
    and "\<forall>e\<in>set (st_entries s). le_hash e \<notin> {recordHashFromBytes C a, recordHashFromBytes C b}"
    and "store_current s (r_name r) (r_tld r) = None"
    and "verify C a (store_view C s) t1 False = Inr (Accept r None False)" and "r_op r = REGISTER"
    and "verify C b (store_view C s) u1 False = Inr (Accept q None False)" and "r_op q = REGISTER"
    and "in_clock q t2" and "in_clock r u2"
    and "\<forall>t. store_append C s b u1 = Inr (t, Accept q None False) \<longrightarrow> powVerified C t r"
  shows "\<exists>s1 s2 v2 t1' t2' v.
    store_append C s a t1 = Inr (s1, Accept r None False) \<and> store_append C s1 b t2 = Inr (s2, v2) \<and>
    store_append C s b u1 = Inr (t1', Accept q None False) \<and> store_append C t1' a u2 = Inr (t2', v) \<and>
    map_option pd_record (store_current s2 (r_name r) (r_tld r)) = Some r \<and>
    map_option pd_record (store_current t2' (r_name r) (r_tld r)) = Some r"
proof -
  let ?key = "nameKey (r_name r) (r_tld r)"
  have ok: "store_ok C s" and inv: "store_inv C s" using reachable_ok [OF assms(1,2)] by (simp_all add: store_ok_def)
  have free: "map_get (st_names s) ?key = None" using assms(11) by (simp add: store_current_def)
  have fresh: "\<not> store_has C s a" "\<not> store_has C s b" "no_collision C s a" "no_collision C s b"
    using assms(10) by (auto simp: store_has_entry [OF inv] no_collision_def)
  note ra = register_accept [OF assms(12,13)] and rb = register_accept [OF assms(14,15)]
  have differ: "a \<noteq> b" using assms(9) by auto
  obtain s1 where s1: "store_append C s a t1 = Inr (s1, Accept r None False)" "write_apply C s a r = Inr s1"
    by (rule append_accepts [OF inv fresh(1) assms(12)])
  note after = names_after [OF s1(2) inv assms(3)]
  obtain h where h: "map_get (st_names s1) ?key = Some h" "pd_record (ne_current h) = r"
    "ne_rootHash h = recordHashFromBytes C a" "store_current s1 (r_name r) (r_tld r) = Some (ne_current h)"
    by (rule current_after [OF s1(2) inv assms(3,13)])
  have ok1: "store_ok C s1" by (rule store_append_preserves(1) [OF assms(1) ok fresh(3) s1(1)])
  have nb: "no_collision C s1 b" "b \<notin> le_bytes ` set (st_entries s1)"
    using assms(9,10) differ entry_ok_in(1) [OF inv] by (auto simp: after(3) no_collision_def)
  have lost: "\<exists>s2 v2. store_append C s1 b t2 = Inr (s2, v2) \<and>
      map_option pd_record (store_current s2 (r_name r) (r_tld r)) = Some r"
    by (rule second_loses [OF assms(1) ok1 nb assms(4) h(1,2,3)])
      (use assms ra rb in \<open>auto simp: in_clock_def\<close>)
  obtain t1' where t1': "store_append C s b u1 = Inr (t1', Accept q None False)" "write_apply C s b q = Inr t1'"
    by (rule append_accepts [OF inv fresh(2) assms(14)])
  have "v_powVerified (store_view C t1') r" using assms(18) t1'(1) by simp
  then have merits: "verify C a (store_view C t1') u2 True = Inr (Accept r None False)"
    by (rule verify_ignoring [OF assms(12,13) _ assms(17)])
  note after' = names_after [OF t1'(2) inv assms(4)]
  have na: "\<not> store_has C t1' a"
    using fresh(1) assms(9) by (auto simp: store_has_entry [OF after'(5)] store_has_entry [OF inv] after'(3))
  have late: "u2 < r_notAfter q" "r_notBefore r - r_notBefore q \<le> 86400"
    using assms(8,17) rb(2) by (auto simp: in_clock_def)
  obtain t2' v held where t2': "store_append C t1' a u2 = Inr (t2', Accept r (Some v) False)"
    "write_apply C t1' a r = Inr t2'" "store_inv C t1'"
    using newcomer_wins [OF assms(1) inv free t1'(2) assms(4,15) rb(1) assms(5-7) late(2) assms(9) na late(1)
        assms(13) merits] by metis
  obtain h' where "map_get (st_names t2') ?key = Some h'" "pd_record (ne_current h') = r"
    "ne_rootHash h' = recordHashFromBytes C a" "store_current t2' (r_name r) (r_tld r) = Some (ne_current h')"
    by (rule current_after [OF t2'(2,3) assms(3,13)])
  then show ?thesis using lost s1(1) t1'(1) t2'(1) by auto
qed

theorem race_converges_witness:
  "\<exists>s t w v u x. store_append sample_crypto (new_store None :: Ledger Store) (claim_bytes 9 1000001) 1000001 = Inr (s, w) \<and>
     store_append sample_crypto s (claim_bytes 7 1000000) 1000001 = Inr (t, v) \<and>
     map_option pd_record (store_current t (js ''abc'') (js ''vayu'')) = Some (claim 7 1000000) \<and>
     store_append sample_crypto (new_store None :: Ledger Store) (claim_bytes 7 1000000) 1000001 = Inr (u, x)"
proof -
  let ?n = "new_store None :: Ledger Store"
  have c: "sample_claim 9 1000001" "sample_claim 7 1000000" by (simp_all add: sample_claim_def)
  have empty: "st_entries ?n = []" "store_current ?n x y = None" for x y
    by (simp_all add: new_store_def store_current_def)
  obtain s where s: "store_append sample_crypto ?n (claim_bytes 9 1000001) 1000001 = Inr (s, Accept (claim 9 1000001) None False)"
    "map_get (st_rates s) (js ''vayu'') = Some [1000001]"
    "verify sample_crypto (claim_bytes 9 1000001) (store_view sample_crypto ?n) 1000001 False =
       Inr (Accept (claim 9 1000001) None False)"
    using first_claim [OF c(1), of 1000001] by (metis add_increasing2 order_refl zero_le_numeral)
  obtain u where u: "verify sample_crypto (claim_bytes 7 1000000) (store_view sample_crypto ?n) 1000001 False =
       Inr (Accept (claim 7 1000000) None False)"
    using first_claim [OF c(2), of 1000001] by auto
  have pow: "\<forall>t. store_append sample_crypto ?n (claim_bytes 9 1000001) 1000001 = Inr (t, Accept (claim 9 1000001) None False) \<longrightarrow>
      powVerified sample_crypto t (claim 7 1000000)"
    using s(1) claim_pow_ok [OF c(2) claim_difficulty, of s] s(2) by auto
  have d: "r_ownerKey (claim 9 1000001) \<noteq> r_ownerKey (claim 7 1000000)" by (simp add: replicate_eq_replicate)
  have lt: "recordHashFromBytes sample_crypto (claim_bytes 7 1000000) < recordHashFromBytes sample_crypto (claim_bytes 9 1000001)"
    using claim_hash_less by (simp add: claim_hash c)
  show ?thesis
    using race_converges [OF sample_hash_length empty_reachable claim_parses [OF c(2)] claim_parses [OF c(1)]
        _ _ d _ lt _ _ u _ s(3) _ _ _ pow, of 1000001 1000001]
    by (simp add: empty in_clock_def) metis
qed

subsection \<open>A log that recorded a takeover\<close>

lemma replay_refuses:
  assumes "store_inv C s" "verify C bs (store_view C s) (r_notBefore r) False = Inr (Reject NAME_TAKEN)"
    and "parseRecordBytes bs = Inr r"
  shows "\<exists>x. replay_log C (enumerate 0 (map le_bytes (st_entries s) @ [bs])) (new_store (Some contents) :: 'l Store) = Inl x"
proof (rule ccontr)
  let ?xs = "map le_bytes (st_entries s)" and ?n = "new_store (Some contents) :: 'l Store"
  have en: "enumerate 0 (?xs @ [bs]) = enumerate 0 ?xs @ [(length ?xs, bs)]" by (simp add: enumerate_append_eq)
  assume "\<nexists>x. replay_log C (enumerate 0 (?xs @ [bs])) ?n = Inl x"
  then obtain t where "replay_log C (enumerate 0 (?xs @ [bs])) ?n = Inr t"
    by (cases "replay_log C (enumerate 0 (?xs @ [bs])) ?n") auto
  then obtain u where u: "replay_log C (enumerate 0 ?xs) ?n = Inr u" "replay_log C [(length ?xs, bs)] u = Inr t"
    unfolding en replay_append by (auto simp: bindE_eq_Inr)
  have "index_inv C ?n"
    using new_store_inv(2) [of C] by (simp add: index_inv_def new_store_def writeLog_def)
  from replay_entries [OF u(1) this]
  obtain f where f: "store_inv C (u\<lparr>st_file := f\<rparr>)" "map le_bytes (st_entries u) = ?xs"
    by (auto simp: index_inv_def new_store_def)
  have "st_entries s = st_entries (u\<lparr>st_file := f\<rparr>)"
    using f(2) by (intro entries_from_bytes [OF assms(1) f(1)]) simp
  note same = same_entries_view(1) [OF assms(1) f(1) this]
  have view: "store_view C u = store_view C s"
    unfolding same by (simp add: store_view_def store_current_def store_revoked_def powVerified_def
        requiredBitsFor_def registrationsInWindow_def fun_eq_iff)
  show False
    using u(2) assms(2,3) by (simp add: verifyAt_def view)
qed

text \<open>
  C12. A takeover makes the log unreadable. Once an append has displaced the live holder of a name by
  the convergence rule, opening the written file fails, whatever the clock: replay verifies the
  newcomer again without setting the incumbent aside.
\<close>

theorem takeover_unopenable:
  assumes "hash_length_ok C" and "reachable C s" and "no_collision C s bs"
    and "store_append C s bs now = Inr (s', Accept r (Some voided) False)"
    and "store_current s (r_name r) (r_tld r) = Some p" and "\<not> isFullyReleased (pd_record p) (r_notBefore r)"
  shows "\<exists>contents e. st_file s' = Some contents \<and> (store_open C (Some contents) :: store_error + Ledger Store) = Inl e"
proof -
  have ok: "store_ok C s" "store_inv C s" "ledger.watched C s"
    using reachable_ok [OF assms(1,2)] by (simp_all add: store_ok_def)
  note after = store_append_preserves [OF assms(1) ok(1) assms(3,4)]
  obtain held e where beats: "beats C s bs now r held e"
    using assms(1) ok(2,3) assms(3)
    by (cases rule: ledger.store_append_cases [of C s bs now]) (use assms(4) in auto)
  then have merits: "verify C bs (store_view C s) now True = Inr (Accept r None False)" "r_op r = REGISTER"
    by (simp_all add: beats_def)
  have taken: "verify C bs (store_view C s) (r_notBefore r) False = Inr (Reject NAME_TAKEN)"
    using assms(5,6) by (intro verify_name_taken [OF merits, of p]) simp_all
  have entries: "map le_bytes (st_entries s') = map le_bytes (st_entries s) @ [bs]"
    using after(2) assms(4) by (auto simp: fits_after_def split: if_splits)
  obtain contents where contents: "st_file s' = Some contents"
    using after(2) assms(4) by (auto simp: fits_after_def split: if_splits)
  have "unframe contents = Inr (map le_bytes (st_entries s'))"
    using after(1) contents unfolding unframe_iff by (auto simp: store_ok_def store_inv_def log_signed_def)
  moreover have "\<exists>x. replay_log C (enumerate 0 (map le_bytes (st_entries s) @ [bs])) (new_store (Some contents) :: Ledger Store) = Inl x"
    by (rule replay_refuses [OF ok(2) taken]) (use merits verify_accept_parse(1) in blast)
  ultimately show ?thesis using contents entries by (auto simp: store_open_def)
qed

text \<open>The sample log, opened again after the earlier registration has won.\<close>

theorem takeover_unopenable_witness:
  "\<exists>s t v contents e. reachable sample_crypto s \<and>
     store_append sample_crypto s (claim_bytes 7 1000000) 1000001 = Inr (t, Accept (claim 7 1000000) (Some v) False) \<and>
     st_file t = Some contents \<and> (store_open sample_crypto (Some contents) :: store_error + Ledger Store) = Inl e"
proof -
  obtain s t v and held :: NameEntry where s: "store_append sample_crypto s (claim_bytes 7 1000000) 1000001 =
      Inr (t, Accept (claim 7 1000000) (Some v) False)" "reachable sample_crypto s"
    "st_entries s = [first_entry 9 1000001]" "store_current s (js ''abc'') (js ''vayu'') = Some (ne_current held)"
    "pd_record (ne_current held) = claim 9 1000001"
    by (rule sample_takeover)
  have "\<not> isFullyReleased (claim 9 1000001) 1000000" by (rule live_not_released) simp_all
  then show ?thesis
    using takeover_unopenable [OF sample_hash_length s(2) sample_takeover_fresh [OF s(3)] s(1)] s(1,2,4,5) by auto
qed

subsection \<open>Equivocation gets recorded\<close>

text \<open>
  C13. When a store with a ledger refuses a record that the owner of an entry signed at the entry's
  own sequence number, the fact is settled in the ledger afterwards: recorded, or the budget for
  detected reports is used up.
\<close>

theorem equivocation_recorded:
  assumes "hash_length_ok C" and "reachable C s" and "no_collision C s bs"
    and "store_append C s bs now = Inr (s', v)" and "\<not> accepted v"
    and "st_equivocation s = Some (R, L)"
    and "parseRecordBytes bs = Inr r" and "signed_by_owner C r"
    and "e \<in> set (st_entries s)" and "r_name (le_record e) = r_name r" and "r_tld (le_record e) = r_tld r"
    and "r_seq (le_record e) = r_seq r" and "r_ownerKey (le_record e) = r_ownerKey r" and "le_bytes e \<noteq> bs"
  shows "\<exists>M. st_equivocation s' = Some (R, M) \<and> settled M r Detected"
proof -
  have ok: "store_inv C s" "log_signed C s" "ledger.watched C s"
    using reachable_ok [OF assms(1,2)] by (simp_all add: store_ok_def)
  have R: "R = ledger_recorder C" "ledger_ok C L"
    using ok(3) assms(6) by (auto simp: ledger_watched ledger_ok_def)
  have "noteEquivocation C s bs = Inr s'"
    by (rule append_refused_notes [OF assms(1) ok(1) assms(4,5)])
  from ledger.noted_settles [OF this ok(1,2) assms(3) _ R(2) assms(7-9)] assms(6,10-14) R(1)
  show ?thesis by simp
qed

theorem equivocation_recorded_witness:
  "\<exists>s s' v M. reachable sample_crypto s \<and> st_entries s = [first_entry 7 1000000] \<and>
     store_append sample_crypto s (claim_bytes 7 1000001) 1000001 = Inr (s', v) \<and> \<not> accepted v \<and>
     st_equivocation s' = Some (ledger_recorder sample_crypto, M) \<and> settled M (claim 7 1000001) Detected"
proof -
  have c: "sample_claim 7 1000000" "sample_claim 7 1000001" by (simp_all add: sample_claim_def)
  let ?b = "claim_bytes 7 1000001" and ?L = "empty_ledger (Some [])"
  obtain t where t: "reachable sample_crypto t" "st_entries t = [first_entry 7 1000000]"
    "map_get (st_names t) (nameKey (js ''abc'') (js ''vayu'')) = Some (derive None (first_entry 7 1000000))"
    using first_claim [OF c(1), of 1000001] by auto
  define s where "s = watchEquivocation t (ledger_recorder sample_crypto, ?L)"
  have "ledger_inv sample_crypto ?L"
    using recorded_inv [OF sample_hash_length recorded_from.start] by simp
  then have r: "reachable sample_crypto s" unfolding s_def by (rule reachable.watch [OF t(1)])
  have s: "st_entries s = [first_entry 7 1000000]" "st_equivocation s = Some (ledger_recorder sample_crypto, ?L)"
    "map_get (st_names s) (nameKey (js ''abc'') (js ''vayu'')) = Some (derive None (first_entry 7 1000000))"
    using t by (simp_all add: s_def watchEquivocation_def)
  have ne: "claim_bytes 7 1000000 \<noteq> ?b" "no_collision sample_crypto s ?b"
    using claim_hash_less claim_hash [OF c(1)] claim_hash [OF c(2)] s(1) by (auto simp: no_collision_def)
  have ok: "store_ok sample_crypto s" by (rule reachable_ok [OF sample_hash_length r])
  then have inv: "store_inv sample_crypto s" and w: "ledger.watched sample_crypto s" by (simp_all add: store_ok_def)
  have "\<exists>s' v. store_append sample_crypto s ?b 1000001 = Inr (s', v) \<and> \<not> accepted v"
    using sample_hash_length inv w ne(2)
  proof (cases rule: ledger.store_append_cases [of sample_crypto s ?b 1000001])
    case (appended s' q)
    then have "q = claim 7 1000001" using verify_accept_parse(1) claim_parses [OF c(2)] by fastforce
    then have "isFullyReleased (claim 7 1000000) 1000001"
      using register_accept(4) [OF appended(2)] s(3) by (simp add: store_current_def register_derived)
    moreover have "\<not> isFullyReleased (claim 7 1000000) 1000001" by (rule live_not_released) simp_all
    ultimately show ?thesis by simp
  next
    case (merged s' q held e voided)
    then have "q = claim 7 1000001" "e = first_entry 7 1000000"
      using claim_parses [OF c(2)] rootEntryFor_Some(1) s(1) by (fastforce simp: beats_def)+
    then show ?thesis using merged(3) by (simp add: beats_def)
  qed (use ne s in auto)
  then obtain s' v where a: "store_append sample_crypto s ?b 1000001 = Inr (s', v)" "\<not> accepted v" by blast
  obtain i where "signingInput (claim_map 7 1000001) = Inr i"
    using parseRecordBytes_signingInput [OF claim_parses [OF c(2)]] by auto
  then have "signed_by_owner sample_crypto (claim 7 1000001)"
    using sample_verifies [of 7 i] by (simp add: signed_by_owner_def)
  from equivocation_recorded [OF sample_hash_length r ne(2) a s(2) claim_parses [OF c(2)] this, of "first_entry 7 1000000"]
  show ?thesis using r s(1) a ne(1) by auto
qed

end
