(* ===== verification/Session.thy ===== *)
theory Session
  imports Store_Safety
begin

section \<open>The replication session\<close>

text \<open>
  registry/src/replicate.ts, one conversation with one peer: \<open>ReplicationSession\<close> over a
  \<open>ReplicationSink\<close>. The sink is a record of functions on the state it mutates; an append that
  throws returns \<open>None\<close> for the verdict. \<open>sinkOver\<close> of registry/src/store.ts is the sink that the
  registry runs with, and the contract the session relies on is the locale \<open>replication_sink\<close>.
\<close>

record 'k ReplicationSink =
  sk_append :: "'k \<Rightarrow> bytes \<Rightarrow> int \<Rightarrow> 'k \<times> verdict option"
  sk_length :: "'k \<Rightarrow> int"
  sk_encodingAt :: "'k \<Rightarrow> int \<Rightarrow> bytes option"
  sk_treeRoot :: "'k \<Rightarrow> bytes option"

definition sinkOver :: "crypto \<Rightarrow> 'l Store ReplicationSink" where
  "sinkOver C =
     \<lparr>sk_append = (\<lambda>s bs now.
        case store_append C s bs now of Inl _ \<Rightarrow> (s, None) | Inr (s', v) \<Rightarrow> (s', Some v)),
      sk_length = (\<lambda>s. int (length (st_entries s))),
      sk_encodingAt = (\<lambda>s i. if i < 0 then None else encodingAt s (nat i)),
      sk_treeRoot = (\<lambda>s. case store_treeRoot C s of Inl _ \<Rightarrow> None | Inr digest \<Rightarrow> Some digest)\<rparr>"

record ReceiveOutcome =
  oc_replies :: "message list"
  oc_applied :: nat
  oc_rejected :: nat
  oc_deferred :: nat
  oc_duplicates :: nat
  oc_equivocations :: "message list"
  oc_checkpoints :: "message list"

definition EMPTY :: ReceiveOutcome where
  "EMPTY =
     \<lparr>oc_replies = [], oc_applied = 0, oc_rejected = 0, oc_deferred = 0, oc_duplicates = 0,
      oc_equivocations = [], oc_checkpoints = []\<rparr>"

record 'k ReplicationSession =
  sn_sink :: 'k
  sn_helloSent :: bool
  sn_helloReceived :: bool
  sn_remoteLength :: int
  sn_outstanding :: "int list"
  sn_fetchedThrough :: int
  sn_requestedThrough :: int
  sn_deferredQueue :: "(bytes \<times> int) list"
  sn_deferredKeys :: "string set"

definition new_session :: "'k \<Rightarrow> 'k ReplicationSession" where
  "new_session k =
     \<lparr>sn_sink = k, sn_helloSent = False, sn_helloReceived = False, sn_remoteLength = 0, sn_outstanding = [],
      sn_fetchedThrough = 0, sn_requestedThrough = 0, sn_deferredQueue = [], sn_deferredKeys = {}\<rparr>"

datatype session_error = SESSION replication_rejection | SINK_FAILED

subsection \<open>Opening and greeting\<close>

definition session_open :: "'k ReplicationSink \<Rightarrow> 'k ReplicationSession \<Rightarrow> 'k ReplicationSession \<times> (session_error + message)" where
  "session_open S s =
     (if sn_helloSent s then (s, Inl (SESSION HELLO_REPEATED))
      else (s\<lparr>sn_helloSent := True\<rparr>,
        (case sk_treeRoot S (sn_sink s) of
           None \<Rightarrow> Inl SINK_FAILED
         | Some digest \<Rightarrow> Inr (HELLO PROTOCOL_VERSION (sk_length S (sn_sink s)) digest))))"

definition onHello :: "'k ReplicationSession \<Rightarrow> int \<Rightarrow> int \<Rightarrow> 'k ReplicationSession \<times> ReceiveOutcome" where
  "onHello s v len =
     (if sn_helloReceived s then (s, EMPTY)
      else if v \<noteq> PROTOCOL_VERSION then (s, EMPTY)
      else (s\<lparr>sn_helloReceived := True, sn_remoteLength := len\<rparr>, EMPTY))"

subsection \<open>Serving\<close>

text \<open>The loop of \<open>onWant\<close> over the indices that are left.\<close>

primrec collect :: "'k ReplicationSink \<Rightarrow> 'k \<Rightarrow> nat \<Rightarrow> int \<Rightarrow> bytes list \<Rightarrow> nat \<Rightarrow> bytes list" where
  "collect S k 0 i recs used = recs"
| "collect S k (Suc n) i recs used =
     (if i \<ge> sk_length S k then recs
      else case sk_encodingAt S k i of
          None \<Rightarrow> recs
        | Some encoding \<Rightarrow>
            let cost = length encoding + 3 in
            if used + cost > messageBytes LIMITS - RECORDS_ENVELOPE_BYTES \<and> length recs > 0 then recs
            else collect S k n (i + 1) (recs @ [encoding]) (used + cost))"

definition onWant :: "'k ReplicationSink \<Rightarrow> 'k ReplicationSession \<Rightarrow> int \<Rightarrow> int \<Rightarrow> 'k ReplicationSession \<times> ReceiveOutcome" where
  "onWant S s start n =
     (if n = 0 \<or> n > wantCount LIMITS then (s, EMPTY)
      else let recs = collect S (sn_sink s) (nat n) start [] 0 in
        if recs = [] then (s, EMPTY)
        else (s, EMPTY\<lparr>oc_replies := [RECORDS start recs]\<rparr>))"

subsection \<open>Applying a batch\<close>

definition key_of :: "crypto \<Rightarrow> bytes \<Rightarrow> string" where
  "key_of C bs = toHex (recordHashFromBytes C bs)"

definition evict_first :: "crypto \<Rightarrow> 'k ReplicationSession \<Rightarrow> 'k ReplicationSession" where
  "evict_first C s =
     (case sn_deferredQueue s of
        [] \<Rightarrow> s
      | (evicted, _) # rest \<Rightarrow>
          s\<lparr>sn_deferredQueue := rest, sn_deferredKeys := sn_deferredKeys s - {key_of C evicted}\<rparr>)"

definition holdDeferred :: "crypto \<Rightarrow> 'k ReplicationSession \<Rightarrow> bytes \<Rightarrow> int \<Rightarrow> 'k ReplicationSession" where
  "holdDeferred C s bs t =
     (if key_of C bs \<in> sn_deferredKeys s then s
      else let s = (if length (sn_deferredQueue s) \<ge> deferred LIMITS then evict_first C s else s) in
        s\<lparr>sn_deferredKeys := insert (key_of C bs) (sn_deferredKeys s),
          sn_deferredQueue := sn_deferredQueue s @ [(bs, t)]\<rparr>)"

definition on_record :: "crypto \<Rightarrow> 'k ReplicationSink \<Rightarrow> int \<Rightarrow> 'k ReplicationSession \<times> ReceiveOutcome \<Rightarrow> bytes \<Rightarrow> 'k ReplicationSession \<times> ReceiveOutcome" where
  "on_record C S now st encoding =
     (case st of (s, out) \<Rightarrow>
       if length encoding > recordBytes LIMITS then (s, out\<lparr>oc_rejected := oc_rejected out + 1\<rparr>)
       else case sk_append S (sn_sink s) encoding now of (k, verdict) \<Rightarrow>
         let s = s\<lparr>sn_sink := k\<rparr> in
         (case verdict of
            None \<Rightarrow> (s, out\<lparr>oc_rejected := oc_rejected out + 1\<rparr>)
          | Some (Accept _ _ duplicate) \<Rightarrow>
              if duplicate then (s, out\<lparr>oc_duplicates := oc_duplicates out + 1\<rparr>)
              else (s, out\<lparr>oc_applied := oc_applied out + 1\<rparr>)
          | Some Defer \<Rightarrow>
              (holdDeferred C s encoding now, out\<lparr>oc_deferred := oc_deferred out + 1\<rparr>)
          | Some (Reject _) \<Rightarrow> (s, out\<lparr>oc_rejected := oc_rejected out + 1\<rparr>)))"

definition advance :: "int \<Rightarrow> nat \<Rightarrow> 'k ReplicationSession \<Rightarrow> 'k ReplicationSession" where
  "advance start n s =
     (if start \<le> sn_fetchedThrough s then
        let through = max (sn_fetchedThrough s) (start + int n) in
        s\<lparr>sn_fetchedThrough := through, sn_requestedThrough := through\<rparr>
      else s)"

definition onRecords :: "crypto \<Rightarrow> 'k ReplicationSink \<Rightarrow> 'k ReplicationSession \<Rightarrow> int \<Rightarrow> bytes list \<Rightarrow> int \<Rightarrow> 'k ReplicationSession \<times> ReceiveOutcome" where
  "onRecords C S s start recs now =
     (if length recs > recordsPerBatch LIMITS then (s, EMPTY\<lparr>oc_rejected := 1\<rparr>)
      else case foldl (on_record C S now) (s, EMPTY) recs of (s, out) \<Rightarrow>
        let s = advance start (length recs) s in
        (s\<lparr>sn_outstanding := tl (sn_outstanding s)\<rparr>, out))"

subsection \<open>Retrying what was deferred\<close>

definition retry_step :: "crypto \<Rightarrow> 'k ReplicationSink \<Rightarrow> int \<Rightarrow> 'k ReplicationSession \<times> nat \<Rightarrow> bytes \<times> int \<Rightarrow> 'k ReplicationSession \<times> nat" where
  "retry_step C S now st held =
     (case (st, held) of ((s, applied), (bs, t)) \<Rightarrow>
       case sk_append S (sn_sink s) bs now of (k, verdict) \<Rightarrow>
         let s = s\<lparr>sn_sink := k\<rparr> in
         (case verdict of
            Some (Accept _ _ _) \<Rightarrow> (s, applied + 1)
          | Some Defer \<Rightarrow> (holdDeferred C s bs t, applied)
          | _ \<Rightarrow> (s, applied)))"

definition retryDeferred :: "crypto \<Rightarrow> 'k ReplicationSink \<Rightarrow> 'k ReplicationSession \<Rightarrow> int \<Rightarrow> 'k ReplicationSession \<times> nat" where
  "retryDeferred C S s now =
     (if sn_deferredQueue s = [] then (s, 0)
      else foldl (retry_step C S now) (s\<lparr>sn_deferredQueue := [], sn_deferredKeys := {}\<rparr>, 0) (sn_deferredQueue s))"

subsection \<open>Receiving a message\<close>

definition onEquivocation :: "crypto \<Rightarrow> 'k ReplicationSession \<Rightarrow> bytes \<Rightarrow> bytes \<Rightarrow> evidence_error + 'k ReplicationSession \<times> ReceiveOutcome" where
  "onEquivocation C s a b =
     (case verifyEquivocation C a b of
        Inl e \<Rightarrow> Inl e
      | Inr ok \<Rightarrow>
          Inr (s, if ok then EMPTY\<lparr>oc_equivocations := [EQUIVOCATION a b]\<rparr> else EMPTY\<lparr>oc_rejected := 1\<rparr>))"

definition receive :: "crypto \<Rightarrow> 'k ReplicationSink \<Rightarrow> 'k ReplicationSession \<Rightarrow> message \<Rightarrow> int \<Rightarrow> evidence_error + 'k ReplicationSession \<times> ReceiveOutcome" where
  "receive C S s m now =
     (if \<not> sn_helloReceived s \<and> \<not> is_HELLO m then Inr (s, EMPTY)
      else case m of
          HELLO v len digest \<Rightarrow> Inr (onHello s v len)
        | WANT start n \<Rightarrow> Inr (onWant S s start n)
        | RECORDS start recs \<Rightarrow> Inr (onRecords C S s start recs now)
        | EQUIVOCATION a b \<Rightarrow> onEquivocation C s a b
        | CHECKPOINT _ _ _ _ \<Rightarrow> Inr (s, EMPTY\<lparr>oc_checkpoints := [m]\<rparr>))"

subsection \<open>Asking\<close>

definition expireWants :: "'k ReplicationSession \<Rightarrow> int \<Rightarrow> 'k ReplicationSession" where
  "expireWants s now =
     (let kept = dropWhile (\<lambda>issued. now - issued \<ge> wantDeadlineSeconds LIMITS) (sn_outstanding s);
          expired = length (sn_outstanding s) - length kept;
          s = s\<lparr>sn_outstanding := kept\<rparr>
      in if expired > 0 then s\<lparr>sn_requestedThrough := sn_fetchedThrough s\<rparr> else s)"

definition nextWant :: "'k ReplicationSession \<Rightarrow> int \<Rightarrow> 'k ReplicationSession \<times> message option" where
  "nextWant s now =
     (if \<not> sn_helloReceived s then (s, None)
      else let s = expireWants s now in
        if length (sn_outstanding s) \<ge> outstandingWants LIMITS then (s, None)
        else let start = sn_requestedThrough s in
          if start \<ge> sn_remoteLength s then (s, None)
          else let n = min (wantCount LIMITS) (sn_remoteLength s - start) in
            (s\<lparr>sn_outstanding := sn_outstanding s @ [now], sn_requestedThrough := start + n\<rparr>, Some (WANT start n)))"

subsection \<open>The contract of a sink\<close>

text \<open>What the loop charges for a batch, and why a batch within the budget encodes.\<close>

definition cost :: "bytes list \<Rightarrow> nat" where
  "cost recs = (\<Sum>b\<leftarrow>recs. length b + 3)"

lemma cost_simps [simp]: "cost [] = 0" "cost (xs @ ys) = cost xs + cost ys" "cost [b] = length b + 3"
  "cost (b # xs) = length b + 3 + cost xs"
  by (simp_all add: cost_def)

lemma head_any: "0 \<le> n \<Longrightarrow> n \<le> MAX_SAFE_INTEGER \<Longrightarrow> \<exists>h. head major n = Inr h \<and> length h \<le> 9"
  by (auto simp: head_def Let_def MAX_SAFE_INTEGER_def)

lemma encode_batch:
  "cost recs \<le> 65535 \<Longrightarrow>
    \<exists>bs. mapE (\<lambda>x. encodeValue x 2) (map CBytes recs) = Inr bs \<and> length (concat bs) \<le> cost recs"
proof (induction recs)
  case (Cons b recs)
  then obtain bs where "mapE (\<lambda>x. encodeValue x 2) (map CBytes recs) = Inr bs" "length (concat bs) \<le> cost recs"
    by auto
  moreover obtain h where h: "length h \<le> 3" "\<And>d. d \<le> 32 \<Longrightarrow> encodeValue (CBytes b) d = Inr (h @ b)"
    using encode_bytes_small [of b] Cons.prems by auto
  ultimately show ?case by (simp del: encodeValue.simps add: h(2))
qed simp

lemma encode_records:
  assumes "0 \<le> start" "start \<le> MAX_SAFE_INTEGER" "length recs \<le> 256" "cost recs \<le> 65472"
  shows "\<exists>bs. encodeMessage (RECORDS start recs) = Inr bs \<and> length bs \<le> 65536"
proof -
  have "cost recs \<le> 65535" using assms(4) by simp
  then obtain bs where bs: "mapE (\<lambda>x. encodeValue x 2) (map CBytes recs) = Inr bs" "length (concat bs) \<le> cost recs"
    using encode_batch by blast
  obtain h where h: "head MAJOR_ARRAY (int (length recs)) = Inr h" "length h \<le> 3"
    using head_small [of "int (length recs)" MAJOR_ARRAY] assms(3) by auto
  have arr: "encodeValue (CArr (map CBytes recs)) 1 = Inr (h @ concat bs)"
    using bs(1) h(1) by (simp add: numeral_2_eq_2)
  obtain g where g: "head MAJOR_UINT start = Inr g" "length g \<le> 9"
    using head_any assms(1,2) by blast
  have num: "encodeValue (CNum start) 1 = Inr g"
    using g(1) assms(1,2) by simp
  show ?thesis
    using assms(4) bs(2) h(2) g(2)
    by (simp add: exec encodeMessage_def message_map_def arr num One_nat_def [symmetric]
        del: One_nat_def encodeValue.simps(2,6))
qed

text \<open>
  A sink holds a log. Its length and its encodings are the log's, the encodings are records, an
  append keeps the sink in order and only ever adds to the log, and only records that parse.
\<close>

locale replication_sink =
  fixes S :: "'k ReplicationSink" and ok :: "'k \<Rightarrow> bool" and held :: "'k \<Rightarrow> bytes list"
  assumes sink_length: "ok k \<Longrightarrow> sk_length S k = int (length (held k))"
    and sink_encodingAt: "ok k \<Longrightarrow> sk_encodingAt S k (int i) = (if i < length (held k) then Some (held k ! i) else None)"
    and sink_records: "ok k \<Longrightarrow> bs \<in> set (held k) \<Longrightarrow> \<exists>r. parseRecordBytes bs = Inr r"
    and sink_append: "ok k \<Longrightarrow> sk_append S k bs now = (k', v) \<Longrightarrow> ok k' \<and> (held k' = held k \<or> held k' = held k @ [bs])"
begin

lemma held_small: "ok k \<Longrightarrow> bs \<in> set (held k) \<Longrightarrow> length bs \<le> 4096"
  using sink_records parseRecordBytes_encode(3) by blast

lemma collect_spec:
  assumes "ok k"
  shows "cost recs \<le> 65472 \<Longrightarrow>
    \<exists>m\<le>n. collect S k n (int i) recs (cost recs) = recs @ take m (drop i (held k)) \<and>
      cost (recs @ take m (drop i (held k))) \<le> 65472 \<and>
      (recs = [] \<and> 0 < n \<and> i < length (held k) \<longrightarrow> 0 < m)"
proof (induction n arbitrary: i recs)
  case (Suc n)
  show ?case
  proof (cases "i < length (held k)")
    case False
    then show ?thesis
      using Suc.prems sink_length [OF assms] by (intro exI [of _ 0]) simp
  next
    case i: True
    let ?e = "held k ! i"
    have small: "length ?e \<le> 4096" using held_small [OF assms] i by simp
    have budget: "messageBytes LIMITS - RECORDS_ENVELOPE_BYTES = 65472"
      by (simp add: RECORDS_ENVELOPE_BYTES_def)
    show ?thesis
    proof (cases "cost recs + (length ?e + 3) > 65472 \<and> recs \<noteq> []")
      case True
      then show ?thesis
        using Suc.prems i sink_length [OF assms] sink_encodingAt [OF assms, of i] budget
        by (intro exI [of _ 0]) simp
    next
      case False
      then have le: "cost (recs @ [?e]) \<le> 65472" using small by auto
      obtain m where m: "m \<le> n"
        "collect S k n (int (Suc i)) (recs @ [?e]) (cost (recs @ [?e])) = (recs @ [?e]) @ take m (drop (Suc i) (held k))"
        "cost ((recs @ [?e]) @ take m (drop (Suc i) (held k))) \<le> 65472"
        using Suc.IH [OF le, of "Suc i"] by blast
      have split: "recs @ take (Suc m) (drop i (held k)) = (recs @ [?e]) @ take m (drop (Suc i) (held k))"
        using i by (simp add: Cons_nth_drop_Suc [symmetric])
      have "collect S k (Suc n) (int i) recs (cost recs) = recs @ take (Suc m) (drop i (held k))"
        using False i sink_length [OF assms] sink_encodingAt [OF assms, of i] budget m(2) split
        by (auto simp: add.commute)
      then show ?thesis using m(1,3) split by (intro exI [of _ "Suc m"]) simp
    qed
  qed
qed (intro exI [of _ 0], simp)

text \<open>What a peer serves: a run of its own log that starts where it was asked, never empty.\<close>

lemma onWant_spec:
  assumes "ok (sn_sink s)" "0 \<le> start"
  obtains
    (declined) "onWant S s start n = (s, EMPTY)"
      "n \<le> 0 \<or> n > 256 \<or> length (held (sn_sink s)) \<le> nat start"
  | (served) m where "0 < m" "m \<le> nat n" "0 < n" "n \<le> 256"
      "onWant S s start n = (s, EMPTY\<lparr>oc_replies := [RECORDS start (take m (drop (nat start) (held (sn_sink s))))]\<rparr>)"
      "cost (take m (drop (nat start) (held (sn_sink s)))) \<le> 65472" "nat start < length (held (sn_sink s))"
proof -
  let ?run = "\<lambda>m. take m (drop (nat start) (held (sn_sink s)))"
  obtain m where m: "m \<le> nat n" "collect S (sn_sink s) (nat n) start [] 0 = ?run m" "cost (?run m) \<le> 65472"
    "0 < nat n \<and> nat start < length (held (sn_sink s)) \<longrightarrow> 0 < m"
    using collect_spec [OF assms(1), of "[]" "nat n" "nat start"] assms(2) by auto
  show thesis
  proof (cases "n \<le> 0 \<or> n > 256 \<or> length (held (sn_sink s)) \<le> nat start")
    case True
    then have "onWant S s start n = (s, EMPTY)" using m(1,2) by (auto simp: onWant_def)
    then show thesis using True by (rule declined)
  next
    case False
    then show thesis using m by (intro served [of m]) (auto simp: onWant_def)
  qed
qed

end

subsection \<open>The store is a sink\<close>

definition sink_ok :: "crypto \<Rightarrow> Ledger Store \<Rightarrow> bool" where
  "sink_ok C s \<longleftrightarrow> hash_length_ok C \<and> store_ok C s"

definition log_of :: "'l Store \<Rightarrow> bytes list" where
  "log_of s = map le_bytes (st_entries s)"

text \<open>An append, whatever bytes arrive: also a collision leaves the store in order.\<close>

lemma sink_append_step:
  assumes "sink_ok C s" "sk_append (sinkOver C) s bs now = (s', v)"
  shows "sink_ok C s'" "log_of s' = log_of s \<or> log_of s' = log_of s @ [bs]"
proof -
  have "sink_ok C s' \<and> (log_of s' = log_of s \<or> log_of s' = log_of s @ [bs])"
  proof (cases "no_collision C s bs")
    case True
    obtain t w where t: "store_append C s bs now = Inr (t, w)" "store_ok C t" "fits_after C s bs t w"
      using store_append_step [OF _ _ True] assms(1) unfolding sink_ok_def by blast
    then show ?thesis
      using assms by (auto simp: sink_ok_def sinkOver_def fits_after_def log_of_def split: if_splits)
  next
    case False
    have "store_inv C s" using assms(1) by (simp add: sink_ok_def store_ok_def)
    then have "store_has C s bs" using False by (auto simp: store_has_entry no_collision_def)
    then show ?thesis using assms by (auto simp: sinkOver_def store_append_def split: sum.splits)
  qed
  then show "sink_ok C s'" "log_of s' = log_of s \<or> log_of s' = log_of s @ [bs]" by simp_all
qed

interpretation store_sink: replication_sink "sinkOver C" "sink_ok C" log_of for C
proof unfold_locales
  fix s :: "Ledger Store" and s' i bs now v
  assume ok: "sink_ok C s"
  show "sk_length (sinkOver C) s = int (length (log_of s))" by (simp add: sinkOver_def log_of_def)
  show "sk_encodingAt (sinkOver C) s (int i) = (if i < length (log_of s) then Some (log_of s ! i) else None)"
    by (simp add: sinkOver_def log_of_def encodingAt_def entryAt_def)
  show "\<exists>r. parseRecordBytes bs = Inr r" if "bs \<in> set (log_of s)"
    using that ok entry_ok_in(2) by (fastforce simp: log_of_def sink_ok_def store_ok_def)
  show "sink_ok C s' \<and> (log_of s' = log_of s \<or> log_of s' = log_of s @ [bs])"
    if "sk_append (sinkOver C) s bs now = (s', v)"
    using sink_append_step [OF ok that] by blast
qed

lemma sink_ok_new: "sink_ok sample_crypto (new_store None)"
  using reachable_ok [OF sample_hash_length empty_reachable] sample_hash_length by (simp add: sink_ok_def)

subsection \<open>Conversations\<close>

text \<open>
  Everything that can happen to a session, in any order: it greets, receives arbitrary messages,
  asks, retries, and the log grows under it from elsewhere.
\<close>

inductive conversation :: "crypto \<Rightarrow> 'k ReplicationSink \<Rightarrow> ('k \<Rightarrow> bool) \<Rightarrow> 'k ReplicationSession \<Rightarrow> bool"
  for C S ok where
  start: "ok k \<Longrightarrow> conversation C S ok (new_session k)"
| greet: "conversation C S ok s \<Longrightarrow> conversation C S ok (fst (session_open S s))"
| message: "conversation C S ok s \<Longrightarrow> receive C S s m now = Inr (s', out) \<Longrightarrow> conversation C S ok s'"
| ask: "conversation C S ok s \<Longrightarrow> conversation C S ok (fst (nextWant s now))"
| retry: "conversation C S ok s \<Longrightarrow> conversation C S ok (fst (retryDeferred C S s now))"
| elsewhere: "conversation C S ok s \<Longrightarrow> ok k \<Longrightarrow> conversation C S ok (s\<lparr>sn_sink := k\<rparr>)"

text \<open>The bounds of a session, with the set of keys in step with the queue.\<close>

definition queue_ok :: "crypto \<Rightarrow> 'k ReplicationSession \<Rightarrow> bool" where
  "queue_ok C s \<longleftrightarrow>
     length (sn_deferredQueue s) \<le> 1024 \<and>
     sn_deferredKeys s = set (map (\<lambda>h. key_of C (fst h)) (sn_deferredQueue s)) \<and>
     distinct (map (\<lambda>h. key_of C (fst h)) (sn_deferredQueue s))"

definition session_inv :: "crypto \<Rightarrow> 'k ReplicationSession \<Rightarrow> bool" where
  "session_inv C s \<longleftrightarrow>
     queue_ok C s \<and> length (sn_outstanding s) \<le> 8 \<and> (\<not> sn_helloReceived s \<longrightarrow> sn_remoteLength s = 0) \<and>
     0 \<le> sn_fetchedThrough s \<and> sn_fetchedThrough s \<le> sn_requestedThrough s \<and>
     sn_requestedThrough s \<le> max (sn_fetchedThrough s) (sn_remoteLength s)"

lemma queue_ok_update [simp]:
  "queue_ok C (s\<lparr>sn_sink := k\<rparr>) = queue_ok C s" "queue_ok C (s\<lparr>sn_helloSent := a\<rparr>) = queue_ok C s"
  "queue_ok C (s\<lparr>sn_helloReceived := a\<rparr>) = queue_ok C s" "queue_ok C (s\<lparr>sn_remoteLength := n\<rparr>) = queue_ok C s"
  "queue_ok C (s\<lparr>sn_outstanding := ts\<rparr>) = queue_ok C s" "queue_ok C (s\<lparr>sn_fetchedThrough := n\<rparr>) = queue_ok C s"
  "queue_ok C (s\<lparr>sn_requestedThrough := n\<rparr>) = queue_ok C s"
  by (simp_all add: queue_ok_def)

text \<open>What applying records leaves alone.\<close>

definition same_cursor :: "'k ReplicationSession \<Rightarrow> 'k ReplicationSession \<Rightarrow> bool" where
  "same_cursor s t \<longleftrightarrow>
     sn_helloSent t = sn_helloSent s \<and> sn_helloReceived t = sn_helloReceived s \<and>
     sn_remoteLength t = sn_remoteLength s \<and> sn_outstanding t = sn_outstanding s \<and>
     sn_fetchedThrough t = sn_fetchedThrough s \<and> sn_requestedThrough t = sn_requestedThrough s"

lemma holdDeferred_ok:
  assumes "queue_ok C s"
  shows "queue_ok C (holdDeferred C s bs t) \<and> same_cursor s (holdDeferred C s bs t) \<and>
    sn_sink (holdDeferred C s bs t) = sn_sink s"
proof (cases "key_of C bs \<in> sn_deferredKeys s")
  case False
  then show ?thesis
    using assms
    by (cases "sn_deferredQueue s")
      (auto simp: holdDeferred_def Let_def queue_ok_def same_cursor_def evict_first_def image_iff split: prod.splits)
qed (use assms in \<open>simp add: holdDeferred_def same_cursor_def\<close>)

lemma on_record_ok:
  assumes "queue_ok C s" "on_record C S now (s, out) bs = (s', out')"
  shows "queue_ok C s' \<and> same_cursor s s' \<and>
    sn_sink s' = (if length bs > 4096 then sn_sink s else fst (sk_append S (sn_sink s) bs now))"
proof -
  obtain k v where kv: "sk_append S (sn_sink s) bs now = (k, v)" by (cases "sk_append S (sn_sink s) bs now")
  have q: "queue_ok C (s\<lparr>sn_sink := k\<rparr>)" "same_cursor s (s\<lparr>sn_sink := k\<rparr>)"
    using assms(1) by (simp_all add: same_cursor_def)
  then have h: "queue_ok C (holdDeferred C (s\<lparr>sn_sink := k\<rparr>) bs now)"
      "same_cursor s (holdDeferred C (s\<lparr>sn_sink := k\<rparr>) bs now)" "sn_sink (holdDeferred C (s\<lparr>sn_sink := k\<rparr>) bs now) = k"
    using holdDeferred_ok [OF q(1), of bs now] by (simp_all add: same_cursor_def)
  have "same_cursor s s" by (simp add: same_cursor_def)
  then have skip: "length bs > 4096 \<Longrightarrow> s' = s"
    and step: "\<not> length bs > 4096 \<Longrightarrow> s' = s\<lparr>sn_sink := k\<rparr> \<or> s' = holdDeferred C (s\<lparr>sn_sink := k\<rparr>) bs now"
    using assms(2) kv by (auto simp: on_record_def Let_def split: if_splits option.splits verdict.splits)
  show ?thesis
  proof (cases "length bs > 4096")
    case True
    then show ?thesis using skip assms(1) \<open>same_cursor s s\<close> by simp
  next
    case False
    from step [OF False] show ?thesis using False q h by (elim disjE) (simp_all add: kv)
  qed
qed

text \<open>A batch feeds its records to the sink one after the other, whatever becomes of each.\<close>

definition offer :: "'k ReplicationSink \<Rightarrow> int \<Rightarrow> 'k \<Rightarrow> bytes \<Rightarrow> 'k" where
  "offer S now k bs = (if length bs > 4096 then k else fst (sk_append S k bs now))"

lemma fold_records_ok:
  assumes "queue_ok C s" "foldl (on_record C S now) (s, out) recs = (s', out')"
  shows "queue_ok C s' \<and> same_cursor s s' \<and> sn_sink s' = foldl (offer S now) (sn_sink s) recs"
  using assms
proof (induction recs arbitrary: s out)
  case (Cons b recs)
  obtain t out1 where t: "on_record C S now (s, out) b = (t, out1)" by (cases "on_record C S now (s, out) b")
  from on_record_ok [OF Cons.prems(1) t] Cons.IH [of t out1] Cons.prems(2) t
  show ?case by (auto simp: same_cursor_def offer_def)
qed (simp add: same_cursor_def)

lemma retry_ok:
  assumes "foldl (retry_step C S now) (s, n) hs = (s', n')" "queue_ok C s"
  shows "queue_ok C s' \<and> same_cursor s s' \<and>
    sn_sink s' = foldl (\<lambda>k h. fst (sk_append S k (fst h) now)) (sn_sink s) hs"
  using assms
proof (induction hs arbitrary: s n)
  case (Cons h hs)
  obtain bs t where h: "h = (bs, t)" by (cases h)
  obtain k v where kv: "sk_append S (sn_sink s) bs now = (k, v)" by (cases "sk_append S (sn_sink s) bs now")
  let ?s = "s\<lparr>sn_sink := k\<rparr>"
  obtain u m where u: "retry_step C S now (s, n) h = (u, m)" by (cases "retry_step C S now (s, n) h")
  then have "u = ?s \<or> u = holdDeferred C ?s bs t"
    using h kv by (auto simp: retry_step_def Let_def split: option.splits verdict.splits)
  moreover have "queue_ok C ?s" "same_cursor s ?s" using Cons.prems(2) by (simp_all add: queue_ok_def same_cursor_def)
  ultimately have "queue_ok C u \<and> same_cursor s u \<and> sn_sink u = k"
    using holdDeferred_ok [of C ?s bs t] by (auto simp: same_cursor_def)
  with Cons.IH [of u m] Cons.prems(1) u h kv show ?case by (auto simp: same_cursor_def)
qed (simp add: same_cursor_def)

lemma retryDeferred_ok:
  assumes "queue_ok C s"
  shows "queue_ok C (fst (retryDeferred C S s now)) \<and> same_cursor s (fst (retryDeferred C S s now)) \<and>
    sn_sink (fst (retryDeferred C S s now)) =
      foldl (\<lambda>k h. fst (sk_append S k (fst h) now)) (sn_sink s) (sn_deferredQueue s)"
proof (cases "sn_deferredQueue s = []")
  case True
  then show ?thesis using assms by (simp add: retryDeferred_def same_cursor_def)
next
  case False
  let ?s = "s\<lparr>sn_deferredQueue := [], sn_deferredKeys := {}\<rparr>"
  obtain t n where t: "foldl (retry_step C S now) (?s, 0) (sn_deferredQueue s) = (t, n)"
    by (cases "foldl (retry_step C S now) (?s, 0) (sn_deferredQueue s)")
  have "queue_ok C ?s" by (simp add: queue_ok_def)
  from retry_ok [OF t this] show ?thesis using False t by (simp add: retryDeferred_def same_cursor_def)
qed

lemma onRecords_ok:
  assumes "queue_ok C s" "onRecords C S s start recs now = (s', out)"
  shows "queue_ok C s'"
    and "length recs > 256 \<Longrightarrow> s' = s"
    and "length recs \<le> 256 \<Longrightarrow> sn_sink s' = foldl (offer S now) (sn_sink s) recs \<and>
      sn_helloSent s' = sn_helloSent s \<and> sn_helloReceived s' = sn_helloReceived s \<and>
      sn_remoteLength s' = sn_remoteLength s \<and> sn_outstanding s' = tl (sn_outstanding s) \<and>
      (if start \<le> sn_fetchedThrough s
       then sn_fetchedThrough s' = max (sn_fetchedThrough s) (start + int (length recs)) \<and>
         sn_requestedThrough s' = sn_fetchedThrough s'
       else sn_fetchedThrough s' = sn_fetchedThrough s \<and> sn_requestedThrough s' = sn_requestedThrough s)"
proof -
  obtain t o1 where t: "foldl (on_record C S now) (s, EMPTY) recs = (t, o1)"
    by (cases "foldl (on_record C S now) (s, EMPTY) recs")
  note f = fold_records_ok [OF assms(1) t]
  show "length recs > 256 \<Longrightarrow> s' = s" using assms(2) by (simp add: onRecords_def)
  show "length recs \<le> 256 \<Longrightarrow> sn_sink s' = foldl (offer S now) (sn_sink s) recs \<and>
      sn_helloSent s' = sn_helloSent s \<and> sn_helloReceived s' = sn_helloReceived s \<and>
      sn_remoteLength s' = sn_remoteLength s \<and> sn_outstanding s' = tl (sn_outstanding s) \<and>
      (if start \<le> sn_fetchedThrough s
       then sn_fetchedThrough s' = max (sn_fetchedThrough s) (start + int (length recs)) \<and>
         sn_requestedThrough s' = sn_fetchedThrough s'
       else sn_fetchedThrough s' = sn_fetchedThrough s \<and> sn_requestedThrough s' = sn_requestedThrough s)"
    using assms(2) t f by (auto simp: onRecords_def advance_def Let_def same_cursor_def)
  show "queue_ok C s'"
    using assms t f by (auto simp: onRecords_def advance_def Let_def split: if_splits)
qed

lemma expireWants_ok:
  assumes "session_inv C s"
  shows "session_inv C (expireWants s now) \<and> sn_sink (expireWants s now) = sn_sink s \<and>
    sn_remoteLength (expireWants s now) = sn_remoteLength s \<and>
    sn_helloReceived (expireWants s now) = sn_helloReceived s"
  using assms length_dropWhile_le [of "\<lambda>issued. now - issued \<ge> 60" "sn_outstanding s"]
  by (auto simp: expireWants_def Let_def session_inv_def)

lemma nextWant_ok:
  assumes "session_inv C s" "nextWant s now = (s', w)"
  shows "session_inv C s' \<and> sn_sink s' = sn_sink s \<and>
    (w \<noteq> None \<longrightarrow> (\<exists>start n. w = Some (WANT start n) \<and> 0 \<le> start \<and> 0 < n \<and> n \<le> 256 \<and> start + n \<le> sn_remoteLength s))"
proof -
  note e = expireWants_ok [OF assms(1), of now]
  then show ?thesis
    using assms by (auto simp: nextWant_def Let_def session_inv_def min_def split: if_splits)
qed

lemma receive_inv:
  assumes "session_inv C s" "receive C S s m now = Inr (s', out)"
  shows "session_inv C s'"
proof -
  have rec: "session_inv C t" if "onRecords C S s start recs now = (t, o1)" for start recs t o1
  proof -
    have q: "queue_ok C s" using assms(1) by (simp add: session_inv_def)
    note r = onRecords_ok [OF q that]
    show ?thesis
    proof (cases "length recs > 256")
      case True
      then show ?thesis using r(2) assms(1) by simp
    next
      case False
      then show ?thesis using r(1,3) assms(1) by (auto simp: session_inv_def split: if_splits)
    qed
  qed
  show ?thesis
  proof (cases m)
    case (HELLO v len digest)
    then show ?thesis
      using assms by (auto simp: receive_def onHello_def session_inv_def split: if_splits)
  next
    case (WANT start n)
    then show ?thesis using assms by (auto simp: receive_def onWant_def Let_def split: if_splits)
  next
    case (RECORDS start recs)
    then show ?thesis using assms rec by (auto simp: receive_def split: if_splits)
  next
    case (CHECKPOINT a b c d)
    then show ?thesis using assms by (auto simp: receive_def split: if_splits)
  next
    case (EQUIVOCATION a b)
    then show ?thesis using assms by (auto simp: receive_def onEquivocation_def split: if_splits sum.splits)
  qed
qed

lemma conversation_inv: "conversation C S ok s \<Longrightarrow> session_inv C s"
proof (induction rule: conversation.induct)
  case (start k)
  show ?case by (simp add: new_session_def session_inv_def queue_ok_def)
next
  case (greet s)
  then show ?case by (auto simp: session_open_def session_inv_def)
next
  case (message s m now s' out)
  then show ?case using receive_inv by blast
next
  case (ask s now)
  then show ?case using nextWant_ok [of C s now] by (cases "nextWant s now") auto
next
  case (retry s now)
  then show ?case using retryDeferred_ok [of C s S now] by (simp add: session_inv_def same_cursor_def)
next
  case (elsewhere s k)
  then show ?case by (simp add: session_inv_def)
qed

lemma on_record_replies: "oc_replies (snd (on_record C S now st b)) = oc_replies (snd st)"
proof (cases st)
  case (Pair s out)
  obtain k v where "sk_append S (sn_sink s) b now = (k, v)" by (cases "sk_append S (sn_sink s) b now")
  then show ?thesis
    by (cases v; cases "the v") (simp_all add: on_record_def Pair Let_def)
qed

lemma fold_records_replies: "oc_replies (snd (foldl (on_record C S now) st recs)) = oc_replies (snd st)"
  by (induction recs arbitrary: st) (simp_all add: on_record_replies)

subsection \<open>What a session does to its sink\<close>

context replication_sink
begin

lemma offers_grow:
  "ok k \<Longrightarrow> ok (foldl (offer S now) k recs) \<and>
    (\<exists>new. held (foldl (offer S now) k recs) = held k @ new \<and> set new \<subseteq> set recs)"
proof (induction recs arbitrary: k)
  case (Cons b recs)
  have "ok (offer S now k b) \<and> (held (offer S now k b) = held k \<or> held (offer S now k b) = held k @ [b])"
    using Cons.prems sink_append [OF Cons.prems, of b now] by (cases "sk_append S k b now") (simp add: offer_def)
  with Cons.IH [of "offer S now k b"] show ?case by auto
qed simp

lemma retries_grow:
  "ok k \<Longrightarrow> ok (foldl (\<lambda>k h. fst (sk_append S k (fst h) now)) k hs)"
proof (induction hs arbitrary: k)
  case (Cons h hs)
  have "ok (fst (sk_append S k (fst h) now))"
    using sink_append [OF Cons.prems, of "fst h" now] by (cases "sk_append S k (fst h) now") simp
  with Cons.IH show ?case by simp
qed simp

lemma receive_grows:
  assumes "session_inv C s" "ok (sn_sink s)" "receive C S s m now = Inr (s', out)"
  shows "ok (sn_sink s') \<and> (\<exists>new. held (sn_sink s') = held (sn_sink s) @ new \<and>
    (case m of RECORDS start recs \<Rightarrow> set new \<subseteq> set recs | _ \<Rightarrow> new = []))"
proof (cases m)
  case (RECORDS start recs)
  have q: "queue_ok C s" using assms(1) by (simp add: session_inv_def)
  show ?thesis
  proof (cases "sn_helloReceived s \<and> length recs \<le> 256")
    case True
    then have "onRecords C S s start recs now = (s', out)" using assms(3) RECORDS by (simp add: receive_def)
    then have "sn_sink s' = foldl (offer S now) (sn_sink s) recs" using onRecords_ok(3) [OF q] True by blast
    then show ?thesis using offers_grow [OF assms(2)] RECORDS by simp
  next
    case False
    then have "s' = s" using assms(3) RECORDS by (auto simp: receive_def onRecords_def split: if_splits)
    then show ?thesis using assms(2) RECORDS by simp
  qed
qed (use assms(2,3) in \<open>auto simp: receive_def onHello_def onWant_def onEquivocation_def Let_def
  split: if_splits sum.splits\<close>)

lemma conversation_ok: "conversation C S ok s \<Longrightarrow> ok (sn_sink s)"
proof (induction rule: conversation.induct)
  case (message s m now s' out)
  then show ?case using receive_grows [OF conversation_inv] by blast
next
  case (ask s now)
  obtain t w where t: "nextWant s now = (t, w)" by (cases "nextWant s now")
  have "sn_sink t = sn_sink s" using nextWant_ok [OF conversation_inv [OF ask.hyps] t] by simp
  then show ?case using t ask.IH by simp
next
  case (retry s now)
  then have "queue_ok C s" using conversation_inv by (auto simp: session_inv_def)
  from retryDeferred_ok [OF this, of S now] show ?case using retries_grow retry.IH by simp
qed (simp_all add: new_session_def session_open_def)

text \<open>What a reply contains, and that it fits on the wire.\<close>

lemma reply_spec:
  assumes "ok (sn_sink s)" "receive C S s m now = Inr (s', out)" "x \<in> set (oc_replies out)"
    and "\<And>start n. m = WANT start n \<Longrightarrow> 0 \<le> start \<and> start \<le> MAX_SAFE_INTEGER"
  obtains start n c bs where "m = WANT start n" "0 < c" "int c \<le> n" "n \<le> 256"
    "x = RECORDS start (take c (drop (nat start) (held (sn_sink s))))"
    "encodeMessage x = Inr bs" "length bs \<le> 65536" "s' = s"
proof -
  have "\<exists>start n. m = WANT start n \<and> onWant S s start n = (s', out)"
  proof (cases m)
    case (RECORDS start recs)
    show ?thesis
      using assms(2,3) RECORDS fold_records_replies [of C S now "(s, EMPTY)" recs]
      by (auto simp: receive_def onRecords_def EMPTY_def Let_def split: if_splits prod.splits)
  qed (use assms(2,3) in \<open>auto simp: receive_def onHello_def onEquivocation_def EMPTY_def split: if_splits sum.splits\<close>)
  then obtain start n where m: "m = WANT start n" "onWant S s start n = (s', out)" by blast
  note range = assms(4) [OF m(1)]
  from assms(1) conjunct1 [OF range] show ?thesis
  proof (cases rule: onWant_spec [of s start n])
    case declined
    then show ?thesis using m assms(3) by (simp add: EMPTY_def)
  next
    case (served c)
    let ?run = "take c (drop (nat start) (held (sn_sink s)))"
    have "length ?run \<le> 256" using served(2,4) by simp
    then obtain bs where bs: "encodeMessage (RECORDS start ?run) = Inr bs" "length bs \<le> 65536"
      using encode_records [of start ?run] range served(6) by blast
    have "(s', out) = (s, EMPTY\<lparr>oc_replies := [RECORDS start ?run]\<rparr>)" using m(2) served(5) by (rule trans [OF sym])
    then have x: "s' = s" "x = RECORDS start ?run" using assms(3) by simp_all
    have "int c \<le> n" using served(2,3) by linarith
    then show ?thesis by (rule that [OF m(1) served(1) _ served(4) x(2) _ bs(2) x(1)]) (simp add: x(2) bs(1))
  qed
qed

end

lemma receive_total:
  assumes "hash_length_ok C"
  shows "\<exists>s' out. receive C S s m now = Inr (s', out)"
proof (cases m)
  case (EQUIVOCATION a b)
  then show ?thesis by (simp add: receive_def onEquivocation_def verifyEquivocation_eq [OF assms])
next
  case (RECORDS start recs)
  then show ?thesis by (cases "onRecords C S s start recs now") (simp add: receive_def)
next
  case (WANT start n)
  then show ?thesis by (cases "onWant S s start n") (simp add: receive_def)
next
  case (HELLO v len digest)
  then show ?thesis by (cases "onHello s v len") (simp add: receive_def)
next
  case (CHECKPOINT a b c d)
  then show ?thesis by (simp add: receive_def)
qed

subsection \<open>Fetching a whole log from an honest peer\<close>

text \<open>
  One round of a driver: ask, let the peer answer, take delivery of the replies. The peer's session
  is \<open>r\<close> over its own sink.
\<close>

definition deliver :: "crypto \<Rightarrow> 'k ReplicationSink \<Rightarrow> int \<Rightarrow> 'k ReplicationSession \<Rightarrow> message \<Rightarrow> 'k ReplicationSession" where
  "deliver C L now s m = (case receive C L s m now of Inl _ \<Rightarrow> s | Inr (s', _) \<Rightarrow> s')"

definition sync_round ::
  "crypto \<Rightarrow> 'k ReplicationSink \<Rightarrow> 'm ReplicationSink \<Rightarrow> 'm ReplicationSession \<Rightarrow> int \<Rightarrow> 'k ReplicationSession \<Rightarrow> 'k ReplicationSession" where
  "sync_round C L R r now s =
     (case nextWant s now of
        (s, None) \<Rightarrow> s
      | (s, Some w) \<Rightarrow>
          (case receive C R r w now of
             Inl _ \<Rightarrow> s
           | Inr (_, out) \<Rightarrow> foldl (deliver C L now) s (oc_replies out)))"

definition in_step :: "crypto \<Rightarrow> nat \<Rightarrow> nat \<Rightarrow> 'k ReplicationSession \<Rightarrow> bool" where
  "in_step C len i s \<longleftrightarrow>
     sn_helloReceived s \<and> sn_outstanding s = [] \<and> sn_fetchedThrough s = int i \<and>
     sn_requestedThrough s = int i \<and> sn_remoteLength s = int len \<and> queue_ok C s"

context replication_sink
begin

lemma sync_round_step:
  assumes "ok (sn_sink r)" "sn_helloReceived r" "len = length (held (sn_sink r))"
    and "in_step C len i s" "i \<le> len"
  shows "\<exists>j. in_step C len j (sync_round C L S r now s) \<and> i \<le> j \<and> j \<le> len \<and> (i < len \<longrightarrow> i < j) \<and>
    sn_sink (sync_round C L S r now s) = foldl (offer L now) (sn_sink s) (take (j - i) (drop i (held (sn_sink r))))"
proof (cases "i < len")
  case False
  then have "nextWant s now = (s, None)"
    using assms(4,5) by (simp add: nextWant_def expireWants_def Let_def in_step_def)
  then show ?thesis using assms(4,5) False by (intro exI [of _ i]) (simp add: sync_round_def)
next
  case True
  let ?n = "min 256 (int len - int i)"
  let ?s = "s\<lparr>sn_outstanding := [now], sn_requestedThrough := int i + ?n\<rparr>"
  have want: "nextWant s now = (?s, Some (WANT (int i) ?n))"
    using assms(4) True by (simp add: nextWant_def expireWants_def Let_def in_step_def)
  have pos: "0 \<le> int i" by simp
  from assms(1) pos show ?thesis
  proof (cases rule: onWant_spec [of r "int i" ?n])
    case declined
    then show ?thesis using True assms(3) by auto
  next
    case (served m)
    let ?run = "take m (drop i (held (sn_sink r)))"
    have len: "length ?run = m" using served(2) True assms(3) by simp
    have reply: "receive C S r (WANT (int i) ?n) now = Inr (r, EMPTY\<lparr>oc_replies := [RECORDS (int i) ?run]\<rparr>)"
      using served(5) assms(2) by (simp add: receive_def)
    obtain t out where t: "onRecords C L ?s (int i) ?run now = (t, out)" by (cases "onRecords C L ?s (int i) ?run now")
    have "queue_ok C ?s" using assms(4) by (simp add: in_step_def)
    note after = onRecords_ok(1) [OF this t] onRecords_ok(3) [OF this t]
    have "m \<le> 256" using served(2,4) by simp
    have "deliver C L now ?s (RECORDS (int i) ?run) = t"
      using t assms(4) by (simp add: deliver_def receive_def in_step_def)
    then have round: "sync_round C L S r now s = t"
      by (simp add: sync_round_def want reply EMPTY_def)
    have "in_step C len (i + m) t"
      using after assms(4) len \<open>m \<le> 256\<close> by (simp add: in_step_def)
    moreover have "sn_sink t = foldl (offer L now) (sn_sink s) ?run" using after(2) len \<open>m \<le> 256\<close> by simp
    moreover have "i + m \<le> len" using served(2) True by linarith
    ultimately show ?thesis using round served(1) by (intro exI [of _ "i + m"]) simp
  qed
qed

lemma sync_rounds:
  assumes "ok (sn_sink r)" "sn_helloReceived r" "len = length (held (sn_sink r))" "in_step C len 0 s"
  shows "\<exists>j. in_step C len j ((sync_round C L S r now ^^ n) s) \<and> min n len \<le> j \<and> j \<le> len \<and>
    sn_sink ((sync_round C L S r now ^^ n) s) = foldl (offer L now) (sn_sink s) (take j (held (sn_sink r)))"
proof (induction n)
  case (Suc n)
  then obtain j where j: "in_step C len j ((sync_round C L S r now ^^ n) s)" "min n len \<le> j" "j \<le> len"
    "sn_sink ((sync_round C L S r now ^^ n) s) = foldl (offer L now) (sn_sink s) (take j (held (sn_sink r)))"
    by blast
  obtain l where l: "in_step C len l ((sync_round C L S r now ^^ Suc n) s)" "j \<le> l" "l \<le> len" "j < len \<longrightarrow> j < l"
    "sn_sink ((sync_round C L S r now ^^ Suc n) s) =
      foldl (offer L now) (sn_sink ((sync_round C L S r now ^^ n) s)) (take (l - j) (drop j (held (sn_sink r))))"
    using sync_round_step [OF assms(1-3) j(1,3)] by auto
  have "take l (held (sn_sink r)) = take j (held (sn_sink r)) @ take (l - j) (drop j (held (sn_sink r)))"
    using l(2) by (metis le_add_diff_inverse take_add)
  then show ?case using j l by (intro exI [of _ l]) auto
qed (use assms(4) in \<open>simp add: in_step_def\<close>)

lemma sync_done:
  assumes "ok (sn_sink r)" "sn_helloReceived r" "len = length (held (sn_sink r))" "in_step C len 0 s" "len \<le> n"
  shows "in_step C len len ((sync_round C L S r now ^^ n) s) \<and>
    sn_sink ((sync_round C L S r now ^^ n) s) = foldl (offer L now) (sn_sink s) (held (sn_sink r))"
proof -
  obtain j where "in_step C len j ((sync_round C L S r now ^^ n) s)" "min n len \<le> j" "j \<le> len"
    "sn_sink ((sync_round C L S r now ^^ n) s) = foldl (offer L now) (sn_sink s) (take j (held (sn_sink r)))"
    using sync_rounds [OF assms(1-4), where L = L and now = now and n = n] by blast
  moreover from this have "j = len" using assms(5) by simp
  ultimately show ?thesis using assms(3) by simp
qed

end

end
