(* ===== verification/Session_Safety.thy ===== *)
theory Session_Safety
  imports Session
begin

section \<open>What a replication session guarantees\<close>

text \<open>
  Properties of \<open>ReplicationSession\<close> of registry/src/replicate.ts: its bounds under arbitrary input,
  what a remote peer can do to the store behind it, that a log is fetched whole from an honest peer,
  and two ways in which replication falls short of what its comments say.
\<close>

subsection \<open>Bounds\<close>

text \<open>
  C15. The bounds of a session. However a conversation goes - any messages, any clock, any sink - the
  list of outstanding requests has at most eight entries and at most 1,024 records are held for later, no record twice;
  delivery never gets ahead of the requests; and a request asks for one to 256 records below the
  length the remote claimed. The list is what the session counts, not what is unanswered on the wire:
  a reply that arrives after its deadline takes the entry of another request, as the code notes, so
  after late replies more than eight requests can be unanswered.
\<close>

theorem session_bounded:
  assumes "conversation C S ok s"
  shows "length (sn_outstanding s) \<le> 8 \<and> length (sn_deferredQueue s) \<le> 1024 \<and>
    distinct (map fst (sn_deferredQueue s)) \<and>
    sn_deferredKeys s = key_of C ` fst ` set (sn_deferredQueue s) \<and>
    0 \<le> sn_fetchedThrough s \<and> sn_fetchedThrough s \<le> sn_requestedThrough s \<and>
    sn_requestedThrough s \<le> max (sn_fetchedThrough s) (sn_remoteLength s) \<and>
    (case snd (nextWant s now) of
       None \<Rightarrow> True
     | Some w \<Rightarrow> \<exists>start n. w = WANT start n \<and> 0 \<le> start \<and> 0 < n \<and> n \<le> 256 \<and> start + n \<le> sn_remoteLength s)"
proof -
  have inv: "session_inv C s" by (rule conversation_inv [OF assms])
  then have "distinct (map (key_of C) (map fst (sn_deferredQueue s)))"
    by (simp add: session_inv_def queue_ok_def comp_def)
  then have "distinct (map fst (sn_deferredQueue s))" unfolding distinct_map [of "key_of C"] by simp
  moreover have "sn_deferredKeys s = key_of C ` fst ` set (sn_deferredQueue s)"
    using inv by (auto simp: session_inv_def queue_ok_def)
  ultimately show ?thesis
    using inv nextWant_ok [OF inv, of now "fst (nextWant s now)" "snd (nextWant s now)"]
    by (auto simp: session_inv_def queue_ok_def split: option.splits)
qed

text \<open>A sink that defers everything, to fill the queue.\<close>

definition lazy_sink :: "unit ReplicationSink" where
  "lazy_sink = \<lparr>sk_append = (\<lambda>k _ _. (k, Some Defer)), sk_length = (\<lambda>_. 0), sk_encodingAt = (\<lambda>_ _. None),
     sk_treeRoot = (\<lambda>_. None)\<rparr>"

definition greeted :: "'k \<Rightarrow> int \<Rightarrow> 'k ReplicationSession" where
  "greeted k len = fst (onHello (new_session k) PROTOCOL_VERSION len)"

lemma greeted_simps [simp]:
  "sn_sink (greeted k len) = k" "sn_helloReceived (greeted k len)" "sn_remoteLength (greeted k len) = len"
  "sn_outstanding (greeted k len) = []" "sn_fetchedThrough (greeted k len) = 0"
  "sn_requestedThrough (greeted k len) = 0" "sn_deferredQueue (greeted k len) = []"
  "sn_deferredKeys (greeted k len) = {}"
  by (simp_all add: greeted_def onHello_def new_session_def)

lemma greeted_conversation:
  assumes "ok k"
  shows "conversation C S ok (greeted k len)"
proof (rule conversation.message [OF conversation.start [of ok k, OF assms]])
  show "receive C S (new_session k) (HELLO PROTOCOL_VERSION len digest) now =
      Inr (greeted k len, snd (onHello (new_session k) PROTOCOL_VERSION len))" for digest now
    by (cases "onHello (new_session k) PROTOCOL_VERSION len") (simp add: receive_def greeted_def)
qed

theorem session_bounded_witness:
  "length (sn_deferredQueue (fst (onRecords sample_crypto lazy_sink (greeted () 5) 0 [[1], [2], [1]] 7))) = 2 \<and>
   distinct (map fst (sn_deferredQueue (fst (onRecords sample_crypto lazy_sink (greeted () 5) 0 [[1], [2], [1]] 7))))"
proof -
  let ?s = "greeted () 5" and ?run = "onRecords sample_crypto lazy_sink (greeted () 5) 0 [[1], [2], [1]] 7"
  have "receive sample_crypto lazy_sink ?s (RECORDS 0 [[1], [2], [1]]) 7 = Inr (fst ?run, snd ?run)"
    by (simp add: receive_def)
  then have "conversation sample_crypto lazy_sink (\<lambda>_. True) (fst ?run)"
    by (rule conversation.message [OF greeted_conversation, rotated]) simp
  from session_bounded [OF this] have d: "distinct (map fst (sn_deferredQueue (fst ?run)))" by simp
  have "key_of sample_crypto [1] \<noteq> key_of sample_crypto [2]"
    by (simp add: key_of_def toHex_inject recordHashFromBytes_def withDomain_def exec)
  then have "length (sn_deferredQueue (fst ?run)) = 2"
    by (simp add: onRecords_def on_record_def lazy_sink_def holdDeferred_def advance_def Let_def)
  with d show ?thesis by simp
qed

subsection \<open>What a remote peer can do\<close>

text \<open>
  C14. A remote peer reaches the store only through verification. In any conversation over a store,
  every message is handled without throwing; the store stays sound; its log at most grows, by records
  of the batch just received; and what is sent back is a run of the peer's own log, starting where it
  was asked, of one to 256 records, that encodes within 65,536 bytes.
\<close>

theorem receive_safe:
  assumes "hash_length_ok C" and "conversation C (sinkOver C) (sink_ok C) s"
    and "\<forall>start n. m = WANT start n \<longrightarrow> 0 \<le> start \<and> start \<le> MAX_SAFE_INTEGER"
  shows "\<exists>s' out new. receive C (sinkOver C) s m now = Inr (s', out) \<and>
    store_inv C (sn_sink s') \<and> log_signed C (sn_sink s') \<and>
    log_of (sn_sink s') = log_of (sn_sink s) @ new \<and>
    set new \<subseteq> (case m of RECORDS _ recs \<Rightarrow> set recs | _ \<Rightarrow> {}) \<and>
    (\<forall>x\<in>set (oc_replies out). \<exists>start n c bs. m = WANT start n \<and> 0 < c \<and> c \<le> 256 \<and>
       x = RECORDS start (take c (drop (nat start) (log_of (sn_sink s)))) \<and>
       encodeMessage x = Inr bs \<and> length bs \<le> 65536)"
proof -
  note ok = store_sink.conversation_ok [OF assms(2)]
  obtain s' out where r: "receive C (sinkOver C) s m now = Inr (s', out)"
    using receive_total [OF assms(1)] by blast
  obtain new where new: "sink_ok C (sn_sink s')" "log_of (sn_sink s') = log_of (sn_sink s) @ new"
    "case m of RECORDS start recs \<Rightarrow> set new \<subseteq> set recs | _ \<Rightarrow> new = []"
    using store_sink.receive_grows [OF conversation_inv [OF assms(2)] ok r] by blast
  have "\<exists>start n c bs. m = WANT start n \<and> 0 < c \<and> c \<le> 256 \<and>
       x = RECORDS start (take c (drop (nat start) (log_of (sn_sink s)))) \<and>
       encodeMessage x = Inr bs \<and> length bs \<le> 65536" if x: "x \<in> set (oc_replies out)" for x
    by (rule store_sink.reply_spec [OF ok r x]) (use assms(3) in force)+
  moreover have "set new \<subseteq> (case m of RECORDS _ recs \<Rightarrow> set recs | _ \<Rightarrow> {})"
    using new(3) by (cases m) simp_all
  ultimately show ?thesis using r new(1,2) by (auto simp: sink_ok_def store_ok_def)
qed

theorem receive_safe_witness:
  "\<exists>s' out. receive sample_crypto (sinkOver sample_crypto) (greeted (new_store None :: Ledger Store) 5) (RECORDS 0 [[1, 2]]) 7 = Inr (s', out) \<and>
     set (log_of (sn_sink s')) \<subseteq> {[1, 2]}"
proof -
  have "conversation sample_crypto (sinkOver sample_crypto) (sink_ok sample_crypto) (greeted (new_store None) 5)"
    by (rule greeted_conversation [of "sink_ok sample_crypto", OF sink_ok_new])
  from receive_safe [OF sample_hash_length this, of "RECORDS 0 [[1, 2]]" 7]
  obtain s' out new where "receive sample_crypto (sinkOver sample_crypto) (greeted (new_store None :: Ledger Store) 5)
      (RECORDS 0 [[1, 2]]) 7 = Inr (s', out)"
    "log_of (sn_sink s') = log_of (new_store None :: Ledger Store) @ new" "set new \<subseteq> {[1, 2]}"
    by auto
  moreover have "log_of (new_store None :: Ledger Store) = []" by (simp add: log_of_def new_store_def)
  ultimately show ?thesis by auto
qed

subsection \<open>Fetching a log\<close>

lemma sync_done_store:
  assumes "sink_ok C (sn_sink r)" and "sn_helloReceived r" and "length (log_of (sn_sink r)) \<le> n"
    and "session_open (sinkOver C) (new_session (sn_sink r)) = (r0, Inr hello)"
    and "receive C L (new_session k) hello earlier = Inr (s, out)"
  shows "sn_sink ((sync_round C L (sinkOver C) r now ^^ n) s) = foldl (offer L now) k (log_of (sn_sink r)) \<and>
    sn_fetchedThrough ((sync_round C L (sinkOver C) r now ^^ n) s) = int (length (log_of (sn_sink r))) \<and>
    snd (nextWant ((sync_round C L (sinkOver C) r now ^^ n) s) later) = None"
proof -
  have "sk_length (sinkOver C) (sn_sink r) = int (length (log_of (sn_sink r)))"
    by (rule store_sink.sink_length [OF assms(1)])
  then have "s = greeted k (int (length (log_of (sn_sink r))))"
    using assms(4,5)
    by (auto simp: session_open_def new_session_def receive_def onHello_def greeted_def split: option.splits)
  then have "in_step C (length (log_of (sn_sink r))) 0 s" "sn_sink s = k"
    by (simp_all add: in_step_def queue_ok_def)
  with store_sink.sync_done [OF assms(1,2) refl _ assms(3), where s = s and L = L and now = now] show ?thesis
    by (simp add: in_step_def nextWant_def expireWants_def Let_def)
qed

text \<open>
  C16. A log is fetched whole. A peer that has greeted another one and keeps asking is done after at
  most as many rounds as the other's log has entries: every entry has been offered to its own store
  exactly once, in the order of the log, and there is nothing left to ask for.
\<close>

theorem sync_completes:
  assumes "sink_ok C (sn_sink r)" and "sn_helloReceived r" and "length (log_of (sn_sink r)) \<le> n"
    and "session_open (sinkOver C) (new_session (sn_sink r)) = (r0, Inr hello)"
    and "receive C L (new_session k) hello earlier = Inr (s, out)"
  shows "sn_sink ((sync_round C L (sinkOver C) r now ^^ n) s) = foldl (offer L now) k (log_of (sn_sink r)) \<and>
    sn_fetchedThrough ((sync_round C L (sinkOver C) r now ^^ n) s) = int (length (log_of (sn_sink r))) \<and>
    snd (nextWant ((sync_round C L (sinkOver C) r now ^^ n) s) later) = None"
  by (rule sync_done_store [OF assms])

lemma sample_peer:
  obtains q r0 digest and r :: "Ledger Store ReplicationSession" where "sink_ok sample_crypto q" "st_entries q = [first_entry 7 1000000]"
    "sn_sink r = q" "sn_helloReceived r"
    "session_open (sinkOver sample_crypto) (new_session q) = (r0, Inr (HELLO 1 1 digest))"
proof -
  have c: "sample_claim 7 1000000" by (simp add: sample_claim_def)
  obtain q where q: "reachable sample_crypto q" "st_entries q = [first_entry 7 1000000]"
    using first_claim [OF c, of 1000001] by auto
  have ok: "sink_ok sample_crypto q"
    using reachable_ok [OF sample_hash_length q(1)] sample_hash_length by (simp add: sink_ok_def)
  have "length (claim_bytes 7 1000000) \<le> 400" using claim_encode [OF c] by simp
  then have small: "int (total [claim_bytes 7 1000000]) \<le> MAX_SAFE_INTEGER" by (simp add: MAX_SAFE_INTEGER_def)
  obtain t where t: "treeOf sample_crypto [claim_bytes 7 1000000] = Inr t"
    "tree_inv sample_crypto [claim_bytes 7 1000000] t"
    using treeOf_inv [OF small] by blast
  then obtain ks where "mt_peaks t = peak_list sample_crypto 0 ks [claim_bytes 7 1000000]"
    "span_sum ks = length [claim_bytes 7 1000000]"
    by (auto simp: tree_inv_def)
  then obtain digest where "tree_root sample_crypto t = Inr digest"
    using treeHash_peaks [of ks _ sample_crypto, OF _ small] by (auto simp: tree_root_def MAX_SAFE_INTEGER_def)
  then have "store_treeRoot sample_crypto q = Inr digest" using q(2) t(1) by (simp add: store_treeRoot_def)
  then have "snd (session_open (sinkOver sample_crypto) (new_session q)) = Inr (HELLO 1 1 digest)"
    using q(2) by (simp add: session_open_def new_session_def sinkOver_def PROTOCOL_VERSION_def)
  then show thesis
    using that [OF ok q(2), of "greeted q 0"] by (cases "session_open (sinkOver sample_crypto) (new_session q)") simp
qed

theorem sync_completes_witness:
  "\<exists>(q :: Ledger Store) r (s :: Ledger Store ReplicationSession). log_of q = [claim_bytes 7 1000000] \<and> sn_sink r = q \<and>
     log_of (sn_sink ((sync_round sample_crypto (sinkOver sample_crypto) (sinkOver sample_crypto) r 1000001 ^^ 1) s)) =
       [claim_bytes 7 1000000]"
proof -
  have c: "sample_claim 7 1000000" by (simp add: sample_claim_def)
  let ?S = "sinkOver sample_crypto" and ?n = "new_store None :: Ledger Store"
  obtain q r0 digest and r :: "Ledger Store ReplicationSession" where p: "sink_ok sample_crypto q" "st_entries q = [first_entry 7 1000000]"
    "sn_sink r = q" "sn_helloReceived r" "session_open ?S (new_session q) = (r0, Inr (HELLO 1 1 digest))"
    by (rule sample_peer)
  obtain t where t: "store_append sample_crypto ?n (claim_bytes 7 1000000) 1000001 = Inr (t, Accept (claim 7 1000000) None False)"
    "st_entries t = [first_entry 7 1000000]"
    using first_claim [OF c, of 1000001] by auto
  have log: "log_of q = [claim_bytes 7 1000000]" using p(2) by (simp add: log_of_def)
  have "length (claim_bytes 7 1000000) \<le> 4096" using claim_encode [OF c] by simp
  then have "foldl (offer ?S 1000001) ?n (log_of q) = t" using t(1) by (simp add: log offer_def sinkOver_def)
  moreover have "receive sample_crypto ?S (new_session ?n) (HELLO 1 1 digest) 1000001 =
      Inr (greeted ?n 1, EMPTY)"
    by (simp add: receive_def greeted_def onHello_def new_session_def PROTOCOL_VERSION_def)
  moreover have "sink_ok sample_crypto (sn_sink r)" "length (log_of (sn_sink r)) \<le> 1" using p(1,3) log by simp_all
  ultimately have "sn_sink ((sync_round sample_crypto ?S ?S r 1000001 ^^ 1) (greeted ?n 1)) = t"
    using sync_completes [of sample_crypto r 1 r0 "HELLO 1 1 digest" ?S ?n] p(3-5) by simp
  then show ?thesis
    using log p(3) t(2)
    by (intro exI [of _ q] exI [of _ r] exI [of _ "greeted ?n 1"] conjI) (simp_all add: log_of_def)
qed

subsection \<open>History cannot be fetched\<close>

lemma accept_in_clock:
  assumes "verify C bs view now ign = Inr (Accept r None False)"
  shows "in_clock r now"
  using assms
proof (cases rule: verify_accept_cases)
  case (register input)
  then show ?thesis by (simp add: register_ok_def)
next
  case (successor input p)
  then show ?thesis by (simp add: successor_ok_def Let_def)
qed

lemma stale_offer:
  assumes "sink_ok C s" "\<forall>r. parseRecordBytes bs = Inr r \<longrightarrow> r_notBefore r < now - 86400"
  shows "sink_ok C (offer (sinkOver C) now s bs) \<and> st_entries (offer (sinkOver C) now s bs) = st_entries s"
proof -
  obtain s' v where a: "sk_append (sinkOver C) s bs now = (s', v)" by (cases "sk_append (sinkOver C) s bs now")
  note ok = sink_append_step(1) [OF assms(1) a]
  have inv: "hash_length_ok C" "store_inv C s" "ledger.watched C s"
    using assms(1) by (simp_all add: sink_ok_def store_ok_def)
  have stale: "\<not> in_clock r now" if "parseRecordBytes bs = Inr r" for r
    using assms(2) that by (auto simp: in_clock_def)
  have "st_entries s' = st_entries s"
  proof (cases "no_collision C s bs")
    case True
    from inv True show ?thesis
    proof (cases rule: ledger.store_append_cases [of C s bs now])
      case (appended t r)
      then show ?thesis using stale accept_in_clock verify_accept_parse(1) by blast
    next
      case (merged t r held e voided)
      then show ?thesis using stale accept_in_clock by (fastforce simp: beats_def)
    qed (use a in \<open>auto simp: sinkOver_def same_log_def\<close>)
  next
    case False
    then have "store_has C s bs" using inv(2) by (auto simp: store_has_entry no_collision_def)
    then show ?thesis using a by (auto simp: sinkOver_def store_append_def split: sum.splits)
  qed
  then show ?thesis using ok a assms(1) by (simp add: offer_def)
qed

lemma stale_offers:
  "sink_ok C s \<Longrightarrow> \<forall>bs\<in>set recs. \<forall>r. parseRecordBytes bs = Inr r \<longrightarrow> r_notBefore r < now - 86400 \<Longrightarrow>
    st_entries (foldl (offer (sinkOver C) now) s recs) = st_entries s"
proof (induction recs arbitrary: s)
  case (Cons b recs)
  then show ?case using stale_offer [of C s b now] by simp
qed simp

text \<open>
  C17. A peer that joins late learns nothing. When every record of an honest peer's log started more
  than a day ago, a peer that fetches that log to the end - all of it delivered, nothing left to ask
  for - adds none of it to its own: the session judges old records by its clock of today, and they
  are \<open>BACKDATED\<close>.
\<close>

theorem late_peer_learns_nothing:
  assumes "sink_ok C (sn_sink r)" and "sn_helloReceived r" and "length (log_of (sn_sink r)) \<le> n"
    and "session_open (sinkOver C) (new_session (sn_sink r)) = (r0, Inr hello)"
    and "receive C (sinkOver C) (new_session k) hello earlier = Inr (s, out)" and "sink_ok C k"
    and "\<forall>e\<in>set (st_entries (sn_sink r)). r_notBefore (le_record e) < now - 86400"
  shows "st_entries (sn_sink ((sync_round C (sinkOver C) (sinkOver C) r now ^^ n) s)) = st_entries k \<and>
    sn_fetchedThrough ((sync_round C (sinkOver C) (sinkOver C) r now ^^ n) s) = int (length (st_entries (sn_sink r))) \<and>
    snd (nextWant ((sync_round C (sinkOver C) (sinkOver C) r now ^^ n) s) later) = None"
proof -
  note fetched = sync_done_store [OF assms(1-5)]
  have "\<forall>bs\<in>set (log_of (sn_sink r)). \<forall>q. parseRecordBytes bs = Inr q \<longrightarrow> r_notBefore q < now - 86400"
    using assms(1,7) entry_ok_in(2) [of C "sn_sink r"] by (fastforce simp: log_of_def sink_ok_def store_ok_def)
  then show ?thesis
    using stale_offers [OF assms(6)] fetched by (simp add: log_of_def)
qed

theorem late_peer_learns_nothing_witness:
  "\<exists>(q :: Ledger Store) r (s :: Ledger Store ReplicationSession). log_of q = [claim_bytes 7 1000000] \<and> sn_sink r = q \<and>
     sn_fetchedThrough ((sync_round sample_crypto (sinkOver sample_crypto) (sinkOver sample_crypto) r 2000000 ^^ 1) s) = 1 \<and>
     st_entries (sn_sink ((sync_round sample_crypto (sinkOver sample_crypto) (sinkOver sample_crypto) r 2000000 ^^ 1) s)) = []"
proof -
  let ?S = "sinkOver sample_crypto" and ?n = "new_store None :: Ledger Store"
  obtain q r0 digest and r :: "Ledger Store ReplicationSession" where p: "sink_ok sample_crypto q" "st_entries q = [first_entry 7 1000000]"
    "sn_sink r = q" "sn_helloReceived r" "session_open ?S (new_session q) = (r0, Inr (HELLO 1 1 digest))"
    by (rule sample_peer)
  have log: "log_of q = [claim_bytes 7 1000000]" using p(2) by (simp add: log_of_def)
  have "receive sample_crypto ?S (new_session ?n) (HELLO 1 1 digest) 1000001 = Inr (greeted ?n 1, EMPTY)"
    by (simp add: receive_def greeted_def onHello_def new_session_def PROTOCOL_VERSION_def)
  moreover have "sink_ok sample_crypto (sn_sink r)" "length (log_of (sn_sink r)) \<le> 1" using p(1,3) log by simp_all
  ultimately have "st_entries (sn_sink ((sync_round sample_crypto ?S ?S r 2000000 ^^ 1) (greeted ?n 1))) = st_entries ?n \<and>
      sn_fetchedThrough ((sync_round sample_crypto ?S ?S r 2000000 ^^ 1) (greeted ?n 1)) = 1"
    using late_peer_learns_nothing [where C = sample_crypto and r = r and n = 1 and r0 = r0 and k = ?n
        and hello = "HELLO 1 1 digest" and now = 2000000 and earlier = 1000001 and s = "greeted ?n 1" and out = EMPTY]
      p(2-5) by (simp add: sink_ok_new)
  then show ?thesis
    using log p(3)
    by (intro exI [of _ q] exI [of _ r] exI [of _ "greeted ?n 1"] conjI) (simp_all add: new_store_def)
qed

subsection \<open>A session that stops asking\<close>

text \<open>
  C18. A slow answer can stop a session for good. A session that has everything of a 512-record log
  still to fetch asks for both halves; neither arrives within the deadline and it asks for both again;
  then the answers to the second half arrive, the late one and the new one, while the first half is
  declined, as it may be. Nothing is outstanding, nothing will expire, and no matter how long it waits
  the session never asks again, with nothing fetched.
\<close>

theorem session_stalls:
  assumes "sn_helloReceived s" and "sn_outstanding s = []" and "sn_fetchedThrough s = 0"
    and "sn_requestedThrough s = 0" and "sn_remoteLength s = 512" and "queue_ok C s"
    and "length recs \<le> 256" and "t + 60 \<le> t'"
  shows "\<exists>s1 s2 s3 s4 s5 s6 o5 o6.
    nextWant s t = (s1, Some (WANT 0 256)) \<and> nextWant s1 t = (s2, Some (WANT 256 256)) \<and>
    nextWant s2 t' = (s3, Some (WANT 0 256)) \<and> nextWant s3 t' = (s4, Some (WANT 256 256)) \<and>
    receive C S s4 (RECORDS 256 recs) t' = Inr (s5, o5) \<and> receive C S s5 (RECORDS 256 recs) t' = Inr (s6, o6) \<and>
    sn_fetchedThrough s6 = 0 \<and> sn_remoteLength s6 = 512 \<and> (\<forall>later. nextWant s6 later = (s6, None))"
proof -
  let ?s1 = "s\<lparr>sn_outstanding := [t], sn_requestedThrough := 256\<rparr>"
  let ?s2 = "s\<lparr>sn_outstanding := [t, t], sn_requestedThrough := 512\<rparr>"
  let ?s3 = "s\<lparr>sn_outstanding := [t'], sn_requestedThrough := 256\<rparr>"
  let ?s4 = "s\<lparr>sn_outstanding := [t', t'], sn_requestedThrough := 512\<rparr>"
  have asks: "nextWant s t = (?s1, Some (WANT 0 256))" "nextWant ?s1 t = (?s2, Some (WANT 256 256))"
    "nextWant ?s2 t' = (?s3, Some (WANT 0 256))" "nextWant ?s3 t' = (?s4, Some (WANT 256 256))"
    using assms(1-5,8) by (simp_all add: nextWant_def expireWants_def Let_def)
  obtain s5 o5 where s5: "onRecords C S ?s4 256 recs t' = (s5, o5)" by (cases "onRecords C S ?s4 256 recs t'")
  have "queue_ok C ?s4" using assms(6) by simp
  note a5 = onRecords_ok(1) [OF this s5] onRecords_ok(3) [OF this s5 assms(7)]
  obtain s6 o6 where s6: "onRecords C S s5 256 recs t' = (s6, o6)" by (cases "onRecords C S s5 256 recs t'")
  note a6 = onRecords_ok(3) [OF a5(1) s6 assms(7)]
  have "sn_outstanding s6 = []" "sn_helloReceived s6" "sn_remoteLength s6 = 512" "sn_requestedThrough s6 = 512"
    "sn_fetchedThrough s6 = 0"
    using a5(2) a6 assms(1,3,5) by simp_all
  moreover from this have "nextWant s6 later = (s6, None)" for later
    by (simp add: nextWant_def expireWants_def Let_def)
  moreover have "receive C S ?s4 (RECORDS 256 recs) t' = Inr (s5, o5)" "receive C S s5 (RECORDS 256 recs) t' = Inr (s6, o6)"
    using s5 s6 a5(2) assms(1) by (simp_all add: receive_def)
  ultimately show ?thesis using asks by blast
qed

theorem session_stalls_witness:
  "\<exists>s. sn_fetchedThrough s = 0 \<and> sn_remoteLength s = 512 \<and> (\<forall>later. nextWant (s :: unit ReplicationSession) later = (s, None))"
  using session_stalls [of "greeted () 512" sample_crypto "[[1]]" 0 60 lazy_sink] by (auto simp: queue_ok_def)

end
