(* ===== verification/Content.thy ===== *)
theory Content
  imports Signature Names Utf8
begin

section \<open>Content identifiers (registry/src/content.ts)\<close>

text \<open>
  Base32 text, multiformats varints, CIDv1 in binary and text form, and the chunks of a file.
  The 32-bit shifts of the base32 routines are kept as words. A varint argument is a natural
  number: the callers pass lengths, codes and values they have read. SHA-256 is a field of
  \<^typ>\<open>crypto\<close>.
\<close>

unbundle bit_operations_syntax

subsection \<open>Parameters and errors\<close>

record cid_parameters =
  cp_version :: nat
  cp_chunkBytes :: nat
  cp_maxLinks :: nat
  cp_codecRaw :: nat
  cp_codecDagPb :: nat
  cp_multihashSha2_256 :: nat
  cp_digestBytes :: nat

definition CID_PARAMETERS :: cid_parameters where
  "CID_PARAMETERS =
     \<lparr>cp_version = 1, cp_chunkBytes = 262144, cp_maxLinks = 174, cp_codecRaw = 0x55,
      cp_codecDagPb = 0x70, cp_multihashSha2_256 = 0x12, cp_digestBytes = 32\<rparr>"

definition MULTIBASE_BASE32 :: "16 word" where
  "MULTIBASE_BASE32 = of_char CHR ''b''"

definition BASE32_ALPHABET :: jsstr where
  "BASE32_ALPHABET = js ''abcdefghijklmnopqrstuvwxyz234567''"

text \<open>One code for each place that throws a \<open>ContentError\<close>, in content.ts and unixfs.ts.\<close>

datatype content_error =
    VARINT_VALUE | VARINT_TRUNCATED | VARINT_TOO_LONG | BASE32_CHARACTER | BASE32_PREFIX
  | CID_VERSION | CID_CODEC | CID_MULTIHASH | CID_DIGEST_LENGTH | CID_DIGEST_MISMATCH
  | CHUNK_SIZE | LEAF_SIZE | ENTRY_UNNAMED | ENTRY_DUPLICATE | PATH_NOT_RELATIVE | PATH_SEGMENT
  | STACK_OVERFLOW

subsection \<open>Base32\<close>

function base32_emit :: "nat \<Rightarrow> 32 word \<Rightarrow> jsstr \<Rightarrow> nat \<times> jsstr" where
  "base32_emit bits v out =
     (if bits \<ge> 5
      then base32_emit (bits - 5) v (out @ [BASE32_ALPHABET ! unat (drop_bit (bits - 5) v AND 31)])
      else (bits, out))"
  by pat_completeness auto
termination by (relation "measure (\<lambda>(bits, _, _). bits)") auto

declare base32_emit.simps [simp del]

fun base32_push :: "nat \<times> 32 word \<times> jsstr \<Rightarrow> byte \<Rightarrow> nat \<times> 32 word \<times> jsstr" where
  "base32_push (bits, v, out) b =
     (let v = push_bit 8 v OR ucast b in
      case base32_emit (bits + 8) v out of (bits, out) \<Rightarrow> (bits, v, out))"

definition base32Encode :: "bytes \<Rightarrow> jsstr" where
  "base32Encode bs =
     (case foldl base32_push (0, 0, []) bs of (bits, v, out) \<Rightarrow>
        if bits > 0 then out @ [BASE32_ALPHABET ! unat (push_bit (5 - bits) v AND 31)] else out)"

fun base32_pull :: "nat \<Rightarrow> 32 word \<Rightarrow> jsstr \<Rightarrow> bytes \<Rightarrow> content_error + bytes" where
  "base32_pull bits v [] out = Inr out"
| "base32_pull bits v (c # text) out =
     (case index_of c BASE32_ALPHABET of
        None \<Rightarrow> Inl BASE32_CHARACTER
      | Some i \<Rightarrow>
          let v = push_bit 5 v OR word_of_nat i; bits = bits + 5 in
          if bits \<ge> 8 then base32_pull (bits - 8) v text (out @ [ucast (drop_bit (bits - 8) v AND 0xff)])
          else base32_pull bits v text out)"

definition base32Decode :: "jsstr \<Rightarrow> content_error + bytes" where
  "base32Decode text = base32_pull 0 0 text []"

subsection \<open>Varints\<close>

function varint_bytes :: "nat \<Rightarrow> bytes" where
  "varint_bytes n =
     (if n \<ge> 0x80 then ((word_of_nat n AND 0x7f) OR 0x80) # varint_bytes (n div 128)
      else [word_of_nat n])"
  by pat_completeness auto
termination by (relation "measure id") auto

declare varint_bytes.simps [simp del]

definition varint :: "nat \<Rightarrow> content_error + bytes" where
  "varint n = failIf (int n > MAX_SAFE_INTEGER) VARINT_VALUE (Inr (varint_bytes n))"

fun readVarint_loop :: "bytes \<Rightarrow> nat \<Rightarrow> nat \<Rightarrow> content_error + nat \<times> bytes" where
  "readVarint_loop [] v shift = Inl VARINT_TRUNCATED"
| "readVarint_loop (b # bs) v shift =
     (let v = v + unat (b AND 0x7f) * shift in
      if b AND 0x80 = 0 then Inr (v, bs)
      else failIf (int (shift * 128) > MAX_SAFE_INTEGER) VARINT_TOO_LONG
        (readVarint_loop bs v (shift * 128)))"

definition readVarint :: "bytes \<Rightarrow> content_error + nat \<times> bytes" where
  "readVarint bs = readVarint_loop bs 0 1"

subsection \<open>CIDs\<close>

record Cid =
  cid_version :: nat
  cid_codec :: nat
  cid_digest :: bytes

definition cid_header :: "Cid \<Rightarrow> content_error + bytes" where
  "cid_header cid =
     bindE (varint (cid_version cid)) (\<lambda>a.
     bindE (varint (cid_codec cid)) (\<lambda>b.
     bindE (varint (cp_multihashSha2_256 CID_PARAMETERS)) (\<lambda>c.
     bindE (varint (length (cid_digest cid))) (\<lambda>d. Inr (a @ b @ c @ d)))))"

definition cidBytes :: "Cid \<Rightarrow> content_error + bytes" where
  "cidBytes cid =
     failIf (length (cid_digest cid) \<noteq> cp_digestBytes CID_PARAMETERS) CID_DIGEST_LENGTH
       (bindE (cid_header cid) (\<lambda>h. Inr (h @ cid_digest cid)))"

definition encodeCid :: "Cid \<Rightarrow> content_error + jsstr" where
  "encodeCid cid = bindE (cidBytes cid) (\<lambda>bs. Inr (MULTIBASE_BASE32 # base32Encode bs))"

definition cidFromBytes :: "bytes \<Rightarrow> content_error + Cid" where
  "cidFromBytes bs =
     bindE (readVarint bs) (\<lambda>(version, bs).
     failIf (version \<noteq> cp_version CID_PARAMETERS) CID_VERSION (
     bindE (readVarint bs) (\<lambda>(codec, bs).
     failIf (codec \<noteq> cp_codecRaw CID_PARAMETERS \<and> codec \<noteq> cp_codecDagPb CID_PARAMETERS) CID_CODEC (
     bindE (readVarint bs) (\<lambda>(multihash, bs).
     failIf (multihash \<noteq> cp_multihashSha2_256 CID_PARAMETERS) CID_MULTIHASH (
     bindE (readVarint bs) (\<lambda>(len, digest).
     failIf (len \<noteq> cp_digestBytes CID_PARAMETERS) CID_DIGEST_LENGTH (
     failIf (length digest \<noteq> len) CID_DIGEST_MISMATCH
       (Inr \<lparr>cid_version = version, cid_codec = codec, cid_digest = digest\<rparr>)))))))))"

definition decodeCid :: "jsstr \<Rightarrow> content_error + Cid" where
  "decodeCid text =
     (case text of
        c # rest \<Rightarrow> if c = MULTIBASE_BASE32 then bindE (base32Decode rest) cidFromBytes else Inl BASE32_PREFIX
      | [] \<Rightarrow> Inl BASE32_PREFIX)"

subsection \<open>Chunks and leaves\<close>

function chunks_of :: "nat \<Rightarrow> bytes \<Rightarrow> bytes list" where
  "chunks_of n bs =
     (if bs = [] \<or> n = 0 then [] else take n bs # chunks_of n (drop n bs))"
  by pat_completeness auto
termination by (relation "measure (\<lambda>(_, bs). length bs)") auto

declare chunks_of.simps [simp del]

definition chunk :: "bytes \<Rightarrow> nat \<Rightarrow> content_error + bytes list" where
  "chunk bs n =
     failIf (n \<le> 0) CHUNK_SIZE (Inr (if length bs = 0 then [[]] else chunks_of n bs))"

definition rawLeafCid :: "crypto \<Rightarrow> bytes \<Rightarrow> content_error + jsstr" where
  "rawLeafCid C bs =
     failIf (length bs > cp_chunkBytes CID_PARAMETERS) LEAF_SIZE
       (encodeCid \<lparr>cid_version = 1, cid_codec = cp_codecRaw CID_PARAMETERS, cid_digest = sha256 C bs\<rparr>)"

definition fitsInOneLeaf :: "bytes \<Rightarrow> bool" where
  "fitsInOneLeaf bs \<longleftrightarrow> length bs \<le> cp_chunkBytes CID_PARAMETERS"

lemmas [exec] = CID_PARAMETERS_def MULTIBASE_BASE32_def BASE32_ALPHABET_def base32Encode_def
  base32Decode_def varint_def readVarint_def cid_header_def cidBytes_def encodeCid_def
  cidFromBytes_def decodeCid_def chunk_def rawLeafCid_def fitsInOneLeaf_def

lemma cid_parameters_simps [simp]:
  "cp_version CID_PARAMETERS = 1" "cp_chunkBytes CID_PARAMETERS = 262144"
  "cp_maxLinks CID_PARAMETERS = 174" "cp_codecRaw CID_PARAMETERS = 0x55"
  "cp_codecDagPb CID_PARAMETERS = 0x70" "cp_multihashSha2_256 CID_PARAMETERS = 0x12"
  "cp_digestBytes CID_PARAMETERS = 32"
  by (simp_all add: CID_PARAMETERS_def)

subsection \<open>Varints round-trip\<close>

lemma bit_masks: "bit (0x7f :: byte) n \<longleftrightarrow> n < 7" "bit (0x80 :: byte) n \<longleftrightarrow> n = 7"
  "bit (0xff :: 32 word) n \<longleftrightarrow> n < 8"
proof -
  have "(0xff :: 32 word) = mask 8" by (simp add: mask_eq_exp_minus_1)
  then show "bit (0xff :: 32 word) n \<longleftrightarrow> n < 8" by (simp only: bit_mask_iff) auto
  have "(0x7f :: byte) = mask 7" by (simp add: mask_eq_exp_minus_1)
  then show "bit (0x7f :: byte) n \<longleftrightarrow> n < 7" by (simp only: bit_mask_iff) auto
  have "(0x80 :: byte) = 2 ^ 7" by simp
  then show "bit (0x80 :: byte) n \<longleftrightarrow> n = 7" by (simp only: bit_exp_iff) auto
qed

lemma low_seven: "unat (b AND 0x7f) = unat b mod 128" for b :: byte
  proof -
  have "b AND 0x7f = take_bit 7 b" by (rule bit_word_eqI) (auto simp: bit_simps bit_masks simp del: bit_numeral_word_iff)
  then show ?thesis by (simp only: unsigned_take_bit_eq) (simp add: take_bit_eq_mod)
qed

lemma top_bit: "b AND 0x80 = 0 \<longleftrightarrow> unat b < 128" for b :: byte
proof -
  have "b AND 0x80 = 0 \<longleftrightarrow> \<not> bit b 7"
    by (auto simp: bit_eq_iff [of "b AND 0x80" 0] bit_simps bit_masks simp del: bit_numeral_word_iff dest: spec [of _ 7])
  also have "bit b 7 \<longleftrightarrow> bit (unat b) 7" by (simp add: bit_unsigned_iff)
  also have "\<dots> \<longleftrightarrow> odd (unat b div 2 ^ 7)" by (simp only: bit_iff_odd)
  also have "odd (unat b div 2 ^ 7) \<longleftrightarrow> \<not> unat b < 128"
  proof -
    have "unat b div 128 < 2" using unat_byte_less [of b] by (simp add: less_mult_imp_div_less)
    then have "unat b div 128 = 0 \<or> unat b div 128 = 1" by linarith
    then show ?thesis by (auto simp: div_eq_0_iff)
  qed
  finally show ?thesis by simp
qed

lemma continued:
  "unat ((word_of_nat n AND 0x7f) OR 0x80 :: byte) = n mod 128 + 128"
proof -
  let ?b = "(word_of_nat n AND 0x7f) OR 0x80 :: byte"
  have "?b AND 0x7f = word_of_nat n AND 0x7f"
    by (rule bit_word_eqI) (auto simp: bit_simps bit_masks simp del: bit_numeral_word_iff)
  then have low: "unat ?b mod 128 = n mod 128"
    using low_seven [of ?b] low_seven [of "word_of_nat n"] by (simp add: unat_of_nat mod_mod_cancel)
  have "?b AND 0x80 = 0x80"
    by (rule bit_word_eqI) (auto simp: bit_simps bit_masks simp del: bit_numeral_word_iff)
  then have "\<not> unat ?b < 128" using top_bit [of ?b] by auto
  then have "unat ?b div 128 = 1" using unat_byte_less [of ?b] by (simp add: div_nat_eqI)
  then show ?thesis using low div_mult_mod_eq [of "unat ?b" 128] by linarith
qed


lemma varint_bytes_induct [case_names small step]:
  assumes "\<And>n :: nat. n < 128 \<Longrightarrow> P n" and "\<And>n. 128 \<le> n \<Longrightarrow> P (n div 128) \<Longrightarrow> P n"
  shows "P n"
proof (induction n rule: less_induct)
  case (less n)
  show ?case
  proof (cases "n < 128")
    case False
    then have "n div 128 < n" by simp
    then show ?thesis using assms(2) [of n] less.IH False by simp
  qed (rule assms(1))
qed

lemma readVarint_loop_varint:
  assumes "int (n * shift) \<le> MAX_SAFE_INTEGER" "0 < shift"
  shows "readVarint_loop (varint_bytes n @ rest) v shift = Inr (v + n * shift, rest)"
  using assms
proof (induction n arbitrary: v shift rule: varint_bytes_induct)
  case (small n)
  then have "unat (word_of_nat n :: byte) = n" by (intro unat_byte_of_nat) simp
  with small show ?case by (simp add: varint_bytes.simps [of n] low_seven top_bit Let_def)
next
  case (step n)
  have eq: "n mod 128 + 128 * (n div 128) = n" by simp
  have "n div 128 * (shift * 128) \<le> n * shift"
    using mult_le_mono1 [OF div_times_less_eq_dividend [of n 128], of shift] by (simp add: ac_simps)
  then have le: "int (n div 128 * (shift * 128)) \<le> MAX_SAFE_INTEGER"
    using step.prems(1) by linarith
  have "shift * 128 \<le> n * shift" using step.hyps by (simp add: ac_simps)
  then have small: "\<not> int (shift * 128) > MAX_SAFE_INTEGER" using step.prems by linarith
  have "readVarint_loop (varint_bytes (n div 128) @ rest) (v + n mod 128 * shift) (shift * 128) =
      Inr (v + n mod 128 * shift + n div 128 * (shift * 128), rest)"
    using step.IH [OF le] step.prems by simp
  also have "v + n mod 128 * shift + n div 128 * (shift * 128) = v + n * shift"
    by (subst eq [symmetric], subst add_mult_distrib) simp
  finally show ?case
    using step.hyps small by (simp add: varint_bytes.simps [of n] continued top_bit low_seven Let_def)
qed

lemma readVarint_varint:
  "int n \<le> MAX_SAFE_INTEGER \<Longrightarrow> readVarint (varint_bytes n @ rest) = Inr (n, rest)"
  using readVarint_loop_varint [of n 1 rest 0] by (simp add: readVarint_def)

lemma varint_small: "n < 128 \<Longrightarrow> varint_bytes n = [word_of_nat n]"
  by (simp add: varint_bytes.simps [of n])


subsection \<open>Base32 regroups bits\<close>

text \<open>
  Both routines move the same sequence of bits, most significant first, from groups of one size
  into groups of the other. \<open>bits_of n w\<close> are the low \<open>n\<close> bits of \<open>w\<close>.
\<close>

definition bits_of :: "nat \<Rightarrow> 'a :: len word \<Rightarrow> bool list" where
  "bits_of n w = map (bit w) (rev [0..<n])"

definition char_bits :: "16 word \<Rightarrow> bool list" where
  "char_bits c = (case index_of c BASE32_ALPHABET of None \<Rightarrow> [] | Some i \<Rightarrow> bits_of 5 (word_of_nat i :: byte))"

lemma length_bits_of [simp]: "length (bits_of n w) = n"
  by (simp add: bits_of_def)

lemma bits_of_append: "bits_of (m + n) w = bits_of m (drop_bit n w) @ bits_of n w"
proof -
  have "rev [0..<m + n] = map (\<lambda>i. i + n) (rev [0..<m]) @ rev [0..<n]"
    by (simp add: rev_map [symmetric] map_add_upt add.commute [of m] upt_add_eq_append [of 0 n m])
  then show ?thesis by (simp add: bits_of_def bit_drop_bit_eq comp_def add.commute)
qed

lemma bits_of_cong: "(\<And>i. i < n \<Longrightarrow> bit v i = bit w i) \<Longrightarrow> bits_of n v = bits_of n w"
  by (simp add: bits_of_def)

lemma bits_of_inject:
  fixes v w :: "'a :: len word"
  assumes "bits_of LENGTH('a) v = bits_of LENGTH('a) w"
  shows "v = w"
  using assms by (intro bit_word_eqI) (auto simp: bits_of_def)

lemma alphabet: "length BASE32_ALPHABET = 32" "distinct BASE32_ALPHABET"
  by (simp_all add: BASE32_ALPHABET_def)

lemma alphabet_index: "i < 32 \<Longrightarrow> index_of (BASE32_ALPHABET ! i) BASE32_ALPHABET = Some i"
  using alphabet by (auto simp: index_of_Some in_set_conv_nth nth_eq_iff_index_eq)


lemma char_bits_index: "i < 32 \<Longrightarrow> char_bits (BASE32_ALPHABET ! i) = bits_of 5 (word_of_nat i :: byte)"
  by (simp add: char_bits_def alphabet_index)

lemma low_five:
  fixes x :: "32 word"
  shows "unat (x AND 31) < 32" and "bits_of 5 (word_of_nat (unat (x AND 31)) :: byte) = bits_of 5 x"
proof -
  have mask: "x AND 31 = take_bit 5 x" by (simp add: take_bit_eq_mask mask_eq_exp_minus_1)
  then have nat: "unat (x AND 31) = take_bit 5 (unat x)" by (simp only: unsigned_take_bit_eq)
  then show "unat (x AND 31) < 32" using take_bit_nat_less_exp [of 5 "unat x"] by simp
  show "bits_of 5 (word_of_nat (unat (x AND 31)) :: byte) = bits_of 5 x"
    unfolding nat by (rule bits_of_cong) (auto simp: bit_simps)
qed

lemma char_bits_emit: "char_bits (BASE32_ALPHABET ! unat (x AND 31)) = bits_of 5 x" for x :: "32 word"
  by (simp only: char_bits_index low_five)

definition text_bits :: "jsstr \<Rightarrow> bool list" where
  "text_bits s = concat (map char_bits s)"

definition bytes_bits :: "bytes \<Rightarrow> bool list" where
  "bytes_bits bs = concat (map (bits_of 8) bs)"

lemma text_bits_simps [simp]:
  "text_bits [] = []" "text_bits (c # s) = char_bits c @ text_bits s"
  "text_bits (s @ t) = text_bits s @ text_bits t"
  by (simp_all add: text_bits_def)

lemma bytes_bits_simps [simp]:
  "bytes_bits [] = []" "bytes_bits (b # s) = bits_of 8 b @ bytes_bits s"
  "bytes_bits (s @ t) = bytes_bits s @ bytes_bits t"
  by (simp_all add: bytes_bits_def)

lemma length_bytes_bits [simp]: "length (bytes_bits bs) = 8 * length bs"
  by (induction bs) auto

abbreviation alphabetic :: "jsstr \<Rightarrow> bool" where
  "alphabetic s \<equiv> set s \<subseteq> set BASE32_ALPHABET"

lemma length_char_bits [simp]: "c \<in> set BASE32_ALPHABET \<Longrightarrow> length (char_bits c) = 5"
  by (cases "index_of c BASE32_ALPHABET") (auto simp: char_bits_def index_of_None)

lemma length_text_bits [simp]: "alphabetic s \<Longrightarrow> length (text_bits s) = 5 * length s"
  by (induction s) auto

lemma emit_alphabetic: "BASE32_ALPHABET ! unat (x AND 31) \<in> set BASE32_ALPHABET" for x :: "32 word"
  using low_five(1) [of x] by (simp add: alphabet)

lemma base32_emit_bits:
  "base32_emit bits v out = (bits', out') \<Longrightarrow> alphabetic out \<Longrightarrow>
     bits' < 5 \<and> alphabetic out' \<and> text_bits out' @ bits_of bits' v = text_bits out @ bits_of bits v"
proof (induction bits v out rule: base32_emit.induct)
  case (1 bits v out)
  show ?case
  proof (cases "bits \<ge> 5")
    case True
    let ?c = "BASE32_ALPHABET ! unat (drop_bit (bits - 5) v AND 31)"
    have "bits_of bits v = char_bits ?c @ bits_of (bits - 5) v"
      using bits_of_append [of 5 "bits - 5" v] True by (simp only: char_bits_emit) simp
    then show ?thesis
      using 1 True emit_alphabetic by (simp add: base32_emit.simps [of bits])
  next
    case False
    then show ?thesis using 1 by (simp add: base32_emit.simps [of bits])
  qed
qed

lemma bits_of_push:
  fixes v :: "32 word"
  assumes "n + k \<le> 32" "\<And>i. bit w i \<Longrightarrow> i < k"
  shows "bits_of (n + k) (push_bit k v OR w) = bits_of n v @ bits_of k w"
  unfolding bits_of_append using assms
  by (auto simp: bit_simps dest: assms(2) intro!: bits_of_cong)

lemma base32_push_bits:
  assumes "base32_push (bits, v, out) b = (bits', v', out')" "bits < 5" "alphabetic out"
  shows "bits' < 5 \<and> alphabetic out' \<and>
    text_bits out' @ bits_of bits' v' = text_bits out @ bits_of bits v @ bits_of 8 b"
proof -
  have v': "v' = push_bit 8 v OR ucast b"
    and emit: "base32_emit (bits + 8) v' out = (bits', out')"
    using assms(1) by (auto simp: Let_def split: prod.splits)
  have "bits_of (bits + 8) v' = bits_of bits v @ bits_of 8 (ucast b :: 32 word)"
    unfolding v' using assms(2) by (intro bits_of_push) (auto simp: bit_simps dest: bit_imp_le_length)
  also have "bits_of 8 (ucast b :: 32 word) = bits_of 8 b"
    by (rule bits_of_cong) (simp add: bit_simps)
  finally show ?thesis using base32_emit_bits [OF emit assms(3)] by simp
qed


lemma base32Encode_bits:
  "alphabetic (base32Encode bs) \<and>
   (\<exists>k < 5. text_bits (base32Encode bs) = bytes_bits bs @ replicate k False)"
proof -
  have run: "bits' < 5 \<and> alphabetic out' \<and> text_bits out' @ bits_of bits' v' = text_bits out @ bits_of bits v @ bytes_bits bs"
    if "foldl base32_push (bits, v, out) bs = (bits', v', out')" "bits < 5" "alphabetic out"
    for bits v out bits' v' out'
    using that
  proof (induction bs arbitrary: bits v out)
    case (Cons b bs)
    obtain bits1 v1 out1 where step: "base32_push (bits, v, out) b = (bits1, v1, out1)"
      by (cases "base32_push (bits, v, out) b")
    show ?case using Cons base32_push_bits [OF step] by (simp del: base32_push.simps add: step)
  qed simp
  obtain n v out where f: "foldl base32_push (0, 0, []) bs = (n, v, out)"
    by (cases "foldl base32_push (0, 0, []) bs")
  have r: "n < 5" "alphabetic out" "text_bits out @ bits_of n v = bytes_bits bs"
    using run [OF f] by (simp_all add: bits_of_def)
  show ?thesis
  proof (cases "n = 0")
    case True
    then show ?thesis using r f by (auto simp: base32Encode_def bits_of_def)
  next
    case False
    let ?w = "push_bit (5 - n) v" and ?c = "BASE32_ALPHABET ! unat (push_bit (5 - n) v AND 31)"
    have "bits_of (n + (5 - n)) (push_bit (5 - n) v OR 0) = bits_of n v @ bits_of (5 - n) (0 :: 32 word)"
      using r(1) by (intro bits_of_push) auto
    moreover have "bits_of k (0 :: 32 word) = replicate k False" for k
      by (rule nth_equalityI) (simp_all add: bits_of_def)
    ultimately have "char_bits ?c = bits_of n v @ replicate (5 - n) False"
      using r(1) by (simp add: char_bits_emit)
    then have "text_bits (out @ [?c]) = bytes_bits bs @ replicate (5 - n) False"
      using r(3) by simp
    moreover have "base32Encode bs = out @ [?c]" using f False by (simp add: base32Encode_def)
    moreover have "5 - n < 5" using False by simp
    ultimately show ?thesis using r(2) emit_alphabetic [of ?w] by auto
  qed
qed

lemma base32_pull_bits:
  assumes "bits < 8"
  shows "(\<not> alphabetic s \<longrightarrow> base32_pull bits v s out = Inl BASE32_CHARACTER) \<and>
    (alphabetic s \<longrightarrow> (\<exists>bs p. base32_pull bits v s out = Inr (out @ bs) \<and> length p < 8 \<and>
       bytes_bits bs @ p = bits_of bits v @ text_bits s))"
  using assms
proof (induction s arbitrary: bits v out)
  case Nil
  then show ?case by (auto intro: exI [of _ "[]"])
next
  case (Cons c s)
  show ?case
  proof (cases "index_of c BASE32_ALPHABET")
    case None
    moreover have "c \<notin> set BASE32_ALPHABET" using None index_of_None [of c BASE32_ALPHABET] by simp
    ultimately show ?thesis by auto
  next
    case (Some i)
    then have c: "c \<in> set BASE32_ALPHABET" and i: "i < 32"
      using index_of_None [of c BASE32_ALPHABET] by (auto simp: index_of_Some alphabet)
    let ?v = "push_bit 5 v OR word_of_nat i" and ?b = "ucast (drop_bit (bits + 5 - 8) (push_bit 5 v OR word_of_nat i) AND 0xff) :: byte"
    have lt: "j < 5" if "bit (word_of_nat i :: 32 word) j" for j
    proof -
      have "bit i j" using that by (simp add: bit_simps)
      moreover have "take_bit 5 i = i" using i by (simp add: take_bit_nat_eq_self)
      ultimately show ?thesis by (metis bit_take_bit_iff)
    qed
    have "bits_of (bits + 5) ?v = bits_of bits v @ bits_of 5 (word_of_nat i :: 32 word)"
      using Cons.prems lt by (intro bits_of_push) auto
    also have "bits_of 5 (word_of_nat i :: 32 word) = char_bits c"
      unfolding char_bits_def Some by (auto simp: bit_simps intro!: bits_of_cong)
    finally have v: "bits_of (bits + 5) ?v = bits_of bits v @ char_bits c" .
    show ?thesis
    proof (cases "bits + 5 \<ge> 8")
      case True
      have "bits_of 8 (drop_bit (bits + 5 - 8) ?v) = bits_of 8 ?b"
        by (rule bits_of_cong) (auto simp: bit_simps bit_masks simp del: bit_numeral_word_iff)
      then have "bits_of (bits + 5) ?v = bits_of 8 ?b @ bits_of (bits + 5 - 8) ?v"
        using bits_of_append [of 8 "bits + 5 - 8" ?v] True by (simp only: le_add_diff_inverse)
      then show ?thesis using Cons.IH [of "bits + 5 - 8" ?v "out @ [?b]"] Cons.prems True Some c v
        by (fastforce simp: Let_def)
    next
      case False
      then show ?thesis using Cons.IH [of "bits + 5" ?v out] Cons.prems Some c v
        by (auto simp: Let_def)
    qed
  qed
qed


lemma bytes_bits_inject:
  "length a = length b \<Longrightarrow> bytes_bits a = bytes_bits b \<Longrightarrow> a = b"
  by (induction a b rule: list_induct2) (auto intro: bits_of_inject)

lemma bytes_bits_prefix:
  assumes "bytes_bits a @ p = bytes_bits b @ q" "length p < 8" "length q < 8"
  shows "a = b"
proof -
  have "8 * length a + length p = 8 * length b + length q"
    using arg_cong [OF assms(1), of length] by simp
  then have l: "length a = length b" using assms(2,3) by presburger
  then show ?thesis using assms(1) by (intro bytes_bits_inject) simp_all
qed

lemma base32Decode_iff:
  "base32Decode s = Inr bs \<longleftrightarrow>
     alphabetic s \<and> (\<exists>p. length p < 8 \<and> text_bits s = bytes_bits bs @ p)"
  using base32_pull_bits [of 0 s 0 "[]"] bytes_bits_prefix
  by (fastforce simp: base32Decode_def bits_of_def)

lemma base32_roundtrip: "base32Decode (base32Encode bs) = Inr bs"
  using base32Encode_bits [of bs] by (fastforce simp: base32Decode_iff)

lemma length_base32Encode: "length (base32Encode bs) = (8 * length bs + 4) div 5"
proof -
  obtain k where "k < 5" "text_bits (base32Encode bs) = bytes_bits bs @ replicate k False"
    using base32Encode_bits by blast
  then have "5 * length (base32Encode bs) = 8 * length bs + k" "k < 5"
    using base32Encode_bits [of bs] length_text_bits [of "base32Encode bs"] by simp_all
  then show ?thesis by linarith
qed

lemma base32_trailing:
  assumes "c \<in> set BASE32_ALPHABET" "5 * length (base32Encode bs) < 8 * length bs + 3"
  shows "base32Decode (base32Encode bs @ [c]) = Inr bs"
proof -
  obtain k where k: "text_bits (base32Encode bs) = bytes_bits bs @ replicate k False"
    using base32Encode_bits by blast
  then have "5 * length (base32Encode bs) = 8 * length bs + k"
    using base32Encode_bits [of bs] length_text_bits [of "base32Encode bs"] by simp
  then have "length (replicate k False @ char_bits c) < 8" using assms by simp
  then show ?thesis
    unfolding base32Decode_iff using k assms(1) base32Encode_bits [of bs]
    by (intro conjI exI [of _ "replicate k False @ char_bits c"]) simp_all
qed

subsection \<open>CIDs round-trip\<close>

text \<open>The CIDs the program makes: version 1, one of the two codecs, a 32-byte digest.\<close>

definition cid_ok :: "Cid \<Rightarrow> bool" where
  "cid_ok cid \<longleftrightarrow> cid_version cid = 1 \<and> cid_codec cid \<in> {0x55, 0x70} \<and> length (cid_digest cid) = 32"

lemma cidBytes_ok:
  "cid_ok cid \<Longrightarrow> cidBytes cid = Inr ([1, word_of_nat (cid_codec cid), 0x12, 32] @ cid_digest cid)"
  by (auto simp: cid_ok_def cidBytes_def cid_header_def varint_def varint_small MAX_SAFE_INTEGER_def)

lemma readVarint_one: "unat b < 128 \<Longrightarrow> readVarint (b # bs) = Inr (unat b, bs)"
  by (simp add: readVarint_def low_seven top_bit Let_def)

lemma cidFromBytes_cidBytes: "cid_ok cid \<Longrightarrow> cidBytes cid = Inr bs \<Longrightarrow> cidFromBytes bs = Inr cid"
  by (auto simp: cidBytes_ok cid_ok_def cidFromBytes_def readVarint_one)

lemma cidFromBytes_ok: "cidFromBytes bs = Inr cid \<Longrightarrow> cid_ok cid"
  by (auto simp: cidFromBytes_def cid_ok_def errs split: if_splits prod.splits)

lemma encodeCid_total: "cid_ok cid \<Longrightarrow> \<exists>s. encodeCid cid = Inr s"
  by (simp add: encodeCid_def cidBytes_ok)

lemma decodeCid_encodeCid: "cid_ok cid \<Longrightarrow> encodeCid cid = Inr s \<Longrightarrow> decodeCid s = Inr cid"
  by (auto simp: encodeCid_def decodeCid_def errs base32_roundtrip cidFromBytes_cidBytes)

lemma decodeCid_ok: "decodeCid s = Inr cid \<Longrightarrow> cid_ok cid"
  by (auto simp: decodeCid_def errs cidFromBytes_ok split: list.splits if_splits)

lemma encodeCid_inject:
  "cid_ok a \<Longrightarrow> cid_ok b \<Longrightarrow> encodeCid a = Inr s \<Longrightarrow> encodeCid b = Inr s \<Longrightarrow> a = b"
  by (metis decodeCid_encodeCid sum.inject(2))

subsection \<open>Chunks\<close>

lemma chunks_of_unfold:
  "bs \<noteq> [] \<Longrightarrow> 0 < n \<Longrightarrow> chunks_of n bs = take n bs # chunks_of n (drop n bs)"
  "chunks_of n [] = []"
  by (simp_all add: chunks_of.simps [of n])

lemma chunks_of_spec:
  "0 < n \<Longrightarrow> concat (chunks_of n bs) = bs \<and> (\<forall>p\<in>set (chunks_of n bs). p \<noteq> [] \<and> length p \<le> n) \<and>
     (\<forall>p\<in>set (butlast (chunks_of n bs)). length p = n)"
proof (induction n bs rule: chunks_of.induct)
  case (1 n bs)
  show ?case
  proof (cases "bs = []")
    case False
    have eq: "chunks_of n bs = take n bs # chunks_of n (drop n bs)"
      using False 1(2) by (rule chunks_of_unfold)
    let ?r = "chunks_of n (drop n bs)"
    have full: "?r \<noteq> [] \<longrightarrow> length (take n bs) = n"
      by (cases "drop n bs = []") (simp_all add: chunks_of_unfold(2))
    have "\<not> (bs = [] \<or> n = 0)" using False 1(2) by simp
    note IH = 1(1) [OF this 1(2)]
    have ih: "concat ?r = drop n bs" "\<forall>p\<in>set ?r. p \<noteq> [] \<and> length p \<le> n"
        "\<forall>p\<in>set (butlast ?r). length p = n"
      using IH by blast+
    have "concat (take n bs # ?r) = bs" by (simp add: ih(1))
    moreover have "\<forall>p\<in>set (take n bs # ?r). p \<noteq> [] \<and> length p \<le> n"
      using ih(2) False 1(2) by simp
    moreover have "\<forall>p\<in>set (butlast (take n bs # ?r)). length p = n"
      using ih(3) full by (cases "?r = []") simp_all
    ultimately show ?thesis by (simp only: eq)
  qed (simp add: chunks_of_unfold(2))
qed

lemma chunk_spec:
  assumes "chunk bs n = Inr ps"
  shows "concat ps = bs" "ps \<noteq> []" "\<forall>p\<in>set ps. length p \<le> n" "\<forall>p\<in>set (butlast ps). length p = n"
  using assms chunks_of_spec [of n bs]
  by (auto simp: chunk_def chunks_of_unfold split: if_splits)

lemma chunk_one: "chunk bs n = Inr ps \<Longrightarrow> length ps = 1 \<longleftrightarrow> length bs \<le> n"
proof -
  assume c: "chunk bs n = Inr ps"
  then have n: "0 < n" by (auto simp: chunk_def split: if_splits)
  show ?thesis
  proof (cases "bs = []")
    case True
    then show ?thesis using c by (auto simp: chunk_def split: if_splits)
  next
    case False
    then have "ps = take n bs # chunks_of n (drop n bs)"
      using c n by (auto simp: chunk_def chunks_of_unfold split: if_splits)
    then show ?thesis using chunks_of_unfold(1) [of "drop n bs" n] n
      by (cases "drop n bs = []") (auto simp: chunks_of_unfold)
  qed
qed

subsection \<open>Properties\<close>

text \<open>
  A content identifier survives its text form: the text of a version 1 identifier with one of
  the two codecs and a 32-byte digest is 59 characters and decodes to the same identifier, so
  different identifiers have different texts.
\<close>

theorem cid_roundtrip:
  assumes "cid_ok cid"
  shows "\<exists>s. encodeCid cid = Inr s \<and> length s = 59 \<and> decodeCid s = Inr cid \<and>
    (\<forall>other. cid_ok other \<and> encodeCid other = Inr s \<longrightarrow> other = cid)"
proof -
  obtain s where s: "encodeCid cid = Inr s" using encodeCid_total [OF assms] by blast
  then have "length s = 59"
    using assms by (auto simp: encodeCid_def cidBytes_ok length_base32Encode cid_ok_def)
  then show ?thesis using s assms decodeCid_encodeCid encodeCid_inject by blast
qed

definition sample_cid :: Cid where
  "sample_cid = \<lparr>cid_version = 1, cid_codec = 0x55, cid_digest = replicate 32 7\<rparr>"

lemma sample_cid_ok: "cid_ok sample_cid"
  by (simp add: sample_cid_def cid_ok_def)

theorem cid_roundtrip_witness:
  "\<exists>s. encodeCid sample_cid = Inr s \<and> length s = 59 \<and> decodeCid s = Inr sample_cid"
  using cid_roundtrip [OF sample_cid_ok] by blast

text \<open>
  The converse fails: the decoder does not look at the bits left over after the last whole byte.
  Every identifier has at least thirty-two other texts, its own with any base32 character appended,
  that decode to it and that the encoder never writes.
\<close>

theorem cid_text_malleable:
  assumes "cid_ok cid" "encodeCid cid = Inr s" "c \<in> set BASE32_ALPHABET"
  shows "decodeCid (s @ [c]) = Inr cid \<and> (\<forall>other. cid_ok other \<longrightarrow> encodeCid other \<noteq> Inr (s @ [c]))"
proof -
  obtain bs where bs: "cidBytes cid = Inr bs" "s = MULTIBASE_BASE32 # base32Encode bs"
    using assms(2) by (auto simp: encodeCid_def errs)
  then have "length bs = 36" using assms(1) by (auto simp: cidBytes_ok cid_ok_def)
  then have "base32Decode (base32Encode bs @ [c]) = Inr bs"
    using assms(3) by (intro base32_trailing) (simp_all add: length_base32Encode)
  then have "decodeCid (s @ [c]) = Inr cid"
    using bs assms(1) by (simp add: decodeCid_def cidFromBytes_cidBytes)
  moreover have "encodeCid other \<noteq> Inr (s @ [c])" if "cid_ok other" for other
  proof
    assume e: "encodeCid other = Inr (s @ [c])"
    then have "other = cid" using decodeCid_encodeCid [OF that e] calculation by simp
    then show False using e assms(2) by simp
  qed
  ultimately show ?thesis by blast
qed

theorem cid_text_malleable_witness:
  "\<exists>s. encodeCid sample_cid = Inr s \<and> decodeCid (s @ js ''z'') = Inr sample_cid"
proof -
  obtain s where s: "encodeCid sample_cid = Inr s" using encodeCid_total [OF sample_cid_ok] by blast
  have "of_char CHR ''z'' \<in> set BASE32_ALPHABET" by (simp add: BASE32_ALPHABET_def)
  from cid_text_malleable [OF sample_cid_ok s this] s show ?thesis by (auto simp: js_def)
qed

text \<open>
  Chunking loses nothing and cuts only at the chunk size: the chunks in order are the file,
  there is at least one, all but the last have the full size, and there is exactly one when the
  file fits in a leaf, which is what the importer and \<open>fitsInOneLeaf\<close> both ask.
\<close>

theorem chunk_exact:
  assumes "chunk bs (cp_chunkBytes CID_PARAMETERS) = Inr ps"
  shows "concat ps = bs \<and> ps \<noteq> [] \<and> (\<forall>p\<in>set ps. fitsInOneLeaf p) \<and>
    (\<forall>p\<in>set (butlast ps). length p = 262144) \<and> (length ps = 1 \<longleftrightarrow> fitsInOneLeaf bs)"
  using chunk_spec [OF assms] chunk_one [OF assms] by (simp add: fitsInOneLeaf_def)

theorem chunk_exact_witness: "fitsInOneLeaf [] \<and> concat [[]] = ([] :: bytes)"
  using chunk_exact [of "[]" "[[]]"] by (simp add: chunk_def)

end
