(* ===== verification/Unixfs.thy ===== *)
theory Unixfs
  imports Content
begin

section \<open>Building the blocks of a site (registry/src/unixfs.ts)\<close>

text \<open>
  The protobuf encoding of dag-pb nodes and UnixFS messages, directories sorted by the bytes of
  their names, files cut into raw leaves, and the import of a whole site. The array that the import
  pushes its blocks to is the list each function returns. The recursion over directories carries
  fuel; running out of it is the overflow of the call stack, which \<open>import_total\<close> rules out.
\<close>

subsection \<open>Data\<close>

record unixfs_type =
  ut_file :: nat
  ut_directory :: nat

definition UNIXFS_TYPE :: unixfs_type where
  "UNIXFS_TYPE = \<lparr>ut_file = 2, ut_directory = 1\<rparr>"

record Link =
  lk_cid :: jsstr
  lk_name :: jsstr
  lk_tsize :: nat

record Block =
  bk_cid :: jsstr
  bk_bytes :: bytes

record SiteFile =
  sf_path :: jsstr
  sf_content :: bytes

subsection \<open>Protobuf\<close>

text \<open>unixfs.ts has its own copy of \<open>varint\<close>, with the text of content.ts.\<close>

definition pb_varint :: "nat \<Rightarrow> content_error + bytes" where
  "pb_varint v = failIf (int v > MAX_SAFE_INTEGER) VARINT_VALUE (Inr (varint_bytes v))"

definition tag :: "nat \<Rightarrow> nat \<Rightarrow> content_error + bytes" where
  "tag field wire = pb_varint (field * 8 + wire)"

definition lengthDelimited :: "nat \<Rightarrow> bytes \<Rightarrow> content_error + bytes" where
  "lengthDelimited field payload =
     bindE (tag field 2) (\<lambda>t. bindE (pb_varint (length payload)) (\<lambda>l. Inr (t @ l @ payload)))"

definition varintField :: "nat \<Rightarrow> nat \<Rightarrow> content_error + bytes" where
  "varintField field v = bindE (tag field 0) (\<lambda>t. bindE (pb_varint v) (\<lambda>b. Inr (t @ b)))"

definition unixfsDirectory :: "content_error + bytes" where
  "unixfsDirectory = varintField 1 (ut_directory UNIXFS_TYPE)"

definition unixfsFile :: "nat list \<Rightarrow> content_error + bytes" where
  "unixfsFile chunkSizes =
     bindE (varintField 1 (ut_file UNIXFS_TYPE)) (\<lambda>a.
     bindE (varintField 3 (sum_list chunkSizes)) (\<lambda>b.
     bindE (mapE (varintField 4) chunkSizes) (\<lambda>sizes. Inr (a @ b @ concat sizes))))"

definition pbLink :: "Link \<Rightarrow> content_error + bytes" where
  "pbLink link =
     bindE (decodeCid (lk_cid link)) (\<lambda>cid.
     bindE (pb_varint (cid_version cid)) (\<lambda>a.
     bindE (pb_varint (cid_codec cid)) (\<lambda>b.
     bindE (pb_varint (cp_multihashSha2_256 CID_PARAMETERS)) (\<lambda>c.
     bindE (pb_varint (length (cid_digest cid))) (\<lambda>d.
     bindE (lengthDelimited 1 (a @ b @ c @ d @ cid_digest cid)) (\<lambda>x.
     bindE (lengthDelimited 2 (text_encode (lk_name link))) (\<lambda>y.
     bindE (varintField 3 (lk_tsize link)) (\<lambda>z. Inr (x @ y @ z)))))))))"

definition encodePbNode :: "Link list \<Rightarrow> bytes \<Rightarrow> content_error + bytes" where
  "encodePbNode links payload =
     bindE (mapE (\<lambda>link. bindE (pbLink link) (lengthDelimited 2)) links) (\<lambda>ls.
     if length payload > 0 then bindE (lengthDelimited 1 payload) (\<lambda>p. Inr (concat ls @ p))
     else Inr (concat ls))"

definition dagPbBlock :: "crypto \<Rightarrow> bytes \<Rightarrow> content_error + Block" where
  "dagPbBlock C bs =
     bindE (encodeCid \<lparr>cid_version = 1, cid_codec = cp_codecDagPb CID_PARAMETERS, cid_digest = sha256 C bs\<rparr>)
       (\<lambda>cid. Inr \<lparr>bk_cid = cid, bk_bytes = bs\<rparr>)"

subsection \<open>Directories\<close>

text \<open>The loop over the entries, with the set of the names seen so far.\<close>

fun check_entries :: "jsstr list \<Rightarrow> Link list \<Rightarrow> content_error + unit" where
  "check_entries names [] = Inr ()"
| "check_entries names (entry # entries) =
     failIf (length (lk_name entry) = 0) ENTRY_UNNAMED (
     failIf (lk_name entry \<in> set names) ENTRY_DUPLICATE (check_entries (lk_name entry # names) entries))"

text \<open>
  \<open>compareBytewise\<close> orders two names as the order of byte lists does, and \<open>Array.sort\<close> is
  stable.
\<close>

fun compareBytewise :: "bytes \<Rightarrow> bytes \<Rightarrow> int" where
  "compareBytewise (a # as) (b # bs) =
     (if a \<noteq> b then int (unat a) - int (unat b) else compareBytewise as bs)"
| "compareBytewise as bs = int (length as) - int (length bs)"

lemma empty_less: "([] :: bytes) < bs \<longleftrightarrow> bs \<noteq> []"
  by (cases bs) simp_all

lemma compareBytewise_order:
  "compareBytewise a b < 0 \<longleftrightarrow> a < b" "compareBytewise a b = 0 \<longleftrightarrow> a = b"
  by (induction a b rule: compareBytewise.induct)
    (auto simp: word_less_def word_uint_eq_iff empty_less)

definition directoryNode :: "crypto \<Rightarrow> Link list \<Rightarrow> content_error + Block" where
  "directoryNode C entries =
     bindE (check_entries [] entries) (\<lambda>_.
     bindE unixfsDirectory (\<lambda>payload.
     bindE (encodePbNode (sort_key (\<lambda>e. text_encode (lk_name e)) entries) payload) (dagPbBlock C)))"

subsection \<open>Files\<close>

definition chunk_block :: "crypto \<Rightarrow> bytes \<Rightarrow> content_error + Block" where
  "chunk_block C piece = bindE (rawLeafCid C piece) (\<lambda>cid. Inr \<lparr>bk_cid = cid, bk_bytes = piece\<rparr>)"

definition chunk_link :: "Block \<Rightarrow> Link" where
  "chunk_link b = \<lparr>lk_cid = bk_cid b, lk_name = [], lk_tsize = length (bk_bytes b)\<rparr>"

definition fileBlocks :: "crypto \<Rightarrow> bytes \<Rightarrow> content_error + Block list \<times> jsstr \<times> nat" where
  "fileBlocks C bs =
     bindE (chunk bs (cp_chunkBytes CID_PARAMETERS)) (\<lambda>chunks.
     if length chunks = 1 then
       bindE (chunk_block C (hd chunks)) (\<lambda>b. Inr ([b], bk_cid b, length (hd chunks)))
     else
       bindE (mapE (chunk_block C) chunks) (\<lambda>blocks.
       let links = map chunk_link blocks in
       bindE (unixfsFile (map length chunks)) (\<lambda>payload.
       bindE (encodePbNode links payload) (\<lambda>node.
       bindE (dagPbBlock C node) (\<lambda>node.
         Inr (blocks @ [node], bk_cid node, length (bk_bytes node) + sum_list (map lk_tsize links)))))))"

subsection \<open>Sites\<close>

definition SLASH :: "16 word" where
  "SLASH = of_char CHR ''/''"

type_synonym site_tree = "(jsstr, Link) jsmap"

text \<open>The part of a path below a prefix, when the path is below it.\<close>

definition relative_path :: "jsstr \<Rightarrow> jsstr \<Rightarrow> jsstr option" where
  "relative_path prefix path =
     (if prefix \<noteq> [] \<and> \<not> starts_with path (prefix @ [SLASH]) then None
      else Some (if prefix = [] then path else drop (length prefix + 1) path))"

definition level_step :: "jsstr \<Rightarrow> Link list \<times> jsstr list \<Rightarrow> jsstr \<times> Link \<Rightarrow> Link list \<times> jsstr list" where
  "level_step prefix st item =
     (case (st, item) of ((entries, dirs), (path, link)) \<Rightarrow>
       (case relative_path prefix path of
          None \<Rightarrow> (entries, dirs)
        | Some rel \<Rightarrow>
            (case index_of SLASH rel of
               None \<Rightarrow> (entries @ [link\<lparr>lk_name := rel\<rparr>], dirs)
             | Some i \<Rightarrow>
                 (entries, if take i rel \<in> set dirs then dirs else dirs @ [take i rel]))))"

definition child_prefix :: "jsstr \<Rightarrow> jsstr \<Rightarrow> jsstr" where
  "child_prefix prefix name = (if prefix = [] then name else prefix @ SLASH # name)"

fun buildDirectory :: "crypto \<Rightarrow> nat \<Rightarrow> jsstr \<Rightarrow> site_tree \<Rightarrow> content_error + Block list \<times> jsstr \<times> nat" where
  "buildDirectory C 0 prefix tree = Inl STACK_OVERFLOW"
| "buildDirectory C (Suc fuel) prefix tree =
     (case foldl (level_step prefix) ([], []) tree of (entries, subdirectories) \<Rightarrow>
       bindE (mapE (\<lambda>name. buildDirectory C fuel (child_prefix prefix name) tree) subdirectories) (\<lambda>children.
       let entries = entries @
             map (\<lambda>(name, (_, cid, tsize)). \<lparr>lk_cid = cid, lk_name = name, lk_tsize = tsize\<rparr>)
               (zip subdirectories children) in
       bindE (directoryNode C entries) (\<lambda>node.
         Inr (concat (map fst children) @ [node], bk_cid node,
              length (bk_bytes node) + sum_list (map lk_tsize entries)))))"

definition path_check :: "jsstr \<Rightarrow> content_error + unit" where
  "path_check path =
     failIf (length path = 0 \<or> starts_with path [SLASH] \<or> last path = SLASH) PATH_NOT_RELATIVE (
     failIf (list_ex (\<lambda>part. part = [] \<or> part = js ''.'' \<or> part = js ''..'') (split_on SLASH path))
       PATH_SEGMENT (Inr ()))"

fun import_files :: "crypto \<Rightarrow> SiteFile list \<Rightarrow> Block list \<Rightarrow> site_tree \<Rightarrow> content_error + Block list \<times> site_tree" where
  "import_files C [] blocks tree = Inr (blocks, tree)"
| "import_files C (f # files) blocks tree =
     bindE (path_check (sf_path f)) (\<lambda>_.
     bindE (fileBlocks C (sf_content f)) (\<lambda>(bs, cid, tsize).
       import_files C files (blocks @ bs)
         (map_set (sf_path f) \<lparr>lk_cid = cid, lk_name = sf_path f, lk_tsize = tsize\<rparr> tree)))"

definition longest_path :: "SiteFile list \<Rightarrow> nat" where
  "longest_path files = foldr (\<lambda>f n. max (length (sf_path f)) n) files 0"

definition importSite :: "crypto \<Rightarrow> SiteFile list \<Rightarrow> content_error + Block list \<times> jsstr" where
  "importSite C files =
     bindE (import_files C files [] []) (\<lambda>(blocks, tree).
     bindE (buildDirectory C (Suc (longest_path files)) [] tree)
       (\<lambda>(bs, cid, tsize). Inr (blocks @ bs, cid)))"

record StorageOverhead =
  so_sourceBytes :: nat
  so_storedBytes :: nat
  so_blockCount :: nat
  so_ratio :: "(nat \<times> nat) option"

text \<open>The quotient is kept as its two operands.\<close>

definition storageOverhead :: "SiteFile list \<Rightarrow> Block list \<Rightarrow> StorageOverhead" where
  "storageOverhead files blocks =
     (let source = sum_list (map (\<lambda>f. length (sf_content f)) files);
          stored = sum_list (map (\<lambda>b. length (bk_bytes b)) blocks) in
      \<lparr>so_sourceBytes = source, so_storedBytes = stored, so_blockCount = length blocks,
       so_ratio = (if source = 0 then None else Some (stored, source))\<rparr>)"

lemmas [exec] = UNIXFS_TYPE_def pb_varint_def tag_def lengthDelimited_def varintField_def
  unixfsDirectory_def unixfsFile_def pbLink_def encodePbNode_def dagPbBlock_def directoryNode_def
  chunk_block_def chunk_link_def fileBlocks_def SLASH_def starts_with_def relative_path_def
  level_step_def child_prefix_def path_check_def longest_path_def importSite_def storageOverhead_def


subsection \<open>Paths\<close>

fun join_path :: "jsstr list \<Rightarrow> jsstr" where
  "join_path [] = []"
| "join_path [p] = p"
| "join_path (p # q # ps) = p @ SLASH # join_path (q # ps)"

lemma join_split: "join_path (split_on SLASH s) = s"
proof (induction s)
  case (Cons x s)
  obtain p ps where "split_on SLASH s = p # ps" by (cases "split_on SLASH s") auto
  with Cons show ?case by (cases ps) auto
qed simp

lemma split_join: "ps \<noteq> [] \<Longrightarrow> \<forall>p\<in>set ps. SLASH \<notin> set p \<Longrightarrow> split_on SLASH (join_path ps) = ps"
  by (induction ps rule: join_path.induct) (auto simp: split_on_sep split_on_none)

text \<open>A prefix is the path of a directory: its segments joined, the empty text for the root.\<close>

definition segments_ok :: "jsstr list \<Rightarrow> bool" where
  "segments_ok ps \<longleftrightarrow> (\<forall>p\<in>set ps. p \<noteq> [] \<and> SLASH \<notin> set p)"

lemma join_path_Nil: "segments_ok ps \<Longrightarrow> join_path ps = [] \<longleftrightarrow> ps = []"
  by (induction ps rule: join_path.induct) (auto simp: segments_ok_def)

lemma join_path_append:
  "ps \<noteq> [] \<Longrightarrow> qs \<noteq> [] \<Longrightarrow> join_path (ps @ qs) = join_path ps @ SLASH # join_path qs"
proof (induction ps rule: join_path.induct)
  case (2 p)
  then show ?case by (cases qs) auto
qed auto

lemma child_prefix_join:
  "segments_ok ps \<Longrightarrow> child_prefix (join_path ps) name = join_path (ps @ [name])"
  by (simp add: child_prefix_def join_path_Nil join_path_append)

text \<open>Paths and segments: being below a directory is having its segments as a prefix.\<close>

lemma relative_path_segments:
  assumes "segments_ok ps" "segments_ok qs" "qs \<noteq> []"
  shows "relative_path (join_path ps) (join_path qs) = Some rel \<longleftrightarrow>
    (\<exists>rs. rs \<noteq> [] \<and> qs = ps @ rs \<and> rel = join_path rs)"
proof (cases "ps = []")
  case True
  then show ?thesis using assms(3) by (auto simp: relative_path_def)
next
  case False
  then have ne: "join_path ps \<noteq> []" using join_path_Nil [OF assms(1)] by simp
  show ?thesis
  proof
    assume "relative_path (join_path ps) (join_path qs) = Some rel"
    then obtain t where t: "join_path qs = join_path ps @ SLASH # t" "rel = t"
      using ne by (auto simp: relative_path_def starts_with_iff split: if_splits)
    have ps: "split_on SLASH (join_path ps) = ps"
      using split_join [OF False] assms(1) by (simp add: segments_ok_def)
    have gen: "split_on c (u @ c # v) = split_on c u @ split_on c v" for c :: "16 word" and u v
      by (induction u) (auto split: list.splits)
    have "qs = split_on SLASH (join_path qs)"
      using split_join [OF assms(3)] assms(2) by (simp add: segments_ok_def)
    also have "\<dots> = ps @ split_on SLASH t" unfolding t(1) gen ps ..
    finally have "qs = ps @ split_on SLASH t" .
    then show "\<exists>rs. rs \<noteq> [] \<and> qs = ps @ rs \<and> rel = join_path rs"
      using t(2) join_split [of t] by (intro exI [of _ "split_on SLASH t"]) simp
  next
    assume "\<exists>rs. rs \<noteq> [] \<and> qs = ps @ rs \<and> rel = join_path rs"
    then show "relative_path (join_path ps) (join_path qs) = Some rel"
      using False ne by (auto simp: relative_path_def starts_with_iff join_path_append)
  qed
qed


subsection \<open>One level of the tree\<close>

lemma segments_ok_simps [simp]:
  "segments_ok []" "segments_ok (p # ps) \<longleftrightarrow> p \<noteq> [] \<and> SLASH \<notin> set p \<and> segments_ok ps"
  "segments_ok (ps @ qs) \<longleftrightarrow> segments_ok ps \<and> segments_ok qs"
  by (auto simp: segments_ok_def)

lemma join_path_inject:
  assumes "segments_ok ps" "segments_ok qs" "join_path ps = join_path qs"
  shows "ps = qs"
proof (cases "ps = [] \<or> qs = []")
  case True
  then show ?thesis using assms join_path_Nil [of ps] join_path_Nil [of qs] by auto
next
  case False
  then have "split_on SLASH (join_path ps) = ps" "split_on SLASH (join_path qs) = qs"
    using assms(1,2) by (auto intro!: split_join simp only: segments_ok_def)
  then show ?thesis using assms(3) by metis
qed

lemma first_segment:
  assumes "segments_ok rs" "rs \<noteq> []"
  shows "index_of SLASH (join_path rs) = (if tl rs = [] then None else Some (length (hd rs)))"
    and "tl rs = [] \<Longrightarrow> join_path rs = hd rs" and "tl rs \<noteq> [] \<Longrightarrow> take (length (hd rs)) (join_path rs) = hd rs"
proof -
  obtain r rs' where r: "rs = r # rs'" using assms(2) by (cases rs) auto
  with assms show "index_of SLASH (join_path rs) = (if tl rs = [] then None else Some (length (hd rs)))"
    by (cases rs') (auto simp: index_of_None index_of_Some nth_append)
  show "tl rs = [] \<Longrightarrow> join_path rs = hd rs" "tl rs \<noteq> [] \<Longrightarrow> take (length (hd rs)) (join_path rs) = hd rs"
    using r by (cases rs'; simp)+
qed

lemma level_step_cases:
  assumes "segments_ok ps" "segments_ok qs" "qs \<noteq> []"
  shows "level_step (join_path ps) (es, ds) (join_path qs, link) =
    (if \<exists>name. qs = ps @ [name] then (es @ [link\<lparr>lk_name := last qs\<rparr>], ds)
     else if \<exists>name r rs. qs = ps @ name # r # rs
       then (es, if qs ! length ps \<in> set ds then ds else ds @ [qs ! length ps])
     else (es, ds))"
proof (cases "relative_path (join_path ps) (join_path qs)")
  case None
  then have "\<nexists>rs. rs \<noteq> [] \<and> qs = ps @ rs"
    using relative_path_segments [OF assms] by (metis option.distinct(1))
  then show ?thesis using None by (auto simp: level_step_def)
next
  case (Some rel)
  then obtain rs where rs: "rs \<noteq> []" "qs = ps @ rs" "rel = join_path rs"
    using relative_path_segments [OF assms] by blast
  then have ok: "segments_ok rs" using assms(2) by simp
  obtain name rest where n: "rs = name # rest" using rs(1) by (cases rs) auto
  show ?thesis using Some rs n first_segment [OF ok rs(1)]
    by (cases rest) (simp_all add: level_step_def)
qed

definition items :: "site_tree \<Rightarrow> (jsstr list \<times> Link) set" where
  "items tree = {(qs, link). qs \<noteq> [] \<and> segments_ok qs \<and> (join_path qs, link) \<in> set tree}"

lemma items_snoc:
  assumes "segments_ok qs" "qs \<noteq> []"
  shows "items (tree @ [(join_path qs, link)]) = insert (qs, link) (items tree)"
  using assms join_path_inject [OF _ assms(1)] by (auto simp: items_def)

definition entries_below :: "jsstr list \<Rightarrow> (jsstr list \<times> Link) set \<Rightarrow> Link set" where
  "entries_below ps I = (\<lambda>x. (snd x)\<lparr>lk_name := last (fst x)\<rparr>) ` {x \<in> I. \<exists>name. fst x = ps @ [name]}"

definition dirs_below :: "jsstr list \<Rightarrow> (jsstr list \<times> Link) set \<Rightarrow> jsstr set" where
  "dirs_below ps I = (\<lambda>x. fst x ! length ps) ` {x \<in> I. \<exists>name r rs. fst x = ps @ name # r # rs}"

lemma image_filter_insert:
  "f ` {x \<in> insert a S. P x} = (if P a then insert (f a) (f ` {x \<in> S. P x}) else f ` {x \<in> S. P x})"
  by auto

lemma level_spec:
  assumes "foldl (level_step (join_path ps)) ([], []) tree = (es, ds)" "segments_ok ps"
    and "\<forall>path\<in>fst ` set tree. \<exists>qs. qs \<noteq> [] \<and> segments_ok qs \<and> path = join_path qs"
  shows "set es = entries_below ps (items tree) \<and> set ds = dirs_below ps (items tree) \<and>
    distinct ds \<and> length es + length ds \<le> length tree"
  using assms(1,3)
proof (induction tree arbitrary: es ds rule: rev_induct)
  case Nil
  then show ?case by (simp add: items_def entries_below_def dirs_below_def)
next
  case (snoc item tree)
  obtain es0 ds0 where f: "foldl (level_step (join_path ps)) ([], []) tree = (es0, ds0)"
    by (cases "foldl (level_step (join_path ps)) ([], []) tree")
  obtain qs link where item: "item = (join_path qs, link)" and qs: "segments_ok qs" "qs \<noteq> []"
    using snoc.prems(2) by (cases item) auto
  have ih: "set es0 = entries_below ps (items tree) \<and> set ds0 = dirs_below ps (items tree) \<and>
      distinct ds0 \<and> length es0 + length ds0 \<le> length tree"
    using snoc.IH [OF f] snoc.prems(2) by simp
  have step: "level_step (join_path ps) (es0, ds0) (join_path qs, link) = (es, ds)"
    using snoc.prems(1) f item by simp
  show ?case
    unfolding item items_snoc [OF qs] entries_below_def dirs_below_def image_filter_insert
    unfolding entries_below_def [symmetric] dirs_below_def [symmetric]
    using ih step unfolding level_step_cases [OF assms(2) qs]
    by (auto split: if_splits)
qed

lemma below_simps:
  "link \<in> entries_below ps I \<longleftrightarrow> (\<exists>name l. (ps @ [name], l) \<in> I \<and> link = l\<lparr>lk_name := name\<rparr>)"
  "name \<in> dirs_below ps I \<longleftrightarrow> (\<exists>r rs l. (ps @ name # r # rs, l) \<in> I)"
  by (force simp: entries_below_def dirs_below_def)+


subsection \<open>What the blocks are\<close>

definition block_cid :: "crypto \<Rightarrow> nat \<Rightarrow> bytes \<Rightarrow> Cid" where
  "block_cid C codec bs = \<lparr>cid_version = 1, cid_codec = codec, cid_digest = sha256 C bs\<rparr>"

definition block_ok :: "crypto \<Rightarrow> nat \<Rightarrow> Block \<Rightarrow> bool" where
  "block_ok C codec b \<longleftrightarrow> codec \<in> {0x55, 0x70} \<and> encodeCid (block_cid C codec (bk_bytes b)) = Inr (bk_cid b)"

definition canonical :: "jsstr \<Rightarrow> bool" where
  "canonical cid \<longleftrightarrow> (\<exists>c. cid_ok c \<and> encodeCid c = Inr cid)"

lemma encodeCid_length: "encodeCid cid = Inr s \<Longrightarrow> length (cid_digest cid) = 32"
  by (auto simp: encodeCid_def cidBytes_def errs)

lemma block_cid_ok: "block_ok C codec b \<Longrightarrow> cid_ok (block_cid C codec (bk_bytes b))"
  by (auto simp: block_ok_def cid_ok_def block_cid_def dest: encodeCid_length)

lemma block_canonical: "block_ok C codec b \<Longrightarrow> canonical (bk_cid b)"
  using block_cid_ok [of C codec b] by (auto simp: block_ok_def canonical_def)

lemma dagPbBlock_Inr: "dagPbBlock C bs = Inr b \<longleftrightarrow> bk_bytes b = bs \<and> block_ok C 0x70 b"
  by (cases b) (auto simp: dagPbBlock_def block_ok_def block_cid_def errs)

lemma chunk_block_Inr:
  "chunk_block C piece = Inr b \<longleftrightarrow> bk_bytes b = piece \<and> length piece \<le> 262144 \<and> block_ok C 0x55 b"
  by (cases b) (auto simp: chunk_block_def rawLeafCid_def block_ok_def block_cid_def errs)

lemma check_entries_Inr:
  "check_entries names es = Inr u \<longleftrightarrow>
     (\<forall>e\<in>set es. lk_name e \<noteq> [] \<and> lk_name e \<notin> set names) \<and> distinct (map lk_name es)"
  by (induction es arbitrary: names) (auto simp: image_iff)

lemma directoryNode_Inr:
  assumes "directoryNode C es = Inr b"
  shows "distinct (map lk_name es)" "\<forall>e\<in>set es. lk_name e \<noteq> []" "block_ok C 0x70 b"
    and "bindE unixfsDirectory (encodePbNode (sort_key (\<lambda>e. text_encode (lk_name e)) es)) = Inr (bk_bytes b)"
  using assms by (auto simp: directoryNode_def errs check_entries_Inr dagPbBlock_Inr)

text \<open>
  \<open>reaches C B n N cid names t\<close>: starting at the directory \<open>cid\<close>, the names lead to \<open>t\<close>
  through directory nodes of \<open>B\<close> with at most \<open>n\<close> entries each, all named by \<open>N\<close>.
\<close>

fun reaches :: "crypto \<Rightarrow> Block set \<Rightarrow> nat \<Rightarrow> jsstr set \<Rightarrow> jsstr \<Rightarrow> jsstr list \<Rightarrow> jsstr \<Rightarrow> bool" where
  "reaches C B n N cid [] t \<longleftrightarrow> cid = t"
| "reaches C B n N cid (name # names) t \<longleftrightarrow>
     (\<exists>b\<in>B. \<exists>es. \<exists>e\<in>set es. bk_cid b = cid \<and> directoryNode C es = Inr b \<and> length es \<le> n \<and>
        lk_name e = name \<and> (\<forall>x\<in>set es. canonical (lk_cid x) \<and> lk_name x \<in> N) \<and>
        reaches C B n N (lk_cid e) names t)"

lemma reaches_mono:
  "reaches C B n N cid names t \<Longrightarrow> B \<subseteq> B' \<Longrightarrow> n \<le> n' \<Longrightarrow> reaches C B' n' N cid names t"
proof (induction names arbitrary: cid)
  case (Cons name names)
  then show ?case by simp (meson order_trans subsetD)
qed simp

definition tree_wf :: "site_tree \<Rightarrow> bool" where
  "tree_wf tree \<longleftrightarrow> distinct (map fst tree) \<and> (\<forall>link\<in>snd ` set tree. canonical (lk_cid link)) \<and>
     (\<forall>path\<in>fst ` set tree. \<exists>qs. qs \<noteq> [] \<and> segments_ok qs \<and> path = join_path qs)"

lemma buildDirectory_Suc:
  assumes "buildDirectory C (Suc fuel) prefix tree = Inr (bs, cid, tsize)"
    and "foldl (level_step prefix) ([], []) tree = (es, ds)"
  obtains children node all where
    "mapE (\<lambda>name. buildDirectory C fuel (child_prefix prefix name) tree) ds = Inr children"
    "all = es @ map (\<lambda>(name, (_, cid, tsize)). \<lparr>lk_cid = cid, lk_name = name, lk_tsize = tsize\<rparr>) (zip ds children)"
    "directoryNode C all = Inr node" "bs = concat (map fst children) @ [node]" "cid = bk_cid node"
  using assms by (auto simp: errs Let_def)

lemma buildDirectory_canonical: "buildDirectory C fuel prefix tree = Inr (bs, cid, tsize) \<Longrightarrow> canonical cid"
  by (cases fuel) (auto simp: errs Let_def dest!: directoryNode_Inr(3) block_canonical split: prod.splits)

lemma zip_mem: "length xs = length ys \<Longrightarrow> x \<in> set xs \<Longrightarrow> \<exists>y. (x, y) \<in> set (zip xs ys)"
  by (metis in_set_impl_in_set_zip1)

lemma mapE_zip: "mapE f xs = Inr ys \<Longrightarrow> (x, y) \<in> set (zip xs ys) \<Longrightarrow> f x = Inr y"
  by (auto simp: mapE_eq_Inr list_all2_iff)

lemma buildDirectory_reaches:
  assumes "tree_wf tree" "segments_ok ps" "(ps @ rs, link) \<in> items tree" "rs \<noteq> []"
    and "buildDirectory C fuel (join_path ps) tree = Inr (bs, cid, tsize)"
    and names: "\<And>qs l. (qs, l) \<in> items tree \<Longrightarrow> set qs \<subseteq> N"
  shows "reaches C (set bs) (length tree) N cid rs (lk_cid link)"
  using assms(2-5)
proof (induction fuel arbitrary: ps rs bs cid tsize)
  case (Suc fuel)
  obtain es ds where level: "foldl (level_step (join_path ps)) ([], []) tree = (es, ds)"
    by (cases "foldl (level_step (join_path ps)) ([], []) tree")
  have spec: "set es = entries_below ps (items tree)" "set ds = dirs_below ps (items tree)"
    "length es + length ds \<le> length tree"
    using level_spec [OF level Suc.prems(1)] assms(1) unfolding tree_wf_def by blast+
  obtain children node all where c: "mapE (\<lambda>name. buildDirectory C fuel (child_prefix (join_path ps) name) tree) ds = Inr children"
    and all: "all = es @ map (\<lambda>(name, (_, cid, tsize)). \<lparr>lk_cid = cid, lk_name = name, lk_tsize = tsize\<rparr>) (zip ds children)"
    and node: "directoryNode C all = Inr node" "bs = concat (map fst children) @ [node]" "cid = bk_cid node"
    by (rule buildDirectory_Suc [OF Suc.prems(4) level])
  have "length all \<le> length tree" using spec(3) mapE_length [OF c] by (simp add: all)
  moreover have "canonical (lk_cid x) \<and> lk_name x \<in> N" if "x \<in> set all" for x
    using that
  proof (cases "x \<in> set es")
    case True
    then obtain name l where l: "(ps @ [name], l) \<in> items tree" "x = l\<lparr>lk_name := name\<rparr>"
      by (auto simp: spec(1) below_simps)
    then have "canonical (lk_cid l)" using assms(1) by (force simp: items_def tree_wf_def)
    then show ?thesis using l names [OF l(1)] by simp
  next
    case False
    with that obtain name cbs ccid cts where z: "(name, cbs, ccid, cts) \<in> set (zip ds children)"
      "x = \<lparr>lk_cid = ccid, lk_name = name, lk_tsize = cts\<rparr>" by (auto simp: all)
    obtain r rs' l where l: "(ps @ name # r # rs', l) \<in> items tree"
      using set_zip_leftD [OF z(1)] by (auto simp: spec(2) below_simps)
    have "name \<in> N" using names [OF l] by simp
    then show ?thesis using z buildDirectory_canonical [OF mapE_zip [OF c z(1)]] by simp
  qed
  ultimately have here: "reaches C (set bs) (length tree) N cid (name # names) t"
    if "e \<in> set all" "lk_name e = name" "reaches C (set bs) (length tree) N (lk_cid e) names t" for e name names t
    using that node by (auto intro!: exI [of _ all] bexI [of _ e])
  obtain name rest where rs: "rs = name # rest" using Suc.prems(3) by (cases rs) auto
  show ?case
  proof (cases rest)
    case Nil
    then have "link\<lparr>lk_name := name\<rparr> \<in> set es"
      using Suc.prems(2) rs by (auto simp: spec(1) below_simps)
    then show ?thesis using here [of "link\<lparr>lk_name := name\<rparr>" name "[]"] by (simp add: all rs Nil)
  next
    case (Cons r rest')
    then have "name \<in> set ds" using Suc.prems(2) rs by (auto simp: spec(2) below_simps)
    from zip_mem [OF mapE_length [OF c, symmetric] this]
    obtain child where child: "(name, child) \<in> set (zip ds children)" by blast
    obtain cbs ccid cts where ch: "child = (cbs, ccid, cts)" by (cases child)
    have ok: "segments_ok (ps @ [name])" using Suc.prems(2) rs by (auto simp: items_def)
    have "buildDirectory C fuel (join_path (ps @ [name])) tree = Inr (cbs, ccid, cts)"
      using mapE_zip [OF c child] ch child_prefix_join [OF Suc.prems(1)] by simp
    moreover have "((ps @ [name]) @ rest, link) \<in> items tree" "rest \<noteq> []" using Suc.prems(2) rs Cons by simp_all
    ultimately have "reaches C (set cbs) (length tree) N ccid rest (lk_cid link)"
      using Suc.IH [OF ok] by blast
    moreover have "set cbs \<subseteq> set bs"
      using child ch node(2) by (auto dest!: set_zip_rightD)
    ultimately have "reaches C (set bs) (length tree) N ccid rest (lk_cid link)"
      by (rule reaches_mono) simp
    moreover have "\<lparr>lk_cid = ccid, lk_name = name, lk_tsize = cts\<rparr> \<in> set all"
      using child ch by (force simp: all)
    ultimately show ?thesis using here by (fastforce simp: rs)
  qed
qed simp


subsection \<open>The import\<close>

lemma path_check_Inr:
  assumes "path_check path = Inr u"
  shows "split_on SLASH path \<noteq> [] \<and> segments_ok (split_on SLASH path) \<and> path = join_path (split_on SLASH path)"
  using assms split_on_parts [of _ SLASH path]
  by (auto simp: path_check_def segments_ok_def join_split list_ex_iff split: if_splits)

lemma fileBlocks_canonical:
  "fileBlocks C bs = Inr (blocks, cid, tsize) \<Longrightarrow> canonical cid"
  by (auto simp: fileBlocks_def errs Let_def chunk_block_Inr dagPbBlock_Inr dest: block_canonical split: if_splits)

text \<open>The last file with a path is the one the tree holds for it.\<close>

definition file_at :: "SiteFile list \<Rightarrow> SiteFile \<Rightarrow> bool" where
  "file_at files f \<longleftrightarrow> (\<exists>xs ys. files = xs @ f # ys \<and> sf_path f \<notin> sf_path ` set ys)"

lemma file_at_Cons: "file_at (g # files) f \<longleftrightarrow> g = f \<and> sf_path f \<notin> sf_path ` set files \<or> file_at files f"
  unfolding file_at_def by (auto simp: Cons_eq_append_conv)

lemma tree_wf_set:
  assumes "tree_wf tree" "path_check path = Inr u" "canonical (lk_cid link)"
  shows "tree_wf (map_set path link tree)"
proof -
  have keys: "fst ` set (map_set path link tree) = insert path (fst ` set tree)" by (simp add: dom_update)
  have links: "snd ` set (map_set path link tree) \<subseteq> insert link (snd ` set tree)"
    by (induction tree) auto
  show ?thesis
    unfolding tree_wf_def keys
  proof (intro conjI)
    show "distinct (map fst (map_set path link tree))"
      using assms(1) by (intro distinct_map_set) (simp add: tree_wf_def)
    show "\<forall>link\<in>snd ` set (map_set path link tree). canonical (lk_cid link)"
      using assms(1,3) links unfolding tree_wf_def by blast
    show "\<forall>path\<in>insert path (fst ` set tree). \<exists>qs. qs \<noteq> [] \<and> segments_ok qs \<and> path = join_path qs"
      using assms(1) path_check_Inr [OF assms(2)] unfolding tree_wf_def by blast
  qed
qed

lemma import_files_spec:
  assumes "import_files C files blocks tree = Inr (bs, t)" "tree_wf tree"
  shows "tree_wf t \<and> set blocks \<subseteq> set bs \<and> length t \<le> length tree + length files \<and>
    (\<forall>path. path \<notin> sf_path ` set files \<longrightarrow> map_get t path = map_get tree path) \<and>
    (\<forall>f. file_at files f \<longrightarrow> path_check (sf_path f) = Inr () \<and>
       (\<exists>fbs cid tsize. fileBlocks C (sf_content f) = Inr (fbs, cid, tsize) \<and> set fbs \<subseteq> set bs \<and>
          map_get t (sf_path f) = Some \<lparr>lk_cid = cid, lk_name = sf_path f, lk_tsize = tsize\<rparr>))"
  using assms
proof (induction files arbitrary: blocks tree)
  case Nil
  then show ?case by (simp add: file_at_def)
next
  case (Cons g files)
  obtain gbs cid tsize where g: "path_check (sf_path g) = Inr ()" "fileBlocks C (sf_content g) = Inr (gbs, cid, tsize)"
    "import_files C files (blocks @ gbs) (map_set (sf_path g) \<lparr>lk_cid = cid, lk_name = sf_path g, lk_tsize = tsize\<rparr> tree) = Inr (bs, t)"
    using Cons.prems(1) by (auto simp: errs)
  have wf: "tree_wf (map_set (sf_path g) \<lparr>lk_cid = cid, lk_name = sf_path g, lk_tsize = tsize\<rparr> tree)"
    using tree_wf_set [OF Cons.prems(2) g(1)] fileBlocks_canonical [OF g(2)] by simp
  note ih = Cons.IH [OF g(3) wf]
  show ?case
    using ih g(1,2) length_map_set_le [of "sf_path g" "\<lparr>lk_cid = cid, lk_name = sf_path g, lk_tsize = tsize\<rparr>" tree]
    by (auto simp: file_at_Cons)
qed

lemma import_files_keys:
  "import_files C files blocks tree = Inr (bs, t) \<Longrightarrow> fst ` set t \<subseteq> fst ` set tree \<union> sf_path ` set files"
proof (induction files arbitrary: blocks tree)
  case (Cons f files)
  then obtain gbs link where "import_files C files (blocks @ gbs) (map_set (sf_path f) link tree) = Inr (bs, t)"
    by (auto simp: errs)
  from Cons.IH [OF this] show ?case by (auto simp: dom_update)
qed simp

lemma importSite_reaches:
  assumes "importSite C files = Inr (blocks, cid0)" "file_at files f"
  obtains fbs cid tsize where "fileBlocks C (sf_content f) = Inr (fbs, cid, tsize)" "set fbs \<subseteq> set blocks"
    "reaches C (set blocks) (length files) (\<Union>g\<in>set files. set (split_on SLASH (sf_path g))) cid0
       (split_on SLASH (sf_path f)) cid"
    "segments_ok (split_on SLASH (sf_path f))"
proof -
  obtain bs tree dbs tsize0 where i: "import_files C files [] [] = Inr (bs, tree)"
    "buildDirectory C (Suc (longest_path files)) (join_path []) tree = Inr (dbs, cid0, tsize0)" "blocks = bs @ dbs"
    using assms(1) by (auto simp: importSite_def errs)
  note spec = import_files_spec [OF i(1), unfolded tree_wf_def, simplified, folded tree_wf_def]
  obtain fbs cid tsize where f: "path_check (sf_path f) = Inr ()" "fileBlocks C (sf_content f) = Inr (fbs, cid, tsize)"
    "set fbs \<subseteq> set bs" "map_get tree (sf_path f) = Some \<lparr>lk_cid = cid, lk_name = sf_path f, lk_tsize = tsize\<rparr>"
    using spec assms(2) by blast
  note path = path_check_Inr [OF f(1)]
  have wf: "tree_wf tree" and len: "length tree \<le> length files" using spec by (auto simp: tree_wf_def)
  have item: "([] @ split_on SLASH (sf_path f), \<lparr>lk_cid = cid, lk_name = sf_path f, lk_tsize = tsize\<rparr>) \<in> items tree"
    using map_of_SomeD [OF f(4)] path by (simp add: items_def)
  have names: "set qs \<subseteq> (\<Union>g\<in>set files. set (split_on SLASH (sf_path g)))" if q: "(qs, l) \<in> items tree" for qs l
  proof -
    have "join_path qs \<in> fst ` set tree" "split_on SLASH (join_path qs) = qs"
      using q split_join [of qs] by (force simp: items_def segments_ok_def)+
    then show ?thesis using import_files_keys [OF i(1)] by fastforce
  qed
  have "reaches C (set dbs) (length tree) (\<Union>g\<in>set files. set (split_on SLASH (sf_path g))) cid0
      (split_on SLASH (sf_path f)) cid"
    using buildDirectory_reaches [OF wf _ item _ i(2) names] by simp
  then have "reaches C (set blocks) (length files) (\<Union>g\<in>set files. set (split_on SLASH (sf_path g))) cid0
      (split_on SLASH (sf_path f)) cid"
    by (rule reaches_mono) (use i(3) len in auto)
  with f path i(3) that show thesis by fastforce
qed


subsection \<open>Refusals\<close>

definition fails_only :: "'e set \<Rightarrow> 'e + 'a \<Rightarrow> bool" where
  "fails_only E r \<longleftrightarrow> (\<forall>e. r = Inl e \<longrightarrow> e \<in> E)"

lemma fails_only_simps [simp]:
  "fails_only E (Inr x)" "fails_only E (Inl e) \<longleftrightarrow> e \<in> E"
  by (simp_all add: fails_only_def)

lemma fails_only_bind:
  "fails_only E m \<Longrightarrow> (\<And>x. m = Inr x \<Longrightarrow> fails_only E (f x)) \<Longrightarrow> fails_only E (bindE m f)"
  by (cases m) simp_all

lemma fails_only_mapE: "(\<And>x. x \<in> set xs \<Longrightarrow> fails_only E (f x)) \<Longrightarrow> fails_only E (mapE f xs)"
  by (induction xs) (auto intro!: fails_only_bind)

lemma fails_only_mono: "fails_only E r \<Longrightarrow> E \<subseteq> E' \<Longrightarrow> fails_only E' r"
  by (auto simp: fails_only_def)

definition sha256_length_ok :: "crypto \<Rightarrow> bool" where
  "sha256_length_ok C \<longleftrightarrow> (\<forall>m. length (sha256 C m) = 32)"

lemma encodes_fail_only:
  "fails_only {VARINT_VALUE} (pb_varint n)"
  "fails_only {VARINT_VALUE} (lengthDelimited k p)"
  "fails_only {VARINT_VALUE} (varintField k n)"
  "fails_only {VARINT_VALUE} (unixfsFile ns)"
  "fails_only {VARINT_VALUE} unixfsDirectory"
  by (auto simp: pb_varint_def lengthDelimited_def varintField_def tag_def unixfsFile_def
      unixfsDirectory_def intro!: fails_only_bind fails_only_mapE)

lemma pbLink_fails_only:
  assumes "canonical (lk_cid link)"
  shows "fails_only {VARINT_VALUE} (pbLink link)"
proof -
  obtain c where "decodeCid (lk_cid link) = Inr c"
    using assms decodeCid_encodeCid by (auto simp: canonical_def)
  then show ?thesis by (auto simp: pbLink_def intro!: fails_only_bind encodes_fail_only)
qed

lemma encodePbNode_fails_only:
  "\<forall>l\<in>set links. canonical (lk_cid l) \<Longrightarrow> fails_only {VARINT_VALUE} (encodePbNode links p)"
  by (auto simp: encodePbNode_def intro!: fails_only_bind fails_only_mapE encodes_fail_only pbLink_fails_only)

lemma encodeCid_block:
  "sha256_length_ok C \<Longrightarrow> codec \<in> {0x55, 0x70} \<Longrightarrow>
     \<exists>s. encodeCid \<lparr>cid_version = 1, cid_codec = codec, cid_digest = sha256 C bs\<rparr> = Inr s"
  by (rule encodeCid_total) (simp add: cid_ok_def sha256_length_ok_def)

lemma dagPbBlock_total: "sha256_length_ok C \<Longrightarrow> \<exists>b. dagPbBlock C bs = Inr b"
  using encodeCid_block [of C "0x70" bs] by (auto simp: dagPbBlock_def)

lemma chunk_block_total: "sha256_length_ok C \<Longrightarrow> length piece \<le> 262144 \<Longrightarrow> \<exists>b. chunk_block C piece = Inr b"
  using encodeCid_block [of C "0x55" piece] by (auto simp: chunk_block_def rawLeafCid_def)

lemma fileBlocks_fails_only:
  assumes "sha256_length_ok C"
  shows "fails_only {VARINT_VALUE} (fileBlocks C bs)"
proof -
  obtain ps where ps: "chunk bs 262144 = Inr ps" by (simp add: chunk_def)
  have small: "\<forall>p\<in>set ps. length p \<le> 262144" "ps \<noteq> []" using chunk_spec [OF ps] by simp_all
  then obtain b where "chunk_block C (hd ps) = Inr b"
    using chunk_block_total [OF assms, of "hd ps"] by auto
  moreover obtain bl where bl: "mapE (chunk_block C) ps = Inr bl"
    using small(1) chunk_block_total [OF assms] mapE_total [of "chunk_block C" ps] by blast
  moreover have "canonical (lk_cid (chunk_link x))" if "x \<in> set bl" for x
    using that list_all2_set2 [OF bl [unfolded mapE_eq_Inr] that]
    by (auto simp: chunk_block_Inr chunk_link_def dest: block_canonical)
  moreover have "fails_only {VARINT_VALUE} (dagPbBlock C n)" for n
    using dagPbBlock_total [OF assms, of n] by auto
  ultimately show ?thesis
    using ps by (auto simp: fileBlocks_def Let_def
        intro!: fails_only_bind encodes_fail_only encodePbNode_fails_only)
qed

lemma directoryNode_fails_only:
  assumes "sha256_length_ok C" "\<forall>e\<in>set es. canonical (lk_cid e) \<and> lk_name e \<noteq> []"
  shows "fails_only {ENTRY_DUPLICATE, VARINT_VALUE} (directoryNode C es)"
proof -
  let ?E = "{ENTRY_DUPLICATE, VARINT_VALUE}"
  have "fails_only ?E (check_entries names es)" for names
    using assms(2) by (induction es arbitrary: names) auto
  moreover have "fails_only ?E (dagPbBlock C n)" for n
    using dagPbBlock_total [OF assms(1), of n] by auto
  moreover have "fails_only ?E (encodePbNode (sort_key (\<lambda>e. text_encode (lk_name e)) es) p)" for p
    using assms(2) by (intro fails_only_mono [OF encodePbNode_fails_only]) auto
  moreover have "fails_only ?E unixfsDirectory"
    by (rule fails_only_mono [OF encodes_fail_only(5)]) simp
  ultimately show ?thesis unfolding directoryNode_def by (intro fails_only_bind)
qed

lemma buildDirectory_fails_only:
  assumes "sha256_length_ok C" "tree_wf tree"
  shows "segments_ok ps \<Longrightarrow> \<forall>rs link. (ps @ rs, link) \<in> items tree \<longrightarrow> length rs \<le> fuel \<Longrightarrow> 0 < fuel \<Longrightarrow>
    fails_only {ENTRY_DUPLICATE, VARINT_VALUE} (buildDirectory C fuel (join_path ps) tree)"
proof (induction fuel arbitrary: ps)
  case (Suc fuel)
  obtain es ds where level: "foldl (level_step (join_path ps)) ([], []) tree = (es, ds)"
    by (cases "foldl (level_step (join_path ps)) ([], []) tree")
  have spec: "set es = entries_below ps (items tree)" "set ds = dirs_below ps (items tree)"
    using level_spec [OF level Suc.prems(1)] assms(2) unfolding tree_wf_def by blast+
  have dirs: "fails_only {ENTRY_DUPLICATE, VARINT_VALUE}
      (buildDirectory C fuel (child_prefix (join_path ps) name) tree)" if "name \<in> set ds" for name
  proof -
    obtain r rs l where r: "(ps @ name # r # rs, l) \<in> items tree"
      using \<open>name \<in> set ds\<close> by (auto simp: spec(2) below_simps)
    then have "length (name # r # rs) \<le> Suc fuel" using Suc.prems(2) by blast
    then have "0 < fuel" by simp
    moreover have "segments_ok (ps @ [name])" using r by (simp add: items_def)
    moreover have "\<forall>rs link. ((ps @ [name]) @ rs, link) \<in> items tree \<longrightarrow> length rs \<le> fuel"
    proof (intro allI impI)
      fix rs link assume "((ps @ [name]) @ rs, link) \<in> items tree"
      then have "(ps @ name # rs, link) \<in> items tree" by simp
      then have "length (name # rs) \<le> Suc fuel" using Suc.prems(2) by blast
      then show "length rs \<le> fuel" by simp
    qed
    ultimately show ?thesis unfolding child_prefix_join [OF Suc.prems(1)] by (intro Suc.IH)
  qed
  have names: "canonical (lk_cid e) \<and> lk_name e \<noteq> []" if "e \<in> set es" for e
    using that assms(2) by (auto simp: spec(1) below_simps items_def tree_wf_def)
  have dnames: "name \<noteq> []" if "name \<in> set ds" for name
    using that by (auto simp: spec(2) below_simps items_def)
  show ?case
    unfolding buildDirectory.simps level prod.case Let_def
  proof (intro fails_only_bind fails_only_mapE)
    fix children
    assume c: "mapE (\<lambda>name. buildDirectory C fuel (child_prefix (join_path ps) name) tree) ds = Inr children"
    have "canonical cid \<and> name \<noteq> []" if z: "(name, cbs, cid, cts) \<in> set (zip ds children)" for name cbs cid cts
      using buildDirectory_canonical [OF mapE_zip [OF c z]] dnames set_zip_leftD [OF z] by blast
    then show "fails_only {ENTRY_DUPLICATE, VARINT_VALUE} (directoryNode C (es @
        map (\<lambda>(name, (_, cid, tsize)). \<lparr>lk_cid = cid, lk_name = name, lk_tsize = tsize\<rparr>) (zip ds children)))"
      using names by (intro directoryNode_fails_only [OF assms(1)]) auto
  qed (simp_all add: dirs)
qed simp


lemma import_files_fails_only:
  assumes "sha256_length_ok C"
  shows "fails_only {PATH_NOT_RELATIVE, PATH_SEGMENT, VARINT_VALUE} (import_files C files blocks tree)"
proof (induction files arbitrary: blocks tree)
  case (Cons f files)
  have "fails_only {PATH_NOT_RELATIVE, PATH_SEGMENT, VARINT_VALUE} (path_check (sf_path f))"
    by (simp add: path_check_def)
  moreover have "fails_only {PATH_NOT_RELATIVE, PATH_SEGMENT, VARINT_VALUE} (fileBlocks C (sf_content f))"
    by (rule fails_only_mono [OF fileBlocks_fails_only [OF assms]]) simp
  ultimately show ?case
    unfolding import_files.simps by (intro fails_only_bind) (auto split: prod.splits simp: Cons.IH)
qed simp

lemma longest_path: "f \<in> set files \<Longrightarrow> length (sf_path f) \<le> longest_path files"
  by (induction files) (auto simp: longest_path_def)

lemma length_join_path: "segments_ok qs \<Longrightarrow> length qs \<le> length (join_path qs)"
proof (induction qs rule: join_path.induct)
  case (2 p)
  then show ?case by (cases p) auto
qed auto

text \<open>
  Publishing is total up to the checks it names: an import is refused only for a path that is
  not relative or has an empty, \<open>.\<close> or \<open>..\<close> segment, for a name that would be both a file and a
  directory, or for sizes above $2^{53}$. It never refuses its own identifiers and never runs out of
  recursion depth, whatever the files are.
\<close>

theorem import_total:
  assumes "sha256_length_ok C"
  shows "(\<exists>blocks cid. importSite C files = Inr (blocks, cid)) \<or>
    (\<exists>e \<in> {PATH_NOT_RELATIVE, PATH_SEGMENT, ENTRY_DUPLICATE, VARINT_VALUE}. importSite C files = Inl e)"
proof -
  let ?E = "{PATH_NOT_RELATIVE, PATH_SEGMENT, ENTRY_DUPLICATE, VARINT_VALUE}"
  have dirs: "fails_only ?E (buildDirectory C (Suc (longest_path files)) [] tree)"
    if i: "import_files C files [] [] = Inr (bs, tree)" for bs tree
  proof -
    have wf: "tree_wf tree" using import_files_spec [OF i] by (simp add: tree_wf_def)
    have "length rs \<le> Suc (longest_path files)" if "(rs, link) \<in> items tree" for rs link
    proof -
      have rs: "segments_ok rs" "join_path rs \<in> fst ` set tree"
        using that by (force simp: items_def)+
      then obtain f where "f \<in> set files" "join_path rs = sf_path f"
        using import_files_keys [OF i] by auto
      then show ?thesis using longest_path [of f files] length_join_path [OF rs(1)] by simp
    qed
    from buildDirectory_fails_only [OF assms wf, of "[]" "Suc (longest_path files)"] this
    have "fails_only {ENTRY_DUPLICATE, VARINT_VALUE} (buildDirectory C (Suc (longest_path files)) [] tree)" by simp
    then show ?thesis by (rule fails_only_mono) simp
  qed
  have "fails_only ?E (import_files C files [] [])"
    by (rule fails_only_mono [OF import_files_fails_only [OF assms]]) auto
  then have "fails_only ?E (importSite C files)"
    unfolding importSite_def using dirs
    by (intro fails_only_bind) (auto split: prod.splits intro!: fails_only_bind simp del: buildDirectory.simps)
  then show ?thesis unfolding fails_only_def by (cases "importSite C files") auto
qed

definition sample_site :: "SiteFile list" where
  "sample_site = [\<lparr>sf_path = js ''a/i'', sf_content = [1, 2]\<rparr>, \<lparr>sf_path = js ''r'', sf_content = [3]\<rparr>]"

lemma sample_sha256_length: "sha256_length_ok sample_crypto"
  by (simp add: sha256_length_ok_def)

theorem import_total_witness: "\<exists>blocks cid. importSite sample_crypto [] = Inr (blocks, cid)"
proof -
  have "importSite sample_crypto [] \<noteq> Inl e" if "e \<in> {PATH_NOT_RELATIVE, PATH_SEGMENT, ENTRY_DUPLICATE, VARINT_VALUE}" for e
  proof -
    have dir: "unixfsDirectory = Inr [8, 1]" and enc: "encodePbNode [] [8, 1] = Inr [0x0a, 2, 8, 1]"
      by (simp_all add: unixfsDirectory_def varintField_def encodePbNode_def lengthDelimited_def tag_def
          pb_varint_def UNIXFS_TYPE_def varint_small MAX_SAFE_INTEGER_def)
    obtain b where "dagPbBlock sample_crypto [0x0a, 2, 8, 1] = Inr b"
      using dagPbBlock_total [OF sample_sha256_length] by blast
    then have "directoryNode sample_crypto [] = Inr b" by (simp add: directoryNode_def dir enc)
    then show ?thesis by (simp add: importSite_def longest_path_def)
  qed
  then show ?thesis using import_total [OF sample_sha256_length, of "[]"] by blast
qed

end
