(* ===== verification/Utf8_Lossy.thy ===== *)
theory Utf8_Lossy
  imports Utf8
begin

section \<open>The forgiving text decoder\<close>

text \<open>
  \<open>new TextDecoder('utf-8', { fatal: false })\<close> of the platform: every maximal ill-formed
  part becomes U+FFFD, a leading byte order mark is dropped. Used by registry/src/fetch.ts for the
  names in directories. It agrees with the strict decoder where that one accepts, and gives back
  every well-formed string that does not start with U+FEFF.
\<close>

text \<open>The bounds of the second byte of a sequence.\<close>

definition second_lower :: "byte \<Rightarrow> nat" where
  "second_lower a = (if unat a = 0xE0 then 0xA0 else if unat a = 0xF0 then 0x90 else 0x80)"

definition second_upper :: "byte \<Rightarrow> nat" where
  "second_upper a = (if unat a = 0xED then 0x9F else if unat a = 0xF4 then 0x8F else 0xBF)"

definition second_ok :: "byte \<Rightarrow> byte \<Rightarrow> bool" where
  "second_ok a b \<longleftrightarrow> second_lower a \<le> unat b \<and> unat b \<le> second_upper a"

fun utf8_lossy :: "bytes \<Rightarrow> nat list" where
  "utf8_lossy [] = []"
| "utf8_lossy (a # s) =
     (if unat a < 0x80 then unat a # utf8_lossy s
      else if 0xC2 \<le> unat a \<and> unat a < 0xE0 then
        (case s of
           b # s' \<Rightarrow> if continuation b then scalar2 a b # utf8_lossy s' else 0xFFFD # utf8_lossy s
         | [] \<Rightarrow> [0xFFFD])
      else if 0xE0 \<le> unat a \<and> unat a < 0xF0 then
        (case s of
           b # s' \<Rightarrow>
             if second_ok a b then
               (case s' of
                  c # s'' \<Rightarrow>
                    if continuation c then scalar3 a b c # utf8_lossy s'' else 0xFFFD # utf8_lossy s'
                | [] \<Rightarrow> [0xFFFD])
             else 0xFFFD # utf8_lossy s
         | [] \<Rightarrow> [0xFFFD])
      else if 0xF0 \<le> unat a \<and> unat a < 0xF5 then
        (case s of
           b # s' \<Rightarrow>
             if second_ok a b then
               (case s' of
                  c # s'' \<Rightarrow>
                    if continuation c then
                      (case s'' of
                         d # s3 \<Rightarrow>
                           if continuation d then scalar4 a b c d # utf8_lossy s3 else 0xFFFD # utf8_lossy s''
                       | [] \<Rightarrow> [0xFFFD])
                    else 0xFFFD # utf8_lossy s'
                | [] \<Rightarrow> [0xFFFD])
             else 0xFFFD # utf8_lossy s
         | [] \<Rightarrow> [0xFFFD])
      else 0xFFFD # utf8_lossy s)"

definition text_decode_lossy :: "bytes \<Rightarrow> jsstr" where
  "text_decode_lossy bs = concat (map units_of (utf8_lossy (strip_bom bs)))"

lemmas [exec] = second_lower_def second_upper_def second_ok_def text_decode_lossy_def

subsection \<open>Agreement with the encoder\<close>

text \<open>A string without lone surrogates.\<close>

definition well_formed :: "jsstr \<Rightarrow> bool" where
  "well_formed s \<longleftrightarrow> concat (map units_of (scalars s)) = s"

lemma unat_byte_nat: "n < 256 \<Longrightarrow> unat (word_of_nat n :: byte) = n"
  by (simp add: unat_of_nat)

lemma lossy_sequences:
  "unat a < 0x80 \<Longrightarrow> utf8_lossy (a # s) = unat a # utf8_lossy s"
  "0xC2 \<le> unat a \<Longrightarrow> unat a < 0xE0 \<Longrightarrow> continuation b \<Longrightarrow>
     utf8_lossy (a # b # s) = scalar2 a b # utf8_lossy s"
  "0xE0 \<le> unat a \<Longrightarrow> unat a < 0xF0 \<Longrightarrow> second_ok a b \<Longrightarrow> continuation c \<Longrightarrow>
     utf8_lossy (a # b # c # s) = scalar3 a b c # utf8_lossy s"
  "0xF0 \<le> unat a \<Longrightarrow> unat a < 0xF5 \<Longrightarrow> second_ok a b \<Longrightarrow> continuation c \<Longrightarrow> continuation d \<Longrightarrow>
     utf8_lossy (a # b # c # d # s) = scalar4 a b c d # utf8_lossy s"
  by simp_all

declare utf8_lossy.simps(2) [simp del]

lemma scalar_digits:
  fixes c :: nat
  shows "c = c div 64 * 64 + c mod 64"
    and "c = c div 4096 * 4096 + c div 64 mod 64 * 64 + c mod 64"
    and "c = c div 262144 * 262144 + c div 4096 mod 64 * 4096 + c div 64 mod 64 * 64 + c mod 64"
proof -
  have d: "c div 64 div 64 = c div 4096" "c div 4096 div 64 = c div 262144" by (simp_all add: div_mult2_eq [symmetric])
  have "c = c div 64 * 64 + c mod 64" "c div 64 = c div 4096 * 64 + c div 64 mod 64"
    "c div 4096 = c div 262144 * 64 + c div 4096 mod 64"
    using div_mult_mod_eq [of c 64] div_mult_mod_eq [of "c div 64" 64] div_mult_mod_eq [of "c div 4096" 64]
    unfolding d by simp_all
  then show "c = c div 64 * 64 + c mod 64"
    and "c = c div 4096 * 4096 + c div 64 mod 64 * 64 + c mod 64"
    and "c = c div 262144 * 262144 + c div 4096 mod 64 * 4096 + c div 64 mod 64 * 64 + c mod 64"
    by linarith+
qed

lemma lossy_char:
  assumes "is_scalar c"
  shows "utf8_lossy (utf8_char c @ s) = c # utf8_lossy s"
proof -
  consider "c < 0x80" | "0x80 \<le> c" "c < 0x800" | "0x800 \<le> c" "c < 0x10000" | "0x10000 \<le> c" "c < 0x110000"
  proof -
    have "c < 0x110000" using assms by (auto simp: is_scalar_def)
    then show thesis using that by linarith
  qed
  then show ?thesis
  proof cases
    case 1
    then show ?thesis by (simp add: utf8_char_def unat_byte_nat lossy_sequences(1) del: of_nat_numeral)
  next
    case 2
    have bounds: "c div 64 < 32" "2 \<le> c div 64" using 2 by (simp_all add: less_mult_imp_div_less)
    obtain a b :: byte where u: "utf8_char c = [a, b]" "unat a = 0xC0 + c div 64" "unat b = 0x80 + c mod 64"
      using 2 bounds unat_byte_nat [of "0xC0 + c div 64"] unat_byte_nat [of "0x80 + c mod 64"]
      unfolding utf8_char_def by simp
    show ?thesis using bounds unfolding u(1)
      by (simp add: lossy_sequences(2) u(2,3) continuation_def scalar2_def)
  next
    case 3
    define x y z where d: "x = c div 4096" "y = c div 64 mod 64" "z = c mod 64"
    have digits: "c = x * 4096 + y * 64 + z" unfolding d by (rule scalar_digits(2))
    have small: "y < 64" "z < 64" by (simp_all add: d)
    have bounds: "x < 16" using 3(2) unfolding d(1) by (simp add: less_mult_imp_div_less)
    obtain a b e :: byte where u: "utf8_char c = [a, b, e]" "unat a = 0xE0 + x"
      "unat b = 0x80 + y" "unat e = 0x80 + z"
      using 3 bounds small unat_byte_nat [of "0xE0 + x"] unat_byte_nat [of "0x80 + y"] unat_byte_nat [of "0x80 + z"]
      unfolding utf8_char_def d [symmetric] by simp
    have "x = 0 \<longrightarrow> 32 \<le> y" using 3(1) digits small by auto
    moreover have "x = 13 \<longrightarrow> y < 32"
      using assms digits small by (auto simp: is_scalar_def)
    ultimately have "second_ok a b"
      using bounds small u(2,3) by (auto simp: second_ok_def second_lower_def second_upper_def)
    then show ?thesis using bounds small digits unfolding u(1)
      by (simp add: lossy_sequences(3) u(2-) continuation_def scalar3_def)
  next
    case 4
    define w x y z where d: "w = c div 262144" "x = c div 4096 mod 64" "y = c div 64 mod 64" "z = c mod 64"
    have digits: "c = w * 262144 + x * 4096 + y * 64 + z" unfolding d by (rule scalar_digits(3))
    have small: "x < 64" "y < 64" "z < 64" by (simp_all add: d)
    have bounds: "w < 5" using 4(2) unfolding d(1) by (simp add: less_mult_imp_div_less)
    obtain a b e f :: byte where u: "utf8_char c = [a, b, e, f]" "unat a = 0xF0 + w"
      "unat b = 0x80 + x" "unat e = 0x80 + y" "unat f = 0x80 + z"
      using 4 bounds small unat_byte_nat [of "0xF0 + w"] unat_byte_nat [of "0x80 + x"]
        unat_byte_nat [of "0x80 + y"] unat_byte_nat [of "0x80 + z"]
      unfolding utf8_char_def d [symmetric] by simp
    have "w = 0 \<longrightarrow> 16 \<le> x" "w = 4 \<longrightarrow> x < 16" using 4 digits small by auto
    then have "second_ok a b"
      using bounds small u(2,3) by (auto simp: second_ok_def second_lower_def second_upper_def)
    then show ?thesis using bounds small digits unfolding u(1)
      by (simp add: lossy_sequences(4) u(2-) continuation_def scalar4_def)
  qed
qed

lemma lossy_chars: "\<forall>c\<in>set cs. is_scalar c \<Longrightarrow> utf8_lossy (concat (map utf8_char cs) @ s) = cs @ utf8_lossy s"
  by (induction cs) (simp_all add: lossy_char)

lemma unit_less: "unat (u :: 16 word) < 65536"
  by (rule order_less_le_trans [OF unsigned_less]) simp

lemma unit_scalar_ok: "is_scalar (unit_scalar u)"
  using unit_less [of u] by (auto simp: is_scalar_def unit_scalar_def high_surrogate_def low_surrogate_def)

lemma scalars_ok: "\<forall>c\<in>set (scalars s). is_scalar c"
proof (induction s rule: scalars.induct)
  case (3 u v s)
  then show ?case
    by (auto simp: unit_scalar_ok) (auto simp: is_scalar_def high_surrogate_def low_surrogate_def)
qed (auto simp: unit_scalar_ok)

lemma lossy_encode: "utf8_lossy (text_encode s) = scalars s"
  using lossy_chars [OF scalars_ok, of s "[]"] by (simp add: text_encode_def)

text \<open>The strings the encoder and the forgiving decoder carry unchanged.\<close>

lemma text_decode_lossy_encode:
  "well_formed s \<Longrightarrow> take 3 (text_encode s) \<noteq> BOM \<Longrightarrow> text_decode_lossy (text_encode s) = s"
  by (simp add: text_decode_lossy_def strip_bom_def lossy_encode well_formed_def)

lemma well_formed_inject:
  "well_formed s \<Longrightarrow> well_formed t \<Longrightarrow> text_encode s = text_encode t \<Longrightarrow> s = t"
  using lossy_encode [of s] lossy_encode [of t] by (simp add: well_formed_def)

lemma well_formed_ascii:
  assumes "is_ascii s"
  shows "well_formed s" "take 3 (text_encode s) \<noteq> BOM"
proof -
  have "concat (map units_of (map unat s)) = s"
    using assms by (induction s) (auto simp: is_ascii_def units_of_def)
  then show "well_formed s" using assms by (simp add: well_formed_def scalars_ascii)
  have small: "unat b < 0x80" if "b \<in> set (text_encode s)" for b
    using assms that by (auto simp: text_encode_ascii is_ascii_def unat_ucast_byte)
  show "take 3 (text_encode s) \<noteq> BOM"
  proof
    assume "take 3 (text_encode s) = BOM"
    then have "(0xEF :: byte) \<in> set (take 3 (text_encode s))" by (simp add: BOM_def)
    then have "(0xEF :: byte) \<in> set (text_encode s)" by (rule in_set_takeD)
    then show False using small [of "0xEF"] by simp
  qed
qed

end
