(* ===== verification/Fetch.thy ===== *)
theory Fetch
  imports Unixfs Utf8_Lossy Domain
begin

section \<open>Reading a site back from untrusted blocks (registry/src/fetch.ts)\<close>

text \<open>
  The protobuf reader, the dag-pb and UnixFS decoder, and the verified traversal. A block source is
  whatever answers a request for a CID: it may keep a state, change its mind and lie. The budget of
  a request is threaded through the traversal together with the state of the source.
\<close>

subsection \<open>Limits and refusals\<close>

record fetch_limits =
  fl_blocks :: nat
  fl_depth :: nat
  fl_resourceBytes :: nat
  fl_blockBytes :: nat
  fl_linksPerNode :: nat

definition FETCH_LIMITS :: fetch_limits where
  "FETCH_LIMITS =
     \<lparr>fl_blocks = 4096, fl_depth = 32, fl_resourceBytes = 256 * 1024 * 1024, fl_blockBytes = 1024 * 1024,
      fl_linksPerNode = 8192\<rparr>"

lemma fetch_limits_simps [simp]:
  "fl_blocks FETCH_LIMITS = 4096" "fl_depth FETCH_LIMITS = 32" "fl_resourceBytes FETCH_LIMITS = 268435456"
  "fl_blockBytes FETCH_LIMITS = 1048576" "fl_linksPerNode FETCH_LIMITS = 8192"
  by (simp_all add: FETCH_LIMITS_def)

datatype fetch_rejection =
    CONTENT_INTEGRITY | CONTENT_UNAVAILABLE | RESPONSE_TOO_LARGE | MALFORMED_BLOCK | PATH_NOT_FOUND

text \<open>A throw of this module, or one of content.ts that escapes it.\<close>

datatype fetch_error = Refused fetch_rejection | Escaped content_error

subsection \<open>Protobuf\<close>

record Field =
  fd_number :: nat
  fd_varint :: nat
  fd_bytes :: bytes

fun pb_read_loop :: "nat \<Rightarrow> bytes \<Rightarrow> nat \<Rightarrow> nat \<Rightarrow> fetch_error + nat \<times> bytes" where
  "pb_read_loop 0 bs result shift = Inl (Refused MALFORMED_BLOCK)"
| "pb_read_loop (Suc reads) [] result shift = Inl (Refused MALFORMED_BLOCK)"
| "pb_read_loop (Suc reads) (b # bs) result shift =
     (let result = result + unat (b AND 0x7f) * shift in
      if b AND 0x80 = 0 then failIf (int result > MAX_SAFE_INTEGER) (Refused MALFORMED_BLOCK) (Inr (result, bs))
      else pb_read_loop reads bs result (shift * 128))"

definition pb_readVarint :: "bytes \<Rightarrow> fetch_error + nat \<times> bytes" where
  "pb_readVarint bs = pb_read_loop 10 bs 0 1"

lemma pb_read_shrinks: "pb_read_loop n bs r s = Inr (v, rest) \<Longrightarrow> length rest < length bs"
  by (induction n bs r s rule: pb_read_loop.induct) (auto simp: Let_def split: if_splits)

function readFields :: "bytes \<Rightarrow> fetch_error + Field list" where
  "readFields bs =
     (if bs = [] then Inr []
      else (case pb_readVarint bs of
          Inl e \<Rightarrow> Inl e
        | Inr (key, r) \<Rightarrow>
            if key div 8 = 0 then Inl (Refused MALFORMED_BLOCK)
            else if key mod 8 = 0 then
              (case pb_readVarint r of
                 Inl e \<Rightarrow> Inl e
               | Inr (v, r2) \<Rightarrow>
                   bindE (readFields r2) (\<lambda>fs. Inr (\<lparr>fd_number = key div 8, fd_varint = v, fd_bytes = []\<rparr> # fs)))
            else if key mod 8 = 2 then
              (case pb_readVarint r of
                 Inl e \<Rightarrow> Inl e
               | Inr (len, r2) \<Rightarrow>
                   if len > length r2 then Inl (Refused MALFORMED_BLOCK)
                   else bindE (readFields (drop len r2)) (\<lambda>fs.
                     Inr (\<lparr>fd_number = key div 8, fd_varint = 0, fd_bytes = take len r2\<rparr> # fs)))
            else Inl (Refused MALFORMED_BLOCK)))"
  by pat_completeness auto
termination
  by (relation "measure length") (auto simp: pb_readVarint_def dest!: pb_read_shrinks)

declare readFields.simps [simp del]

subsection \<open>dag-pb and UnixFS\<close>

record DecodedNode =
  dn_links :: "Link list"
  dn_type :: int
  dn_filesize :: nat
  dn_blocksizes :: "nat list"

abbreviation throw :: "fetch_rejection \<Rightarrow> fetch_error + 'a" where
  "throw r \<equiv> Inl (Refused r)"

definition escaping :: "content_error + 'a \<Rightarrow> fetch_error + 'a" where
  "escaping r = (case r of Inl e \<Rightarrow> Inl (Escaped e) | Inr x \<Rightarrow> Inr x)"

definition linkCid :: "bytes \<Rightarrow> fetch_error + jsstr" where
  "linkCid hash =
     bindE (pb_readVarint hash) (\<lambda>(version, r).
     bindE (pb_readVarint r) (\<lambda>(codec, r).
     bindE (pb_readVarint r) (\<lambda>(fn, r).
     bindE (pb_readVarint r) (\<lambda>(len, r).
     failIf (version \<noteq> 1) (Refused MALFORMED_BLOCK) (
     failIf (fn \<noteq> cp_multihashSha2_256 CID_PARAMETERS) (Refused MALFORMED_BLOCK) (
     failIf (len \<noteq> 32 \<or> length r \<noteq> 32) (Refused MALFORMED_BLOCK)
       (escaping (encodeCid \<lparr>cid_version = 1, cid_codec = codec, cid_digest = r\<rparr>))))))))"

fun link_fields :: "Field list \<Rightarrow> jsstr option \<times> jsstr \<times> nat \<Rightarrow> fetch_error + jsstr option \<times> jsstr \<times> nat" where
  "link_fields [] st = Inr st"
| "link_fields (f # fs) (cid, name, tsize) =
     (if fd_number f = 1 then bindE (linkCid (fd_bytes f)) (\<lambda>c. link_fields fs (Some c, name, tsize))
      else if fd_number f = 2 then link_fields fs (cid, text_decode_lossy (fd_bytes f), tsize)
      else if fd_number f = 3 then link_fields fs (cid, name, fd_varint f)
      else throw MALFORMED_BLOCK)"

definition decodeLink :: "bytes \<Rightarrow> fetch_error + Link" where
  "decodeLink bs =
     bindE (readFields bs) (\<lambda>fs.
     bindE (link_fields fs (None, [], 0)) (\<lambda>(cid, name, tsize).
       case cid of
         None \<Rightarrow> throw MALFORMED_BLOCK
       | Some c \<Rightarrow> Inr \<lparr>lk_cid = c, lk_name = name, lk_tsize = tsize\<rparr>))"

definition unixfs_field :: "DecodedNode \<Rightarrow> Field \<Rightarrow> DecodedNode" where
  "unixfs_field n f =
     (if fd_number f = 1 then n\<lparr>dn_type := int (fd_varint f)\<rparr>
      else if fd_number f = 3 then n\<lparr>dn_filesize := fd_varint f\<rparr>
      else if fd_number f = 4 then n\<lparr>dn_blocksizes := dn_blocksizes n @ [fd_varint f]\<rparr>
      else n)"

fun node_fields :: "Field list \<Rightarrow> DecodedNode \<Rightarrow> fetch_error + DecodedNode" where
  "node_fields [] n = Inr n"
| "node_fields (f # fs) n =
     (if fd_number f = 2 then
        failIf (length (dn_links n) \<ge> fl_linksPerNode FETCH_LIMITS) (Refused RESPONSE_TOO_LARGE)
          (bindE (decodeLink (fd_bytes f)) (\<lambda>l. node_fields fs (n\<lparr>dn_links := dn_links n @ [l]\<rparr>)))
      else if fd_number f = 1 then
        bindE (readFields (fd_bytes f)) (\<lambda>inner. node_fields fs (foldl unixfs_field n inner))
      else throw MALFORMED_BLOCK)"

definition decodeNode :: "bytes \<Rightarrow> fetch_error + DecodedNode" where
  "decodeNode bs =
     bindE (readFields bs) (\<lambda>fs.
       node_fields fs \<lparr>dn_links = [], dn_type = -1, dn_filesize = 0, dn_blocksizes = []\<rparr>)"

definition contentCid :: "jsstr \<Rightarrow> fetch_error + Cid" where
  "contentCid cid = (case decodeCid cid of Inl _ \<Rightarrow> throw MALFORMED_BLOCK | Inr c \<Rightarrow> Inr c)"

subsection \<open>Traversal\<close>

record Budget =
  bg_blocks :: nat
  bg_bytes :: nat

definition new_budget :: Budget where
  "new_budget = \<lparr>bg_blocks = 0, bg_bytes = 0\<rparr>"

definition spendBlock :: "Budget \<Rightarrow> fetch_error + Budget" where
  "spendBlock b =
     (let b = b\<lparr>bg_blocks := bg_blocks b + 1\<rparr> in
      failIf (bg_blocks b > fl_blocks FETCH_LIMITS) (Refused RESPONSE_TOO_LARGE) (Inr b))"

definition spendBytes :: "nat \<Rightarrow> Budget \<Rightarrow> fetch_error + Budget" where
  "spendBytes n b =
     (let b = b\<lparr>bg_bytes := bg_bytes b + n\<rparr> in
      failIf (bg_bytes b > fl_resourceBytes FETCH_LIMITS) (Refused RESPONSE_TOO_LARGE) (Inr b))"

text \<open>A source answers from its state and may change it.\<close>

type_synonym 's BlockSource = "'s \<Rightarrow> jsstr \<Rightarrow> bytes option \<times> 's"

definition fetchVerified ::
  "crypto \<Rightarrow> 's BlockSource \<Rightarrow> jsstr \<Rightarrow> Budget \<times> 's \<Rightarrow> fetch_error + bytes \<times> Budget \<times> 's" where
  "fetchVerified C source cid st =
     (case st of (budget, s) \<Rightarrow>
       bindE (spendBlock budget) (\<lambda>budget.
       case source s cid of
         (None, s) \<Rightarrow> throw CONTENT_UNAVAILABLE
       | (Some bs, s) \<Rightarrow>
           failIf (length bs > fl_blockBytes FETCH_LIMITS) (Refused RESPONSE_TOO_LARGE) (
           bindE (contentCid cid) (\<lambda>expected.
           failIf (length (cid_digest expected) \<noteq> length (sha256 C bs)) (Refused CONTENT_INTEGRITY) (
           failIf (foldl (\<lambda>same (d, e). same OR (d XOR e)) 0 (zip (sha256 C bs) (cid_digest expected)) \<noteq> 0)
             (Refused CONTENT_INTEGRITY) (Inr (bs, budget, s)))))))"

function fetchFile ::
  "crypto \<Rightarrow> 's BlockSource \<Rightarrow> jsstr \<Rightarrow> nat \<Rightarrow> Budget \<times> 's \<Rightarrow> fetch_error + bytes \<times> Budget \<times> 's"
and fetchParts ::
  "crypto \<Rightarrow> 's BlockSource \<Rightarrow> (Link \<times> nat) list \<Rightarrow> nat \<Rightarrow> Budget \<times> 's \<Rightarrow> fetch_error + bytes list \<times> Budget \<times> 's"
where
  "fetchFile C source cid depth st =
     (if depth > fl_depth FETCH_LIMITS then throw RESPONSE_TOO_LARGE
      else
        bindE (fetchVerified C source cid st) (\<lambda>(bs, budget, s).
        bindE (contentCid cid) (\<lambda>c.
        if cid_codec c = cp_codecRaw CID_PARAMETERS then
          bindE (spendBytes (length bs) budget) (\<lambda>budget. Inr (bs, budget, s))
        else
          bindE (decodeNode bs) (\<lambda>node.
          failIf (dn_type node = int (ut_directory UNIXFS_TYPE)) (Refused PATH_NOT_FOUND) (
          failIf (dn_type node \<noteq> int (ut_file UNIXFS_TYPE)) (Refused MALFORMED_BLOCK) (
          failIf (length (dn_blocksizes node) \<noteq> length (dn_links node)) (Refused MALFORMED_BLOCK) (
          bindE (fetchParts C source (zip (dn_links node) (dn_blocksizes node)) (depth + 1) (budget, s))
            (\<lambda>(parts, st).
            failIf (sum_list (map length parts) \<noteq> dn_filesize node) (Refused MALFORMED_BLOCK)
              (Inr (concat parts, st))))))))))"
| "fetchParts C source [] depth st = Inr ([], st)"
| "fetchParts C source ((link, blocksize) # links) depth st =
     bindE (fetchFile C source (lk_cid link) depth st) (\<lambda>(part, st).
     failIf (length part \<noteq> blocksize) (Refused MALFORMED_BLOCK) (
     bindE (fetchParts C source links depth st) (\<lambda>(parts, st). Inr (part # parts, st))))"
  by pat_completeness auto
termination
  by (relation "measures
       [case_sum (\<lambda>(_, _, _, depth, _). 33 - depth) (\<lambda>(_, _, _, depth, _). 33 - depth),
        case_sum (\<lambda>_. 0) (\<lambda>(_, _, links, _, _). Suc (length links))]") auto

declare fetchFile.simps [simp del]

fun fetch_walk ::
  "crypto \<Rightarrow> 's BlockSource \<Rightarrow> jsstr \<Rightarrow> jsstr list \<Rightarrow> nat \<Rightarrow> Budget \<times> 's \<Rightarrow> fetch_error + jsstr \<times> Budget \<times> 's" where
  "fetch_walk C source cid [] index st = Inr (cid, st)"
| "fetch_walk C source cid (segment # segments) index st =
     (if index > fl_depth FETCH_LIMITS then throw RESPONSE_TOO_LARGE
      else
        bindE (fetchVerified C source cid st) (\<lambda>(bs, st).
        bindE (contentCid cid) (\<lambda>c.
        failIf (cid_codec c \<noteq> cp_codecDagPb CID_PARAMETERS) (Refused PATH_NOT_FOUND) (
        bindE (decodeNode bs) (\<lambda>node.
        failIf (dn_type node \<noteq> int (ut_directory UNIXFS_TYPE)) (Refused PATH_NOT_FOUND) (
        case filter (\<lambda>l. lk_name l = segment) (dn_links node) of
          [] \<Rightarrow> throw PATH_NOT_FOUND
        | [l] \<Rightarrow> fetch_walk C source (lk_cid l) segments (index + 1) st
        | _ \<Rightarrow> throw MALFORMED_BLOCK))))))"

definition path_segments :: "jsstr \<Rightarrow> jsstr list" where
  "path_segments path = filter (\<lambda>s. length s > 0) (split_on SLASH path)"

definition fetchPath :: "crypto \<Rightarrow> 's BlockSource \<Rightarrow> 's \<Rightarrow> jsstr \<Rightarrow> jsstr \<Rightarrow> fetch_error + bytes \<times> Budget \<times> 's" where
  "fetchPath C source s start path =
     (let segments = path_segments path in
      if list_ex (\<lambda>p. p = js ''.'' \<or> p = js ''..'') segments then throw PATH_NOT_FOUND
      else
        bindE (fetch_walk C source start segments 0 (new_budget, s)) (\<lambda>(cid, st).
        fetchFile C source cid (length segments) st))"

definition blockSourceOf :: "Block list \<Rightarrow> unit BlockSource" where
  "blockSourceOf blocks =
     (let byCid = foldl (\<lambda>m b. if map_has m (bk_cid b) then m else map_set (bk_cid b) (bk_bytes b) m) [] blocks in
      (\<lambda>s cid. (map_get byCid cid, s)))"

lemmas [exec] = pb_readVarint_def linkCid_def decodeLink_def unixfs_field_def decodeNode_def
  contentCid_def new_budget_def spendBlock_def spendBytes_def fetchVerified_def path_segments_def
  fetchPath_def blockSourceOf_def escaping_def


subsection \<open>One verified block\<close>

lemma contentCid_Inr: "contentCid cid = Inr c \<longleftrightarrow> decodeCid cid = Inr c"
  by (auto simp: contentCid_def split: sum.splits)

lemma fetchVerified_Inr:
  assumes "fetchVerified C source cid (budget, s) = Inr (bs, budget', s')"
  obtains c where "source s cid = (Some bs, s')" "decodeCid cid = Inr c" "cid_digest c = sha256 C bs"
    "budget' = budget\<lparr>bg_blocks := bg_blocks budget + 1\<rparr>" "bg_blocks budget < 4096" "length bs \<le> 1048576"
proof -
  obtain r s1 where r: "source s cid = (r, s1)" by (cases "source s cid")
  note eq = assms [unfolded fetchVerified_def spendBlock_def Let_def prod.case, unfolded r]
  have "bg_blocks budget < 4096" using eq by (simp split: if_splits)
  moreover obtain bs1 where bs1: "r = Some bs1" using eq by (cases r) (simp_all split: if_splits)
  moreover obtain c where dc: "decodeCid cid = Inr c"
    using eq bs1 by (cases "decodeCid cid") (simp_all add: contentCid_def split: if_splits)
  ultimately have few: "bg_blocks budget < 4096" by blast
  have "bs1 = bs \<and> s1 = s' \<and> budget\<lparr>bg_blocks := bg_blocks budget + 1\<rparr> = budget' \<and>
      length (cid_digest c) = length (sha256 C bs) \<and> length bs \<le> 1048576 \<and>
      foldl (\<lambda>same (d, e). same OR (d XOR e)) 0 (zip (sha256 C bs) (cid_digest c)) = 0"
    using eq by (simp add: bs1 contentCid_def dc split: if_split_asm)
  then have all: "bs1 = bs" "s1 = s'" "budget\<lparr>bg_blocks := bg_blocks budget + 1\<rparr> = budget'"
    "length (cid_digest c) = length (sha256 C bs)" "length bs \<le> 1048576"
    "foldl (\<lambda>same (d, e). same OR (d XOR e)) 0 (zip (sha256 C bs) (cid_digest c)) = 0"
    by blast+
  have "cid_digest c = sha256 C bs"
    using fold_diff [OF all(4) [symmetric], of 0] all(6) by (simp only: simp_thms)
  then show thesis by (rule that [OF r [unfolded bs1 all(1,2)] dc _ all(3) [symmetric] few all(5)])
qed

lemma fetchVerified_serves:
  assumes "source s cid = (Some bs, s')" "decodeCid cid = Inr c" "cid_digest c = sha256 C bs"
    "bg_blocks budget < 4096" "length bs \<le> 1048576"
  shows "fetchVerified C source cid (budget, s) = Inr (bs, budget\<lparr>bg_blocks := bg_blocks budget + 1\<rparr>, s')"
  using assms fold_diff [of "sha256 C bs" "cid_digest c" 0]
  by (simp add: fetchVerified_def spendBlock_def contentCid_def Let_def)

subsection \<open>Authenticity\<close>

text \<open>The blocks a source can ever answer with.\<close>

definition offers :: "'s BlockSource \<Rightarrow> bytes set" where
  "offers source = {bs. \<exists>s cid. fst (source s cid) = Some bs}"

lemma fetchVerified_agree:
  assumes "inj_on (sha256 C) (offers source \<union> offers source')"
    and "fetchVerified C source cid st = Inr (bs, st1)" "fetchVerified C source' cid st' = Inr (bs', st2)"
  shows "bs = bs'"
proof -
  obtain b s b' s' where st: "st = (b, s)" "st' = (b', s')" by (cases st, cases st')
  obtain b1 s1 b2 s2 where st12: "st1 = (b1, s1)" "st2 = (b2, s2)" by (cases st1, cases st2)
  obtain c where c: "source s cid = (Some bs, s1)" "decodeCid cid = Inr c" "cid_digest c = sha256 C bs"
    by (rule fetchVerified_Inr [OF assms(2) [unfolded st st12]])
  obtain c' where c': "source' s' cid = (Some bs', s2)" "decodeCid cid = Inr c'" "cid_digest c' = sha256 C bs'"
    by (rule fetchVerified_Inr [OF assms(3) [unfolded st st12]])
  have "bs \<in> offers source" "bs' \<in> offers source'"
    using c(1) c'(1) by (auto simp: offers_def intro!: exI [of _ cid] exI [of _ s] exI [of _ s'])
  moreover have "sha256 C bs = sha256 C bs'" using c c' by simp
  ultimately show ?thesis using assms(1) by (auto dest: inj_onD)
qed

lemma fetchFile_Inr:
  assumes "fetchFile C source cid depth st = Inr (out, st')"
  obtains bs budget s c where "depth \<le> 32" "fetchVerified C source cid st = Inr (bs, budget, s)" "decodeCid cid = Inr c"
    "cid_codec c = 0x55" "out = bs" "st' = (budget\<lparr>bg_bytes := bg_bytes budget + length bs\<rparr>, s)"
    "bg_bytes budget + length bs \<le> 268435456"
  | bs budget s c node parts where "depth \<le> 32" "fetchVerified C source cid st = Inr (bs, budget, s)" "decodeCid cid = Inr c"
    "cid_codec c \<noteq> 0x55" "decodeNode bs = Inr node" "length (dn_blocksizes node) = length (dn_links node)"
    "fetchParts C source (zip (dn_links node) (dn_blocksizes node)) (depth + 1) (budget, s) = Inr (parts, st')"
    "out = concat parts"
proof -
  have d: "depth \<le> 32" using assms by (simp add: fetchFile.simps [of C source cid] split: if_splits)
  obtain bs budget s where v: "fetchVerified C source cid st = Inr (bs, budget, s)"
    using assms d by (auto simp: fetchFile.simps [of C source cid] bindE_eq_Inr)
  obtain c where c: "decodeCid cid = Inr c"
    using assms d v by (auto simp: fetchFile.simps [of C source cid] bindE_eq_Inr contentCid_Inr)
  note eq = fetchFile.simps [of C source cid depth st, unfolded v, simplified, unfolded contentCid_def c]
  show thesis
  proof (cases "cid_codec c = 0x55")
    case True
    then have "out = bs" "st' = (budget\<lparr>bg_bytes := bg_bytes budget + length bs\<rparr>, s)"
      "bg_bytes budget + length bs \<le> 268435456"
      using assms d by (auto simp: eq spendBytes_def Let_def split: if_splits)
    then show thesis by (rule that(1) [OF d v c True])
  next
    case False
    then obtain node parts where "decodeNode bs = Inr node" "length (dn_blocksizes node) = length (dn_links node)"
      "fetchParts C source (zip (dn_links node) (dn_blocksizes node)) (depth + 1) (budget, s) = Inr (parts, st')"
      "out = concat parts"
      using assms d by (auto simp: eq bindE_eq_Inr split: if_splits)
    then show thesis by (rule that(2) [OF d v c False])
  qed
qed

text \<open>Induction from the deepest level upwards.\<close>

lemma depth_induct: "(\<And>depth. (depth \<le> 32 \<Longrightarrow> P (depth + 1)) \<Longrightarrow> P depth) \<Longrightarrow> P (depth :: nat)"
proof (induction "33 - depth" arbitrary: depth rule: less_induct)
  case less
  show ?case
  proof (rule less.prems)
    assume "depth \<le> 32"
    then show "P (depth + 1)" using less.hyps [of "depth + 1"] less.prems by simp
  qed
qed

lemma fetchParts_Cons:
  "fetchParts C source ((link, n) # links) depth st = Inr (parts, st') \<longleftrightarrow>
    (\<exists>part st1 rest. fetchFile C source (lk_cid link) depth st = Inr (part, st1) \<and> length part = n \<and>
       fetchParts C source links depth st1 = Inr (rest, st') \<and> parts = part # rest)"
  by (cases st') (force simp: errs)

lemma fetchParts_agree:
  assumes "\<And>cid st out st1 st' out' st2. fetchFile C source cid depth st = Inr (out, st1) \<Longrightarrow>
      fetchFile C source' cid depth' st' = Inr (out', st2) \<Longrightarrow> out = out'"
    and "fetchParts C source links depth st = Inr (parts, st1)"
    and "fetchParts C source' links depth' st' = Inr (parts', st2)"
  shows "parts = parts'"
  using assms(2,3)
proof (induction links arbitrary: st st' parts parts')
  case (Cons link links)
  obtain l n where link: "link = (l, n)" by (cases link)
  from Cons.prems obtain p s1 r p' s1' r' where
    "fetchFile C source (lk_cid l) depth st = Inr (p, s1)" "fetchParts C source links depth s1 = Inr (r, st1)"
    "fetchFile C source' (lk_cid l) depth' st' = Inr (p', s1')" "fetchParts C source' links depth' s1' = Inr (r', st2)"
    "parts = p # r" "parts' = p' # r'"
    unfolding link fetchParts_Cons by blast
  then show ?case using assms(1) Cons.IH by blast
qed simp

lemma fetchFile_agree:
  assumes inj: "inj_on (sha256 C) (offers source \<union> offers source')"
  shows "fetchFile C source cid depth st = Inr (out, st1) \<Longrightarrow>
      fetchFile C source' cid depth' st' = Inr (out', st2) \<Longrightarrow> out = out'"
proof (induction depth arbitrary: cid st out st1 depth' st' out' st2 rule: depth_induct)
  case (1 depth)
  note agree = fetchVerified_agree [OF inj]
  note IH = 1(1) and second = 1(3)
  from 1(2) show ?case
  proof (cases rule: fetchFile_Inr)
    case raw: (1 bs budget s c)
    from second show ?thesis
      by (cases rule: fetchFile_Inr) (use raw agree in auto)
  next
    case node: (2 bs budget s c node parts)
    from second show ?thesis
    proof (cases rule: fetchFile_Inr)
      case (2 bs' budget' s' c' node' parts')
      have "bs = bs'" by (rule agree [OF node(2) 2(2)])
      then have "node = node'" using node(5) 2(5) by simp
      then have "parts = parts'"
        using fetchParts_agree [of C source "depth + 1" source' "depth' + 1", OF IH [OF node(1)] node(7)] 2(7) by simp
      then show ?thesis using node(8) 2(8) by simp
    qed (use node in auto)
  qed
qed


lemma fetch_walk_Cons:
  assumes "fetch_walk C source cid (p # ps) i st = Inr (t, st')"
  obtains bs st1 c node l where "i \<le> 32" "fetchVerified C source cid st = Inr (bs, st1)" "decodeCid cid = Inr c"
    "cid_codec c = 0x70" "decodeNode bs = Inr node" "dn_type node = 1"
    "filter (\<lambda>l. lk_name l = p) (dn_links node) = [l]"
    "fetch_walk C source (lk_cid l) ps (i + 1) st1 = Inr (t, st')"
proof -
  have i: "i \<le> 32" using assms by (simp split: if_splits)
  obtain bs st1 where v: "fetchVerified C source cid st = Inr (bs, st1)"
    using assms i by (auto simp: bindE_eq_Inr)
  obtain c where c: "decodeCid cid = Inr c" using assms i v by (auto simp: bindE_eq_Inr contentCid_Inr)
  obtain node where n: "decodeNode bs = Inr node"
    using assms i v c by (auto simp: bindE_eq_Inr contentCid_def split: if_splits)
  have codec: "cid_codec c = 0x70" and type: "dn_type node = 1"
    using assms i v c n by (auto simp: contentCid_def UNIXFS_TYPE_def split: if_splits)
  obtain l where "filter (\<lambda>l. lk_name l = p) (dn_links node) = [l]"
    "fetch_walk C source (lk_cid l) ps (i + 1) st1 = Inr (t, st')"
    using assms i v c n codec type
    by (auto simp: contentCid_def UNIXFS_TYPE_def split: list.splits)
  then show thesis by (rule that [OF i v c codec n type])
qed

lemma fetch_walk_agree:
  assumes inj: "inj_on (sha256 C) (offers source \<union> offers source')"
  shows "fetch_walk C source cid ps i st = Inr (t, st1) \<Longrightarrow>
      fetch_walk C source' cid ps i' st' = Inr (t', st2) \<Longrightarrow> t = t'"
proof (induction ps arbitrary: cid i st i' st')
  case (Cons p ps)
  from Cons.prems(1) show ?case
  proof (cases rule: fetch_walk_Cons)
    case one: (1 bs s1 c node l)
    from Cons.prems(2) show ?thesis
    proof (cases rule: fetch_walk_Cons)
      case (1 bs' s1' c' node' l')
      have "bs = bs'" by (rule fetchVerified_agree [OF inj one(2) 1(2)])
      then have "node = node'" using one(5) 1(5) by simp
      then have "l = l'" using one(7) 1(7) by simp
      then show ?thesis using Cons.IH [OF one(8)] 1(8) by blast
    qed
  qed
qed simp

lemma fetchPath_Inr:
  "fetchPath C source s start path = Inr (out, st') \<longleftrightarrow>
     (\<forall>p\<in>set (path_segments path). p \<noteq> js ''.'' \<and> p \<noteq> js ''..'') \<and>
     (\<exists>cid st. fetch_walk C source start (path_segments path) 0 (new_budget, s) = Inr (cid, st) \<and>
        fetchFile C source cid (length (path_segments path)) st = Inr (out, st'))"
  by (auto simp: fetchPath_def Let_def errs list_ex_iff simp del: fetch_walk.simps)

subsection \<open>Refusals\<close>

lemma pb_read_loop_result: "pb_read_loop n bs r s = Inr (v, rest) \<Longrightarrow> int v \<le> MAX_SAFE_INTEGER"
  by (induction n bs r s rule: pb_read_loop.induct) (auto simp: Let_def split: if_splits)

abbreviation parse_refusals :: "fetch_error set" where
  "parse_refusals \<equiv> {Refused MALFORMED_BLOCK, Refused RESPONSE_TOO_LARGE}"

lemma parse_refused: "fails_only parse_refusals r \<Longrightarrow> fails_only (range Refused) r"
  by (erule fails_only_mono) auto

lemma pb_read_loop_refuses: "fails_only parse_refusals (pb_read_loop n bs r s)"
  by (induction n bs r s rule: pb_read_loop.induct) (auto simp: Let_def)

lemma pb_readVarint_refuses: "fails_only parse_refusals (pb_readVarint bs)"
  by (simp add: pb_readVarint_def pb_read_loop_refuses)

lemma readFields_refuses: "fails_only parse_refusals (readFields bs)"
proof (induction bs rule: readFields.induct)
  case (1 bs)
  show ?case
  proof (cases "pb_readVarint bs")
    case (Inl e)
    then show ?thesis using pb_readVarint_refuses [of bs] by (simp add: readFields.simps [of bs])
  next
    case (Inr kr)
    obtain key r where kr: "kr = (key, r)" by (cases kr)
    show ?thesis
    proof (cases "pb_readVarint r")
      case (Inl e)
      then show ?thesis using pb_readVarint_refuses [of r] Inr kr by (simp add: readFields.simps [of bs])
    next
      case r: (Inr v)
      obtain n r2 where v: "v = (n, r2)" by (cases v)
      show ?thesis
        unfolding readFields.simps [of bs] Inr kr prod.case sum.case r v
        using 1(1) [OF _ Inr kr [symmetric] _ _ r v [symmetric]] 1(2) [OF _ Inr kr [symmetric] _ _ _ r v [symmetric]]
        by (auto intro!: fails_only_bind)
    qed
  qed
qed

lemma linkCid_refuses: "fails_only parse_refusals (linkCid hash)"
proof -
  have "fails_only parse_refusals (escaping (encodeCid \<lparr>cid_version = 1, cid_codec = codec, cid_digest = r\<rparr>))"
    if "length r = 32" "int codec \<le> MAX_SAFE_INTEGER" for codec r
    using that by (auto simp: escaping_def encodeCid_def cidBytes_def cid_header_def varint_def MAX_SAFE_INTEGER_def)
  then show ?thesis
    using pb_readVarint_refuses pb_read_loop_result
    unfolding linkCid_def pb_readVarint_def
    by (auto intro!: fails_only_bind split: prod.splits)
qed


lemma link_fields_refuses: "fails_only parse_refusals (link_fields fs st)"
  by (induction fs st rule: link_fields.induct) (auto intro!: fails_only_bind linkCid_refuses)

lemma decodeLink_refuses: "fails_only parse_refusals (decodeLink bs)"
  by (auto simp: decodeLink_def intro!: fails_only_bind readFields_refuses link_fields_refuses split: option.splits)

lemma node_fields_refuses: "fails_only parse_refusals (node_fields fs n)"
  by (induction fs arbitrary: n) (auto intro!: fails_only_bind decodeLink_refuses readFields_refuses)

lemma decodeNode_refuses: "fails_only parse_refusals (decodeNode bs)"
  by (auto simp: decodeNode_def intro!: fails_only_bind readFields_refuses node_fields_refuses)

lemma contentCid_refuses: "fails_only parse_refusals (contentCid cid)"
  by (auto simp: contentCid_def split: sum.splits)

lemma fetchVerified_refuses: "fails_only (range Refused) (fetchVerified C source cid st)"
  by (auto simp: fetchVerified_def spendBlock_def Let_def intro!: fails_only_bind parse_refused [OF contentCid_refuses]
      split: prod.splits option.splits)

lemma fetchParts_refuses:
  "(\<And>cid st. fails_only (range Refused) (fetchFile C source cid depth st)) \<Longrightarrow>
     fails_only (range Refused) (fetchParts C source links depth st)"
  by (induction links arbitrary: st) (auto intro!: fails_only_bind split: prod.splits)

lemma fetchFile_refuses: "fails_only (range Refused) (fetchFile C source cid depth st)"
proof (induction depth arbitrary: cid st rule: depth_induct)
  case (1 depth)
  have parts: "fails_only (range Refused) (fetchParts C source links (depth + 1) st)" if "depth \<le> 32" for links st
    by (rule fetchParts_refuses) (rule 1 [OF that])
  show ?case
  proof (cases "depth > 32")
    case False
    then show ?thesis
      unfolding fetchFile.simps [of C source cid]
      by (auto simp: spendBytes_def Let_def intro!: fails_only_bind fetchVerified_refuses parse_refused [OF contentCid_refuses]
          parse_refused [OF decodeNode_refuses] parts [simplified] split: prod.splits)
  qed (simp add: fetchFile.simps [of C source cid])
qed

lemma fetch_walk_refuses: "fails_only (range Refused) (fetch_walk C source cid ps i st)"
  by (induction ps arbitrary: cid i st)
    (auto intro!: fails_only_bind fetchVerified_refuses parse_refused [OF contentCid_refuses] parse_refused [OF decodeNode_refuses] split: prod.splits list.splits)

subsection \<open>Budgets\<close>

definition in_budget :: "Budget \<Rightarrow> bool" where
  "in_budget b \<longleftrightarrow> bg_blocks b \<le> 4096 \<and> bg_bytes b \<le> 268435456"

definition spent :: "Budget \<Rightarrow> Budget \<Rightarrow> nat \<Rightarrow> bool" where
  "spent b b' n \<longleftrightarrow> in_budget b' \<and> bg_blocks b \<le> bg_blocks b' \<and> bg_bytes b' = bg_bytes b + n"

lemma fetchVerified_spent:
  assumes "fetchVerified C source cid (b, s) = Inr (bs, b', s')" "in_budget b"
  shows "spent b b' 0"
  by (rule fetchVerified_Inr [OF assms(1)]) (use assms(2) in \<open>simp add: spent_def in_budget_def\<close>)

lemma fetchParts_spent:
  assumes "\<And>cid b s out b' s'. fetchFile C source cid depth (b, s) = Inr (out, b', s') \<Longrightarrow> in_budget b \<Longrightarrow> spent b b' (length out)"
  shows "fetchParts C source links depth (b, s) = Inr (parts, b', s') \<Longrightarrow> in_budget b \<Longrightarrow> spent b b' (length (concat parts))"
proof (induction links arbitrary: b s parts)
  case (Cons link links)
  obtain l n where link: "link = (l, n)" by (cases link)
  from Cons.prems(1) obtain p b1 s1 r where p: "fetchFile C source (lk_cid l) depth (b, s) = Inr (p, b1, s1)"
    "fetchParts C source links depth (b1, s1) = Inr (r, b', s')" "parts = p # r"
    unfolding link fetchParts_Cons by (auto simp: prod_eq_iff)
  have "spent b b1 (length p)" by (rule assms [OF p(1) Cons.prems(2)])
  moreover from this have "spent b1 b' (length (concat r))" by (intro Cons.IH [OF p(2)]) (simp add: spent_def)
  ultimately show ?case by (simp add: spent_def p(3))
qed (simp add: spent_def)

lemma fetchFile_spent:
  "fetchFile C source cid depth (b, s) = Inr (out, b', s') \<Longrightarrow> in_budget b \<Longrightarrow> spent b b' (length out)"
proof (induction depth arbitrary: cid b s out b' s' rule: depth_induct)
  case (1 depth)
  from 1(2) show ?case
  proof (cases rule: fetchFile_Inr)
    case (1 bs b1 s1 c)
    then show ?thesis using fetchVerified_spent [OF 1(2) \<open>in_budget b\<close>] by (simp add: spent_def in_budget_def)
  next
    case (2 bs b1 s1 c node parts)
    have v: "spent b b1 0" by (rule fetchVerified_spent [OF 2(2) 1(3)])
    have "spent b1 b' (length (concat parts))"
      by (rule fetchParts_spent [OF 1(1) [OF 2(1)] 2(7)]) (use v in \<open>simp_all add: spent_def\<close>)
    then show ?thesis using v 2(8) by (simp add: spent_def)
  qed
qed

lemma fetch_walk_spent:
  "fetch_walk C source cid ps i (b, s) = Inr (t, b', s') \<Longrightarrow> in_budget b \<Longrightarrow> spent b b' 0"
proof (induction ps arbitrary: cid i b s)
  case (Cons p ps)
  from Cons.prems(1) show ?case
  proof (cases rule: fetch_walk_Cons)
    case (1 bs st1 c node l)
    obtain b1 s1 where st1: "st1 = (b1, s1)" by (cases st1)
    have v: "spent b b1 0" by (rule fetchVerified_spent [OF 1(2) [unfolded st1] Cons.prems(2)])
    have "spent b1 b' 0" by (rule Cons.IH [OF 1(8) [unfolded st1]]) (use v in \<open>simp add: spent_def\<close>)
    then show ?thesis using v by (simp add: spent_def)
  qed
qed (simp add: spent_def)


text \<open>
  To count the requests of a traversal that fails as well: sources that count their calls, and two
  of them that answer alike in the first 4,096.
\<close>

definition counting :: "(nat \<times> 't) BlockSource \<Rightarrow> bool" where
  "counting source \<longleftrightarrow> (\<forall>s cid. fst (snd (source s cid)) = Suc (fst s))"

definition same_until :: "nat \<Rightarrow> (nat \<times> 't) BlockSource \<Rightarrow> (nat \<times> 't) BlockSource \<Rightarrow> bool" where
  "same_until n source source' \<longleftrightarrow> (\<forall>s cid. fst s < n \<longrightarrow> source s cid = source' s cid)"

definition counted :: "Budget \<times> nat \<times> 't \<Rightarrow> bool" where
  "counted st \<longleftrightarrow> fst (snd st) = bg_blocks (fst st)"

lemma fetchVerified_counted:
  assumes "counting source" "same_until 4096 source source'" "counted st"
  shows "fetchVerified C source cid st = fetchVerified C source' cid st"
    and "fetchVerified C source cid st = Inr (bs, st') \<Longrightarrow> counted st'"
proof -
  obtain b s where st: "st = (b, s)" by (cases st)
  have "source s cid = source' s cid" if "bg_blocks b < 4096"
    using assms(2,3) that by (cases s) (simp add: st counted_def same_until_def)
  then show "fetchVerified C source cid st = fetchVerified C source' cid st"
    by (auto simp: st fetchVerified_def spendBlock_def Let_def)
  assume v: "fetchVerified C source cid st = Inr (bs, st')"
  obtain b' s' where st': "st' = (b', s')" by (cases st')
  obtain c where c: "source s cid = (Some bs, s')" "b' = b\<lparr>bg_blocks := bg_blocks b + 1\<rparr>"
    by (rule fetchVerified_Inr [OF v [unfolded st st']])
  have "fst (snd (source s cid)) = Suc (fst s)" using assms(1) unfolding counting_def by blast
  then show "counted st'" using c assms(3) by (simp add: st st' counted_def)
qed

lemma bindE_same:
  "m = m' \<Longrightarrow> (\<And>x. m = Inr x \<Longrightarrow> f x = g x) \<Longrightarrow> bindE m f = bindE m' g"
  by (cases m) auto

lemma fetchParts_counted:
  assumes "\<And>cid st. counted st \<Longrightarrow> fetchFile C source cid depth st = fetchFile C source' cid depth st \<and>
      (\<forall>out st'. fetchFile C source cid depth st = Inr (out, st') \<longrightarrow> counted st')"
  shows "counted st \<Longrightarrow> fetchParts C source links depth st = fetchParts C source' links depth st \<and>
      (\<forall>parts st'. fetchParts C source links depth st = Inr (parts, st') \<longrightarrow> counted st')"
proof (induction links arbitrary: st)
  case (Cons link links)
  obtain l n where link: "link = (l, n)" by (cases link)
  note here = assms [OF Cons.prems, of "lk_cid l"]
  have "fetchParts C source (link # links) depth st = fetchParts C source' (link # links) depth st"
    unfolding link fetchParts.simps
    using here Cons.IH by (intro bindE_same) (auto split: prod.splits)
  moreover have "counted st'" if "fetchParts C source (link # links) depth st = Inr (parts, st')" for parts st'
    using that here Cons.IH unfolding link fetchParts_Cons by blast
  ultimately show ?case by blast
qed auto

lemma fetchFile_counted:
  assumes source: "counting source" "same_until 4096 source source'"
  shows "counted st \<Longrightarrow> fetchFile C source cid depth st = fetchFile C source' cid depth st \<and>
      (\<forall>out st'. fetchFile C source cid depth st = Inr (out, st') \<longrightarrow> counted st')"
proof (induction depth arbitrary: cid st rule: depth_induct)
  case (1 depth)
  note v = fetchVerified_counted [OF source 1(2)]
  have parts: "fetchParts C source links (depth + 1) st = fetchParts C source' links (depth + 1) st \<and>
      (\<forall>parts st'. fetchParts C source links (depth + 1) st = Inr (parts, st') \<longrightarrow> counted st')"
    if "depth \<le> 32" "counted st" for links st
    by (rule fetchParts_counted [OF 1(1) [OF that(1)] that(2)])
  have "fetchFile C source cid depth st = fetchFile C source' cid depth st"
  proof (cases "depth > 32")
    case False
    then show ?thesis
      unfolding fetchFile.simps [of C source cid] fetchFile.simps [of C source' cid]
      using v parts by (auto intro!: bindE_same split: prod.splits)
  qed (simp add: fetchFile.simps [of C source cid] fetchFile.simps [of C source' cid])
  moreover have "counted st'" if "fetchFile C source cid depth st = Inr (out, st')" for out st'
    using that
  proof (cases rule: fetchFile_Inr)
    case (1 bs budget s c)
    then show ?thesis using v(2) [OF 1(2)] by (simp add: counted_def)
  next
    case (2 bs budget s c node ps)
    then show ?thesis using parts [OF 2(1) v(2) [OF 2(2)]] by blast
  qed
  ultimately show ?case by blast
qed

lemma fetch_walk_counted:
  assumes source: "counting source" "same_until 4096 source source'"
  shows "counted st \<Longrightarrow> fetch_walk C source cid ps i st = fetch_walk C source' cid ps i st \<and>
      (\<forall>t st'. fetch_walk C source cid ps i st = Inr (t, st') \<longrightarrow> counted st')"
proof (induction ps arbitrary: cid i st)
  case (Cons p ps)
  note v = fetchVerified_counted [OF source Cons.prems]
  have "fetch_walk C source cid (p # ps) i st = fetch_walk C source' cid (p # ps) i st"
    unfolding fetch_walk.simps using v Cons.IH
    by (auto intro!: bindE_same split: prod.splits list.splits)
  moreover have "counted st'" if "fetch_walk C source cid (p # ps) i st = Inr (t, st')" for t st'
    using that by (cases rule: fetch_walk_Cons) (use v(2) Cons.IH in blast)
  ultimately show ?case by blast
qed auto


subsection \<open>Properties\<close>

text \<open>
  C32. Authenticity. What a path of a site reads as is decided by the identifier of the site alone:
  two sources, whatever they answer and in whatever order they change their minds, deliver the same
  bytes when both deliver, unless two of the blocks they can offer have the same SHA-256 hash.
\<close>

theorem fetch_authentic:
  fixes source :: "'s BlockSource" and source' :: "'t BlockSource"
  assumes "inj_on (sha256 C) (offers source \<union> offers source')"
    and "fetchPath C source s start path = Inr (out, st)" "fetchPath C source' s' start path = Inr (out', st')"
  shows "out = out'"
proof -
  obtain cid w where f: "fetch_walk C source start (path_segments path) 0 (new_budget, s) = Inr (cid, w)"
    "fetchFile C source cid (length (path_segments path)) w = Inr (out, st)"
    using assms(2) unfolding fetchPath_Inr by blast
  obtain cid' w' where f': "fetch_walk C source' start (path_segments path) 0 (new_budget, s') = Inr (cid', w')"
    "fetchFile C source' cid' (length (path_segments path)) w' = Inr (out', st')"
    using assms(3) unfolding fetchPath_Inr by blast
  have "cid = cid'" by (rule fetch_walk_agree [OF assms(1) f(1) f'(1)])
  then show ?thesis using fetchFile_agree [OF assms(1) f(2)] f'(2) by blast
qed

text \<open>
  C33. The traversal ends after at most 4,096 requests, whatever the blocks link to: the answers of
  a source after that many calls cannot change the outcome, refusals included. A delivered file has
  at most 256 MiB and every byte of it was charged.
\<close>

theorem fetch_bounded:
  shows "(counting source \<and> same_until 4096 source source' \<longrightarrow>
       fetchPath C source (0, t) start path = fetchPath C source' (0, t) start path) \<and>
    (fetchPath C other s start path = Inr (out, b, s') \<longrightarrow>
       bg_blocks b \<le> 4096 \<and> length out = bg_bytes b \<and> length out \<le> 256 * 1024 * 1024)"
proof (rule conjI; rule impI)
  assume source: "counting source \<and> same_until 4096 source source'"
  let ?ps = "path_segments path"
  have "counted (new_budget, 0 :: nat, t)" by (simp add: counted_def new_budget_def)
  note walk = fetch_walk_counted [OF conjunct1 [OF source] conjunct2 [OF source] this, of C start ?ps 0]
  note file_same = fetchFile_counted [OF conjunct1 [OF source] conjunct2 [OF source]]
  show "fetchPath C source (0, t) start path = fetchPath C source' (0, t) start path"
    unfolding fetchPath_def Let_def using walk file_same
    by (auto intro!: bindE_same split: prod.splits)
next
  assume f: "fetchPath C other s start path = Inr (out, b, s')"
  obtain cid b0 s0 where w: "fetch_walk C other start (path_segments path) 0 (new_budget, s) = Inr (cid, b0, s0)"
    "fetchFile C other cid (length (path_segments path)) (b0, s0) = Inr (out, b, s')"
    using f unfolding fetchPath_Inr by auto
  have "spent new_budget b0 0"
    by (rule fetch_walk_spent [OF w(1)]) (simp add: new_budget_def in_budget_def)
  moreover from this have "spent b0 b (length out)" by (intro fetchFile_spent [OF w(2)]) (simp add: spent_def)
  ultimately show "bg_blocks b \<le> 4096 \<and> length out = bg_bytes b \<and> length out \<le> 256 * 1024 * 1024"
    by (simp_all add: spent_def in_budget_def new_budget_def)
qed

text \<open>
  Every refusal that leaves the traversal is one of the five codes of this module; no error of
  the content module escapes, whatever bytes a source delivers.
\<close>

theorem fetch_refusals: "fetchPath C source s start path = Inl e \<Longrightarrow> \<exists>r. e = Refused r"
proof -
  have "fails_only (range Refused) (fetchPath C source s start path)"
    by (auto simp: fetchPath_def Let_def intro!: fails_only_bind fetch_walk_refuses fetchFile_refuses split: prod.splits)
  then show "fetchPath C source s start path = Inl e \<Longrightarrow> \<exists>r. e = Refused r" by (auto simp: fails_only_def)
qed

text \<open>
  A file more than thirty-two directories deep can be published but never read: every source is
  refused.
\<close>

theorem deep_path_unreadable:
  assumes "32 < length (path_segments path)"
  shows "\<exists>r. fetchPath C source s start path = Inl (Refused r)"
proof (cases "fetchPath C source s start path")
  case (Inl e)
  then show ?thesis using fetch_refusals [OF Inl] by simp
next
  case (Inr x)
  obtain out st where x: "x = (out, st)" by (cases x)
  obtain cid w where "fetchFile C source cid (length (path_segments path)) w = Inr (out, st)"
    using Inr unfolding x fetchPath_Inr by blast
  then show ?thesis using assms by (cases rule: fetchFile_Inr) auto
qed


subsection \<open>A leaf is read back\<close>

lemma block_decodes: "block_ok C codec b \<Longrightarrow> decodeCid (bk_cid b) = Inr (block_cid C codec (bk_bytes b))"
  using block_cid_ok [of C codec b] by (auto simp: block_ok_def intro: decodeCid_encodeCid)

lemma fetchVerified_block:
  assumes "block_ok C codec b" "source s (bk_cid b) = (Some (bk_bytes b), s')"
    "bg_blocks budget < 4096" "length (bk_bytes b) \<le> 1048576"
  shows "fetchVerified C source (bk_cid b) (budget, s) =
    Inr (bk_bytes b, budget\<lparr>bg_blocks := bg_blocks budget + 1\<rparr>, s')"
  using fetchVerified_serves [of source s "bk_cid b" "bk_bytes b" s' _ C budget] block_decodes [OF assms(1)] assms(2-)
  by (simp add: block_cid_def)

lemma fetchFile_leaf:
  assumes "block_ok C 0x55 b" "source s (bk_cid b) = (Some (bk_bytes b), s')"
    "bg_blocks budget < 4096" "length (bk_bytes b) \<le> 1048576" "depth \<le> 32"
    "bg_bytes budget + length (bk_bytes b) \<le> 268435456"
  shows "fetchFile C source (bk_cid b) depth (budget, s) =
    Inr (bk_bytes b, \<lparr>bg_blocks = bg_blocks budget + 1, bg_bytes = bg_bytes budget + length (bk_bytes b)\<rparr>, s')"
  using assms(5,6) fetchVerified_block [where source = source and s = s and s' = s', OF assms(1-4)]
  by (simp add: fetchFile.simps [of C source "bk_cid b"] contentCid_def
      block_decodes [OF assms(1)] block_cid_def spendBytes_def Let_def)

lemma sample_leaf: "\<exists>cid. block_ok sample_crypto 0x55 \<lparr>bk_cid = cid, bk_bytes = [7]\<rparr>"
  using encodeCid_block [OF sample_sha256_length, of "0x55" "[7]"]
  by (simp add: block_ok_def block_cid_def del: sample_crypto_simps)

lemma sample_read:
  assumes "block_ok sample_crypto 0x55 \<lparr>bk_cid = cid, bk_bytes = [7]\<rparr>" "source s cid = (Some [7], s')"
  shows "fetchPath sample_crypto source s cid [] = Inr ([7], \<lparr>bg_blocks = 1, bg_bytes = 1\<rparr>, s')"
  using fetchFile_leaf [OF assms(1), of source s s' new_budget 0] assms(2)
  by (simp add: fetchPath_def path_segments_def new_budget_def)

theorem fetch_authentic_witness:
  "\<exists>cid. \<forall>out st. fetchPath sample_crypto (\<lambda>s cid. (Some [7], s)) () cid [] = Inr (out, st) \<longrightarrow> out = [7]"
proof -
  obtain cid where cid: "block_ok sample_crypto 0x55 \<lparr>bk_cid = cid, bk_bytes = [7]\<rparr>" using sample_leaf by blast
  let ?forget = "\<lambda>asked cid. (if asked then None else Some [7], True)"
  have "out = [7]" if "fetchPath sample_crypto (\<lambda>s cid. (Some [7], s)) () cid [] = Inr (out, st)" for out st
  proof (rule fetch_authentic [OF _ that sample_read [OF cid, of ?forget False True]])
    have "offers (\<lambda>s cid. (Some [7], s)) \<union> offers ?forget \<subseteq> {[7]}" by (auto simp: offers_def)
    then show "inj_on (sha256 sample_crypto) (offers (\<lambda>s cid. (Some [7], s)) \<union> offers ?forget)"
      by (rule inj_on_subset [rotated]) simp
  qed simp
  then show ?thesis by blast
qed

theorem fetch_bounded_witness:
  "fetchPath sample_crypto (\<lambda>s cid. (None, Suc (fst s), snd s)) (0, ()) [] (js ''/index'') =
   fetchPath sample_crypto (\<lambda>s cid. (if fst s < 4096 then None else Some [], Suc (fst s), snd s)) (0, ()) [] (js ''/index'')"
  using conjunct1 [OF fetch_bounded] by (rule mp) (simp add: counting_def same_until_def)

theorem fetch_refusals_witness:
  "\<exists>e r. fetchPath sample_crypto (\<lambda>s cid. (None, s)) () [] [] = Inl e \<and> e = Refused r"
proof -
  have "fetchPath sample_crypto (\<lambda>s cid. (None, s)) () [] [] = Inl (Refused CONTENT_UNAVAILABLE)"
    by (simp add: fetchPath_def path_segments_def new_budget_def fetchFile.simps [of sample_crypto]
        fetchVerified_def spendBlock_def)
  from fetch_refusals [OF this] this show ?thesis by simp
qed

theorem deep_path_unreadable_witness:
  "\<exists>r. fetchPath sample_crypto (\<lambda>s cid. (Some [7], s)) () [] (join_path (replicate 33 (js ''a''))) = Inl (Refused r)"
proof (rule deep_path_unreadable)
  have "split_on SLASH (join_path (replicate 33 (js ''a''))) = replicate 33 (js ''a'')"
    by (rule split_join) (auto simp: SLASH_def)
  then show "32 < length (path_segments (join_path (replicate 33 (js ''a''))))"
    by (simp add: path_segments_def)
qed

end
