(* ===== verification/Site.thy ===== *)
theory Site
  imports Fetch
begin

section \<open>A published site is read back\<close>

text \<open>
  The importer of registry/src/unixfs.ts composed with the traversal of registry/src/fetch.ts: what
  each encoder writes its reader reads, so a path of an imported site leads to the file it was
  imported from; and the identifier of a site does not depend on the order of its files.
\<close>

subsection \<open>Fields\<close>

lemma pb_read_loop_varint:
  assumes "n < 128 ^ k" "int (v + n * shift) \<le> MAX_SAFE_INTEGER" "0 < k"
  shows "pb_read_loop k (varint_bytes n @ r) v shift = Inr (v + n * shift, r)"
  using assms
proof (induction k arbitrary: n v shift)
  case (Suc k)
  show ?case
  proof (cases "n < 128")
    case True
    then have "unat (word_of_nat n :: byte) = n" by (intro unat_byte_of_nat) simp
    then show ?thesis using True Suc.prems(2) by (simp add: varint_small low_seven top_bit Let_def)
  next
    case False
    have eq: "v + n mod 128 * shift + n div 128 * (shift * 128) = v + n * shift"
    proof -
      have "n * shift = (n mod 128 + 128 * (n div 128)) * shift" by simp
      also have "\<dots> = n mod 128 * shift + n div 128 * (shift * 128)" by (simp only: add_mult_distrib add_mult_distrib2 ac_simps)
      finally show ?thesis by simp
    qed
    have k: "n div 128 < 128 ^ k" using Suc.prems(1) by (simp add: less_mult_imp_div_less mult.commute)
    then have "0 < k" using False by (cases "k = 0") simp_all
    with Suc.IH [OF k, of "v + n mod 128 * shift" "shift * 128"] Suc.prems(2) eq
    have "pb_read_loop k (varint_bytes (n div 128) @ r) (v + n mod 128 * shift) (shift * 128) = Inr (v + n * shift, r)"
      by simp
    then show ?thesis
      using False by (simp add: varint_bytes.simps [of n] continued top_bit low_seven Let_def)
  qed
qed simp

lemma pb_readVarint_varint: "int n \<le> MAX_SAFE_INTEGER \<Longrightarrow> pb_readVarint (varint_bytes n @ r) = Inr (n, r)"
  using pb_read_loop_varint [of n 10 0 1 r] by (simp add: pb_readVarint_def MAX_SAFE_INTEGER_def)

lemma varint_bytes_not_Nil [simp]: "varint_bytes n \<noteq> []"
  by (simp add: varint_bytes.simps [of n])

lemma readFields_Nil [simp]: "readFields [] = Inr []"
  by (simp add: readFields.simps)

lemma readFields_varintField:
  assumes "varintField k v = Inr e" "0 < k"
  shows "readFields (e @ r) = bindE (readFields r) (\<lambda>fs. Inr (\<lparr>fd_number = k, fd_varint = v, fd_bytes = []\<rparr> # fs))"
proof -
  have e: "e = varint_bytes (k * 8) @ varint_bytes v" "int (k * 8) \<le> MAX_SAFE_INTEGER" "int v \<le> MAX_SAFE_INTEGER"
    using assms(1) by (auto simp: varintField_def tag_def pb_varint_def split: if_splits)
  show ?thesis
    using assms(2) by (subst readFields.simps, cases "readFields r")
      (simp_all add: e pb_readVarint_varint [OF e(2)] pb_readVarint_varint [OF e(3)])
qed

lemma readFields_lengthDelimited:
  assumes "lengthDelimited k p = Inr e" "0 < k"
  shows "readFields (e @ r) = bindE (readFields r) (\<lambda>fs. Inr (\<lparr>fd_number = k, fd_varint = 0, fd_bytes = p\<rparr> # fs))"
proof -
  have e: "e = varint_bytes (k * 8 + 2) @ varint_bytes (length p) @ p" "int (k * 8 + 2) \<le> MAX_SAFE_INTEGER"
    "int (length p) \<le> MAX_SAFE_INTEGER"
    using assms(1) by (auto simp: lengthDelimited_def tag_def pb_varint_def split: if_splits)
  have "(k * 8 + 2) div 8 = k" "(k * 8 + 2) mod 8 = 2" by presburger+
  then show ?thesis
    using assms(2) by (subst readFields.simps, cases "readFields r")
      (simp_all add: e pb_readVarint_varint [OF e(2), simplified] pb_readVarint_varint [OF e(3)])
qed

lemma readFields_varintFields:
  assumes "mapE (varintField k) vs = Inr es" "0 < k"
  shows "readFields (concat es @ r) =
    bindE (readFields r) (\<lambda>fs. Inr (map (\<lambda>v. \<lparr>fd_number = k, fd_varint = v, fd_bytes = []\<rparr>) vs @ fs))"
  using assms(1)
proof (induction vs arbitrary: es)
  case (Cons v vs)
  then obtain e es' where e: "varintField k v = Inr e" "mapE (varintField k) vs = Inr es'" "es = e # es'"
    by (auto simp: errs)
  show ?case
    using readFields_varintField [OF e(1) assms(2), of "concat es' @ r"] Cons.IH [OF e(2)] e(3)
    by (cases "readFields r") simp_all
qed (cases "readFields r"; simp)

subsection \<open>Links\<close>

definition survives :: "jsstr \<Rightarrow> bool" where
  "survives s \<longleftrightarrow> text_decode_lossy (text_encode s) = s"

lemma linkCid_cid:
  assumes "cid_ok c" "encodeCid c = Inr s"
  shows "linkCid (varint_bytes (cid_version c) @ varint_bytes (cid_codec c) @ varint_bytes 0x12 @
      varint_bytes (length (cid_digest c)) @ cid_digest c) = Inr s"
proof -
  obtain codec digest where c: "c = \<lparr>cid_version = 1, cid_codec = codec, cid_digest = digest\<rparr>"
    "int codec \<le> MAX_SAFE_INTEGER" "length digest = 32"
    using assms(1) by (cases c) (auto simp: cid_ok_def MAX_SAFE_INTEGER_def)
  moreover have "int 1 \<le> MAX_SAFE_INTEGER" "int 0x12 \<le> MAX_SAFE_INTEGER" "int 32 \<le> MAX_SAFE_INTEGER"
    by (simp_all add: MAX_SAFE_INTEGER_def)
  ultimately show ?thesis
    using assms(2) by (simp add: linkCid_def pb_readVarint_varint escaping_def del: of_nat_numeral)
qed

lemma decodeLink_pbLink:
  assumes "pbLink link = Inr e" "canonical (lk_cid link)" "survives (lk_name link)"
  shows "decodeLink e = Inr link"
proof -
  obtain c where c: "cid_ok c" "encodeCid c = Inr (lk_cid link)" using assms(2) by (auto simp: canonical_def)
  have d: "decodeCid (lk_cid link) = Inr c" by (rule decodeCid_encodeCid [OF c])
  let ?h = "varint_bytes (cid_version c) @ varint_bytes (cid_codec c) @ varint_bytes 0x12 @
      varint_bytes (length (cid_digest c)) @ cid_digest c"
  obtain x y z where f: "lengthDelimited 1 ?h = Inr x" "lengthDelimited 2 (text_encode (lk_name link)) = Inr y"
    "varintField 3 (lk_tsize link) = Inr z" "e = x @ y @ z"
    using assms(1) d by (auto simp: pbLink_def errs pb_varint_def split: if_splits)
  have "readFields e = Inr [\<lparr>fd_number = 1, fd_varint = 0, fd_bytes = ?h\<rparr>,
      \<lparr>fd_number = 2, fd_varint = 0, fd_bytes = text_encode (lk_name link)\<rparr>,
      \<lparr>fd_number = 3, fd_varint = lk_tsize link, fd_bytes = []\<rparr>]"
    using readFields_lengthDelimited [OF f(1), of "y @ z"] readFields_lengthDelimited [OF f(2), of z]
      readFields_varintField [OF f(3), of "[]"] by (simp add: f(4))
  then show ?thesis
    using linkCid_cid [OF c] assms(3) by (simp add: decodeLink_def survives_def)
qed


subsection \<open>Nodes\<close>

definition readable :: "Link list \<Rightarrow> bool" where
  "readable links \<longleftrightarrow> (\<forall>l\<in>set links. canonical (lk_cid l) \<and> survives (lk_name l))"

lemma encoded_links:
  assumes "mapE (\<lambda>link. bindE (pbLink link) (lengthDelimited 2)) links = Inr ls" "readable links"
  shows "\<exists>ffs. (\<forall>r. readFields (concat ls @ r) = bindE (readFields r) (\<lambda>fs. Inr (ffs @ fs))) \<and>
    (\<forall>fs n. length (dn_links n) + length links \<le> 8192 \<longrightarrow>
       node_fields (ffs @ fs) n = node_fields fs (n\<lparr>dn_links := dn_links n @ links\<rparr>))"
  using assms
proof (induction links arbitrary: ls)
  case Nil
  have "readFields r = bindE (readFields r) (\<lambda>fs. Inr ([] @ fs))" for r by (cases "readFields r") simp_all
  then show ?case using Nil by (intro exI [of _ "[]"]) auto
next
  case (Cons link links)
  then obtain e x ls' where e: "pbLink link = Inr e" "lengthDelimited 2 e = Inr x" "ls = x # ls'"
    "mapE (\<lambda>link. bindE (pbLink link) (lengthDelimited 2)) links = Inr ls'"
    by (auto simp: errs)
  have d: "decodeLink e = Inr link"
    using Cons.prems(2) by (intro decodeLink_pbLink [OF e(1)]) (simp_all add: readable_def)
  obtain ffs where ffs: "\<And>r. readFields (concat ls' @ r) = bindE (readFields r) (\<lambda>fs. Inr (ffs @ fs))"
    "\<And>fs n. length (dn_links n) + length links \<le> 8192 \<Longrightarrow>
       node_fields (ffs @ fs) n = node_fields fs (n\<lparr>dn_links := dn_links n @ links\<rparr>)"
    using Cons.IH [OF e(4)] Cons.prems(2) by (auto simp: readable_def)
  let ?f = "\<lparr>fd_number = 2, fd_varint = 0, fd_bytes = e\<rparr>"
  have "readFields (concat ls @ r) = bindE (readFields r) (\<lambda>fs. Inr ((?f # ffs) @ fs))" for r
    using readFields_lengthDelimited [OF e(2), of "concat ls' @ r"] ffs(1) [of r]
    by (cases "readFields r") (simp_all add: e(3))
  moreover have "node_fields ((?f # ffs) @ fs) n = node_fields fs (n\<lparr>dn_links := dn_links n @ (link # links)\<rparr>)"
    if "length (dn_links n) + length (link # links) \<le> 8192" for fs n
    using that ffs(2) [of "n\<lparr>dn_links := dn_links n @ [link]\<rparr>" fs] by (simp add: d)
  ultimately show ?case by blast
qed

lemma decodeNode_encodePbNode:
  assumes "encodePbNode links payload = Inr bs" "readable links" "length links \<le> 8192"
    "payload \<noteq> []" "readFields payload = Inr inner"
  shows "decodeNode bs = Inr (foldl unixfs_field
    \<lparr>dn_links = links, dn_type = -1, dn_filesize = 0, dn_blocksizes = []\<rparr> inner)"
proof -
  obtain ls p where l: "mapE (\<lambda>link. bindE (pbLink link) (lengthDelimited 2)) links = Inr ls"
    "lengthDelimited 1 payload = Inr p" "bs = concat ls @ p"
    using assms(1,4) by (auto simp: encodePbNode_def errs)
  obtain ffs where ffs: "\<And>r. readFields (concat ls @ r) = bindE (readFields r) (\<lambda>fs. Inr (ffs @ fs))"
    "\<And>fs n. length (dn_links n) + length links \<le> 8192 \<Longrightarrow>
       node_fields (ffs @ fs) n = node_fields fs (n\<lparr>dn_links := dn_links n @ links\<rparr>)"
    using encoded_links [OF l(1) assms(2)] by blast
  have "readFields bs = Inr (ffs @ [\<lparr>fd_number = 1, fd_varint = 0, fd_bytes = payload\<rparr>])"
    using ffs(1) [of p] readFields_lengthDelimited [OF l(2), of "[]"] by (simp add: l(3))
  then show ?thesis using ffs(2) assms(3,5) by (simp add: decodeNode_def)
qed

lemma directory_payload: "unixfsDirectory = Inr p \<Longrightarrow> readFields p = Inr [\<lparr>fd_number = 1, fd_varint = 1, fd_bytes = []\<rparr>] \<and> p \<noteq> []"
  using readFields_varintField [of 1 1 p "[]"]
  by (auto simp: unixfsDirectory_def UNIXFS_TYPE_def varintField_def tag_def pb_varint_def split: if_splits)

lemma file_payload:
  assumes "unixfsFile sizes = Inr p"
  shows "readFields p = Inr (\<lparr>fd_number = 1, fd_varint = 2, fd_bytes = []\<rparr> #
      \<lparr>fd_number = 3, fd_varint = sum_list sizes, fd_bytes = []\<rparr> #
      map (\<lambda>v. \<lparr>fd_number = 4, fd_varint = v, fd_bytes = []\<rparr>) sizes) \<and> p \<noteq> []"
proof -
  obtain a b es where e: "varintField 1 2 = Inr a" "varintField 3 (sum_list sizes) = Inr b"
    "mapE (varintField 4) sizes = Inr es" "p = a @ b @ concat es"
    using assms by (auto simp: unixfsFile_def UNIXFS_TYPE_def errs)
  have "a \<noteq> []" using e(1) by (auto simp: varintField_def tag_def pb_varint_def split: if_splits)
  then show ?thesis
    using readFields_varintField [OF e(1), of "b @ concat es"] readFields_varintField [OF e(2), of "concat es"]
      readFields_varintFields [OF e(3), of "[]"] by (simp add: e(4))
qed

lemma fold_sizes:
  "foldl unixfs_field n (map (\<lambda>v. \<lparr>fd_number = 4, fd_varint = v, fd_bytes = []\<rparr>) sizes) =
     n\<lparr>dn_blocksizes := dn_blocksizes n @ sizes\<rparr>"
  by (induction sizes arbitrary: n) (simp_all add: unixfs_field_def)

lemma decode_directory:
  assumes "directoryNode C es = Inr b" "readable es" "length es \<le> 8192"
  shows "decodeNode (bk_bytes b) = Inr \<lparr>dn_links = sort_key (\<lambda>e. text_encode (lk_name e)) es, dn_type = 1,
    dn_filesize = 0, dn_blocksizes = []\<rparr>"
proof -
  obtain p where p: "unixfsDirectory = Inr p"
    "encodePbNode (sort_key (\<lambda>e. text_encode (lk_name e)) es) p = Inr (bk_bytes b)"
    using directoryNode_Inr(4) [OF assms(1)] by (auto simp: errs)
  show ?thesis
    using decodeNode_encodePbNode [OF p(2)] directory_payload [OF p(1)] assms(2,3)
    by (simp add: readable_def unixfs_field_def)
qed

lemma decode_file:
  assumes "unixfsFile sizes = Inr p" "encodePbNode links p = Inr bs" "readable links" "length links \<le> 8192"
  shows "decodeNode bs = Inr \<lparr>dn_links = links, dn_type = 2, dn_filesize = sum_list sizes, dn_blocksizes = sizes\<rparr>"
  using decodeNode_encodePbNode [OF assms(2-4)] file_payload [OF assms(1)]
  by (simp add: unixfs_field_def fold_sizes)


subsection \<open>Files\<close>

definition serves :: "'s BlockSource \<Rightarrow> Block set \<Rightarrow> bool" where
  "serves source B \<longleftrightarrow> (\<forall>b\<in>B. \<forall>s. source s (bk_cid b) = (Some (bk_bytes b), s))"

lemma serves_subset: "serves source B \<Longrightarrow> A \<subseteq> B \<Longrightarrow> serves source A"
  by (auto simp: serves_def)

lemma chunk_link_cid: "lk_cid (chunk_link b) = bk_cid b"
  by (simp add: chunk_link_def)

lemma fetchParts_chunks:
  assumes "mapE (chunk_block C) ps = Inr blocks" "serves source (set blocks)" "depth \<le> 32"
    "bg_blocks budget + length ps \<le> 4096" "bg_bytes budget + length (concat ps) \<le> 268435456"
  shows "\<exists>budget'. fetchParts C source (zip (map chunk_link blocks) (map length ps)) depth (budget, s) = Inr (ps, budget', s)"
  using assms
proof (induction ps arbitrary: blocks budget)
  case (Cons p ps)
  then obtain b blocks' where b: "chunk_block C p = Inr b" "mapE (chunk_block C) ps = Inr blocks'" "blocks = b # blocks'"
    by (auto simp: errs)
  have bytes: "bk_bytes b = p" "length p \<le> 262144" "block_ok C 0x55 b" using b(1) by (auto simp: chunk_block_Inr)
  let ?b = "\<lparr>bg_blocks = bg_blocks budget + 1, bg_bytes = bg_bytes budget + length (bk_bytes b)\<rparr>"
  have "fetchFile C source (bk_cid b) depth (budget, s) = Inr (bk_bytes b, ?b, s)"
    by (rule fetchFile_leaf) (use Cons.prems b bytes in \<open>simp_all add: serves_def\<close>)
  moreover obtain budget' where
    "fetchParts C source (zip (map chunk_link blocks') (map length ps)) depth (?b, s) = Inr (ps, budget', s)"
    using Cons.IH [OF b(2), of ?b] Cons.prems bytes by (auto simp: b(3) serves_def)
  ultimately show ?case by (simp add: b(3) chunk_link_cid bytes(1))
qed simp

lemma chunk_count:
  assumes "chunk bs 262144 = Inr ps" "length bs \<le> 268435456"
  shows "length ps \<le> 1025"
proof -
  have full: "\<forall>p\<in>set (butlast ps). length p = 262144" and all: "concat ps = bs" "ps \<noteq> []"
    using chunk_spec [OF assms(1)] by simp_all
  have "length (concat qs) = 262144 * length qs" if "\<forall>p\<in>set qs. length p = 262144" for qs :: "bytes list"
    using that by (induction qs) auto
  from this [OF full] have "length (concat (butlast ps)) = 262144 * (length ps - 1)" by simp
  moreover have "length (concat ps) = length (concat (butlast ps)) + length (last ps)"
    using all(2) by (metis append_butlast_last_id concat.simps concat_append append_Nil2 length_append)
  ultimately have "262144 * (length ps - 1) \<le> 268435456" using assms(2) all(1) by simp
  then show ?thesis by simp
qed

lemma survives_Nil: "survives []"
  by (simp add: survives_def text_decode_lossy_def text_encode_def strip_bom_def BOM_def)

lemma fetchFile_file:
  assumes "fileBlocks C content = Inr (fbs, cid, tsize)" "serves source (set fbs)"
    "\<forall>b\<in>set fbs. length (bk_bytes b) \<le> 1048576" "length content \<le> 268435456" "depth \<le> 31"
    "bg_blocks budget \<le> 32" "bg_bytes budget = 0"
  shows "\<exists>budget'. fetchFile C source cid depth (budget, s) = Inr (content, budget', s)"
proof -
  obtain ps where ps: "chunk content 262144 = Inr ps" by (simp add: chunk_def)
  note c = chunk_spec [OF ps]
  show ?thesis
  proof (cases "length ps = 1")
    case True
    then have one: "ps = [content]" using c(1) by (cases ps) auto
    then obtain b where b: "chunk_block C content = Inr b" "fbs = [b]" "cid = bk_cid b"
      using assms(1) ps by (auto simp: fileBlocks_def errs)
    have bytes: "bk_bytes b = content" "block_ok C 0x55 b" using b(1) by (auto simp: chunk_block_Inr)
    have "fetchFile C source (bk_cid b) depth (budget, s) =
        Inr (bk_bytes b, \<lparr>bg_blocks = bg_blocks budget + 1, bg_bytes = bg_bytes budget + length (bk_bytes b)\<rparr>, s)"
      by (rule fetchFile_leaf) (use assms b bytes in \<open>simp_all add: serves_def\<close>)
    then show ?thesis using b bytes by simp
  next
    case False
    then obtain blocks p bs node where f: "mapE (chunk_block C) ps = Inr blocks" "unixfsFile (map length ps) = Inr p"
      "encodePbNode (map chunk_link blocks) p = Inr bs" "dagPbBlock C bs = Inr node" "fbs = blocks @ [node]" "cid = bk_cid node"
      using assms(1) ps by (auto simp: fileBlocks_def errs Let_def)
    have few: "length ps \<le> 1025" by (rule chunk_count [OF ps assms(4)])
    have n: "bk_bytes node = bs" "block_ok C 0x70 node" using f(4) by (auto simp: dagPbBlock_Inr)
    have "canonical (lk_cid (chunk_link b))" if "b \<in> set blocks" for b
      using list_all2_set2 [OF f(1) [unfolded mapE_eq_Inr] that]
      by (auto simp: chunk_block_Inr chunk_link_def dest: block_canonical)
    then have "readable (map chunk_link blocks)" by (auto simp: readable_def chunk_link_def survives_Nil)
    moreover have "length (map chunk_link blocks) \<le> 8192" using few mapE_length [OF f(1)] by simp
    ultimately have decoded: "decodeNode (bk_bytes node) = Inr \<lparr>dn_links = map chunk_link blocks, dn_type = 2,
        dn_filesize = sum_list (map length ps), dn_blocksizes = map length ps\<rparr>"
      using decode_file [OF f(2,3)] n(1) by simp
    have v: "fetchVerified C source (bk_cid node) (budget, s) =
        Inr (bk_bytes node, budget\<lparr>bg_blocks := bg_blocks budget + 1\<rparr>, s)"
      by (rule fetchVerified_block [OF n(2)]) (use assms f(5) in \<open>simp_all add: serves_def\<close>)
    obtain budget' where parts: "fetchParts C source (zip (map chunk_link blocks) (map length ps)) (depth + 1)
        (budget\<lparr>bg_blocks := bg_blocks budget + 1\<rparr>, s) = Inr (ps, budget', s)"
      using fetchParts_chunks [OF f(1), of source "depth + 1" "budget\<lparr>bg_blocks := bg_blocks budget + 1\<rparr>" s]
        assms few c(1) f(5) by (auto simp: serves_def)
    have "fetchFile C source (bk_cid node) depth (budget, s) = Inr (concat ps, budget', s)"
      using assms(5) parts mapE_length [OF f(1)]
      by (simp add: fetchFile.simps [of C source "bk_cid node"] v contentCid_def block_decodes [OF n(2)]
          block_cid_def decoded UNIXFS_TYPE_def)
    then show ?thesis using f(6) c(1) by simp
  qed
qed

subsection \<open>Paths\<close>

lemma filter_unique: "distinct (map f xs) \<Longrightarrow> e \<in> set xs \<Longrightarrow> filter (\<lambda>x. f x = f e) xs = [e]"
  by (induction xs) (auto simp: filter_empty_conv image_iff)

lemma fetch_walk_reaches:
  assumes "reaches C B n N cid names t" "serves source B" "n \<le> 8192" "\<forall>x\<in>N. survives x"
    "\<forall>b\<in>B. length (bk_bytes b) \<le> 1048576" "i + length names \<le> 33" "bg_blocks budget + length names \<le> 4096"
  shows "fetch_walk C source cid names i (budget, s) =
    Inr (t, budget\<lparr>bg_blocks := bg_blocks budget + length names\<rparr>, s)"
  using assms(1,6,7)
proof (induction names arbitrary: cid i budget)
  case (Cons name names)
  then obtain b es e where b: "b \<in> B" "bk_cid b = cid" "directoryNode C es = Inr b" "length es \<le> n" "e \<in> set es"
    "lk_name e = name" "\<forall>x\<in>set es. canonical (lk_cid x) \<and> lk_name x \<in> N" "reaches C B n N (lk_cid e) names t"
    by auto
  let ?sorted = "sort_key (\<lambda>e. text_encode (lk_name e)) es"
  note dir = directoryNode_Inr [OF b(3)]
  have decoded: "decodeNode (bk_bytes b) = Inr \<lparr>dn_links = ?sorted, dn_type = 1, dn_filesize = 0, dn_blocksizes = []\<rparr>"
    by (rule decode_directory [OF b(3)]) (use b(4,7) assms(3,4) in \<open>auto simp: readable_def\<close>)
  have "distinct (map lk_name ?sorted)" using dir(1) by (simp add: distinct_map)
  from filter_unique [OF this, of e] have found: "filter (\<lambda>l. lk_name l = name) ?sorted = [e]" using b(5,6) by simp
  have v: "fetchVerified C source (bk_cid b) (budget, s) =
      Inr (bk_bytes b, budget\<lparr>bg_blocks := bg_blocks budget + 1\<rparr>, s)"
    by (rule fetchVerified_block [OF dir(3)]) (use assms(2,5) b(1) Cons.prems(3) in \<open>simp_all add: serves_def\<close>)
  have "fetch_walk C source (lk_cid e) names (i + 1) (budget\<lparr>bg_blocks := bg_blocks budget + 1\<rparr>, s) =
      Inr (t, budget\<lparr>bg_blocks := bg_blocks budget + length (name # names)\<rparr>, s)"
    using Cons.IH [OF b(8), of "i + 1" "budget\<lparr>bg_blocks := bg_blocks budget + 1\<rparr>"] Cons.prems by simp
  then show ?case
    using Cons.prems(2) v b(2)
    by (simp add: contentCid_def block_decodes [OF dir(3), unfolded b(2)] block_cid_def decoded found UNIXFS_TYPE_def)
qed simp


subsection \<open>The blocks of an import\<close>

definition addressed :: "crypto \<Rightarrow> Block set \<Rightarrow> bool" where
  "addressed C B \<longleftrightarrow> (\<forall>b\<in>B. \<exists>codec. block_ok C codec b)"

lemma fileBlocks_addressed:
  assumes "fileBlocks C bs = Inr (blocks, cid, tsize)"
  shows "addressed C (set blocks)"
proof -
  have chunks: "addressed C (set bl)" if "mapE (chunk_block C) ps = Inr bl" for ps bl
    using that list_all2_set2 [OF that [unfolded mapE_eq_Inr]]
    by (fastforce simp: addressed_def chunk_block_Inr)
  show ?thesis
    using assms chunks
    by (auto simp: fileBlocks_def errs Let_def addressed_def chunk_block_Inr dagPbBlock_Inr split: if_splits)
qed

lemma buildDirectory_addressed:
  "buildDirectory C fuel prefix tree = Inr (bs, cid, tsize) \<Longrightarrow> addressed C (set bs)"
proof (induction fuel arbitrary: prefix bs cid tsize)
  case (Suc fuel)
  obtain es ds where level: "foldl (level_step prefix) ([], []) tree = (es, ds)"
    by (cases "foldl (level_step prefix) ([], []) tree")
  obtain children node all where c: "mapE (\<lambda>name. buildDirectory C fuel (child_prefix prefix name) tree) ds = Inr children"
    "directoryNode C all = Inr node" "bs = concat (map fst children) @ [node]"
    by (rule buildDirectory_Suc [OF Suc.prems level])
  have "addressed C (set (fst child))" if "child \<in> set children" for child
  proof -
    from list_all2_set2 [OF c(1) [unfolded mapE_eq_Inr] that]
    obtain name where "buildDirectory C fuel (child_prefix prefix name) tree = Inr child" by blast
    then show ?thesis using Suc.IH by (cases child) auto
  qed
  then show ?case using directoryNode_Inr(3) [OF c(2)] by (auto simp: c(3) addressed_def)
qed simp

lemma import_files_addressed:
  "import_files C files blocks tree = Inr (bs, t) \<Longrightarrow> addressed C (set blocks) \<Longrightarrow> addressed C (set bs)"
proof (induction files arbitrary: blocks tree)
  case (Cons f files)
  then obtain gbs cid tsize tree' where g: "fileBlocks C (sf_content f) = Inr (gbs, cid, tsize)"
    "import_files C files (blocks @ gbs) tree' = Inr (bs, t)" by (auto simp: errs)
  show ?case
    by (rule Cons.IH [OF g(2)]) (use Cons.prems(2) fileBlocks_addressed [OF g(1)] in \<open>auto simp: addressed_def\<close>)
qed simp

lemma importSite_addressed:
  assumes "importSite C files = Inr (blocks, cid)"
  shows "addressed C (set blocks)"
proof -
  obtain bs tree dbs tsize where i: "import_files C files [] [] = Inr (bs, tree)"
    "buildDirectory C (Suc (longest_path files)) [] tree = Inr (dbs, cid, tsize)" "blocks = bs @ dbs"
    using assms by (auto simp: importSite_def errs simp del: buildDirectory.simps)
  have "addressed C (set bs)" by (rule import_files_addressed [OF i(1)]) (simp add: addressed_def)
  then show ?thesis using buildDirectory_addressed [OF i(2)] i(3) by (auto simp: addressed_def)
qed

lemma same_cid_same_bytes:
  assumes "addressed C B" "inj_on (sha256 C) (bk_bytes ` B)" "a \<in> B" "b \<in> B" "bk_cid a = bk_cid b"
  shows "bk_bytes a = bk_bytes b"
proof -
  obtain c d where ok: "block_ok C c a" "block_ok C d b" using assms(1,3,4) unfolding addressed_def by blast
  have "block_cid C c (bk_bytes a) = block_cid C d (bk_bytes b)"
    using block_decodes [OF ok(1)] block_decodes [OF ok(2)] assms(5) by simp
  then have "sha256 C (bk_bytes a) = sha256 C (bk_bytes b)" by (simp add: block_cid_def)
  then show ?thesis using assms(2-4) by (auto dest: inj_onD)
qed

lemma blockSourceOf_get:
  "fst (blockSourceOf blocks s cid) = map_option bk_bytes (List.find (\<lambda>b. bk_cid b = cid) blocks)"
proof -
  have "map_get (foldl (\<lambda>m b. if map_has m (bk_cid b) then m else map_set (bk_cid b) (bk_bytes b) m) m blocks) cid =
      (case map_get m cid of Some x \<Rightarrow> Some x | None \<Rightarrow> map_option bk_bytes (List.find (\<lambda>b. bk_cid b = cid) blocks))" for m
    by (induction blocks arbitrary: m) (auto simp: map_has_get split: option.splits)
  from this [of "[]"] show ?thesis by (simp add: blockSourceOf_def Let_def)
qed

lemma blockSourceOf_serves:
  assumes "addressed C (set blocks)" "inj_on (sha256 C) (bk_bytes ` set blocks)"
  shows "serves (blockSourceOf blocks) (set blocks)"
proof -
  have "fst (blockSourceOf blocks s (bk_cid b)) = Some (bk_bytes b)" if b: "b \<in> set blocks" for b s
  proof (cases "List.find (\<lambda>x. bk_cid x = bk_cid b) blocks")
    case None
    then show ?thesis using b by (auto simp: find_None_iff)
  next
    case (Some a)
    then have "a \<in> set blocks" "bk_cid a = bk_cid b" by (auto simp: find_Some_iff)
    then show ?thesis using same_cid_same_bytes [OF assms _ b] Some by (simp add: blockSourceOf_get)
  qed
  moreover have "snd (blockSourceOf blocks s cid) = s" for s cid by (simp add: blockSourceOf_def Let_def)
  ultimately show ?thesis by (simp add: serves_def prod_eq_iff)
qed

lemma path_check_dots:
  "path_check path = Inr u \<Longrightarrow> \<forall>p\<in>set (split_on SLASH path). p \<noteq> js ''.'' \<and> p \<noteq> js ''..''"
  by (auto simp: path_check_def list_ex_iff simp del: js_simps split: if_splits)

subsection \<open>Property\<close>

text \<open>
  C31. What is published is read. Every file of an imported site, fetched by its path from the
  identifier of the site and the blocks of the import, comes back byte for byte, provided no two
  blocks of the import have the same hash, the site is within the limits of the reader (fewer than
  8,193 files, blocks of at most 1 MiB, files of at most 256 MiB, fewer than 32 levels) and its
  names survive UTF-8: they have no lone surrogate and do not start with a byte order mark. When
  a path occurs more than once, its last file counts.
\<close>

theorem publish_fetch:
  assumes "importSite C files = Inr (blocks, cid)" "file_at files f"
    and "inj_on (sha256 C) (bk_bytes ` set blocks)" "\<forall>b\<in>set blocks. length (bk_bytes b) \<le> 1048576"
    and "length files \<le> 8192" "\<forall>g\<in>set files. \<forall>name\<in>set (split_on SLASH (sf_path g)). survives name"
    and "length (split_on SLASH (sf_path f)) < 32" "length (sf_content f) \<le> 256 * 1024 * 1024"
  shows "\<exists>b. fetchPath C (blockSourceOf blocks) () cid (sf_path f) = Inr (sf_content f, b, ())"
proof -
  let ?names = "split_on SLASH (sf_path f)" and ?N = "\<Union>g\<in>set files. set (split_on SLASH (sf_path g))"
  obtain fbs fcid tsize where f: "fileBlocks C (sf_content f) = Inr (fbs, fcid, tsize)" "set fbs \<subseteq> set blocks"
    "reaches C (set blocks) (length files) ?N cid ?names fcid" "segments_ok ?names"
    by (rule importSite_reaches [OF assms(1,2)])
  have serves: "serves (blockSourceOf blocks) (set blocks)"
    by (rule blockSourceOf_serves [OF importSite_addressed [OF assms(1)] assms(3)])
  have segs: "path_segments (sf_path f) = ?names"
    using f(4) by (auto simp: path_segments_def segments_ok_def filter_id_conv)
  have walk: "fetch_walk C (blockSourceOf blocks) cid ?names 0 (new_budget, ()) =
      Inr (fcid, new_budget\<lparr>bg_blocks := bg_blocks new_budget + length ?names\<rparr>, ())"
    by (rule fetch_walk_reaches [OF f(3) serves assms(5)])
      (use assms(4,6,7) in \<open>auto simp: new_budget_def\<close>)
  obtain b where "fetchFile C (blockSourceOf blocks) fcid (length ?names)
      (new_budget\<lparr>bg_blocks := bg_blocks new_budget + length ?names\<rparr>, ()) = Inr (sf_content f, b, ())"
    using fetchFile_file [OF f(1) serves_subset [OF serves f(2)], of "length ?names"
        "new_budget\<lparr>bg_blocks := bg_blocks new_budget + length ?names\<rparr>" "()"] assms(4,7,8) f(2)
    by (auto simp: new_budget_def)
  moreover have "path_check (sf_path f) = Inr ()"
    using assms(1,2) import_files_spec [of C files "[]" "[]"] by (fastforce simp: importSite_def errs tree_wf_def)
  ultimately show ?thesis
    unfolding fetchPath_Inr segs using walk path_check_dots by blast
qed


definition sample_file :: SiteFile where
  "sample_file = \<lparr>sf_path = js ''r'', sf_content = [3]\<rparr>"

definition sample_link :: "jsstr \<Rightarrow> Link" where
  "sample_link cid = \<lparr>lk_cid = cid, lk_name = js ''r'', lk_tsize = 1\<rparr>"

lemma sample_pbLink:
  assumes "block_ok sample_crypto 0x55 leaf" "bk_bytes leaf = [3]"
  shows "pbLink (sample_link (bk_cid leaf)) =
    Inr ([0x0a, 36, 1, 0x55, 0x12, 32] @ be_bytes 32 3 @ [0x12, 1, 114, 0x18, 1])"
proof -
  have "text_encode (js ''r'') = [114]" by (simp add: text_encode_ascii is_ascii_def)
  then show ?thesis
    by (simp add: pbLink_def sample_link_def block_decodes [OF assms(1)] assms(2) block_cid_def pb_varint_def varint_small
        MAX_SAFE_INTEGER_def lengthDelimited_def varintField_def tag_def be_value_def)
qed

lemma sample_node:
  assumes "block_ok sample_crypto 0x55 leaf" "bk_bytes leaf = [3]"
  shows "\<exists>node. directoryNode sample_crypto [sample_link (bk_cid leaf)] = Inr node \<and>
    bk_bytes node = [0x12, 43] @ [0x0a, 36, 1, 0x55, 0x12, 32] @ be_bytes 32 3 @ [0x12, 1, 114, 0x18, 1] @ [0x0a, 2, 8, 1]"
proof -
  let ?bytes = "[0x12, 43] @ [0x0a, 36, 1, 0x55, 0x12, 32] @ be_bytes 32 3 @ [0x12, 1, 114, 0x18, 1] @ [0x0a, 2, 8, 1]"
  have dir: "unixfsDirectory = Inr [8, 1]" and pay: "lengthDelimited 1 [8, 1] = Inr [0x0a, 2, 8, 1]"
    by (simp_all add: unixfsDirectory_def varintField_def lengthDelimited_def tag_def
        pb_varint_def UNIXFS_TYPE_def varint_small MAX_SAFE_INTEGER_def)
  have enc: "encodePbNode [sample_link (bk_cid leaf)] [8, 1] = Inr ?bytes"
    unfolding encodePbNode_def mapE.simps sample_pbLink [OF assms]
    by (simp add: pay) (simp add: lengthDelimited_def tag_def pb_varint_def varint_small MAX_SAFE_INTEGER_def)
  obtain node where "dagPbBlock sample_crypto ?bytes = Inr node"
    using dagPbBlock_total [OF sample_sha256_length] by blast
  moreover have "check_entries [] [sample_link (bk_cid leaf)] = Inr ()" by (simp add: sample_link_def)
  ultimately have "directoryNode sample_crypto [sample_link (bk_cid leaf)] = Inr node"
    unfolding directoryNode_def dir by (simp add: enc)
  then show ?thesis using \<open>dagPbBlock sample_crypto ?bytes = Inr node\<close> unfolding dagPbBlock_Inr by blast
qed

lemma sample_import:
  "\<exists>leaf node. importSite sample_crypto [sample_file] = Inr ([leaf, node], bk_cid node) \<and> bk_bytes leaf = [3] \<and>
    length (bk_bytes node) = 49 \<and> last (bk_bytes node) = 1"
proof -
  obtain leaf where leaf: "chunk_block sample_crypto [3] = Inr leaf"
    using chunk_block_total [OF sample_sha256_length, of "[3]"] by auto
  then have ok: "block_ok sample_crypto 0x55 leaf" "bk_bytes leaf = [3]" by (auto simp: chunk_block_Inr)
  obtain node where node: "directoryNode sample_crypto [sample_link (bk_cid leaf)] = Inr node"
    "bk_bytes node = [0x12, 43] @ [0x0a, 36, 1, 0x55, 0x12, 32] @ be_bytes 32 3 @ [0x12, 1, 114, 0x18, 1] @ [0x0a, 2, 8, 1]"
    using sample_node [OF ok] by blast
  have "chunk [3] 262144 = Inr [[3]]" by (simp add: chunk_def chunks_of_unfold)
  then have "fileBlocks sample_crypto [3] = Inr ([leaf], bk_cid leaf, 1)" by (simp add: fileBlocks_def leaf)
  moreover have "path_check (js ''r'') = Inr ()" by (simp add: path_check_def SLASH_def starts_with_def)
  ultimately have files: "import_files sample_crypto [sample_file] [] [] =
      Inr ([leaf], [(js ''r'', sample_link (bk_cid leaf))])"
    by (simp add: sample_file_def sample_link_def)
  have level: "foldl (level_step []) ([], []) [(js ''r'', sample_link (bk_cid leaf))] =
      ([sample_link (bk_cid leaf)], [])"
    by (simp add: level_step_def relative_path_def SLASH_def sample_link_def)
  have "importSite sample_crypto [sample_file] = Inr ([leaf, node], bk_cid node)"
    unfolding importSite_def files sum.case prod.case buildDirectory.simps level
    by (simp add: node(1) Let_def)
  then show ?thesis using node(2) ok(2) by (auto simp del: js_simps)
qed

theorem publish_fetch_witness:
  "\<exists>blocks cid b. importSite sample_crypto [sample_file] = Inr (blocks, cid) \<and>
     fetchPath sample_crypto (blockSourceOf blocks) () cid (js ''r'') = Inr ([3], b, ())"
proof -
  obtain leaf node where i: "importSite sample_crypto [sample_file] = Inr ([leaf, node], bk_cid node)"
    "bk_bytes leaf = [3]" "length (bk_bytes node) = 49" "last (bk_bytes node) = 1"
    using sample_import by blast
  have split: "split_on SLASH (sf_path sample_file) = [js ''r'']" by (simp add: sample_file_def SLASH_def)
  have survive: "survives (js ''r'')"
    unfolding survives_def
    by (intro text_decode_lossy_encode well_formed_ascii) (simp_all add: is_ascii_def)
  have "sha256 sample_crypto (bk_bytes leaf) \<noteq> sha256 sample_crypto (bk_bytes node)"
  proof
    assume "sha256 sample_crypto (bk_bytes leaf) = sha256 sample_crypto (bk_bytes node)"
    then have "last (be_bytes 32 (be_value (bk_bytes leaf))) = last (be_bytes 32 (be_value (bk_bytes node)))" by simp
    moreover have "last (be_bytes 32 v) = word_of_nat (v mod 256)" for v
      using be_bytes.simps(2) [of 31 v] by simp
    moreover obtain q where "be_value (bk_bytes node) = q * 256 + 1"
    proof -
      have "bk_bytes node \<noteq> []" using i(3) by auto
      then have "bk_bytes node = butlast (bk_bytes node) @ [1]" using append_butlast_last_id i(4) by metis
      then have "be_value (bk_bytes node) = be_value (butlast (bk_bytes node) @ [1])" by simp
      also have "\<dots> = be_value (butlast (bk_bytes node)) * 256 + 1" by (simp only: be_value_snoc) simp
      finally show thesis by (rule that)
    qed
    moreover have "be_value (bk_bytes leaf) = 3" by (simp add: i(2) be_value_def)
    ultimately have "(word_of_nat (3 mod 256) :: byte) = word_of_nat ((q * 256 + 1) mod 256)" by metis
    moreover have "(q * 256 + 1) mod 256 = 1" by presburger
    ultimately show False by simp
  qed
  then have inj: "inj_on (sha256 sample_crypto) (bk_bytes ` set [leaf, node])" by (auto simp: inj_on_def)
  have here: "file_at [sample_file] sample_file" unfolding file_at_def by (intro exI [of _ "[]"]) simp
  have small: "\<forall>b\<in>set [leaf, node]. length (bk_bytes b) \<le> 1048576" using i(2,3) by simp
  have "\<exists>b. fetchPath sample_crypto (blockSourceOf [leaf, node]) () (bk_cid node) (sf_path sample_file) =
      Inr (sf_content sample_file, b, ())"
  proof (rule publish_fetch [OF i(1) here inj small])
    show "\<forall>g\<in>set [sample_file]. \<forall>name\<in>set (split_on SLASH (sf_path g)). survives name"
      using split survive by simp
  qed (simp_all only: split, simp_all add: sample_file_def)
  then show ?thesis using i(1) by (auto simp: sample_file_def)
qed

end
