(* ===== verification/Site_Order.thy ===== *)
theory Site_Order
  imports Site "HOL-Library.Multiset"
begin

section \<open>The identifier of a site does not depend on the order of its files\<close>

text \<open>
  unixfs.ts sorts the entries of a directory by the bytes of their names so that two publishers of
  the same files compute the same CID. That holds when no two names have the same UTF-8 form.
\<close>

lemma sort_key_perm:
  assumes "mset xs = mset ys" "inj_on k (set xs)"
  shows "sort_key k xs = sort_key k ys"
proof -
  have "map k (sort_key k zs) = sort (map k zs)" for zs
    by (rule properties_for_sort [symmetric]) simp_all
  then have "map k (sort_key k xs) = map k (sort_key k ys)"
    using assms(1) by (metis mset_map properties_for_sort sorted_sort mset_sort)
  moreover have "set ys = set xs" using assms(1) by (metis set_mset_mset)
  ultimately show ?thesis using assms(2) by (simp add: inj_on_map_eq_map)
qed

lemma directoryNode_perm:
  assumes "directoryNode C es = Inr b" "mset es = mset es'" "inj_on (\<lambda>e. text_encode (lk_name e)) (set es)"
  shows "directoryNode C es' = Inr b"
proof -
  have s: "set es' = set es" "distinct (map lk_name es') = distinct (map lk_name es)"
    using assms(2) by (metis set_mset_mset, metis mset_map mset_eq_imp_distinct_iff)
  have "check_entries [] es' = check_entries [] es"
    using directoryNode_Inr(1,2) [OF assms(1)] s check_entries_Inr [of "[]" es' "()"] check_entries_Inr [of "[]" es "()"]
    by simp
  then show ?thesis using assms(1) unfolding directoryNode_def sort_key_perm [OF assms(2,3)] by simp
qed

definition level_entry :: "jsstr \<Rightarrow> jsstr \<times> Link \<Rightarrow> Link option" where
  "level_entry prefix item =
     (case relative_path prefix (fst item) of
        None \<Rightarrow> None
      | Some rel \<Rightarrow> if index_of SLASH rel = None then Some ((snd item)\<lparr>lk_name := rel\<rparr>) else None)"

lemma level_entries:
  "fst (foldl (level_step prefix) (es, ds) tree) = es @ List.map_filter (level_entry prefix) tree"
  by (induction tree arbitrary: es ds)
    (auto simp: level_step_def level_entry_def map_filter_simps split: option.splits)

lemma level_entries_perm:
  assumes "mset tree = mset tree'"
    "foldl (level_step prefix) ([], []) tree = (es, ds)" "foldl (level_step prefix) ([], []) tree' = (es', ds')"
  shows "mset es = mset es'"
  using level_entries [of prefix "[]" "[]" tree] level_entries [of prefix "[]" "[]" tree'] assms
  by (simp add: List.map_filter_def)


definition dir_link :: "jsstr \<times> Block list \<times> jsstr \<times> nat \<Rightarrow> Link" where
  "dir_link = (\<lambda>(name, (_, cid, tsize)). \<lparr>lk_cid = cid, lk_name = name, lk_tsize = tsize\<rparr>)"

lemma buildDirectory_step:
  assumes "foldl (level_step prefix) ([], []) tree = (es, ds)"
    and "mapE (\<lambda>name. buildDirectory C fuel (child_prefix prefix name) tree) ds = Inr children"
    and "directoryNode C (es @ map dir_link (zip ds children)) = Inr node"
  shows "buildDirectory C (Suc fuel) prefix tree = Inr (concat (map fst children) @ [node], bk_cid node,
    length (bk_bytes node) + sum_list (map lk_tsize (es @ map dir_link (zip ds children))))"
  using assms by (simp add: dir_link_def Let_def)

lemma mapE_links:
  assumes "mapE f ds = Inr children" "\<And>name. name \<in> set ds \<Longrightarrow> \<exists>bs. f name = Inr (bs, g name)"
  shows "map dir_link (zip ds children) = map (\<lambda>name. dir_link (name, [], g name)) ds"
  using assms
proof (induction ds arbitrary: children)
  case (Cons d ds)
  then obtain c cs where c: "f d = Inr c" "mapE f ds = Inr cs" "children = c # cs" by (auto simp: errs)
  moreover obtain bs where "c = (bs, g d)" using Cons.prems(2) [of d] c(1) by auto
  ultimately show ?case using Cons.IH [of cs] Cons.prems(2) by (simp add: dir_link_def split: prod.split)
qed simp

lemma buildDirectory_perm:
  assumes "mset tree = mset tree'" "tree_wf tree"
    and "inj_on text_encode N" "\<And>qs l. (qs, l) \<in> items tree \<Longrightarrow> set qs \<subseteq> N"
  shows "segments_ok ps \<Longrightarrow> buildDirectory C fuel (join_path ps) tree = Inr (bs, r) \<Longrightarrow>
    \<exists>bs'. buildDirectory C fuel (join_path ps) tree' = Inr (bs', r)"
proof (induction fuel arbitrary: ps bs r)
  case (Suc fuel)
  let ?p = "join_path ps"
  obtain cid tsize where r: "r = (cid, tsize)" by (cases r)
  obtain es ds es' ds' where level: "foldl (level_step ?p) ([], []) tree = (es, ds)"
    "foldl (level_step ?p) ([], []) tree' = (es', ds')"
    by (metis surj_pair)
  have set: "set tree' = set tree" using assms(1) by (metis set_mset_mset)
  then have items: "items tree' = items tree" by (simp add: items_def)
  have keys: "\<forall>path\<in>fst ` set tree. \<exists>qs. qs \<noteq> [] \<and> segments_ok qs \<and> path = join_path qs"
    using assms(2) by (simp add: tree_wf_def)
  have spec: "set es = entries_below ps (items tree)" "set ds = dirs_below ps (items tree)" "distinct ds"
    using level_spec [OF level(1) Suc.prems(1) keys] by blast+
  have spec': "set ds' = set ds" "distinct ds'"
    using level_spec [OF level(2) Suc.prems(1)] keys spec(2) unfolding set items by blast+
  obtain children node where c: "mapE (\<lambda>name. buildDirectory C fuel (child_prefix ?p name) tree) ds = Inr children"
    "directoryNode C (es @ map dir_link (zip ds children)) = Inr node" "cid = bk_cid node"
    using Suc.prems(2) unfolding r by (rule buildDirectory_Suc [OF _ level(1)]) (simp add: dir_link_def)
  have tsize: "tsize = length (bk_bytes node) + sum_list (map lk_tsize (es @ map dir_link (zip ds children)))"
    using buildDirectory_step [OF level(1) c(1,2)] Suc.prems(2) r by simp
  obtain g where g: "\<And>name. name \<in> set ds \<Longrightarrow> \<exists>bs. buildDirectory C fuel (child_prefix ?p name) tree = Inr (bs, g name)"
  proof
    fix name assume "name \<in> set ds"
    then obtain y where "buildDirectory C fuel (child_prefix ?p name) tree = Inr y"
      using c(1) mapE_total [of "\<lambda>name. buildDirectory C fuel (child_prefix ?p name) tree" ds] by blast
    then show "\<exists>bs. buildDirectory C fuel (child_prefix ?p name) tree =
        Inr (bs, snd (projr (buildDirectory C fuel (child_prefix ?p name) tree)))" by (cases y) simp
  qed
  have g': "\<exists>bs. buildDirectory C fuel (child_prefix ?p name) tree' = Inr (bs, g name)" if n: "name \<in> set ds'" for name
  proof -
    have "name \<in> dirs_below ps (items tree)" using n spec(2) spec'(1) by simp
    then have "segments_ok (ps @ [name])" by (auto simp: below_simps items_def)
    then show ?thesis using g [of name] n spec'(1) Suc.IH unfolding child_prefix_join [OF Suc.prems(1)] by blast
  qed
  obtain children' where c': "mapE (\<lambda>name. buildDirectory C fuel (child_prefix ?p name) tree') ds' = Inr children'"
    using mapE_total [of "\<lambda>name. buildDirectory C fuel (child_prefix ?p name) tree'" ds'] g' by blast
  have "mset ds = mset ds'" using spec(3) spec' by (simp add: set_eq_iff_mset_eq_distinct)
  then have perm: "mset (es @ map dir_link (zip ds children)) = mset (es' @ map dir_link (zip ds' children'))"
    using level_entries_perm [OF assms(1) level]
    by (simp add: mapE_links [OF c(1) g] mapE_links [OF c' g'])
  have "lk_name e \<in> N" if e: "e \<in> set (es @ map dir_link (zip ds children))" for e
  proof (cases "e \<in> set es")
    case True
    then show ?thesis using assms(4) by (fastforce simp: spec(1) below_simps)
  next
    case False
    with e obtain name where "name \<in> set ds" "lk_name e = name"
      by (auto simp: dir_link_def dest: set_zip_leftD)
    then show ?thesis using assms(4) by (fastforce simp: spec(2) below_simps)
  qed
  moreover have "inj_on lk_name (set (es @ map dir_link (zip ds children)))"
    using directoryNode_Inr(1) [OF c(2)] by (simp only: distinct_map)
  ultimately have "inj_on (\<lambda>e. text_encode (lk_name e)) (set (es @ map dir_link (zip ds children)))"
    using assms(3) by (auto simp: inj_on_def)
  from directoryNode_perm [OF c(2) perm this]
  have "directoryNode C (es' @ map dir_link (zip ds' children')) = Inr node" .
  from buildDirectory_step [OF level(2) c' this]
  show ?case using c(3) tsize r arg_cong [OF perm, of "\<lambda>m. sum_mset (image_mset lk_tsize m)"]
    by (simp add: sum_mset_sum_list [symmetric] flip: mset_map)
qed simp


subsection \<open>The whole import\<close>

lemma import_files_total:
  "(\<exists>x. import_files C files blocks tree = Inr x) \<longleftrightarrow>
     (\<forall>f\<in>set files. path_check (sf_path f) = Inr () \<and> (\<exists>y. fileBlocks C (sf_content f) = Inr y))"
proof (induction files arbitrary: blocks tree)
  case (Cons f files)
  show ?case
  proof (cases "path_check (sf_path f)")
    case p: (Inr u)
    show ?thesis
    proof (cases "fileBlocks C (sf_content f)")
      case (Inr y)
      then show ?thesis using Cons.IH p by (cases y) simp
    qed (use p in auto)
  qed auto
qed simp

lemma longest_path_le: "longest_path files \<le> n \<longleftrightarrow> (\<forall>f\<in>set files. length (sf_path f) \<le> n)"
  by (induction files) (auto simp: longest_path_def)

lemma distinct_file_at:
  assumes "distinct (map sf_path files)" "f \<in> set files"
  shows "file_at files f"
proof -
  obtain xs ys where s: "files = xs @ f # ys" using split_list [OF assms(2)] by blast
  then show ?thesis unfolding file_at_def using assms(1) by (intro exI [of _ xs] exI [of _ ys]) auto
qed

lemma import_files_perm:
  assumes "mset files = mset files'" "distinct (map sf_path files)"
    and "import_files C files [] [] = Inr (bs, tree)" "import_files C files' [] [] = Inr (bs', tree')"
  shows "mset tree = mset tree'"
proof -
  have set: "set files' = set files" using assms(1) by (metis set_mset_mset)
  have distinct: "distinct (map sf_path files')" using assms(1,2) by (metis mset_eq_imp_distinct_iff mset_map)
  note spec = import_files_spec [OF assms(3)] and spec' = import_files_spec [OF assms(4)]
  have wf: "tree_wf tree" "tree_wf tree'" using spec spec' by (simp_all add: tree_wf_def)
  have "map_get tree path = map_get tree' path" for path
  proof (cases "path \<in> sf_path ` set files")
    case True
    then obtain f where f: "f \<in> set files" "path = sf_path f" by blast
    then have "file_at files f" "file_at files' f" using distinct_file_at assms(2) distinct set by auto
    then show ?thesis using spec spec' f(2) by (fastforce simp: tree_wf_def)
  next
    case False
    then show ?thesis using spec spec' set by (simp add: tree_wf_def)
  qed
  then have "set tree = set tree'"
    using wf map_of_inject_set [of tree tree'] by (auto simp: tree_wf_def)
  moreover have "distinct tree" "distinct tree'"
    using wf by (auto simp: tree_wf_def distinct_map)
  ultimately show ?thesis by (simp add: set_eq_iff_mset_eq_distinct)
qed

text \<open>
  Two publishers of the same files, listed in different orders, compute the same identifier,
  provided the paths are distinct and no two names in them have the same UTF-8 form (names with
  lone surrogates can).
\<close>

theorem site_cid_order_independent:
  assumes "importSite C files = Inr (blocks, cid)" "mset files' = mset files" "distinct (map sf_path files)"
    and "inj_on text_encode (\<Union>f\<in>set files. set (split_on SLASH (sf_path f)))"
  shows "\<exists>blocks'. importSite C files' = Inr (blocks', cid)"
proof -
  let ?N = "\<Union>f\<in>set files. set (split_on SLASH (sf_path f))"
  obtain bs tree dbs tsize where i: "import_files C files [] [] = Inr (bs, tree)"
    "buildDirectory C (Suc (longest_path files)) (join_path []) tree = Inr (dbs, cid, tsize)"
    using assms(1) by (auto simp: importSite_def errs simp del: buildDirectory.simps)
  have set: "set files' = set files" using assms(2) by (metis set_mset_mset)
  then obtain bs' tree' where i': "import_files C files' [] [] = Inr (bs', tree')"
    using i(1) import_files_total [of C files "[]" "[]"] import_files_total [of C files' "[]" "[]"] by auto
  have fuel: "longest_path files' = longest_path files"
    using longest_path_le set by (metis le_antisym order_refl)
  have wf: "tree_wf tree" using import_files_spec [OF i(1)] by (simp add: tree_wf_def)
  have names: "set qs \<subseteq> ?N" if q: "(qs, l) \<in> items tree" for qs l
  proof -
    have "join_path qs \<in> fst ` set tree" "split_on SLASH (join_path qs) = qs"
      using q split_join [of qs] by (force simp: items_def segments_ok_def)+
    then show ?thesis using import_files_keys [OF i(1)] by fastforce
  qed
  have "mset tree = mset tree'"
    by (rule import_files_perm [OF assms(2) [symmetric] assms(3) i(1) i'])
  then have "\<exists>bs'. buildDirectory C (Suc (longest_path files)) (join_path []) tree' = Inr (bs', cid, tsize)"
    by (rule buildDirectory_perm [OF _ wf assms(4) _ segments_ok_simps(1) i(2)]) (rule names)
  then obtain dbs' where "buildDirectory C (Suc (longest_path files')) [] tree' = Inr (dbs', cid, tsize)"
    unfolding fuel join_path.simps by blast
  then show ?thesis unfolding importSite_def by (simp add: i' del: buildDirectory.simps)
qed

theorem site_cid_order_independent_witness:
  "\<exists>blocks cid. importSite sample_crypto [sample_file] = Inr (blocks, cid)"
proof -
  obtain leaf node where i: "importSite sample_crypto [sample_file] = Inr ([leaf, node], bk_cid node)"
    using sample_import by blast
  have "\<exists>blocks'. importSite sample_crypto [sample_file] = Inr (blocks', bk_cid node)"
    by (rule site_cid_order_independent [OF i]) (simp_all add: sample_file_def SLASH_def)
  then show ?thesis by blast
qed

end
