(* ===== verification/Cache.thy ===== *)
theory Cache
  imports Lifecycle
begin

section \<open>The resolver's caches\<close>

text \<open>
  registry/src/cache.ts: \<open>ResolutionCache\<close>, the two expiring maps of the resolver (names it
  refused, records it found live) and the map of site manifests, with the policy of what may be
  kept for how long, and the types of resolve.ts that the cache holds. Each method is a function
  from the cache to its result and the cache after it; every map is an association list with its
  oldest insertion first, as a \<open>Map\<close> iterates. The operations together are the step relation
  \<open>cache_step\<close>.
\<close>

subsection \<open>What is kept\<close>

datatype ResolveErrorName =
  LABEL_INVALID | TLD_UNKNOWN | NAME_NOT_FOUND | CONTENT_TIMEOUT | NAME_QUARANTINED
| NAME_EXPIRED | NAME_REVOKED | RESPONSE_TOO_LARGE | PATH_NOT_FOUND | NO_USABLE_RECORD
| BLOCKED_BY_POLICY | INTERNAL | REGISTRY_UNAVAILABLE | REGISTRY_STALE | CONTENT_UNAVAILABLE
| IPNS_UNRESOLVED | ALIAS_LOOP | CONTENT_INTEGRITY

text \<open>The number of an error in the catalogue and its HTTP status; the messages are left out.\<close>

definition RESOLVE_ERRORS :: "ResolveErrorName \<Rightarrow> nat \<times> nat" where
  "RESOLVE_ERRORS e =
     (case e of
        LABEL_INVALID \<Rightarrow> (1400, 400)
      | TLD_UNKNOWN \<Rightarrow> (1403, 502)
      | NAME_NOT_FOUND \<Rightarrow> (1404, 404)
      | CONTENT_TIMEOUT \<Rightarrow> (1408, 504)
      | NAME_QUARANTINED \<Rightarrow> (1409, 409)
      | NAME_EXPIRED \<Rightarrow> (1410, 410)
      | NAME_REVOKED \<Rightarrow> (1412, 410)
      | RESPONSE_TOO_LARGE \<Rightarrow> (1413, 502)
      | PATH_NOT_FOUND \<Rightarrow> (1414, 404)
      | NO_USABLE_RECORD \<Rightarrow> (1421, 502)
      | BLOCKED_BY_POLICY \<Rightarrow> (1451, 403)
      | INTERNAL \<Rightarrow> (1500, 500)
      | REGISTRY_UNAVAILABLE \<Rightarrow> (1502, 503)
      | REGISTRY_STALE \<Rightarrow> (1503, 503)
      | CONTENT_UNAVAILABLE \<Rightarrow> (1504, 504)
      | IPNS_UNRESOLVED \<Rightarrow> (1505, 504)
      | ALIAS_LOOP \<Rightarrow> (1508, 508)
      | CONTENT_INTEGRITY \<Rightarrow> (1512, 502))"

record SiteManifest =
  m_index :: "jsstr option"
  m_fallback :: "jsstr option"
  m_notFound :: "jsstr option"

definition NEGATIVE_TTL_SECONDS :: "ResolveErrorName \<Rightarrow> int option" where
  "NEGATIVE_TTL_SECONDS e =
     (case e of
        NAME_NOT_FOUND \<Rightarrow> Some 30
      | NAME_EXPIRED \<Rightarrow> Some 60
      | NAME_QUARANTINED \<Rightarrow> Some 60
      | NAME_REVOKED \<Rightarrow> Some 60
      | CONTENT_UNAVAILABLE \<Rightarrow> Some 10
      | IPNS_UNRESOLVED \<Rightarrow> Some 10
      | LABEL_INVALID \<Rightarrow> None
      | TLD_UNKNOWN \<Rightarrow> None
      | REGISTRY_UNAVAILABLE \<Rightarrow> None
      | CONTENT_INTEGRITY \<Rightarrow> None
      | REGISTRY_STALE \<Rightarrow> None
      | CONTENT_TIMEOUT \<Rightarrow> None
      | RESPONSE_TOO_LARGE \<Rightarrow> None
      | PATH_NOT_FOUND \<Rightarrow> None
      | NO_USABLE_RECORD \<Rightarrow> None
      | ALIAS_LOOP \<Rightarrow> None
      | BLOCKED_BY_POLICY \<Rightarrow> None
      | INTERNAL \<Rightarrow> None)"

definition POSITIVE_TTL_SECONDS :: int where "POSITIVE_TTL_SECONDS = 300"

text \<open>The three bounds in the order negative entries, positive entries, manifests.\<close>

record limits =
  negativeEntries :: int
  positiveEntries :: int
  manifestEntries :: int

definition CACHE_LIMITS :: limits where
  "CACHE_LIMITS = \<lparr>negativeEntries = 512, positiveEntries = 512, manifestEntries = 256\<rparr>"

definition CACHE_ENTRY_ALLOWANCE :: limits where
  "CACHE_ENTRY_ALLOWANCE =
     \<lparr>negativeEntries = 256, positiveEntries = 8 * 1024, manifestEntries = 16 * 1024\<rparr>"

definition CACHE_CEILINGS :: limits where
  "CACHE_CEILINGS =
     \<lparr>negativeEntries = (32 * 1024 * 1024) div negativeEntries CACHE_ENTRY_ALLOWANCE,
      positiveEntries = (32 * 1024 * 1024) div positiveEntries CACHE_ENTRY_ALLOWANCE,
      manifestEntries = (32 * 1024 * 1024) div manifestEntries CACHE_ENTRY_ALLOWANCE\<rparr>"

record NegativeEntry =
  n_error :: ResolveErrorName
  n_expires :: int

record PositiveEntry =
  q_record :: RegistryRecord
  q_expires :: int

text \<open>
  A requested bound is a number that need not be whole: \<open>NotInteger\<close> stands for every number
  that fails \<open>Number.isInteger\<close>. The error carries the field it is about.
\<close>

datatype js_number = Whole int | NotInteger

datatype limit_field = negativeField | positiveField | manifestField

datatype CacheError = NotPositiveInteger limit_field | ExceedsCeiling limit_field

record ResolutionCache =
  negatives :: "(jsstr, NegativeEntry) jsmap"
  positives :: "(jsstr, PositiveEntry) jsmap"
  manifests :: "(jsstr, SiteManifest option) jsmap"
  negativeLimit :: int
  positiveLimit :: int
  manifestLimit :: int
  generation :: "int option"
  hitCount :: nat
  missCount :: nat
  ttls :: "ResolveErrorName \<Rightarrow> int option"

text \<open>\<open>or_else v d\<close> is \<open>v ?? d\<close>.\<close>

primrec or_else :: "'a option \<Rightarrow> 'a \<Rightarrow> 'a" where
  "or_else None d = d"
| "or_else (Some v) d = v"

definition newCache :: "int option \<Rightarrow> int option \<Rightarrow> int option \<Rightarrow> (ResolveErrorName \<Rightarrow> int option) \<Rightarrow>
    ResolutionCache" where
  "newCache negative positive manifest t =
     \<lparr>negatives = [], positives = [], manifests = [],
      negativeLimit = or_else negative (negativeEntries CACHE_LIMITS),
      positiveLimit = or_else positive (positiveEntries CACHE_LIMITS),
      manifestLimit = or_else manifest (manifestEntries CACHE_LIMITS),
      generation = None, hitCount = 0, missCount = 0, ttls = t\<rparr>"

subsection \<open>Eviction\<close>

fun trimTo :: "('k, 'v) jsmap \<Rightarrow> int \<Rightarrow> ('k, 'v) jsmap" where
  "trimTo [] limit = []"
| "trimTo (oldest # m) limit = (if int (length (oldest # m)) > limit then trimTo m limit else oldest # m)"

definition evictFor :: "('k, 'v) jsmap \<Rightarrow> 'k \<Rightarrow> int \<Rightarrow> ('k, 'v) jsmap" where
  "evictFor m key limit = (if int (length m) < limit \<or> map_has m key then m else tl m)"

subsection \<open>The operations\<close>

definition usable :: "limits \<Rightarrow> (limits \<Rightarrow> int) \<Rightarrow> limit_field \<Rightarrow> js_number option \<Rightarrow> CacheError + int option" where
  "usable ceilings bound f v =
     (case v of
        None \<Rightarrow> Inr None
      | Some NotInteger \<Rightarrow> Inl (NotPositiveInteger f)
      | Some (Whole n) \<Rightarrow>
          if n < 1 then Inl (NotPositiveInteger f)
          else if n > bound ceilings then Inl (ExceedsCeiling f)
          else Inr (Some n))"

definition applyLimits :: "int option \<Rightarrow> int option \<Rightarrow> int option \<Rightarrow> ResolutionCache \<Rightarrow> ResolutionCache" where
  "applyLimits negative positive manifest c =
     (let nl = or_else negative (negativeLimit c);
          pl = or_else positive (positiveLimit c);
          ml = or_else manifest (manifestLimit c)
      in c\<lparr>negativeLimit := nl, positiveLimit := pl, manifestLimit := ml,
           negatives := trimTo (negatives c) nl,
           positives := trimTo (positives c) pl,
           manifests := trimTo (manifests c) ml\<rparr>)"

definition setLimits :: "js_number option \<Rightarrow> js_number option \<Rightarrow> js_number option \<Rightarrow>
    ResolutionCache \<Rightarrow> CacheError + ResolutionCache" where
  "setLimits negative positive manifest c =
     bindE (usable CACHE_CEILINGS negativeEntries negativeField negative) (\<lambda>nl.
     bindE (usable CACHE_CEILINGS positiveEntries positiveField positive) (\<lambda>pl.
     bindE (usable CACHE_CEILINGS manifestEntries manifestField manifest) (\<lambda>ml.
     Inr (applyLimits nl pl ml c))))"

definition clear :: "ResolutionCache \<Rightarrow> nat \<times> ResolutionCache" where
  "clear c =
     (length (negatives c) + length (positives c) + length (manifests c),
      c\<lparr>negatives := [], positives := [], manifests := []\<rparr>)"

definition forget :: "jsstr \<Rightarrow> ResolutionCache \<Rightarrow> nat \<times> ResolutionCache" where
  "forget key c =
     ((if map_has (negatives c) key then 1 else 0) + (if map_has (positives c) key then 1 else 0),
      c\<lparr>negatives := map_delete key (negatives c), positives := map_delete key (positives c)\<rparr>)"

definition setGeneration :: "int \<Rightarrow> ResolutionCache \<Rightarrow> ResolutionCache" where
  "setGeneration g c =
     (if generation c = Some g then c
      else c\<lparr>generation := Some g, negatives := [], positives := []\<rparr>)"

definition negative :: "jsstr \<Rightarrow> int \<Rightarrow> ResolutionCache \<Rightarrow> ResolveErrorName option \<times> ResolutionCache" where
  "negative key now c =
     (case map_get (negatives c) key of
        None \<Rightarrow> (None, c\<lparr>missCount := missCount c + 1\<rparr>)
      | Some entry \<Rightarrow>
          if n_expires entry \<le> now
          then (None, c\<lparr>negatives := map_delete key (negatives c), missCount := missCount c + 1\<rparr>)
          else (Some (n_error entry), c\<lparr>hitCount := hitCount c + 1\<rparr>))"

definition putNegative :: "jsstr \<Rightarrow> ResolveErrorName \<Rightarrow> int \<Rightarrow> ResolutionCache \<Rightarrow> bool \<times> ResolutionCache" where
  "putNegative key e now c =
     (case ttls c e of
        None \<Rightarrow> (False, c)
      | Some ttl \<Rightarrow>
          (True, c\<lparr>negatives := map_set key \<lparr>n_error = e, n_expires = now + ttl\<rparr>
                    (evictFor (negatives c) key (negativeLimit c))\<rparr>))"

definition positive :: "jsstr \<Rightarrow> int \<Rightarrow> ResolutionCache \<Rightarrow> RegistryRecord option \<times> ResolutionCache" where
  "positive key now c =
     (case map_get (positives c) key of
        None \<Rightarrow> (None, c\<lparr>missCount := missCount c + 1\<rparr>)
      | Some entry \<Rightarrow>
          if q_expires entry \<le> now
          then (None, c\<lparr>positives := map_delete key (positives c), missCount := missCount c + 1\<rparr>)
          else (Some (q_record entry), c\<lparr>hitCount := hitCount c + 1\<rparr>))"

definition manifest_of :: "jsstr \<Rightarrow> ResolutionCache \<Rightarrow> SiteManifest option option" where
  "manifest_of cid c = map_get (manifests c) cid"

definition rememberManifest :: "jsstr \<Rightarrow> SiteManifest option \<Rightarrow> ResolutionCache \<Rightarrow> ResolutionCache" where
  "rememberManifest cid m c =
     c\<lparr>manifests := map_set cid m (evictFor (manifests c) cid (manifestLimit c))\<rparr>"

definition putPositive :: "jsstr \<Rightarrow> RegistryRecord \<Rightarrow> int \<Rightarrow> ResolutionCache \<Rightarrow> bool \<times> ResolutionCache" where
  "putPositive key r now c =
     (let expires = min (now + POSITIVE_TTL_SECONDS) (r_notAfter r) in
      if expires \<le> now then (False, c)
      else (True, c\<lparr>positives := map_set key \<lparr>q_record = r, q_expires = expires\<rparr>
                    (evictFor (positives c) key (positiveLimit c))\<rparr>))"

lemmas cache_ops = setLimits_def applyLimits_def clear_def forget_def setGeneration_def negative_def
  putNegative_def positive_def rememberManifest_def putPositive_def Let_def

subsection \<open>Bounds\<close>

text \<open>
  \<open>cache_ok\<close> is the invariant of a resolver's cache: every bound is at least one and at most
  its ceiling, every map is within its bound and has one entry for a key.
\<close>

definition fits :: "('k, 'v) jsmap \<Rightarrow> int \<Rightarrow> int \<Rightarrow> bool" where
  "fits m limit most \<longleftrightarrow>
     1 \<le> limit \<and> limit \<le> most \<and> int (length m) \<le> limit \<and> distinct (map fst m)"

definition cache_ok :: "ResolutionCache \<Rightarrow> bool" where
  "cache_ok c \<longleftrightarrow>
     fits (negatives c) (negativeLimit c) (negativeEntries CACHE_CEILINGS) \<and>
     fits (positives c) (positiveLimit c) (positiveEntries CACHE_CEILINGS) \<and>
     fits (manifests c) (manifestLimit c) (manifestEntries CACHE_CEILINGS)"

lemma trimTo_drop: "trimTo m limit = drop (nat (int (length m) - limit)) m"
proof (induction m)
  case (Cons x m)
  show ?case
  proof (cases "int (length (x # m)) > limit")
    case True
    then have "nat (int (length (x # m)) - limit) = Suc (nat (int (length m) - limit))" by simp
    with True Cons show ?thesis by (simp only: trimTo.simps drop_Suc_Cons if_True)
  qed simp
qed simp

lemma set_map_set: "set (map_set k v m) \<subseteq> insert (k, v) (set m)"
  by (induction m) auto

lemma set_map_delete: "set (map_delete k m) \<subseteq> set m"
  by (induction m) auto

lemma set_evictFor: "set (evictFor m key limit) \<subseteq> set m"
  by (auto simp: evictFor_def dest: list.set_sel(2) [rotated] split: if_splits) (metis list.sel(2) list.set_sel(2))

lemma set_trimTo: "set (trimTo m limit) \<subseteq> set m"
  by (simp add: trimTo_drop set_drop_subset)

lemma fits_Nil [intro]: "fits m l u \<Longrightarrow> fits [] l u"
  by (simp add: fits_def)

lemma fits_delete [intro]: "fits m l u \<Longrightarrow> fits (map_delete k m) l u"
  using length_map_delete_le [of k m] by (auto simp: fits_def intro: distinct_delete)

lemma fits_trimTo [intro]: "fits m l u \<Longrightarrow> 1 \<le> l' \<Longrightarrow> l' \<le> u \<Longrightarrow> fits (trimTo m l') l' u"
  by (auto simp: fits_def trimTo_drop drop_map [symmetric])

lemma fits_evict_set [intro]:
  assumes "fits m l u"
  shows "fits (map_set k v (evictFor m k l)) l u"
proof (cases "int (length m) < l \<or> map_has m k")
  case True
  then have "int (length (map_set k v m)) \<le> l"
    using assms length_map_set_le [of k v m] length_map_set_has [of k m v]
    by (elim disjE) (simp_all add: fits_def)
  then show ?thesis using assms True by (auto simp: fits_def evictFor_def distinct_map_set)
next
  case False
  then obtain x m' where m: "m = x # m'" using assms by (cases m) (auto simp: fits_def)
  then have "evictFor m k l = m'" using False by (simp add: evictFor_def)
  then show ?thesis
    using assms m length_map_set_le [of k v m'] by (auto simp: fits_def distinct_map_set)
qed

lemma usable_range:
  assumes "usable u g f v = Inr x" and "1 \<le> d" and "d \<le> g u"
  shows "1 \<le> or_else x d \<and> or_else x d \<le> g u"
  using assms by (auto simp: usable_def split: option.splits js_number.splits if_splits)

lemma usable_fits:
  assumes "usable u g f v = Inr x" and "fits m l (g u)"
  shows "fits (trimTo m (or_else x l)) (or_else x l) (g u)"
  using assms usable_range [OF assms(1)] by (intro fits_trimTo [OF assms(2)]) (auto simp: fits_def)

lemma setLimits_ok:
  assumes "cache_ok c" and "setLimits nl pl ml c = Inr c'"
  shows "cache_ok c'"
  using assms by (auto simp: setLimits_def applyLimits_def cache_ok_def Let_def errs intro: usable_fits)

inductive cache_step :: "ResolutionCache \<Rightarrow> ResolutionCache \<Rightarrow> bool" where
  "setLimits nl pl ml c = Inr c' \<Longrightarrow> cache_step c c'"
| "cache_step c (snd (clear c))"
| "cache_step c (snd (forget key c))"
| "cache_step c (setGeneration g c)"
| "cache_step c (snd (negative key now c))"
| "cache_step c (snd (putNegative key e now c))"
| "cache_step c (snd (positive key now c))"
| "cache_step c (rememberManifest cid m c)"
| "cache_step c (snd (putPositive key r now c))"

abbreviation cache_steps :: "ResolutionCache \<Rightarrow> ResolutionCache \<Rightarrow> bool" where
  "cache_steps \<equiv> cache_step\<^sup>*\<^sup>*"

lemma newCache_ok: "cache_ok (newCache None None None t)"
  by (simp add: cache_ok_def newCache_def fits_def CACHE_LIMITS_def CACHE_CEILINGS_def
      CACHE_ENTRY_ALLOWANCE_def)

lemma cache_step_ok: "cache_step c c' \<Longrightarrow> cache_ok c \<Longrightarrow> cache_ok c'"
proof (induction rule: cache_step.induct)
  case 1
  then show ?case by (blast intro: setLimits_ok)
qed (auto simp: cache_ok_def cache_ops split: option.splits)

lemma cache_steps_ok: "cache_steps c c' \<Longrightarrow> cache_ok c \<Longrightarrow> cache_ok c'"
  by (induction rule: rtranclp_induct) (auto intro: cache_step_ok)

subsection \<open>What a cached answer means\<close>

text \<open>
  The resolver answers from the cache instead of asking the registry, so the cache is an interface
  between two askings. \<open>answers_sound refusal live now c\<close> says what its entries promise: a negative
  entry was the registry's answer at a moment at most its lifetime ago, a positive entry is live
  from now until it expires. The law a registry has to satisfy is that a live record stays live
  until its term ends.
\<close>

definition negative_sound :: "(jsstr \<Rightarrow> int \<Rightarrow> ResolveErrorName \<Rightarrow> bool) \<Rightarrow> (ResolveErrorName \<Rightarrow> int option) \<Rightarrow>
    int \<Rightarrow> jsstr \<Rightarrow> NegativeEntry \<Rightarrow> bool" where
  "negative_sound refusal ttl now key entry \<longleftrightarrow>
     (\<exists>asked l. ttl (n_error entry) = Some l \<and> asked \<le> now \<and> n_expires entry = asked + l \<and>
        refusal key asked (n_error entry))"

definition positive_sound :: "(jsstr \<Rightarrow> RegistryRecord \<Rightarrow> int \<Rightarrow> bool) \<Rightarrow> int \<Rightarrow> jsstr \<Rightarrow> PositiveEntry \<Rightarrow> bool" where
  "positive_sound live now key entry \<longleftrightarrow>
     (\<forall>u. now \<le> u \<and> u < q_expires entry \<longrightarrow> live key (q_record entry) u)"

definition answers_sound :: "(jsstr \<Rightarrow> int \<Rightarrow> ResolveErrorName \<Rightarrow> bool) \<Rightarrow>
    (jsstr \<Rightarrow> RegistryRecord \<Rightarrow> int \<Rightarrow> bool) \<Rightarrow> int \<Rightarrow> ResolutionCache \<Rightarrow> bool" where
  "answers_sound refusal live now c \<longleftrightarrow>
     (\<forall>(key, entry) \<in> set (negatives c). negative_sound refusal (ttls c) now key entry) \<and>
     (\<forall>(key, entry) \<in> set (positives c). positive_sound live now key entry)"

lemma negative_sound_later:
  "negative_sound refusal ttl now key entry \<Longrightarrow> now \<le> now' \<Longrightarrow> negative_sound refusal ttl now' key entry"
  unfolding negative_sound_def by (meson order_trans)

lemma positive_sound_later:
  "positive_sound live now key entry \<Longrightarrow> now \<le> now' \<Longrightarrow> positive_sound live now' key entry"
  by (simp add: positive_sound_def)

lemma answers_sound_later:
  assumes "answers_sound refusal live now c" and "now \<le> now'"
  shows "answers_sound refusal live now' c"
  using assms by (fastforce simp: answers_sound_def elim: negative_sound_later positive_sound_later)

text \<open>An operation that only drops entries, counts or resizes keeps the promises.\<close>

lemma answers_sound_fewer:
  assumes "answers_sound refusal live now c" and "ttls c' = ttls c"
    and "set (negatives c') \<subseteq> set (negatives c)" and "set (positives c') \<subseteq> set (positives c)"
  shows "answers_sound refusal live now c'"
  using assms unfolding answers_sound_def by auto

lemmas fewer_entries = subsetD [OF set_map_delete] subsetD [OF set_trimTo] subsetD [OF set_evictFor]

lemma answers_sound_ops:
  assumes "answers_sound refusal live now c"
  shows "setLimits nl pl ml c = Inr c' \<Longrightarrow> answers_sound refusal live now c'"
    "answers_sound refusal live now (snd (clear c))"
    "answers_sound refusal live now (snd (forget key c))"
    "answers_sound refusal live now (rememberManifest cid m c)"
  by (rule answers_sound_fewer [OF assms];
      force simp: cache_ops errs split: option.splits dest: fewer_entries)+

lemma lookups_sound:
  assumes "answers_sound refusal live now c"
  shows "answers_sound refusal live now (snd (negative key t c))"
    "answers_sound refusal live now (snd (positive key t c))"
  by (rule answers_sound_fewer [OF assms];
      auto simp: negative_def positive_def split: option.splits dest: fewer_entries)+

lemma setGeneration_sound:
  assumes "generation c = Some g \<Longrightarrow> answers_sound refusal live now c"
  shows "answers_sound refusal live now (setGeneration g c)"
  using assms by (auto simp: setGeneration_def answers_sound_def)

lemma negative_hit:
  assumes "answers_sound refusal live now c" and "negative key now c = (Some e, c')"
  shows "\<exists>asked l. ttls c e = Some l \<and> asked \<le> now \<and> now < asked + l \<and> refusal key asked e"
proof -
  obtain entry where "map_get (negatives c) key = Some entry" "now < n_expires entry" "e = n_error entry"
    using assms(2) by (auto simp: negative_def split: option.splits if_splits)
  moreover from this have "negative_sound refusal (ttls c) now key entry"
    using assms(1) by (auto simp: answers_sound_def dest: map_of_SomeD)
  ultimately show ?thesis by (auto simp: negative_sound_def)
qed

lemma positive_hit:
  assumes "answers_sound refusal live now c" and "positive key now c = (Some r, c')"
  shows "live key r now"
proof -
  obtain entry where "map_get (positives c) key = Some entry" "now < q_expires entry" "r = q_record entry"
    using assms(2) by (auto simp: positive_def split: option.splits if_splits)
  moreover from this have "positive_sound live now key entry"
    using assms(1) by (auto simp: answers_sound_def dest: map_of_SomeD)
  ultimately show ?thesis by (simp add: positive_sound_def)
qed

lemma putNegative_sound:
  assumes "answers_sound refusal live now c" and "refusal key now e"
  shows "answers_sound refusal live now (snd (putNegative key e now c))"
proof (cases "ttls c e")
  case (Some l)
  have "negative_sound refusal (ttls c) now key \<lparr>n_error = e, n_expires = now + l\<rparr>"
    using Some assms(2) by (auto simp: negative_sound_def)
  then show ?thesis
    using assms(1) Some
    by (auto simp: putNegative_def answers_sound_def dest!: subsetD [OF set_map_set] subsetD [OF set_evictFor])
qed (simp add: putNegative_def assms(1))

locale lasting_answers =
  fixes refusal :: "jsstr \<Rightarrow> int \<Rightarrow> ResolveErrorName \<Rightarrow> bool"
    and live :: "jsstr \<Rightarrow> RegistryRecord \<Rightarrow> int \<Rightarrow> bool"
  assumes stays_live: "live key r now \<Longrightarrow> now \<le> u \<Longrightarrow> u < r_notAfter r \<Longrightarrow> live key r u"
begin

lemma putPositive_sound:
  assumes "answers_sound refusal live now c" and "live key r now"
  shows "answers_sound refusal live now (snd (putPositive key r now c))"
proof -
  have "positive_sound live now key \<lparr>q_record = r, q_expires = min (now + POSITIVE_TTL_SECONDS) (r_notAfter r)\<rparr>"
    using stays_live [OF assms(2)] by (simp add: positive_sound_def)
  then show ?thesis
    using assms(1)
    by (auto simp: putPositive_def Let_def answers_sound_def
        dest!: subsetD [OF set_map_set] subsetD [OF set_evictFor])
qed

end

subsection \<open>Properties\<close>

text \<open>
  The cache stays within its bounds. After any operations, in any order, starting from a new cache
  with the default bounds, each map holds at most as many entries as its current bound, one for a
  key, and every bound is between one and its ceiling, whatever was asked of \<open>setLimits\<close>; and a
  resize that is accepted keeps the newest entries in their order.
\<close>

theorem cache_bounded:
  assumes "cache_steps (newCache None None None t) c"
  shows "int (length (negatives c)) \<le> negativeLimit c \<and> 1 \<le> negativeLimit c \<and> negativeLimit c \<le> 131072 \<and>
    int (length (positives c)) \<le> positiveLimit c \<and> 1 \<le> positiveLimit c \<and> positiveLimit c \<le> 4096 \<and>
    int (length (manifests c)) \<le> manifestLimit c \<and> 1 \<le> manifestLimit c \<and> manifestLimit c \<le> 2048 \<and>
    distinct (map fst (negatives c)) \<and> distinct (map fst (positives c)) \<and> distinct (map fst (manifests c)) \<and>
    (\<forall>nl pl ml c'. setLimits nl pl ml c = Inr c' \<longrightarrow>
       (\<exists>i j k. negatives c' = drop i (negatives c) \<and> positives c' = drop j (positives c) \<and>
          manifests c' = drop k (manifests c)))"
proof -
  have ok: "cache_ok c" using cache_steps_ok [OF assms newCache_ok] .
  have "\<exists>i j k. negatives c' = drop i (negatives c) \<and> positives c' = drop j (positives c) \<and>
      manifests c' = drop k (manifests c)" if "setLimits nl pl ml c = Inr c'" for nl pl ml c'
    using that by (auto simp: setLimits_def applyLimits_def Let_def errs trimTo_drop)
  with ok show ?thesis
    by (simp add: cache_ok_def fits_def CACHE_CEILINGS_def CACHE_ENTRY_ALLOWANCE_def)
qed

theorem cache_bounded_witness:
  "length (negatives (snd (putNegative [1] NAME_NOT_FOUND 0 (newCache None None None NEGATIVE_TTL_SECONDS)))) = 1 \<and>
   int (length (negatives (snd (putNegative [1] NAME_NOT_FOUND 0
     (newCache None None None NEGATIVE_TTL_SECONDS))))) \<le> 131072"
proof -
  let ?c = "snd (putNegative [1] NAME_NOT_FOUND 0 (newCache None None None NEGATIVE_TTL_SECONDS))"
  have "cache_steps (newCache None None None NEGATIVE_TTL_SECONDS) ?c"
    by (rule r_into_rtranclp) (rule cache_step.intros(6))
  from cache_bounded [OF this] show ?thesis
    by (simp add: putNegative_def newCache_def NEGATIVE_TTL_SECONDS_def evictFor_def)
qed

end
