(* ===== verification/Resolve.thy ===== *)
theory Resolve
  imports Cache
begin

section \<open>The resolution algorithm\<close>

text \<open>
  registry/src/resolve.ts: from a host to the content entry to fetch, through the caches, the
  registry, the validity window, the choice of a source and the aliases. \<open>ResolverPorts\<close> is a
  record of the two questions the algorithm asks of the registry; the cache is an optional argument
  and is returned as the algorithm leaves it. The messages of a refusal (\<open>detail\<close>) are left out.
\<close>

subsection \<open>Hosts\<close>

definition ALIAS_BUDGET :: nat where "ALIAS_BUDGET = 3"

definition SOURCE_ORDER :: "jsstr list" where
  "SOURCE_ORDER = [js ''ipns'', js ''cid'', js ''alias'']"

definition COLON :: "16 word" where "COLON = 0x3A"

text \<open>\<open>host.replace(/:\d+$/, '')\<close>.\<close>

definition strip_port :: "jsstr \<Rightarrow> jsstr" where
  "strip_port host =
     (let digits = takeWhile is_digit (rev host); rest = drop (length digits) (rev host) in
      case rest of
        [] \<Rightarrow> host
      | c # before \<Rightarrow> if digits \<noteq> [] \<and> c = COLON then rev before else host)"

definition parseHost :: "jsstr \<Rightarrow> (jsstr \<times> jsstr) option" where
  "parseHost host =
     (let bare = toLowerCase (strip_port host) in
      case split_on DOT bare of
        [label, tld] \<Rightarrow> if length label = 0 \<or> length tld = 0 then None else Some (label, tld)
      | _ \<Rightarrow> None)"

subsection \<open>Outcomes\<close>

datatype resolved_from = FromCache | FromRegistry

record Diagnostics =
  d_name :: jsstr
  d_seq :: "int option"
  d_source :: "jsstr option"
  d_resolvedFrom :: "resolved_from option"
  d_fallbacks :: "jsstr list"
  d_aliasHops :: nat

datatype Outcome =
  Resolved RecordEntry RegistryRecord Diagnostics
| Unresolved ResolveErrorName Diagnostics

record ResolverPorts =
  lookup :: "jsstr \<Rightarrow> jsstr \<Rightarrow> RegistryRecord option"
  hasVerifiedHead :: bool

definition emptyDiagnostics :: "jsstr \<Rightarrow> Diagnostics" where
  "emptyDiagnostics name =
     \<lparr>d_name = name, d_seq = None, d_source = None, d_resolvedFrom = None, d_fallbacks = [],
      d_aliasHops = 0\<rparr>"

subsection \<open>The choice of a source\<close>

fun candidates_loop :: "RecordEntry list \<Rightarrow> RecordEntry list \<Rightarrow> jsstr list \<Rightarrow> RecordEntry list" where
  "candidates_loop entries candidates [] = candidates"
| "candidates_loop entries candidates (type # types) =
     (case find (\<lambda>e. e_known e \<and> e_type e = type) entries of
        None \<Rightarrow> candidates_loop entries candidates types
      | Some match \<Rightarrow>
          if type \<notin> set [js ''ipns'', js ''cid'']
          then if candidates = [] then [match] else candidates_loop entries candidates types
          else candidates_loop entries (candidates @ [match]) types)"

definition sourceCandidates :: "RegistryRecord \<Rightarrow> RecordEntry list" where
  "sourceCandidates r = candidates_loop (r_entries r) [] SOURCE_ORDER"

definition selectSource :: "RegistryRecord \<Rightarrow> RecordEntry option" where
  "selectSource r = (case sourceCandidates r of [] \<Rightarrow> None | e # _ \<Rightarrow> Some e)"

subsection \<open>The algorithm\<close>

text \<open>The cache is optional: \<open>cache?.positive(key, now) ?? null\<close> and its companions.\<close>

definition cached_positive :: "jsstr \<Rightarrow> int \<Rightarrow> ResolutionCache option \<Rightarrow>
    RegistryRecord option \<times> ResolutionCache option" where
  "cached_positive key now cache =
     (case cache of None \<Rightarrow> (None, None) | Some c \<Rightarrow> map_prod id Some (positive key now c))"

definition cached_negative :: "jsstr \<Rightarrow> int \<Rightarrow> ResolutionCache option \<Rightarrow>
    ResolveErrorName option \<times> ResolutionCache option" where
  "cached_negative key now cache =
     (case cache of None \<Rightarrow> (None, None) | Some c \<Rightarrow> map_prod id Some (negative key now c))"

definition store_negative :: "jsstr \<Rightarrow> ResolveErrorName \<Rightarrow> int \<Rightarrow> ResolutionCache option \<Rightarrow>
    ResolutionCache option" where
  "store_negative key e now cache = map_option (\<lambda>c. snd (putNegative key e now c)) cache"

definition store_positive :: "jsstr \<Rightarrow> RegistryRecord \<Rightarrow> int \<Rightarrow> ResolutionCache option \<Rightarrow>
    ResolutionCache option" where
  "store_positive key r now cache = map_option (\<lambda>c. snd (putPositive key r now c)) cache"

text \<open>Step 8, the validity window: the refusal a record gives at a moment, if any.\<close>

definition validity :: "RegistryRecord \<Rightarrow> int \<Rightarrow> ResolveErrorName option" where
  "validity r now =
     (let state = stateAt r now in
      if revoked (lifecycleOf r) \<and> state \<noteq> FREE then Some NAME_REVOKED
      else if state = GRACE then Some NAME_EXPIRED
      else if state = QUARANTINE then Some NAME_QUARANTINED
      else if state \<noteq> LIVE then Some NAME_NOT_FOUND
      else None)"

text \<open>
  Steps 7 and 8: ask the registry, refuse or take its record, and store the answer. Steps 5 to 8:
  the caches first.
\<close>

definition ask_registry :: "ResolverPorts \<Rightarrow> int \<Rightarrow> jsstr \<Rightarrow> jsstr \<Rightarrow> jsstr \<Rightarrow> Diagnostics \<Rightarrow>
    ResolutionCache option \<Rightarrow> (Outcome + RegistryRecord \<times> Diagnostics) \<times> ResolutionCache option" where
  "ask_registry ports now key label tld diagnostics cache =
     (if \<not> hasVerifiedHead ports then (Inl (Unresolved REGISTRY_UNAVAILABLE diagnostics), cache)
      else
        let diagnostics = diagnostics\<lparr>d_resolvedFrom := Some FromRegistry\<rparr> in
        case lookup ports label tld of
          None \<Rightarrow> (Inl (Unresolved NAME_NOT_FOUND diagnostics), store_negative key NAME_NOT_FOUND now cache)
        | Some r \<Rightarrow>
            let diagnostics = diagnostics\<lparr>d_seq := Some (r_seq r)\<rparr> in
            (case validity r now of
               Some e \<Rightarrow> (Inl (Unresolved e diagnostics), store_negative key e now cache)
             | None \<Rightarrow> (Inr (r, diagnostics), store_positive key r now cache)))"

definition find_record :: "ResolverPorts \<Rightarrow> int \<Rightarrow> jsstr \<Rightarrow> jsstr \<Rightarrow> jsstr \<Rightarrow> Diagnostics \<Rightarrow>
    ResolutionCache option \<Rightarrow> (Outcome + RegistryRecord \<times> Diagnostics) \<times> ResolutionCache option" where
  "find_record ports now key label tld diagnostics cache =
     (case cached_positive key now cache of
        (Some r, cache) \<Rightarrow>
          (Inr (r, diagnostics\<lparr>d_seq := Some (r_seq r), d_resolvedFrom := Some FromCache\<rparr>), cache)
      | (None, cache) \<Rightarrow>
          (case cached_negative key now cache of
             (Some e, cache) \<Rightarrow>
               (Inl (Unresolved e (diagnostics\<lparr>d_resolvedFrom := Some FromCache\<rparr>)), cache)
           | (None, cache) \<Rightarrow> ask_registry ports now key label tld diagnostics cache))"

definition name_text :: "jsstr \<Rightarrow> jsstr \<Rightarrow> jsstr" where
  "name_text label tld = label @ DOT # tld"

text \<open>The loop over the hops; \<open>current\<close> is the host of this hop, \<open>seen\<close> the names before it.\<close>

function hops :: "ResolverPorts \<Rightarrow> int \<Rightarrow> nat \<Rightarrow> jsstr set \<Rightarrow> jsstr \<Rightarrow> Diagnostics \<Rightarrow>
    ResolutionCache option \<Rightarrow> Outcome \<times> ResolutionCache option" where
  "hops ports now hop seen current diagnostics cache =
     (if \<not> hop \<le> ALIAS_BUDGET then (Unresolved ALIAS_LOOP diagnostics, cache)
      else
        let diagnostics = diagnostics\<lparr>d_aliasHops := hop\<rparr> in
        case parseHost current of
          None \<Rightarrow> (Unresolved LABEL_INVALID diagnostics, cache)
        | Some (label, tld) \<Rightarrow>
            if \<not> isRatifiedTld tld then (Unresolved TLD_UNKNOWN diagnostics, cache)
            else if labelRejection label \<noteq> None then (Unresolved LABEL_INVALID diagnostics, cache)
            else
              let key = name_text label tld in
              if key \<in> seen then (Unresolved ALIAS_LOOP diagnostics, cache)
              else
                (case find_record ports now key label tld diagnostics cache of
                   (Inl refused, cache) \<Rightarrow> (refused, cache)
                 | (Inr (r, diagnostics), cache) \<Rightarrow>
                     (case selectSource r of
                        None \<Rightarrow> (Unresolved NO_USABLE_RECORD diagnostics, cache)
                      | Some entry \<Rightarrow>
                          if e_type entry = js ''alias'' then
                            (case entry_alias entry of
                               None \<Rightarrow> (Unresolved NO_USABLE_RECORD diagnostics, cache)
                             | Some (target_label, target_tld) \<Rightarrow>
                                 hops ports now (hop + 1) (insert key seen)
                                   (name_text target_label target_tld)
                                   (diagnostics\<lparr>d_source := Some (js ''alias'')\<rparr>) cache)
                          else
                            (Resolved entry r (diagnostics\<lparr>d_source := Some (e_type entry)\<rparr>), cache))))"
  by pat_completeness auto

termination
  by (relation "measure (\<lambda>(ports, now, hop, seen, current, diagnostics, cache). ALIAS_BUDGET + 1 - hop)") auto

declare hops.simps [simp del]

definition resolveName :: "jsstr \<Rightarrow> ResolverPorts \<Rightarrow> int \<Rightarrow> ResolutionCache option \<Rightarrow>
    Outcome \<times> ResolutionCache option" where
  "resolveName host ports now cache = hops ports now 0 {} host (emptyDiagnostics host) cache"

subsection \<open>The reference resolution\<close>

text \<open>
  What the algorithm promises, with the cache and the diagnostics left out: \<open>registry_says\<close> is the
  registry's answer about a name at a moment, and \<open>walk\<close> follows the aliases, each name judged at
  the moment \<open>clock\<close> gives it.
\<close>

definition registry_says :: "ResolverPorts \<Rightarrow> jsstr \<Rightarrow> jsstr \<Rightarrow> int \<Rightarrow> ResolveErrorName + RegistryRecord" where
  "registry_says ports label tld now =
     (if \<not> hasVerifiedHead ports then Inl REGISTRY_UNAVAILABLE
      else case lookup ports label tld of
        None \<Rightarrow> Inl NAME_NOT_FOUND
      | Some r \<Rightarrow> (case validity r now of Some e \<Rightarrow> Inl e | None \<Rightarrow> Inr r))"

primrec walk :: "ResolverPorts \<Rightarrow> (jsstr \<Rightarrow> int) \<Rightarrow> nat \<Rightarrow> jsstr set \<Rightarrow> jsstr \<Rightarrow>
    ResolveErrorName + RecordEntry \<times> RegistryRecord" where
  "walk ports clock 0 seen current = Inl ALIAS_LOOP"
| "walk ports clock (Suc n) seen current =
     (case parseHost current of
        None \<Rightarrow> Inl LABEL_INVALID
      | Some (label, tld) \<Rightarrow>
          if \<not> isRatifiedTld tld then Inl TLD_UNKNOWN
          else if labelRejection label \<noteq> None then Inl LABEL_INVALID
          else if name_text label tld \<in> seen then Inl ALIAS_LOOP
          else
            bindE (registry_says ports label tld (clock (name_text label tld))) (\<lambda>r.
            case selectSource r of
              None \<Rightarrow> Inl NO_USABLE_RECORD
            | Some entry \<Rightarrow>
                if e_type entry = js ''alias'' then
                  (case entry_alias entry of
                     None \<Rightarrow> Inl NO_USABLE_RECORD
                   | Some (target_label, target_tld) \<Rightarrow>
                       walk ports clock n (insert (name_text label tld) seen)
                         (name_text target_label target_tld))
                else Inr (entry, r)))"

definition verdict :: "Outcome \<Rightarrow> ResolveErrorName + RecordEntry \<times> RegistryRecord" where
  "verdict outcome = (case outcome of Resolved entry r _ \<Rightarrow> Inr (entry, r) | Unresolved e _ \<Rightarrow> Inl e)"

lemma verdict_simps [simp]:
  "verdict (Resolved entry r d) = Inr (entry, r)" "verdict (Unresolved e d) = Inl e"
  by (simp_all add: verdict_def)

text \<open>The name a cache key is, when it is one: content keys hold a colon and are no names.\<close>

definition name_of :: "jsstr \<Rightarrow> (jsstr \<times> jsstr) option" where
  "name_of key =
     (case split_on DOT key of
        [label, tld] \<Rightarrow>
          if isRatifiedTld tld \<and> labelRejection label = None then Some (label, tld) else None
      | _ \<Rightarrow> None)"

definition refused_at :: "ResolverPorts \<Rightarrow> jsstr \<Rightarrow> int \<Rightarrow> ResolveErrorName \<Rightarrow> bool" where
  "refused_at ports key now e \<longleftrightarrow>
     (\<forall>label tld. name_of key = Some (label, tld) \<longrightarrow> registry_says ports label tld now = Inl e)"

definition live_at :: "ResolverPorts \<Rightarrow> jsstr \<Rightarrow> RegistryRecord \<Rightarrow> int \<Rightarrow> bool" where
  "live_at ports key r now \<longleftrightarrow>
     (\<exists>label tld. name_of key = Some (label, tld) \<and> registry_says ports label tld now = Inr r)"

lemma ratified_dot_free: "isRatifiedTld tld \<Longrightarrow> DOT \<notin> set tld"
  using ratified_well_shaped [of tld]
  by (auto simp: isWellShapedTld_def list_all_iff is_lower_def is_digit_def DOT_def split: list.splits)

lemma name_of_text:
  assumes "isRatifiedTld tld" and "labelRejection label = None"
  shows "name_of (name_text label tld) = Some (label, tld)"
  using assms label_dot_free [OF assms(2)] ratified_dot_free [OF assms(1)]
  by (simp add: name_of_def name_text_def split_on_sep split_on_none)

lemma validity_live:
  "validity r now = None \<longleftrightarrow> stateAt r now = LIVE \<and> r_op r \<noteq> REVOKE"
  by (auto simp: validity_def Let_def stateAt_def lifecycleOf_def split: if_splits)

lemma live_stays:
  assumes "validity r now = None" and "now \<le> u" and "u < r_notAfter r"
  shows "validity r u = None"
  using assms by (auto simp: validity_live stateAt_def Let_def lifecycleOf_def split: if_splits)

lemma registry_says_Inr:
  "registry_says ports label tld now = Inr r \<longleftrightarrow>
     hasVerifiedHead ports \<and> lookup ports label tld = Some r \<and> validity r now = None"
  by (auto simp: registry_says_def split: option.splits)

interpretation port: lasting_answers "refused_at ports" "live_at ports" for ports
  by unfold_locales (auto simp: live_at_def registry_says_Inr intro: live_stays)

subsection \<open>The cache stands in for the registry\<close>

text \<open>\<open>cache_kept\<close>: what the algorithm leaves of a cache it was given.\<close>

definition cache_kept :: "ResolverPorts \<Rightarrow> int \<Rightarrow> ResolutionCache \<Rightarrow> ResolutionCache \<Rightarrow> bool" where
  "cache_kept ports now c c' \<longleftrightarrow>
     ttls c' = ttls c \<and> generation c' = generation c \<and> cache_steps c c' \<and>
     (answers_sound (refused_at ports) (live_at ports) now c \<longrightarrow>
      answers_sound (refused_at ports) (live_at ports) now c')"

lemma cache_kept_refl [intro]: "cache_kept ports now c c"
  by (simp add: cache_kept_def)

lemma cache_kept_trans [trans]:
  "cache_kept ports now c c' \<Longrightarrow> cache_kept ports now c' c'' \<Longrightarrow> cache_kept ports now c c''"
  unfolding cache_kept_def by auto

lemma cache_keptI:
  assumes "cache_step c c'" and "ttls c' = ttls c" and "generation c' = generation c"
    and "answers_sound (refused_at ports) (live_at ports) now c \<Longrightarrow>
      answers_sound (refused_at ports) (live_at ports) now c'"
  shows "cache_kept ports now c c'"
  using assms by (simp add: cache_kept_def)

lemma cache_kept_negative: "cache_kept ports now c (snd (negative key now c))"
  by (rule cache_keptI [OF cache_step.intros(5) _ _ lookups_sound(1)])
    (simp_all add: negative_def split: option.split)

lemma cache_kept_positive: "cache_kept ports now c (snd (positive key now c))"
  by (rule cache_keptI [OF cache_step.intros(7) _ _ lookups_sound(2)])
    (simp_all add: positive_def split: option.split)

lemma cache_kept_putNegative:
  assumes "refused_at ports key now e"
  shows "cache_kept ports now c (snd (putNegative key e now c))"
  by (rule cache_keptI [OF cache_step.intros(6) _ _ putNegative_sound [where refusal = "refused_at ports", OF _ assms]])
    (simp_all add: putNegative_def split: option.split)

lemma cache_kept_putPositive:
  assumes "live_at ports key r now"
  shows "cache_kept ports now c (snd (putPositive key r now c))"
  by (rule cache_keptI [OF cache_step.intros(9) _ _ port.putPositive_sound [where key = key and r = r, OF _ assms]])
    (simp_all add: putPositive_def Let_def)

lemma cache_kept_ops:
  "setLimits nl pl ml c = Inr c' \<Longrightarrow> cache_kept ports now c c'"
  "cache_kept ports now c (snd (clear c))"
  "cache_kept ports now c (snd (forget key c))"
  "cache_kept ports now c (rememberManifest cid m c)"
proof -
  show "cache_kept ports now c c'" if "setLimits nl pl ml c = Inr c'"
    using that answers_sound_ops(1) [OF _ that]
    by (intro cache_keptI cache_step.intros(1) [OF that])
      (auto simp: setLimits_def applyLimits_def Let_def errs)
  show "cache_kept ports now c (snd (clear c))"
    by (rule cache_keptI [OF cache_step.intros(2) _ _ answers_sound_ops(2)]) (simp_all add: clear_def)
  show "cache_kept ports now c (snd (forget key c))"
    by (rule cache_keptI [OF cache_step.intros(3) _ _ answers_sound_ops(3)]) (simp_all add: forget_def)
  show "cache_kept ports now c (rememberManifest cid m c)"
    by (rule cache_keptI [OF cache_step.intros(8) _ _ answers_sound_ops(4)])
      (simp_all add: rememberManifest_def)
qed

text \<open>
  Finding a record: either the registry's answer of now, or a refusal it gave within the lifetime
  the policy has for that refusal.
\<close>

definition answered :: "ResolverPorts \<Rightarrow> int \<Rightarrow> (ResolveErrorName \<Rightarrow> int option) \<Rightarrow> jsstr \<Rightarrow> jsstr \<Rightarrow>
    Outcome + RegistryRecord \<times> Diagnostics \<Rightarrow> bool" where
  "answered ports now ttl label tld res \<longleftrightarrow>
     (case res of
        Inr (r, d) \<Rightarrow> registry_says ports label tld now = Inr r
      | Inl (Unresolved e d) \<Rightarrow>
          registry_says ports label tld now = Inl e \<or>
          (\<exists>asked l. ttl e = Some l \<and> asked \<le> now \<and> now < asked + l \<and>
             registry_says ports label tld asked = Inl e)
      | Inl (Resolved entry r d) \<Rightarrow> False)"

lemma ask_registry_answered:
  assumes "isRatifiedTld tld" and "labelRejection label = None"
    and "ask_registry ports now (name_text label tld) label tld d (Some c) = (res, cache')"
  shows "answered ports now (ttls c) label tld res \<and> (\<exists>c'. cache' = Some c' \<and> cache_kept ports now c c')"
  using assms
  by (auto simp: ask_registry_def answered_def registry_says_def store_negative_def store_positive_def
      refused_at_def live_at_def name_of_text Let_def split: if_splits option.splits
      intro!: cache_kept_putNegative cache_kept_putPositive)

lemma find_record_answered:
  assumes "isRatifiedTld tld" and "labelRejection label = None"
    and "answers_sound (refused_at ports) (live_at ports) now c"
    and "find_record ports now (name_text label tld) label tld d (Some c) = (res, cache')"
  shows "answered ports now (ttls c) label tld res"
proof -
  let ?key = "name_text label tld"
  obtain p c1 where p: "positive ?key now c = (p, c1)" by (cases "positive ?key now c")
  with cache_kept_positive [of ports now c ?key] have k1: "cache_kept ports now c c1" by simp
  show ?thesis
  proof (cases p)
    case (Some r)
    then have "live_at ports ?key r now" using positive_hit [OF assms(3)] p by simp
    then show ?thesis
      using assms(4) p Some k1 name_of_text [OF assms(1,2)]
      by (auto simp: find_record_def cached_positive_def answered_def live_at_def)
  next
    case None
    have sound1: "answers_sound (refused_at ports) (live_at ports) now c1" and ttls1: "ttls c1 = ttls c"
      using k1 assms(3) by (simp_all add: cache_kept_def)
    obtain n c2 where n: "negative ?key now c1 = (n, c2)" by (cases "negative ?key now c1")
    with cache_kept_negative [of ports now c1 ?key] k1 have k2: "cache_kept ports now c c2"
      by (auto intro: cache_kept_trans)
    show ?thesis
    proof (cases n)
      case (Some e)
      then show ?thesis
        using negative_hit [OF sound1, of ?key e c2] n assms(4) p \<open>p = None\<close> k2 ttls1
          name_of_text [OF assms(1,2)]
        by (auto simp: find_record_def cached_positive_def cached_negative_def answered_def refused_at_def)
    next
      case None
      then have "ask_registry ports now ?key label tld d (Some c2) = (res, cache')"
        using assms(4) p n \<open>p = None\<close>
        by (simp add: find_record_def cached_positive_def cached_negative_def)
      from ask_registry_answered [OF assms(1,2) this] k2 show ?thesis
        by (auto simp: cache_kept_def intro: cache_kept_trans)
    qed
  qed
qed

lemma find_record_kept:
  assumes "isRatifiedTld tld" and "labelRejection label = None"
  shows "\<exists>c'. snd (find_record ports now (name_text label tld) label tld d (Some c)) = Some c' \<and>
    cache_kept ports now c c'"
proof -
  let ?key = "name_text label tld"
  obtain p c1 where p: "positive ?key now c = (p, c1)" by (cases "positive ?key now c")
  obtain n c2 where n: "negative ?key now c1 = (n, c2)" by (cases "negative ?key now c1")
  obtain res c3 where a: "ask_registry ports now ?key label tld d (Some c2) = (res, c3)"
    by (cases "ask_registry ports now ?key label tld d (Some c2)")
  have "cache_kept ports now c c1" "cache_kept ports now c1 c2"
    using cache_kept_positive [of ports now c ?key] cache_kept_negative [of ports now c1 ?key] p n by simp_all
  then show ?thesis
    using ask_registry_answered [OF assms a] p n a
    by (auto simp: find_record_def cached_positive_def cached_negative_def intro: cache_kept_trans
        split: option.split)
qed

subsection \<open>The loop\<close>

text \<open>
  \<open>judged\<close>: an answer is the registry's of now, or a refusal of one name at an earlier moment whose
  lifetime has not passed, everything before it judged now.
\<close>

definition judged :: "ResolverPorts \<Rightarrow> int \<Rightarrow> (ResolveErrorName \<Rightarrow> int option) \<Rightarrow> nat \<Rightarrow> jsstr set \<Rightarrow> jsstr \<Rightarrow>
    ResolveErrorName + RecordEntry \<times> RegistryRecord \<Rightarrow> bool" where
  "judged ports now ttl n seen host answer \<longleftrightarrow>
     answer = walk ports (\<lambda>_. now) n seen host \<or>
     (\<exists>key asked e l. key \<notin> seen \<and> answer = Inl e \<and> ttl e = Some l \<and> asked \<le> now \<and> now < asked + l \<and>
        answer = walk ports ((\<lambda>_. now)(key := asked)) n seen host)"

lemma judged_now: "judged ports now ttl n seen host (walk ports (\<lambda>_. now) n seen host)"
  by (simp add: judged_def)

lemma judged_refusal:
  assumes "parseHost host = Some (label, tld)" and "isRatifiedTld tld" and "labelRejection label = None"
    and "name_text label tld \<notin> seen" and "answered ports now ttl label tld (Inl out)"
  shows "judged ports now ttl (Suc n) seen host (verdict out)"
proof (cases out)
  case (Unresolved e d)
  then consider "registry_says ports label tld now = Inl e"
    | asked l where "ttl e = Some l" "asked \<le> now" "now < asked + l"
        "registry_says ports label tld asked = Inl e"
    using assms(5) by (auto simp: answered_def)
  then show ?thesis
  proof cases
    case 1
    then show ?thesis using assms(1-4) Unresolved by (simp add: judged_def)
  next
    case 2
    then have "Inl e = walk ports ((\<lambda>_. now)(name_text label tld := asked)) (Suc n) seen host"
      using assms(1-4) by simp
    then show ?thesis
      using 2 assms(4) Unresolved unfolding judged_def by (metis verdict_simps(2))
  qed
qed (use assms(5) in \<open>simp add: answered_def\<close>)

lemma judged_hop:
  assumes "parseHost host = Some (label, tld)" and "isRatifiedTld tld" and "labelRejection label = None"
    and "name_text label tld \<notin> seen" and "registry_says ports label tld now = Inr r"
    and "selectSource r = Some entry" and "e_type entry = js ''alias''"
    and "entry_alias entry = Some (target_label, target_tld)"
    and "judged ports now ttl n (insert (name_text label tld) seen) (name_text target_label target_tld) answer"
  shows "judged ports now ttl (Suc n) seen host answer"
proof -
  have step: "walk ports clock (Suc n) seen host =
      walk ports clock n (insert (name_text label tld) seen) (name_text target_label target_tld)"
    if "clock (name_text label tld) = now" for clock
    using that assms(1-8) by simp
  from assms(9) [unfolded judged_def] show ?thesis
  proof (elim disjE exE conjE)
    fix key asked e l
    assume k: "key \<notin> insert (name_text label tld) seen" and a: "answer = Inl e" "ttl e = Some l" "asked \<le> now"
      "now < asked + l" and w: "answer = walk ports ((\<lambda>_. now)(key := asked)) n
        (insert (name_text label tld) seen) (name_text target_label target_tld)"
    have "answer = walk ports ((\<lambda>_. now)(key := asked)) (Suc n) seen host"
      unfolding w by (rule step [symmetric]) (use k in auto)
    with k a show ?thesis unfolding judged_def by blast
  qed (simp add: judged_def step [of "\<lambda>_. now"] del: walk.simps)
qed

lemma hops_kept:
  assumes "hops ports now hop seen current d (Some c) = (out, cache')" and "hop \<le> ALIAS_BUDGET + 1"
  shows "\<exists>c'. cache' = Some c' \<and> cache_kept ports now c c'"
  using assms
proof (induction "ALIAS_BUDGET + 1 - hop" arbitrary: hop seen current d c)
  case 0
  then show ?case by (auto simp: hops.simps [of _ _ hop])
next
  case (Suc n)
  then have hop: "hop \<le> ALIAS_BUDGET" and n: "n = ALIAS_BUDGET + 1 - Suc hop" by auto
  have IH: "\<exists>c''. cache' = Some c'' \<and> cache_kept ports now c c''"
    if "hops ports now (Suc hop) s h d' (Some c') = (out, cache')" "cache_kept ports now c c'" for s h d' c'
    using Suc.hyps(1) [OF n that(1)] that(2) hop by (auto intro: cache_kept_trans)
  show ?case
  proof (cases "\<exists>label tld. parseHost current = Some (label, tld) \<and> isRatifiedTld tld \<and>
      labelRejection label = None \<and> name_text label tld \<notin> seen")
    case True
    then obtain label tld where ok: "parseHost current = Some (label, tld)" "isRatifiedTld tld"
      "labelRejection label = None" "name_text label tld \<notin> seen" by auto
    obtain res c1 where found: "find_record ports now (name_text label tld) label tld
        (d\<lparr>d_aliasHops := hop\<rparr>) (Some c) = (res, c1)"
      by (cases "find_record ports now (name_text label tld) label tld (d\<lparr>d_aliasHops := hop\<rparr>) (Some c)")
    obtain c2 where c2: "c1 = Some c2" "cache_kept ports now c c2"
      using find_record_kept [OF ok(2,3), of ports now "d\<lparr>d_aliasHops := hop\<rparr>" c] found by auto
    show ?thesis
      using Suc.prems(1) hop ok found c2
      by (auto simp: hops.simps [of _ _ hop] Let_def split: sum.splits option.splits if_splits intro: IH)
  next
    case False
    then show ?thesis
      using Suc.prems(1) hop
      by (auto simp: hops.simps [of _ _ hop] Let_def split: option.splits if_splits)
  qed
qed

lemma hops_judged:
  assumes "hops ports now hop seen current d (Some c) = (out, cache')" and "hop \<le> ALIAS_BUDGET + 1"
    and "answers_sound (refused_at ports) (live_at ports) now c"
  shows "judged ports now (ttls c) (ALIAS_BUDGET + 1 - hop) seen current (verdict out)"
  using assms
proof (induction "ALIAS_BUDGET + 1 - hop" arbitrary: hop seen current d c)
  case 0
  then show ?case
    using judged_now [of ports now "ttls c" 0] by (auto simp: hops.simps [of _ _ hop])
next
  case (Suc n)
  then have hop: "hop \<le> ALIAS_BUDGET" and n: "n = ALIAS_BUDGET + 1 - (hop + 1)" by auto
  note J = judged_now [of ports now "ttls c" "Suc n" seen current]
  note out = Suc.prems(1) [unfolded hops.simps [of _ _ hop] Let_def, simplified hop not_True_eq_False if_False]
  have N: "ALIAS_BUDGET + 1 - hop = Suc n" using Suc.hyps(2) by simp
  have "judged ports now (ttls c) (Suc n) seen current (verdict out)"
  proof (cases "parseHost current")
    case None
    then show ?thesis using out J by auto
  next
    case (Some name)
    obtain label tld where name: "name = (label, tld)" by (cases name)
    let ?key = "name_text label tld"
    show ?thesis
    proof (cases "isRatifiedTld tld \<and> labelRejection label = None \<and> ?key \<notin> seen")
      case False
      then show ?thesis using out J Some name by (auto split: if_splits)
    next
      case True
      then have ok: "isRatifiedTld tld" "labelRejection label = None" "?key \<notin> seen" by auto
      obtain res c1 where found: "find_record ports now ?key label tld (d\<lparr>d_aliasHops := hop\<rparr>) (Some c) = (res, c1)"
        by (cases "find_record ports now ?key label tld (d\<lparr>d_aliasHops := hop\<rparr>) (Some c)")
      obtain c2 where c2: "c1 = Some c2" "cache_kept ports now c c2"
        using find_record_kept [OF ok(1,2), of ports now "d\<lparr>d_aliasHops := hop\<rparr>" c] found by auto
      have answered: "answered ports now (ttls c) label tld res"
        using find_record_answered [OF ok(1,2) Suc.prems(3) found] .
      have sound: "answers_sound (refused_at ports) (live_at ports) now c2" and ttls: "ttls c2 = ttls c"
        using c2(2) Suc.prems(3) by (auto simp: cache_kept_def)
      show ?thesis
      proof (cases res)
        case (Inl refused)
        then have "out = refused" "cache' = Some c2" using out Some name ok found c2 by auto
        with judged_refusal [OF Some [unfolded name] ok, of ports now "ttls c" refused n] answered Inl c2(2)
        show ?thesis by simp
      next
        case (Inr rd)
        then obtain r d1 where rd: "res = Inr (r, d1)" by (cases rd) auto
        then have says: "registry_says ports label tld now = Inr r" using answered by (simp add: answered_def)
        note out = out [unfolded Some name, simplified, unfolded ok(1,2) found rd c2(1), simplified]
        show ?thesis
        proof (cases "\<exists>entry target. selectSource r = Some entry \<and> e_type entry = js ''alias'' \<and>
            entry_alias entry = Some target")
          case False
          then show ?thesis
            using out J Some name ok says c2(2)
            by (auto split: option.splits if_splits)
        next
          case True
          then obtain entry tl tt where e: "selectSource r = Some entry" "e_type entry = js ''alias''"
            "entry_alias entry = Some (tl, tt)" by auto
          from out e ok have "hops ports now (hop + 1) (insert ?key seen) (name_text tl tt)
              (d1\<lparr>d_source := Some (js ''alias'')\<rparr>) (Some c2) = (out, cache')" by simp
          from Suc.hyps(1) [OF n this _ sound] hop
          have "judged ports now (ttls c) n (insert ?key seen) (name_text tl tt) (verdict out)"
            using n by (auto simp: ttls)
          from judged_hop [OF Some [unfolded name] ok says e this] show ?thesis .
        qed
      qed
    qed
  qed
  then show ?case unfolding N .
qed

lemma resolveName_judged:
  assumes "resolveName host ports now (Some c) = (out, cache')"
    and "answers_sound (refused_at ports) (live_at ports) now c"
  shows "judged ports now (ttls c) (ALIAS_BUDGET + 1) {} host (verdict out)"
  using hops_judged [OF assms(1) [unfolded resolveName_def] _ assms(2)] by simp

lemma resolveName_kept:
  assumes "resolveName host ports now (Some c) = (out, cache')"
  shows "\<exists>c'. cache' = Some c' \<and> cache_kept ports now c c'"
  using hops_kept [OF assms(1) [unfolded resolveName_def]] by simp

text \<open>Without a cache the algorithm is the reference resolution itself.\<close>

lemma hops_uncached:
  assumes "hops ports now hop seen current d None = (out, cache')" and "hop \<le> ALIAS_BUDGET + 1"
  shows "verdict out = walk ports (\<lambda>_. now) (ALIAS_BUDGET + 1 - hop) seen current"
  using assms
proof (induction "ALIAS_BUDGET + 1 - hop" arbitrary: hop seen current d)
  case 0
  then show ?case by (auto simp: hops.simps [of _ _ hop])
next
  case (Suc n)
  then have hop: "hop \<le> ALIAS_BUDGET" and n: "n = ALIAS_BUDGET + 1 - Suc hop" by auto
  have IH: "verdict out = walk ports (\<lambda>_. now) n s c"
    if "hops ports now (Suc hop) s c d' None = (out, cache')" for s c d'
    using Suc.hyps(1) [OF n that] hop n by simp
  have "verdict out = walk ports (\<lambda>_. now) (Suc n) seen current"
    using Suc.prems(1) hop
    by (auto simp: hops.simps [of _ _ hop] Let_def find_record_def cached_positive_def cached_negative_def
        ask_registry_def registry_says_def store_negative_def store_positive_def
        split: option.splits if_splits dest!: IH)
  then show ?case using Suc.hyps(2) by simp
qed

lemma resolveName_uncached:
  "verdict (fst (resolveName host ports now None)) = walk ports (\<lambda>_. now) (ALIAS_BUDGET + 1) {} host"
  using hops_uncached [where hop = 0 and seen = "{}" and current = host and ports = ports and now = now]
  unfolding resolveName_def by (metis diff_zero eq_fst_iff zero_le)

subsection \<open>A resolver in service\<close>

text \<open>
  What happens to the cache of a running resolver: time passes, the proxy resolves a name (serveProxy
  in serve.ts tells the cache the length of the log first), the proxy stores a content failure
  under a key that is no name, remembers a manifest, and the operator resizes, empties or forgets.
  There are two hosts. \<open>cmdServe\<close> of cli.ts reads its log once, at startup, and never appends to
  it; its control interface resolves names with the cache of the proxy. Another program that binds
  the proxy may let its log grow (the option \<open>generation\<close> of \<open>serveProxy\<close> is for it), and has no
  such interface. \<open>grows\<close> tells them apart.
\<close>

record resolver =
  rv_ports :: ResolverPorts
  rv_length :: int
  rv_now :: int
  rv_cache :: ResolutionCache

definition newResolver :: "ResolverPorts \<Rightarrow> int \<Rightarrow> int \<Rightarrow> resolver" where
  "newResolver ports n now =
     \<lparr>rv_ports = ports, rv_length = n, rv_now = now,
      rv_cache = newCache None None None NEGATIVE_TTL_SECONDS\<rparr>"

definition proxy_resolve :: "jsstr \<Rightarrow> resolver \<Rightarrow> Outcome \<times> ResolutionCache option" where
  "proxy_resolve host R =
     resolveName host (rv_ports R) (rv_now R) (Some (setGeneration (rv_length R) (rv_cache R)))"

definition control_resolve :: "jsstr \<Rightarrow> resolver \<Rightarrow> Outcome \<times> ResolutionCache option" where
  "control_resolve host R = resolveName host (rv_ports R) (rv_now R) (Some (rv_cache R))"

inductive resolver_step :: "bool \<Rightarrow> resolver \<Rightarrow> resolver \<Rightarrow> bool" for grows where
  time_passes: "rv_now R \<le> t \<Longrightarrow> resolver_step grows R (R\<lparr>rv_now := t\<rparr>)"
| log_grows: "grows \<Longrightarrow> rv_length R < n \<Longrightarrow> resolver_step grows R (R\<lparr>rv_ports := ports, rv_length := n\<rparr>)"
| told: "resolver_step grows R (R\<lparr>rv_cache := setGeneration (rv_length R) (rv_cache R)\<rparr>)"
| proxied: "proxy_resolve host R = (out, Some c) \<Longrightarrow> resolver_step grows R (R\<lparr>rv_cache := c\<rparr>)"
| controlled: "\<not> grows \<Longrightarrow> control_resolve host R = (out, Some c) \<Longrightarrow> resolver_step grows R (R\<lparr>rv_cache := c\<rparr>)"
| content_failed: "name_of key = None \<Longrightarrow>
    resolver_step grows R (R\<lparr>rv_cache := snd (putNegative key e (rv_now R) (rv_cache R))\<rparr>)"
| content_asked: "resolver_step grows R (R\<lparr>rv_cache := snd (negative key (rv_now R) (rv_cache R))\<rparr>)"
| manifest_read: "resolver_step grows R (R\<lparr>rv_cache := rememberManifest cid m (rv_cache R)\<rparr>)"
| resized: "setLimits nl pl ml (rv_cache R) = Inr c \<Longrightarrow> resolver_step grows R (R\<lparr>rv_cache := c\<rparr>)"
| emptied: "resolver_step grows R (R\<lparr>rv_cache := snd (clear (rv_cache R))\<rparr>)"
| forgotten: "resolver_step grows R (R\<lparr>rv_cache := snd (forget key (rv_cache R))\<rparr>)"

abbreviation resolver_steps :: "bool \<Rightarrow> resolver \<Rightarrow> resolver \<Rightarrow> bool" where
  "resolver_steps grows \<equiv> (resolver_step grows)\<^sup>*\<^sup>*"

inductive_cases resolver_stepE: "resolver_step grows R R'"

text \<open>The invariant: entries stored since the log last grew are sound.\<close>

definition sound_for :: "resolver \<Rightarrow> ResolutionCache \<Rightarrow> bool" where
  "sound_for R c \<longleftrightarrow> answers_sound (refused_at (rv_ports R)) (live_at (rv_ports R)) (rv_now R) c"

definition resolver_ok :: "resolver \<Rightarrow> bool" where
  "resolver_ok R \<longleftrightarrow>
     ttls (rv_cache R) = NEGATIVE_TTL_SECONDS \<and> cache_ok (rv_cache R) \<and>
     (\<forall>g. generation (rv_cache R) = Some g \<longrightarrow> g \<le> rv_length R) \<and>
     (generation (rv_cache R) = Some (rv_length R) \<longrightarrow> sound_for R (rv_cache R))"

lemma resolver_ok_kept:
  assumes "resolver_ok R" and "cache_kept (rv_ports R) (rv_now R) (rv_cache R) c"
  shows "resolver_ok (R\<lparr>rv_cache := c\<rparr>)"
  using assms by (auto simp: resolver_ok_def sound_for_def cache_kept_def intro: cache_steps_ok)

lemma newResolver_ok: "resolver_ok (newResolver ports n now)"
  using newCache_ok by (simp add: resolver_ok_def newResolver_def) (simp add: newCache_def)

lemma setGeneration_fits:
  assumes "resolver_ok R"
  shows "sound_for R (setGeneration (rv_length R) (rv_cache R))"
    "ttls (setGeneration (rv_length R) (rv_cache R)) = NEGATIVE_TTL_SECONDS"
    "cache_ok (setGeneration (rv_length R) (rv_cache R))"
    "generation (setGeneration (rv_length R) (rv_cache R)) = Some (rv_length R)"
  using assms cache_step_ok [OF cache_step.intros(4)]
  by (auto simp: resolver_ok_def sound_for_def intro!: setGeneration_sound)
    (auto simp: setGeneration_def)

lemma resolver_ok_told:
  "resolver_ok R \<Longrightarrow> resolver_ok (R\<lparr>rv_cache := setGeneration (rv_length R) (rv_cache R)\<rparr>)"
  using setGeneration_fits [of R] by (simp add: resolver_ok_def sound_for_def)

lemma resolver_step_ok:
  assumes "resolver_step grows R R'" and "resolver_ok R"
  shows "resolver_ok R'"
  using assms
proof (cases rule: resolver_step.cases)
  case (time_passes t)
  then show ?thesis using assms(2) by (auto simp: resolver_ok_def sound_for_def intro: answers_sound_later)
next
  case (log_grows n ports)
  then show ?thesis using assms(2) by (fastforce simp: resolver_ok_def)
next
  case told
  then show ?thesis using resolver_ok_told [OF assms(2)] by simp
next
  case (proxied host out c)
  then show ?thesis
    using resolveName_kept [OF proxied(2) [unfolded proxy_resolve_def]]
      resolver_ok_kept [OF resolver_ok_told [OF assms(2)], of c] by auto
next
  case (controlled host out c)
  then show ?thesis
    using resolveName_kept [OF controlled(3) [unfolded control_resolve_def]]
      resolver_ok_kept [OF assms(2), of c] by auto
next
  case (content_failed key e)
  then have "refused_at (rv_ports R) key (rv_now R) e" by (simp add: refused_at_def)
  then show ?thesis
    unfolding content_failed(1) by (intro resolver_ok_kept assms cache_kept_putNegative)
qed (auto intro: resolver_ok_kept [OF assms(2)] cache_kept_negative cache_kept_ops)

lemma resolver_steps_ok: "resolver_steps grows R R' \<Longrightarrow> resolver_ok R \<Longrightarrow> resolver_ok R'"
  by (induction rule: rtranclp_induct) (auto intro: resolver_step_ok)

text \<open>While the log does not grow, every entry of the cache is sound, told or not.\<close>

lemma sound_for_kept:
  "cache_kept (rv_ports R) (rv_now R) (rv_cache R) c \<Longrightarrow> sound_for R (rv_cache R) \<Longrightarrow>
    sound_for (R\<lparr>rv_cache := c\<rparr>) c"
  by (auto simp: sound_for_def cache_kept_def)

lemma fixed_step_sound:
  assumes "resolver_step False R R'" and "resolver_ok R" and "sound_for R (rv_cache R)"
  shows "sound_for R' (rv_cache R')"
proof -
  note kept = sound_for_kept [OF _ assms(3)]
  show ?thesis
    using assms(1)
  proof (cases rule: resolver_step.cases)
    case (time_passes t)
    then show ?thesis using assms(3) by (auto simp: sound_for_def intro: answers_sound_later)
  next
    case told
    then show ?thesis using setGeneration_fits(1) [OF assms(2)] by (simp add: sound_for_def)
  next
    case (proxied host out c)
    let ?R = "R\<lparr>rv_cache := setGeneration (rv_length R) (rv_cache R)\<rparr>"
    have "sound_for ?R (rv_cache ?R)" using setGeneration_fits(1) [OF assms(2)] by (simp add: sound_for_def)
    then show ?thesis
      using proxied resolveName_kept [OF proxied(2) [unfolded proxy_resolve_def]] sound_for_kept [of ?R c] by auto
  next
    case (controlled host out c)
    then show ?thesis using resolveName_kept [OF controlled(3) [unfolded control_resolve_def]] kept by auto
  next
    case (content_failed key e)
    then have "refused_at (rv_ports R) key (rv_now R) e" by (simp add: refused_at_def)
    from kept [OF cache_kept_putNegative [OF this]] show ?thesis using content_failed(1) by simp
  qed (auto intro!: kept cache_kept_negative cache_kept_ops)
qed

lemma newResolver_sound: "sound_for (newResolver ports n now) (rv_cache (newResolver ports n now))"
  using newResolver_ok setGeneration_fits by (simp add: sound_for_def newResolver_def newCache_def answers_sound_def)

lemma fixed_steps_sound:
  "resolver_steps False (newResolver ports n now) R \<Longrightarrow> sound_for R (rv_cache R)"
proof (induction rule: rtranclp_induct)
  case base
  show ?case by (rule newResolver_sound)
next
  case (step R R')
  then show ?case using fixed_step_sound resolver_steps_ok [OF step.hyps(1) newResolver_ok] by blast
qed

lemma fixed_steps_ports: "resolver_steps False R R' \<Longrightarrow> rv_ports R' = rv_ports R"
  by (induction rule: rtranclp_induct) (auto elim: resolver_stepE)

subsection \<open>Properties\<close>

lemma candidates_loop_sound:
  assumes "e \<in> set (candidates_loop entries acc types)" and "set acc \<subseteq> set entries"
    and "\<forall>c\<in>set acc. e_known c \<and> e_type c \<in> {js ''ipns'', js ''cid''}"
  shows "e \<in> set entries \<and> e_known e \<and>
    (e_type e \<in> {js ''ipns'', js ''cid''} \<or> e_type e \<in> set types)"
  using assms
proof (induction entries acc types rule: candidates_loop.induct)
  case (2 entries candidates type types)
  have found: "m \<in> set entries \<and> e_known m \<and> e_type m = type"
    if "find (\<lambda>e. e_known e \<and> e_type e = type) entries = Some m" for m
    using that by (metis (mono_tags, lifting) find_Some_iff nth_mem)
  show ?case
  proof (cases "find (\<lambda>e. e_known e \<and> e_type e = type) entries")
    case None
    then show ?thesis using 2 by auto
  next
    case (Some m)
    show ?thesis
    proof (cases "type \<notin> set [js ''ipns'', js ''cid''] \<and> candidates = []")
      case True
      then show ?thesis using 2(4) Some found [OF Some] by auto
    next
      case False
      then show ?thesis
        using 2 Some found [OF Some] by (simp split: if_splits) blast+
    qed
  qed
qed auto

lemma selectSource_sound:
  assumes "selectSource r = Some e"
  shows "e \<in> set (r_entries r) \<and> e_known e \<and> e_type e \<in> {js ''ipns'', js ''cid'', js ''alias''}"
proof -
  have "e \<in> set (sourceCandidates r)" using assms by (auto simp: selectSource_def split: list.splits)
  then show ?thesis
    using candidates_loop_sound [of e "r_entries r" "[]" SOURCE_ORDER]
    by (auto simp: sourceCandidates_def SOURCE_ORDER_def)
qed

lemma walk_Inr:
  assumes "walk ports (\<lambda>_. now) n seen host = Inr (entry, r)"
  shows "\<exists>label tld. registry_says ports label tld now = Inr r \<and> entry \<in> set (r_entries r) \<and>
    e_known entry \<and> e_type entry \<in> {js ''ipns'', js ''cid''}"
  using assms
proof (induction n arbitrary: seen host)
  case (Suc n)
  obtain label tld where parsed: "parseHost host = Some (label, tld)"
    using Suc.prems by (cases "parseHost host") auto
  note step = Suc.prems [simplified walk.simps parsed option.case prod.case]
  obtain r1 where says: "registry_says ports label tld now = Inr r1"
    using step by (cases "registry_says ports label tld now") (simp_all split: if_splits)
  obtain e1 where e1: "selectSource r1 = Some e1"
    using step says by (cases "selectSource r1") (simp_all split: if_splits)
  have rest: "(if e_type e1 = js ''alias'' then
        case entry_alias e1 of None \<Rightarrow> Inl NO_USABLE_RECORD
        | Some (tlabel, ttld) \<Rightarrow> walk ports (\<lambda>_. now) n (insert (name_text label tld) seen) (name_text tlabel ttld)
      else Inr (e1, r1)) = Inr (entry, r)"
    using step says e1 by (simp split: if_splits del: js_simps)
  show ?case
  proof (cases "e_type e1 = js ''alias''")
    case True
    with rest obtain tlabel ttld where
      "walk ports (\<lambda>_. now) n (insert (name_text label tld) seen) (name_text tlabel ttld) = Inr (entry, r)"
      by (auto split: option.splits simp del: js_simps)
    then show ?thesis by (rule Suc.IH)
  next
    case False
    then show ?thesis using rest says selectSource_sound [OF e1] by auto
  qed
qed simp

text \<open>
  C22. The answers of the browsing proxy are the registry's. In every state a resolver reaches, whatever
  was cached, resized, forgotten or resolved before and however the log grew, the answer for a host
  is what the reference resolution gives now, or it is a refusal that one name of the chain earned
  at an earlier moment, no longer ago than the policy keeps that refusal; and with no cache at all
  the algorithm is the reference resolution.
\<close>

theorem resolver_answers:
  assumes "resolver_steps grows (newResolver ports n start) R"
  shows "let answer = verdict (fst (proxy_resolve host R)); now = rv_now R in
    (answer = walk (rv_ports R) (\<lambda>_. now) 4 {} host \<or>
     (\<exists>key asked e l. answer = Inl e \<and> NEGATIVE_TTL_SECONDS e = Some l \<and> asked \<le> now \<and> now < asked + l \<and>
        answer = walk (rv_ports R) ((\<lambda>_. now)(key := asked)) 4 {} host)) \<and>
    verdict (fst (resolveName host (rv_ports R) now None)) = walk (rv_ports R) (\<lambda>_. now) 4 {} host"
proof -
  have ok: "resolver_ok R" using resolver_steps_ok [OF assms newResolver_ok] .
  obtain out cache' where out: "proxy_resolve host R = (out, cache')" by (cases "proxy_resolve host R")
  from resolveName_judged [OF out [unfolded proxy_resolve_def]] setGeneration_fits [OF ok]
  have "judged (rv_ports R) (rv_now R) NEGATIVE_TTL_SECONDS 4 {} host (verdict out)"
    by (simp add: sound_for_def ALIAS_BUDGET_def)
  then show ?thesis
    using resolveName_uncached [of host "rv_ports R" "rv_now R"] out
    by (auto simp: judged_def ALIAS_BUDGET_def Let_def)
qed

text \<open>
  C23. In \<open>cmdServe\<close> the control interface answers as the registry does too, although it resolves with the
  cache of the proxy and does not tell it the length of the log. The log of that process is fixed, so
  whatever the proxy, the operator and the interface itself did to the cache before, the answer for
  a host is what the reference resolution of the log gives now, or a refusal that one name of the
  chain earned no longer ago than the policy keeps it.
\<close>

theorem control_answers:
  assumes "resolver_steps False (newResolver ports n start) R"
  shows "let answer = verdict (fst (control_resolve host R)); now = rv_now R in
    answer = walk ports (\<lambda>_. now) 4 {} host \<or>
    (\<exists>key asked e l. answer = Inl e \<and> NEGATIVE_TTL_SECONDS e = Some l \<and> asked \<le> now \<and> now < asked + l \<and>
       answer = walk ports ((\<lambda>_. now)(key := asked)) 4 {} host)"
proof -
  have ok: "resolver_ok R" using resolver_steps_ok [OF assms newResolver_ok] .
  have ports: "rv_ports R = ports" using fixed_steps_ports [OF assms] by (simp add: newResolver_def)
  obtain out cache' where out: "control_resolve host R = (out, cache')" by (cases "control_resolve host R")
  have "ttls (rv_cache R) = NEGATIVE_TTL_SECONDS" using ok by (simp add: resolver_ok_def)
  with resolveName_judged [OF out [unfolded control_resolve_def]] fixed_steps_sound [OF assms]
  have "judged (rv_ports R) (rv_now R) NEGATIVE_TTL_SECONDS 4 {} host (verdict out)"
    by (simp add: sound_for_def ALIAS_BUDGET_def)
  then show ?thesis using out by (auto simp: judged_def ports Let_def)
qed

text \<open>
  What the browsing proxy resolves to is live: the record is the registry's current record of some
  name, it is in its live state at the moment of the request and is no revocation, and the entry is
  one of its own, of a type a content layer can fetch. A name that expired, lapsed into quarantine
  or was revoked does not resolve, whether or not it was cached while it was live.
\<close>

theorem resolved_is_live:
  assumes "resolver_steps grows (newResolver ports n start) R"
    and "fst (proxy_resolve host R) = Resolved entry r d"
  shows "stateAt r (rv_now R) = LIVE \<and> r_op r \<noteq> REVOKE \<and>
    (\<exists>label tld. lookup (rv_ports R) label tld = Some r) \<and>
    entry \<in> set (r_entries r) \<and> e_known entry \<and> e_type entry \<in> {js ''ipns'', js ''cid''}"
proof -
  have ok: "resolver_ok R" using resolver_steps_ok [OF assms(1) newResolver_ok] .
  obtain cache' where out: "proxy_resolve host R = (Resolved entry r d, cache')"
    using assms(2) by (cases "proxy_resolve host R") auto
  from resolveName_judged [OF out [unfolded proxy_resolve_def]] setGeneration_fits [OF ok]
  have "walk (rv_ports R) (\<lambda>_. rv_now R) 4 {} host = Inr (entry, r)"
    by (auto simp: sound_for_def judged_def ALIAS_BUDGET_def)
  from walk_Inr [OF this] show ?thesis by (auto simp: registry_says_Inr validity_live)
qed

subsection \<open>Witnesses\<close>

definition site_record :: RegistryRecord where
  "site_record = sample_register\<lparr>r_entries :=
     [\<lparr>e_type = js ''cid'', e_value = CBytes [1], e_ttl = 3600, e_known = True\<rparr>]\<rparr>"

definition site_ports :: "RegistryRecord \<Rightarrow> ResolverPorts" where
  "site_ports r = \<lparr>lookup = (\<lambda>label tld. Some r), hasVerifiedHead = True\<rparr>"

lemmas resolve_exec = hops.simps [of _ _ "0 :: nat"] resolveName_def parseHost_def strip_port_def toLowerCase_def
  lower_unit_def find_record_def cached_positive_def cached_negative_def ask_registry_def
  store_negative_def store_positive_def positive_def negative_def putPositive_def putNegative_def
  evictFor_def validity_def stateAt_def lifecycleOf_def selectSource_def sourceCandidates_def
  SOURCE_ORDER_def emptyDiagnostics_def name_text_def ALIAS_BUDGET_def POSITIVE_TTL_SECONDS_def
  GRACE_SECONDS_def QUARANTINE_SECONDS_def site_record_def site_ports_def
  sample_register_def newResolver_def newCache_def setGeneration_def proxy_resolve_def
  control_resolve_def Let_def COLON_def CACHE_LIMITS_def

definition atlas :: jsstr where "atlas = js ''atlas.vayu''"

lemma parse_atlas: "parseHost atlas = Some (js ''atlas'', js ''vayu'')"
  by (simp add: atlas_def parseHost_def strip_port_def toLowerCase_def lower_unit_def is_digit_def Let_def
      COLON_def DOT_def)

lemma atlas_label: "labelRejection (js ''atlas'') = None"
  by (simp add: exec)

lemma proxy_atlas:
  "proxy_resolve atlas (newResolver (site_ports site_record) 1 2000000) =
     (Resolved (hd (r_entries site_record)) site_record
        \<lparr>d_name = atlas, d_seq = Some 0, d_source = Some (js ''cid''), d_resolvedFrom = Some FromRegistry,
         d_fallbacks = [], d_aliasHops = 0\<rparr>,
      Some ((setGeneration 1 (newCache None None None NEGATIVE_TTL_SECONDS))
        \<lparr>positives := [(name_text (js ''atlas'') (js ''vayu''), \<lparr>q_record = site_record, q_expires = 2000300\<rparr>)],
         missCount := 2\<rparr>))"
  using parse_atlas atlas_label by (simp add: resolve_exec)

definition served :: resolver where
  "served = (newResolver (site_ports site_record) 1 2000000)
     \<lparr>rv_cache := the (snd (proxy_resolve atlas (newResolver (site_ports site_record) 1 2000000)))\<rparr>"

lemma served_steps: "resolver_steps grows (newResolver (site_ports site_record) 1 2000000) served"
  unfolding served_def by (rule r_into_rtranclp, rule proxied [of atlas]) (simp add: proxy_atlas)

theorem resolver_answers_witness:
  "let answer = verdict (fst (proxy_resolve atlas served)); now = rv_now served in
    (answer = walk (rv_ports served) (\<lambda>_. now) 4 {} atlas \<or>
     (\<exists>key asked e l. answer = Inl e \<and> NEGATIVE_TTL_SECONDS e = Some l \<and> asked \<le> now \<and> now < asked + l \<and>
        answer = walk (rv_ports served) ((\<lambda>_. now)(key := asked)) 4 {} atlas)) \<and>
    verdict (fst (resolveName atlas (rv_ports served) now None)) =
      walk (rv_ports served) (\<lambda>_. now) 4 {} atlas"
  by (rule resolver_answers [OF served_steps [of True]])

theorem resolved_is_live_witness: "stateAt site_record 2000000 = LIVE"
proof -
  have "resolver_steps True (newResolver (site_ports site_record) 1 2000000)
      (newResolver (site_ports site_record) 1 2000000)" by simp
  from resolved_is_live [OF this, of atlas] show ?thesis
    by (simp add: proxy_atlas) (simp add: newResolver_def)
qed

theorem control_answers_witness:
  "let answer = verdict (fst (control_resolve atlas served)); now = rv_now served in
    answer = walk (site_ports site_record) (\<lambda>_. now) 4 {} atlas \<or>
    (\<exists>key asked e l. answer = Inl e \<and> NEGATIVE_TTL_SECONDS e = Some l \<and> asked \<le> now \<and> now < asked + l \<and>
       answer = walk (site_ports site_record) ((\<lambda>_. now)(key := asked)) 4 {} atlas)"
  by (rule control_answers [OF served_steps])

end
