(* ===== verification/Scan.thy ===== *)
theory Scan
  imports Utf8_Lossy "HOL-Library.Multiset"
begin

section \<open>The scan of a served document\<close>

text \<open>
  registry/src/scan.ts: the three rules a header cannot express, looked for in a document before the
  proxy serves it. The scanner walks the tags of the text by position, so \<open>forEachTag\<close> keeps the
  whole text and the index \<open>i\<close>; the callback it calls for every tag is the list of its calls.
\<close>

subsection \<open>The rules\<close>

datatype ScanRuleId = speculative_link | meta_refresh | service_worker

record ScanRule =
  rule_id :: ScanRuleId
  rule_what :: string
  rule_why :: string
  rule_fix :: string

definition SCAN_RULES :: "ScanRule list" where
  "SCAN_RULES =
    [\<lparr>rule_id = speculative_link,
      rule_what = ''a speculative-loading <link rel>'',
      rule_why = ''dns-prefetch, preconnect, prefetch, preload, prerender and modulepreload all contact '' @
        ''another server on the speculation that a reader will click. On VayuWeb they do nothing '' @
        ''except leak who is reading.'',
      rule_fix = ''remove the tag; the resource loads when it is used.''\<rparr>,
     \<lparr>rule_id = meta_refresh,
      rule_what = ''<meta http-equiv=\"refresh\">'',
      rule_why = ''Auto-redirecting a reader to another address is indistinguishable from open-redirect '' @
        ''abuse, so VayuWeb does not honour it.'',
      rule_fix = ''link to the destination instead, or serve the destination'' @ CHR 0x27 #
        ''s content directly.''\<rparr>,
     \<lparr>rule_id = service_worker,
      rule_what = ''service-worker registration'',
      rule_why = ''A service worker keeps running after the reader leaves, which VayuWeb promises never to '' @
        ''allow. Registration is blocked, so code depending on one misbehaves.'',
      rule_fix = ''remove the registration; cache nothing beyond the reader'' @ CHR 0x27 # ''s visit.''\<rparr>]"

definition SPECULATIVE_RELS :: "jsstr list" where
  "SPECULATIVE_RELS =
     [js ''dns-prefetch'', js ''preconnect'', js ''prefetch'', js ''preload'', js ''prerender'',
      js ''modulepreload'']"

record ScanFinding =
  f_rule :: ScanRuleId
  f_file :: jsstr
  f_line :: nat
  f_what :: string
  f_why :: string
  f_fix :: string

subsection \<open>Tags and attributes\<close>

definition NEWLINE :: "16 word" where "NEWLINE = 0x0A"
definition LESS :: "16 word" where "LESS = 0x3C"
definition EQUALS :: "16 word" where "EQUALS = 0x3D"
definition GREATER :: "16 word" where "GREATER = 0x3E"
definition DOUBLE_QUOTE :: "16 word" where "DOUBLE_QUOTE = 0x22"
definition SINGLE_QUOTE :: "16 word" where "SINGLE_QUOTE = 0x27"

definition quote_mark :: "16 word \<Rightarrow> bool" where
  "quote_mark u \<longleftrightarrow> u = DOUBLE_QUOTE \<or> u = SINGLE_QUOTE"

text \<open>The characters of an attribute name and of a value without quotes.\<close>

definition name_unit :: "16 word \<Rightarrow> bool" where
  "name_unit u \<longleftrightarrow> u \<noteq> EQUALS \<and> \<not> js_space u \<and> u \<noteq> GREATER"

definition bare_unit :: "16 word \<Rightarrow> bool" where
  "bare_unit u \<longleftrightarrow> \<not> js_space u \<and> u \<noteq> GREATER"

text \<open>The value after the name and what is left of the region after it.\<close>

definition attribute_value :: "jsstr \<Rightarrow> jsstr \<times> jsstr" where
  "attribute_value s =
     (case s of
        c # s' \<Rightarrow>
          if c = EQUALS then
            (case s' of
               q # v \<Rightarrow>
                 if quote_mark q then (takeWhile (\<lambda>u. u \<noteq> q) v, drop 1 (dropWhile (\<lambda>u. u \<noteq> q) v))
                 else (takeWhile bare_unit s', dropWhile bare_unit s')
             | [] \<Rightarrow> ([], []))
          else ([], s)
      | [] \<Rightarrow> ([], []))"

lemma length_attribute_value: "length (snd (attribute_value s)) \<le> length s"
proof -
  have le: "length (dropWhile P v) \<le> length v" for P and v :: jsstr by (rule length_dropWhile_le)
  have "length (drop 1 (dropWhile P v)) \<le> Suc (Suc (length v))" "length (dropWhile P v) \<le> Suc (Suc (length v))"
    "length (dropWhile P (c # v)) \<le> Suc (Suc (length v))" for P and c and v :: jsstr
    using le [of P v] le [of P "c # v"] by simp_all
  then show ?thesis by (auto simp: attribute_value_def split: list.split simp del: dropWhile.simps drop_Suc_Cons)
qed

function attributes :: "jsstr \<Rightarrow> (jsstr \<times> jsstr) list" where
  "attributes region =
     (let s = dropWhile js_space region; name = takeWhile name_unit s in
      if name = [] then []
      else
        let (v, rest) = attribute_value (dropWhile name_unit s) in
        (toLowerCase name, v) # attributes rest)"
  by auto

termination
proof (relation "measure length")
  fix region s name p v rest
  assume "(s :: jsstr) = dropWhile js_space region" "name = takeWhile name_unit s" "name \<noteq> []"
    and "p = attribute_value (dropWhile name_unit s)" "(v, rest) = p"
  moreover have "length s = length (takeWhile name_unit s) + length (dropWhile name_unit s)"
    by (metis length_append takeWhile_dropWhile_id)
  moreover have "0 < length (takeWhile name_unit s)" using calculation(2,3) by simp
  moreover have "length rest \<le> length (dropWhile name_unit s)"
    using length_attribute_value [of "dropWhile name_unit s"] calculation(4,5) by (metis snd_conv)
  ultimately have "length rest < length s" by linarith
  then show "(rest, region) \<in> measure length"
    using length_dropWhile_le [of js_space region] \<open>s = dropWhile js_space region\<close> by simp
qed simp

declare attributes.simps [simp del]

definition attributeValue :: "(jsstr \<times> jsstr) list \<Rightarrow> jsstr \<Rightarrow> jsstr option" where
  "attributeValue attrs name = map_option snd (find (\<lambda>(key, v). key = name) attrs)"

definition tag_unit :: "16 word \<Rightarrow> bool" where
  "tag_unit u \<longleftrightarrow> 0x41 \<le> u \<and> u \<le> 0x5A \<or> 0x61 \<le> u \<and> u \<le> 0x7A \<or> 0x30 \<le> u \<and> u \<le> 0x39 \<or> u = 0x2D"

text \<open>
  The end of a tag: the position of the first \<open>>\<close> outside quotes and the line count there, or
  \<open>None\<close> when the text ends first.
\<close>

fun tag_end :: "16 word option \<Rightarrow> nat \<Rightarrow> jsstr \<Rightarrow> (nat \<times> nat) option" where
  "tag_end quote line [] = None"
| "tag_end quote line (c # s) =
     (if quote = Some c then map_option (map_prod Suc id) (tag_end None line s)
      else if quote = None \<and> quote_mark c then map_option (map_prod Suc id) (tag_end (Some c) line s)
      else if quote = None \<and> c = GREATER then Some (0, line)
      else map_option (map_prod Suc id) (tag_end quote (if c = NEWLINE then line + 1 else line) s))"

definition newlines :: "jsstr \<Rightarrow> nat" where
  "newlines s = length (filter (\<lambda>u. u = NEWLINE) s)"

text \<open>
  \<open>forEachTag\<close> from index \<open>i\<close> on. A raw name holds letters, digits and hyphens only, so the
  slashes the code would strip from it and the \<open>!\<close> and \<open>?\<close> it looks for never occur.
\<close>

function tags_from :: "jsstr \<Rightarrow> nat \<Rightarrow> nat \<Rightarrow> (jsstr \<times> jsstr \<times> nat) list" where
  "tags_from html i line =
     (if \<not> i < length html then []
      else if html ! i = NEWLINE then tags_from html (i + 1) (line + 1)
      else if html ! i \<noteq> LESS then tags_from html (i + 1) line
      else if starts_with (drop i html) (js ''<!--'') then
        (case find_text (js ''-->'') (drop i html) of
           None \<Rightarrow> []
         | Some k \<Rightarrow>
             let end = i + k in
             tags_from html (end + 3) (line + newlines (take end (drop i html))))
      else
        let rawName = takeWhile tag_unit (drop (i + 1) html); j = i + 1 + length rawName in
        if rawName = [] then tags_from html (i + 1) line
        else
          (case tag_end None line (drop j html) of
             None \<Rightarrow> []
           | Some (k, line') \<Rightarrow>
               (toLowerCase rawName, trim (take k (drop j html)), line) # tags_from html (j + k + 1) line'))"
  by pat_completeness auto

termination by (relation "measure (\<lambda>(html, i, line). length html - i)") auto

declare tags_from.simps [simp del]

definition forEachTag :: "jsstr \<Rightarrow> (jsstr \<times> jsstr \<times> nat) list" where
  "forEachTag html = tags_from html 0 1"

subsection \<open>The scan\<close>

definition includes_text :: "jsstr \<Rightarrow> jsstr \<Rightarrow> bool" where
  "includes_text s p \<longleftrightarrow> find_text p s \<noteq> None"

definition registersServiceWorker :: "jsstr \<Rightarrow> bool" where
  "registersServiceWorker s \<longleftrightarrow>
     includes_text s (js ''navigator.serviceWorker.register'') \<or> includes_text s (js ''serviceWorker.register('')"

definition lineOfFirst :: "jsstr \<Rightarrow> jsstr \<Rightarrow> nat" where
  "lineOfFirst s needle =
     (case find_text needle s of None \<Rightarrow> 1 | Some k \<Rightarrow> length (split_on NEWLINE (take k s)))"

definition finding :: "ScanRuleId \<Rightarrow> jsstr \<Rightarrow> nat \<Rightarrow> ScanFinding list" where
  "finding r path line =
     (case find (\<lambda>candidate. rule_id candidate = r) SCAN_RULES of
        None \<Rightarrow> []
      | Some found \<Rightarrow> [\<lparr>f_rule = rule_id found, f_file = path, f_line = line, f_what = rule_what found,
           f_why = rule_why found, f_fix = rule_fix found\<rparr>])"

definition breaks_link :: "jsstr \<Rightarrow> bool" where
  "breaks_link region =
     (case map_option toLowerCase (attributeValue (attributes region) (js ''rel'')) of
        None \<Rightarrow> False
      | Some rel \<Rightarrow> rel \<in> set SPECULATIVE_RELS)"

definition breaks_meta :: "jsstr \<Rightarrow> bool" where
  "breaks_meta region \<longleftrightarrow>
     map_option toLowerCase (attributeValue (attributes region) (js ''http-equiv'')) = Some (js ''refresh'')"

definition visit_tag :: "jsstr \<Rightarrow> jsstr \<times> jsstr \<times> nat \<Rightarrow> ScanFinding list" where
  "visit_tag path tag = (case tag of (name, region, line) \<Rightarrow>
     (if name = js ''link'' \<and> breaks_link region then finding speculative_link path line else []) @
     (if name = js ''meta'' \<and> breaks_meta region then finding meta_refresh path line else []))"

definition scanDocument :: "jsstr \<Rightarrow> bytes \<Rightarrow> ScanFinding list" where
  "scanDocument path bs =
     (let lower = toLowerCase path;
          isMarkup = ends_with lower (js ''.html'') \<or> ends_with lower (js ''.htm'');
          isScript = ends_with lower (js ''.js'') \<or> ends_with lower (js ''.mjs'')
      in if \<not> isMarkup \<and> \<not> isScript then []
         else
           let s = text_decode_lossy bs in
           sort_key f_line
             ((if isMarkup then concat (map (visit_tag path) (forEachTag s)) else []) @
              (if registersServiceWorker s then
                 finding service_worker path
                   (max (lineOfFirst s (js ''serviceWorker.register'')) (lineOfFirst s (js ''serviceWorker'')))
               else [])))"

subsection \<open>Rendered documents\<close>

text \<open>
  A document written the plain way: text without tags, comments, and elements whose attributes are
  set off by one space and whose values stand in double quotes.
\<close>

datatype piece = Plain jsstr | Comment jsstr | Element jsstr "(jsstr \<times> jsstr) list"

definition render_attr :: "jsstr \<times> jsstr \<Rightarrow> jsstr" where
  "render_attr a = 0x20 # fst a @ EQUALS # DOUBLE_QUOTE # snd a @ [DOUBLE_QUOTE]"

fun render :: "piece \<Rightarrow> jsstr" where
  "render (Plain s) = s"
| "render (Comment c) = js ''<!--'' @ c @ js ''-->''"
| "render (Element name attrs) = LESS # name @ concat (map render_attr attrs) @ [GREATER]"

definition attr_ok :: "jsstr \<times> jsstr \<Rightarrow> bool" where
  "attr_ok a \<longleftrightarrow> fst a \<noteq> [] \<and> (\<forall>u\<in>set (fst a). name_unit u \<and> \<not> quote_mark u) \<and> DOUBLE_QUOTE \<notin> set (snd a)"

text \<open>A comment is over at the first \<open>-->\<close> after the start of its opening mark.\<close>

fun piece_ok :: "piece \<Rightarrow> bool" where
  "piece_ok (Plain s) \<longleftrightarrow> LESS \<notin> set s"
| "piece_ok (Comment c) \<longleftrightarrow> find_text (js ''-->'') (js ''<!--'' @ c @ js ''-->'') = Some (4 + length c)"
| "piece_ok (Element name attrs) \<longleftrightarrow>
     name \<noteq> [] \<and> (\<forall>u\<in>set name. tag_unit u) \<and> (\<forall>a\<in>set attrs. attr_ok a)"

lemmas units = NEWLINE_def LESS_def EQUALS_def GREATER_def DOUBLE_QUOTE_def SINGLE_QUOTE_def
  quote_mark_def name_unit_def bare_unit_def

lemma find_text_append: "find_text p s = Some k \<Longrightarrow> find_text p (s @ t) = Some k"
proof (induction p s arbitrary: k rule: find_text.induct)
  case (1 p)
  then show ?case by (cases t) (auto simp: starts_with_def split: if_splits)
next
  case (2 p x s)
  show ?case
  proof (cases "starts_with (x # s) p")
    case True
    then obtain u where "x # s = p @ u" by (auto simp: starts_with_iff)
    then have "starts_with (x # s @ t) p" by (metis append_Cons append_assoc starts_with_append)
    then show ?thesis using 2(2) True by simp
  next
    case False
    then obtain k' where k': "find_text p s = Some k'" "k = Suc k'" using 2(2) by auto
    then have "length p \<le> length (x # s)" using find_text_Some(2) [OF k'(1)] by simp
    then have "starts_with ((x # s) @ t) p = starts_with (x # s) p" unfolding starts_with_def take_append by simp
    then have "\<not> starts_with (x # s @ t) p" using False by simp
    then show ?thesis using 2(1) [OF False k'(1)] k'(2) by simp
  qed
qed

lemma newlines_simps [simp]:
  "newlines [] = 0" "newlines (u # s) = (if u = NEWLINE then 1 else 0) + newlines s"
  by (simp_all add: newlines_def)

lemma newlines_append [simp]: "newlines (s @ t) = newlines s + newlines t"
  by (simp add: newlines_def)

lemma newlines_none: "NEWLINE \<notin> set s \<Longrightarrow> newlines s = 0"
  by (induction s) auto

lemma tag_end_plain:
  "\<forall>u\<in>set s. \<not> quote_mark u \<and> u \<noteq> GREATER \<Longrightarrow>
    tag_end None line (s @ t) = map_option (map_prod ((+) (length s)) id) (tag_end None (line + newlines s) t)"
proof (induction s arbitrary: line)
  case (Cons u s)
  then show ?case by (cases "tag_end None (line + newlines (u # s)) t") auto
next
  case Nil
  then show ?case by (cases "tag_end None line t") auto
qed

lemma tag_end_quoted:
  "q \<notin> set s \<Longrightarrow> q \<noteq> NEWLINE \<Longrightarrow>
    tag_end (Some q) line (s @ q # t) = map_option (map_prod ((+) (Suc (length s))) id) (tag_end None (line + newlines s) t)"
proof (induction s arbitrary: line)
  case (Cons u s)
  then show ?case by (cases "tag_end None (line + newlines (u # s)) t") auto
next
  case Nil
  then show ?case by (cases "tag_end None line t") auto
qed

lemma attr_newlines: "attr_ok a \<Longrightarrow> newlines (fst a) = 0"
  by (rule newlines_none) (auto simp: attr_ok_def name_unit_def js_space_def NEWLINE_def)

lemma tag_end_attrs:
  assumes "\<forall>a\<in>set attrs. attr_ok a"
  shows "tag_end None line (concat (map render_attr attrs) @ GREATER # t) =
    Some (length (concat (map render_attr attrs)), line + newlines (concat (map render_attr attrs)))"
  using assms
proof (induction attrs arbitrary: line)
  case Nil
  then show ?case by (simp add: units)
next
  case (Cons a attrs)
  let ?rest = "concat (map render_attr attrs) @ GREATER # t"
  have a: "attr_ok a" "DOUBLE_QUOTE \<notin> set (snd a)" using Cons.prems by (simp_all add: attr_ok_def)
  have plain: "\<forall>u\<in>set (0x20 # fst a @ [EQUALS]). \<not> quote_mark u \<and> u \<noteq> GREATER"
    using a(1) by (auto simp: attr_ok_def) (auto simp: units)
  have marks: "DOUBLE_QUOTE \<noteq> NEWLINE" "EQUALS \<noteq> NEWLINE" "0x20 \<noteq> NEWLINE" by (simp_all add: units)
  have quoted: "tag_end None l (DOUBLE_QUOTE # snd a @ DOUBLE_QUOTE # ?rest) =
      Some (length (snd a) + length (concat (map render_attr attrs)) + 2,
        l + newlines (snd a) + newlines (concat (map render_attr attrs)))" for l
    using tag_end_quoted [OF a(2) marks(1)] Cons.IH Cons.prems by (simp add: quote_mark_def)
  have split: "concat (map render_attr (a # attrs)) @ GREATER # t =
      (0x20 # fst a @ [EQUALS]) @ DOUBLE_QUOTE # snd a @ DOUBLE_QUOTE # ?rest"
    by (simp add: render_attr_def)
  show ?case
    unfolding split tag_end_plain [OF plain] quoted using attr_newlines [OF a(1)] marks
    by (simp add: render_attr_def [of a])
qed

lemma js_space_units [simp]: "js_space 0x20" "\<not> js_space DOUBLE_QUOTE" "\<not> js_space EQUALS"
  by (simp_all add: js_space_def units)

lemma attributes_skip: "attributes (dropWhile js_space s) = attributes s"
proof -
  have "dropWhile js_space (dropWhile js_space s) = dropWhile js_space s" by (induction s) auto
  then show ?thesis by (simp add: attributes.simps [of s] attributes.simps [of "dropWhile js_space s"])
qed

lemma attributes_render:
  assumes "\<forall>a\<in>set attrs. attr_ok a"
  shows "attributes (concat (map render_attr attrs)) = map (\<lambda>a. (toLowerCase (fst a), snd a)) attrs"
  using assms
proof (induction attrs)
  case (Cons a attrs)
  let ?rest = "concat (map render_attr attrs)"
  obtain u n where n: "fst a = u # n" "name_unit u" "\<forall>u\<in>set n. name_unit u" "DOUBLE_QUOTE \<notin> set (snd a)"
    using Cons.prems by (cases "fst a") (auto simp: attr_ok_def)
  then have "\<not> js_space u" by (simp add: name_unit_def)
  then have s: "dropWhile js_space (concat (map render_attr (a # attrs))) =
      fst a @ EQUALS # DOUBLE_QUOTE # snd a @ DOUBLE_QUOTE # ?rest"
    using n by (simp add: render_attr_def)
  have e: "\<not> name_unit EQUALS" by (simp add: name_unit_def)
  have t: "takeWhile name_unit (fst a @ EQUALS # v) = fst a" "dropWhile name_unit (fst a @ EQUALS # v) = EQUALS # v" for v
    using n e by (simp_all add: takeWhile_append2 dropWhile_append2 takeWhile_eq_all_conv)
  have all: "\<forall>u\<in>set (snd a). u \<noteq> DOUBLE_QUOTE" using n(4) by auto
  have q: "takeWhile (\<lambda>u. u \<noteq> DOUBLE_QUOTE) (snd a @ DOUBLE_QUOTE # ?rest) = snd a"
    "dropWhile (\<lambda>u. u \<noteq> DOUBLE_QUOTE) (snd a @ DOUBLE_QUOTE # ?rest) = DOUBLE_QUOTE # ?rest"
    using all by (simp_all add: takeWhile_append2 dropWhile_append2)
  show ?case
    unfolding attributes.simps [of "concat (map render_attr (a # attrs))"] s Let_def t
    using n(1) q Cons by (simp add: attribute_value_def quote_mark_def)
qed (simp add: attributes.simps)

lemma attributes_trim:
  assumes "\<forall>a\<in>set attrs. attr_ok a"
  shows "attributes (trim (concat (map render_attr attrs))) = map (\<lambda>a. (toLowerCase (fst a), snd a)) attrs"
proof -
  let ?r = "concat (map render_attr attrs)"
  have "rev (dropWhile js_space ?r) = [] \<or> (\<exists>s. rev (dropWhile js_space ?r) = DOUBLE_QUOTE # s)"
  proof (cases attrs rule: rev_cases)
    case (snoc as a)
    then obtain s where "?r = s @ [DOUBLE_QUOTE]" by (simp add: render_attr_def)
    then show ?thesis by (simp add: dropWhile_append) (metis rev_rev_ident)
  qed simp
  then have "trim ?r = dropWhile js_space ?r"
    unfolding trim_def by (metis dropWhile.simps js_space_units(2) rev_rev_ident)
  then show ?thesis by (simp add: attributes_skip attributes_render [OF assms])
qed

lemma tags_from_plain:
  assumes "LESS \<notin> set s" and "html = pre @ s @ post"
  shows "tags_from html (length pre) line = tags_from html (length pre + length s) (line + newlines s)"
  using assms
proof (induction s arbitrary: pre line)
  case (Cons u s)
  have "html ! length pre = u" "length pre < length html" using Cons.prems by simp_all
  then have l: "tags_from html (length pre) line =
      tags_from html (length (pre @ [u])) (line + (if u = NEWLINE then 1 else 0))"
    using Cons.prems(1) by (subst tags_from.simps) auto
  have "LESS \<notin> set s" "html = (pre @ [u]) @ s @ post" using Cons.prems by auto
  from Cons.IH [OF this, of "line + (if u = NEWLINE then 1 else 0)"] show ?case unfolding l by (simp add: add.assoc)
qed simp

lemma tags_from_comment:
  assumes "piece_ok (Comment c)" and "html = pre @ render (Comment c) @ post"
  shows "\<exists>line'. tags_from html (length pre) line = tags_from html (length pre + length (render (Comment c))) line'"
proof -
  have d: "drop (length pre) html = render (Comment c) @ post" using assms(2) by simp
  have "find_text (js ''-->'') (drop (length pre) html) = Some (4 + length c)"
    unfolding d by (rule find_text_append) (use assms(1) in \<open>simp only: piece_ok.simps render.simps\<close>)
  moreover have "starts_with (drop (length pre) html) (js ''<!--'')"
    unfolding d by (simp add: starts_with_def)
  moreover have "length pre < length html" "html ! length pre = LESS" "LESS \<noteq> NEWLINE"
    using assms(2) by (simp_all add: nth_append units)
  ultimately show ?thesis
    by (subst tags_from.simps) (auto simp: Let_def add_ac numeral_eq_Suc simp del: js_simps)
qed

lemma tag_unit_facts: "tag_unit u \<Longrightarrow> u \<noteq> 0x21" "\<not> tag_unit 0x20" "\<not> tag_unit GREATER"
  by (auto simp: tag_unit_def units)

lemma tags_from_element:
  assumes "piece_ok (Element name attrs)" and "html = pre @ render (Element name attrs) @ post"
  shows "\<exists>region. tags_from html (length pre) line =
      (toLowerCase name, region, line) # tags_from html (length pre + length (render (Element name attrs)))
        (line + newlines (render (Element name attrs))) \<and>
    attributes region = map (\<lambda>a. (toLowerCase (fst a), snd a)) attrs"
proof -
  let ?attrs = "concat (map render_attr attrs)"
  have ok: "name \<noteq> []" "\<forall>u\<in>set name. tag_unit u" "\<forall>a\<in>set attrs. attr_ok a" using assms(1) by auto
  have at: "length pre < length html" "html ! length pre = LESS" "LESS \<noteq> NEWLINE"
    using assms(2) by (simp_all add: nth_append units)
  have "\<not> starts_with (drop (length pre) html) (js ''<!--'')"
    using ok(1,2) assms(2) tag_unit_facts(1) by (cases name) (auto simp: starts_with_def)
  have d: "drop (length pre + 1) html = name @ ?attrs @ GREATER # post" using assms(2) by simp
  have "?attrs @ GREATER # post \<noteq> [] \<and> \<not> tag_unit (hd (?attrs @ GREATER # post))"
    using tag_unit_facts(2,3) by (cases attrs) (simp_all add: render_attr_def)
  then have raw: "takeWhile tag_unit (drop (length pre + 1) html) = name"
    unfolding d using ok(2) by (cases "?attrs @ GREATER # post") (simp_all add: takeWhile_append2)
  have d2: "drop (length pre + 1 + length name) html = ?attrs @ GREATER # post" using assms(2) by simp
  have "tag_end None line (drop (length pre + 1 + length name) html) = Some (length ?attrs, line + newlines ?attrs)"
    unfolding d2 by (rule tag_end_attrs [OF ok(3)])
  then have "tags_from html (length pre) line = (toLowerCase name, trim ?attrs, line) #
      tags_from html (length pre + 1 + length name + length ?attrs + 1) (line + newlines ?attrs)"
    using at \<open>\<not> starts_with _ _\<close> ok(1) raw d2 by (subst tags_from.simps) (simp add: Let_def del: js_simps)
  moreover have "newlines name = 0" by (rule newlines_none) (use ok(2) in \<open>auto simp: tag_unit_def NEWLINE_def\<close>)
  moreover have "LESS \<noteq> NEWLINE" "GREATER \<noteq> NEWLINE" by (simp_all add: units)
  ultimately show ?thesis using attributes_trim [OF ok(3)] by (auto simp: add_ac)
qed

text \<open>
  The elements of a document, as the scan should see them: the name and the attributes, and the
  line an element starts on when the document starts on line \<open>line\<close>.
\<close>

fun placed :: "nat \<Rightarrow> piece list \<Rightarrow> ((jsstr \<times> (jsstr \<times> jsstr) list) \<times> nat) list" where
  "placed line [] = []"
| "placed line (p # ps) =
     (case p of
        Element name attrs \<Rightarrow> [((toLowerCase name, map (\<lambda>a. (toLowerCase (fst a), snd a)) attrs), line)]
      | _ \<Rightarrow> []) @ placed (line + newlines (render p)) ps"

definition elements :: "piece list \<Rightarrow> (jsstr \<times> (jsstr \<times> jsstr) list) list" where
  "elements ps = map fst (placed 1 ps)"

lemma placed_elements: "map fst (placed line ps) = elements ps"
proof -
  have "map fst (placed l ps) = map fst (placed l' ps)" for l l'
    by (induction ps arbitrary: l l') (auto split: piece.split)
  then show ?thesis by (simp add: elements_def)
qed

lemma elements_Cons:
  "elements (p # ps) =
     (case p of Element name attrs \<Rightarrow> [(toLowerCase name, map (\<lambda>a. (toLowerCase (fst a), snd a)) attrs)] | _ \<Rightarrow> []) @
     elements ps"
  using placed_elements [of 1 "p # ps"] placed_elements [of "1 + newlines (render p)" ps] by (auto split: piece.split)

definition is_comment :: "piece \<Rightarrow> bool" where
  "is_comment p = (case p of Comment _ \<Rightarrow> True | _ \<Rightarrow> False)"

text \<open>What a tag the scan visits is: its element, and its place.\<close>

definition seen :: "jsstr \<times> jsstr \<times> nat \<Rightarrow> (jsstr \<times> (jsstr \<times> jsstr) list) \<times> nat" where
  "seen tag = (case tag of (name, region, l) \<Rightarrow> ((name, attributes region), l))"

lemma tags_from_placed:
  assumes "list_all piece_ok ps" and "\<forall>p\<in>set ps. \<not> is_comment p" and "html = pre @ concat (map render ps) @ post"
  shows "map seen (tags_from html (length pre) line) = placed line ps @
    map seen (tags_from html (length (pre @ concat (map render ps))) (line + newlines (concat (map render ps))))"
  using assms
proof (induction ps arbitrary: pre line)
  case (Cons p ps)
  let ?post = "concat (map render ps) @ post"
  have split: "html = pre @ render p @ ?post" "html = (pre @ render p) @ ?post" using Cons.prems(3) by simp_all
  have ok: "piece_ok p" "list_all piece_ok ps" "\<forall>p\<in>set ps. \<not> is_comment p" using Cons.prems by simp_all
  note IH = Cons.IH [OF ok(2,3) split(2), of "line + newlines (render p)"]
  show ?case
  proof (cases p)
    case (Plain s)
    then show ?thesis using tags_from_plain [of s html pre ?post line] ok(1) split(1) IH by (simp add: add_ac)
  next
    case (Comment c)
    then show ?thesis using Cons.prems(2) by (simp add: is_comment_def)
  next
    case (Element name attrs)
    then obtain region where "tags_from html (length pre) line = (toLowerCase name, region, line) #
        tags_from html (length pre + length (render p)) (line + newlines (render p))"
      "attributes region = map (\<lambda>a. (toLowerCase (fst a), snd a)) attrs"
      using tags_from_element [of name attrs html pre ?post line] ok(1) split(1) by (auto simp del: render.simps piece_ok.simps)
    then show ?thesis using IH Element by (simp add: seen_def add_ac del: render.simps)
  qed
qed simp

lemma tags_from_render:
  assumes "list_all piece_ok ps" and "html = pre @ concat (map render ps) @ post"
  shows "\<exists>line'. map (fst \<circ> seen) (tags_from html (length pre) line) = elements ps @
    map (fst \<circ> seen) (tags_from html (length (pre @ concat (map render ps))) line')"
  using assms
proof (induction ps arbitrary: pre line)
  case Nil
  then show ?case by (auto simp: elements_def)
next
  case (Cons p ps)
  let ?post = "concat (map render ps) @ post"
  have split: "html = pre @ render p @ ?post" "html = (pre @ render p) @ ?post" using Cons.prems(2) by simp_all
  have ok: "piece_ok p" "list_all piece_ok ps" using Cons.prems(1) by simp_all
  note IH = Cons.IH [OF ok(2) split(2)]
  show ?case
  proof (cases "is_comment p")
    case True
    then obtain c where c: "p = Comment c" by (auto simp: is_comment_def split: piece.splits)
    then obtain l where "tags_from html (length pre) line = tags_from html (length pre + length (render p)) l"
      using tags_from_comment [of c html pre ?post line] ok(1) split(1) by (auto simp del: render.simps piece_ok.simps)
    then show ?thesis using IH [of l] c by (simp add: elements_Cons del: render.simps)
  next
    case False
    have one: "map (fst \<circ> seen) (tags_from html (length pre) line) = elements [p] @
        map (fst \<circ> seen) (tags_from html (length (pre @ render p)) (line + newlines (render p)))"
      using arg_cong [OF tags_from_placed [of "[p]" html pre ?post line], of "map fst"] ok(1) False split(1)
        placed_elements [of line "[p]"] by (simp del: render.simps piece_ok.simps placed.simps)
    have both: "elements (p # ps) = elements [p] @ elements ps"
      using elements_Cons [of p ps] elements_Cons [of p "[]"] by (simp add: elements_def del: placed.simps(2))
    obtain l where "map (fst \<circ> seen) (tags_from html (length (pre @ render p)) (line + newlines (render p))) = elements ps @
        map (fst \<circ> seen) (tags_from html (length ((pre @ render p) @ concat (map render ps))) l)"
      using IH by blast
    then show ?thesis unfolding one both by (intro exI [of _ l]) simp
  qed
qed

lemma tags_from_end: "tags_from html (length html) line = []"
  by (simp add: tags_from.simps)

lemma forEachTag_render:
  assumes "list_all piece_ok ps"
  shows "map (fst \<circ> seen) (forEachTag (concat (map render ps))) = elements ps"
    and "\<forall>p\<in>set ps. \<not> is_comment p \<Longrightarrow> map seen (forEachTag (concat (map render ps))) = placed 1 ps"
  unfolding forEachTag_def
  using tags_from_render [OF assms, of _ "[]" "[]" 1] tags_from_placed [OF assms, of _ "[]" "[]" 1] tags_from_end
  by simp_all

text \<open>What an unclosed comment hides: everything behind it.\<close>

lemma tags_from_unclosed:
  assumes "find_text (js ''-->'') (js ''<!--'' @ t) = None"
  shows "tags_from (pre @ js ''<!--'' @ t) (length pre) line = []"
  using assms by (subst tags_from.simps) (simp add: nth_append units starts_with_def)

lemma forEachTag_unclosed:
  assumes "list_all piece_ok ps" and "find_text (js ''-->'') (js ''<!--'' @ t) = None"
  shows "map (fst \<circ> seen) (forEachTag (concat (map render ps) @ js ''<!--'' @ t)) = elements ps"
  unfolding forEachTag_def
  using tags_from_render [OF assms(1), of _ "[]" "js ''<!--'' @ t" 1] tags_from_unclosed [OF assms(2)]
  by (simp del: js_simps)

subsection \<open>Properties\<close>

text \<open>What an element of the document breaks: the value of its first attribute of a name.\<close>

definition breaks :: "ScanRuleId \<Rightarrow> jsstr \<times> (jsstr \<times> jsstr) list \<Rightarrow> bool" where
  "breaks r el = (case el of (name, attrs) \<Rightarrow>
     (case r of
        speculative_link \<Rightarrow> name = js ''link'' \<and>
          (\<exists>v. attributeValue attrs (js ''rel'') = Some v \<and> toLowerCase v \<in> set SPECULATIVE_RELS)
      | meta_refresh \<Rightarrow> name = js ''meta'' \<and>
          (\<exists>v. attributeValue attrs (js ''http-equiv'') = Some v \<and> toLowerCase v = js ''refresh'')
      | service_worker \<Rightarrow> False))"

text \<open>The rules it breaks, and the findings for them.\<close>

definition broken :: "jsstr \<times> (jsstr \<times> jsstr) list \<Rightarrow> ScanRuleId list" where
  "broken el = filter (\<lambda>r. breaks r el) [speculative_link, meta_refresh]"

definition report :: "jsstr \<Rightarrow> (jsstr \<times> (jsstr \<times> jsstr) list) \<times> nat \<Rightarrow> ScanFinding list" where
  "report path p = concat (map (\<lambda>r. finding r path (snd p)) (broken (fst p)))"

definition worker_report :: "jsstr \<Rightarrow> jsstr \<Rightarrow> ScanFinding list" where
  "worker_report path s =
     (if registersServiceWorker s then
        finding service_worker path
          (max (lineOfFirst s (js ''serviceWorker.register'')) (lineOfFirst s (js ''serviceWorker'')))
      else [])"

lemma finding_rule: "map f_rule (finding r path line) = [r]"
  by (cases r) (simp_all add: finding_def SCAN_RULES_def)

lemma report_rules: "map f_rule (report path p) = broken (fst p)"
proof -
  have "map f_rule (concat (map (\<lambda>r. finding r path l) rs)) = rs" for l rs by (induction rs) (simp_all add: finding_rule)
  then show ?thesis by (simp add: report_def)
qed

lemma visit_tag_report: "visit_tag path tag = report path (seen tag)"
proof -
  obtain name region line where tag: "tag = (name, region, line)" by (cases tag)
  have "breaks_link region \<longleftrightarrow> (\<exists>v. attributeValue (attributes region) (js ''rel'') = Some v \<and>
      toLowerCase v \<in> set SPECULATIVE_RELS)"
    by (auto simp: breaks_link_def split: option.splits)
  moreover have "breaks_meta region \<longleftrightarrow> (\<exists>v. attributeValue (attributes region) (js ''http-equiv'') = Some v \<and>
      toLowerCase v = js ''refresh'')"
    by (auto simp: breaks_meta_def simp del: js_simps)
  moreover have "finding r path line \<noteq> []" for r by (metis finding_rule list.distinct(1) list.map_disc_iff)
  ultimately show ?thesis
    by (auto simp add: tag visit_tag_def report_def seen_def broken_def breaks_def simp del: js_simps)
qed

lemma scanDocument_report:
  assumes "ends_with (toLowerCase path) (js ''.html'')" and "text_decode_lossy bs = s"
  shows "scanDocument path bs =
    sort_key f_line (concat (map (report path) (map seen (forEachTag s))) @ worker_report path s)"
proof -
  have "map (visit_tag path) (forEachTag s) = map (report path) (map seen (forEachTag s))"
    by (simp add: visit_tag_report)
  then show ?thesis using assms by (simp add: scanDocument_def Let_def worker_report_def del: js_simps map_map)
qed

lemma scanDocument_rules:
  assumes "ends_with (toLowerCase path) (js ''.html'')" and "text_decode_lossy bs = s"
    and "map (fst \<circ> seen) (forEachTag s) = els"
  shows "mset (map f_rule (scanDocument path bs)) =
    mset (concat (map broken els)) + (if registersServiceWorker s then {#service_worker#} else {#})"
proof -
  have "map f_rule (concat (map (report path) ts)) = concat (map broken (map fst ts))" for ts
    by (induction ts) (simp_all add: report_rules)
  from this [of "map seen (forEachTag s)"]
  have "map f_rule (concat (map (report path) (map seen (forEachTag s)))) = concat (map broken els)"
    by (simp only: map_map assms(3) [unfolded comp_def] comp_def)
  moreover have "map f_rule (worker_report path s) = (if registersServiceWorker s then [service_worker] else [])"
    by (simp add: worker_report_def finding_rule)
  moreover have sorted: "mset (map f_rule (sort_key f_line fs)) = mset (map f_rule fs)" for fs by (simp add: mset_map)
  ultimately show ?thesis
    unfolding scanDocument_report [OF assms(1,2)] sorted map_append mset_append by (simp only: mset.simps split: if_split) simp
qed

lemma broken_none: "broken el = [] \<longleftrightarrow> \<not> breaks speculative_link el \<and> \<not> breaks meta_refresh el"
  by (simp add: broken_def)

text \<open>
  C29. The scan is exact on documents written the plain way. For a page whose text is made of text, of
  comments and of elements with quoted attribute values, in any order and number, the scan reports
  each rule once for every element that breaks it, and the service-worker rule once when the text
  registers one: nothing is missed inside or behind comments, attributes or other tags, nothing is
  reported twice or that is not there. The page is served exactly when no rule is broken. When the
  page has no comments, the whole list of findings is known, in its order and with the line each
  offending element starts on; behind a comment the line can be wrong (\<open>scan_line_wrong\<close>).
\<close>

theorem scan_exact:
  assumes "ends_with (toLowerCase path) (js ''.html'')"
    and "text_decode_lossy bs = concat (map render ps)" and "list_all piece_ok ps"
  shows "mset (map f_rule (scanDocument path bs)) = mset (concat (map broken (elements ps))) +
      (if registersServiceWorker (concat (map render ps)) then {#service_worker#} else {#}) \<and>
    (scanDocument path bs = [] \<longleftrightarrow>
      (\<forall>el \<in> set (elements ps). \<not> breaks speculative_link el \<and> \<not> breaks meta_refresh el) \<and>
      \<not> registersServiceWorker (concat (map render ps))) \<and>
    ((\<forall>p\<in>set ps. \<not> is_comment p) \<longrightarrow> scanDocument path bs =
      sort_key f_line (concat (map (report path) (placed 1 ps)) @ worker_report path (concat (map render ps))))"
proof (intro conjI impI)
  note rules = scanDocument_rules [OF assms(1,2) forEachTag_render(1) [OF assms(3)]]
  then show "mset (map f_rule (scanDocument path bs)) = mset (concat (map broken (elements ps))) +
      (if registersServiceWorker (concat (map render ps)) then {#service_worker#} else {#})" .
  have "scanDocument path bs = [] \<longleftrightarrow> mset (map f_rule (scanDocument path bs)) = {#}" by simp
  also have "\<dots> \<longleftrightarrow> concat (map broken (elements ps)) = [] \<and> \<not> registersServiceWorker (concat (map render ps))"
    unfolding rules by simp
  finally show "scanDocument path bs = [] \<longleftrightarrow>
      (\<forall>el \<in> set (elements ps). \<not> breaks speculative_link el \<and> \<not> breaks meta_refresh el) \<and>
      \<not> registersServiceWorker (concat (map render ps))"
    by (auto simp: broken_none)
next
  assume "\<forall>p\<in>set ps. \<not> is_comment p"
  note forEachTag_render(2) [OF assms(3) this]
  then show "scanDocument path bs =
      sort_key f_line (concat (map (report path) (placed 1 ps)) @ worker_report path (concat (map render ps)))"
    unfolding scanDocument_report [OF assms(1,2)] by (simp only:)
qed

text \<open>
  A comment the scan does not see closed hides the rest of the page. Whatever page stands before it
  and whatever text \<open>
  C30. t\<close> follows its opening mark, unless \<open>t\<close> holds \<open>-->\<close> the findings for elements are
  those of the page before it alone. A browser ends the comment at \<open>--!>\<close> already, so every
  element after that mark reaches the reader and none is looked at.
\<close>

theorem unclosed_comment_hides:
  assumes "ends_with (toLowerCase path) (js ''.html'')" and "list_all piece_ok ps"
    and "text_decode_lossy bs = concat (map render ps) @ js ''<!--'' @ t"
    and "find_text (js ''-->'') (js ''<!--'' @ t) = None"
  shows "mset (map f_rule (scanDocument path bs)) = mset (concat (map broken (elements ps))) +
      (if registersServiceWorker (concat (map render ps) @ js ''<!--'' @ t) then {#service_worker#} else {#})"
  by (rule scanDocument_rules [OF assms(1,3) forEachTag_unclosed [OF assms(2,4)]])

definition sample_page :: "piece list" where
  "sample_page = [Plain (js ''hi'' @ [NEWLINE]), Element (js ''LINK'') [(js ''Rel'', js ''Preload''), (js ''href'', js ''//t'')]]"

theorem scan_exact_witness:
  "map (\<lambda>f. (f_rule f, f_line f)) (scanDocument (js ''/a.html'') (text_encode (concat (map render sample_page)))) =
     [(speculative_link, 2)]"
proof -
  have ascii: "is_ascii (concat (map render sample_page))"
    by (simp add: sample_page_def render_attr_def units is_ascii_def)
  have dec: "text_decode_lossy (text_encode (concat (map render sample_page))) = concat (map render sample_page)"
    using text_decode_lossy_encode well_formed_ascii [OF ascii] by blast
  have path: "ends_with (toLowerCase (js ''/a.html'')) (js ''.html'')"
    by (simp add: ends_with_def toLowerCase_def lower_unit_def)
  have ok: "list_all piece_ok sample_page"
    by (simp add: sample_page_def attr_ok_def units tag_unit_def js_space_def)
  have "\<not> registersServiceWorker (concat (map render sample_page))"
    by (simp add: sample_page_def render_attr_def units registersServiceWorker_def includes_text_def starts_with_def)
  then have none: "worker_report p (concat (map render sample_page)) = []" for p by (simp add: worker_report_def)
  have "\<forall>p\<in>set sample_page. \<not> is_comment p" by (simp add: sample_page_def is_comment_def)
  with scan_exact [OF path dec ok] have "scanDocument (js ''/a.html'') (text_encode (concat (map render sample_page))) =
      sort_key f_line (concat (map (report (js ''/a.html'')) (placed 1 sample_page)) @ [])"
    unfolding none by blast
  also have "\<dots> = report (js ''/a.html'')
      ((js ''link'', [(js ''rel'', js ''Preload''), (js ''href'', js ''//t'')]), 2)"
    by (simp add: sample_page_def toLowerCase_def lower_unit_def newlines_def units report_def broken_def breaks_def
        attributeValue_def SPECULATIVE_RELS_def finding_def SCAN_RULES_def)
  finally show ?thesis
    by (simp add: report_def broken_def breaks_def attributeValue_def SPECULATIVE_RELS_def toLowerCase_def
        lower_unit_def finding_def SCAN_RULES_def)
qed

abbreviation scan_page :: "jsstr \<Rightarrow> ScanFinding list" where
  "scan_page s \<equiv> scanDocument (js ''/index.html'') (text_encode s)"

lemma scan_page_ascii:
  assumes "is_ascii s"
  shows "scan_page s = sort_key f_line (concat (map (visit_tag (js ''/index.html'')) (forEachTag s)) @
     (if registersServiceWorker s then
        finding service_worker (js ''/index.html'')
          (max (lineOfFirst s (js ''serviceWorker.register'')) (lineOfFirst s (js ''serviceWorker'')))
      else []))"
proof -
  have "text_decode_lossy (text_encode s) = s"
    using text_decode_lossy_encode well_formed_ascii [OF assms] by blast
  moreover have "ends_with (toLowerCase (js ''/index.html'')) (js ''.html'')"
    by (simp add: ends_with_def toLowerCase_def lower_unit_def)
  ultimately show ?thesis by (simp add: scanDocument_def Let_def del: js_simps)
qed

lemmas scan_eval = forEachTag_def tags_from.simps units tag_unit_def starts_with_def attributes.simps
  attribute_value_def attributeValue_def trim_def js_space_def toLowerCase_def lower_unit_def
  visit_tag_def breaks_link_def breaks_meta_def SPECULATIVE_RELS_def registersServiceWorker_def
  includes_text_def is_ascii_def finding_def SCAN_RULES_def Let_def

lemma scan_plain: "map f_rule (scan_page (js ''<link rel=preload href=//t>'')) = [speculative_link]"
  by (subst scan_page_ascii) (simp_all add: scan_eval)

lemma scan_space: "scan_page (js ''<link rel = preload href=//t>'') = []"
  by (subst scan_page_ascii) (simp_all add: scan_eval)

lemma scan_keywords: "scan_page (js ''<link rel=\"icon preload\" href=//t>'') = []"
  by (subst scan_page_ascii) (simp_all add: scan_eval)

lemma scan_slash: "scan_page (js ''<link/rel=preload href=//t>'') = []"
  by (subst scan_page_ascii) (simp_all add: scan_eval)

lemma scan_apostrophe: "scan_page (js (''<p title=it'' @ CHR 0x27 # ''s><link rel=preload href=//t>'')) = []"
  by (subst scan_page_ascii) (simp_all add: scan_eval)

theorem unclosed_comment_hides_witness: "scan_page (js ''<!-- --!><link rel=preload href=//t>'') = []"
proof -
  let ?page = "js ''<!-- --!><link rel=preload href=//t>''"
  have page: "?page = concat (map render []) @ js ''<!--'' @ js '' --!><link rel=preload href=//t>''" by simp
  have "is_ascii ?page" by (simp add: is_ascii_def)
  then have "text_decode_lossy (text_encode ?page) = ?page" using text_decode_lossy_encode well_formed_ascii by blast
  then have dec: "text_decode_lossy (text_encode ?page) =
      concat (map render []) @ js ''<!--'' @ js '' --!><link rel=preload href=//t>''" unfolding page .
  have path: "ends_with (toLowerCase (js ''/index.html'')) (js ''.html'')"
    by (simp add: ends_with_def toLowerCase_def lower_unit_def)
  have open_: "find_text (js ''-->'') (js ''<!--'' @ js '' --!><link rel=preload href=//t>'') = None"
    by (simp add: starts_with_def)
  have "\<not> registersServiceWorker (concat (map render []) @ js ''<!--'' @ js '' --!><link rel=preload href=//t>'')"
    by (simp add: registersServiceWorker_def includes_text_def starts_with_def)
  then show ?thesis
    using unclosed_comment_hides [OF path _ dec open_] by (simp add: elements_def del: js_simps)
qed

text \<open>A violation behind a comment is reported on a line below its own.\<close>

lemma scan_line_wrong:
  "map f_line (scan_page (js ''<p>'' @ NEWLINE # js ''<!---->'' @ NEWLINE # js ''<link rel=preload>'')) = [4]"
  by (subst scan_page_ascii) (simp_all add: scan_eval newlines_def)

end
