(* ===== verification/Json.thy ===== *)
theory Json
  imports Utf8
begin

section \<open>JSON texts\<close>

text \<open>
  What the program uses of \<open>JSON.parse\<close>: the grammar of JSON on UTF-16 code units, with \<open>None\<close> for
  the texts it throws at. A number keeps its digits and its decimal exponent; the double it reads as
  is only ever compared with 1. The parser of nested values takes fuel, and \<open>json_fuel\<close> shows that
  more than twice the length of the text changes nothing.
\<close>

datatype json =
  JNull | JBool bool | JNumber bool nat int | JString jsstr | JArray "json list"
| JObject "(jsstr \<times> json) list"

text \<open>\<open>JNumber negative digits e\<close> stands for \<open>digits * 10 ^ e\<close>, negated when \<open>negative\<close>.\<close>

definition json_space :: "16 word \<Rightarrow> bool" where
  "json_space u \<longleftrightarrow> u \<in> {0x09, 0x0A, 0x0D, 0x20}"

definition skip_space :: "jsstr \<Rightarrow> jsstr" where
  "skip_space s = dropWhile json_space s"

definition json_digit :: "16 word \<Rightarrow> bool" where
  "json_digit u \<longleftrightarrow> 0x30 \<le> u \<and> u \<le> 0x39"

definition digits_value :: "jsstr \<Rightarrow> nat" where
  "digits_value s = foldl (\<lambda>acc u. acc * 10 + (unat u - 0x30)) 0 s"

subsection \<open>Numbers\<close>

definition json_int :: "jsstr \<Rightarrow> (jsstr \<times> jsstr) option" where
  "json_int s =
     (let ds = takeWhile json_digit s in
      if ds = [] then None
      else if hd ds = 0x30 then Some ([0x30], drop 1 s)
      else Some (ds, dropWhile json_digit s))"

definition json_fraction :: "jsstr \<Rightarrow> (jsstr \<times> jsstr) option" where
  "json_fraction s =
     (case s of
        c # s' \<Rightarrow>
          if c = 0x2E then
            (if takeWhile json_digit s' = [] then None
             else Some (takeWhile json_digit s', dropWhile json_digit s'))
          else Some ([], s)
      | [] \<Rightarrow> Some ([], []))"

definition json_exponent :: "jsstr \<Rightarrow> (int \<times> jsstr) option" where
  "json_exponent s =
     (case s of
        c # s' \<Rightarrow>
          if c = 0x65 \<or> c = 0x45 then
            (let (negative, t) = (case s' of
                 d # t \<Rightarrow> if d = 0x2D then (True, t) else if d = 0x2B then (False, t) else (False, s')
               | [] \<Rightarrow> (False, []))
             in if takeWhile json_digit t = [] then None
                else Some ((if negative then -1 else 1) * int (digits_value (takeWhile json_digit t)),
                  dropWhile json_digit t))
          else Some (0, s)
      | [] \<Rightarrow> Some (0, []))"

definition json_number :: "jsstr \<Rightarrow> (json \<times> jsstr) option" where
  "json_number s =
     (let (negative, t) = (case s of c # s' \<Rightarrow> if c = 0x2D then (True, s') else (False, s) | [] \<Rightarrow> (False, []))
      in case json_int t of
           None \<Rightarrow> None
         | Some (whole, t1) \<Rightarrow>
             (case json_fraction t1 of
                None \<Rightarrow> None
              | Some (frac, t2) \<Rightarrow>
                  (case json_exponent t2 of
                     None \<Rightarrow> None
                   | Some (e, rest) \<Rightarrow>
                       Some (JNumber negative (digits_value (whole @ frac)) (e - int (length frac)), rest))))"

text \<open>
  Whether a number reads as the double 1: the doubles next to 1 are $1 - 2^{-53}$ and
  $1 + 2^{-52}$, and a number half way between two doubles goes to the even one, which is 1.
\<close>

definition reads_as_one :: "json \<Rightarrow> bool" where
  "reads_as_one j =
     (case j of
        JNumber negative n e \<Rightarrow>
          \<not> negative \<and>
          (if e \<ge> 0 then n * 10 ^ nat e = 1
           else 10 ^ nat (- e) * (2 ^ 54 - 1) \<le> n * 2 ^ 54 \<and> n * 2 ^ 54 \<le> 10 ^ nat (- e) * (2 ^ 54 + 2))
      | _ \<Rightarrow> False)"

subsection \<open>Strings\<close>

definition hex_value :: "16 word \<Rightarrow> nat option" where
  "hex_value u =
     (if 0x30 \<le> u \<and> u \<le> 0x39 then Some (unat u - 0x30)
      else if 0x41 \<le> u \<and> u \<le> 0x46 then Some (unat u - 0x37)
      else if 0x61 \<le> u \<and> u \<le> 0x66 then Some (unat u - 0x57)
      else None)"

definition json_escape :: "16 word \<Rightarrow> 16 word option" where
  "json_escape u =
     (if u \<in> {0x22, 0x5C, 0x2F} then Some u
      else if u = 0x62 then Some 0x08
      else if u = 0x66 then Some 0x0C
      else if u = 0x6E then Some 0x0A
      else if u = 0x72 then Some 0x0D
      else if u = 0x74 then Some 0x09
      else None)"

text \<open>The characters after an opening quote up to the closing one.\<close>

fun json_chars :: "jsstr \<Rightarrow> (jsstr \<times> jsstr) option" where
  "json_chars [] = None"
| "json_chars (u # s) =
     (if u = 0x22 then Some ([], s)
      else if u < 0x20 then None
      else if u = 0x5C then
        (case s of
           [] \<Rightarrow> None
         | v # s' \<Rightarrow>
             if v = 0x75 then
               (case s' of
                  a # b # c # d # s'' \<Rightarrow>
                    (case (hex_value a, hex_value b, hex_value c, hex_value d) of
                       (Some p, Some q, Some r, Some t) \<Rightarrow>
                         map_option (map_prod (Cons (of_nat (((p * 16 + q) * 16 + r) * 16 + t))) id) (json_chars s'')
                     | _ \<Rightarrow> None)
                | _ \<Rightarrow> None)
             else
               (case json_escape v of
                  None \<Rightarrow> None
                | Some w \<Rightarrow> map_option (map_prod (Cons w) id) (json_chars s')))
      else map_option (map_prod (Cons u) id) (json_chars s))"

subsection \<open>Values\<close>

definition json_literal :: "string \<Rightarrow> json \<Rightarrow> jsstr \<Rightarrow> (json \<times> jsstr) option" where
  "json_literal word j s = (if starts_with s (js word) then Some (j, drop (length word) s) else None)"

fun json_value :: "nat \<Rightarrow> jsstr \<Rightarrow> (json \<times> jsstr) option"
  and json_elements :: "nat \<Rightarrow> jsstr \<Rightarrow> (json list \<times> jsstr) option"
  and json_members :: "nat \<Rightarrow> jsstr \<Rightarrow> ((jsstr \<times> json) list \<times> jsstr) option" where
  "json_value 0 s = None"
| "json_value (Suc n) s =
     (case skip_space s of
        [] \<Rightarrow> None
      | c # s' \<Rightarrow>
          if c = 0x7B then
            (case skip_space s' of
               d # t \<Rightarrow>
                 if d = 0x7D then Some (JObject [], t)
                 else map_option (map_prod JObject id) (json_members n (d # t))
             | [] \<Rightarrow> None)
          else if c = 0x5B then
            (case skip_space s' of
               d # t \<Rightarrow>
                 if d = 0x5D then Some (JArray [], t)
                 else map_option (map_prod JArray id) (json_elements n (d # t))
             | [] \<Rightarrow> None)
          else if c = 0x22 then map_option (map_prod JString id) (json_chars s')
          else if c = 0x74 then json_literal ''true'' (JBool True) (c # s')
          else if c = 0x66 then json_literal ''false'' (JBool False) (c # s')
          else if c = 0x6E then json_literal ''null'' JNull (c # s')
          else json_number (c # s'))"
| "json_elements 0 s = None"
| "json_elements (Suc n) s =
     (case json_value n s of
        None \<Rightarrow> None
      | Some (v, s') \<Rightarrow>
          (case skip_space s' of
             [] \<Rightarrow> None
           | c # t \<Rightarrow>
               if c = 0x5D then Some ([v], t)
               else if c = 0x2C then map_option (map_prod (Cons v) id) (json_elements n t)
               else None))"
| "json_members 0 s = None"
| "json_members (Suc n) s =
     (case skip_space s of
        [] \<Rightarrow> None
      | q # s1 \<Rightarrow>
          if q \<noteq> 0x22 then None
          else
            (case json_chars s1 of
               None \<Rightarrow> None
             | Some (key, s2) \<Rightarrow>
                 (case skip_space s2 of
                    [] \<Rightarrow> None
                  | colon # s3 \<Rightarrow>
                      if colon \<noteq> 0x3A then None
                      else
                        (case json_value n s3 of
                           None \<Rightarrow> None
                         | Some (v, s4) \<Rightarrow>
                             (case skip_space s4 of
                                [] \<Rightarrow> None
                              | c # t \<Rightarrow>
                                  if c = 0x7D then Some ([(key, v)], t)
                                  else if c = 0x2C then map_option (map_prod (Cons (key, v)) id) (json_members n t)
                                  else None)))))"

definition JSON_parse :: "jsstr \<Rightarrow> json option" where
  "JSON_parse s =
     (case json_value (2 * length s + 2) s of
        Some (v, rest) \<Rightarrow> if skip_space rest = [] then Some v else None
      | None \<Rightarrow> None)"

text \<open>A property of a parsed object: of equal keys the last one counts.\<close>

definition json_get :: "(jsstr \<times> json) list \<Rightarrow> jsstr \<Rightarrow> json option" where
  "json_get members key = map_of (rev members) key"

subsection \<open>The fuel\<close>

lemma skip_space_length: "length (skip_space s) \<le> length s"
  by (simp add: skip_space_def length_dropWhile_le)

lemma skip_space_Cons: "skip_space s = c # t \<Longrightarrow> length t < length s"
  using skip_space_length [of s] by simp

lemma json_chars_length: "json_chars s = Some (cs, r) \<Longrightarrow> length r < length s"
  by (induction s arbitrary: cs r rule: json_chars.induct)
    (force split: if_splits list.splits option.splits prod.splits)+

lemma json_exponent_length: "json_exponent s = Some (e, r) \<Longrightarrow> length r \<le> length s"
  using length_dropWhile_le le_SucI
  by (fastforce simp: json_exponent_def split: list.splits if_splits prod.splits intro: le_trans)

lemma json_fraction_length: "json_fraction s = Some (f, r) \<Longrightarrow> length r \<le> length s"
  by (auto simp: json_fraction_def length_dropWhile_le le_SucI split: list.splits if_splits)

lemma json_int_length: "json_int s = Some (i, r) \<Longrightarrow> length r < length s"
proof -
  have "length (dropWhile json_digit s) < length s" if "takeWhile json_digit s \<noteq> []"
    using that length_dropWhile_le [of json_digit "tl s"] by (cases s) (auto split: if_splits)
  moreover have "length (drop 1 s) < length s" if "takeWhile json_digit s \<noteq> []"
    using that by (cases s) auto
  ultimately show "json_int s = Some (i, r) \<Longrightarrow> length r < length s"
    by (auto simp: json_int_def Let_def split: if_splits)
qed

lemma json_number_length: "json_number s = Some (v, r) \<Longrightarrow> length r < length s"
  by (fastforce simp: json_number_def Let_def split: option.splits prod.splits list.splits if_splits
      dest!: json_int_length json_fraction_length json_exponent_length)

lemma json_literal_length: "json_literal w j s = Some (v, r) \<Longrightarrow> w \<noteq> [] \<Longrightarrow> length r < length s"
  by (cases w; cases s) (auto simp: json_literal_def starts_with_def split: if_splits)

lemma json_consumes:
  shows "json_value n s = Some (v, r) \<Longrightarrow> length r < length s"
    and "json_elements n s = Some (vs, r) \<Longrightarrow> length r < length s"
    and "json_members n s = Some (ms, r) \<Longrightarrow> length r < length s"
proof (induction n s and n s and n s arbitrary: v r and vs r and ms r rule: json_value_json_elements_json_members.induct)
  case (2 n s)
  then obtain c s' where s: "skip_space s = c # s'" by (auto split: list.splits)
  note l = skip_space_length [of s] skip_space_length [of s'] s
  show ?case
    using 2 l by (fastforce split: list.splits if_splits
        dest: json_chars_length json_number_length json_literal_length)
next
  case (4 n s)
  then show ?case
    by (fastforce split: option.splits prod.splits list.splits if_splits dest: skip_space_Cons)
next
  case (6 n s)
  then show ?case
    by (fastforce split: option.splits prod.splits list.splits if_splits dest: skip_space_Cons json_chars_length)
qed simp_all

lemma json_fuel:
  shows "2 * length s < n \<Longrightarrow> json_value (Suc n) s = json_value n s"
    and "2 * length s + 1 < n \<Longrightarrow> json_elements (Suc n) s = json_elements n s"
    and "2 * length s + 1 < n \<Longrightarrow> json_members (Suc n) s = json_members n s"
proof (induction n s and n s and n s rule: json_value_json_elements_json_members.induct)
  case (2 n s)
  note IH = 2
  show ?case
  proof (cases "skip_space s")
    case (Cons c s')
    then have l: "length (skip_space s') < length s"
      using skip_space_Cons [OF Cons] skip_space_length [of s'] by simp
    show ?thesis
    proof (cases "skip_space s'")
      case Nil
      then show ?thesis using Cons by simp
    next
      case (Cons d t)
      have len: "2 * length (d # t) + 1 < n" using l Cons IH(3) by simp
      note del = json_value.simps json_elements.simps json_members.simps
      have m: "json_members (Suc n) (d # t) = json_members n (d # t)" if "c = 0x7B" "d \<noteq> 0x7D"
        by (rule IH(1) [OF \<open>skip_space s = c # s'\<close> that(1) Cons that(2) len])
      have e: "json_elements (Suc n) (d # t) = json_elements n (d # t)" if "c \<noteq> 0x7B" "c = 0x5B" "d \<noteq> 0x5D"
        by (rule IH(2) [OF \<open>skip_space s = c # s'\<close> that(1,2) Cons that(3) len])
      show ?thesis
        unfolding json_value.simps(2) [of "Suc n"] json_value.simps(2) [of n] \<open>skip_space s = c # s'\<close> list.case Cons
        using m e by (simp del: del split del: if_split cong: if_cong)
    qed
  qed simp
next
  case (4 n s)
  have v: "json_value (Suc n) s = json_value n s" using 4 by simp
  have "json_elements (Suc n) t = json_elements n t"
    if "json_value n s = Some (x, s')" "skip_space s' = c # t" "c \<noteq> 0x5D" "c = 0x2C" for x s' c t
    using 4 that json_consumes(1) [OF that(1)] skip_space_Cons [OF that(2)] by fastforce
  then show ?case
    unfolding json_elements.simps(2) [of "Suc n"] json_elements.simps(2) [of n] v
    by (auto split: option.split prod.split list.split)
next
  case (6 n s)
  have v: "json_value (Suc n) s3 = json_value n s3"
    if "skip_space s = q # s1" "json_chars s1 = Some (key, s2)" "skip_space s2 = col # s3" "q = 0x22" "col = 0x3A"
    for q s1 key s2 col s3
    using 6 that skip_space_Cons [OF that(1)] json_chars_length [OF that(2)] skip_space_Cons [OF that(3)] by fastforce
  have m: "json_members (Suc n) t = json_members n t"
    if "skip_space s = q # s1" "json_chars s1 = Some (key, s2)" "skip_space s2 = col # s3" "q = 0x22" "col = 0x3A"
      "json_value n s3 = Some (x, s4)" "skip_space s4 = c # t" "c \<noteq> 0x7D" "c = 0x2C"
    for q s1 key s2 col s3 x s4 c t
    using 6 that skip_space_Cons [OF that(1)] json_chars_length [OF that(2)] skip_space_Cons [OF that(3)]
      json_consumes(1) [OF that(6)] skip_space_Cons [OF that(7)] by fastforce
  show ?case
    unfolding json_members.simps(2) [of "Suc n"] json_members.simps(2) [of n]
    using v m by (auto split: option.split prod.split list.split)
qed simp_all

lemma json_more_fuel: "2 * length s < n \<Longrightarrow> n \<le> m \<Longrightarrow> json_value m s = json_value n s"
  by (induction m) (auto simp: json_fuel(1) le_Suc_eq simp del: json_value.simps)

end
