(* ===== verification/Manifest.thy ===== *)
theory Manifest
  imports Json Cache
begin

section \<open>The site manifest\<close>

text \<open>
  \<open>parseManifest\<close> and \<open>declaredPath\<close> of registry/src/resolve.ts: what the resolver reads of
  \<open>.vayu/manifest.json\<close>.
\<close>

definition MANIFEST_PATH :: jsstr where "MANIFEST_PATH = js ''/.vayu/manifest.json''"
definition MAX_MANIFEST_BYTES :: nat where "MAX_MANIFEST_BYTES = 8192"
definition MAX_DECLARED_PATH :: nat where "MAX_DECLARED_PATH = 512"

text \<open>\<open>s.includes(p)\<close>.\<close>

definition text_includes :: "jsstr \<Rightarrow> jsstr \<Rightarrow> bool" where
  "text_includes s p \<longleftrightarrow> find_text p s \<noteq> None"

definition declaredPath :: "json option \<Rightarrow> jsstr option" where
  "declaredPath v =
     (case v of
        Some (JString s) \<Rightarrow>
          if length s = 0 \<or> length s > MAX_DECLARED_PATH then None
          else if starts_with s (js ''/'') \<or> text_includes s (js ''..'') then None
          else if 0x00 \<in> set s \<or> 0x0A \<in> set s \<or> 0x0D \<in> set s then None
          else Some s
      | _ \<Rightarrow> None)"

definition parseManifest :: "bytes \<Rightarrow> SiteManifest option" where
  "parseManifest bs =
     (if length bs = 0 \<or> length bs > MAX_MANIFEST_BYTES then None
      else
        case Option.bind (text_decode bs) JSON_parse of
          Some (JObject members) \<Rightarrow>
            (case json_get members (js ''version'') of
               Some v \<Rightarrow>
                 if \<not> reads_as_one v then None
                 else Some \<lparr>m_index = declaredPath (json_get members (js ''index'')),
                   m_fallback = declaredPath (json_get members (js ''fallback'')),
                   m_notFound = declaredPath (json_get members (js ''notFound''))\<rparr>
             | None \<Rightarrow> None)
        | _ \<Rightarrow> None)"

text \<open>A declared path stays below the root: relative, without a parent step, without control breaks.\<close>

definition path_stays :: "jsstr \<Rightarrow> bool" where
  "path_stays p \<longleftrightarrow>
     p \<noteq> [] \<and> length p \<le> 512 \<and> \<not> starts_with p (js ''/'') \<and> \<not> text_includes p (js ''..'') \<and>
     0x00 \<notin> set p \<and> 0x0A \<notin> set p \<and> 0x0D \<notin> set p"

lemma declaredPath_stays: "declaredPath v = Some p \<Longrightarrow> path_stays p"
  by (auto simp: declaredPath_def path_stays_def MAX_DECLARED_PATH_def split: option.splits json.splits if_splits)

lemma parseManifest_stays:
  assumes "parseManifest bs = Some m" and "p \<in> set_option (m_index m) \<union> set_option (m_fallback m) \<union> set_option (m_notFound m)"
  shows "path_stays p"
  using assms by (auto simp: parseManifest_def declaredPath_stays split: if_splits option.splits json.splits)

end
