(* ===== verification/Proxy.thy ===== *)
theory Proxy
  imports Resolve Content Scan Manifest
begin

section \<open>The browsing proxy\<close>

text \<open>
  registry/src/proxy.ts: from an HTTP request to a response. \<open>handleRequest\<close> is a function of the
  request, the registry's ports, the cache, the clock and the options, as in the source; the content
  layer and the IPNS resolver are functions the options may hold, which answer alike during one
  request. Header names and values are texts, and header maps keep the order they were set in.
\<close>

subsection \<open>Headers\<close>

definition DEFAULT_CSP :: jsstr where
  "DEFAULT_CSP = js
  (''default-src 'none'; script-src 'self'; style-src 'self'; img-src 'self'; '' @
   ''font-src 'self'; media-src 'self'; connect-src 'self'; manifest-src 'self'; '' @
   ''worker-src 'none'; child-src 'none'; frame-src 'none'; object-src 'none'; '' @
   ''frame-ancestors 'none'; form-action 'self'; base-uri 'none'; webrtc 'block'; '' @
   ''require-trusted-types-for 'script'; trusted-types 'none'' @ [CHR 0x27])"

definition PERMISSIONS_POLICY :: jsstr where
  "PERMISSIONS_POLICY = js
  (''accelerometer=(), ambient-light-sensor=(), attribution-reporting=(), autoplay=(), '' @
   ''battery=(), bluetooth=(), browsing-topics=(), camera=(), clipboard-read=(), '' @
   ''clipboard-write=(), compute-pressure=(), display-capture=(), encrypted-media=(), '' @
   ''fullscreen=(), gamepad=(), geolocation=(), gyroscope=(), hid=(), '' @
   ''identity-credentials-get=(), idle-detection=(), join-ad-interest-group=(), '' @
   ''language-detector=(), local-fonts=(), magnetometer=(), microphone=(), midi=(), '' @
   ''otp-credentials=(), payment=(), picture-in-picture=(), '' @
   ''private-state-token-issuance=(), private-state-token-redemption=(), '' @
   ''publickey-credentials-create=(), publickey-credentials-get=(), run-ad-auction=(), '' @
   ''screen-wake-lock=(), serial=(), shared-storage=(), shared-storage-select-url=(), '' @
   ''speaker-selection=(), storage-access=(), summarizer=(), translator=(), usb=(), '' @
   ''web-share=(), window-management=(), xr-spatial-tracking=()'')"

definition SECURITY_HEADERS :: "(jsstr, jsstr) jsmap" where
  "SECURITY_HEADERS =
    [(js ''content-security-policy'', DEFAULT_CSP),
     (js ''permissions-policy'', PERMISSIONS_POLICY),
     (js ''referrer-policy'', js ''no-referrer''),
     (js ''x-content-type-options'', js ''nosniff''),
     (js ''x-frame-options'', js ''DENY''),
     (js ''x-dns-prefetch-control'', js ''off''),
     (js ''cache-control'', js ''no-store''),
     (js ''cross-origin-opener-policy'', js ''same-origin''),
     (js ''cross-origin-embedder-policy'', js ''require-corp''),
     (js ''cross-origin-resource-policy'', js ''same-origin''),
     (js ''origin-agent-cluster'', js ''?1'')]"

definition FORBIDDEN_RESPONSE_HEADERS :: "jsstr list" where
  "FORBIDDEN_RESPONSE_HEADERS =
    [js ''access-control-allow-private-network'', js ''access-control-allow-origin'', js ''server'',
     js ''x-powered-by'', js ''via'']"

definition DIAGNOSTIC_HEADERS :: "jsstr list" where
  "DIAGNOSTIC_HEADERS =
    [js ''x-vayuweb-name'', js ''x-vayuweb-seq'', js ''x-vayuweb-cid'', js ''x-vayuweb-source'',
     js ''x-vayuweb-resolved-from'', js ''x-vayuweb-stale'', js ''x-vayuweb-fallbacks'']"

record proxy_limits =
  hostBytes :: nat
  targetBytes :: nat

definition PROXY_LIMITS :: proxy_limits where
  "PROXY_LIMITS = \<lparr>hostBytes = MAX_LABEL_LENGTH + 1 + MAX_TLD_LENGTH, targetBytes = 2048\<rparr>"

record ProxyRequest =
  q_method :: jsstr
  q_target :: jsstr
  q_headers :: "(jsstr, jsstr) jsmap"

record ProxyResponse =
  a_status :: nat
  a_headers :: "(jsstr, jsstr) jsmap"
  a_body :: bytes

datatype ContentResult = Fetched bytes jsstr | Failed ResolveErrorName

text \<open>\<open>ContentPort.fetch({ type, value }, path)\<close> and \<open>IpnsPort.resolve(pointer)\<close>.\<close>

type_synonym ContentPort = "jsstr \<Rightarrow> jsstr \<Rightarrow> jsstr \<Rightarrow> ContentResult"
type_synonym IpnsPort = "jsstr \<Rightarrow> jsstr option"

record ProxyOptions =
  o_diagnostics :: bool
  o_content :: "ContentPort option"
  o_ipns :: "IpnsPort option"

subsection \<open>Requests\<close>

definition contentCacheKey :: "jsstr \<Rightarrow> jsstr \<Rightarrow> jsstr" where
  "contentCacheKey type v = js ''content:'' @ type @ COLON # v"

definition hex_digit :: "nat \<Rightarrow> 16 word" where
  "hex_digit n = (if n < 10 then of_nat (0x30 + n) else of_nat (0x57 + n))"

definition hex_text :: "bytes \<Rightarrow> jsstr" where
  "hex_text bs = concat (map (\<lambda>b. [hex_digit (unat b div 16), hex_digit (unat b mod 16)]) bs)"

definition sourceValueOf :: "RecordEntry \<Rightarrow> jsstr option" where
  "sourceValueOf entry =
     (if e_type entry = js ''cid'' then
        (case e_value entry of
           CBytes b \<Rightarrow>
             (case cidFromBytes b of
                Inl _ \<Rightarrow> None
              | Inr cid \<Rightarrow> (case encodeCid cid of Inl _ \<Rightarrow> None | Inr s \<Rightarrow> Some s))
         | _ \<Rightarrow> None)
      else if e_type entry = js ''ipns'' \<or> e_type entry = js ''alias'' then
        (case e_value entry of CText s \<Rightarrow> Some s | _ \<Rightarrow> None)
      else if e_type entry = js ''peer'' then
        (case e_value entry of CBytes b \<Rightarrow> Some (hex_text b) | _ \<Rightarrow> None)
      else None)"

definition scheme_first :: "16 word \<Rightarrow> bool" where
  "scheme_first u \<longleftrightarrow> 0x41 \<le> u \<and> u \<le> 0x5A \<or> is_lower u"

definition scheme_unit :: "16 word \<Rightarrow> bool" where
  "scheme_unit u \<longleftrightarrow> scheme_first u \<or> is_digit u \<or> u \<in> {0x2B, 0x2E, 0x2D}"

text \<open>
  What \<open>/^[a-z][a-z0-9+.-]*:\/\//i\<close> matches at the start of a text: the scheme characters run up to
  the first colon, which no scheme character is, so the rest after \<open>://\<close> is unique.
\<close>

definition after_scheme :: "jsstr \<Rightarrow> jsstr option" where
  "after_scheme s =
     (case s of
        [] \<Rightarrow> None
      | c # t \<Rightarrow>
          if \<not> scheme_first c then None
          else
            let rest = dropWhile scheme_unit t in
            if starts_with rest (js ''://'') then Some (drop 3 rest) else None)"

definition http_scheme :: "jsstr \<Rightarrow> bool" where
  "http_scheme s \<longleftrightarrow> toLowerCase (take 4 s) = js ''http'' \<and> starts_with (drop 4 s) (js ''://'')"

definition authority_end :: "16 word \<Rightarrow> bool" where
  "authority_end u \<longleftrightarrow> u \<in> {0x2F, 0x3F, 0x23}"

definition requestHost :: "ProxyRequest \<Rightarrow> jsstr option" where
  "requestHost request =
     (if length (q_target request) > targetBytes PROXY_LIMITS then None
      else if after_scheme (q_target request) \<noteq> None then
        (if \<not> http_scheme (q_target request) then None
         else
           let authority = takeWhile (\<lambda>u. \<not> authority_end u) (drop 7 (q_target request)) in
           if 0x40 \<in> set authority then None else Some authority)
      else if \<not> starts_with (q_target request) (js ''/'') then None
      else map_get (q_headers request) (js ''host''))"

text \<open>
  \<open>normalize('NFC')\<close> on the characters whose composed form is in ASCII: the Kelvin sign, the Greek
  question mark and the Greek varia. Every other composition leaves a character outside ASCII in
  place, which no label and no extension holds.
\<close>

definition nfc_unit :: "16 word \<Rightarrow> 16 word" where
  "nfc_unit u = (if u = 0x212A then 0x4B else if u = 0x037E then 0x3B else if u = 0x1FEF then 0x60 else u)"

definition last_index :: "16 word \<Rightarrow> jsstr \<Rightarrow> nat option" where
  "last_index c s = map_option (\<lambda>k. length s - 1 - k) (index_of c (rev s))"

definition normaliseHost :: "jsstr \<Rightarrow> (jsstr \<times> jsstr) option" where
  "normaliseHost host =
     (if length host = 0 \<or> length host > hostBytes PROXY_LIMITS then None
      else if COLON \<in> set host \<or> 0x40 \<in> set host \<or> 0x5B \<in> set host then None
      else
        let lower = toLowerCase (map nfc_unit host);
            v = (if ends_with lower [DOT] then take (length lower - 1) lower else lower)
        in case last_index DOT v of
             None \<Rightarrow> None
           | Some d \<Rightarrow>
               if d = 0 \<or> d = length v - 1 then None
               else
                 let label = take d v; tld = drop (d + 1) v in
                 if DOT \<in> set label then None
                 else if labelRejection label \<noteq> None then None
                 else if \<not> isRatifiedTld tld then None
                 else Some (label, tld))"

definition refusal :: "ResolveErrorName \<Rightarrow> ProxyResponse" where
  "refusal e =
     \<lparr>a_status = snd (RESOLVE_ERRORS e),
      a_headers = map_set (js ''content-type'') (js ''text/plain; charset=utf-8'') SECURITY_HEADERS,
      a_body = []\<rparr>"

text \<open>
  \<open>pathOf\<close>: the pattern takes the scheme and everything up to the next slash, then the query and the
  fragment are cut off.
\<close>

definition pathOf :: "jsstr \<Rightarrow> jsstr" where
  "pathOf target =
     (let withoutScheme = (case after_scheme target of
            Some rest \<Rightarrow> dropWhile (\<lambda>u. u \<noteq> 0x2F) rest | None \<Rightarrow> target);
          path = trim (takeWhile (\<lambda>u. u \<noteq> 0x3F \<and> u \<noteq> 0x23) withoutScheme)
      in if length path = 0 then js ''/'' else path)"

subsection \<open>The path in the tree\<close>

datatype Served = Served bytes jsstr nat jsstr | NotServed ResolveErrorName

definition site :: "ContentPort \<Rightarrow> jsstr \<Rightarrow> ResolutionCache \<Rightarrow> SiteManifest option \<times> ResolutionCache" where
  "site content cid cache =
     (case manifest_of cid cache of
        Some known \<Rightarrow> (known, cache)
      | None \<Rightarrow>
          let parsed = (case content (js ''cid'') cid MANIFEST_PATH of
                Fetched bs _ \<Rightarrow> parseManifest bs | Failed _ \<Rightarrow> None)
          in (parsed, rememberManifest cid parsed cache))"

definition indexCandidates :: "ContentPort \<Rightarrow> jsstr \<Rightarrow> ResolutionCache \<Rightarrow> jsstr list \<times> ResolutionCache" where
  "indexCandidates content cid cache =
     (case site content cid cache of
        (m, cache) \<Rightarrow>
          ((case Option.bind m m_index of
              None \<Rightarrow> [js ''index.html'']
            | Some declared \<Rightarrow>
                if declared = js ''index.html'' then [js ''index.html''] else [declared, js ''index.html'']),
           cache))"

text \<open>The loop over the index documents: an answer, or \<open>None\<close> when every path is missing.\<close>

fun try_indexes :: "ContentPort \<Rightarrow> jsstr \<Rightarrow> jsstr list \<Rightarrow> Served option" where
  "try_indexes content cid [] = None"
| "try_indexes content cid (path # paths) =
     (case content (js ''cid'') cid path of
        Fetched bs type \<Rightarrow> Some (Served bs type 200 path)
      | Failed e \<Rightarrow> if e \<noteq> PATH_NOT_FOUND then Some (NotServed e) else try_indexes content cid paths)"

definition no_match :: "ContentPort \<Rightarrow> jsstr \<Rightarrow> ResolutionCache \<Rightarrow> Served \<times> ResolutionCache" where
  "no_match content cid cache =
     (case site content cid cache of
        (None, cache) \<Rightarrow> (NotServed PATH_NOT_FOUND, cache)
      | (Some declared, cache) \<Rightarrow>
          (let fallback = (case m_fallback declared of
                 None \<Rightarrow> NotServed PATH_NOT_FOUND
               | Some p \<Rightarrow>
                   (case content (js ''cid'') cid (0x2F # p) of
                      Fetched bs type \<Rightarrow> Served bs type 200 (0x2F # p)
                    | Failed _ \<Rightarrow> NotServed PATH_NOT_FOUND))
           in case m_notFound declared of
                None \<Rightarrow> (fallback, cache)
              | Some p \<Rightarrow>
                  (case content (js ''cid'') cid (0x2F # p) of
                     Fetched bs type \<Rightarrow> (Served bs type 404 (0x2F # p), cache)
                   | Failed _ \<Rightarrow> (fallback, cache))))"

definition serveStep13 :: "ContentPort \<Rightarrow> jsstr \<Rightarrow> jsstr \<Rightarrow> ResolutionCache \<Rightarrow> Served \<times> ResolutionCache" where
  "serveStep13 content cid path cache =
     (let directory = ends_with path [0x2F];
          (first, cache) =
            (if directory then
               (case indexCandidates content cid cache of
                  (names, cache) \<Rightarrow> (try_indexes content cid (map (\<lambda>name. path @ name) names), cache))
             else (None, cache))
      in case first of
           Some answer \<Rightarrow> (answer, cache)
         | None \<Rightarrow>
             (case content (js ''cid'') cid path of
                Fetched bs type \<Rightarrow> (Served bs type 200 path, cache)
              | Failed e \<Rightarrow>
                  let (second, cache) =
                    (if \<not> directory \<and> e = PATH_NOT_FOUND then
                       (case indexCandidates content cid cache of
                          (names, cache) \<Rightarrow>
                            (try_indexes content cid (map (\<lambda>name. path @ 0x2F # name) names), cache))
                     else (None, cache))
                  in case second of
                       Some answer \<Rightarrow> (answer, cache)
                     | None \<Rightarrow>
                         if e \<noteq> PATH_NOT_FOUND then (NotServed e, cache)
                         else no_match content cid cache))"

subsection \<open>The request handler\<close>

definition rule_text :: "ScanRuleId \<Rightarrow> jsstr" where
  "rule_text r = (case r of speculative_link \<Rightarrow> js ''speculative-link''
     | meta_refresh \<Rightarrow> js ''meta-refresh'' | service_worker \<Rightarrow> js ''service-worker'')"

text \<open>
  What the loop over the sources comes to: an early return, a source that served, or the failure of
  the last source. A served source carries status, content type, body, its type and the identifier.
\<close>

datatype Attempts =
  Returned ProxyResponse
| Broke nat jsstr bytes jsstr jsstr "jsstr list"
| Exhausted ResolveErrorName

definition blocked :: "bool \<Rightarrow> ScanFinding list \<Rightarrow> ProxyResponse" where
  "blocked diagnostics findings =
     (let refused = refusal BLOCKED_BY_POLICY in
      if diagnostics then
        refused\<lparr>a_headers := map_set (js ''x-vayuweb-refused'')
          (join_with (js '','') (map (\<lambda>f. rule_text (f_rule f)) findings)) (a_headers refused)\<rparr>
      else refused)"

text \<open>Step 10: a pointer is resolved, an identifier is taken as it is.\<close>

definition addressed :: "ProxyOptions \<Rightarrow> jsstr \<Rightarrow> jsstr \<Rightarrow> jsstr option" where
  "addressed options type v =
     (if type = js ''ipns'' then
        (case o_ipns options of None \<Rightarrow> None | Some resolve \<Rightarrow> resolve v)
      else Some v)"

fun serve_sources :: "ProxyOptions \<Rightarrow> ContentPort \<Rightarrow> jsstr \<Rightarrow> int \<Rightarrow> RecordEntry list \<Rightarrow> ResolveErrorName \<Rightarrow>
    jsstr list \<Rightarrow> ResolutionCache \<Rightarrow> Attempts \<times> ResolutionCache" where
  "serve_sources options content path now [] failure fallbacks cache = (Exhausted failure, cache)"
| "serve_sources options content path now (candidate # candidates) failure fallbacks cache =
     (let type = e_type candidate in
      case sourceValueOf candidate of
        None \<Rightarrow> serve_sources options content path now candidates NO_USABLE_RECORD (fallbacks @ [type]) cache
      | Some v \<Rightarrow>
          let contentKey = contentCacheKey type v in
          (case negative contentKey now cache of
             (Some known, cache) \<Rightarrow>
               serve_sources options content path now candidates known (fallbacks @ [type]) cache
           | (None, cache) \<Rightarrow>
               (case addressed options type v of
                  None \<Rightarrow>
                    serve_sources options content path now candidates IPNS_UNRESOLVED (fallbacks @ [type])
                      (snd (putNegative contentKey IPNS_UNRESOLVED now cache))
                | Some cid \<Rightarrow>
                    (case serveStep13 content cid path cache of
                       (Served bs contentType status at_path, cache) \<Rightarrow>
                         let findings = scanDocument at_path bs in
                         if length findings > 0 then (Returned (blocked (o_diagnostics options) findings), cache)
                         else (Broke status contentType bs type cid fallbacks, cache)
                     | (NotServed e, cache) \<Rightarrow>
                         if e = CONTENT_INTEGRITY then (Returned (refusal CONTENT_INTEGRITY), cache)
                         else
                           serve_sources options content path now candidates e (fallbacks @ [type])
                             (snd (putNegative contentKey e now cache))))))"

definition resolved_from_text :: "resolved_from option \<Rightarrow> jsstr" where
  "resolved_from_text f = (case f of None \<Rightarrow> [] | Some FromCache \<Rightarrow> js ''cache'' | Some FromRegistry \<Rightarrow> js ''registry'')"

definition diagnostic_headers :: "jsstr \<Rightarrow> Diagnostics \<Rightarrow> jsstr \<Rightarrow> jsstr \<Rightarrow> jsstr list \<Rightarrow>
    (jsstr, jsstr) jsmap \<Rightarrow> (jsstr, jsstr) jsmap" where
  "diagnostic_headers key d cid source fallbacks headers =
     map_set (js ''x-vayuweb-fallbacks'') (join_with (js '','') fallbacks)
     (map_set (js ''x-vayuweb-stale'') (if length fallbacks > 0 then js ''1'' else js ''0'')
     (map_set (js ''x-vayuweb-resolved-from'') (resolved_from_text (d_resolvedFrom d))
     (map_set (js ''x-vayuweb-source'') source
     (map_set (js ''x-vayuweb-cid'') cid
     (map_set (js ''x-vayuweb-seq'') (case d_seq d of None \<Rightarrow> [] | Some n \<Rightarrow> int_text n)
     (map_set (js ''x-vayuweb-name'') key headers))))))"

definition answer_resolved :: "ProxyRequest \<Rightarrow> jsstr \<Rightarrow> RegistryRecord \<Rightarrow> Diagnostics \<Rightarrow> ResolutionCache \<Rightarrow>
    int \<Rightarrow> ProxyOptions \<Rightarrow> ProxyResponse \<times> ResolutionCache" where
  "answer_resolved request key r d cache now options =
     (case o_content options of
        None \<Rightarrow> (refusal INTERNAL, cache)
      | Some content \<Rightarrow>
          (case serve_sources options content (pathOf (q_target request)) now (sourceCandidates r)
              NO_USABLE_RECORD [] cache of
             (Returned response, cache) \<Rightarrow> (response, cache)
           | (Exhausted failure, cache) \<Rightarrow> (refusal failure, cache)
           | (Broke status contentType body source cid fallbacks, cache) \<Rightarrow>
               let headers = map_set (js ''content-type'') contentType
                 (map_set (js ''content-type'') (js ''text/plain; charset=utf-8'') SECURITY_HEADERS)
               in (\<lparr>a_status = status,
                    a_headers =
                      (if o_diagnostics options then diagnostic_headers key d cid source fallbacks headers
                       else headers),
                    a_body = body\<rparr>, cache)))"

definition handleRequest :: "ProxyRequest \<Rightarrow> ResolverPorts \<Rightarrow> ResolutionCache \<Rightarrow> int \<Rightarrow> ProxyOptions \<Rightarrow>
    ProxyResponse \<times> ResolutionCache" where
  "handleRequest request ports cache now options =
     (if q_method request = js ''CONNECT'' then (refusal BLOCKED_BY_POLICY, cache)
      else if q_method request \<noteq> js ''GET'' \<and> q_method request \<noteq> js ''HEAD'' then
        (refusal BLOCKED_BY_POLICY, cache)
      else
        case requestHost request of
          None \<Rightarrow> (refusal BLOCKED_BY_POLICY, cache)
        | Some host \<Rightarrow>
            (case normaliseHost host of
               None \<Rightarrow> (refusal LABEL_INVALID, cache)
             | Some (label, tld) \<Rightarrow>
                 let key = name_text label tld in
                 (case resolveName key ports now (Some cache) of
                    (outcome, cache') \<Rightarrow>
                      let cache = or_else cache' cache in
                      (case outcome of
                         Unresolved e d \<Rightarrow> (refusal e, cache)
                       | Resolved entry r d \<Rightarrow> answer_resolved request key r d cache now options))))"

subsection \<open>What the handler does to the cache\<close>

text \<open>
  The steps a request takes on the cache are steps of the resolver in service, so everything proved
  about the resolver's histories holds of histories of requests.
\<close>

lemma step_cache: "rv_cache (R\<lparr>rv_cache := c\<rparr>) = c" "rv_now (R\<lparr>rv_cache := c\<rparr>) = rv_now R"
  by simp_all

lemma site_steps:
  assumes "resolver_steps g S (R\<lparr>rv_cache := c\<rparr>)"
  shows "resolver_steps g S (R\<lparr>rv_cache := snd (site content cid c)\<rparr>)"
proof -
  have "resolver_step g (R\<lparr>rv_cache := c\<rparr>) (R\<lparr>rv_cache := rememberManifest cid m c\<rparr>)" for m
    using manifest_read [of g "R\<lparr>rv_cache := c\<rparr>" cid m] by simp
  then show ?thesis
    using assms by (auto simp: site_def Let_def split: option.split intro: rtranclp.rtrancl_into_rtrancl)
qed

lemma indexCandidates_steps:
  assumes "resolver_steps g S (R\<lparr>rv_cache := c\<rparr>)"
  shows "resolver_steps g S (R\<lparr>rv_cache := snd (indexCandidates content cid c)\<rparr>)"
  using site_steps [OF assms, of content cid] by (cases "site content cid c") (simp add: indexCandidates_def)

lemma no_match_steps:
  assumes "resolver_steps g S (R\<lparr>rv_cache := c\<rparr>)"
  shows "resolver_steps g S (R\<lparr>rv_cache := snd (no_match content cid c)\<rparr>)"
  using site_steps [OF assms, of content cid]
  by (auto simp: no_match_def Let_def split: prod.split option.split ContentResult.split)

lemma serveStep13_steps:
  assumes "resolver_steps g S (R\<lparr>rv_cache := c\<rparr>)"
  shows "resolver_steps g S (R\<lparr>rv_cache := snd (serveStep13 content cid path c)\<rparr>)"
proof -
  obtain names c1 where ic: "indexCandidates content cid c = (names, c1)" by (cases "indexCandidates content cid c")
  then have c1: "resolver_steps g S (R\<lparr>rv_cache := c1\<rparr>)"
    using indexCandidates_steps [OF assms, of content cid] by simp
  show ?thesis
    using assms c1 no_match_steps [OF assms, of content cid] no_match_steps [OF c1, of content cid]
    by (auto simp: serveStep13_def ic Let_def split: option.split ContentResult.split)
qed

text \<open>A content key is no name: its last dot, if any, has a colon before it.\<close>

lemma label_no_colon: "labelRejection label = None \<Longrightarrow> COLON \<notin> set label"
  unfolding labelRejection_None list_all_iff
  by (force simp: LABEL_CHARACTER_def is_lower_def is_digit_def HYPHEN_def COLON_def)

lemma split_first: "split_on c s = p # ps \<Longrightarrow> \<exists>t. s = p @ t \<and> (t = [] \<or> hd t = c)"
  by (induction s arbitrary: p ps) (auto split: if_splits list.splits)

lemma content_key_no_name:
  assumes "DOT \<notin> set type"
  shows "name_of (contentCacheKey type v) = None"
proof (rule ccontr)
  assume "name_of (contentCacheKey type v) \<noteq> None"
  then obtain label tld where s: "split_on DOT (contentCacheKey type v) = [label, tld]"
    and ok: "labelRejection label = None"
    by (auto simp: name_of_def split: list.splits if_splits)
  from split_first [OF s] obtain t where t: "contentCacheKey type v = label @ t" "t = [] \<or> hd t = DOT" by auto
  define p where "p = js ''content:'' @ type"
  have no: "DOT \<notin> set p" "DOT \<noteq> COLON" using assms by (simp_all add: p_def DOT_def COLON_def)
  have "p @ COLON # v = label @ t" using t(1) by (simp add: contentCacheKey_def p_def)
  then obtain us where "p = label @ us \<and> us @ COLON # v = t \<or> p @ us = label \<and> COLON # v = us @ t"
    by (auto simp: append_eq_append_conv2)
  then have "COLON \<in> set label"
  proof (elim disjE conjE)
    assume "p = label @ us" "us @ COLON # v = t"
    then have "t \<noteq> [] \<and> hd t \<noteq> DOT" using no by (cases us) auto
    with t(2) show ?thesis by simp
  next
    assume "p @ us = label" "COLON # v = us @ t"
    then show ?thesis using t(2) no(2) by (cases us) auto
  qed
  then show False using label_no_colon [OF ok] by blast
qed

lemma negative_steps:
  assumes "resolver_steps g S (R\<lparr>rv_cache := c\<rparr>)"
  shows "resolver_steps g S (R\<lparr>rv_cache := snd (negative key (rv_now R) c)\<rparr>)"
  using rtranclp.rtrancl_into_rtrancl [OF assms content_asked [of g "R\<lparr>rv_cache := c\<rparr>" key]] by simp

lemma putNegative_steps:
  assumes "resolver_steps g S (R\<lparr>rv_cache := c\<rparr>)" and "name_of key = None"
  shows "resolver_steps g S (R\<lparr>rv_cache := snd (putNegative key e (rv_now R) c)\<rparr>)"
  using rtranclp.rtrancl_into_rtrancl [OF assms(1) content_failed [of key g "R\<lparr>rv_cache := c\<rparr>" e, OF assms(2)]]
  by simp

lemma serve_sources_steps:
  assumes "resolver_steps g S (R\<lparr>rv_cache := c\<rparr>)" and "\<forall>e\<in>set candidates. DOT \<notin> set (e_type e)"
  shows "resolver_steps g S (R\<lparr>rv_cache :=
    snd (serve_sources options content path (rv_now R) candidates failure fallbacks c)\<rparr>)"
  using assms
proof (induction candidates arbitrary: failure fallbacks c)
  case (Cons e es)
  let ?key = "\<lambda>v. contentCacheKey (e_type e) v"
  have dots: "DOT \<notin> set (e_type e)" "\<forall>e\<in>set es. DOT \<notin> set (e_type e)" using Cons.prems(2) by simp_all
  note IH = Cons.IH [OF _ dots(2)]
  show ?case
  proof (cases "sourceValueOf e")
    case None
    then show ?thesis using IH Cons.prems(1) by simp
  next
    case (Some v)
    obtain known c1 where n: "negative (?key v) (rv_now R) c = (known, c1)"
      by (cases "negative (?key v) (rv_now R) c")
    then have c1: "resolver_steps g S (R\<lparr>rv_cache := c1\<rparr>)"
      using negative_steps [OF Cons.prems(1), of "?key v"] by simp
    have put: "resolver_steps g S (R\<lparr>rv_cache := c'\<rparr>) \<Longrightarrow>
        resolver_steps g S (R\<lparr>rv_cache := snd (putNegative (?key v) x (rv_now R) c')\<rparr>)" for c' x
      by (rule putNegative_steps [OF _ content_key_no_name [OF dots(1)]])
    have c2: "resolver_steps g S (R\<lparr>rv_cache := c2\<rparr>)" if "serveStep13 content cid path c1 = (sv, c2)" for cid sv c2
      using serveStep13_steps [OF c1, of content cid path] that by simp
    show ?thesis
    proof (cases known)
      case (Some err)
      then show ?thesis using IH [OF c1] n \<open>sourceValueOf e = Some v\<close> by (simp add: Let_def)
    next
      case None
      note known = this
      show ?thesis
      proof (cases "addressed options (e_type e) v")
        case None
        then show ?thesis using IH [OF put [OF c1]] n known Some by (simp add: Let_def)
      next
        case (Some cid)
        obtain sv c2 where s: "serveStep13 content cid path c1 = (sv, c2)" by (cases "serveStep13 content cid path c1")
        then show ?thesis
          using c2 [OF s] IH [OF put [OF c2 [OF s]]] n known Some \<open>sourceValueOf e = Some v\<close>
          by (simp add: Let_def split: Served.split)
      qed
    qed
  qed
qed simp

lemma sourceCandidates_sound:
  "e \<in> set (sourceCandidates r) \<Longrightarrow>
     e \<in> set (r_entries r) \<and> e_known e \<and> e_type e \<in> {js ''ipns'', js ''cid'', js ''alias''}"
  using candidates_loop_sound [of e "r_entries r" "[]" SOURCE_ORDER]
  by (auto simp: sourceCandidates_def SOURCE_ORDER_def)

lemma answer_resolved_steps:
  assumes "resolver_steps g S (R\<lparr>rv_cache := c\<rparr>)"
  shows "resolver_steps g S (R\<lparr>rv_cache := snd (answer_resolved request key r d c (rv_now R) options)\<rparr>)"
proof -
  have "\<forall>e\<in>set (sourceCandidates r). DOT \<notin> set (e_type e)"
    using sourceCandidates_sound by (fastforce simp: DOT_def)
  from serve_sources_steps [OF assms this] show ?thesis
    using assms unfolding answer_resolved_def
    by (auto split: option.split prod.split Attempts.split simp: Let_def) (metis snd_conv)+
qed

text \<open>A request as \<open>serveProxy\<close> handles it: the cache is told the length of the log first.\<close>

definition proxy_request :: "ProxyRequest \<Rightarrow> ProxyOptions \<Rightarrow> resolver \<Rightarrow> ProxyResponse \<times> ResolutionCache" where
  "proxy_request request options R =
     handleRequest request (rv_ports R) (setGeneration (rv_length R) (rv_cache R)) (rv_now R) options"

lemma proxy_request_steps:
  assumes "resolver_steps g S R"
  shows "resolver_steps g S (R\<lparr>rv_cache := snd (proxy_request request options R)\<rparr>)"
proof -
  let ?c = "setGeneration (rv_length R) (rv_cache R)"
  have told: "resolver_steps g S (R\<lparr>rv_cache := ?c\<rparr>)" using assms told by (rule rtranclp.rtrancl_into_rtrancl)
  have "resolver_steps g S (R\<lparr>rv_cache := or_else cache' ?c\<rparr>)"
    if run: "resolveName key (rv_ports R) (rv_now R) (Some ?c) = (outcome, cache')" for key outcome cache'
  proof -
    obtain c' where "cache' = Some c'" using resolveName_kept [OF run] by blast
    then show ?thesis
      using rtranclp.rtrancl_into_rtrancl [OF assms proxied [of key R outcome c']] run by (simp add: proxy_resolve_def)
  qed
  then show ?thesis
    using told by (auto simp: proxy_request_def handleRequest_def Let_def intro: answer_resolved_steps
        split: option.split prod.split Outcome.split simp del: js_simps)
qed

subsection \<open>What is served\<close>

text \<open>A document the content port gave for a path of the tree.\<close>

definition fetched_from :: "ContentPort \<Rightarrow> jsstr \<Rightarrow> Served \<Rightarrow> bool" where
  "fetched_from content cid answer \<longleftrightarrow>
     (case answer of
        Served bs type status path \<Rightarrow> content (js ''cid'') cid path = Fetched bs type \<and> status \<in> {200, 404}
      | NotServed e \<Rightarrow> True)"

lemma try_indexes_fetched: "try_indexes content cid paths = Some answer \<Longrightarrow> fetched_from content cid answer"
  by (induction paths) (auto simp: fetched_from_def split: ContentResult.splits if_splits)

lemma no_match_fetched: "fetched_from content cid (fst (no_match content cid cache))"
  by (auto simp: no_match_def fetched_from_def Let_def split: prod.split option.split ContentResult.split)

lemma serveStep13_fetched: "fetched_from content cid (fst (serveStep13 content cid path cache))"
proof -
  obtain names c1 where ic: "indexCandidates content cid cache = (names, c1)" by (cases "indexCandidates content cid cache")
  show ?thesis
    using no_match_fetched [of content cid cache] no_match_fetched [of content cid c1]
    by (auto simp: serveStep13_def ic Let_def try_indexes_fetched split: option.split ContentResult.split)
      (simp_all add: fetched_from_def)
qed

lemma serve_sources_broke:
  assumes "serve_sources options content path now candidates failure fallbacks cache =
    (Broke status type bs source cid tried, cache')"
  shows "\<exists>e\<in>set candidates. \<exists>v at_path. e_type e = source \<and> sourceValueOf e = Some v \<and>
    addressed options (e_type e) v = Some cid \<and> content (js ''cid'') cid at_path = Fetched bs type \<and>
    scanDocument at_path bs = [] \<and> status \<in> {200, 404}"
  using assms
proof (induction candidates arbitrary: failure fallbacks cache)
  case (Cons e es)
  show ?case
  proof (cases "sourceValueOf e")
    case None
    then show ?thesis using Cons by (auto simp: Let_def)
  next
    case (Some v)
    obtain known c1 where n: "negative (contentCacheKey (e_type e) v) now cache = (known, c1)"
      by (cases "negative (contentCacheKey (e_type e) v) now cache")
    show ?thesis
    proof (cases "known = None \<and> addressed options (e_type e) v \<noteq> None")
      case False
      then show ?thesis using Cons Some n by (fastforce simp: Let_def split: option.splits)
    next
      case True
      then obtain a where a: "addressed options (e_type e) v = Some a" "known = None" by blast
      obtain sv c2 where s: "serveStep13 content a path c1 = (sv, c2)" by (cases "serveStep13 content a path c1")
      have f: "fetched_from content a sv" using serveStep13_fetched [of content a path c1] s by simp
      show ?thesis
      proof (cases sv)
        case (NotServed x)
        then show ?thesis using Cons Some n a s by (fastforce simp: Let_def split: if_splits)
      next
        case (Served b t st p)
        then show ?thesis
          using Cons.prems Some n a s f
          by (auto simp: Let_def fetched_from_def simp del: js_simps split: if_splits)
      qed
    qed
  qed
qed simp

text \<open>Every response that is not a served document has an empty body.\<close>

lemma refusal_body [simp]: "a_body (refusal e) = []" "a_body (blocked b fs) = []"
  by (simp_all add: refusal_def blocked_def Let_def)

lemma serve_sources_returned:
  assumes "serve_sources options content path now candidates failure fallbacks cache = (Returned response, cache')"
  shows "(\<exists>e. response = refusal e) \<or> (\<exists>b fs. response = blocked b fs)"
  using assms
proof (induction candidates arbitrary: failure fallbacks cache)
  case (Cons e es)
  then show ?case
    by (force simp: Let_def split: option.splits prod.splits Served.splits if_splits simp del: js_simps)
qed simp

subsection \<open>Properties\<close>

text \<open>
  C24. A page the proxy serves is what the record's owner published. In every state a resolver reaches,
  a response with a body answers a GET or HEAD request for a well-formed name, and the body is what
  the content layer gave for a path of the identifier that the live record of a name carries (or
  that its pointer resolves to), with nothing for the scan to report; and the state after the
  request is again one a resolver reaches, so this holds of every sequence of requests.
\<close>

theorem proxy_serves_published:
  assumes "resolver_steps grows (newResolver ports n start) R"
    and "proxy_request request options R = (response, c)" and "a_body response \<noteq> []"
  shows "q_method request \<in> {js ''GET'', js ''HEAD''} \<and>
    (\<exists>host label tld. requestHost request = Some host \<and> normaliseHost host = Some (label, tld)) \<and>
    (\<exists>r entry v cid path type content.
      (\<exists>label tld. lookup (rv_ports R) label tld = Some r) \<and> stateAt r (rv_now R) = LIVE \<and> r_op r \<noteq> REVOKE \<and>
      entry \<in> set (r_entries r) \<and> e_known entry \<and> sourceValueOf entry = Some v \<and>
      addressed options (e_type entry) v = Some cid \<and> o_content options = Some content \<and>
      content (js ''cid'') cid path = Fetched (a_body response) type \<and>
      scanDocument path (a_body response) = []) \<and>
    a_status response \<in> {200, 404} \<and>
    resolver_steps grows (newResolver ports n start) (R\<lparr>rv_cache := c\<rparr>)"
proof -
  have steps: "resolver_steps grows (newResolver ports n start) (R\<lparr>rv_cache := c\<rparr>)"
    using proxy_request_steps [OF assms(1), of request options] assms(2) by simp
  let ?c0 = "setGeneration (rv_length R) (rv_cache R)"
  have h: "handleRequest request (rv_ports R) ?c0 (rv_now R) options = (response, c)"
    using assms(2) by (simp add: proxy_request_def)
  have verb: "q_method request \<in> {js ''GET'', js ''HEAD''}"
    using h assms(3) by (auto simp: handleRequest_def simp del: js_simps split: if_splits)
  then obtain host label tld where host: "requestHost request = Some host" "normaliseHost host = Some (label, tld)"
    using h assms(3)
    by (auto simp: handleRequest_def simp del: js_simps split: if_splits option.splits)
  let ?key = "name_text label tld"
  obtain outcome cache' where out: "proxy_resolve ?key R = (outcome, cache')" by (cases "proxy_resolve ?key R")
  note h2 = h [unfolded handleRequest_def host option.case prod.case Let_def
      out [unfolded proxy_resolve_def]]
  obtain entry r d where o: "outcome = Resolved entry r d"
    using h2 verb assms(3) by (cases outcome) (auto simp del: js_simps split: if_splits)
  from resolved_is_live [OF assms(1), of ?key entry r d] out o
  have live: "stateAt r (rv_now R) = LIVE" "r_op r \<noteq> REVOKE" "\<exists>label tld. lookup (rv_ports R) label tld = Some r"
    by simp_all
  have a: "answer_resolved request ?key r d (or_else cache' ?c0) (rv_now R) options = (response, c)"
    using h2 verb by (auto simp: o simp del: js_simps split: if_splits)
  obtain content where content: "o_content options = Some content"
    using a assms(3) by (auto simp: answer_resolved_def split: option.splits)
  obtain res c2 where res: "serve_sources options content (pathOf (q_target request)) (rv_now R) (sourceCandidates r)
      NO_USABLE_RECORD [] (or_else cache' ?c0) = (res, c2)" by force
  have "\<exists>status type body source cid fallbacks. res = Broke status type body source cid fallbacks"
    using a content res assms(3)
    by (cases res) (auto simp: answer_resolved_def dest!: serve_sources_returned)
  then obtain status type body source cid fallbacks where b: "res = Broke status type body source cid fallbacks"
    by blast
  have body: "a_body response = body" "a_status response = status"
    using a content res b by (auto simp: answer_resolved_def Let_def)
  from serve_sources_broke [OF res [unfolded b]] obtain e v p where
    src: "e \<in> set (sourceCandidates r)" "sourceValueOf e = Some v" "addressed options (e_type e) v = Some cid"
    "content (js ''cid'') cid p = Fetched body type" "scanDocument p body = []" and "status \<in> {200, 404}" by blast
  from src have "\<exists>r entry v cid path type content.
      (\<exists>label tld. lookup (rv_ports R) label tld = Some r) \<and> stateAt r (rv_now R) = LIVE \<and> r_op r \<noteq> REVOKE \<and>
      entry \<in> set (r_entries r) \<and> e_known entry \<and> sourceValueOf entry = Some v \<and>
      addressed options (e_type entry) v = Some cid \<and> o_content options = Some content \<and>
      content (js ''cid'') cid path = Fetched (a_body response) type \<and> scanDocument path (a_body response) = []"
    using sourceCandidates_sound [of e r] live content body
    by (intro exI [of _ r] exI [of _ e] exI [of _ v] exI [of _ cid] exI [of _ p] exI [of _ type]
        exI [of _ content]) (simp del: js_simps)
  with \<open>status \<in> {200, 404}\<close> host verb steps body show ?thesis by blast
qed

definition allowed_headers :: "bool \<Rightarrow> jsstr set" where
  "allowed_headers diagnostics =
     fst ` set SECURITY_HEADERS \<union> {js ''content-type''} \<union>
     (if diagnostics then insert (js ''x-vayuweb-refused'') (set DIAGNOSTIC_HEADERS) else {})"

definition headers_ok :: "bool \<Rightarrow> (jsstr, jsstr) jsmap \<Rightarrow> bool" where
  "headers_ok diagnostics headers \<longleftrightarrow>
     fst ` set headers \<subseteq> allowed_headers diagnostics \<and>
     (\<forall>(name, v) \<in> set SECURITY_HEADERS. map_get headers name = Some v)"

lemma map_set_keys: "fst ` set (map_set k v m) = insert k (fst ` set m)"
  by (induction m) auto

lemma headers_ok_set:
  assumes "headers_ok diagnostics headers" and "k \<in> allowed_headers diagnostics" and "k \<notin> fst ` set SECURITY_HEADERS"
  shows "headers_ok diagnostics (map_set k v headers)"
  using assms by (force simp: headers_ok_def map_set_keys)

lemma security_headers_ok: "headers_ok d SECURITY_HEADERS"
proof -
  have "distinct (map fst SECURITY_HEADERS)" by (simp add: SECURITY_HEADERS_def)
  then show ?thesis by (auto simp: headers_ok_def allowed_headers_def)
qed

lemma free_names:
  "js ''content-type'' \<notin> fst ` set SECURITY_HEADERS" "js ''x-vayuweb-refused'' \<notin> fst ` set SECURITY_HEADERS"
  "set DIAGNOSTIC_HEADERS \<inter> fst ` set SECURITY_HEADERS = {}"
  by (simp_all add: SECURITY_HEADERS_def DIAGNOSTIC_HEADERS_def)

lemma refusal_headers: "headers_ok d (a_headers (refusal e))"
  unfolding refusal_def using free_names(1)
  by (simp add: headers_ok_set security_headers_ok allowed_headers_def del: js_simps)

lemma blocked_headers: "headers_ok d (a_headers (blocked d fs))"
  using refusal_headers [of d BLOCKED_BY_POLICY] free_names(2)
  by (auto simp: blocked_def Let_def allowed_headers_def intro!: headers_ok_set simp del: js_simps)

lemma diagnostic_headers_ok:
  assumes "headers_ok True headers"
  shows "headers_ok True (diagnostic_headers key d cid source fallbacks headers)"
proof -
  have "k \<in> allowed_headers True \<and> k \<notin> fst ` set SECURITY_HEADERS" if "k \<in> set DIAGNOSTIC_HEADERS" for k
    using that free_names(3) by (auto simp: allowed_headers_def)
  then show ?thesis
    unfolding diagnostic_headers_def
    by (intro headers_ok_set assms) (simp_all add: DIAGNOSTIC_HEADERS_def del: js_simps)
qed

lemma serve_sources_blocked:
  assumes "serve_sources options content path now candidates failure fallbacks cache = (Returned response, cache')"
  shows "(\<exists>e. response = refusal e) \<or> (\<exists>fs. response = blocked (o_diagnostics options) fs)"
  using assms
proof (induction candidates arbitrary: failure fallbacks cache)
  case (Cons e es)
  then show ?case
    by (force simp: Let_def split: option.splits prod.splits Served.splits if_splits simp del: js_simps)
qed simp

lemma answer_resolved_headers:
  "headers_ok (o_diagnostics options) (a_headers (fst (answer_resolved request key r d cache now options)))"
proof -
  have page: "headers_ok b (map_set (js ''content-type'') t
      (map_set (js ''content-type'') (js ''text/plain; charset=utf-8'') SECURITY_HEADERS))" for b t
    using free_names(1) by (simp add: headers_ok_set security_headers_ok allowed_headers_def del: js_simps)
  show ?thesis
    using refusal_headers blocked_headers page diagnostic_headers_ok [OF page]
    by (auto simp: answer_resolved_def Let_def dest!: serve_sources_blocked
        split: option.split prod.split Attempts.split simp del: js_simps)
qed

text \<open>
  Headers. Every response, whatever the request and the state, carries each of the security headers
  with its fixed value and none of the forbidden ones; while diagnostics are off it carries no
  header besides these and the content type, so it does not tell that VayuWeb is running.
\<close>

theorem proxy_headers:
  "let headers = a_headers (fst (handleRequest request ports cache now options)) in
   (\<forall>i < length SECURITY_HEADERS.
      map_get headers (fst (SECURITY_HEADERS ! i)) = Some (snd (SECURITY_HEADERS ! i))) \<and>
   fst ` set headers \<inter> set FORBIDDEN_RESPONSE_HEADERS = {} \<and>
   (\<not> o_diagnostics options \<longrightarrow> fst ` set headers \<subseteq> fst ` set SECURITY_HEADERS \<union> {js ''content-type''})"
proof -
  let ?h = "a_headers (fst (handleRequest request ports cache now options))"
  have ok: "headers_ok (o_diagnostics options) ?h"
    using refusal_headers answer_resolved_headers
    by (auto simp: handleRequest_def Let_def split: option.split prod.split Outcome.split simp del: js_simps)
  have "allowed_headers True \<inter> set FORBIDDEN_RESPONSE_HEADERS = {}"
    by (simp add: allowed_headers_def SECURITY_HEADERS_def DIAGNOSTIC_HEADERS_def FORBIDDEN_RESPONSE_HEADERS_def)
  moreover have "allowed_headers d \<subseteq> allowed_headers True" for d by (auto simp: allowed_headers_def)
  ultimately have "fst ` set ?h \<inter> set FORBIDDEN_RESPONSE_HEADERS = {}" using ok by (force simp: headers_ok_def)
  moreover have "map_get ?h (fst (SECURITY_HEADERS ! i)) = Some (snd (SECURITY_HEADERS ! i))"
    if "i < length SECURITY_HEADERS" for i
    using ok nth_mem [OF that] by (auto simp: headers_ok_def split_beta)
  ultimately show ?thesis using ok by (auto simp: headers_ok_def allowed_headers_def Let_def simp del: js_simps)
qed

definition declared_site :: ContentPort where
  "declared_site type cid path =
     (if path = MANIFEST_PATH then Fetched (text_encode (js ''{\"version\":1,\"index\":\"home.html\"}'')) (js ''application/json'')
      else if path = js ''/home.html'' then Fetched [1] (js ''text/html'')
      else if path = js ''/index.html'' then Fetched [2] (js ''text/html'')
      else Failed PATH_NOT_FOUND)"

definition outage :: "ResolveErrorName \<Rightarrow> ContentPort" where
  "outage e type cid path = Failed e"

lemma declared_site_parsed:
  "parseManifest (text_encode (js ''{\"version\":1,\"index\":\"home.html\"}'')) =
     Some \<lparr>m_index = Some (js ''home.html''), m_fallback = None, m_notFound = None\<rparr>"
proof -
  let ?s = "js ''{\"version\":1,\"index\":\"home.html\"}''"
  have ascii: "is_ascii ?s" by (simp add: is_ascii_def)
  have "JSON_parse ?s = Some (JObject [(js ''version'', JNumber False 1 0), (js ''index'', JString (js ''home.html''))])"
    by code_simp
  moreover have "length (text_encode ?s) = 33"
    using ascii by (simp add: text_encode_ascii)
  ultimately show ?thesis
    using text_decode_encode_ascii [OF ascii]
    by (simp add: parseManifest_def MAX_MANIFEST_BYTES_def json_get_def reads_as_one_def declaredPath_def
        MAX_DECLARED_PATH_def starts_with_def text_includes_def)
qed

text \<open>
  An outage of a moment hides a site's manifest for good. When the content layer fails to give the
  manifest once, for whatever reason, \<open>serveStep13\<close> remembers that the site has none; from then on,
  with a content layer that gives every file, a directory is answered without its declared index.
\<close>

theorem manifest_outage_sticks:
  "let fresh = newCache None None None NEGATIVE_TTL_SECONDS;
       after = snd (serveStep13 (outage e) cid (js ''/'') fresh)
   in fst (serveStep13 declared_site cid (js ''/'') fresh) = Served [1] (js ''text/html'') 200 (js ''/home.html'') \<and>
      fst (serveStep13 declared_site cid (js ''/'') after) = Served [2] (js ''text/html'') 200 (js ''/index.html'') \<and>
      manifests (setGeneration g after) = manifests after \<and>
      manifests after = [(cid, None)]"
proof -
  let ?c = "newCache None None None NEGATIVE_TTL_SECONDS"
  have fresh: "manifests ?c = []" "manifestLimit ?c = 256" by (simp_all add: newCache_def CACHE_LIMITS_def)
  have dir: "ends_with (js ''/'') [0x2F]" by (simp add: ends_with_def)
  have served: "serveStep13 content cid (js ''/'') c = (answer, c')"
    if "indexCandidates content cid c = (names, c')"
      "try_indexes content cid (map (\<lambda>name. js ''/'' @ name) names) = Some answer" for content c names c' answer
    unfolding serveStep13_def using that dir by (simp add: Let_def del: js_simps)
  have missing: "site (outage e) cid ?c = (None, rememberManifest cid None ?c)"
    by (simp add: site_def manifest_of_def fresh outage_def)
  have remembered: "site content cid (rememberManifest cid None ?c) = (None, rememberManifest cid None ?c)" for content
    by (simp add: site_def manifest_of_def rememberManifest_def)
  have out: "snd (serveStep13 (outage e) cid (js ''/'') ?c) = rememberManifest cid None ?c"
    unfolding serveStep13_def using dir
    by (auto simp: indexCandidates_def missing remembered outage_def Let_def no_match_def simp del: js_simps)
  have "indexCandidates declared_site cid ?c =
      ([js ''home.html'', js ''index.html''], rememberManifest cid (Some \<lparr>m_index = Some (js ''home.html''),
         m_fallback = None, m_notFound = None\<rparr>) ?c)"
    using declared_site_parsed
    by (simp add: indexCandidates_def site_def manifest_of_def fresh declared_site_def Let_def)
  then have before: "fst (serveStep13 declared_site cid (js ''/'') ?c) =
      Served [1] (js ''text/html'') 200 (js ''/home.html'')"
    by (subst served) (assumption, simp_all add: declared_site_def MANIFEST_PATH_def)
  have "indexCandidates declared_site cid (rememberManifest cid None ?c) =
      ([js ''index.html''], rememberManifest cid None ?c)"
    by (simp add: indexCandidates_def remembered)
  then have after: "fst (serveStep13 declared_site cid (js ''/'') (rememberManifest cid None ?c)) =
      Served [2] (js ''text/html'') 200 (js ''/index.html'')"
    by (subst served) (assumption, simp_all add: declared_site_def MANIFEST_PATH_def)
  have kept: "manifests (rememberManifest cid None ?c) = [(cid, None)]"
    by (simp add: rememberManifest_def evictFor_def fresh)
  show ?thesis
    unfolding Let_def out
    using before after kept by (simp add: setGeneration_def)
qed

subsection \<open>A page, served\<close>

definition page_record :: RegistryRecord where
  "page_record = site_record\<lparr>r_entries :=
     [\<lparr>e_type = js ''ipns'', e_value = CText (js ''k''), e_ttl = 3600, e_known = True\<rparr>]\<rparr>"

definition page_options :: ProxyOptions where
  "page_options = \<lparr>o_diagnostics = False,
     o_content = Some (\<lambda>type cid path. if path = js ''/a'' then Fetched [1] (js ''text/plain'') else Failed PATH_NOT_FOUND),
     o_ipns = Some (\<lambda>pointer. Some (js ''c''))\<rparr>"

definition page_request :: ProxyRequest where
  "page_request = \<lparr>q_method = js ''GET'', q_target = js ''/a'', q_headers = [(js ''host'', atlas)]\<rparr>"

definition page_resolver :: resolver where
  "page_resolver = newResolver (site_ports page_record) 1 2000000"

lemma normalise_atlas: "normaliseHost atlas = Some (js ''atlas'', js ''vayu'')"
  using atlas_label
  by (simp add: atlas_def normaliseHost_def PROXY_LIMITS_def toLowerCase_def lower_unit_def nfc_unit_def COLON_def
      DOT_def last_index_def ends_with_def MAX_LABEL_LENGTH_def MAX_TLD_LENGTH_def Let_def)

lemma page_resolved:
  "proxy_resolve atlas page_resolver =
     (Resolved (hd (r_entries page_record)) page_record
        \<lparr>d_name = atlas, d_seq = Some 0, d_source = Some (js ''ipns''), d_resolvedFrom = Some FromRegistry,
         d_fallbacks = [], d_aliasHops = 0\<rparr>,
      Some ((setGeneration 1 (newCache None None None NEGATIVE_TTL_SECONDS))
        \<lparr>positives := [(name_text (js ''atlas'') (js ''vayu''), \<lparr>q_record = page_record, q_expires = 2000300\<rparr>)],
         missCount := 2\<rparr>))"
  using parse_atlas atlas_label by (simp add: resolve_exec page_resolver_def page_record_def)

lemma atlas_text: "name_text (js ''atlas'') (js ''vayu'') = atlas"
  by (simp add: name_text_def atlas_def DOT_def)

lemma page_served:
  "let response = fst (proxy_request page_request page_options page_resolver)
   in a_body response = [1] \<and> a_status response = 200"
proof -
  note r = page_resolved [unfolded proxy_resolve_def]
  have host: "requestHost page_request = Some atlas"
    by (simp add: requestHost_def page_request_def PROXY_LIMITS_def after_scheme_def scheme_first_def
        is_lower_def starts_with_def)
  have path: "pathOf (q_target page_request) = js ''/a''"
    by (simp add: page_request_def pathOf_def after_scheme_def scheme_first_def is_lower_def trim_def js_space_def Let_def)
  have source: "sourceCandidates page_record = r_entries page_record"
    by (simp add: sourceCandidates_def page_record_def SOURCE_ORDER_def)
  have get: "q_method page_request = js ''GET''" by (simp add: page_request_def)
  show ?thesis
    unfolding proxy_request_def handleRequest_def host option.case normalise_atlas prod.case Let_def atlas_text r Outcome.case
      answer_resolved_def path source get
    by (simp add: newCache_def setGeneration_def page_options_def page_record_def sourceValueOf_def negative_def addressed_def Let_def
        serveStep13_def ends_with_def scanDocument_def toLowerCase_def lower_unit_def)
qed

theorem proxy_serves_published_witness:
  "\<exists>r entry. stateAt r 2000000 = LIVE \<and> entry \<in> set (r_entries r) \<and> sourceValueOf entry \<noteq> None"
proof -
  obtain response c where p: "proxy_request page_request page_options page_resolver = (response, c)" by force
  have "resolver_steps True (newResolver (site_ports page_record) 1 2000000) page_resolver"
    by (simp add: page_resolver_def)
  moreover have "a_body response \<noteq> []" using page_served p by (simp add: Let_def)
  ultimately have "\<exists>r entry. stateAt r (rv_now page_resolver) = LIVE \<and> entry \<in> set (r_entries r) \<and> sourceValueOf entry \<noteq> None"
    using proxy_serves_published [OF _ p] by fastforce
  then show ?thesis by (simp add: page_resolver_def newResolver_def)
qed

theorem proxy_headers_witness:
  "let headers = a_headers (fst (handleRequest page_request (site_ports page_record)
     (newCache None None None NEGATIVE_TTL_SECONDS) 2000000 page_options)) in
   map_get headers (fst (SECURITY_HEADERS ! 0)) = Some (snd (SECURITY_HEADERS ! 0)) \<and>
   fst ` set headers \<subseteq> fst ` set SECURITY_HEADERS \<union> {js ''content-type''}"
proof -
  have "0 < length SECURITY_HEADERS" "\<not> o_diagnostics page_options"
    by (simp_all add: SECURITY_HEADERS_def page_options_def)
  then show ?thesis
    using proxy_headers [of page_request "site_ports page_record" "newCache None None None NEGATIVE_TTL_SECONDS"
        2000000 page_options]
    unfolding Let_def by blast
qed

text \<open>
  The path is not cut where the host is: a target with a query and no path of its own is answered
  from a path the query holds.
\<close>

lemma query_becomes_path:
  "let target = js ''http://atlas.vayu?q=/x'' in
   requestHost \<lparr>q_method = js ''GET'', q_target = target, q_headers = []\<rparr> = Some atlas \<and>
   pathOf target = js ''/x''"
  by (simp add: requestHost_def after_scheme_def scheme_first_def scheme_unit_def is_lower_def is_digit_def
      starts_with_def http_scheme_def toLowerCase_def lower_unit_def authority_end_def PROXY_LIMITS_def
      atlas_def pathOf_def trim_def js_space_def Let_def)

end
