(* ===== verification/Gateway.thy ===== *)
theory Gateway
  imports Proxy
begin

section \<open>The local gateway (registry/src/serve.ts)\<close>

text \<open>
  Reading a request from a socket and writing the answer: the head parser, the framing of a body, one
  connection as a state that chunks of bytes and a timer change, the cap on connections and the two
  surfaces. A handler acts on a world \<open>'w\<close> and may throw. Of a socket the model keeps the bytes
  written to it; a write after the end of a response is lost, as Node reports it by an error.
\<close>

subsection \<open>Limits and refusals\<close>

record serve_limits =
  sv_headBytes :: nat
  sv_bodyBytes :: nat
  sv_headerLines :: nat
  sv_headTimeoutMs :: nat
  sv_connections :: nat

definition SERVE_LIMITS :: serve_limits where
  "SERVE_LIMITS =
     \<lparr>sv_headBytes = 16 * 1024, sv_bodyBytes = 8 * 1024, sv_headerLines = 100, sv_headTimeoutMs = 10000,
      sv_connections = 256\<rparr>"

lemma serve_limits_simps [simp]:
  "sv_headBytes SERVE_LIMITS = 16384" "sv_bodyBytes SERVE_LIMITS = 8192" "sv_headerLines SERVE_LIMITS = 100"
  "sv_connections SERVE_LIMITS = 256"
  by (simp_all add: SERVE_LIMITS_def)

datatype ServeRejection =
    HEAD_TOO_LARGE | TOO_MANY_HEADERS | MALFORMED_REQUEST | HEAD_TIMEOUT | TOO_MANY_CONNECTIONS
  | UNEXPECTED_BODY | BODY_TOO_LARGE | MALFORMED_FRAMING

definition rejection_text :: "ServeRejection \<Rightarrow> string" where
  "rejection_text code =
     (case code of
        HEAD_TOO_LARGE \<Rightarrow> ''HEAD_TOO_LARGE'' | TOO_MANY_HEADERS \<Rightarrow> ''TOO_MANY_HEADERS''
      | MALFORMED_REQUEST \<Rightarrow> ''MALFORMED_REQUEST'' | HEAD_TIMEOUT \<Rightarrow> ''HEAD_TIMEOUT''
      | TOO_MANY_CONNECTIONS \<Rightarrow> ''TOO_MANY_CONNECTIONS'' | UNEXPECTED_BODY \<Rightarrow> ''UNEXPECTED_BODY''
      | BODY_TOO_LARGE \<Rightarrow> ''BODY_TOO_LARGE'' | MALFORMED_FRAMING \<Rightarrow> ''MALFORMED_FRAMING'')"

subsection \<open>The head\<close>

type_synonym headers = "(jsstr, jsstr) jsmap"

record RequestHead =
  h_method :: jsstr
  h_target :: jsstr
  h_headers :: headers
  h_body :: bytes

text \<open>\<open>text.split('\r\n')\<close>\<close>

fun split_lines :: "jsstr \<Rightarrow> jsstr list" where
  "split_lines [] = [[]]"
| "split_lines [u] = [[u]]"
| "split_lines (u # v # s) =
     (if u = 0x0D \<and> v = 0x0A then [] # split_lines s
      else (case split_lines (v # s) of p # ps \<Rightarrow> (u # p) # ps | [] \<Rightarrow> [[u]]))"

definition token_unit :: "16 word \<Rightarrow> bool" where
  "token_unit u \<longleftrightarrow> is_digit u \<or> is_lower u \<or> u \<in> set (js ''!#$%&'' @ [0x27] @ js ''*+.^_`|~-'')"

fun header_lines :: "jsstr list \<Rightarrow> headers \<Rightarrow> ServeRejection + headers" where
  "header_lines [] headers = Inr headers"
| "header_lines (line # lines) headers =
     (if length line = 0 then header_lines lines headers
      else if length headers \<ge> sv_headerLines SERVE_LIMITS then Inl TOO_MANY_HEADERS
      else if hd line = 0x20 \<or> hd line = 0x09 then Inl MALFORMED_REQUEST
      else
        case index_of COLON line of
          None \<Rightarrow> Inl MALFORMED_REQUEST
        | Some colon \<Rightarrow>
            if colon = 0 then Inl MALFORMED_REQUEST
            else
              let name = toLowerCase (take colon line); v = trim (drop (colon + 1) line) in
              if \<not> list_all token_unit name then Inl MALFORMED_REQUEST
              else if map_has headers name then Inl MALFORMED_REQUEST
              else header_lines lines (map_set name v headers))"

definition upper_unit :: "16 word \<Rightarrow> bool" where
  "upper_unit u \<longleftrightarrow> 0x41 \<le> u \<and> u \<le> 0x5A"

definition parseHead :: "jsstr \<Rightarrow> ServeRejection + RequestHead" where
  "parseHead s =
     (case split_lines s of
        [] \<Rightarrow> Inl MALFORMED_REQUEST
      | requestLine # lines \<Rightarrow>
          (case split_on 0x20 requestLine of
             [verb, target, version] \<Rightarrow>
               failIf (version \<noteq> js ''HTTP/1.0'' \<and> version \<noteq> js ''HTTP/1.1'') MALFORMED_REQUEST (
               failIf (\<not> (list_all upper_unit verb \<and> 3 \<le> length verb \<and> length verb \<le> 10)) MALFORMED_REQUEST (
               failIf (length target = 0 \<or> length target > targetBytes PROXY_LIMITS) MALFORMED_REQUEST (
               bindE (header_lines lines []) (\<lambda>headers.
                 Inr \<lparr>h_method = verb, h_target = target, h_headers = headers, h_body = []\<rparr>))))
           | _ \<Rightarrow> Inl MALFORMED_REQUEST))"

datatype body_framing = NoBody | Fixed nat

definition framing :: "headers \<Rightarrow> nat \<Rightarrow> ServeRejection + body_framing" where
  "framing headers limit =
     (if map_has headers (js ''transfer-encoding'') then Inl MALFORMED_FRAMING
      else
        case map_get headers (js ''content-length'') of
          None \<Rightarrow> Inr NoBody
        | Some declared \<Rightarrow>
            if \<not> (list_all is_digit declared \<and> 1 \<le> length declared \<and> length declared \<le> 9) then Inl MALFORMED_FRAMING
            else
              let len = digits_value declared in
              if len > limit then Inl BODY_TOO_LARGE
              else Inr (if len = 0 then NoBody else Fixed len))"

subsection \<open>The answer\<close>

definition reason :: "nat \<Rightarrow> string" where
  "reason status =
     (case map_of
        [(200, ''OK''), (400, ''Bad Request''), (403, ''Forbidden''), (404, ''Not Found''),
         (405, ''Method Not Allowed''), (409, ''Conflict''), (410, ''Gone''), (413, ''Payload Too Large''),
         (431, ''Request Header Fields Too Large''), (500, ''Internal Server Error''), (502, ''Bad Gateway''),
         (503, ''Service Unavailable''), (504, ''Gateway Timeout'')] status of
        Some t \<Rightarrow> t | None \<Rightarrow> ''Status'')"

definition CRLF :: jsstr where "CRLF = [0x0D, 0x0A]"

definition writeHttp :: "nat \<Rightarrow> headers \<Rightarrow> bytes \<Rightarrow> bool \<Rightarrow> bytes" where
  "writeHttp status headers body elideBody =
     (let lines = (js ''HTTP/1.1 '' @ nat_text status @ js '' '' @ js (reason status)) #
            map (\<lambda>(name, v). name @ js '': '' @ v) headers @
            [js ''content-length: '' @ nat_text (length body), js ''connection: close'']
      in text_encode (join_with CRLF lines @ CRLF @ CRLF) @ (if elideBody then [] else body))"

definition HEAD_TERMINATOR :: bytes where "HEAD_TERMINATOR = [0x0D, 0x0A, 0x0D, 0x0A]"

definition statusFor :: "ServeRejection \<Rightarrow> nat" where
  "statusFor code =
     (if code = HEAD_TOO_LARGE \<or> code = TOO_MANY_HEADERS then 431
      else if code = BODY_TOO_LARGE then 413 else 400)"

definition asciiBody :: "string \<Rightarrow> bytes" where
  "asciiBody code = text_encode (js code)"

subsection \<open>One connection\<close>

text \<open>
  \<open>cn_head\<close> is \<open>headEnd\<close> with what was parsed there, \<open>cn_sent\<close> the answers written. A handler is a
  function of the request and the world; \<open>None\<close> is a throw.
\<close>

record conn =
  cn_buffer :: bytes
  cn_done :: bool
  cn_head :: "(nat \<times> RequestHead \<times> body_framing) option"
  cn_sent :: "bytes list"

definition new_conn :: conn where
  "new_conn = \<lparr>cn_buffer = [], cn_done = False, cn_head = None, cn_sent = []\<rparr>"

type_synonym 'w handler = "RequestHead \<Rightarrow> 'w \<Rightarrow> (nat \<times> headers \<times> bytes) option \<times> 'w"

definition finish_with :: "bytes \<Rightarrow> conn \<Rightarrow> conn" where
  "finish_with answer c = (if cn_done c then c else c\<lparr>cn_done := True, cn_sent := cn_sent c @ [answer]\<rparr>)"

definition refuse :: "ServeRejection \<Rightarrow> conn \<Rightarrow> conn" where
  "refuse code = finish_with (writeHttp (statusFor code) [] (asciiBody (rejection_text code)) False)"

definition latin1 :: "bytes \<Rightarrow> jsstr" where
  "latin1 bs = map ucast bs"

text \<open>What the data listener does once the head is complete.\<close>

definition on_body :: "'w handler \<Rightarrow> nat \<Rightarrow> RequestHead \<Rightarrow> body_framing \<Rightarrow> conn \<Rightarrow> 'w \<Rightarrow> conn \<times> 'w" where
  "on_body respond headEnd rh frame c w =
     (let wanted = (case frame of Fixed n \<Rightarrow> n | NoBody \<Rightarrow> 0);
          have_bytes = length (cn_buffer c) - (headEnd + length HEAD_TERMINATOR)
      in if have_bytes > wanted then (refuse UNEXPECTED_BODY c, w)
         else if have_bytes < wanted then (c, w)
         else
           let request = rh\<lparr>h_body := drop (headEnd + length HEAD_TERMINATOR) (cn_buffer c)\<rparr>;
               elide = (h_method request = js ''HEAD'')
           in case respond request w of
                (None, w) \<Rightarrow> (finish_with (writeHttp 500 [] [] elide) c, w)
              | (Some (status, headers, body), w) \<Rightarrow>
                  (finish_with (writeHttp status headers body elide) c, w))"

definition on_chunk :: "'w handler \<Rightarrow> bool \<Rightarrow> bytes \<Rightarrow> conn \<Rightarrow> 'w \<Rightarrow> conn \<times> 'w" where
  "on_chunk respond acceptsBody piece c w =
     (if cn_done c then (c, w)
      else
        let c = c\<lparr>cn_buffer := cn_buffer c @ piece\<rparr> in
        case cn_head c of
          Some (headEnd, rh, frame) \<Rightarrow> on_body respond headEnd rh frame c w
        | None \<Rightarrow>
            if length (cn_buffer c) > sv_headBytes SERVE_LIMITS then (refuse HEAD_TOO_LARGE c, w)
            else
              case find_text HEAD_TERMINATOR (cn_buffer c) of
                None \<Rightarrow> (c, w)
              | Some headEnd \<Rightarrow>
                  (case parseHead (latin1 (take headEnd (cn_buffer c))) of
                     Inl code \<Rightarrow> (refuse code c, w)
                   | Inr rh \<Rightarrow>
                       (case framing (h_headers rh) (sv_bodyBytes SERVE_LIMITS) of
                          Inl code \<Rightarrow> (refuse code c, w)
                        | Inr frame \<Rightarrow>
                            let c = c\<lparr>cn_head := Some (headEnd, rh, frame)\<rparr> in
                            if \<not> acceptsBody \<and> frame \<noteq> NoBody then (refuse UNEXPECTED_BODY c, w)
                            else on_body respond headEnd rh frame c w)))"

definition on_timeout :: "conn \<Rightarrow> conn" where
  "on_timeout c = finish_with (writeHttp 400 [] (asciiBody ''HEAD_TIMEOUT'') False) c"

definition on_error :: "conn \<Rightarrow> conn" where
  "on_error c = c\<lparr>cn_done := True\<rparr>"

subsection \<open>The cap on connections\<close>

record ConnectionCounter =
  cc_open :: nat
  cc_cap :: nat

definition new_counter :: "nat \<Rightarrow> ConnectionCounter" where
  "new_counter n = \<lparr>cc_open = 0, cc_cap = n\<rparr>"

definition inUse :: "ConnectionCounter \<Rightarrow> nat" where "inUse k = cc_open k"

definition admit :: "ConnectionCounter \<Rightarrow> bool \<times> ConnectionCounter" where
  "admit k = (if cc_open k \<ge> cc_cap k then (False, k) else (True, k\<lparr>cc_open := cc_open k + 1\<rparr>))"

definition release :: "ConnectionCounter \<Rightarrow> ConnectionCounter" where
  "release k = (if cc_open k > 0 then k\<lparr>cc_open := cc_open k - 1\<rparr> else k)"

text \<open>
  A server: for a new socket the listener of \<open>createServer\<close> comes first and starts reading, then the
  cap's listener counts the socket or answers 503; only a counted socket gives its slot back. A
  refused socket still has its first listener, and its answer is at its end.
\<close>

record 'w server =
  sr_conns :: "(nat \<times> conn \<times> bool) list"
  sr_counter :: ConnectionCounter
  sr_world :: 'w

definition over_cap_answer :: bytes where
  "over_cap_answer = writeHttp 503 [] (asciiBody ''TOO_MANY_CONNECTIONS'') False"

definition on_connection :: "nat \<Rightarrow> 'w server \<Rightarrow> 'w server" where
  "on_connection i s =
     (case admit (sr_counter s) of
        (admitted, k) \<Rightarrow>
          s\<lparr>sr_conns := map_set i
              (if admitted then new_conn else new_conn\<lparr>cn_sent := [over_cap_answer]\<rparr>, admitted) (sr_conns s),
            sr_counter := k\<rparr>)"

definition with_conn :: "nat \<Rightarrow> (conn \<Rightarrow> 'w \<Rightarrow> conn \<times> 'w) \<Rightarrow> 'w server \<Rightarrow> 'w server" where
  "with_conn i f s =
     (case map_get (sr_conns s) i of
        None \<Rightarrow> s
      | Some (c, admitted) \<Rightarrow>
          (case f c (sr_world s) of
             (c', w) \<Rightarrow>
               s\<lparr>sr_conns := map_set i (if admitted then c' else c'\<lparr>cn_sent := cn_sent c\<rparr>, admitted) (sr_conns s),
                 sr_world := w\<rparr>))"

definition on_data_of :: "'w handler \<Rightarrow> bool \<Rightarrow> nat \<Rightarrow> bytes \<Rightarrow> 'w server \<Rightarrow> 'w server" where
  "on_data_of respond acceptsBody i piece = with_conn i (on_chunk respond acceptsBody piece)"

definition on_timeout_of :: "nat \<Rightarrow> 'w server \<Rightarrow> 'w server" where
  "on_timeout_of i = with_conn i (\<lambda>c w. (on_timeout c, w))"

definition on_error_of :: "nat \<Rightarrow> 'w server \<Rightarrow> 'w server" where
  "on_error_of i = with_conn i (\<lambda>c w. (on_error c, w))"

definition on_close :: "nat \<Rightarrow> 'w server \<Rightarrow> 'w server" where
  "on_close i s =
     (case map_get (sr_conns s) i of
        None \<Rightarrow> s
      | Some (c, admitted) \<Rightarrow>
          s\<lparr>sr_conns := map_delete i (sr_conns s),
            sr_counter := (if admitted then release (sr_counter s) else sr_counter s)\<rparr>)"

subsection \<open>The browsing surface\<close>

text \<open>
  The handler \<open>serveProxy\<close> reads requests with. Its world is the resolver in service; a throw of the
  proxy, which is total here, would be answered by \<open>refusal INTERNAL\<close>.
\<close>

definition proxy_respond :: "ProxyOptions \<Rightarrow> resolver handler" where
  "proxy_respond options rh R =
     (case proxy_request \<lparr>q_method = h_method rh, q_target = h_target rh, q_headers = h_headers rh\<rparr> options R of
        (response, c) \<Rightarrow> (Some (a_status response, a_headers response, a_body response), R\<lparr>rv_cache := c\<rparr>))"

subsection \<open>Writing a request\<close>

text \<open>A request as a client writes it, and what makes its parts fit for a head.\<close>

definition header_line :: "jsstr \<times> jsstr \<Rightarrow> jsstr" where
  "header_line h = fst h @ js '': '' @ snd h"

definition render_head :: "jsstr \<Rightarrow> jsstr \<Rightarrow> headers \<Rightarrow> jsstr" where
  "render_head verb target hs =
     join_with CRLF ((verb @ 0x20 # target @ 0x20 # js ''HTTP/1.1'') # map header_line hs)"

definition fit_header :: "jsstr \<times> jsstr \<Rightarrow> bool" where
  "fit_header h \<longleftrightarrow> fst h \<noteq> [] \<and> list_all token_unit (fst h) \<and> 0x0D \<notin> set (snd h) \<and> trim (snd h) = snd h"

definition fit_head :: "jsstr \<Rightarrow> jsstr \<Rightarrow> headers \<Rightarrow> bool" where
  "fit_head verb target hs \<longleftrightarrow>
     list_all upper_unit verb \<and> 3 \<le> length verb \<and> length verb \<le> 10 \<and>
     target \<noteq> [] \<and> length target \<le> 2048 \<and> 0x20 \<notin> set target \<and> 0x0D \<notin> set target \<and>
     list_all fit_header hs \<and> distinct (map fst hs) \<and> length hs \<le> 100"

lemma index_of_first: "c \<notin> set a \<Longrightarrow> index_of c (a @ c # b) = Some (length a)"
  by (induction a) auto

lemma split_lines_line: "0x0D \<notin> set l \<Longrightarrow> split_lines l = [l]"
  by (induction l rule: split_lines.induct) auto

lemma split_lines_cut: "0x0D \<notin> set l \<Longrightarrow> split_lines (l @ 0x0D # 0x0A # s) = l # split_lines s"
proof (induction l)
  case (Cons u l)
  then show ?case by (cases l) auto
qed simp

lemma split_lines_join: "(\<forall>l\<in>set (l # ls). 0x0D \<notin> set l) \<Longrightarrow> split_lines (join_with CRLF (l # ls)) = l # ls"
proof (induction ls arbitrary: l)
  case Nil
  then show ?case by (simp add: join_with_def split_lines_line)
next
  case (Cons m ls)
  have "join_with CRLF (l # m # ls) = l @ 0x0D # 0x0A # join_with CRLF (m # ls)" by (simp add: join_with_def CRLF_def)
  then show ?case using Cons by (simp add: split_lines_cut)
qed

lemma token_unit_facts:
  assumes "token_unit u"
  shows "u \<noteq> COLON" "u \<noteq> 0x20" "u \<noteq> 0x09" "u \<noteq> 0x0D" "lower_unit u = u"
proof -
  have "\<not> (0x41 \<le> u \<and> u \<le> 0x5A)" "u \<noteq> 0x212A"
    using assms unfolding token_unit_def is_digit_def is_lower_def by (auto simp: word_le_nat_alt)
  then show "lower_unit u = u" by (simp add: lower_unit_def)
qed (use assms in \<open>auto simp: token_unit_def is_digit_def is_lower_def COLON_def\<close>)

lemma token_lower: "list_all token_unit s \<Longrightarrow> toLowerCase s = s"
  unfolding toLowerCase_def by (rule map_idI) (auto simp: list_all_iff token_unit_facts(5))

lemma trim_space: "trim (0x20 # v) = trim v"
  by (simp add: trim_def js_space_def)

lemma header_line_parts:
  assumes "fit_header h"
  shows "header_line h \<noteq> []" "hd (header_line h) \<noteq> 0x20" "hd (header_line h) \<noteq> 0x09" "0x0D \<notin> set (header_line h)"
    "index_of COLON (header_line h) = Some (length (fst h))" "take (length (fst h)) (header_line h) = fst h"
    "trim (drop (length (fst h) + 1) (header_line h)) = snd h" "0 < length (fst h)" "toLowerCase (fst h) = fst h"
proof -
  obtain n v where h: "h = (n, v)" by force
  have n: "n \<noteq> []" "list_all token_unit n" "0x0D \<notin> set v" "trim v = v" using assms by (auto simp: h fit_header_def)
  note token = token_unit_facts [of "hd n"]
  have l: "header_line h = n @ COLON # 0x20 # v" by (simp add: h header_line_def COLON_def)
  have "token_unit (hd n)" using n by (cases n) auto
  then show "header_line h \<noteq> []" "hd (header_line h) \<noteq> 0x20" "hd (header_line h) \<noteq> 0x09"
    using token n(1) by (simp_all add: l)
  have "\<forall>u\<in>set n. token_unit u" using n(2) by (simp add: list_all_iff)
  then have "COLON \<notin> set n" "0x0D \<notin> set n" using token_unit_facts by blast+
  then show "0x0D \<notin> set (header_line h)" "index_of COLON (header_line h) = Some (length (fst h))"
    unfolding l using n index_of_first [of COLON n "0x20 # v"] by (auto simp: h COLON_def)
  show "take (length (fst h)) (header_line h) = fst h" "0 < length (fst h)" "toLowerCase (fst h) = fst h"
    unfolding l using n by (simp_all add: h token_lower)
  show "trim (drop (length (fst h) + 1) (header_line h)) = snd h" unfolding l using n by (simp add: h trim_space)
qed

lemma header_lines_render:
  assumes "list_all fit_header hs" "distinct (map fst hs)" "fst ` set headers \<inter> fst ` set hs = {}"
    "length headers + length hs \<le> 100"
  shows "header_lines (map header_line hs) headers = Inr (headers @ hs)"
  using assms
proof (induction hs arbitrary: headers)
  case (Cons h hs)
  note p = header_line_parts [of h]
  have fresh: "\<not> map_has headers (fst h)" using Cons.prems(3) by auto
  then have set: "map_set (fst h) (snd h) headers = headers @ [h]"
    by (induction headers) (auto simp: update.simps)
  have "header_lines (map header_line hs) (headers @ [h]) = Inr ((headers @ [h]) @ hs)"
    using Cons.prems by (intro Cons.IH) auto
  then show ?case using Cons.prems p fresh set by (simp add: Let_def fit_header_def)
qed simp

lemma parseHead_render:
  assumes "fit_head verb target hs"
  shows "parseHead (render_head verb target hs) = Inr \<lparr>h_method = verb, h_target = target, h_headers = hs, h_body = []\<rparr>"
proof -
  let ?first = "verb @ 0x20 # target @ 0x20 # js ''HTTP/1.1''"
  have v: "0x20 \<notin> set verb" "0x0D \<notin> set verb"
    using assms by (auto simp: fit_head_def list_all_iff upper_unit_def)
  have "\<forall>l\<in>set (?first # map header_line hs). 0x0D \<notin> set l"
    using assms v header_line_parts(4) by (auto simp: fit_head_def list_all_iff)
  then have lines: "split_lines (render_head verb target hs) = ?first # map header_line hs"
    unfolding render_head_def by (rule split_lines_join)
  have "split_on 0x20 ?first = [verb, target, js ''HTTP/1.1'']"
    using v assms by (simp add: split_on_sep split_on_none fit_head_def)
  then show ?thesis
    using assms header_lines_render [of hs "[]"] lines
    by (auto simp: parseHead_def fit_head_def PROXY_LIMITS_def simp del: js_simps)
qed

subsection \<open>What a request comes to\<close>

text \<open>
  The abstract reader sees all bytes at once. It has nothing yet, refuses, or has a request; \<open>parsed\<close>
  is the head with its framing and \<open>missing\<close> what is still to come of the body.
\<close>

datatype request_seen = Waits | Refuses ServeRejection | Asks RequestHead

definition parsed :: "bytes \<Rightarrow> nat \<Rightarrow> ServeRejection + RequestHead \<times> body_framing" where
  "parsed buf headEnd =
     bindE (parseHead (latin1 (take headEnd buf))) (\<lambda>rh.
     bindE (framing (h_headers rh) 8192) (\<lambda>frame. Inr (rh, frame)))"

definition missing :: "bytes \<Rightarrow> nat \<Rightarrow> body_framing \<Rightarrow> int" where
  "missing buf headEnd frame = int (case frame of Fixed n \<Rightarrow> n | NoBody \<Rightarrow> 0) - (int (length buf) - int (headEnd + 4))"

definition verdict_of :: "bool \<Rightarrow> bytes \<Rightarrow> request_seen" where
  "verdict_of acceptsBody buf =
     (case find_text HEAD_TERMINATOR buf of
        None \<Rightarrow> Waits
      | Some headEnd \<Rightarrow>
          (case parsed buf headEnd of
             Inl code \<Rightarrow> Refuses code
           | Inr (rh, frame) \<Rightarrow>
               if \<not> acceptsBody \<and> frame \<noteq> NoBody \<or> missing buf headEnd frame < 0 then Refuses UNEXPECTED_BODY
               else if missing buf headEnd frame > 0 then Waits
               else Asks (rh\<lparr>h_body := drop (headEnd + 4) buf\<rparr>)))"

definition excess :: "bytes \<Rightarrow> bool" where
  "excess buf \<longleftrightarrow>
     (\<exists>headEnd rh frame. find_text HEAD_TERMINATOR buf = Some headEnd \<and> parsed buf headEnd = Inr (rh, frame) \<and>
        missing buf headEnd frame < 0)"

definition refusal_answer :: "ServeRejection \<Rightarrow> bytes" where
  "refusal_answer code = writeHttp (statusFor code) [] (asciiBody (rejection_text code)) False"

definition answer :: "'w handler \<Rightarrow> RequestHead \<Rightarrow> 'w \<Rightarrow> bytes \<times> 'w" where
  "answer respond rh w =
     (let elide = (h_method rh = js ''HEAD'') in
      case respond rh w of
        (None, w) \<Rightarrow> (writeHttp 500 [] [] elide, w)
      | (Some (status, headers, body), w) \<Rightarrow> (writeHttp status headers body elide, w))"

definition outcome :: "'w handler \<Rightarrow> request_seen \<Rightarrow> 'w \<Rightarrow> bytes list \<times> 'w" where
  "outcome respond v w =
     (case v of
        Waits \<Rightarrow> ([], w) | Refuses code \<Rightarrow> ([refusal_answer code], w)
      | Asks rh \<Rightarrow> (case answer respond rh w of (a, w) \<Rightarrow> ([a], w)))"

fun feed :: "'w handler \<Rightarrow> bool \<Rightarrow> bytes list \<Rightarrow> conn \<Rightarrow> 'w \<Rightarrow> conn \<times> 'w" where
  "feed respond acceptsBody [] c w = (c, w)"
| "feed respond acceptsBody (x # xs) c w =
     (case on_chunk respond acceptsBody x c w of (c, w) \<Rightarrow> feed respond acceptsBody xs c w)"

lemma feed_done: "cn_done c \<Longrightarrow> feed respond acc xs c w = (c, w)"
  by (induction xs) (simp_all add: on_chunk_def)

lemma find_bound: "find_text HEAD_TERMINATOR buf = Some headEnd \<Longrightarrow> headEnd + 4 \<le> length buf"
  using find_text_Some(2) [of HEAD_TERMINATOR buf headEnd] by (simp add: HEAD_TERMINATOR_def)

lemma parsed_append: "headEnd \<le> length buf \<Longrightarrow> parsed (buf @ r) headEnd = parsed buf headEnd"
  by (simp add: parsed_def)

lemma verdict_append:
  assumes "verdict_of acc buf \<noteq> Waits" "\<not> excess (buf @ r)"
  shows "verdict_of acc (buf @ r) = verdict_of acc buf"
proof -
  obtain headEnd where e: "find_text HEAD_TERMINATOR buf = Some headEnd"
    using assms(1) by (cases "find_text HEAD_TERMINATOR buf") (auto simp: verdict_of_def)
  note e' = find_text_append [OF e, of r]
  have p: "parsed (buf @ r) headEnd = parsed buf headEnd" using find_bound [OF e] by (intro parsed_append) simp
  have more: "missing (buf @ r) headEnd frame = missing buf headEnd frame - int (length r)" for frame
    by (simp add: missing_def)
  show ?thesis
  proof (cases "parsed buf headEnd")
    case (Inl code)
    then show ?thesis using e e' p by (simp add: verdict_of_def)
  next
    case (Inr x)
    obtain rh frame where x: "x = (rh, frame)" by force
    have "missing (buf @ r) headEnd frame \<ge> 0" using assms(2) e' p Inr x by (auto simp: excess_def not_less)
    then show ?thesis using assms(1) e e' p Inr x more [of frame] by (auto simp: verdict_of_def)
  qed
qed

text \<open>A connection that is still reading: its state is what the bytes so far come to.\<close>

definition reading :: "bool \<Rightarrow> conn \<Rightarrow> bool" where
  "reading acc c \<longleftrightarrow> \<not> cn_done c \<and> cn_sent c = [] \<and> verdict_of acc (cn_buffer c) = Waits \<and>
     cn_head c = (case find_text HEAD_TERMINATOR (cn_buffer c) of
        None \<Rightarrow> None
      | Some headEnd \<Rightarrow> (case parsed (cn_buffer c) headEnd of Inl _ \<Rightarrow> None | Inr (rh, frame) \<Rightarrow> Some (headEnd, rh, frame)))"

lemma on_body_missing:
  assumes "headEnd + 4 \<le> length (cn_buffer c)" "\<not> cn_done c" "cn_sent c = []"
  shows "on_body respond headEnd rh frame c w =
    (if missing (cn_buffer c) headEnd frame < 0 then (c\<lparr>cn_done := True, cn_sent := [refusal_answer UNEXPECTED_BODY]\<rparr>, w)
     else if missing (cn_buffer c) headEnd frame > 0 then (c, w)
     else case answer respond (rh\<lparr>h_body := drop (headEnd + 4) (cn_buffer c)\<rparr>) w of
       (a, w) \<Rightarrow> (c\<lparr>cn_done := True, cn_sent := [a]\<rparr>, w))"
proof -
  have "length HEAD_TERMINATOR = 4" by (simp add: HEAD_TERMINATOR_def)
  then show ?thesis
    using assms
    by (auto simp: on_body_def Let_def missing_def answer_def refuse_def finish_with_def refusal_answer_def
        split: body_framing.splits prod.splits option.splits)
qed

lemma on_chunk_step:
  assumes "reading acc c" "length (cn_buffer c @ x) \<le> 16384" "on_chunk respond acc x c w = (c', w')"
  shows "case verdict_of acc (cn_buffer c @ x) of
      Waits \<Rightarrow> reading acc c' \<and> cn_buffer c' = cn_buffer c @ x \<and> w' = w
    | v \<Rightarrow> cn_done c' \<and> (cn_sent c', w') = outcome respond v w"
proof -
  let ?buf = "cn_buffer c @ x"
  have nd: "\<not> cn_done c" "cn_sent c = []" using assms(1) by (simp_all add: reading_def)
  show ?thesis
  proof (cases "find_text HEAD_TERMINATOR ?buf")
    case None
    then have "find_text HEAD_TERMINATOR (cn_buffer c) = None"
      using find_text_append [of HEAD_TERMINATOR "cn_buffer c" _ x] by (cases "find_text HEAD_TERMINATOR (cn_buffer c)") auto
    then show ?thesis
      using None assms nd by (auto simp: reading_def on_chunk_def Let_def verdict_of_def)
  next
    case (Some headEnd)
    note bound = find_bound [OF Some]
    show ?thesis
    proof (cases "find_text HEAD_TERMINATOR (cn_buffer c)")
      case None
      then have "cn_head c = None" using assms(1) by (simp add: reading_def)
      then show ?thesis
        using Some assms nd bound
        by (auto simp: reading_def on_chunk_def Let_def verdict_of_def parsed_def on_body_missing refuse_def
            finish_with_def refusal_answer_def outcome_def split: sum.splits if_splits prod.splits)
    next
      case e: (Some k)
      then have k: "k = headEnd" using find_text_append [OF e, of x] Some by simp
      obtain rh frame where p: "parsed (cn_buffer c) headEnd = Inr (rh, frame)" "\<not> (\<not> acc \<and> frame \<noteq> NoBody)"
        using assms(1) e k by (auto simp: reading_def verdict_of_def split: sum.splits if_splits)
      have h: "cn_head c = Some (headEnd, rh, frame)" using assms(1) e k p by (simp add: reading_def)
      have p': "parsed ?buf headEnd = Inr (rh, frame)"
        using find_bound [OF e] k p by (subst parsed_append) simp_all
      show ?thesis
        using Some assms(3) nd bound h p(2) p'
        by (auto simp: reading_def on_chunk_def Let_def verdict_of_def on_body_missing outcome_def split: if_splits prod.splits)
    qed
  qed
qed

lemma feed_reading:
  assumes "reading acc c" "length (cn_buffer c @ concat xs) \<le> 16384" "\<not> excess (cn_buffer c @ concat xs)"
    and "feed respond acc xs c w = (c', w')"
  shows "(cn_sent c', w') = outcome respond (verdict_of acc (cn_buffer c @ concat xs)) w \<and>
    (cn_done c' \<longleftrightarrow> verdict_of acc (cn_buffer c @ concat xs) \<noteq> Waits)"
  using assms
proof (induction xs arbitrary: c w)
  case Nil
  then show ?case by (auto simp: reading_def outcome_def)
next
  case (Cons x xs)
  obtain c1 w1 where one: "on_chunk respond acc x c w = (c1, w1)" by force
  have len: "length (cn_buffer c @ x) \<le> 16384" using Cons.prems(2) by simp
  note step = on_chunk_step [OF Cons.prems(1) len one]
  have rest: "feed respond acc xs c1 w1 = (c', w')" using Cons.prems(4) one by simp
  show ?case
  proof (cases "verdict_of acc (cn_buffer c @ x) = Waits")
    case True
    then have r: "reading acc c1" "cn_buffer c1 = cn_buffer c @ x" "w1 = w" using step by auto
    show ?thesis using Cons.IH [OF r(1) _ _ rest] Cons.prems(2,3) r by simp
  next
    case False
    then have d: "cn_done c1" "(cn_sent c1, w1) = outcome respond (verdict_of acc (cn_buffer c @ x)) w"
      using step by (auto split: request_seen.splits)
    have "verdict_of acc ((cn_buffer c @ x) @ concat xs) = verdict_of acc (cn_buffer c @ x)"
      using Cons.prems(3) by (intro verdict_append [OF False]) simp
    moreover have "c' = c1" "w' = w1" using rest feed_done [OF d(1), of respond acc xs w1] by simp_all
    ultimately show ?thesis using d False by simp
  qed
qed

lemma reading_empty: "reading acc new_conn"
  by (simp add: reading_def new_conn_def verdict_of_def HEAD_TERMINATOR_def)

text \<open>
  C25. How the network cuts a request does not matter. For any handler and any bytes of at most 16 KiB
  after which nothing follows the request they hold, every way to cut them into chunks gives the one
  outcome of the abstract reader: nothing yet, one refusal, or one call of the handler and its answer.
\<close>

theorem chunking_independent:
  assumes "length (concat xs) \<le> sv_headBytes SERVE_LIMITS" and "\<not> excess (concat xs)"
    and "feed respond acceptsBody xs new_conn w = (c, w')"
  shows "(cn_sent c, w') = outcome respond (verdict_of acceptsBody (concat xs)) w \<and>
    (cn_done c \<longleftrightarrow> verdict_of acceptsBody (concat xs) \<noteq> Waits)"
  using feed_reading [OF reading_empty _ _ assms(3)] assms(1,2) by (simp add: new_conn_def)

subsection \<open>A request as it is delivered\<close>

definition octets_of :: "jsstr \<Rightarrow> bytes" where "octets_of s = map ucast s"

definition narrow :: "jsstr \<Rightarrow> bool" where "narrow s \<longleftrightarrow> list_all (\<lambda>u. u < 256) s"

lemma unat_narrow: "u < 256 \<Longrightarrow> unat (ucast (u :: 16 word) :: byte) = unat u"
  by (simp add: unsigned_ucast_eq take_bit_word_eq_self word_less_nat_alt unsigned_take_bit_eq take_bit_nat_eq_self)

lemma unat_wide: "unat (ucast (b :: byte) :: 16 word) = unat b"
proof -
  have "unat b < 65536" using unat_byte_less [of b] by linarith
  then show ?thesis by (simp add: unsigned_ucast_eq unsigned_take_bit_eq take_bit_nat_eq_self)
qed

lemma latin1_octets: "narrow s \<Longrightarrow> latin1 (octets_of s) = s"
proof (unfold latin1_def octets_of_def map_map narrow_def, rule map_idI)
  fix u assume "list_all (\<lambda>u. u < 256) s" "u \<in> set s"
  then have "u < 256" by (simp add: list_all_iff)
  then show "((ucast :: byte \<Rightarrow> 16 word) \<circ> ucast) u = u"
    by (simp add: word_unat_eq_iff unat_narrow unat_wide)
qed

lemma octets_cr: "narrow s \<Longrightarrow> 0x0D \<in> set (octets_of s) \<longleftrightarrow> 0x0D \<in> set s"
proof -
  have "ucast u = (0x0D :: byte) \<longleftrightarrow> u = 0x0D" if "u < 256" for u :: "16 word"
    using that by (simp add: word_unat_eq_iff unat_narrow)
  then show "narrow s \<Longrightarrow> 0x0D \<in> set (octets_of s) \<longleftrightarrow> 0x0D \<in> set s"
    by (force simp: octets_of_def narrow_def list_all_iff)
qed

lemma find_skip: "0x0D \<notin> set l \<Longrightarrow> find_text HEAD_TERMINATOR (l @ s) = map_option ((+) (length l)) (find_text HEAD_TERMINATOR s)"
proof (induction l)
  case Nil
  show ?case by (cases "find_text HEAD_TERMINATOR s") simp_all
next
  case (Cons u l)
  then have "\<not> starts_with (u # l @ s) HEAD_TERMINATOR" by (auto simp: starts_with_def HEAD_TERMINATOR_def)
  then show ?case using Cons by (simp add: option.map_comp comp_def)
qed

lemma find_line:
  assumes "s \<noteq> []" "hd s \<noteq> 0x0D"
  shows "find_text HEAD_TERMINATOR (0x0D # 0x0A # s) = map_option ((+) 2) (find_text HEAD_TERMINATOR s)"
proof -
  obtain x s' where "s = x # s'" using assms(1) by (cases s) auto
  then have "\<not> starts_with (0x0D # 0x0A # s) HEAD_TERMINATOR" "\<not> starts_with (0x0A # s) HEAD_TERMINATOR"
    using assms(2) by (auto simp: starts_with_def HEAD_TERMINATOR_def)
  then show ?thesis by (cases "find_text HEAD_TERMINATOR s") simp_all
qed

lemma join_Cons: "join_with CRLF (l # m # ls) = l @ 0x0D # 0x0A # join_with CRLF (m # ls)"
  by (simp add: join_with_def CRLF_def)

lemma octets_append: "octets_of (a @ b) = octets_of a @ octets_of b" "octets_of (u # a) = ucast u # octets_of a"
  "length (octets_of a) = length a"
  by (simp_all add: octets_of_def)

lemma narrow_append: "narrow (a @ b) \<longleftrightarrow> narrow a \<and> narrow b" "narrow (u # a) \<longleftrightarrow> u < 256 \<and> narrow a"
  by (simp_all add: narrow_def)

lemma find_joined:
  assumes "\<forall>l\<in>set (l # ls). 0x0D \<notin> set l \<and> l \<noteq> [] \<and> narrow l"
  shows "find_text HEAD_TERMINATOR (octets_of (join_with CRLF (l # ls)) @ HEAD_TERMINATOR @ r) =
    Some (length (join_with CRLF (l # ls)))"
  using assms
proof (induction ls arbitrary: l)
  case Nil
  have "find_text HEAD_TERMINATOR (HEAD_TERMINATOR @ r) = Some 0" by (simp add: HEAD_TERMINATOR_def starts_with_def)
  then show ?case
    using Nil find_skip [of "octets_of l" "HEAD_TERMINATOR @ r"] octets_cr [of l] by (simp add: join_with_def octets_append)
next
  case (Cons m ls)
  have m: "0x0D \<notin> set m" "m \<noteq> []" "narrow m" using Cons.prems by auto
  then have "octets_of m \<noteq> []" "hd (octets_of m) \<noteq> 0x0D"
    using octets_cr [OF m(3)] hd_in_set [of "octets_of m"] by (auto simp: octets_of_def)
  moreover have "octets_of (join_with CRLF (m # ls)) = octets_of m @ octets_of (concat (map (\<lambda>q. CRLF @ q) ls))"
    by (simp add: join_with_def octets_append)
  ultimately have n: "octets_of (join_with CRLF (m # ls)) @ HEAD_TERMINATOR @ r \<noteq> []"
    "hd (octets_of (join_with CRLF (m # ls)) @ HEAD_TERMINATOR @ r) \<noteq> 0x0D" by auto
  have "octets_of (join_with CRLF (l # m # ls)) @ HEAD_TERMINATOR @ r =
      octets_of l @ 0x0D # 0x0A # octets_of (join_with CRLF (m # ls)) @ HEAD_TERMINATOR @ r"
    by (simp only: join_Cons octets_append append_assoc append_Cons) simp
  moreover have "0x0D \<notin> set (octets_of l)" using Cons.prems octets_cr [of l] by simp
  moreover have "find_text HEAD_TERMINATOR (octets_of (join_with CRLF (m # ls)) @ HEAD_TERMINATOR @ r) =
      Some (length (join_with CRLF (m # ls)))" using Cons by simp
  ultimately show ?case using find_skip find_line [OF n] by (simp add: join_Cons octets_append(3))
qed

text \<open>A whole request: the head, the terminator and the body.\<close>

definition wire :: "jsstr \<Rightarrow> jsstr \<Rightarrow> headers \<Rightarrow> bytes \<Rightarrow> bytes" where
  "wire verb target hs body = octets_of (render_head verb target hs) @ HEAD_TERMINATOR @ body"

definition narrow_head :: "jsstr \<Rightarrow> headers \<Rightarrow> bool" where
  "narrow_head target hs \<longleftrightarrow> narrow target \<and> list_all (\<lambda>h. narrow (snd h)) hs"

text \<open>The headers state the length of the body, and no other framing.\<close>

definition states_length :: "headers \<Rightarrow> bytes \<Rightarrow> bool" where
  "states_length hs body \<longleftrightarrow> framing hs 8192 = Inr (if body = [] then NoBody else Fixed (length body))"

lemma narrow_js [simp]: "narrow (js s)"
proof -
  have "(of_char c :: 16 word) < 256" for c
  proof -
    have "(of_char c :: nat) < 256" by (rule nat_of_char_less_256)
    then show ?thesis by (simp only: word_less_nat_alt unat_of_char_word16) simp
  qed
  then show ?thesis by (simp add: narrow_def js_def list_all_iff)
qed

lemma wire_read:
  assumes "fit_head verb target hs" "narrow_head target hs"
  shows "find_text HEAD_TERMINATOR (wire verb target hs body) = Some (length (render_head verb target hs))"
    and "parseHead (latin1 (take (length (render_head verb target hs)) (wire verb target hs body))) =
      Inr \<lparr>h_method = verb, h_target = target, h_headers = hs, h_body = []\<rparr>"
    and "drop (length (render_head verb target hs) + 4) (wire verb target hs body) = body"
proof -
  let ?first = "verb @ 0x20 # target @ 0x20 # js ''HTTP/1.1''"
  have v: "0x0D \<notin> set verb" "narrow verb"
    using assms(1) by (auto simp: fit_head_def list_all_iff upper_unit_def narrow_def word_le_nat_alt word_less_nat_alt)
  have first: "0x0D \<notin> set ?first" "narrow ?first"
    using v assms by (auto simp: fit_head_def narrow_head_def narrow_append simp del: js_simps) (simp add: js_def)
  have token: "narrow n" if "list_all token_unit n" for n
    using that unfolding narrow_def by (rule list.pred_mono_strong)
      (auto simp: token_unit_def is_digit_def is_lower_def word_le_nat_alt word_less_nat_alt)
  have "0x0D \<notin> set (header_line h) \<and> header_line h \<noteq> [] \<and> narrow (header_line h)" if "h \<in> set hs" for h
    using that assms header_line_parts [of h] token
    by (auto simp: fit_head_def narrow_head_def list_all_iff header_line_def narrow_append fit_header_def simp del: js_simps)
  then have lines: "\<forall>l\<in>set (?first # map header_line hs). 0x0D \<notin> set l \<and> l \<noteq> [] \<and> narrow l"
    using first by auto
  have all: "narrow (join_with CRLF (l # ls))" if "\<forall>m\<in>set (l # ls). narrow m" for l ls
    using that by (induction ls arbitrary: l) (auto simp: join_with_def CRLF_def narrow_append)
  show "find_text HEAD_TERMINATOR (wire verb target hs body) = Some (length (render_head verb target hs))"
    unfolding wire_def render_head_def by (rule find_joined [OF lines])
  have "narrow (render_head verb target hs)" unfolding render_head_def using lines by (intro all) blast
  then show "parseHead (latin1 (take (length (render_head verb target hs)) (wire verb target hs body))) =
      Inr \<lparr>h_method = verb, h_target = target, h_headers = hs, h_body = []\<rparr>"
    using parseHead_render [OF assms(1)] by (simp add: wire_def octets_append latin1_octets)
  show "drop (length (render_head verb target hs) + 4) (wire verb target hs body) = body"
    by (simp add: wire_def octets_append HEAD_TERMINATOR_def)
qed

lemma wire_parsed:
  assumes "fit_head verb target hs" "narrow_head target hs" "states_length hs body"
  shows "parsed (wire verb target hs body) (length (render_head verb target hs)) =
      Inr (\<lparr>h_method = verb, h_target = target, h_headers = hs, h_body = []\<rparr>, if body = [] then NoBody else Fixed (length body))"
    and "missing (wire verb target hs body) (length (render_head verb target hs)) (if body = [] then NoBody else Fixed (length body)) = 0"
  using wire_read [OF assms(1,2)] assms(3)
  by (auto simp: parsed_def states_length_def missing_def wire_def octets_append HEAD_TERMINATOR_def)

lemma wire_verdict:
  assumes "fit_head verb target hs" "narrow_head target hs" "states_length hs body" "accepts \<or> body = []"
  shows "verdict_of accepts (wire verb target hs body) =
      Asks \<lparr>h_method = verb, h_target = target, h_headers = hs, h_body = body\<rparr>"
    and "\<not> excess (wire verb target hs body)"
  using wire_read [OF assms(1,2), of body] wire_parsed [OF assms(1-3)] assms(4)
  by (auto simp: verdict_of_def excess_def)

text \<open>
  C26. A request is delivered as it was written. A request of at most 16 KiB with a fit head that states
  the length of its body, cut into any chunks, calls the handler once, with exactly its verb, target,
  headers and body, and what is sent back is the handler's answer. On a surface that takes no body this
  holds of the requests without one.
\<close>

theorem request_delivered:
  assumes "fit_head verb target hs" and "narrow_head target hs" and "states_length hs body"
    and "accepts \<or> body = []"
    and "concat xs = wire verb target hs body" and "length (wire verb target hs body) \<le> sv_headBytes SERVE_LIMITS"
    and "feed respond accepts xs new_conn w = (c, w')"
  shows "(case answer respond \<lparr>h_method = verb, h_target = target, h_headers = hs, h_body = body\<rparr> w of (a, v) \<Rightarrow>
     cn_sent c = [a] \<and> w' = v) \<and> cn_done c"
  using feed_reading [OF reading_empty _ _ assms(7)] assms(5,6) wire_verdict [OF assms(1-4)]
  by (auto simp: outcome_def new_conn_def split: prod.splits)

text \<open>
  C27. A body can count as head. A request whose head keeps the bound is answered when its body comes in a
  chunk of its own, and refused for the size of its head when all of it comes in one chunk and is
  more than 16 KiB; the comment of the code says a legitimate body must not do that.
\<close>

theorem body_counts_as_head:
  assumes "fit_head verb target hs" and "narrow_head target hs" and "states_length hs body" and "body \<noteq> []"
    and "length (render_head verb target hs) + 4 \<le> sv_headBytes SERVE_LIMITS"
    and "sv_headBytes SERVE_LIMITS < length (wire verb target hs body)"
  shows "(\<exists>c. feed respond True [wire verb target hs body] new_conn w = (c, w) \<and> cn_sent c = [refusal_answer HEAD_TOO_LARGE]) \<and>
    (\<exists>c. feed respond True [octets_of (render_head verb target hs) @ HEAD_TERMINATOR, body] new_conn w =
       (c, snd (answer respond \<lparr>h_method = verb, h_target = target, h_headers = hs, h_body = body\<rparr> w)) \<and>
       cn_sent c = [fst (answer respond \<lparr>h_method = verb, h_target = target, h_headers = hs, h_body = body\<rparr> w)])"
proof
  let ?head = "octets_of (render_head verb target hs) @ HEAD_TERMINATOR" and ?e = "length (render_head verb target hs)"
  let ?rh = "\<lparr>h_method = verb, h_target = target, h_headers = hs, h_body = []\<rparr>"
  show "\<exists>c. feed respond True [wire verb target hs body] new_conn w = (c, w) \<and> cn_sent c = [refusal_answer HEAD_TOO_LARGE]"
    using assms(6) by (simp add: on_chunk_def new_conn_def refuse_def finish_with_def refusal_answer_def Let_def)
  note r = wire_read [OF assms(1,2), of "[]"] and p = wire_parsed [OF assms(1-3)]
  have w: "wire verb target hs [] = ?head" "wire verb target hs body = ?head @ body" by (simp_all add: wire_def)
  have find: "find_text HEAD_TERMINATOR ?head = Some ?e" using r(1) w by simp
  have "parsed ?head ?e = parsed (?head @ body) ?e" using find_bound [OF find] by (intro parsed_append [symmetric]) simp
  then have parsed: "parsed ?head ?e = Inr (?rh, Fixed (length body))" using p(1) assms(4) w by simp
  have "missing ?head ?e (Fixed (length body)) > 0"
    using assms(4) by (simp add: missing_def octets_append HEAD_TERMINATOR_def)
  then have waits: "verdict_of True ?head = Waits" using find parsed by (simp add: verdict_of_def)
  obtain c1 w1 where one: "on_chunk respond True ?head new_conn w = (c1, w1)" by force
  have empty: "cn_buffer new_conn = []" by (simp add: new_conn_def)
  have "reading True c1 \<and> cn_buffer c1 = ?head \<and> w1 = w"
    using on_chunk_step [OF reading_empty _ one] waits assms(5) by (simp add: empty octets_append HEAD_TERMINATOR_def)
  then have c1: "\<not> cn_done c1" "cn_sent c1 = []" "cn_buffer c1 = ?head" "w1 = w"
    "cn_head c1 = Some (?e, ?rh, Fixed (length body))"
    using find parsed by (auto simp: reading_def)
  have miss: "missing (?head @ body) ?e (Fixed (length body)) = 0" using p(2) assms(4) w by simp
  have "drop (?e + 4) (?head @ body) = body" using wire_read(3) [OF assms(1,2), of body] w by simp
  then have "on_chunk respond True body c1 w =
      (case answer respond (?rh\<lparr>h_body := body\<rparr>) w of (a, w) \<Rightarrow>
         (c1\<lparr>cn_buffer := ?head @ body, cn_done := True, cn_sent := [a]\<rparr>, w))"
    using c1 miss on_body_missing [of ?e "c1\<lparr>cn_buffer := ?head @ body\<rparr>" respond ?rh "Fixed (length body)" w] find_bound [OF find]
    by (simp add: on_chunk_def Let_def)
  then show "\<exists>c. feed respond True [?head, body] new_conn w =
       (c, snd (answer respond \<lparr>h_method = verb, h_target = target, h_headers = hs, h_body = body\<rparr> w)) \<and>
       cn_sent c = [fst (answer respond \<lparr>h_method = verb, h_target = target, h_headers = hs, h_body = body\<rparr> w)]"
    using one c1 by (simp split: prod.splits)
qed

subsection \<open>A server with its connections\<close>

inductive serving :: "'w handler \<Rightarrow> bool \<Rightarrow> nat \<Rightarrow> 'w server \<Rightarrow> bool" for respond accepts n where
  started: "serving respond accepts n \<lparr>sr_conns = [], sr_counter = new_counter n, sr_world = w\<rparr>"
| connects: "serving respond accepts n s \<Longrightarrow> \<not> map_has (sr_conns s) i \<Longrightarrow> serving respond accepts n (on_connection i s)"
| sends: "serving respond accepts n s \<Longrightarrow> serving respond accepts n (on_data_of respond accepts i x s)"
| expires: "serving respond accepts n s \<Longrightarrow> serving respond accepts n (on_timeout_of i s)"
| fails: "serving respond accepts n s \<Longrightarrow> serving respond accepts n (on_error_of i s)"
| closes: "serving respond accepts n s \<Longrightarrow> serving respond accepts n (on_close i s)"

text \<open>A connection holds little while it is read and sends one answer at most.\<close>

definition conn_ok :: "conn \<Rightarrow> bool" where
  "conn_ok c \<longleftrightarrow> length (cn_sent c) \<le> 1 \<and>
     (\<not> cn_done c \<longrightarrow> cn_sent c = [] \<and>
       (case cn_head c of
          None \<Rightarrow> length (cn_buffer c) \<le> 16384
        | Some (e, rh, frame) \<Rightarrow> e + 4 \<le> 16384 \<and> e + 4 \<le> length (cn_buffer c) \<and>
            missing (cn_buffer c) e frame > 0 \<and> (\<forall>k. frame = Fixed k \<longrightarrow> k \<le> 8192)))"

lemma conn_ok_buffer: "conn_ok c \<Longrightarrow> \<not> cn_done c \<Longrightarrow> length (cn_buffer c) \<le> 16384 + 8192"
  by (auto simp: conn_ok_def missing_def split: option.splits prod.splits body_framing.splits)

lemma framing_limit: "framing hs k = Inr (Fixed m) \<Longrightarrow> m \<le> k"
  by (auto simp: framing_def Let_def split: option.splits if_splits)

lemma on_body_ok:
  assumes "e + 4 \<le> 16384" "e + 4 \<le> length (cn_buffer c)" "\<not> cn_done c" "cn_sent c = []"
    "cn_head c = Some (e, rh, frame)" "\<forall>k. frame = Fixed k \<longrightarrow> k \<le> 8192"
  shows "conn_ok (fst (on_body respond e rh frame c w))"
  using assms by (auto simp: on_body_missing conn_ok_def split: prod.splits)

lemma on_chunk_ok:
  assumes "conn_ok c"
  shows "conn_ok (fst (on_chunk respond acc x c w))"
proof (cases "cn_done c")
  case False
  let ?c = "c\<lparr>cn_buffer := cn_buffer c @ x\<rparr>"
  have sent: "cn_sent c = []" using assms False by (simp add: conn_ok_def)
  have refused: "conn_ok (refuse code ?c)" "conn_ok (refuse code (?c\<lparr>cn_head := h\<rparr>))" for code h
    using False sent by (simp_all add: refuse_def finish_with_def conn_ok_def)
  show ?thesis
  proof (cases "cn_head c")
    case None
    show ?thesis
    proof (cases "length (cn_buffer ?c) > 16384 \<or> find_text HEAD_TERMINATOR (cn_buffer ?c) = None")
      case True
      moreover have "conn_ok ?c" if "length (cn_buffer ?c) \<le> 16384"
        using that False sent None by (simp add: conn_ok_def)
      ultimately show ?thesis using False None refused(1) by (auto simp: on_chunk_def Let_def not_less)
    next
      case small: False
      then obtain e where e: "find_text HEAD_TERMINATOR (cn_buffer ?c) = Some e" by auto
      note bound = find_bound [OF e]
      have "conn_ok (fst (on_body respond e rh frame (?c\<lparr>cn_head := Some (e, rh, frame)\<rparr>) w))"
        if "framing hs 8192 = Inr frame" for hs rh frame
        using that bound small False sent framing_limit by (intro on_body_ok) auto
      then show ?thesis
        using False None small e refused by (auto simp: on_chunk_def Let_def split: sum.split)
    qed
  next
    case (Some h)
    obtain e rh frame where h: "h = (e, rh, frame)" by (cases h)
    then have "conn_ok (fst (on_body respond e rh frame ?c w))"
      using assms False Some sent by (intro on_body_ok) (auto simp: conn_ok_def)
    then show ?thesis using False Some h by (simp add: on_chunk_def Let_def)
  qed
qed (use assms in \<open>simp add: on_chunk_def\<close>)

definition admitted :: "'w server \<Rightarrow> nat" where
  "admitted s = length (filter (snd \<circ> snd) (sr_conns s))"

lemma map_set_fresh: "\<not> map_has m k \<Longrightarrow> map_set k v m = m @ [(k, v)]"
  by (induction m) auto

lemma filter_map_set:
  "map_get m k = Some (c, a) \<Longrightarrow> distinct (map fst m) \<Longrightarrow>
    length (filter (snd \<circ> snd) (map_set k (c', a) m)) = length (filter (snd \<circ> snd) m)"
  by (induction m) (auto split: if_splits)

lemma filter_map_delete:
  "map_get m k = Some (c, a) \<Longrightarrow> distinct (map fst m) \<Longrightarrow>
    length (filter (snd \<circ> snd) m) = length (filter (snd \<circ> snd) (map_delete k m)) + (if a then 1 else 0)"
proof (induction m)
  case (Cons p m)
  have "map_delete k m = m" if "fst p = k" using Cons.prems(2) that by (auto simp: delete_id)
  then show ?case using Cons by (cases p) auto
qed simp

definition server_ok :: "nat \<Rightarrow> 'w server \<Rightarrow> bool" where
  "server_ok n s \<longleftrightarrow> distinct (map fst (sr_conns s)) \<and> cc_cap (sr_counter s) = n \<and>
     cc_open (sr_counter s) = admitted s \<and> admitted s \<le> n \<and>
     (\<forall>i c. (i, c, False) \<in> set (sr_conns s) \<longrightarrow> cn_sent c = [over_cap_answer]) \<and>
     (\<forall>i c. (i, c, True) \<in> set (sr_conns s) \<longrightarrow> conn_ok c)"

lemma with_conn_ok:
  assumes "server_ok n s" and keeps: "\<And>c w. conn_ok c \<Longrightarrow> conn_ok (fst (f c w))"
  shows "server_ok n (with_conn i f s)"
proof (cases "map_get (sr_conns s) i")
  case (Some ca)
  note inv = assms(1) [unfolded server_ok_def]
  obtain c a where ca: "ca = (c, a)" by force
  obtain c' w where step: "f c (sr_world s) = (c', w)" by force
  have mem: "(i, c, a) \<in> set (sr_conns s)" using Some ca by (simp add: map_of_SomeD)
  let ?c = "if a then c' else c'\<lparr>cn_sent := cn_sent c\<rparr>"
  have s': "with_conn i f s = s\<lparr>sr_conns := map_set i (?c, a) (sr_conns s), sr_world := w\<rparr>"
    using Some ca step by (simp add: with_conn_def)
  have c': "a \<Longrightarrow> conn_ok c'" using keeps [of c "sr_world s"] inv mem step by auto
  have old: "cn_sent c = [over_cap_answer]" if "\<not> a"
  proof -
    from mem that have "(i, c, False) \<in> set (sr_conns s)" by simp
    with inv show ?thesis by blast
  qed
  have d: "distinct (map fst (map_set i (?c, a) (sr_conns s)))" using inv by (intro distinct_map_set) blast
  have only: "j = i \<and> cb = (?c, a) \<or> (j, cb) \<in> set (sr_conns s)"
    if "(j, cb) \<in> set (map_set i (?c, a) (sr_conns s))" for j cb
    using map_of_is_SomeI [OF d that] map_of_SomeD [of "sr_conns s" j cb] by (auto split: if_splits)
  have "cn_sent cn = [over_cap_answer]" if "(j, cn, False) \<in> set (map_set i (?c, a) (sr_conns s))" for j cn
    using only [OF that] old inv by auto
  moreover have "conn_ok cn" if "(j, cn, True) \<in> set (map_set i (?c, a) (sr_conns s))" for j cn
    using only [OF that] c' inv by auto
  ultimately show ?thesis
    using inv d filter_map_set [OF Some [unfolded ca], of ?c] by (simp add: s' server_ok_def admitted_def)
qed (use assms in \<open>simp add: with_conn_def\<close>)

lemma conn_ok_ends: "conn_ok c \<Longrightarrow> conn_ok (on_timeout c)" "conn_ok c \<Longrightarrow> conn_ok (on_error c)"
  by (simp_all add: on_timeout_def on_error_def finish_with_def conn_ok_def)

lemma server_inv: "serving respond acc n s \<Longrightarrow> server_ok n s"
proof (induction rule: serving.induct)
  case (started w)
  then show ?case by (simp add: server_ok_def admitted_def new_counter_def)
next
  case (connects s i)
  then show ?case
    by (auto simp: server_ok_def on_connection_def admit_def admitted_def map_set_fresh new_conn_def conn_ok_def)
next
  case (sends s i x)
  from with_conn_ok [OF sends.IH] show ?case unfolding on_data_of_def by (simp add: on_chunk_ok)
next
  case (expires s i)
  from with_conn_ok [OF expires.IH] show ?case unfolding on_timeout_of_def by (simp add: conn_ok_ends)
next
  case (fails s i)
  from with_conn_ok [OF fails.IH] show ?case unfolding on_error_of_def by (simp add: conn_ok_ends)
next
  case (closes s i)
  note inv = closes.IH [unfolded server_ok_def]
  show ?case
  proof (cases "map_get (sr_conns s) i")
    case (Some ca)
    obtain c a where ca: "ca = (c, a)" by force
    have "set (map_delete i (sr_conns s)) \<subseteq> set (sr_conns s)" by (rule set_map_delete)
    moreover have "distinct (map fst (map_delete i (sr_conns s)))" using inv by (intro distinct_delete) blast
    ultimately show ?thesis
      using inv filter_map_delete [OF Some [unfolded ca]]
      by (auto simp: server_ok_def on_close_def Some ca admitted_def release_def split: if_splits)
  qed (use closes.IH in \<open>simp add: on_close_def\<close>)
qed

text \<open>
  C28. The slots are counted exactly. Whatever sockets do, the slots in use are the admitted connections
  that have not closed, never more than the cap; each of them has sent one answer at most and holds at
  most 24 KiB while it is read; a socket over the cap gets the 503 and nothing else.
\<close>

theorem connections_counted:
  assumes "serving respond accepts n s"
  shows "inUse (sr_counter s) = admitted s \<and> admitted s \<le> n \<and>
    (\<forall>i c. (i, c, True) \<in> set (sr_conns s) \<longrightarrow> length (cn_sent c) \<le> 1 \<and>
       (\<not> cn_done c \<longrightarrow> length (cn_buffer c) \<le> sv_headBytes SERVE_LIMITS + sv_bodyBytes SERVE_LIMITS)) \<and>
    (\<forall>i c. (i, c, False) \<in> set (sr_conns s) \<longrightarrow> cn_sent c = [over_cap_answer])"
  using server_inv [OF assms] conn_ok_buffer by (auto simp: server_ok_def inUse_def conn_ok_def)

text \<open>
  The cap does not keep a request from being handled. A socket over the cap is told 503, and a
  request it sends all the same reaches the handler, whose effect on the world stays.
\<close>

theorem over_cap_handled:
  assumes "cc_cap (sr_counter s) \<le> cc_open (sr_counter s)" and "\<not> map_has (sr_conns s) i"
    and "fit_head verb target hs" and "narrow_head target hs" and "states_length hs body"
    and "accepts \<or> body = []"
    and "length (wire verb target hs body) \<le> sv_headBytes SERVE_LIMITS"
  shows "let s' = on_data_of respond accepts i (wire verb target hs body) (on_connection i s) in
    sr_world s' = snd (answer respond \<lparr>h_method = verb, h_target = target, h_headers = hs, h_body = body\<rparr> (sr_world s)) \<and>
    (\<exists>c. map_get (sr_conns s') i = Some (c, False) \<and> cn_sent c = [over_cap_answer])"
proof -
  let ?refused = "new_conn\<lparr>cn_sent := [over_cap_answer]\<rparr>"
  have same: "snd (on_chunk respond accepts x ?refused w) = snd (on_chunk respond accepts x new_conn w)" for x w
    by (auto simp: on_chunk_def Let_def new_conn_def on_body_def split: option.split sum.split prod.split)
  obtain c w' where f: "on_chunk respond accepts (wire verb target hs body) new_conn (sr_world s) = (c, w')" by force
  moreover have "w' = snd (answer respond \<lparr>h_method = verb, h_target = target, h_headers = hs, h_body = body\<rparr> (sr_world s))"
    using on_chunk_step [OF reading_empty _ f] assms(7) wire_verdict [OF assms(3-6)]
    by (auto simp: outcome_def new_conn_def split: prod.splits)
  moreover obtain c2 w2 where "on_chunk respond accepts (wire verb target hs body) ?refused (sr_world s) = (c2, w2)" by force
  ultimately show ?thesis
    using same [of "wire verb target hs body" "sr_world s"] assms(1)
    by (simp add: on_connection_def admit_def on_data_of_def with_conn_def Let_def)
qed

subsection \<open>What a lenient line end hides\<close>

text \<open>
  Lines end with CR LF only. A bare LF is part of a value, so a header that other readers of HTTP see
  is not seen here: this head is accepted with one header and without a transfer encoding.
\<close>

lemma bare_line_feed:
  "header_lines [js ''a: b'' @ [0x0A] @ js ''transfer-encoding: chunked''] [] =
     Inr [(js ''a'', js ''b'' @ [0x0A] @ js ''transfer-encoding: chunked'')]"
  by (simp add: COLON_def toLowerCase_def lower_unit_def token_unit_def is_lower_def is_digit_def trim_def js_space_def Let_def)

subsection \<open>A concrete surface\<close>

text \<open>A handler that counts its calls.\<close>

definition counting_handler :: "nat handler" where
  "counting_handler rh w = (Some (200, [], h_body rh), Suc w)"

definition sample_headers :: headers where
  "sample_headers = [(js ''content-length'', js ''8000''), (js ''x'', replicate 9000 0x61)]"

lemma trim_none:
  assumes "\<forall>u\<in>set v. \<not> js_space u"
  shows "trim v = v"
proof -
  have "dropWhile js_space w = w" if "set w \<subseteq> set v" for w
    using that assms by (cases w) auto
  then show ?thesis by (simp add: trim_def)
qed

lemma sample_fit: "fit_head (js ''POST'') (js ''/'') sample_headers" "narrow_head (js ''/'') sample_headers"
proof -
  have "trim (replicate 9000 0x61) = replicate 9000 (0x61 :: 16 word)"
    by (rule trim_none) (simp add: js_space_def del: replicate.simps)
  moreover have "0x0D \<notin> set (replicate 9000 (0x61 :: 16 word))" "narrow (replicate 9000 0x61)"
    by (simp_all add: narrow_def list_all_iff del: replicate.simps)
  moreover have "narrow (js ''8000'')" "narrow (js ''/'')" by (rule narrow_js)+
  moreover have "trim (js ''8000'') = js ''8000''" by (rule trim_none) (simp add: js_space_def)
  ultimately show "fit_head (js ''POST'') (js ''/'') sample_headers" "narrow_head (js ''/'') sample_headers"
    by (simp_all add: fit_head_def sample_headers_def fit_header_def upper_unit_def token_unit_def is_lower_def
        is_digit_def narrow_head_def)
qed

lemma sample_states: "states_length sample_headers (replicate 8000 7)"
proof -
  have "(replicate 8000 7 :: bytes) \<noteq> []" by (simp only: replicate_empty)
  moreover have "framing sample_headers 8192 = Inr (Fixed 8000)"
    by (simp add: framing_def sample_headers_def is_digit_def digits_value_def Let_def del: replicate.simps)
  ultimately show ?thesis by (simp add: states_length_def del: replicate.simps)
qed

lemma sample_length: "length (render_head (js ''POST'') (js ''/'') sample_headers) = 9042"
  by (simp add: render_head_def join_with_def sample_headers_def header_line_def CRLF_def del: replicate.simps)

lemma small_fit: "fit_head (js ''GET'') (js ''/'') []" "narrow_head (js ''/'') []" "states_length [] []"
  using narrow_js [of "''/''"]
  by (simp_all add: fit_head_def narrow_head_def states_length_def framing_def upper_unit_def)

lemma small_length: "length (wire (js ''GET'') (js ''/'') [] []) \<le> 16384"
  by (simp add: wire_def octets_append render_head_def join_with_def HEAD_TERMINATOR_def)

theorem request_delivered_witness:
  "\<exists>c. feed counting_handler True [take 3 (wire (js ''GET'') (js ''/'') [] []), drop 3 (wire (js ''GET'') (js ''/'') [] [])] new_conn 0 = (c, 1) \<and>
     cn_sent c = [writeHttp 200 [] [] False]"
proof -
  let ?xs = "[take 3 (wire (js ''GET'') (js ''/'') [] []), drop 3 (wire (js ''GET'') (js ''/'') [] [])]"
  obtain c w' where f: "feed counting_handler True ?xs new_conn 0 = (c, w')" by force
  have "concat ?xs = wire (js ''GET'') (js ''/'') [] []" by simp
  from request_delivered [OF small_fit _ this _ f] small_length f show ?thesis
    by (auto simp: answer_def counting_handler_def)
qed

theorem chunking_independent_witness:
  "\<exists>c w'. feed counting_handler True [take 3 (wire (js ''GET'') (js ''/'') [] []), drop 3 (wire (js ''GET'') (js ''/'') [] [])] new_conn 0 = (c, w') \<and>
     (cn_sent c, w') = outcome counting_handler (verdict_of True (wire (js ''GET'') (js ''/'') [] [])) 0"
proof -
  let ?W = "wire (js ''GET'') (js ''/'') [] []"
  let ?xs = "[take 3 ?W, drop 3 ?W]"
  obtain c w' where f: "feed counting_handler True ?xs new_conn 0 = (c, w')" by force
  have all: "concat ?xs = ?W" by simp
  have "\<not> excess ?W" using wire_read(1) [OF small_fit(1,2), of "[]"] wire_parsed [OF small_fit] by (auto simp: excess_def)
  then show ?thesis
    using chunking_independent [OF _ _ f, unfolded all] f small_length by auto
qed

theorem body_counts_as_head_witness:
  "\<exists>c. feed counting_handler True [wire (js ''POST'') (js ''/'') sample_headers (replicate 8000 7)] new_conn 0 = (c, 0) \<and>
     cn_sent c = [refusal_answer HEAD_TOO_LARGE]"
proof -
  have n: "(replicate 8000 7 :: bytes) \<noteq> []" by (simp only: replicate_empty)
  have "length (render_head (js ''POST'') (js ''/'') sample_headers) + 4 \<le> sv_headBytes SERVE_LIMITS"
    by (simp only: sample_length serve_limits_simps)
  moreover have "sv_headBytes SERVE_LIMITS < length (wire (js ''POST'') (js ''/'') sample_headers (replicate 8000 7))"
    by (simp only: wire_def octets_of_def length_map length_append sample_length serve_limits_simps length_replicate)
  ultimately show ?thesis
    using body_counts_as_head [OF sample_fit sample_states n, of counting_handler 0] by blast
qed

theorem connections_counted_witness:
  "inUse (sr_counter (on_connection 7 \<lparr>sr_conns = [], sr_counter = new_counter 256, sr_world = 0 :: nat\<rparr>)) \<le> 256"
proof -
  have "serving counting_handler True 256 (on_connection 7 \<lparr>sr_conns = [], sr_counter = new_counter 256, sr_world = 0\<rparr>)"
    by (intro serving.connects serving.started) simp
  note counted = connections_counted [OF this]
  show ?thesis using conjunct1 [OF counted] conjunct1 [OF conjunct2 [OF counted]] by (simp only:)
qed

theorem over_cap_handled_witness:
  "sr_world (on_data_of counting_handler True 7 (wire (js ''GET'') (js ''/'') [] [])
     (on_connection 7 \<lparr>sr_conns = [], sr_counter = new_counter 0, sr_world = 0\<rparr>)) = 1"
  using over_cap_handled [of "\<lparr>sr_conns = [], sr_counter = new_counter 0, sr_world = 0\<rparr>" 7, OF _ _ small_fit, of True counting_handler]
    small_length by (simp add: new_counter_def Let_def answer_def counting_handler_def)

end
