(* ===== verification/Blockx.thy ===== *)
theory Blockx
  imports Domain
begin

section \<open>Block exchange messages\<close>

text \<open>
  registry/src/blockx.ts: the four messages peers exchange blocks with, their bounds, the largest
  reply that fits a message and the one refusal that answers a request. The version constant, the
  topic text and the descriptions of the messages carry no behaviour; error texts are left out.
  A thrown \<open>BlockExchangeError\<close> is its code, an exception of the CBOR encoder is kept apart.
\<close>

definition BLOCK_EXCHANGE_VERSION :: int where "BLOCK_EXCHANGE_VERSION = 1"

definition BLOCK_EXCHANGE_TOPIC_PREIMAGE :: jsstr where
  "BLOCK_EXCHANGE_TOPIC_PREIMAGE = js ''VayuWeb-BlockExchange-v1''"

record bx_limits =
  bx_messageBytes :: nat
  bx_blockBytes :: nat
  bx_wantCids :: nat
  bx_blocksPerMessage :: nat
  bx_cidBytes :: nat
  bx_outstandingWants :: nat
  bx_unrequestedBlocks :: nat

definition BX_LIMITS :: bx_limits where
  "BX_LIMITS =
     \<lparr>bx_messageBytes = 1114112, bx_blockBytes = 1048576, bx_wantCids = 64, bx_blocksPerMessage = 64,
      bx_cidBytes = 64, bx_outstandingWants = 8, bx_unrequestedBlocks = 16\<rparr>"

lemma bx_limits_simps [simp]:
  "bx_messageBytes BX_LIMITS = 1114112" "bx_blockBytes BX_LIMITS = 1048576" "bx_wantCids BX_LIMITS = 64"
  "bx_blocksPerMessage BX_LIMITS = 64" "bx_cidBytes BX_LIMITS = 64"
  by (simp_all add: BX_LIMITS_def)

datatype block_message =
    BHELLO int int
  | BWANT "bytes list"
  | BLOCKS "bytes list"
  | BDONE "bytes list"

datatype block_rejection = BX_TOO_LARGE | BX_NON_CANONICAL | BX_MALFORMED | BX_UNKNOWN_TYPE | BX_LIMIT_EXCEEDED

datatype block_error = BX_EXCHANGE block_rejection | BX_ENCODING cbor_error

subsection \<open>Encoding\<close>

text \<open>
  The set of seen identifiers is a set of texts \<open>cid.join(',')\<close> in the code. Two byte strings have
  the same text only if they are equal, so the model compares the bytes.
\<close>

fun assert_distinct :: "bytes list \<Rightarrow> bytes set \<Rightarrow> block_error option" where
  "assert_distinct [] seen = None"
| "assert_distinct (cid # cids) seen =
     (if cid \<in> seen then Some (BX_EXCHANGE BX_MALFORMED) else assert_distinct cids (insert cid seen))"

definition assertDistinct :: "bytes list \<Rightarrow> block_error option" where
  "assertDistinct cids = assert_distinct cids {}"

definition type_entry :: "string \<Rightarrow> cbor_key \<times> cbor" where
  "type_entry t = (KText (js ''t''), CText (js t))"

definition block_map :: "block_message \<Rightarrow> block_error + cbor_map" where
  "block_map message =
     (case message of
        BHELLO v m \<Rightarrow>
          failIf (m > int (bx_blockBytes BX_LIMITS)) (BX_EXCHANGE BX_LIMIT_EXCEEDED)
            (Inr [type_entry ''BHELLO'', (KText (js ''v''), CNum v), (KText (js ''max''), CNum m)])
      | BWANT cids \<Rightarrow>
          (case assertDistinct cids of
             Some e \<Rightarrow> Inl e
           | None \<Rightarrow> Inr [type_entry ''BWANT'', (KText (js ''cids''), CArr (map CBytes cids))])
      | BDONE cids \<Rightarrow>
          (case assertDistinct cids of
             Some e \<Rightarrow> Inl e
           | None \<Rightarrow> Inr [type_entry ''BDONE'', (KText (js ''cids''), CArr (map CBytes cids))])
      | BLOCKS blks \<Rightarrow> Inr [type_entry ''BLOCKS'', (KText (js ''blks''), CArr (map CBytes blks))])"

definition encodeBlockMessage :: "block_message \<Rightarrow> block_error + bytes" where
  "encodeBlockMessage message =
     bindE (block_map message) (\<lambda>m.
       case encode (CMap m) of
         Inl e \<Rightarrow> Inl (BX_ENCODING e)
       | Inr bs \<Rightarrow> failIf (length bs > bx_messageBytes BX_LIMITS) (BX_EXCHANGE BX_TOO_LARGE) (Inr bs))"

subsection \<open>Replies\<close>

text \<open>
  The loop of \<open>blocksReplyFor\<close>: \<open>n\<close> candidates are left, \<open>k\<close> is the next one, \<open>best\<close> the last that
  encoded.
\<close>

primrec reply_loop :: "bytes list \<Rightarrow> nat \<Rightarrow> nat \<Rightarrow> (nat \<times> bytes) option \<Rightarrow> (nat \<times> bytes) option" where
  "reply_loop blocks 0 k best = best"
| "reply_loop blocks (Suc n) k best =
     (case encodeBlockMessage (BLOCKS (take k blocks)) of
        Inl _ \<Rightarrow> best
      | Inr encoded \<Rightarrow> reply_loop blocks n (Suc k) (Some (k, encoded)))"

definition blocksReplyFor :: "bytes list \<Rightarrow> block_error + nat \<times> bytes" where
  "blocksReplyFor blocks =
     (let room = min (length blocks) (bx_blocksPerMessage BX_LIMITS)
      in case reply_loop blocks room 1 None of
           Some best \<Rightarrow> Inr best
         | None \<Rightarrow> bindE (encodeBlockMessage (BLOCKS (take 1 blocks))) (\<lambda>encoded. Inr (1, encoded)))"

definition blockDoneFor :: "bytes list \<Rightarrow> bytes list \<Rightarrow> block_error + block_message" where
  "blockDoneFor want unanswered =
     (if \<exists>cid\<in>set unanswered. cid \<notin> set want then Inl (BX_EXCHANGE BX_MALFORMED)
      else Inr (BDONE (filter (\<lambda>cid. cid \<in> set unanswered) want)))"

subsection \<open>Decoding\<close>

definition bx_uint :: "cbor_map \<Rightarrow> string \<Rightarrow> block_error + int" where
  "bx_uint m key =
     (case field m key of
        Some (CNum n) \<Rightarrow>
          failIf (n > MAX_SAFE_INTEGER \<or> n < - MAX_SAFE_INTEGER \<or> n < 0) (BX_EXCHANGE BX_MALFORMED) (Inr n)
      | _ \<Rightarrow> Inl (BX_EXCHANGE BX_MALFORMED))"

definition bounded_bytes :: "nat \<Rightarrow> cbor \<Rightarrow> block_error + bytes" where
  "bounded_bytes each entry =
     (case entry of
        CBytes b \<Rightarrow> failIf (length b > each) (BX_EXCHANGE BX_LIMIT_EXCEEDED) (Inr b)
      | _ \<Rightarrow> Inl (BX_EXCHANGE BX_MALFORMED))"

definition bstrArray :: "cbor_map \<Rightarrow> string \<Rightarrow> nat \<Rightarrow> nat \<Rightarrow> block_error + bytes list" where
  "bstrArray m key limit each =
     (case field m key of
        Some (CArr entries) \<Rightarrow>
          failIf (length entries > limit) (BX_EXCHANGE BX_LIMIT_EXCEEDED) (mapE (bounded_bytes each) entries)
      | _ \<Rightarrow> Inl (BX_EXCHANGE BX_MALFORMED))"

definition decode_block_fields :: "cbor_map \<Rightarrow> jsstr \<Rightarrow> block_error + block_message" where
  "decode_block_fields m type =
     (if type = js ''BHELLO'' then
        bindE (bx_uint m ''v'') (\<lambda>v. bindE (bx_uint m ''max'') (\<lambda>n. Inr (BHELLO v n)))
      else if type = js ''BWANT'' then
        bindE (bstrArray m ''cids'' (bx_wantCids BX_LIMITS) (bx_cidBytes BX_LIMITS)) (\<lambda>cids. Inr (BWANT cids))
      else if type = js ''BDONE'' then
        bindE (bstrArray m ''cids'' (bx_wantCids BX_LIMITS) (bx_cidBytes BX_LIMITS)) (\<lambda>cids. Inr (BDONE cids))
      else if type = js ''BLOCKS'' then
        bindE (bstrArray m ''blks'' (bx_blocksPerMessage BX_LIMITS) (bx_blockBytes BX_LIMITS)) (\<lambda>blks.
          Inr (BLOCKS blks))
      else Inl (BX_EXCHANGE BX_UNKNOWN_TYPE))"

definition decodeBlockMessage :: "bytes \<Rightarrow> block_error + block_message" where
  "decodeBlockMessage bs =
     failIf (length bs > bx_messageBytes BX_LIMITS) (BX_EXCHANGE BX_TOO_LARGE)
       (case decode bs of
          Inl _ \<Rightarrow> Inl (BX_EXCHANGE BX_NON_CANONICAL)
        | Inr (CMap m) \<Rightarrow>
            (case field m ''t'' of
               Some (CText type) \<Rightarrow> decode_block_fields m type
             | _ \<Rightarrow> Inl (BX_EXCHANGE BX_MALFORMED))
        | Inr _ \<Rightarrow> Inl (BX_EXCHANGE BX_MALFORMED))"

subsection \<open>Messages within the bounds\<close>

definition within_bounds :: "nat \<Rightarrow> nat \<Rightarrow> bytes list \<Rightarrow> bool" where
  "within_bounds limit each bs \<longleftrightarrow> length bs \<le> limit \<and> (\<forall>b\<in>set bs. length b \<le> each)"

text \<open>What the decoder lets through: the bounds on counts and sizes, and nothing about repeats.\<close>

definition valid_block_message :: "block_message \<Rightarrow> bool" where
  "valid_block_message message \<longleftrightarrow>
     (case message of
        BHELLO v m \<Rightarrow> 0 \<le> v \<and> v \<le> MAX_SAFE_INTEGER \<and> 0 \<le> m \<and> m \<le> MAX_SAFE_INTEGER
      | BWANT cids \<Rightarrow> within_bounds 64 64 cids
      | BDONE cids \<Rightarrow> within_bounds 64 64 cids
      | BLOCKS blks \<Rightarrow> within_bounds 64 1048576 blks)"

lemma assert_distinct_None: "assert_distinct cids seen = None \<longleftrightarrow> distinct cids \<and> set cids \<inter> seen = {}"
  by (induction cids arbitrary: seen) auto

lemma assert_distinct_Some: "assert_distinct cids seen = Some e \<Longrightarrow> e = BX_EXCHANGE BX_MALFORMED"
  by (induction cids arbitrary: seen) (auto split: if_splits)

lemma assertDistinct_eq: "assertDistinct cids = (if distinct cids then None else Some (BX_EXCHANGE BX_MALFORMED))"
  using assert_distinct_None [of cids "{}"] assert_distinct_Some [of cids "{}"]
  by (cases "assert_distinct cids {}") (auto simp: assertDistinct_def)

lemma mapE_bounded: "mapE (bounded_bytes each) (map CBytes bs) = Inr out \<longleftrightarrow> out = bs \<and> (\<forall>b\<in>set bs. length b \<le> each)"
  by (induction bs arbitrary: out) (auto simp: bounded_bytes_def errs split: if_splits)

lemma mapE_bounded_Inr: "mapE (bounded_bytes each) es = Inr out \<Longrightarrow> es = map CBytes out \<and> (\<forall>b\<in>set out. length b \<le> each)"
  by (induction es arbitrary: out) (auto simp: bounded_bytes_def errs split: if_splits cbor.splits)

lemma bstrArray_bounds: "bstrArray m key limit each = Inr out \<Longrightarrow> within_bounds limit each out"
  by (auto simp: bstrArray_def within_bounds_def split: option.splits cbor.splits if_splits
      dest: mapE_length mapE_bounded_Inr)

lemma bx_uint_bounds: "bx_uint m key = Inr n \<Longrightarrow> 0 \<le> n \<and> n \<le> MAX_SAFE_INTEGER"
  by (auto simp: bx_uint_def split: option.splits cbor.splits if_splits)

lemma decode_block_fields_valid: "decode_block_fields m type = Inr message \<Longrightarrow> valid_block_message message"
  by (auto simp: decode_block_fields_def valid_block_message_def bindE_eq_Inr simp del: js_simps
      split: if_splits dest: bstrArray_bounds bx_uint_bounds)

lemma decodeBlockMessage_valid: "decodeBlockMessage bs = Inr m \<Longrightarrow> valid_block_message m \<and> length bs \<le> 1114112"
  by (auto simp: decodeBlockMessage_def split: if_splits sum.splits cbor.splits option.splits
      dest: decode_block_fields_valid)

lemma mapE_bounded_Inl: "mapE (bounded_bytes each) es = Inl e \<Longrightarrow> e \<in> {BX_EXCHANGE BX_MALFORMED, BX_EXCHANGE BX_LIMIT_EXCEEDED}"
  by (induction es) (auto simp: bounded_bytes_def errs split: cbor.splits if_splits)

lemma decodeBlockMessage_error: "decodeBlockMessage bs = Inl e \<Longrightarrow> e \<noteq> BX_ENCODING x"
  by (auto simp: decodeBlockMessage_def decode_block_fields_def bx_uint_def bstrArray_def errs simp del: js_simps
      split: if_splits sum.splits option.splits cbor.splits dest: mapE_bounded_Inl)
lemma bstrArray_back:
  "field c key = Some (CArr (map CBytes bs)) \<Longrightarrow> length bs \<le> limit \<Longrightarrow>
    bstrArray c key limit each =
      (if \<forall>b\<in>set bs. length b \<le> each then Inr bs else mapE (bounded_bytes each) (map CBytes bs))"
  using mapE_bounded [of each bs bs] by (simp add: bstrArray_def)

lemma bx_uint_back:
  "field c key = Some (CNum n) \<Longrightarrow> 0 \<le> n \<and> n \<le> MAX_SAFE_INTEGER \<Longrightarrow> bx_uint c key = Inr n"
  by (auto simp: bx_uint_def MAX_SAFE_INTEGER_def)

text \<open>The decoder on the bytes of an encoded message: only the bounds are left to check.\<close>

lemma decode_encoded:
  assumes "encodeBlockMessage message = Inr bs"
  obtains m c where "block_map message = Inr m" "encode (CMap m) = Inr bs" "decode bs = Inr (CMap c)"
    "\<forall>k. map_of c k = map_option canon (map_of m k)" "length bs \<le> 1114112"
proof -
  obtain m where m: "block_map message = Inr m" "encode (CMap m) = Inr bs" "length bs \<le> 1114112"
    using assms by (auto simp: encodeBlockMessage_def split: sum.splits if_splits)
  obtain c where "decode bs = Inr (CMap c)" "\<forall>k. map_of c k = map_option canon (map_of m k)"
    by (rule decode_map [OF m(2)])
  with m show ?thesis by (intro that)
qed

lemma block_message_back:
  assumes "encodeBlockMessage message = Inr bs" and "valid_block_message message"
  shows "decodeBlockMessage bs = Inr message"
proof -
  obtain m c where m: "block_map message = Inr m" "encode (CMap m) = Inr bs" "decode bs = Inr (CMap c)"
    "\<forall>k. map_of c k = map_option canon (map_of m k)" "length bs \<le> 1114112"
    by (rule decode_encoded [OF assms(1)])
  note d = decodeBlockMessage_def decode_block_fields_def block_map_def type_entry_def comp_def
  show ?thesis
  proof (cases message)
    case (BHELLO v n)
    then show ?thesis
      using m assms(2) by (auto simp: d valid_block_message_def bx_uint_back simp del: js_simps split: if_splits)
  next
    case (BWANT cids)
    then show ?thesis
      using m assms(2)
      by (auto simp: d valid_block_message_def within_bounds_def bstrArray_back simp del: js_simps split: option.splits)
  next
    case (BDONE cids)
    then show ?thesis
      using m assms(2)
      by (auto simp: d valid_block_message_def within_bounds_def bstrArray_back simp del: js_simps split: option.splits)
  next
    case (BLOCKS blks)
    then show ?thesis
      using m assms(2)
      by (auto simp: d valid_block_message_def within_bounds_def bstrArray_back simp del: js_simps)
  qed
qed

subsection \<open>The size of a reply\<close>

definition blocks_prefix :: bytes where
  "blocks_prefix = [0xA2, 0x61, 0x74, 0x66, 0x42, 0x4C, 0x4F, 0x43, 0x4B, 0x53, 0x64, 0x62, 0x6C, 0x6B, 0x73]"

lemma encode_blocks:
  "encodeBlockMessage (BLOCKS blks) =
     (case encodeValue (CArr (map CBytes blks)) (Suc 0) of
        Inl e \<Rightarrow> Inl (BX_ENCODING e)
      | Inr b \<Rightarrow> failIf (length b > 1114097) (BX_EXCHANGE BX_TOO_LARGE) (Inr (blocks_prefix @ b)))"
  by (cases "encodeValue (CArr (map CBytes blks)) (Suc 0)")
    (simp_all add: exec encodeBlockMessage_def block_map_def type_entry_def blocks_prefix_def
      del: encodeValue.simps(6))

lemma head_mono:
  assumes "head major m = Inr h" and "0 \<le> n" and "n \<le> m"
  shows "\<exists>h'. head major n = Inr h' \<and> length h' \<le> length h"
  using assms by (auto simp: head_def Let_def split: if_splits)

lemma mapE_take: "mapE f xs = Inr ys \<Longrightarrow> mapE f (take k xs) = Inr (take k ys)"
  by (simp add: mapE_eq_Inr list_all2_takeI)

lemma length_concat_take: "length (concat (take k xs)) \<le> length (concat xs)"
  by (metis append_take_drop_id concat_append le_add1 length_append)

text \<open>A part of a reply that encodes encodes, in no more bytes.\<close>

lemma encode_blocks_take:
  assumes "encodeBlockMessage (BLOCKS blks) = Inr e"
  shows "\<exists>e'. encodeBlockMessage (BLOCKS (take k blks)) = Inr e' \<and> length e' \<le> length e"
proof -
  obtain b where b: "encodeValue (CArr (map CBytes blks)) (Suc 0) = Inr b" "length b \<le> 1114097" "e = blocks_prefix @ b"
    using assms by (auto simp: encode_blocks split: sum.splits if_splits)
  then obtain h es where h: "head MAJOR_ARRAY (int (length blks)) = Inr h"
    "mapE (\<lambda>x. encodeValue x 2) (map CBytes blks) = Inr es" "b = h @ concat es"
    by (auto simp: errs numeral_2_eq_2 split: if_splits)
  obtain h' where h': "head MAJOR_ARRAY (int (length (take k blks))) = Inr h'" "length h' \<le> length h"
    using head_mono [OF h(1), of "int (length (take k blks))"] by auto
  have "encodeValue (CArr (map CBytes (take k blks))) (Suc 0) = Inr (h' @ concat (take k es))"
    using h'(1) mapE_take [OF h(2), of k] by (simp add: take_map numeral_2_eq_2)
  moreover have "length (h' @ concat (take k es)) \<le> length b"
    using h' h(3) length_concat_take [of k es] by simp
  ultimately show ?thesis using b by (auto simp: encode_blocks)
qed

lemma encode_one_block:
  assumes "length b \<le> 1048576"
  shows "\<exists>e. encodeBlockMessage (BLOCKS [b]) = Inr e"
proof -
  obtain h where h: "head MAJOR_BSTR (int (length b)) = Inr h" "length h \<le> 5"
    using assms by (cases "head MAJOR_BSTR (int (length b))") (auto simp: head_def Let_def split: if_splits)
  obtain g where g: "head MAJOR_ARRAY 1 = Inr g" "length g = 1" by (simp add: head_def)
  have "encodeValue (CArr (map CBytes [b])) (Suc 0) = Inr (g @ h @ b)" using h g by simp
  then show ?thesis using h g assms by (simp add: encode_blocks)
qed

text \<open>The loop stops at the last prefix that encodes.\<close>

lemma reply_loop_spec:
  assumes "\<exists>e. encodeBlockMessage (BLOCKS (take k blocks)) = Inr e" and "1 \<le> k" and "0 < n"
  shows "\<exists>m e. reply_loop blocks n k best = Some (m, e) \<and> k \<le> m \<and> m < k + n \<and>
    encodeBlockMessage (BLOCKS (take m blocks)) = Inr e \<and>
    (Suc m < k + n \<longrightarrow> (\<exists>err. encodeBlockMessage (BLOCKS (take (Suc m) blocks)) = Inl err))"
  using assms
proof (induction n arbitrary: k best)
  case (Suc n)
  obtain e where e: "encodeBlockMessage (BLOCKS (take k blocks)) = Inr e" using Suc.prems by blast
  show ?case
  proof (cases "n = 0")
    case True
    then show ?thesis using e by auto
  next
    case False
    then obtain n' where n: "n = Suc n'" by (cases n) auto
    show ?thesis
    proof (cases "encodeBlockMessage (BLOCKS (take (Suc k) blocks))")
      case (Inl err)
      then show ?thesis using e n by (intro exI [of _ k] exI [of _ e]) simp
    next
      case (Inr e')
      then show ?thesis using Suc.IH [of "Suc k" "Some (k, e)"] False e by fastforce
    qed
  qed
qed simp

lemma blockDoneFor_Inr: "set unanswered \<subseteq> set want \<Longrightarrow>
    blockDoneFor want unanswered = Inr (BDONE (filter (\<lambda>cid. cid \<in> set unanswered) want))"
  by (auto simp: blockDoneFor_def)

subsection \<open>Properties\<close>

text \<open>
  A message the encoder emits, whose lists keep the decoder's bounds, decodes to itself; what
  decodes keeps the bounds.
\<close>

theorem block_roundtrip:
  "(encodeBlockMessage m = Inr bs \<and> valid_block_message m \<longrightarrow> decodeBlockMessage bs = Inr m) \<and>
   (decodeBlockMessage bs = Inr m \<longrightarrow> valid_block_message m \<and> length bs \<le> bx_messageBytes BX_LIMITS)"
  using block_message_back [of m bs] decodeBlockMessage_valid [of bs m] by simp

theorem block_roundtrip_witness:
  "\<exists>bs. encodeBlockMessage (BHELLO 1 262144) = Inr bs \<and> decodeBlockMessage bs = Inr (BHELLO 1 262144)"
proof -
  obtain bs where "encodeBlockMessage (BHELLO 1 262144) = Inr bs"
    by (simp add: exec encodeBlockMessage_def block_map_def type_entry_def)
  moreover from this block_roundtrip [of "BHELLO 1 262144" bs] have "decodeBlockMessage bs = Inr (BHELLO 1 262144)"
    by (simp add: valid_block_message_def MAX_SAFE_INTEGER_def)
  ultimately show ?thesis by blast
qed

text \<open>
  C34. A reply is as large as it can be. For blocks within the bound, \<open>blocksReplyFor\<close> takes at least one
  and at most 64 of them from the front, its message is within the message bound and decodes to
  exactly those blocks, and no longer prefix of up to 64 blocks can be encoded.
\<close>

theorem block_reply_largest:
  assumes "blocks \<noteq> []" and "\<forall>b\<in>set blocks. length b \<le> bx_blockBytes BX_LIMITS"
  shows "\<exists>n e. blocksReplyFor blocks = Inr (n, e) \<and> 1 \<le> n \<and> n \<le> length blocks \<and> n \<le> 64 \<and>
    length e \<le> bx_messageBytes BX_LIMITS \<and> decodeBlockMessage e = Inr (BLOCKS (take n blocks)) \<and>
    (\<forall>k. n < k \<and> k \<le> length blocks \<and> k \<le> 64 \<longrightarrow> (\<exists>err. encodeBlockMessage (BLOCKS (take k blocks)) = Inl err))"
proof -
  let ?room = "min (length blocks) 64"
  have "\<exists>e. encodeBlockMessage (BLOCKS (take 1 blocks)) = Inr e"
    using assms encode_one_block [of "hd blocks"] by (cases blocks) auto
  moreover have "0 < ?room" using assms(1) by simp
  ultimately obtain n e where n: "reply_loop blocks ?room 1 None = Some (n, e)" "1 \<le> n" "n < 1 + ?room"
    "encodeBlockMessage (BLOCKS (take n blocks)) = Inr e"
    "Suc n < 1 + ?room \<longrightarrow> (\<exists>err. encodeBlockMessage (BLOCKS (take (Suc n) blocks)) = Inl err)"
    using reply_loop_spec [of 1 blocks ?room None] by auto
  have decoded: "decodeBlockMessage e = Inr (BLOCKS (take n blocks))"
    using n(3) assms(2) by (intro block_message_back [OF n(4)])
      (auto simp: valid_block_message_def within_bounds_def dest: in_set_takeD)
  have "\<exists>err. encodeBlockMessage (BLOCKS (take k blocks)) = Inl err" if "n < k" "k \<le> length blocks" "k \<le> 64" for k
  proof (cases "encodeBlockMessage (BLOCKS (take k blocks))")
    case (Inr x)
    then have "\<exists>x. encodeBlockMessage (BLOCKS (take (Suc n) blocks)) = Inr x"
      using encode_blocks_take [OF Inr, of "Suc n"] that by (auto simp: min_def)
    moreover have "Suc n < 1 + ?room" using that by simp
    ultimately show ?thesis using n(5) by auto
  qed simp
  with n decoded decodeBlockMessage_valid [OF decoded] show ?thesis
    by (intro exI [of _ n] exI [of _ e]) (auto simp: blocksReplyFor_def Let_def)
qed

theorem block_reply_largest_witness:
  "\<exists>n e. blocksReplyFor [[1], [2]] = Inr (n, e) \<and> decodeBlockMessage e = Inr (BLOCKS (take n [[1], [2]]))"
  using block_reply_largest [of "[[1], [2]]"] by auto

text \<open>
  The answer to a request does not tell what the peer holds beyond which identifiers it leaves
  unanswered: two peers that leave the same ones unanswered, found in whatever order and however
  often, send the same message, it lists them in the order of the request, it encodes if the request
  names no identifier twice, and an identifier outside the request is refused.
\<close>

theorem block_done_canonical:
  assumes "set left = set right" and "distinct want"
  shows "blockDoneFor want left = blockDoneFor want right \<and>
    (blockDoneFor want left = Inl (BX_EXCHANGE BX_MALFORMED) \<longleftrightarrow> \<not> set left \<subseteq> set want) \<and>
    (\<forall>m. blockDoneFor want left = Inr m \<longrightarrow>
       (\<exists>cids. m = BDONE cids \<and> set cids = set left \<and> cids = filter (\<lambda>cid. cid \<in> set cids) want \<and>
          assertDistinct cids = None))"
proof -
  have "filter (\<lambda>cid. cid \<in> set left) want = filter (\<lambda>cid. cid \<in> set (filter (\<lambda>cid. cid \<in> set left) want)) want"
    by (rule filter_cong) auto
  then show ?thesis
    using assms by (auto simp: blockDoneFor_def assertDistinct_eq)
qed

theorem block_done_canonical_witness:
  "blockDoneFor [[1], [2], [3]] [[3], [1]] = blockDoneFor [[1], [2], [3]] [[1], [3], [1]]"
  using block_done_canonical [of "[[3], [1]]" "[[1], [3], [1]]" "[[1], [2], [3]]"] by auto

lemma encode_map_total:
  "\<exists>bs. encode (CMap [(KText (js ''t''), CText (js ''BWANT'')), (KText (js ''cids''), CArr (map CBytes cids))]) = Inr bs"
  if "encodeValue (CArr (map CBytes cids)) (Suc 0) = Inr b"
  using that by (simp add: exec del: encodeValue.simps(6))

lemma encode_small_array:
  assumes "\<forall>b\<in>set cids. length b < 24" and "length cids < 256"
  shows "\<exists>b. encodeValue (CArr (map CBytes cids)) (Suc 0) = Inr b \<and> length b \<le> 2 + 25 * length cids"
proof -
  have "\<exists>es. mapE (\<lambda>x. encodeValue x 2) (map CBytes cids) = Inr es \<and> length (concat es) \<le> 25 * length cids"
    using assms(1)
  proof (induction cids)
    case (Cons c cs)
    then show ?case by (auto simp: head_def)
  qed simp
  moreover have "\<exists>h. head MAJOR_ARRAY (int (length cids)) = Inr h \<and> length h \<le> 2"
    using assms(2) by (simp add: head_def Let_def)
  ultimately show ?thesis by (auto simp: numeral_2_eq_2)
qed

text \<open>What the decoder makes of a request of small identifiers, sent by whatever encoder.\<close>

lemma decode_want:
  assumes "\<forall>b\<in>set cids. length b < 24" and "length cids < 256"
  shows "\<exists>bs. encode (CMap [type_entry ''BWANT'', (KText (js ''cids''), CArr (map CBytes cids))]) = Inr bs \<and>
    length bs \<le> 1114112 \<and>
    decodeBlockMessage bs = failIf (length cids > 64) (BX_EXCHANGE BX_LIMIT_EXCEEDED) (Inr (BWANT cids))"
proof -
  let ?m = "[type_entry ''BWANT'', (KText (js ''cids''), CArr (map CBytes cids))]"
  obtain b where b: "encodeValue (CArr (map CBytes cids)) (Suc 0) = Inr b" "length b \<le> 2 + 25 * length cids"
    using encode_small_array [OF assms] by auto
  have "\<exists>bs. encode (CMap ?m) = Inr bs \<and> length bs \<le> 14 + length b"
    using b(1) by (simp add: exec type_entry_def del: encodeValue.simps(6))
  then obtain bs where bs: "encode (CMap ?m) = Inr bs" "length bs \<le> 1114112"
    using b(2) assms(2) by (auto intro: le_trans)
  obtain c where c: "decode bs = Inr (CMap c)" "\<forall>k. map_of c k = map_option canon (map_of ?m k)"
    by (rule decode_map [OF bs(1)])
  have "mapE (bounded_bytes 64) (map CBytes cids) = Inr cids"
    using assms(1) by (auto simp: mapE_bounded)
  with c bs show ?thesis
    by (intro exI [of _ bs])
      (simp add: decodeBlockMessage_def decode_block_fields_def bstrArray_def type_entry_def comp_def del: js_simps)
qed

text \<open>
  The encoder and the decoder do not agree. The encoder emits a request of 65 identifiers, which
  every decoder refuses. A request that names an identifier twice, which no encoder here emits, is
  accepted by the decoder, and the refusal it is answered with cannot be encoded.
\<close>

theorem block_codec_disagrees:
  "(\<exists>bs. encodeBlockMessage (BWANT (map (\<lambda>k. [word_of_nat k]) [0..<65])) = Inr bs \<and>
      decodeBlockMessage bs = Inl (BX_EXCHANGE BX_LIMIT_EXCEEDED)) \<and>
   (\<exists>bs. decodeBlockMessage bs = Inr (BWANT [[7], [7]]) \<and>
      blockDoneFor [[7], [7]] [[7]] = Inr (BDONE [[7], [7]]) \<and>
      encodeBlockMessage (BDONE [[7], [7]]) = Inl (BX_EXCHANGE BX_MALFORMED))"
proof
  let ?cids = "map (\<lambda>k. [word_of_nat k :: byte]) [0..<65]"
  have "inj_on (\<lambda>k. [word_of_nat k :: byte]) (set [0..<65])"
    by (auto simp: inj_on_def dest!: arg_cong [of "word_of_nat _" _ unat] simp: unat_of_nat)
  then have "distinct ?cids" by (simp add: distinct_map)
  moreover obtain bs where "encode (CMap [type_entry ''BWANT'', (KText (js ''cids''), CArr (map CBytes ?cids))]) = Inr bs"
    "length bs \<le> 1114112" "decodeBlockMessage bs = Inl (BX_EXCHANGE BX_LIMIT_EXCEEDED)"
    using decode_want [of ?cids] by auto
  ultimately show "\<exists>bs. encodeBlockMessage (BWANT ?cids) = Inr bs \<and> decodeBlockMessage bs = Inl (BX_EXCHANGE BX_LIMIT_EXCEEDED)"
    by (intro exI [of _ bs]) (simp add: encodeBlockMessage_def block_map_def assertDistinct_eq)
  show "\<exists>bs. decodeBlockMessage bs = Inr (BWANT [[7], [7]]) \<and>
      blockDoneFor [[7], [7]] [[7]] = Inr (BDONE [[7], [7]]) \<and>
      encodeBlockMessage (BDONE [[7], [7]]) = Inl (BX_EXCHANGE BX_MALFORMED)"
    using decode_want [of "[[7], [7]]"]
    by (auto simp: blockDoneFor_def encodeBlockMessage_def block_map_def assertDistinct_eq)
qed

text \<open>A reply to nothing says it took one block.\<close>

lemma empty_reply_takes_one: "\<exists>e. blocksReplyFor [] = Inr (1, e)"
  by (simp add: blocksReplyFor_def encode_blocks head_def)

end
