(* ===== verification/Blockstore.thy ===== *)
theory Blockstore
  imports Fetch
begin

section \<open>Blocks of a store (registry/src/blockstore.ts)\<close>

text \<open>
  What stands between a library's block store and the verified traversal: reducing whatever the
  library returns to bytes, pulling a tree into memory, and publishing one. The objects of the library
  are not modelled; the record \<open>objects\<close> has the questions the code asks them, and \<open>'w\<close> is their
  state. A promise settles with a value, rejects, or does not settle before the deadline.
\<close>

text \<open>Why something fails: a throw of this module, of a library, or a CID that does not decode.\<close>

datatype pull_error = Pull fetch_rejection | Library | Bad_cid content_error

datatype 'a settled = Settled 'a | Rejected pull_error | Unsettled

text \<open>A sequence of two steps of an asynchronous function.\<close>

abbreviation andThen :: "'a settled \<times> 'w \<Rightarrow> ('a \<Rightarrow> 'w \<Rightarrow> 'b settled \<times> 'w) \<Rightarrow> 'b settled \<times> 'w" where
  "andThen r f \<equiv> (case r of (Settled x, w) \<Rightarrow> f x w | (Rejected e, w) \<Rightarrow> (Rejected e, w) | (Unsettled, w) \<Rightarrow> (Unsettled, w))"

record ('o, 'w) objects =
  undefined_value :: 'o
  isThenable :: "'o \<Rightarrow> bool"
  isAsyncIterable :: "'o \<Rightarrow> bool"
  isGenerator :: "'o \<Rightarrow> bool"
  settles :: "'o \<Rightarrow> 'w \<Rightarrow> 'o settled \<times> 'w"
  async_next :: "'o \<Rightarrow> 'w \<Rightarrow> 'o option settled \<times> 'w"
  async_return :: "'o \<Rightarrow> 'w \<Rightarrow> unit settled \<times> 'w"
  gen_next :: "'o \<Rightarrow> 'o \<Rightarrow> 'w \<Rightarrow> ('o \<times> bool) settled \<times> 'w"
  octets :: "'o \<Rightarrow> bytes option"
  subarray :: "'o \<Rightarrow> 'w \<Rightarrow> 'o option settled \<times> 'w"

subsection \<open>Reducing a result to bytes\<close>

definition awaits :: "('o, 'w) objects \<Rightarrow> 'o \<Rightarrow> 'w \<Rightarrow> 'o settled \<times> 'w" where
  "awaits J x w = (if isThenable J x then settles J x w else (Settled x, w))"

text \<open>The \<open>for await\<close> loop: \<open>n\<close> items may still be taken, the last one taken ends the loop.\<close>

primrec last_item :: "('o, 'w) objects \<Rightarrow> 'o \<Rightarrow> nat \<Rightarrow> 'o \<Rightarrow> 'w \<Rightarrow> 'o settled \<times> 'w" where
  "last_item J v 0 latest w = andThen (async_return J v w) (\<lambda>_ w. (Settled latest, w))"
| "last_item J v (Suc n) latest w =
     andThen (async_next J v w) (\<lambda>item w.
       case item of None \<Rightarrow> (Settled latest, w) | Some x \<Rightarrow> last_item J v n x w)"

text \<open>The loop over a generator; \<open>n\<close> rounds are left and \<open>step\<close> is the latest result of \<open>next\<close>.\<close>

primrec last_step :: "('o, 'w) objects \<Rightarrow> 'o \<Rightarrow> nat \<Rightarrow> 'o \<times> bool \<Rightarrow> 'o \<Rightarrow> 'w \<Rightarrow> 'o settled \<times> 'w" where
  "last_step J v 0 step latest w = (Settled latest, w)"
| "last_step J v (Suc n) step latest w =
     (let latest = (if fst step \<noteq> undefined_value J then fst step else latest) in
      if snd step then (Settled latest, w)
      else andThen (awaits J (fst step) w) (\<lambda>sent w.
        andThen (gen_next J v sent w) (\<lambda>step w. last_step J v n step latest w)))"

text \<open>\<open>resolveValue\<close> with \<open>n\<close> levels to go, 5 at the start; at depth five it throws.\<close>

primrec resolve_value :: "('o, 'w) objects \<Rightarrow> nat \<Rightarrow> 'o \<Rightarrow> 'w \<Rightarrow> 'o settled \<times> 'w" where
  "resolve_value J 0 v w = (Rejected (Pull MALFORMED_BLOCK), w)"
| "resolve_value J (Suc n) v w =
     (if isThenable J v then andThen (settles J v w) (resolve_value J n)
      else if isAsyncIterable J v then andThen (last_item J v 65 (undefined_value J) w) (resolve_value J n)
      else if isGenerator J v then
        andThen (gen_next J v (undefined_value J) w) (\<lambda>step w.
          andThen (last_step J v 64 step (undefined_value J) w) (resolve_value J n))
      else (Settled v, w))"

definition resolveValue :: "('o, 'w) objects \<Rightarrow> 'o \<Rightarrow> 'w \<Rightarrow> 'o settled \<times> 'w" where
  "resolveValue J = resolve_value J 5"

definition blockBytes :: "('o, 'w) objects \<Rightarrow> 'o \<Rightarrow> 'w \<Rightarrow> bytes settled \<times> 'w" where
  "blockBytes J v w =
     andThen (resolveValue J v w) (\<lambda>resolved w.
       case octets J resolved of
         Some bs \<Rightarrow> (Settled bs, w)
       | None \<Rightarrow>
           andThen (subarray J resolved w) (\<lambda>flat w.
             case Option.bind flat (octets J) of Some bs \<Rightarrow> (Settled bs, w) | None \<Rightarrow> (Rejected (Pull MALFORMED_BLOCK), w)))"

subsection \<open>Pulling a tree into memory\<close>

definition STORE_LIMITS_blockMs :: nat where "STORE_LIMITS_blockMs = 15000"

text \<open>The port: \<open>blocks.get(codec.parse(cid))\<close> and \<open>blocks.put(codec.parse(cid), bytes)\<close>, which may throw.\<close>

record ('o, 'w) AsyncBlocks =
  blocks_get :: "jsstr \<Rightarrow> 'w \<Rightarrow> 'o settled \<times> 'w"
  blocks_put :: "jsstr \<Rightarrow> bytes \<Rightarrow> 'w \<Rightarrow> 'o settled \<times> 'w"

definition memorySource :: "Block list \<Rightarrow> unit BlockSource" where
  "memorySource blocks =
     (let byCid = foldl (\<lambda>m b. if map_has m (bk_cid b) then m else map_set (bk_cid b) (bk_bytes b) m) [] blocks in
      (\<lambda>s cid. (map_get byCid cid, s)))"

definition withDeadline :: "bytes settled \<times> 'w \<Rightarrow> pull_error + bytes \<times> 'w" where
  "withDeadline r =
     (case r of
        (Settled bs, w) \<Rightarrow> Inr (bs, w)
      | (Rejected e, w) \<Rightarrow> Inl e
      | (Unsettled, w) \<Rightarrow> Inl (Pull CONTENT_UNAVAILABLE))"

definition childrenOf :: "jsstr \<Rightarrow> bytes \<Rightarrow> pull_error + jsstr list" where
  "childrenOf cid bs =
     (case decodeCid cid of
        Inl e \<Rightarrow> Inl (Bad_cid e)
      | Inr c \<Rightarrow>
          if cid_codec c \<noteq> cp_codecDagPb CID_PARAMETERS then Inr []
          else (case decodeNode bs of Inl _ \<Rightarrow> Inr [] | Inr node \<Rightarrow> Inr (map lk_cid (dn_links node))))"

record pull_limits =
  pl_blocks :: nat
  pl_totalBytes :: "nat option"

text \<open>
  What the loop does with one CID that it has not seen: the block with the weight so far, and its
  children.
\<close>

definition pull_one ::
  "crypto \<Rightarrow> ('o, 'w) objects \<Rightarrow> ('o, 'w) AsyncBlocks \<Rightarrow> nat \<Rightarrow> jsstr \<Rightarrow> nat \<Rightarrow> 'w \<Rightarrow>
     pull_error + bytes \<times> jsstr list \<times> nat \<times> 'w" where
  "pull_one C J port totalBytes cid weighed w =
     bindE (withDeadline (andThen (blocks_get port cid w) (blockBytes J))) (\<lambda>(bs, w).
     failIf (length bs > fl_blockBytes FETCH_LIMITS) (Pull RESPONSE_TOO_LARGE) (
     let weighed = weighed + length bs in
     failIf (weighed > totalBytes) (Pull RESPONSE_TOO_LARGE) (
     case decodeCid cid of
       Inl e \<Rightarrow> Inl (Bad_cid e)
     | Inr expected \<Rightarrow>
         let digest = sha256 C bs;
             same = (if length digest = length (cid_digest expected) then 0 else 1);
             same = foldl (\<lambda>same (d, e). same OR (d XOR e)) same (zip digest (cid_digest expected))
         in failIf (same \<noteq> 0) (Pull CONTENT_INTEGRITY)
              (bindE (childrenOf cid bs) (\<lambda>children. Inr (bs, children, weighed, w))))))"

text \<open>
  The loop. A CID enters \<open>held\<close> once, right after it entered \<open>seen\<close>, so \<open>held.set\<close> appends.
\<close>

function prefetch_loop ::
  "crypto \<Rightarrow> ('o, 'w) objects \<Rightarrow> ('o, 'w) AsyncBlocks \<Rightarrow> nat \<Rightarrow> nat \<Rightarrow>
     jsstr list \<Rightarrow> jsstr set \<Rightarrow> (jsstr, bytes) jsmap \<Rightarrow> nat \<Rightarrow> 'w \<Rightarrow> pull_error + (jsstr, bytes) jsmap \<times> 'w" where
  "prefetch_loop C J port blocks totalBytes [] seen held weighed w = Inr (held, w)"
| "prefetch_loop C J port blocks totalBytes (cid # queue) seen held weighed w =
     (if cid \<in> seen then prefetch_loop C J port blocks totalBytes queue seen held weighed w
      else if length held \<ge> blocks then Inl (Pull RESPONSE_TOO_LARGE)
      else
        (case pull_one C J port totalBytes cid weighed w of
           Inl e \<Rightarrow> Inl e
         | Inr (bs, children, weighed, w) \<Rightarrow>
             prefetch_loop C J port blocks totalBytes (queue @ children) (insert cid seen)
               (held @ [(cid, bs)]) weighed w))"
  by pat_completeness auto
termination
  by (relation "measures
    [\<lambda>(_, _, _, blocks, _, _, _, held, _). blocks - length held, \<lambda>(_, _, _, _, _, queue, _). length queue]") auto

declare prefetch_loop.simps [simp del]

definition prefetch ::
  "crypto \<Rightarrow> ('o, 'w) objects \<Rightarrow> ('o, 'w) AsyncBlocks \<Rightarrow> jsstr \<Rightarrow> pull_limits \<Rightarrow> 'w \<Rightarrow>
     pull_error + (jsstr, bytes) jsmap \<times> 'w" where
  "prefetch C J port root limits w =
     prefetch_loop C J port (pl_blocks limits)
       (case pl_totalBytes limits of None \<Rightarrow> fl_blocks FETCH_LIMITS * fl_blockBytes FETCH_LIMITS | Some n \<Rightarrow> n)
       [root] {} [] 0 w"

subsection \<open>Publishing\<close>

primrec publish_loop :: "('o, 'w) objects \<Rightarrow> ('o, 'w) AsyncBlocks \<Rightarrow> Block list \<Rightarrow> nat \<Rightarrow> 'w \<Rightarrow> nat settled \<times> 'w" where
  "publish_loop J port [] written w = (Settled written, w)"
| "publish_loop J port (b # built) written w =
     andThen (blocks_put port (bk_cid b) (bk_bytes b) w) (\<lambda>v w.
     andThen (resolveValue J v w) (\<lambda>_ w. publish_loop J port built (written + 1) w))"

definition publish :: "('o, 'w) objects \<Rightarrow> ('o, 'w) AsyncBlocks \<Rightarrow> Block list \<Rightarrow> 'w \<Rightarrow> nat settled \<times> 'w" where
  "publish J port built w = publish_loop J port built 0 w"

subsection \<open>What a pull holds\<close>

text \<open>A block that the traversal accepts under its CID.\<close>

definition genuine :: "crypto \<Rightarrow> jsstr \<times> bytes \<Rightarrow> bool" where
  "genuine C b \<longleftrightarrow> (\<exists>c. decodeCid (fst b) = Inr c \<and> cid_digest c = sha256 C (snd b)) \<and> length (snd b) \<le> 1048576"

definition links_in :: "jsstr set \<Rightarrow> jsstr \<times> bytes \<Rightarrow> bool" where
  "links_in known b \<longleftrightarrow> (\<forall>children. childrenOf (fst b) (snd b) = Inr children \<longrightarrow> set children \<subseteq> known)"

definition pulled :: "crypto \<Rightarrow> nat \<Rightarrow> nat \<Rightarrow> jsstr list \<Rightarrow> jsstr set \<Rightarrow> (jsstr, bytes) jsmap \<Rightarrow> nat \<Rightarrow> bool" where
  "pulled C blocks weight queue seen held weighed \<longleftrightarrow>
     distinct (map fst held) \<and> fst ` set held = seen \<and> length held \<le> blocks \<and>
     weighed = sum_list (map (length \<circ> snd) held) \<and> weighed \<le> weight \<and>
     (\<forall>b\<in>set held. genuine C b \<and> links_in (seen \<union> set queue) b)"

lemma fold_or_zero: "foldl (\<lambda>same (d, e). same OR (d XOR e)) s ps = 0 \<Longrightarrow> s = (0 :: byte)"
  by (induction ps arbitrary: s) (simp, metis (no_types, lifting) case_prod_conv foldl_Cons or_eq_zero surj_pair)

lemma pull_one_Inr:
  assumes "pull_one C J port weight cid weighed w = Inr (bs, children, weighed', w')"
  shows "genuine C (cid, bs)" and "childrenOf cid bs = Inr children"
    and "weighed' = weighed + length bs" and "weighed' \<le> weight"
proof -
  obtain r where r: "withDeadline (andThen (blocks_get port cid w) (blockBytes J)) = Inr r"
    using assms by (cases "withDeadline (andThen (blocks_get port cid w) (blockBytes J))") (simp_all add: pull_one_def)
  obtain bs1 w1 where r': "r = (bs1, w1)" by force
  obtain c where c: "decodeCid cid = Inr c"
    using assms r r' by (cases "decodeCid cid") (auto simp: pull_one_def Let_def split: if_splits)
  note eq = assms [unfolded pull_one_def r r' sum.case prod.case c Let_def]
  have "bs1 = bs \<and> childrenOf cid bs = Inr children \<and> weighed' = weighed + length bs \<and> weighed' \<le> weight \<and>
      length bs \<le> 1048576 \<and> length (sha256 C bs) = length (cid_digest c) \<and>
      foldl (\<lambda>same (d, e). same OR (d XOR e)) (0 :: byte) (zip (sha256 C bs) (cid_digest c)) = 0"
    using eq by (auto simp: errs split: if_splits dest: fold_or_zero)
  then show "genuine C (cid, bs)" "childrenOf cid bs = Inr children" "weighed' = weighed + length bs" "weighed' \<le> weight"
    using c fold_diff [of "sha256 C bs" "cid_digest c" 0] by (auto simp: genuine_def)
qed

lemma links_in_mono: "links_in A b \<Longrightarrow> A \<subseteq> B \<Longrightarrow> links_in B b"
  by (auto simp: links_in_def)

lemma prefetch_loop_pulled:
  assumes "prefetch_loop C J port blocks weight queue seen held weighed w = Inr (held', w')"
    and "pulled C blocks weight queue seen held weighed"
  shows "\<exists>seen' weighed'. pulled C blocks weight [] seen' held' weighed' \<and> seen \<union> set queue \<subseteq> seen'"
  using assms
proof (induction C J port blocks weight queue seen held weighed w rule: prefetch_loop.induct)
  case (1 C J port blocks weight seen held weighed w)
  then show ?case by (auto simp: prefetch_loop.simps)
next
  case (2 C J port blocks weight cid queue seen held weighed w)
  show ?case
  proof (cases "cid \<in> seen")
    case True
    then have "pulled C blocks weight queue seen held weighed"
      using 2(4) by (simp add: pulled_def insert_absorb)
    then show ?thesis using 2(1,3) True by (fastforce simp: prefetch_loop.simps)
  next
    case False
    then have few: "length held < blocks" using 2(3) by (simp add: prefetch_loop.simps split: if_splits)
    then obtain bs children weighed1 w1 where p: "pull_one C J port weight cid weighed w = Inr (bs, children, weighed1, w1)"
      using 2(3) False by (cases "pull_one C J port weight cid weighed w") (auto simp: prefetch_loop.simps)
    have rest: "prefetch_loop C J port blocks weight (queue @ children) (insert cid seen) (held @ [(cid, bs)]) weighed1 w1 = Inr (held', w')"
      using 2(3) False few by (simp add: prefetch_loop.simps p)
    have known: "seen \<union> set (cid # queue) \<subseteq> insert cid seen \<union> set (queue @ children)" by auto
    have links: "\<forall>b\<in>set (held @ [(cid, bs)]). links_in (insert cid seen \<union> set (queue @ children)) b"
      using 2(4) pull_one_Inr(2) [OF p] links_in_mono [OF _ known] by (auto simp: pulled_def) (auto simp: links_in_def)
    have "pulled C blocks weight (queue @ children) (insert cid seen) (held @ [(cid, bs)]) weighed1"
      using 2(4) False few pull_one_Inr(1,3,4) [OF p] links by (auto simp: pulled_def)
    from 2(2) [OF False _ p refl refl refl rest this] few known show ?thesis by (auto simp: Un_subset_iff)
  qed
qed

lemma prefetch_pulled:
  assumes "prefetch C J port root limits w = Inr (held, w')"
  obtains weight weighed where "pulled C (pl_blocks limits) weight [] (fst ` set held) held weighed" "root \<in> fst ` set held"
    "weight = (case pl_totalBytes limits of None \<Rightarrow> 4096 * 1048576 | Some n \<Rightarrow> n)"
proof -
  let ?weight = "case pl_totalBytes limits of None \<Rightarrow> fl_blocks FETCH_LIMITS * fl_blockBytes FETCH_LIMITS | Some n \<Rightarrow> n"
  have "pulled C (pl_blocks limits) ?weight [root] {} [] 0" by (simp add: pulled_def)
  from prefetch_loop_pulled [OF assms [unfolded prefetch_def] this]
  obtain seen weighed where s: "pulled C (pl_blocks limits) ?weight [] seen held weighed" "{} \<union> set [root] \<subseteq> seen" by blast
  then have "seen = fst ` set held" by (simp add: pulled_def)
  with s show thesis by (intro that [of ?weight weighed]) (auto split: option.splits)
qed

subsection \<open>The traversal after a pull\<close>

text \<open>A source that answers with the held block where there is one, and with anything elsewhere.\<close>

definition covers :: "'s BlockSource \<Rightarrow> (jsstr, bytes) jsmap \<Rightarrow> bool" where
  "covers source held \<longleftrightarrow> (\<forall>s b. b \<in> set held \<longrightarrow> fst (source s (fst b)) = Some (snd b))"

definition heldSource :: "(jsstr, bytes) jsmap \<Rightarrow> unit BlockSource" where
  "heldSource held = (\<lambda>s cid. (map_get held cid, s))"

definition forget :: "fetch_error + 'a \<times> Budget \<times> 's \<Rightarrow> fetch_error + 'a \<times> Budget" where
  "forget r = (case r of Inl e \<Rightarrow> Inl e | Inr (x, b, s) \<Rightarrow> Inr (x, b))"

lemma forget_simps [simp]: "forget (Inl e) = Inl e" "forget (Inr (x, b, s)) = Inr (x, b)"
  by (simp_all add: forget_def)

lemma forget_bind:
  assumes "forget m = forget m'" and "\<And>x b s s'. m = Inr (x, b, s) \<Longrightarrow> m' = Inr (x, b, s') \<Longrightarrow> forget (f (x, b, s)) = forget (g (x, b, s'))"
  shows "forget (bindE m f) = forget (bindE m' g)"
  using assms by (cases m; cases m') (auto simp: forget_def split: prod.splits)

lemma forget_pure: "(\<And>x. m = Inr x \<Longrightarrow> forget (f x) = forget (g x)) \<Longrightarrow> forget (bindE m f) = forget (bindE m g)"
  by (cases m) auto

lemma fetchVerified_held:
  assumes "covers source held" "(cid, bs) \<in> set held" "genuine C (cid, bs)"
  shows "forget (fetchVerified C source cid (b, s)) =
    (if bg_blocks b < 4096 then Inr (bs, b\<lparr>bg_blocks := bg_blocks b + 1\<rparr>) else Inl (Refused RESPONSE_TOO_LARGE))"
proof -
  have "fst (source s cid) = Some bs" using assms(1,2) by (fastforce simp: covers_def)
  then obtain s' where s: "source s cid = (Some bs, s')" by (cases "source s cid") auto
  obtain c where c: "decodeCid cid = Inr c" "cid_digest c = sha256 C bs" "length bs \<le> 1048576"
    using assms(3) by (auto simp: genuine_def)
  show ?thesis
    using fetchVerified_serves [where source = source and s = s, OF s c(1,2) _ c(3)]
    by (cases "bg_blocks b < 4096") (simp_all add: fetchVerified_def spendBlock_def)
qed

text \<open>Every link of a held node is held.\<close>

lemma links_held:
  assumes "pulled C blocks weight [] (fst ` set held) held weighed" "(cid, bs) \<in> set held"
    and "decodeCid cid = Inr c" "cid_codec c = 0x70" "decodeNode bs = Inr node" "l \<in> set (dn_links node)"
  shows "\<exists>bs'. (lk_cid l, bs') \<in> set held"
proof -
  have "links_in (fst ` set held) (cid, bs)" using assms(1,2) by (auto simp: pulled_def)
  moreover have "childrenOf cid bs = Inr (map lk_cid (dn_links node))" using assms(3-5) by (simp add: childrenOf_def)
  ultimately show ?thesis using assms(6) by (force simp: links_in_def)
qed

lemma forget_fail: "(\<not> c \<Longrightarrow> forget m = forget m') \<Longrightarrow> forget (failIf c e m) = forget (failIf c e m')"
  by simp

lemma fetchParts_held:
  assumes "\<And>cid bs b s s'. (cid, bs) \<in> set held \<Longrightarrow>
      forget (fetchFile C source cid depth (b, s)) = forget (fetchFile C source' cid depth (b, s'))"
    and "\<forall>x\<in>set links. \<exists>bs. (lk_cid (fst x), bs) \<in> set held"
  shows "forget (fetchParts C source links depth (b, s)) = forget (fetchParts C source' links depth (b, s'))"
  using assms(2)
proof (induction links arbitrary: b s s')
  case (Cons x links)
  obtain l n where x: "x = (l, n)" by force
  obtain bs where "(lk_cid l, bs) \<in> set held" using Cons.prems x by auto
  then show ?case
    unfolding x fetchParts.simps using Cons
    by (intro forget_bind assms(1)) (auto intro!: forget_bind)
qed simp

lemma fetchFile_held:
  assumes p: "pulled C blocks weight [] (fst ` set held) held weighed" and "covers source held" "covers source' held"
  shows "(cid, bs) \<in> set held \<Longrightarrow>
    forget (fetchFile C source cid depth (b, s)) = forget (fetchFile C source' cid depth (b, s'))"
proof (induction depth arbitrary: cid bs b s s' rule: depth_induct)
  case (1 depth)
  show ?case
  proof (cases "depth > 32")
    case False
    have g: "genuine C (cid, bs)" using p 1(2) by (auto simp: pulled_def)
    have v: "forget (fetchVerified C source cid (b, s)) = forget (fetchVerified C source' cid (b, s'))"
      using fetchVerified_held [OF assms(2) 1(2) g] fetchVerified_held [OF assms(3) 1(2) g] by simp
    have bs: "bs' = bs" if "fetchVerified C source cid (b, s) = Inr (bs', b', st)" for bs' b' st
      using fetchVerified_held [OF assms(2) 1(2) g, of b s] that by (simp split: if_splits)
    have parts: "forget (fetchParts C source (zip (dn_links node) sizes) (depth + 1) (b1, s1)) =
        forget (fetchParts C source' (zip (dn_links node) sizes) (depth + 1) (b1, s2))"
      if "decodeCid cid = Inr c" "cid_codec c \<noteq> 0x55" "decodeNode bs = Inr node" for c node sizes b1 s1 s2
    proof (rule fetchParts_held)
      show "forget (fetchFile C source i (depth + 1) (b, s)) = forget (fetchFile C source' i (depth + 1) (b, s'))"
        if "(i, bs) \<in> set held" for i bs b s s' using 1(1) False that by simp
      have "cid_codec c = 0x70" using decodeCid_ok [OF that(1)] that(2) by (auto simp: cid_ok_def)
      then show "\<forall>x\<in>set (zip (dn_links node) sizes). \<exists>bs. (lk_cid (fst x), bs) \<in> set held"
        using links_held [OF p 1(2) that(1) _ that(3)] by (auto dest!: set_zip_leftD)
    qed
    show ?thesis
      unfolding fetchFile.simps [of C source cid] fetchFile.simps [of C source' cid]
    proof (rule forget_fail, rule forget_bind [OF v], goal_cases)
      case (1 bs' b' st st')
      then have [simp]: "bs' = bs" using bs by blast
      show ?case
        unfolding prod.case
        by (intro forget_pure, unfold contentCid_Inr, split if_split, intro conjI impI)
          (auto intro!: forget_pure forget_fail forget_bind parts)
    qed
  qed (simp add: fetchFile.simps [of C source cid] fetchFile.simps [of C source' cid])
qed

lemma fetch_walk_held:
  assumes p: "pulled C blocks weight [] (fst ` set held) held weighed" and "covers source held" "covers source' held"
  shows "(cid, bs) \<in> set held \<Longrightarrow>
    forget (fetch_walk C source cid ps i (b, s)) = forget (fetch_walk C source' cid ps i (b, s')) \<and>
    (\<forall>t b' st. fetch_walk C source cid ps i (b, s) = Inr (t, b', st) \<longrightarrow> t \<in> fst ` set held)"
proof (induction ps arbitrary: cid bs i b s s')
  case (Cons seg ps)
  have g: "genuine C (cid, bs)" using p Cons.prems by (auto simp: pulled_def)
  have v: "forget (fetchVerified C source cid (b, s)) = forget (fetchVerified C source' cid (b, s'))"
    using fetchVerified_held [OF assms(2) Cons.prems g] fetchVerified_held [OF assms(3) Cons.prems g] by simp
  have bs: "bs' = bs" if "fetchVerified C source cid (b, s) = Inr (bs', b', st)" for bs' b' st
    using fetchVerified_held [OF assms(2) Cons.prems g, of b s] that by (simp split: if_splits)
  have onward: "\<exists>bs'. (lk_cid l, bs') \<in> set held"
    if "decodeCid cid = Inr c" "cid_codec c = 0x70" "decodeNode bs = Inr node"
      "filter (\<lambda>l. lk_name l = seg) (dn_links node) = [l]" for c node l
  proof -
    have "l \<in> set (dn_links node)" using that(4) by (metis filter_eq_ConsD in_set_conv_decomp)
    then show ?thesis using links_held [OF p Cons.prems that(1-3)] by blast
  qed
  have "forget (fetch_walk C source cid (seg # ps) i (b, s)) = forget (fetch_walk C source' cid (seg # ps) i (b, s'))"
    unfolding fetch_walk.simps
  proof (rule forget_fail, rule forget_bind [OF v], goal_cases)
    case (1 bs' b' st st')
    then have [simp]: "bs' = bs" using bs by blast
    have "forget (case filter (\<lambda>l. lk_name l = seg) (dn_links node) of
          [] \<Rightarrow> throw PATH_NOT_FOUND
        | [l] \<Rightarrow> fetch_walk C source (lk_cid l) ps (i + 1) (b', st)
        | _ \<Rightarrow> throw MALFORMED_BLOCK) =
      forget (case filter (\<lambda>l. lk_name l = seg) (dn_links node) of
          [] \<Rightarrow> throw PATH_NOT_FOUND
        | [l] \<Rightarrow> fetch_walk C source' (lk_cid l) ps (i + 1) (b', st')
        | _ \<Rightarrow> throw MALFORMED_BLOCK)"
      if "decodeCid cid = Inr c" "cid_codec c = 0x70" "decodeNode bs = Inr node" for c node
      using onward [OF that] Cons.IH by (auto split: list.split)
    then show ?case
      unfolding prod.case by (intro forget_pure, unfold contentCid_Inr) (auto intro!: forget_pure forget_fail)
  qed
  moreover have "t \<in> fst ` set held" if "fetch_walk C source cid (seg # ps) i (b, s) = Inr (t, b', st)" for t b' st
    using that
  proof (cases rule: fetch_walk_Cons)
    case (1 bs' st1 c node l)
    obtain b1 s1 where st1: "st1 = (b1, s1)" by force
    with 1 bs have [simp]: "bs' = bs" by blast
    obtain bs1 where "(lk_cid l, bs1) \<in> set held" using onward [OF 1(3,4) _ 1(7)] 1(5) by auto
    from Cons.IH [OF this, of "i + 1" b1 s1] 1(8) show ?thesis by (auto simp: st1)
  qed
  ultimately show ?case by blast
qed (force simp: forget_def)

lemma heldSource_covers: "distinct (map fst held) \<Longrightarrow> covers (heldSource held) held"
  by (auto simp: covers_def heldSource_def)

text \<open>A traversal of held blocks fails for what they are, never for what is missing.\<close>

definition served :: "fetch_error + 'a \<Rightarrow> bool" where
  "served r \<longleftrightarrow> r \<noteq> Inl (Refused CONTENT_UNAVAILABLE) \<and> r \<noteq> Inl (Refused CONTENT_INTEGRITY)"

lemma served_simps [simp]:
  "served (Inr x)" "served (Inl e) \<longleftrightarrow> e \<noteq> Refused CONTENT_UNAVAILABLE \<and> e \<noteq> Refused CONTENT_INTEGRITY"
  by (auto simp: served_def)

lemma served_bind: "served m \<Longrightarrow> (\<And>x. m = Inr x \<Longrightarrow> served (f x)) \<Longrightarrow> served (bindE m f)"
  by (cases m) auto

lemma served_parse: "fails_only parse_refusals r \<Longrightarrow> served r"
  by (cases r) auto

lemmas served_parsers = served_parse [OF contentCid_refuses] served_parse [OF decodeNode_refuses]

lemma served_forget: "served (forget r) \<longleftrightarrow> served r"
  by (auto simp: served_def forget_def split: sum.splits)

lemma fetchVerified_served:
  assumes "covers source held" "(cid, bs) \<in> set held" "genuine C (cid, bs)"
  shows "served (fetchVerified C source cid (b, s))"
  using fetchVerified_held [OF assms, of b s] served_forget [of "fetchVerified C source cid (b, s)"]
  by (simp split: if_splits)

lemma fetchParts_served:
  assumes "\<And>cid bs st. (cid, bs) \<in> set held \<Longrightarrow> served (fetchFile C source cid depth st)"
    and "\<forall>x\<in>set links. \<exists>bs. (lk_cid (fst x), bs) \<in> set held"
  shows "served (fetchParts C source links depth st)"
  using assms(2)
proof (induction links arbitrary: st)
  case (Cons x links)
  obtain l n where x: "x = (l, n)" by force
  obtain bs where "(lk_cid l, bs) \<in> set held" using Cons.prems x by auto
  then show ?case
    unfolding x fetchParts.simps using Cons
    by (intro served_bind assms(1)) (auto intro!: served_bind split: prod.split)
qed simp

lemma fetchFile_served:
  assumes p: "pulled C blocks weight [] (fst ` set held) held weighed" and "covers source held"
  shows "(cid, bs) \<in> set held \<Longrightarrow> served (fetchFile C source cid depth st)"
proof (induction depth arbitrary: cid bs st rule: depth_induct)
  case (1 depth)
  have g: "genuine C (cid, bs)" using p 1(2) by (auto simp: pulled_def)
  obtain b s where st: "st = (b, s)" by force
  have v: "served (fetchVerified C source cid (b, s))" by (rule fetchVerified_served [OF assms(2) 1(2) g])
  have bs: "bs' = bs" if "fetchVerified C source cid (b, s) = Inr (bs', b', st)" for bs' b' st
    using fetchVerified_held [OF assms(2) 1(2) g, of b s] that by (simp split: if_splits)
  have parts: "served (fetchParts C source (zip (dn_links node) sizes) (depth + 1) st)"
    if "depth \<le> 32" "decodeCid cid = Inr c" "cid_codec c \<noteq> 0x55" "decodeNode bs = Inr node" for c node sizes st
  proof (rule fetchParts_served)
    show "served (fetchFile C source i (depth + 1) st)" if "(i, bs) \<in> set held" for i bs st
      by (rule 1(1) [OF \<open>depth \<le> 32\<close> that])
    have "cid_codec c = 0x70" using decodeCid_ok [OF that(2)] that(3) by (auto simp: cid_ok_def)
    then show "\<forall>x\<in>set (zip (dn_links node) sizes). \<exists>bs. (lk_cid (fst x), bs) \<in> set held"
      using links_held [OF p 1(2) that(2) _ that(4)] by (auto dest!: set_zip_leftD)
  qed
  show ?case
    unfolding st fetchFile.simps [of C source cid]
    using v bs parts
    by (auto simp: contentCid_Inr spendBytes_def Let_def intro!: served_bind served_parsers split: prod.splits)
qed

lemma fetch_walk_served:
  assumes p: "pulled C blocks weight [] (fst ` set held) held weighed" and "covers source held"
  shows "(cid, bs) \<in> set held \<Longrightarrow> served (fetch_walk C source cid ps i st)"
proof (induction ps arbitrary: cid bs i st)
  case (Cons seg ps)
  have g: "genuine C (cid, bs)" using p Cons.prems by (auto simp: pulled_def)
  obtain b s where st: "st = (b, s)" by force
  have v: "served (fetchVerified C source cid (b, s))" by (rule fetchVerified_served [OF assms(2) Cons.prems g])
  have bs: "bs' = bs" if "fetchVerified C source cid (b, s) = Inr (bs', b', st)" for bs' b' st
    using fetchVerified_held [OF assms(2) Cons.prems g, of b s] that by (simp split: if_splits)
  have onward: "\<exists>bs'. (lk_cid l, bs') \<in> set held"
    if "decodeCid cid = Inr c" "cid_codec c = 0x70" "decodeNode bs = Inr node"
      "filter (\<lambda>l. lk_name l = seg) (dn_links node) = [l]" for c node l
  proof -
    have "l \<in> set (dn_links node)" using that(4) by (metis filter_eq_ConsD in_set_conv_decomp)
    then show ?thesis using links_held [OF p Cons.prems that(1-3)] by blast
  qed
  have "served (case filter (\<lambda>l. lk_name l = seg) (dn_links node) of
        [] \<Rightarrow> throw PATH_NOT_FOUND | [l] \<Rightarrow> fetch_walk C source (lk_cid l) ps (i + 1) st | _ \<Rightarrow> throw MALFORMED_BLOCK)"
    if "decodeCid cid = Inr c" "cid_codec c = 0x70" "decodeNode bs = Inr node" for c node st
    using onward [OF that] Cons.IH by (cases st) (auto split: list.split)
  then show ?case
    unfolding st fetch_walk.simps using v bs
    by (auto simp: contentCid_Inr intro!: served_bind served_parsers split: prod.splits)
qed simp

subsection \<open>Properties\<close>

text \<open>
  What a pull holds is bounded and genuine. However the library answers, a pull that succeeds holds
  the root, at most as many blocks as its limit, each once and within the block bound, at most the
  weight it was given, and every block hashes to the CID it is held under.
\<close>

theorem prefetch_sound:
  assumes "prefetch C J port root limits w = Inr (held, w')"
  shows "root \<in> fst ` set held \<and> distinct (map fst held) \<and> length held \<le> pl_blocks limits \<and>
    sum_list (map (length \<circ> snd) held) \<le> (case pl_totalBytes limits of None \<Rightarrow> 4096 * 1048576 | Some n \<Rightarrow> n) \<and>
    list_all (genuine C) held"
proof -
  obtain weight weighed where "pulled C (pl_blocks limits) weight [] (fst ` set held) held weighed" "root \<in> fst ` set held"
    "weight = (case pl_totalBytes limits of None \<Rightarrow> 4096 * 1048576 | Some n \<Rightarrow> n)"
    by (rule prefetch_pulled [OF assms])
  then show ?thesis by (simp add: pulled_def list_all_iff)
qed

text \<open>
  C35. A pull is enough for the traversal. After a pull from a root, any path of the site is traversed
  from the held blocks alone: no block is missing and none is refused for its hash, and the outcome,
  bytes or refusal, is the one every source gives that answers with the held blocks and with
  anything at all for other CIDs.
\<close>

theorem prefetch_suffices:
  fixes source :: "'s BlockSource"
  assumes "prefetch C J port root limits w = Inr (held, w')"
  shows "served (fetchPath C (heldSource held) () root path) \<and>
    (covers source held \<longrightarrow>
       forget (fetchPath C source s root path) = forget (fetchPath C (heldSource held) () root path))"
proof -
  obtain weight weighed where p: "pulled C (pl_blocks limits) weight [] (fst ` set held) held weighed" "root \<in> fst ` set held"
    by (rule prefetch_pulled [OF assms])
  obtain bs where root: "(root, bs) \<in> set held" using p(2) by auto
  have c: "covers (heldSource held) held" using p(1) by (intro heldSource_covers) (simp add: pulled_def)
  have walk: "forget (fetch_walk C source root ps 0 (b, s)) = forget (fetch_walk C (heldSource held) root ps 0 (b, s')) \<and>
      (\<forall>t b' st. fetch_walk C source root ps 0 (b, s) = Inr (t, b', st) \<longrightarrow> t \<in> fst ` set held)"
    if "covers source held" for source :: "'t BlockSource" and ps b s s'
    by (rule fetch_walk_held [OF p(1) that c root])
  have "served (fetchPath C (heldSource held) () root path)"
    using walk [OF c, of "path_segments path" new_budget "()"] fetch_walk_served [OF p(1) c root] fetchFile_served [OF p(1) c]
    by (auto simp: fetchPath_def Let_def intro!: served_bind split: prod.splits)
  moreover have "forget (fetchPath C source s root path) = forget (fetchPath C (heldSource held) () root path)"
    if cov: "covers source held"
    unfolding fetchPath_def Let_def
  proof (rule forget_fail, rule forget_bind, goal_cases)
    case 1
    show ?case using walk [OF cov] by blast
  next
    case (2 t b st st')
    then have "t \<in> fst ` set held" using walk [OF cov] by blast
    then obtain bs where "(t, bs) \<in> set held" by auto
    then show ?case using fetchFile_held [OF p(1) cov c] by simp
  qed
  ultimately show ?thesis by blast
qed

text \<open>What is resolved is no promise, no asynchronous iterable and no generator.\<close>

lemma resolveValue_plain:
  "resolveValue J v w = (Settled x, w') \<Longrightarrow> \<not> isThenable J x \<and> \<not> isAsyncIterable J x \<and> \<not> isGenerator J x"
proof -
  have "resolve_value J n v w = (Settled x, w') \<Longrightarrow> \<not> isThenable J x \<and> \<not> isAsyncIterable J x \<and> \<not> isGenerator J x" for n
    by (induction n arbitrary: v w) (auto split: if_splits prod.splits settled.splits)
  then show "resolveValue J v w = (Settled x, w') \<Longrightarrow> \<not> isThenable J x \<and> \<not> isAsyncIterable J x \<and> \<not> isGenerator J x"
    by (simp add: resolveValue_def)
qed

text \<open>
  The default weight is no bound. With it, and with at most 4,096 blocks, no pull is ever refused for
  its weight: every larger weight gives the same outcome.
\<close>

lemma pull_one_weight:
  assumes "weighed \<le> k * 1048576" "k < 4096" "4294967296 \<le> n"
  shows "pull_one C J port n cid weighed w = pull_one C J port 4294967296 cid weighed w"
proof -
  have "k * 1048576 \<le> 4095 * 1048576" using assms(2) by (intro mult_le_mono1) simp
  then have "weighed + length bs \<le> 4294967296 \<and> weighed + length bs \<le> n" if "length bs \<le> 1048576" for bs :: bytes
    using assms(1,3) that by linarith
  then have within: "\<not> weighed + length bs > 4294967296" "\<not> weighed + length bs > n" if "\<not> length bs > 1048576" for bs :: bytes
    using that by (meson not_less)+
  show ?thesis
  proof (cases "withDeadline (andThen (blocks_get port cid w) (blockBytes J))")
    case (Inr r)
    obtain bs w' where r: "r = (bs, w')" by force
    show ?thesis
      unfolding pull_one_def Inr r sum.case prod.case Let_def fetch_limits_simps
      by (cases "length bs > 1048576") (simp_all only: within not_False_eq_True if_True if_False)
  qed (simp add: pull_one_def)
qed

lemma prefetch_loop_weight:
  "weight = 4294967296 \<Longrightarrow> weighed \<le> length held * 1048576 \<Longrightarrow> blocks \<le> 4096 \<Longrightarrow> 4294967296 \<le> n \<Longrightarrow>
    prefetch_loop C J port blocks n queue seen held weighed w = prefetch_loop C J port blocks weight queue seen held weighed w"
proof (induction C J port blocks weight queue seen held weighed w rule: prefetch_loop.induct)
  case (1 C J port blocks weight seen held weighed w)
  show ?case by (simp add: prefetch_loop.simps)
next
  case (2 C J port blocks weight cid queue seen held weighed w)
  show ?case
  proof (cases "cid \<in> seen \<or> length held \<ge> blocks")
    case True
    then show ?thesis using 2 by (auto simp: prefetch_loop.simps)
  next
    case False
    then have "length held < 4096" using 2(5) by simp
    note p = pull_one_weight [OF 2(4) this 2(6), of C J port cid w]
    show ?thesis
    proof (cases "pull_one C J port weight cid weighed w")
      case (Inl e)
      then show ?thesis using False p 2(3) by (simp add: prefetch_loop.simps)
    next
      case (Inr r)
      obtain bs children weighed1 w1 where r: "r = (bs, children, weighed1, w1)" by (cases r)
      note Inr = Inr [unfolded r]
      note one = pull_one_Inr [OF Inr]
      have "length bs \<le> 1048576" using one(1) by (simp add: genuine_def)
      then have "weighed1 \<le> length (held @ [(cid, bs)]) * 1048576" using 2(4) one(3) by simp
      from 2(2) [OF _ _ Inr refl refl refl 2(3) this 2(5,6)] False Inr p 2(3) show ?thesis
        by (simp add: prefetch_loop.simps)
    qed
  qed
qed

theorem default_weight_never_refuses:
  assumes "pl_totalBytes limits = None" and "pl_blocks limits \<le> 4096" and "4294967296 \<le> n"
  shows "prefetch C J port root limits w = prefetch C J port root (limits\<lparr>pl_totalBytes := Some n\<rparr>) w"
  using prefetch_loop_weight [of 4294967296 0 "[]" "pl_blocks limits" n C J port "[root]" "{}" w] assms
  by (simp add: prefetch_def)

subsection \<open>A library that answers with bytes\<close>

definition plain_objects :: "(bytes, unit) objects" where
  "plain_objects =
     \<lparr>undefined_value = [], isThenable = (\<lambda>_. False), isAsyncIterable = (\<lambda>_. False), isGenerator = (\<lambda>_. False),
      settles = (\<lambda>_ w. (Rejected Library, w)), async_next = (\<lambda>_ w. (Rejected Library, w)),
      async_return = (\<lambda>_ w. (Settled (), w)), gen_next = (\<lambda>_ _ w. (Rejected Library, w)), octets = Some,
      subarray = (\<lambda>_ w. (Settled None, w))\<rparr>"

definition plain_port :: "(bytes, unit) AsyncBlocks" where
  "plain_port = \<lparr>blocks_get = (\<lambda>cid w. (Settled [7], w)), blocks_put = (\<lambda>cid bs w. (Settled [], w))\<rparr>"

lemma plain_pull:
  assumes "block_ok sample_crypto 0x55 \<lparr>bk_cid = cid, bk_bytes = [7]\<rparr>"
  shows "prefetch sample_crypto plain_objects plain_port cid \<lparr>pl_blocks = 3, pl_totalBytes = None\<rparr> () = Inr ([(cid, [7])], ())"
proof -
  have c: "decodeCid cid = Inr (block_cid sample_crypto 0x55 [7])" using block_decodes [OF assms] by simp
  have "resolveValue plain_objects v w = (Settled v, w)" for v w
    by (simp add: resolveValue_def plain_objects_def numeral_eq_Suc)
  then have b: "withDeadline (andThen (blocks_get plain_port cid ()) (blockBytes plain_objects)) = Inr ([7], ())"
    by (simp add: blockBytes_def withDeadline_def plain_port_def) (simp add: plain_objects_def)
  have d: "foldl (\<lambda>same (d, e). same OR (d XOR e)) (0 :: byte)
      (zip (sha256 sample_crypto [7]) (sha256 sample_crypto [7])) = 0"
    by (rule fold_diff [THEN iffD2]) (rule refl, intro conjI refl)
  have children: "childrenOf cid [7] = Inr []" by (simp add: childrenOf_def c block_cid_def)
  have "pull_one sample_crypto plain_objects plain_port 4294967296 cid 0 () = Inr ([7], [], 1, ())"
    unfolding pull_one_def b c children Let_def sum.case prod.case block_cid_def Cid.select_convs
    by (simp add: d del: sample_crypto_simps)
  then show ?thesis by (simp add: prefetch_def prefetch_loop.simps)
qed

theorem prefetch_sound_witness:
  "\<exists>cid held. prefetch sample_crypto plain_objects plain_port cid \<lparr>pl_blocks = 3, pl_totalBytes = None\<rparr> () = Inr (held, ()) \<and>
     cid \<in> fst ` set held \<and> length held \<le> 3"
proof -
  obtain cid where cid: "block_ok sample_crypto 0x55 \<lparr>bk_cid = cid, bk_bytes = [7]\<rparr>" using sample_leaf by blast
  from prefetch_sound [OF plain_pull [OF cid]] plain_pull [OF cid] show ?thesis
    by (intro exI [of _ cid] exI [of _ "[(cid, [7])]"]) simp
qed

theorem prefetch_suffices_witness:
  "\<exists>cid held. prefetch sample_crypto plain_objects plain_port cid \<lparr>pl_blocks = 3, pl_totalBytes = None\<rparr> () = Inr (held, ()) \<and>
     forget (fetchPath sample_crypto (\<lambda>s cid. (Some [7], Suc s)) 0 cid []) = forget (fetchPath sample_crypto (heldSource held) () cid [])"
proof -
  obtain cid where cid: "block_ok sample_crypto 0x55 \<lparr>bk_cid = cid, bk_bytes = [7]\<rparr>" using sample_leaf by blast
  have "covers (\<lambda>s cid. (Some [7], Suc s)) [(cid, [7])]" by (simp add: covers_def)
  with prefetch_suffices [OF plain_pull [OF cid], of "[]" "\<lambda>s cid. (Some [7], Suc s)" 0]
  have "forget (fetchPath sample_crypto (\<lambda>s cid. (Some [7], Suc s)) 0 cid []) =
      forget (fetchPath sample_crypto (heldSource [(cid, [7])]) () cid [])" by (rule mp [OF conjunct2])
  with plain_pull [OF cid] show ?thesis by (intro exI conjI)
qed

theorem default_weight_never_refuses_witness:
  "prefetch sample_crypto plain_objects plain_port [] \<lparr>pl_blocks = 4096, pl_totalBytes = None\<rparr> () =
   prefetch sample_crypto plain_objects plain_port [] \<lparr>pl_blocks = 4096, pl_totalBytes = Some (2 ^ 60)\<rparr> ()"
proof -
  let ?l = "\<lparr>pl_blocks = 4096, pl_totalBytes = None\<rparr>"
  have "pl_totalBytes ?l = None" "pl_blocks ?l \<le> 4096" "(4294967296 :: nat) \<le> 2 ^ 60" by simp_all
  from default_weight_never_refuses [OF this, of sample_crypto plain_objects plain_port "[]" "()"] show ?thesis
    by (simp only: pull_limits.update_convs)
qed

end
