(* ===== verification/Pins.thy ===== *)
theory Pins
  imports Prelude
begin

section \<open>Pins and availability\<close>

text \<open>
  registry/src/pins.ts: the report of who was observed to hold a site, its summary in a sentence,
  and the set of sites a node undertakes to serve. The texts of \<open>UNPUBLISH_EFFECTS\<close> and the
  messages of errors are left out; the field \<open>availabilityUnguaranteed\<close> is the constant true.
\<close>

datatype Holder = Self | Peer jsstr | Service jsstr

record Observation =
  o_holder :: Holder
  o_observedAt :: int

record AvailabilityReport =
  ar_cid :: jsstr
  ar_asked :: int
  ar_answered :: nat
  ar_peersHolding :: nat
  ar_servicesHolding :: nat
  ar_selfPinned :: bool
  ar_observedAt :: "int option"

datatype pin_error = PIN_ERROR

definition identity :: "Holder \<Rightarrow> jsstr" where
  "identity holder =
     (case holder of Self \<Rightarrow> js ''self'' | Peer i \<Rightarrow> js ''peer:'' @ i | Service n \<Rightarrow> js ''service:'' @ n)"

text \<open>The newest observation of each holder, in the order the holders were first seen.\<close>

definition see :: "Observation \<Rightarrow> (jsstr, Observation) jsmap \<Rightarrow> (jsstr, Observation) jsmap" where
  "see observation seen =
     (let key = identity (o_holder observation) in
      case map_get seen key of
        None \<Rightarrow> map_set key observation seen
      | Some existing \<Rightarrow>
          if o_observedAt observation > o_observedAt existing then map_set key observation seen else seen)"

definition tally :: "Observation \<Rightarrow> AvailabilityReport \<Rightarrow> AvailabilityReport" where
  "tally observation r =
     (let r = (case o_holder observation of
          Peer _ \<Rightarrow> r\<lparr>ar_peersHolding := ar_peersHolding r + 1\<rparr>
        | Service _ \<Rightarrow> r\<lparr>ar_servicesHolding := ar_servicesHolding r + 1\<rparr>
        | Self \<Rightarrow> r\<lparr>ar_selfPinned := True\<rparr>)
      in case ar_observedAt r of
           None \<Rightarrow> r\<lparr>ar_observedAt := Some (o_observedAt observation)\<rparr>
         | Some newest \<Rightarrow>
             if o_observedAt observation > newest then r\<lparr>ar_observedAt := Some (o_observedAt observation)\<rparr> else r)"

definition fresh_ones :: "Observation list \<Rightarrow> int \<Rightarrow> int \<Rightarrow> Observation list" where
  "fresh_ones observations staleAfter now = filter (\<lambda>ob. o_observedAt ob > now - staleAfter) observations"

definition report :: "jsstr \<Rightarrow> int \<Rightarrow> Observation list \<Rightarrow> int \<Rightarrow> int \<Rightarrow> pin_error + AvailabilityReport" where
  "report cid asked observations staleAfter now =
     failIf (asked > MAX_SAFE_INTEGER \<or> asked < 0) PIN_ERROR
       (failIf (int (length observations) > asked + 1) PIN_ERROR
         (let seen = fold see (fresh_ones observations staleAfter now) []
          in Inr (fold tally (map snd seen)
               \<lparr>ar_cid = cid, ar_asked = asked, ar_answered = length seen, ar_peersHolding = 0,
                ar_servicesHolding = 0, ar_selfPinned = False, ar_observedAt = None\<rparr>)))"

definition onlyThisNodeHoldsIt :: "AvailabilityReport \<Rightarrow> bool" where
  "onlyThisNodeHoldsIt r \<longleftrightarrow> ar_selfPinned r \<and> ar_peersHolding r = 0 \<and> ar_servicesHolding r = 0"

definition EM_DASH :: jsstr where "EM_DASH = [0x2014]"

definition summary_parts :: "AvailabilityReport \<Rightarrow> jsstr list" where
  "summary_parts r =
     (if ar_selfPinned r then [js ''pinned here''] else []) @
     (if ar_peersHolding r > 0 then
        [nat_text (ar_peersHolding r) @ js '' other peer'' @ (if ar_peersHolding r = 1 then [] else js ''s'') @
         js '' answered'']
      else []) @
     (if ar_servicesHolding r > 0 then
        [nat_text (ar_servicesHolding r) @ js '' pinning service'' @ (if ar_servicesHolding r = 1 then [] else js ''s'')]
      else [])"

definition summarise :: "AvailabilityReport \<Rightarrow> jsstr" where
  "summarise r =
     (if summary_parts r = [] then
        (if ar_asked r = 0 then js ''No peers were asked. Nothing is known about who holds this.''
         else js ''No peer answered out of '' @ int_text (ar_asked r) @
           js '' asked. That is not the same as nobody holding it.'')
      else if \<not> ar_selfPinned r \<and> ar_peersHolding r = 0 \<and> ar_servicesHolding r = 0 then
        js ''Nothing observed holding this.''
      else if onlyThisNodeHoldsIt r then
        (if ar_asked r = 0 then
           js ''pinned here, and no peer has been asked. Nothing is known about who else holds it '' @ EM_DASH @
           js '' if this node goes offline the site stops loading.''
         else
           js ''pinned here, and none of the '' @ int_text (ar_asked r) @ js '' peers asked answered for it '' @ EM_DASH @
           js '' if this node goes offline the site stops loading. Observed, not guaranteed.'')
      else join_with (js '', '') (summary_parts r) @ js ''. Observed, not guaranteed.'')"

definition OBSERVATION_STALE_SECONDS :: int where "OBSERVATION_STALE_SECONDS = 300"
definition TOMBSTONE_CACHE_SECONDS :: int where "TOMBSTONE_CACHE_SECONDS = 3600"

definition tombstonedBindingExpired :: "int \<Rightarrow> int \<Rightarrow> bool" where
  "tombstonedBindingExpired observedAt now \<longleftrightarrow> now - observedAt \<ge> TOMBSTONE_CACHE_SECONDS"

subsection \<open>The pin set\<close>

definition PIN_LIMITS_entries :: nat where "PIN_LIMITS_entries = 256"

datatype PinOutcome = PINNED | ALREADY | NOT_HELD | FULL

text \<open>A JavaScript \<open>Set\<close> in insertion order; \<open>holds\<close> is asked at each call.\<close>

record PinSet =
  pinned :: "jsstr list"
  cap :: nat

definition new_pins :: "nat \<Rightarrow> PinSet" where "new_pins n = \<lparr>pinned = [], cap = n\<rparr>"

definition pins_add :: "(jsstr \<Rightarrow> bool) \<Rightarrow> jsstr \<Rightarrow> PinSet \<Rightarrow> PinOutcome \<times> PinSet" where
  "pins_add holds cid p =
     (if cid \<in> set (pinned p) then (ALREADY, p)
      else if \<not> holds cid then (NOT_HELD, p)
      else if length (pinned p) \<ge> cap p then (FULL, p)
      else (PINNED, p\<lparr>pinned := pinned p @ [cid]\<rparr>))"

definition pins_remove :: "jsstr \<Rightarrow> PinSet \<Rightarrow> bool \<times> PinSet" where
  "pins_remove cid p = (cid \<in> set (pinned p), p\<lparr>pinned := removeAll cid (pinned p)\<rparr>)"

definition pins_has :: "jsstr \<Rightarrow> PinSet \<Rightarrow> bool" where "pins_has cid p \<longleftrightarrow> cid \<in> set (pinned p)"
definition pins_list :: "PinSet \<Rightarrow> jsstr list" where "pins_list p = pinned p"

subsection \<open>The report\<close>

lemma identity_inject: "identity h = identity h' \<longleftrightarrow> h = h'"
  by (cases h; cases h') (simp_all add: identity_def)

definition seen_ok :: "Observation list \<Rightarrow> (jsstr, Observation) jsmap \<Rightarrow> bool" where
  "seen_ok obs seen \<longleftrightarrow>
     distinct (map fst seen) \<and>
     (\<forall>k ob. map_get seen k = Some ob \<longrightarrow> k = identity (o_holder ob) \<and> ob \<in> set obs) \<and>
     (\<forall>ob\<in>set obs. \<exists>ob'. map_get seen (identity (o_holder ob)) = Some ob' \<and> o_observedAt ob \<le> o_observedAt ob')"

lemma see_ok:
  assumes "seen_ok obs seen"
  shows "seen_ok (obs @ [ob]) (see ob seen)"
proof (cases "map_get seen (identity (o_holder ob))")
  case None
  then show ?thesis
    using assms by (auto simp: seen_ok_def see_def Let_def identity_inject distinct_map_set)
next
  case (Some old)
  let ?k = "identity (o_holder ob)"
  have same: "see ob seen = seen \<and> o_observedAt ob \<le> o_observedAt old \<or>
      see ob seen = map_set ?k ob seen \<and> o_observedAt old \<le> o_observedAt ob"
    using Some by (auto simp: see_def)
  have "\<exists>ob''. map_get (see ob seen) (identity (o_holder x)) = Some ob'' \<and> o_observedAt x \<le> o_observedAt ob''"
    if "x \<in> set (obs @ [ob])" for x
  proof (cases "o_holder x = o_holder ob")
    case True
    have "o_observedAt x \<le> o_observedAt old \<or> x = ob"
      using that assms True Some by (auto simp: seen_ok_def)
    then show ?thesis using same Some True by auto
  next
    case False
    then have "x \<in> set obs" using that by auto
    then show ?thesis using assms same False by (auto simp: seen_ok_def identity_inject)
  qed
  then show ?thesis
    using assms same by (auto simp: seen_ok_def distinct_map_set split: if_splits)
qed

lemma fold_see_ok: "seen_ok obs seen \<Longrightarrow> seen_ok (obs @ later) (fold see later seen)"
proof (induction later arbitrary: obs seen)
  case (Cons ob later)
  then show ?case using Cons.IH [OF see_ok [OF Cons.prems, of ob]] by simp
qed simp

definition holders :: "Observation list \<Rightarrow> Holder set" where
  "holders obs = o_holder ` set obs"

lemma seen_holders:
  assumes "seen_ok obs seen"
  shows "distinct (map (o_holder \<circ> snd) seen)" "(o_holder \<circ> snd) ` set seen = holders obs"
    "(\<forall>ob\<in>set obs. \<exists>x\<in>snd ` set seen. o_observedAt ob \<le> o_observedAt x)" "snd ` set seen \<subseteq> set obs"
proof -
  have get: "map_get seen k = Some ob" if "(k, ob) \<in> set seen" for k ob
    using assms that by (auto simp: seen_ok_def)
  have keys: "map fst seen = map (identity \<circ> (o_holder \<circ> snd)) seen"
    using assms get by (auto simp: seen_ok_def)
  have "distinct (map fst seen)" using assms by (simp add: seen_ok_def)
  then have "distinct (map identity (map (o_holder \<circ> snd) seen))"
    by (simp add: keys)
  then show "distinct (map (o_holder \<circ> snd) seen)" by (simp only: distinct_map)
  show "snd ` set seen \<subseteq> set obs" using assms get by (fastforce simp: seen_ok_def)
  show "(o_holder \<circ> snd) ` set seen = holders obs"
  proof
    show "(o_holder \<circ> snd) ` set seen \<subseteq> holders obs"
      using \<open>snd ` set seen \<subseteq> set obs\<close> by (auto simp: holders_def)
    show "holders obs \<subseteq> (o_holder \<circ> snd) ` set seen"
    proof
      fix h assume "h \<in> holders obs"
      then obtain ob where ob: "map_get seen (identity h) = Some ob"
        using assms by (force simp: seen_ok_def holders_def)
      then have "identity h = identity (o_holder ob)" using assms by (auto simp only: seen_ok_def)
      then have "o_holder ob = h" by (simp add: identity_inject)
      with map_of_SomeD [OF ob] show "h \<in> (o_holder \<circ> snd) ` set seen" by force
    qed
  qed
  show "\<forall>ob\<in>set obs. \<exists>x\<in>snd ` set seen. o_observedAt ob \<le> o_observedAt x"
  proof
    fix ob assume "ob \<in> set obs"
    then obtain ob' where ob': "map_get seen (identity (o_holder ob)) = Some ob'" "o_observedAt ob \<le> o_observedAt ob'"
      using assms unfolding seen_ok_def by blast
    from map_of_SomeD [OF ob'(1)] have "ob' \<in> snd ` set seen" by force
    with ob'(2) show "\<exists>x\<in>snd ` set seen. o_observedAt ob \<le> o_observedAt x" by blast
  qed
qed

definition is_peer :: "Holder \<Rightarrow> bool" where "is_peer h \<longleftrightarrow> (\<exists>i. h = Peer i)"
definition is_service :: "Holder \<Rightarrow> bool" where "is_service h \<longleftrightarrow> (\<exists>n. h = Service n)"

definition newest :: "int option \<Rightarrow> int \<Rightarrow> int option" where
  "newest m t = (case m of None \<Rightarrow> Some t | Some n \<Rightarrow> Some (max n t))"

lemma tally_simps:
  "ar_peersHolding (tally ob r) = ar_peersHolding r + (if is_peer (o_holder ob) then 1 else 0)"
  "ar_servicesHolding (tally ob r) = ar_servicesHolding r + (if is_service (o_holder ob) then 1 else 0)"
  "ar_selfPinned (tally ob r) \<longleftrightarrow> ar_selfPinned r \<or> o_holder ob = Self"
  "ar_observedAt (tally ob r) = newest (ar_observedAt r) (o_observedAt ob)"
  "ar_asked (tally ob r) = ar_asked r" "ar_cid (tally ob r) = ar_cid r" "ar_answered (tally ob r) = ar_answered r"
  by (auto simp: tally_def Let_def is_peer_def is_service_def newest_def max_def split: Holder.split option.split)

lemma fold_tally:
  "ar_peersHolding (fold tally obs r) = ar_peersHolding r + length (filter is_peer (map o_holder obs))"
  "ar_servicesHolding (fold tally obs r) = ar_servicesHolding r + length (filter is_service (map o_holder obs))"
  "ar_selfPinned (fold tally obs r) \<longleftrightarrow> ar_selfPinned r \<or> Self \<in> o_holder ` set obs"
  "ar_observedAt (fold tally obs r) = fold (\<lambda>ob m. newest m (o_observedAt ob)) obs (ar_observedAt r)"
  "ar_asked (fold tally obs r) = ar_asked r" "ar_cid (fold tally obs r) = ar_cid r"
  "ar_answered (fold tally obs r) = ar_answered r"
  by (induction obs arbitrary: r) (auto simp: tally_simps)

lemma fold_newest:
  "fold (\<lambda>ob m. newest m (o_observedAt ob)) obs (Some t) = Some (Max (insert t (o_observedAt ` set obs)))"
proof (induction obs arbitrary: t)
  case (Cons ob obs)
  then show ?case by (simp add: newest_def insert_commute [of t] Max.insert_not_elem max.commute)
    (cases "o_observedAt ` set obs = {}"; simp add: max.assoc max.left_commute)
qed simp

lemma fold_newest_None:
  "fold (\<lambda>ob m. newest m (o_observedAt ob)) obs None = (if obs = [] then None else Some (Max (o_observedAt ` set obs)))"
proof (cases obs)
  case (Cons ob list)
  have "newest None (o_observedAt ob) = Some (o_observedAt ob)" by (simp add: newest_def)
  then show ?thesis using fold_newest [of list "o_observedAt ob"] Cons by simp
qed simp

lemma distinct_count: "distinct xs \<Longrightarrow> length (filter P xs) = card {x \<in> set xs. P x}"
  by (metis distinct_card distinct_filter set_filter)

text \<open>
  The report says what was observed. Over the observations that are not stale it counts each other
  peer once and each service once, however often they answered, it says whether this node holds the
  site, and it carries the moment of the newest one; \<open>answered\<close> counts every one of these holders.
\<close>

theorem report_exact:
  assumes "report cid asked observations staleAfter now = Inr r"
  shows "let counted = holders (fresh_ones observations staleAfter now) in
    ar_cid r = cid \<and> ar_asked r = asked \<and>
    ar_peersHolding r = card {h \<in> counted. is_peer h} \<and> ar_servicesHolding r = card {h \<in> counted. is_service h} \<and>
    (ar_selfPinned r \<longleftrightarrow> Self \<in> counted) \<and> ar_answered r = card counted \<and>
    ar_observedAt r = (if counted = {} then None
      else Some (Max (o_observedAt ` set (fresh_ones observations staleAfter now))))"
proof -
  let ?obs = "fresh_ones observations staleAfter now"
  let ?seen = "fold see ?obs []"
  let ?xs = "map o_holder (map snd ?seen)"
  have "seen_ok [] []" by (simp add: seen_ok_def)
  from fold_see_ok [OF this, of ?obs] have ok: "seen_ok ?obs ?seen" by simp
  note h = seen_holders [OF ok]
  have xs: "distinct ?xs" "set ?xs = holders ?obs" using h(1,2) by (simp_all add: comp_def image_comp)
  have r: "r = fold tally (map snd ?seen) \<lparr>ar_cid = cid, ar_asked = asked, ar_answered = length ?seen,
      ar_peersHolding = 0, ar_servicesHolding = 0, ar_selfPinned = False, ar_observedAt = None\<rparr>"
    using assms by (simp add: report_def Let_def split: if_splits)
  have "length ?seen = card (holders ?obs)" using xs distinct_card [OF xs(1)] by simp
  moreover have "Max (o_observedAt ` set (map snd ?seen)) = Max (o_observedAt ` set ?obs)" if "?seen \<noteq> []"
  proof (rule antisym)
    show "Max (o_observedAt ` set (map snd ?seen)) \<le> Max (o_observedAt ` set ?obs)"
      using that h(4) by (intro Max_mono) auto
    have "o_observedAt ob \<le> Max (o_observedAt ` set (map snd ?seen))" if "ob \<in> set ?obs" for ob
      using h(3) that by (auto intro!: Max_ge_iff [THEN iffD2])
    moreover have "set ?obs \<noteq> {}" using that h(4) by auto
    ultimately show "Max (o_observedAt ` set ?obs) \<le> Max (o_observedAt ` set (map snd ?seen))"
      by (subst Max_le_iff) auto
  qed
  moreover have "?seen = [] \<longleftrightarrow> holders ?obs = {}" using xs(2) by auto
  ultimately show ?thesis
    unfolding Let_def r fold_tally using xs distinct_count [OF xs(1)]
    by (auto simp: fold_newest_None image_image)
qed

theorem report_exact_witness:
  "\<exists>r. report [] 2 [\<lparr>o_holder = Self, o_observedAt = 10\<rparr>, \<lparr>o_holder = Peer [1], o_observedAt = 11\<rparr>,
     \<lparr>o_holder = Peer [1], o_observedAt = 12\<rparr>] 300 20 = Inr r \<and> ar_observedAt r = Some 12"
proof -
  let ?obs = "[\<lparr>o_holder = Self, o_observedAt = 10\<rparr>, \<lparr>o_holder = Peer [1], o_observedAt = 11\<rparr>,
     \<lparr>o_holder = Peer [1], o_observedAt = 12\<rparr>]"
  obtain r where r: "report [] 2 ?obs 300 20 = Inr r" by (simp add: report_def MAX_SAFE_INTEGER_def Let_def)
  from report_exact [OF this] have "ar_observedAt r = Some 12"
    by (simp add: fresh_ones_def holders_def Let_def)
  with r show ?thesis by blast
qed

text \<open>\<open>answered\<close> is more than the peers asked when the node counts itself.\<close>

lemma answered_exceeds_asked:
  "\<exists>r. report cid 0 [\<lparr>o_holder = Self, o_observedAt = now\<rparr>] 300 now = Inr r \<and> ar_asked r < int (ar_answered r)"
  by (simp add: report_def MAX_SAFE_INTEGER_def Let_def see_def tally_simps fresh_ones_def)

subsection \<open>Histories of the pin set\<close>

datatype pin_op = Add "jsstr \<Rightarrow> bool" jsstr | Remove jsstr

fun pin_step :: "pin_op \<Rightarrow> PinSet \<Rightarrow> PinSet" where
  "pin_step (Add holds cid) p = snd (pins_add holds cid p)"
| "pin_step (Remove cid) p = snd (pins_remove cid p)"

lemma pin_step_kept:
  assumes "distinct (pinned p) \<and> length (pinned p) \<le> n \<and> cap p = n"
  shows "distinct (pinned (pin_step op p)) \<and> length (pinned (pin_step op p)) \<le> n \<and> cap (pin_step op p) = n"
proof (cases op)
  case (Remove cid)
  then show ?thesis
    using assms le_trans [OF length_removeAll_less_eq [of cid "pinned p"], of n]
    by (simp add: pins_remove_def distinct_removeAll)
qed (use assms in \<open>auto simp: pins_add_def\<close>)

text \<open>
  C39. The pin set after any history: no site twice, at most as many as the bound, and each of them was
  held when it was last pinned and has not been released since.
\<close>

theorem pins_earned:
  "let p = fold pin_step ops (new_pins n) in
   distinct (pinned p) \<and> length (pinned p) \<le> n \<and> cap p = n \<and>
   (\<forall>cid\<in>set (pinned p). \<exists>before holds after. ops = before @ Add holds cid # after \<and> holds cid \<and> Remove cid \<notin> set after)"
proof (induction ops rule: rev_induct)
  case Nil
  then show ?case by (simp add: new_pins_def)
next
  case (snoc op ops)
  let ?p = "fold pin_step ops (new_pins n)"
  let ?q = "pin_step op ?p"
  have IH: "distinct (pinned ?p)" "length (pinned ?p) \<le> n" "cap ?p = n"
    "\<And>cid. cid \<in> set (pinned ?p) \<Longrightarrow>
      \<exists>before holds after. ops = before @ Add holds cid # after \<and> holds cid \<and> Remove cid \<notin> set after"
    using snoc by (auto simp: Let_def)
  have new: "(\<exists>holds. op = Add holds cid \<and> holds cid) \<or> cid \<in> set (pinned ?p) \<and> op \<noteq> Remove cid"
    if "cid \<in> set (pinned ?q)" for cid
    using that by (cases op) (auto simp: pins_add_def pins_remove_def split: if_splits)
  have "\<exists>before holds after. ops @ [op] = before @ Add holds cid # after \<and> holds cid \<and> Remove cid \<notin> set after"
    if "cid \<in> set (pinned ?q)" for cid
    using new [OF that]
  proof
    assume "cid \<in> set (pinned ?p) \<and> op \<noteq> Remove cid"
    then obtain b h a where "ops = b @ Add h cid # a" "h cid" "Remove cid \<notin> set a" "op \<noteq> Remove cid"
      using IH(4) by blast
    then show ?thesis by (intro exI [of _ b] exI [of _ h] exI [of _ "a @ [op]"]) auto
  qed fastforce
  moreover have "distinct (pinned ?q)" "length (pinned ?q) \<le> n" "cap ?q = n"
    using pin_step_kept [of ?p n op] IH(1-3) by blast+
  ultimately show ?case by (simp add: Let_def)
qed

text \<open>Two sites are pinned of three asked for; one is not held, one is released again.\<close>

theorem pins_earned_witness:
  "\<exists>before holds after. [Add (\<lambda>_. True) [1], Add (\<lambda>_. False) [2], Add (\<lambda>_. True) [3], Remove [1]]
     = before @ Add holds [3] # after \<and> holds [3] \<and> Remove [3] \<notin> set after"
proof -
  let ?ops = "[Add (\<lambda>_. True) [1], Add (\<lambda>_. False) [2], Add (\<lambda>_. True) [3], Remove [1]]"
  have "[3] \<in> set (pinned (fold pin_step ?ops (new_pins 2)))"
    by (simp add: new_pins_def pins_add_def pins_remove_def)
  with pins_earned [of ?ops 2] show ?thesis unfolding Let_def by blast
qed

end
