(* ===== verification/Mime.thy ===== *)
theory Mime
  imports Prelude
begin

section \<open>Media types\<close>

text \<open>
  registry/src/mime.ts. The table is a plain object of the code, and a lookup in it also finds what
  every object inherits. Of the inherited names two are in lower case, and what they hold is not a
  text; \<open>Inherited\<close> is such a result.
\<close>

definition MIME_TYPES :: "(string \<times> string) list" where
  "MIME_TYPES =
    [(''html'', ''text/html; charset=utf-8''), (''htm'', ''text/html; charset=utf-8''),
     (''css'', ''text/css; charset=utf-8''), (''js'', ''text/javascript; charset=utf-8''),
     (''mjs'', ''text/javascript; charset=utf-8''), (''json'', ''application/json''),
     (''map'', ''application/json''), (''svg'', ''image/svg+xml''), (''png'', ''image/png''),
     (''jpg'', ''image/jpeg''), (''jpeg'', ''image/jpeg''), (''gif'', ''image/gif''),
     (''webp'', ''image/webp''), (''avif'', ''image/avif''), (''ico'', ''image/x-icon''),
     (''txt'', ''text/plain; charset=utf-8''), (''text'', ''text/plain; charset=utf-8''),
     (''log'', ''text/plain; charset=utf-8''), (''csv'', ''text/plain; charset=utf-8''),
     (''md'', ''text/markdown; charset=utf-8''), (''xml'', ''application/xml''),
     (''pdf'', ''application/pdf''), (''wasm'', ''application/wasm''), (''woff'', ''font/woff''),
     (''woff2'', ''font/woff2''), (''ttf'', ''font/ttf''), (''otf'', ''font/otf''),
     (''mp3'', ''audio/mpeg''), (''ogg'', ''audio/ogg''), (''oga'', ''audio/ogg''),
     (''wav'', ''audio/wav''), (''mp4'', ''video/mp4''), (''webm'', ''video/webm'')]"

definition DEFAULT_CONTENT_TYPE :: jsstr where
  "DEFAULT_CONTENT_TYPE = js ''application/octet-stream''"

datatype content_type = Text jsstr | Inherited jsstr

definition mime_lookup :: "jsstr \<Rightarrow> content_type option" where
  "mime_lookup key =
     (case map_of (map (\<lambda>(k, v). (js k, js v)) MIME_TYPES) key of
        Some t \<Rightarrow> Some (Text t)
      | None \<Rightarrow> if key = js ''constructor'' \<or> key = js ''__proto__'' then Some (Inherited key) else None)"

text \<open>What follows the last dot, the whole text when there is none.\<close>

definition extension_of :: "jsstr \<Rightarrow> jsstr" where
  "extension_of path = rev (takeWhile (\<lambda>u. u \<noteq> 0x2E) (rev path))"

definition contentTypeOf :: "jsstr \<Rightarrow> content_type" where
  "contentTypeOf path =
     (case mime_lookup (toLowerCase (extension_of path)) of Some t \<Rightarrow> t | None \<Rightarrow> Text DEFAULT_CONTENT_TYPE)"

lemma extension_after_dot:
  assumes "0x2E \<notin> set e"
  shows "extension_of (p @ 0x2E # e) = e"
proof -
  have "takeWhile (\<lambda>u. u \<noteq> 0x2E) (rev e @ 0x2E # rev p) = rev e"
    by (subst takeWhile_append2) (use assms in auto)
  then show ?thesis by (simp add: extension_of_def)
qed

text \<open>
  Of a path in a tree only the last part counts: whatever comes before the last dot, the type is the
  table's for the extension, in any case of its letters, or the default.
\<close>

lemma contentTypeOf_extension:
  assumes "0x2E \<notin> set e"
  shows "contentTypeOf (p @ 0x2E # e) =
    (case map_of (map (\<lambda>(k, v). (js k, js v)) MIME_TYPES) (toLowerCase e) of
       Some t \<Rightarrow> Text t
     | None \<Rightarrow> if toLowerCase e \<in> {js ''constructor'', js ''__proto__''} then Inherited (toLowerCase e)
        else Text DEFAULT_CONTENT_TYPE)"
  using extension_after_dot [OF assms] by (simp add: contentTypeOf_def mime_lookup_def split: option.split)

text \<open>The extension of a site's file can make its type something that is no text.\<close>

lemma inherited_type:
  "contentTypeOf (js ''/a.constructor'') = Inherited (js ''constructor'')"
  "contentTypeOf (js ''/a.__proto__'') = Inherited (js ''__proto__'')"
  "contentTypeOf (js ''html'') = Text (js ''text/html; charset=utf-8'')"
  by (simp_all add: contentTypeOf_def extension_of_def mime_lookup_def MIME_TYPES_def toLowerCase_def lower_unit_def)

end
