(* ===== verification/Framing.thy ===== *)
theory Framing
  imports Prelude
begin

section \<open>Frames\<close>

text \<open>
  registry/src/swarm.ts, the framing of a connection: \<open>frame\<close> puts a length of four bytes before a
  message, \<open>Deframer\<close> takes the bytes of a stream in whatever chunks they come and gives back the
  messages. The deframer keeps its chunks apart and joins each message once; the abstract deframer
  keeps one buffer, and the refinement below is what the chunks come to. \<open>prefixBytes\<close> and
  \<open>frameBytes\<close> are \<open>SWARM_LIMITS\<close>; the second is \<open>LIMITS.messageBytes\<close> of the messages.
\<close>

record swarm_limits =
  frameBytes :: nat
  prefixBytes :: nat
  connections :: nat

definition SWARM_LIMITS :: swarm_limits where
  "SWARM_LIMITS = \<lparr>frameBytes = 65536, prefixBytes = 4, connections = 64\<rparr>"

lemma swarm_limits_simps [simp]:
  "frameBytes SWARM_LIMITS = 65536" "prefixBytes SWARM_LIMITS = 4" "connections SWARM_LIMITS = 64"
  by (simp_all add: SWARM_LIMITS_def)

datatype framing_rejection = FRAME_TOO_LARGE | FRAME_EMPTY

definition frame_message :: "bytes \<Rightarrow> framing_rejection + bytes" where
  "frame_message payload =
     failIf (length payload > frameBytes SWARM_LIMITS) FRAME_TOO_LARGE
       (Inr (be_bytes (prefixBytes SWARM_LIMITS) (length payload) @ payload))"

subsection \<open>The deframer\<close>

record Deframer =
  chunks :: "bytes list"
  held :: nat
  copied :: nat
  work :: nat

definition new_deframer :: Deframer where
  "new_deframer = \<lparr>chunks = [], held = 0, copied = 0, work = 0\<rparr>"

text \<open>The header is filled byte by byte over the chunks and is zero where no byte is.\<close>

fun fill_header :: "nat \<Rightarrow> bytes list \<Rightarrow> bytes" where
  "fill_header room [] = replicate room 0"
| "fill_header room (chunk # rest) =
     (if length chunk \<ge> room then take room chunk else chunk @ fill_header (room - length chunk) rest)"

definition readLength_frame :: "Deframer \<Rightarrow> nat" where
  "readLength_frame d = be_value (fill_header (prefixBytes SWARM_LIMITS) (chunks d))"

text \<open>
  \<open>take\<close>: whole chunks are used up, the last one is cut. The result is the bytes, the chunks left
  and the chunks visited; an index past the last chunk, an exception of the code, is \<open>None\<close>.
\<close>

fun take_loop :: "nat \<Rightarrow> bytes list \<Rightarrow> (bytes \<times> bytes list \<times> nat) option" where
  "take_loop 0 cs = Some ([], cs, 0)"
| "take_loop (Suc n) [] = None"
| "take_loop (Suc n) (chunk # rest) =
     (let want = min (length chunk) (Suc n) in
      if want = length chunk then
        (case take_loop (Suc n - want) rest of
           None \<Rightarrow> None
         | Some (bs, left, visits) \<Rightarrow> Some (chunk @ bs, left, Suc visits))
      else Some (take want chunk, drop want chunk # rest, 1))"

definition take_frame :: "nat \<Rightarrow> nat \<Rightarrow> Deframer \<Rightarrow> (bytes \<times> Deframer) option" where
  "take_frame skip len d =
     (case take_loop (skip + len) (chunks d) of
        None \<Rightarrow> None
      | Some (joined, left, visits) \<Rightarrow>
          Some (drop skip joined,
            d\<lparr>chunks := left, held := held d - (skip + len), copied := copied d + (skip + len),
              work := work d + visits\<rparr>))"

text \<open>
  The loop of \<open>push\<close>. Each round takes at least five bytes off \<open>held\<close>, which bounds the rounds.
  \<open>Inl\<close> is the exception, with the state it leaves behind.
\<close>

function push_loop :: "Deframer \<Rightarrow> (framing_rejection option \<times> Deframer) + bytes list \<times> Deframer" where
  "push_loop d =
     (if held d < prefixBytes SWARM_LIMITS then Inr ([], d)
      else
        let len = readLength_frame d in
        if len > frameBytes SWARM_LIMITS then Inl (Some FRAME_TOO_LARGE, d)
        else if len = 0 then Inl (Some FRAME_EMPTY, d)
        else if held d < prefixBytes SWARM_LIMITS + len then Inr ([], d)
        else
          (case take_frame (prefixBytes SWARM_LIMITS) len d of
             None \<Rightarrow> Inl (None, d)
           | Some (payload, d') \<Rightarrow>
               (case push_loop d' of
                  Inl e \<Rightarrow> Inl e
                | Inr (out, d'') \<Rightarrow> Inr (payload # out, d''))))"
  by pat_completeness auto
termination
  by (relation "measure held") (auto simp: take_frame_def split: option.splits prod.splits)

declare push_loop.simps [simp del]

definition push :: "bytes \<Rightarrow> Deframer \<Rightarrow> (framing_rejection option \<times> Deframer) + bytes list \<times> Deframer" where
  "push chunk d =
     push_loop
       (if length chunk > 0 then
          d\<lparr>chunks := chunks d @ [chunk], held := held d + length chunk,
            copied := copied d + length chunk, work := work d + 1\<rparr>
        else d)"

definition pending :: "Deframer \<Rightarrow> nat" where "pending d = held d"
definition copiedBytes :: "Deframer \<Rightarrow> nat" where "copiedBytes d = copied d"
definition workUnits :: "Deframer \<Rightarrow> nat" where "workUnits d = work d"

subsection \<open>The abstract deframer\<close>

text \<open>One buffer: the messages whose bytes are all there, and the bytes left over.\<close>

function deframe :: "bytes \<Rightarrow> framing_rejection + bytes list \<times> bytes" where
  "deframe buf =
     (if length buf < 4 then Inr ([], buf)
      else
        let len = be_value (take 4 buf) in
        if len > 65536 then Inl FRAME_TOO_LARGE
        else if len = 0 then Inl FRAME_EMPTY
        else if length buf < 4 + len then Inr ([], buf)
        else bindE (deframe (drop (4 + len) buf)) (\<lambda>(out, rest). Inr (take len (drop 4 buf) # out, rest)))"
  by pat_completeness auto
termination
  by (relation "measure length") auto

declare deframe.simps [simp del]

definition buffered :: "Deframer \<Rightarrow> bytes" where "buffered d = concat (chunks d)"

definition deframer_ok :: "Deframer \<Rightarrow> bool" where
  "deframer_ok d \<longleftrightarrow> held d = length (buffered d) \<and> [] \<notin> set (chunks d)"

lemma fill_header_take: "room \<le> length (concat cs) \<Longrightarrow> fill_header room cs = take room (concat cs)"
  by (induction room cs rule: fill_header.induct) auto

lemma take_loop_spec:
  assumes "n \<le> length (concat cs)" and "[] \<notin> set cs"
  shows "\<exists>left visits. take_loop n cs = Some (take n (concat cs), left, visits) \<and> concat left = drop n (concat cs) \<and>
    [] \<notin> set left \<and> visits + length left \<le> length cs + 1"
  using assms
proof (induction n cs rule: take_loop.induct)
  case (3 n chunk rest)
  show ?case
  proof (cases "length chunk \<le> Suc n")
    case True
    then have "\<exists>left visits. take_loop (Suc n - length chunk) rest =
        Some (take (Suc n - length chunk) (concat rest), left, visits) \<and>
        concat left = drop (Suc n - length chunk) (concat rest) \<and> [] \<notin> set left \<and> visits + length left \<le> length rest + 1"
      using 3 by (auto simp: min_absorb1)
    then show ?thesis using True by (auto simp: min_absorb1)
  next
    case False
    then show ?thesis using 3(3) by (simp add: min_absorb2)
  qed
qed auto

lemma take_frame_spec:
  assumes "deframer_ok d" and "4 + len \<le> held d"
  shows "\<exists>d'. take_frame 4 len d = Some (take len (drop 4 (buffered d)), d') \<and> deframer_ok d' \<and>
    buffered d' = drop (4 + len) (buffered d) \<and> copied d' = copied d + 4 + len \<and>
    work d' + length (chunks d') \<le> work d + length (chunks d) + 1"
proof -
  obtain left visits where "take_loop (4 + len) (chunks d) = Some (take (4 + len) (buffered d), left, visits)"
    "concat left = drop (4 + len) (buffered d)" "[] \<notin> set left" "visits + length left \<le> length (chunks d) + 1"
    using take_loop_spec [of "4 + len" "chunks d"] assms by (auto simp: deframer_ok_def buffered_def)
  then show ?thesis
    using assms by (simp add: take_frame_def deframer_ok_def buffered_def drop_take)
qed

lemma push_loop_spec:
  assumes "deframer_ok d"
  shows "case deframe (buffered d) of
      Inl e \<Rightarrow> \<exists>d'. push_loop d = Inl (Some e, d')
    | Inr (out, rest) \<Rightarrow> \<exists>d'. push_loop d = Inr (out, d') \<and> deframer_ok d' \<and> buffered d' = rest \<and>
        copied d' + length rest = copied d + length (buffered d) \<and>
        work d' + length (chunks d') \<le> work d + length (chunks d) + length out \<and> length rest \<le> 65539"
  using assms
proof (induction d rule: push_loop.induct)
  case (1 d)
  let ?len = "be_value (take 4 (buffered d))"
  have held: "held d = length (buffered d)" using 1(2) by (simp add: deframer_ok_def)
  have len: "readLength_frame d = ?len" if "4 \<le> held d"
    using that fill_header_take [of 4 "chunks d"] held by (simp add: readLength_frame_def buffered_def)
  show ?case
  proof (cases "4 \<le> held d \<and> 0 < ?len \<and> ?len \<le> 65536 \<and> 4 + ?len \<le> held d")
    case False
    then show ?thesis
      using 1(2) held len
      by (auto simp: push_loop.simps [of d] deframe.simps [of "buffered d"] Let_def)
  next
    case True
    obtain d' where d': "take_frame 4 ?len d = Some (take ?len (drop 4 (buffered d)), d')" "deframer_ok d'"
      "buffered d' = drop (4 + ?len) (buffered d)" "copied d' = copied d + 4 + ?len"
      "work d' + length (chunks d') \<le> work d + length (chunks d) + 1"
      using take_frame_spec [OF 1(2), of ?len] True by auto
    have l: "readLength_frame d = ?len" using len True by simp
    have IH: "case deframe (buffered d') of
        Inl e \<Rightarrow> \<exists>d''. push_loop d' = Inl (Some e, d'')
      | Inr (out, rest) \<Rightarrow> \<exists>d''. push_loop d' = Inr (out, d'') \<and> deframer_ok d'' \<and> buffered d'' = rest \<and>
        copied d'' + length rest = copied d' + length (buffered d') \<and>
        work d'' + length (chunks d'') \<le> work d' + length (chunks d') + length out \<and> length rest \<le> 65539"
      by (rule 1(1)) (use True l d' in simp_all)
    have p: "push_loop d = (case push_loop d' of Inl e \<Rightarrow> Inl e
        | Inr (out, d'') \<Rightarrow> Inr (take ?len (drop 4 (buffered d)) # out, d''))"
      using True l d'(1) held by (simp add: push_loop.simps [of d] Let_def)
    have f: "deframe (buffered d) = bindE (deframe (buffered d'))
        (\<lambda>(out, rest). Inr (take ?len (drop 4 (buffered d)) # out, rest))"
      using True held d'(3) by (simp add: deframe.simps [of "buffered d"] Let_def)
    show ?thesis
      using IH d'(3-5) True held by (force simp: p f split: sum.splits prod.splits)
  qed
qed

text \<open>A stream is fed chunk by chunk; the first exception ends it.\<close>

fun pushes :: "bytes list \<Rightarrow> Deframer \<Rightarrow> framing_rejection option + bytes list \<times> Deframer" where
  "pushes [] d = Inr ([], d)"
| "pushes (chunk # cs) d =
     (case push chunk d of
        Inl (e, _) \<Rightarrow> Inl e
      | Inr (out, d') \<Rightarrow> bindE (pushes cs d') (\<lambda>(out', d''). Inr (out @ out', d'')))"

lemma push_spec:
  assumes "deframer_ok d"
  shows "case deframe (buffered d @ chunk) of
      Inl e \<Rightarrow> \<exists>d'. push chunk d = Inl (Some e, d')
    | Inr (out, rest) \<Rightarrow> \<exists>d'. push chunk d = Inr (out, d') \<and> deframer_ok d' \<and> buffered d' = rest \<and>
        copied d' + length rest = copied d + length (buffered d) + 2 * length chunk \<and>
        work d' + length (chunks d') \<le> work d + length (chunks d) + 2 + length out \<and> length rest \<le> 65539"
proof -
  let ?d = "if length chunk > 0 then
      d\<lparr>chunks := chunks d @ [chunk], held := held d + length chunk,
        copied := copied d + length chunk, work := work d + 1\<rparr> else d"
  have ok: "deframer_ok ?d" "buffered ?d = buffered d @ chunk" "copied ?d = copied d + length chunk"
    "work ?d + length (chunks ?d) \<le> work d + length (chunks d) + 2"
    using assms by (auto simp: deframer_ok_def buffered_def)
  show ?thesis
    using push_loop_spec [OF ok(1)] ok(2-4) unfolding push_def
    by (fastforce split: sum.splits prod.splits)
qed

lemma deframe_append:
  "deframe (a @ b) =
     (case deframe a of
        Inl e \<Rightarrow> Inl e
      | Inr (out, rest) \<Rightarrow> bindE (deframe (rest @ b)) (\<lambda>(out', rest'). Inr (out @ out', rest')))"
proof (induction a rule: deframe.induct)
  case (1 a)
  let ?len = "be_value (take 4 a)"
  have id: "bindE (deframe (a @ b)) (\<lambda>(out', rest'). Inr ([] @ out', rest')) = deframe (a @ b)"
    by (auto split: sum.split)
  show ?case
  proof (cases "4 \<le> length a \<and> 0 < ?len \<and> ?len \<le> 65536 \<and> 4 + ?len \<le> length a")
    case False
    have "deframe a = Inr ([], a) \<or> (\<exists>e. deframe a = Inl e \<and> deframe (a @ b) = Inl e)"
      using False by (auto simp: deframe.simps [of a] deframe.simps [of "a @ b"] Let_def)
    then show ?thesis using id by auto
  next
    case True
    have "deframe (a @ b) = bindE (deframe (drop (4 + ?len) a @ b)) (\<lambda>(out, rest). Inr (take ?len (drop 4 a) # out, rest))"
      using True by (subst deframe.simps) (simp add: Let_def cong: sum.case_cong prod.case_cong)
    moreover have "deframe a = bindE (deframe (drop (4 + ?len) a)) (\<lambda>(out, rest). Inr (take ?len (drop 4 a) # out, rest))"
      using True by (simp add: deframe.simps [of a] Let_def)
    ultimately show ?thesis
      using 1 True by (auto split: sum.splits prod.splits)
  qed
qed

lemma pushes_spec:
  assumes "deframer_ok d" and "length (buffered d) \<le> 65539" and "deframe (buffered d) = Inr ([], buffered d)"
  shows "case deframe (buffered d @ concat cs) of
      Inl e \<Rightarrow> pushes cs d = Inl (Some e)
    | Inr (out, rest) \<Rightarrow> \<exists>d'. pushes cs d = Inr (out, d') \<and> deframer_ok d' \<and> buffered d' = rest \<and>
        copied d' + length rest = copied d + length (buffered d) + 2 * length (concat cs) \<and>
        work d' + length (chunks d') \<le> work d + length (chunks d) + 2 * length cs + length out \<and> length rest \<le> 65539"
  using assms
proof (induction cs arbitrary: d)
  case Nil
  then show ?case by simp
next
  case (Cons c cs)
  note step = push_spec [OF Cons.prems(1), of c]
  have len: "length (concat (c # cs)) = length c + length (concat cs)" by simp
  have split: "deframe (buffered d @ concat (c # cs)) =
      (case deframe (buffered d @ c) of
        Inl e \<Rightarrow> Inl e
      | Inr (out, rest) \<Rightarrow> bindE (deframe (rest @ concat cs)) (\<lambda>(out', rest'). Inr (out @ out', rest')))"
    using deframe_append [of "buffered d @ c" "concat cs"] by (simp only: concat.simps append_assoc)
  show ?case
  proof (cases "deframe (buffered d @ c)")
    case (Inl e)
    then show ?thesis using step by (auto simp: split simp del: concat.simps)
  next
    case (Inr r)
    obtain out rest where r: "r = (out, rest)" by force
    obtain d' where d': "push c d = Inr (out, d')" "deframer_ok d'" "buffered d' = rest"
      "copied d' + length rest = copied d + length (buffered d) + 2 * length c"
      "work d' + length (chunks d') \<le> work d + length (chunks d) + 2 + length out" "length rest \<le> 65539"
      using step Inr r by auto
    have again: "deframe rest = Inr ([], rest)"
      using deframe_append [of "buffered d @ c" "[]"] Inr r by (auto split: sum.splits)
    show ?thesis
      using Cons.IH [OF d'(2)] d' again Inr r by (auto simp: split len simp del: concat.simps(2) split: sum.splits prod.splits)
  qed
qed

lemma new_deframer_ok: "deframer_ok new_deframer" "buffered new_deframer = []" "deframe [] = Inr ([], [])"
  by (simp_all add: deframer_ok_def buffered_def new_deframer_def deframe.simps)

lemma be_value_prefix: "length p \<le> 65536 \<Longrightarrow> be_value (be_bytes 4 (length p)) = length p"
  by (simp add: be_value_be_bytes)

lemma deframe_frame:
  assumes "p \<noteq> []" and "length p \<le> 65536"
  shows "deframe (be_bytes 4 (length p) @ p @ r) = bindE (deframe r) (\<lambda>(out, rest). Inr (p # out, rest))"
  using assms be_value_prefix [OF assms(2)]
  by (subst deframe.simps) (simp add: Let_def cong: sum.case_cong prod.case_cong)

lemma deframe_frames:
  assumes "\<forall>p\<in>set ps. p \<noteq> [] \<and> length p \<le> 65536"
  shows "deframe (concat (map (\<lambda>p. be_bytes 4 (length p) @ p) ps) @ r) =
    bindE (deframe r) (\<lambda>(out, rest). Inr (ps @ out, rest))"
  using assms
proof (induction ps)
  case Nil
  then show ?case by (auto split: sum.split)
next
  case (Cons p ps)
  then show ?case by (auto simp: deframe_frame split: sum.split)
qed

text \<open>
  A sequence of messages within the limit, none of them empty, framed and sent one after the other,
  is delivered exactly, whatever chunks the network makes of it, and the deframer is left empty.
\<close>

lemma frames_delivered:
  assumes "mapE frame_message ps = Inr fs" and "[] \<notin> set ps" and "concat cs = concat fs"
  shows "\<exists>d. pushes cs new_deframer = Inr (ps, d) \<and> pending d = 0"
proof -
  have fs: "fs = map (\<lambda>p. be_bytes 4 (length p) @ p) ps \<and> (\<forall>p\<in>set ps. length p \<le> 65536)"
    using assms(1) by (induction ps arbitrary: fs) (auto simp: frame_message_def errs split: if_splits)
  have "deframe (concat cs) = Inr (ps, [])"
    using deframe_frames [of ps "[]"] fs assms(2,3) new_deframer_ok(3) by fastforce
  then show ?thesis
    using pushes_spec [OF new_deframer_ok(1), of cs] by (auto simp: new_deframer_ok pending_def deframer_ok_def)
qed

subsection \<open>Properties\<close>

text \<open>
  C21. The deframer does what one buffer would do. However a stream is cut into chunks, the chunk-wise
  deframer delivers the messages of the whole stream in order and keeps the bytes that are left, or
  throws the error the whole stream has; it never reads past its chunks. It never holds more than a
  frame and its prefix, it has copied every byte received at most twice, and its work is at most two
  steps for each chunk and one for each message.
\<close>

theorem deframer_refines:
  "case deframe (concat cs) of
     Inl e \<Rightarrow> pushes cs new_deframer = Inl (Some e)
   | Inr (out, rest) \<Rightarrow> \<exists>d. pushes cs new_deframer = Inr (out, d) \<and> buffered d = rest \<and> pending d = length rest \<and>
       pending d < frameBytes SWARM_LIMITS + prefixBytes SWARM_LIMITS \<and>
       copiedBytes d + pending d = 2 * length (concat cs) \<and> workUnits d \<le> 2 * length cs + length out"
  using pushes_spec [OF new_deframer_ok(1), of cs]
  by (auto simp: new_deframer_ok new_deframer_def pending_def copiedBytes_def workUnits_def deframer_ok_def
      buffered_def split: sum.splits prod.splits)

text \<open>
  Messages are lost with an exception. A message that is complete is delivered when its chunk ends
  with it, and dropped when the header of a frame over the limit follows in the same chunk; and
  \<open>frame\<close> makes an empty frame, which the deframer throws at.
\<close>

lemma payload_dropped:
  assumes "p \<noteq> []" and "length p \<le> 65536"
  shows "pushes [be_bytes 4 (length p) @ p @ [255, 255, 255, 255]] new_deframer = Inl (Some FRAME_TOO_LARGE)"
    and "\<exists>d. push (be_bytes 4 (length p) @ p) new_deframer = Inr ([p], d)"
    and "frame_message [] = Inr [0, 0, 0, 0]" and "pushes [[0, 0, 0, 0]] new_deframer = Inl (Some FRAME_EMPTY)"
proof -
  have bad: "deframe [255, 255, 255, 255] = Inl FRAME_TOO_LARGE" "deframe [0, 0, 0, 0] = Inl FRAME_EMPTY"
    by (simp_all add: deframe.simps exec)
  show "pushes [be_bytes 4 (length p) @ p @ [255, 255, 255, 255]] new_deframer = Inl (Some FRAME_TOO_LARGE)"
    using pushes_spec [OF new_deframer_ok(1), of "[be_bytes 4 (length p) @ p @ [255, 255, 255, 255]]"] new_deframer_ok deframe_frame [OF assms] bad by simp
  show "\<exists>d. push (be_bytes 4 (length p) @ p) new_deframer = Inr ([p], d)"
    using push_spec [OF new_deframer_ok(1), of "be_bytes 4 (length p) @ p"] deframe_frame [OF assms, of "[]"]
      new_deframer_ok by auto
  show "frame_message [] = Inr [0, 0, 0, 0]" by (simp add: frame_message_def exec)
  show "pushes [[0, 0, 0, 0]] new_deframer = Inl (Some FRAME_EMPTY)"
    using pushes_spec [OF new_deframer_ok(1), of "[[0, 0, 0, 0]]"] new_deframer_ok bad by simp
qed

end
