(* ===== verification/Swarm.thy ===== *)
theory Swarm
  imports Session Framing
begin

section \<open>A peer connection, driven\<close>

text \<open>
  registry/src/swarm.ts, \<open>drivePeer\<close> and the counting of connections in \<open>joinSwarm\<close>: bytes of a
  stream go through the deframer, the decoder and the session, and what the session answers, asks,
  offers and states goes out framed. The stream belongs to the network; of it the model keeps what
  was written, whether it was destroyed and whether its close arrived, and relies on it giving no
  data once it is destroyed. The clock stands still while one event is handled.

  The session, the ledger of evidence and the log belong to one process and share their state: the
  world \<open>'k\<close> of the model is the store with the ledger in it, the sink and the reader act on it.
\<close>

record 'k Reader =
  rd_entries :: "'k \<Rightarrow> LedgerEntry list"
  rd_record :: "'k \<Rightarrow> bytes \<Rightarrow> bytes \<Rightarrow> 'k \<times> record_outcome option"

text \<open>The ledger a store watches, as \<open>EquivocationReader\<close>; a throw of \<open>record\<close> is \<open>None\<close>.\<close>

definition storeReader :: "crypto \<Rightarrow> Ledger Store Reader" where
  "storeReader C =
     \<lparr>rd_entries = (\<lambda>s. case st_equivocation s of None \<Rightarrow> [] | Some (_, L) \<Rightarrow> lg_held L),
      rd_record = (\<lambda>s a b.
        case st_equivocation s of
          None \<Rightarrow> (s, None)
        | Some (r, L) \<Rightarrow>
            (case ledger_record C L a b Received True of
               Inl _ \<Rightarrow> (s, None)
             | Inr (M, outcome) \<Rightarrow> (s\<lparr>st_equivocation := Some (r, M)\<rparr>, Some outcome)))\<rparr>"

record PeerOutcome =
  po_applied :: nat
  po_rejected :: nat
  po_deferred :: nat
  po_duplicates :: nat
  po_equivocations :: nat
  po_recorded :: nat
  po_forwarded :: nat
  po_withheld :: nat
  po_checkpoints :: nat
  po_forks :: nat

record 'k DriverOptions =
  do_ledger :: "'k Reader option"
  do_checkpoints :: "('k \<Rightarrow> int \<Rightarrow> checkpoint_error + Checkpoint option) option"

record 'k Driver =
  dr_session :: "'k ReplicationSession"
  dr_deframer :: Deframer
  dr_outcome :: PeerOutcome
  dr_forks :: "CheckpointLedger option"
  dr_offered :: bool
  dr_stated :: bool
  dr_written :: "bytes list"
  dr_destroyed :: bool
  dr_closed :: bool

definition no_outcome :: PeerOutcome where
  "no_outcome =
     \<lparr>po_applied = 0, po_rejected = 0, po_deferred = 0, po_duplicates = 0, po_equivocations = 0,
      po_recorded = 0, po_forwarded = 0, po_withheld = 0, po_checkpoints = 0, po_forks = 0\<rparr>"

definition count :: "(PeerOutcome \<Rightarrow> PeerOutcome) \<Rightarrow> 'k Driver \<Rightarrow> 'k Driver" where
  "count f d = d\<lparr>dr_outcome := f (dr_outcome d)\<rparr>"

definition destroy :: "'k Driver \<Rightarrow> 'k Driver" where
  "destroy d = d\<lparr>dr_destroyed := True\<rparr>"

subsection \<open>Sending\<close>

definition send :: "message \<Rightarrow> 'k Driver \<Rightarrow> 'k Driver" where
  "send m d =
     (case encodeMessage m of
        Inl _ \<Rightarrow> destroy d
      | Inr bs \<Rightarrow>
          (case frame_message bs of
             Inl _ \<Rightarrow> destroy d
           | Inr f \<Rightarrow> d\<lparr>dr_written := dr_written d @ [f]\<rparr>))"

text \<open>
  The loop of \<open>pump\<close> takes fuel. Every request but the last is one more in flight, so nine rounds
  are enough; \<open>pump_done\<close> shows that the session has nothing more to ask afterwards.
\<close>

primrec pump_loop :: "nat \<Rightarrow> int \<Rightarrow> 'k Driver \<Rightarrow> 'k Driver" where
  "pump_loop 0 now d = d"
| "pump_loop (Suc n) now d =
     (case nextWant (dr_session d) now of
        (s, None) \<Rightarrow> d\<lparr>dr_session := s\<rparr>
      | (s, Some w) \<Rightarrow> pump_loop n now (send w (d\<lparr>dr_session := s\<rparr>)))"

definition pump :: "int \<Rightarrow> 'k Driver \<Rightarrow> 'k Driver" where
  "pump now d =
     (if \<not> sn_helloReceived (dr_session d) then d else pump_loop (outstandingWants LIMITS + 1) now d)"

definition offerEvidence :: "'k DriverOptions \<Rightarrow> 'k Driver \<Rightarrow> 'k Driver" where
  "offerEvidence options d =
     (case do_ledger options of
        None \<Rightarrow> d
      | Some ledger \<Rightarrow>
          if dr_offered d \<or> \<not> sn_helloReceived (dr_session d) then d
          else
            let held = rd_entries ledger (sn_sink (dr_session d));
                budget = min (length held) (perConnection EQUIVOCATION_LIMITS);
                d = fold (\<lambda>e. send (EQUIVOCATION (l_a e) (l_b e))) (take budget held) (d\<lparr>dr_offered := True\<rparr>)
            in count (\<lambda>oc. oc\<lparr>po_forwarded := po_forwarded oc + budget,
                 po_withheld := po_withheld oc + (length held - budget)\<rparr>) d)"

text \<open>\<open>stateCheckpoint\<close>, and whether it returned.\<close>

definition stateCheckpoint :: "'k DriverOptions \<Rightarrow> int \<Rightarrow> 'k Driver \<Rightarrow> 'k Driver \<times> bool" where
  "stateCheckpoint options now d =
     (case do_checkpoints options of
        None \<Rightarrow> (d, True)
      | Some checkpoints \<Rightarrow>
          if dr_stated d \<or> \<not> sn_helloReceived (dr_session d) then (d, True)
          else
            let d = d\<lparr>dr_stated := True\<rparr> in
            (case checkpoints (sn_sink (dr_session d)) now of
               Inl _ \<Rightarrow> (d, False)
             | Inr None \<Rightarrow> (d, True)
             | Inr (Some mine) \<Rightarrow>
                 (send (CHECKPOINT (cp_logLength mine) (cp_treeRoot mine) (cp_indexRoot mine)
                    (cp_liveNames mine)) d, True)))"

subsection \<open>Recording what the session made of a message\<close>

definition set_world :: "'k \<Rightarrow> 'k Driver \<Rightarrow> 'k Driver" where
  "set_world k d = d\<lparr>dr_session := (dr_session d)\<lparr>sn_sink := k\<rparr>\<rparr>"

fun keep_evidence :: "'k DriverOptions \<Rightarrow> message list \<Rightarrow> 'k Driver \<Rightarrow> 'k Driver \<times> bool" where
  "keep_evidence options [] d = (d, True)"
| "keep_evidence options (m # ms) d =
     (case (m, do_ledger options) of
        (EQUIVOCATION a b, Some ledger) \<Rightarrow>
          (case rd_record ledger (sn_sink (dr_session d)) a b of
             (k, None) \<Rightarrow> (set_world k d, False)
           | (k, Some outcome) \<Rightarrow>
               keep_evidence options ms
                 (count (\<lambda>oc. if outcome = Recorded then oc\<lparr>po_recorded := po_recorded oc + 1\<rparr> else oc) (set_world k d)))
      | _ \<Rightarrow> keep_evidence options ms d)"

definition note_checkpoint :: "message \<Rightarrow> 'k Driver \<Rightarrow> 'k Driver" where
  "note_checkpoint m d =
     (case (m, dr_forks d) of
        (CHECKPOINT len tree index liveNames, Some forks) \<Rightarrow>
          (case observe forks \<lparr>cp_logLength = len, cp_treeRoot = tree, cp_indexRoot = index,
               cp_liveNames = liveNames\<rparr> of
             (forks', v) \<Rightarrow>
               count (\<lambda>oc. if v = FORK then oc\<lparr>po_forks := po_forks oc + 1\<rparr> else oc) (d\<lparr>dr_forks := Some forks'\<rparr>))
      | _ \<Rightarrow> d)"

definition record_result :: "'k DriverOptions \<Rightarrow> int \<Rightarrow> ReceiveOutcome \<Rightarrow> 'k Driver \<Rightarrow> 'k Driver \<times> bool" where
  "record_result options now result d =
     (let d = count (\<lambda>oc. oc\<lparr>po_applied := po_applied oc + oc_applied result,
            po_rejected := po_rejected oc + oc_rejected result,
            po_deferred := po_deferred oc + oc_deferred result,
            po_duplicates := po_duplicates oc + oc_duplicates result,
            po_equivocations := po_equivocations oc + length (oc_equivocations result)\<rparr>) d
      in case keep_evidence options (oc_equivocations result) d of
           (d, False) \<Rightarrow> (d, False)
         | (d, True) \<Rightarrow>
             (let d = count (\<lambda>oc. oc\<lparr>po_checkpoints := po_checkpoints oc + length (oc_checkpoints result)\<rparr>) d;
                  d = fold note_checkpoint (oc_checkpoints result) d;
                  d = fold send (oc_replies result) d;
                  d = offerEvidence options d
              in case stateCheckpoint options now d of
                   (d, False) \<Rightarrow> (d, False)
                 | (d, True) \<Rightarrow> (pump now d, True)))"

subsection \<open>Events\<close>

text \<open>One payload, and whether the loop goes on to the next.\<close>

definition on_payload :: "crypto \<Rightarrow> 'k ReplicationSink \<Rightarrow> 'k DriverOptions \<Rightarrow> int \<Rightarrow> bytes \<Rightarrow> 'k Driver \<Rightarrow> 'k Driver \<times> bool" where
  "on_payload C S options now payload d =
     (case decodeMessage payload of
        Inl (REPLICATION _) \<Rightarrow> (count (\<lambda>oc. oc\<lparr>po_rejected := po_rejected oc + 1\<rparr>) d, True)
      | Inl (ENCODING _) \<Rightarrow> (destroy d, False)
      | Inr m \<Rightarrow>
          (case receive C S (dr_session d) m now of
             Inl _ \<Rightarrow> (destroy d, False)
           | Inr (s, result) \<Rightarrow>
               (case record_result options now result (d\<lparr>dr_session := s\<rparr>) of
                  (d, True) \<Rightarrow> (d, True)
                | (d, False) \<Rightarrow> (destroy d, False))))"

fun on_payloads :: "crypto \<Rightarrow> 'k ReplicationSink \<Rightarrow> 'k DriverOptions \<Rightarrow> int \<Rightarrow> bytes list \<Rightarrow> 'k Driver \<Rightarrow> 'k Driver" where
  "on_payloads C S options now [] d = d"
| "on_payloads C S options now (p # ps) d =
     (case on_payload C S options now p d of
        (d, True) \<Rightarrow> on_payloads C S options now ps d
      | (d, False) \<Rightarrow> d)"

definition on_data :: "crypto \<Rightarrow> 'k ReplicationSink \<Rightarrow> 'k DriverOptions \<Rightarrow> int \<Rightarrow> bytes \<Rightarrow> 'k Driver \<Rightarrow> 'k Driver" where
  "on_data C S options now chunk d =
     (case push chunk (dr_deframer d) of
        Inl (_, df) \<Rightarrow> destroy (d\<lparr>dr_deframer := df\<rparr>)
      | Inr (payloads, df) \<Rightarrow> on_payloads C S options now payloads (d\<lparr>dr_deframer := df\<rparr>))"

text \<open>The timer's callback; \<open>close\<close> clears the timer.\<close>

definition on_tick :: "crypto \<Rightarrow> 'k ReplicationSink \<Rightarrow> int \<Rightarrow> 'k Driver \<Rightarrow> 'k Driver" where
  "on_tick C S now d =
     (case retryDeferred C S (dr_session d) now of
        (s, applied) \<Rightarrow>
          pump now (count (\<lambda>oc. oc\<lparr>po_applied := po_applied oc + applied\<rparr>) (d\<lparr>dr_session := s\<rparr>)))"

definition drivePeer :: "'k ReplicationSink \<Rightarrow> CheckpointLedger option \<Rightarrow> 'k \<Rightarrow> 'k Driver option" where
  "drivePeer S forks k =
     (case session_open S (new_session k) of
        (s, Inl _) \<Rightarrow> None
      | (s, Inr hello) \<Rightarrow>
          Some (send hello
            \<lparr>dr_session = s, dr_deframer = new_deframer, dr_outcome = no_outcome, dr_forks = forks,
             dr_offered = False, dr_stated = False, dr_written = [], dr_destroyed = False, dr_closed = False\<rparr>))"

text \<open>
  A connection: data comes until the stream is destroyed or closed, the timer fires until the close
  arrives, and the world and the record of checkpoints change under it by other connections.
\<close>

inductive connection :: "crypto \<Rightarrow> 'k ReplicationSink \<Rightarrow> ('k \<Rightarrow> bool) \<Rightarrow> 'k DriverOptions \<Rightarrow> 'k Driver \<Rightarrow> bool"
  for C S ok options where
  opened: "ok k \<Longrightarrow> drivePeer S forks k = Some d \<Longrightarrow> connection C S ok options d"
| data: "connection C S ok options d \<Longrightarrow> \<not> dr_destroyed d \<Longrightarrow> \<not> dr_closed d \<Longrightarrow>
    connection C S ok options (on_data C S options now chunk d)"
| tick: "connection C S ok options d \<Longrightarrow> \<not> dr_closed d \<Longrightarrow> connection C S ok options (on_tick C S now d)"
| failed: "connection C S ok options d \<Longrightarrow> connection C S ok options (destroy d)"
| closes: "connection C S ok options d \<Longrightarrow> connection C S ok options (d\<lparr>dr_closed := True\<rparr>)"
| others: "connection C S ok options d \<Longrightarrow> ok k \<Longrightarrow>
    connection C S ok options (set_world k (d\<lparr>dr_forks := forks\<rparr>))"

definition openConnection :: "nat \<Rightarrow> nat \<times> bool" where
  "openConnection peers = (if peers \<ge> connections SWARM_LIMITS then (peers, False) else (peers + 1, True))"

subsection \<open>The pump's fuel\<close>

lemma dropWhile_hd: "dropWhile P xs = [] \<or> \<not> P (hd (dropWhile P xs))"
  by (induction xs) auto

lemma nextWant_more:
  assumes "nextWant s now = (t, Some w)"
  shows "\<exists>kept. length kept < 8 \<and> sn_outstanding t = kept @ [now] \<and> sn_helloReceived t \<and>
    (kept = [] \<or> now - hd kept < 60)"
  using assms dropWhile_hd [of "\<lambda>issued. now - issued \<ge> 60" "sn_outstanding s"]
  by (auto simp: nextWant_def expireWants_def Let_def split: if_splits)

lemma dropWhile_kept: "xs = [] \<or> \<not> P (hd xs) \<Longrightarrow> dropWhile P xs = xs"
  by (cases xs) auto

lemma send_session [simp]:
  "dr_session (send m d) = dr_session d" "dr_deframer (send m d) = dr_deframer d"
  "dr_outcome (send m d) = dr_outcome d" "dr_offered (send m d) = dr_offered d" "dr_stated (send m d) = dr_stated d"
  by (auto simp: send_def destroy_def split: sum.split)

lemma pump_loop_done:
  assumes "length (sn_outstanding (dr_session d)) \<le> 8"
    and "sn_outstanding (dr_session d) = [] \<or> now - hd (sn_outstanding (dr_session d)) < 60"
    and "8 - length (sn_outstanding (dr_session d)) < n"
  shows "snd (nextWant (dr_session (pump_loop n now d)) now) = None"
  using assms
proof (induction n arbitrary: d)
  case (Suc n)
  let ?s = "dr_session d"
  obtain t w where t: "nextWant ?s now = (t, w)" by (cases "nextWant ?s now")
  have same: "dropWhile (\<lambda>issued. now - issued \<ge> 60) (sn_outstanding ?s) = sn_outstanding ?s"
    by (rule dropWhile_kept) (use Suc.prems(2) in auto)
  show ?case
  proof (cases w)
    case None
    then have "snd (nextWant t now) = None"
      using t same by (auto simp: nextWant_def expireWants_def Let_def split: if_splits)
    then show ?thesis using t None by simp
  next
    case (Some m)
    then have o: "sn_outstanding t = sn_outstanding ?s @ [now]" "length (sn_outstanding ?s) < 8"
      using t same by (auto simp: nextWant_def expireWants_def Let_def split: if_splits)
    have "snd (nextWant (dr_session (pump_loop n now (send m (d\<lparr>dr_session := t\<rparr>)))) now) = None"
      using Suc.prems o by (intro Suc.IH) (auto simp: hd_append)
    then show ?thesis using t Some by simp
  qed
qed simp

text \<open>After \<open>pump\<close> the session has nothing to ask: its loop has ended, not its fuel.\<close>

lemma pump_done:
  assumes "session_inv C (dr_session d)"
  shows "snd (nextWant (dr_session (pump now d)) now) = None"
proof (cases "sn_helloReceived (dr_session d)")
  case False
  then show ?thesis by (simp add: pump_def nextWant_def)
next
  case True
  obtain t w where t: "nextWant (dr_session d) now = (t, w)" by (cases "nextWant (dr_session d) now")
  show ?thesis
  proof (cases w)
    case None
    have kept: "dropWhile (\<lambda>issued. now - issued \<ge> 60) (dropWhile (\<lambda>issued. now - issued \<ge> 60) xs) =
        dropWhile (\<lambda>issued. now - issued \<ge> 60) xs" for xs :: "int list"
      by (induction xs) auto
    have "snd (nextWant t now) = None"
      using t None kept by (auto simp: nextWant_def expireWants_def Let_def split: if_splits)
    then show ?thesis using True t None by (simp add: pump_def eval_nat_numeral)
  next
    case (Some m)
    from nextWant_more [OF t [unfolded Some]] obtain kept where k: "length kept < 8" "sn_outstanding t = kept @ [now]"
      "kept = [] \<or> now - hd kept < 60" by blast
    have "snd (nextWant (dr_session (pump_loop 8 now (send m (d\<lparr>dr_session := t\<rparr>)))) now) = None"
      using k by (intro pump_loop_done) (auto simp: hd_append)
    moreover have "pump now d = pump_loop 8 now (send m (d\<lparr>dr_session := t\<rparr>))"
      using True t Some pump_loop.simps(2) [of 8 now d] by (simp add: pump_def)
    ultimately show ?thesis by simp
  qed
qed

subsection \<open>What is written\<close>

definition sent_as :: "message \<Rightarrow> bytes \<Rightarrow> bool" where
  "sent_as m f \<longleftrightarrow> valid_message m \<and> (\<exists>bs. encodeMessage m = Inr bs \<and> frame_message bs = Inr f)"

definition outgoing :: "'k Driver \<Rightarrow> bool" where
  "outgoing d \<longleftrightarrow>
     (\<exists>ms. list_all2 sent_as ms (dr_written d) \<and>
        length (filter is_EQUIVOCATION ms) \<le> (if dr_offered d then 32 else 0) \<and>
        length (filter is_CHECKPOINT ms) \<le> (if dr_stated d then 1 else 0)) \<and>
     po_forwarded (dr_outcome d) \<le> (if dr_offered d then 32 else 0)"

lemma outgoing_send:
  assumes "outgoing d" and "valid_message m" and "\<not> is_EQUIVOCATION m" and "\<not> is_CHECKPOINT m"
  shows "outgoing (send m d)"
proof -
  have "outgoing (d\<lparr>dr_written := dr_written d @ [f]\<rparr>)" if f: "encodeMessage m = Inr bs" "frame_message bs = Inr f" for bs f
  proof -
    obtain ms where ms: "list_all2 sent_as ms (dr_written d)"
        "length (filter is_EQUIVOCATION ms) \<le> (if dr_offered d then 32 else 0)"
        "length (filter is_CHECKPOINT ms) \<le> (if dr_stated d then 1 else 0)"
        "po_forwarded (dr_outcome d) \<le> (if dr_offered d then 32 else 0)"
      using assms(1) unfolding outgoing_def by blast
    have "list_all2 sent_as (ms @ [m]) (dr_written d @ [f])"
      using ms(1) f assms(2) by (intro list_all2_appendI) (auto simp: sent_as_def)
    then show ?thesis
      unfolding outgoing_def using ms(2-4) assms(3,4) by (intro conjI exI [of _ "ms @ [m]"]) simp_all
  qed
  moreover have "outgoing (destroy d)" using assms(1) by (simp add: outgoing_def destroy_def)
  ultimately show ?thesis by (auto simp: send_def split: sum.split)
qed

text \<open>The invariant of a connection; \<open>df\<close> is the deframer, which only the arrival of data changes.\<close>

definition driver_inv :: "crypto \<Rightarrow> 'k ReplicationSink \<Rightarrow> ('k \<Rightarrow> bool) \<Rightarrow> Deframer \<Rightarrow> 'k Driver \<Rightarrow> bool" where
  "driver_inv C S ok df d \<longleftrightarrow> conversation C S ok (dr_session d) \<and> outgoing d \<and> dr_deframer d = df"

lemma outgoing_eq:
  "outgoing (d\<lparr>dr_session := s\<rparr>) = outgoing d" "outgoing (d\<lparr>dr_forks := f\<rparr>) = outgoing d"
  "outgoing (d\<lparr>dr_deframer := df\<rparr>) = outgoing d" "outgoing (d\<lparr>dr_destroyed := b\<rparr>) = outgoing d"
  "outgoing (d\<lparr>dr_closed := b\<rparr>) = outgoing d"
  by (simp_all add: outgoing_def)

lemma outgoing_count: "(\<And>oc. po_forwarded (f oc) = po_forwarded oc) \<Longrightarrow> outgoing (count f d) = outgoing d"
  by (simp add: outgoing_def count_def)

lemma driver_inv_update:
  "driver_inv C S ok df d \<Longrightarrow> driver_inv C S ok df (d\<lparr>dr_forks := f\<rparr>)"
  "driver_inv C S ok df d \<Longrightarrow> driver_inv C S ok df (destroy d)"
  "driver_inv C S ok df d \<Longrightarrow> driver_inv C S ok df (d\<lparr>dr_closed := b\<rparr>)"
  "driver_inv C S ok df d \<Longrightarrow> driver_inv C S ok df' (d\<lparr>dr_deframer := df'\<rparr>)"
  "driver_inv C S ok df d \<Longrightarrow> ok k \<Longrightarrow> driver_inv C S ok df (set_world k d)"
  by (auto simp: driver_inv_def outgoing_eq destroy_def set_world_def intro: conversation.elsewhere)

lemma driver_inv_count:
  "driver_inv C S ok df d \<Longrightarrow> (\<And>oc. po_forwarded (f oc) = po_forwarded oc) \<Longrightarrow> driver_inv C S ok df (count f d)"
  by (simp add: driver_inv_def outgoing_count) (simp add: count_def)

lemma driver_inv_send:
  "driver_inv C S ok df d \<Longrightarrow> valid_message m \<Longrightarrow> \<not> is_EQUIVOCATION m \<Longrightarrow> \<not> is_CHECKPOINT m \<Longrightarrow>
    driver_inv C S ok df (send m d)"
  by (simp add: driver_inv_def outgoing_send)

lemma driver_inv_sends:
  "driver_inv C S ok df d \<Longrightarrow> \<forall>m\<in>set ms. valid_message m \<and> \<not> is_EQUIVOCATION m \<and> \<not> is_CHECKPOINT m \<Longrightarrow>
    driver_inv C S ok df (fold send ms d)"
  by (induction ms arbitrary: d) (simp_all add: driver_inv_send)

lemma destroyed_send: "\<not> dr_destroyed (send m d) \<Longrightarrow> \<not> dr_destroyed d"
  by (auto simp: send_def destroy_def split: sum.splits)

lemma destroyed_pump: "\<not> dr_destroyed (pump now d) \<Longrightarrow> \<not> dr_destroyed d"
proof -
  have "\<not> dr_destroyed d" if "\<not> dr_destroyed (pump_loop n now d)" for n d
    using that
  proof (induction n arbitrary: d)
    case (Suc n)
    obtain t w where t: "nextWant (dr_session d) now = (t, w)" by (cases "nextWant (dr_session d) now")
    show ?case
    proof (cases w)
      case None
      then show ?thesis using Suc.prems t by simp
    next
      case (Some m)
      then have "\<not> dr_destroyed (send m (d\<lparr>dr_session := t\<rparr>))" using Suc t by simp
      then show ?thesis using destroyed_send by fastforce
    qed
  qed simp
  then show "\<not> dr_destroyed (pump now d) \<Longrightarrow> \<not> dr_destroyed d" by (auto simp: pump_def split: if_splits)
qed

lemma on_tick_keeps: "\<not> dr_destroyed (on_tick C S now d) \<Longrightarrow> \<not> dr_destroyed d"
  by (auto simp: on_tick_def count_def split: prod.splits dest: destroyed_pump)

lemma driver_inv_pump:
  assumes "driver_inv C S ok df d"
  shows "driver_inv C S ok df (pump now d)"
proof -
  have "driver_inv C S ok df (pump_loop n now d)" if "driver_inv C S ok df d" for n d
    using that
  proof (induction n arbitrary: d)
    case (Suc n)
    obtain t w where t: "nextWant (dr_session d) now = (t, w)" by (cases "nextWant (dr_session d) now")
    have conv: "conversation C S ok (dr_session d)" using Suc.prems by (simp add: driver_inv_def)
    from conversation.ask [OF conv, of now] t have inv: "driver_inv C S ok df (d\<lparr>dr_session := t\<rparr>)"
      using Suc.prems by (simp add: driver_inv_def outgoing_eq)
    show ?case
    proof (cases w)
      case None
      then show ?thesis using t inv by simp
    next
      case (Some m)
      from nextWant_ok [OF conversation_inv [OF conv] t] Some obtain start n' where "m = WANT start n'" by blast
      then have "driver_inv C S ok df (send m (d\<lparr>dr_session := t\<rparr>))"
        using inv by (intro driver_inv_send) (simp_all add: valid_message_def)
      then show ?thesis using Suc.IH t Some by simp
    qed
  qed simp
  then show ?thesis using assms by (simp add: pump_def)
qed

text \<open>Sending evidence: each report is one more of its kind, whether or not it encodes.\<close>

lemma written_evidence:
  assumes "list_all2 sent_as ms (dr_written d)"
  shows "\<exists>new. list_all2 sent_as (ms @ new) (dr_written (fold (\<lambda>e. send (EQUIVOCATION (l_a e) (l_b e))) es d)) \<and>
    length new \<le> length es \<and> list_all is_EQUIVOCATION new"
  using assms
proof (induction es arbitrary: ms d)
  case Nil
  then show ?case by (intro exI [of _ "[]"]) simp
next
  case (Cons e es)
  let ?m = "EQUIVOCATION (l_a e) (l_b e)"
  have "list_all2 sent_as ms (dr_written (send ?m d)) \<or> list_all2 sent_as (ms @ [?m]) (dr_written (send ?m d))"
  proof (cases "\<exists>bs f. encodeMessage ?m = Inr bs \<and> frame_message bs = Inr f")
    case True
    then obtain bs f where f: "encodeMessage ?m = Inr bs" "frame_message bs = Inr f" by blast
    then have "sent_as ?m f" by (simp add: sent_as_def valid_message_def)
    then have "list_all2 sent_as (ms @ [?m]) (dr_written d @ [f])" using Cons.prems by (intro list_all2_appendI) simp_all
    then show ?thesis using f by (simp add: send_def)
  next
    case False
    then have "send ?m d = destroy d" by (auto simp: send_def split: sum.split)
    then show ?thesis using Cons.prems by (simp add: destroy_def)
  qed
  then show ?case
  proof
    assume "list_all2 sent_as ms (dr_written (send ?m d))"
    from Cons.IH [OF this] show ?thesis by (force intro: le_SucI)
  next
    assume "list_all2 sent_as (ms @ [?m]) (dr_written (send ?m d))"
    from Cons.IH [OF this] obtain new where n: "list_all2 sent_as ((ms @ [?m]) @ new)
        (dr_written (fold (\<lambda>e. send (EQUIVOCATION (l_a e) (l_b e))) es (send ?m d)))"
      "length new \<le> length es" "list_all is_EQUIVOCATION new" by blast
    then show ?thesis by (intro exI [of _ "?m # new"]) simp
  qed
qed

lemma fold_send_kept:
  "dr_session (fold (\<lambda>e. send (g e)) es d) = dr_session d" "dr_deframer (fold (\<lambda>e. send (g e)) es d) = dr_deframer d"
  "dr_outcome (fold (\<lambda>e. send (g e)) es d) = dr_outcome d" "dr_offered (fold (\<lambda>e. send (g e)) es d) = dr_offered d"
  "dr_stated (fold (\<lambda>e. send (g e)) es d) = dr_stated d"
  by (induction es arbitrary: d) simp_all

lemma equivocation_not_checkpoint: "list_all is_EQUIVOCATION new \<Longrightarrow> filter is_CHECKPOINT new = []"
  by (induction new) (auto simp: is_EQUIVOCATION_def)

lemma driver_inv_offer:
  assumes "driver_inv C S ok df d"
  shows "driver_inv C S ok df (offerEvidence options d)"
proof (cases "\<exists>ledger. do_ledger options = Some ledger \<and> \<not> dr_offered d \<and> sn_helloReceived (dr_session d)")
  case False
  then show ?thesis using assms by (auto simp: offerEvidence_def split: option.split)
next
  case True
  then obtain ledger where l: "do_ledger options = Some ledger" "\<not> dr_offered d" "sn_helloReceived (dr_session d)" by blast
  define held where "held = rd_entries ledger (sn_sink (dr_session d))"
  define es where "es = take (min (length held) 32) held"
  let ?d = "fold (\<lambda>e. send (EQUIVOCATION (l_a e) (l_b e))) es (d\<lparr>dr_offered := True\<rparr>)"
  obtain ms where ms: "list_all2 sent_as ms (dr_written d)" "filter is_EQUIVOCATION ms = []"
      "length (filter is_CHECKPOINT ms) \<le> (if dr_stated d then 1 else 0)" "po_forwarded (dr_outcome d) = 0"
    using assms l(2) by (auto simp: driver_inv_def outgoing_def)
  obtain new where new: "list_all2 sent_as (ms @ new) (dr_written ?d)" "length new \<le> length es" "list_all is_EQUIVOCATION new"
    using written_evidence [of ms "d\<lparr>dr_offered := True\<rparr>" es] ms(1) by auto
  have "length (filter is_EQUIVOCATION (ms @ new)) \<le> 32"
    using ms(2) new(2) le_trans [OF length_filter_le [of is_EQUIVOCATION new], of 32] by (simp add: es_def)
  moreover have "length (filter is_CHECKPOINT (ms @ new)) \<le> (if dr_stated d then 1 else 0)"
    using ms(3) equivocation_not_checkpoint [OF new(3)] by simp
  moreover have "offerEvidence options d = count (\<lambda>oc. oc\<lparr>po_forwarded := po_forwarded oc + min (length held) 32,
      po_withheld := po_withheld oc + (length held - min (length held) 32)\<rparr>) ?d"
    using l by (simp add: offerEvidence_def held_def es_def Let_def EQUIVOCATION_LIMITS_def)
  ultimately show ?thesis
    using assms new(1) ms(4) by (auto simp: driver_inv_def outgoing_def count_def fold_send_kept intro!: exI [of _ "ms @ new"])
qed

subsection \<open>The world of a connection\<close>

locale driver_world = replication_sink S ok held
  for S :: "'k ReplicationSink" and ok :: "'k \<Rightarrow> bool" and held :: "'k \<Rightarrow> bytes list" +
  fixes C :: crypto and options :: "'k DriverOptions"
  assumes root_length: "ok k \<Longrightarrow> sk_treeRoot S k = Some digest \<Longrightarrow> length digest = 32"
    and reader_ok: "do_ledger options = Some R \<Longrightarrow> ok k \<Longrightarrow> rd_record R k a b = (k', v) \<Longrightarrow> ok k' \<and> held k' = held k"
    and checkpoint_lengths: "do_checkpoints options = Some f \<Longrightarrow> ok k \<Longrightarrow> f k now = Inr (Some c) \<Longrightarrow>
      length (cp_treeRoot c) = 32 \<and> length (cp_indexRoot c) = 32"
begin

lemma inv_world: "driver_inv C S ok df d \<Longrightarrow> ok (sn_sink (dr_session d))"
  using conversation_ok by (auto simp: driver_inv_def)

lemma inv_evidence:
  "driver_inv C S ok df d \<Longrightarrow> driver_inv C S ok df (fst (keep_evidence options ms d))"
proof (induction ms arbitrary: d)
  case (Cons m ms)
  show ?case
  proof (cases "\<exists>a b R. m = EQUIVOCATION a b \<and> do_ledger options = Some R")
    case False
    then show ?thesis using Cons by (cases m; cases "do_ledger options") auto
  next
    case True
    then obtain a b R where m: "m = EQUIVOCATION a b" "do_ledger options = Some R" by blast
    obtain k v where k: "rd_record R (sn_sink (dr_session d)) a b = (k, v)"
      by (cases "rd_record R (sn_sink (dr_session d)) a b")
    have "ok k" using reader_ok [OF m(2) inv_world [OF Cons.prems] k] by simp
    then have w: "driver_inv C S ok df (set_world k d)" by (rule driver_inv_update(5) [OF Cons.prems])
    show ?thesis
      using w m k Cons.IH [OF driver_inv_count [OF w]] by (cases v) auto
  qed
qed simp

lemma inv_checkpoint:
  "driver_inv C S ok df d \<Longrightarrow> driver_inv C S ok df (note_checkpoint m d)"
  by (auto simp: note_checkpoint_def split: message.split option.split prod.split
      intro!: driver_inv_count driver_inv_update(1))

lemma inv_state:
  assumes "driver_inv C S ok df d"
  shows "driver_inv C S ok df (fst (stateCheckpoint options now d))"
proof (cases "\<exists>f. do_checkpoints options = Some f \<and> \<not> dr_stated d \<and> sn_helloReceived (dr_session d)")
  case False
  then show ?thesis using assms by (auto simp: stateCheckpoint_def split: option.split)
next
  case True
  then obtain f where f: "do_checkpoints options = Some f" "\<not> dr_stated d" "sn_helloReceived (dr_session d)" by blast
  let ?d = "d\<lparr>dr_stated := True\<rparr>"
  obtain ms where ms: "list_all2 sent_as ms (dr_written d)"
      "length (filter is_EQUIVOCATION ms) \<le> (if dr_offered d then 32 else 0)"
      "filter is_CHECKPOINT ms = []" "po_forwarded (dr_outcome d) \<le> (if dr_offered d then 32 else 0)"
    using assms f(2) by (auto simp: driver_inv_def outgoing_def)
  have stated: "driver_inv C S ok df ?d"
    using assms ms by (auto simp: driver_inv_def outgoing_def intro!: exI [of _ ms])
  show ?thesis
  proof (cases "\<exists>c. f (sn_sink (dr_session d)) now = Inr (Some c)")
    case False
    then show ?thesis
      using stated f by (auto simp: stateCheckpoint_def Let_def split: sum.split option.split)
  next
    case True
    then obtain c where c: "f (sn_sink (dr_session d)) now = Inr (Some c)" by blast
    let ?m = "CHECKPOINT (cp_logLength c) (cp_treeRoot c) (cp_indexRoot c) (cp_liveNames c)"
    have v: "valid_message ?m"
      using checkpoint_lengths [OF f(1) inv_world [OF assms] c] by (simp add: valid_message_def)
    have "driver_inv C S ok df (send ?m ?d)"
    proof (cases "\<exists>bs g. encodeMessage ?m = Inr bs \<and> frame_message bs = Inr g")
      case True
      then obtain bs g where g: "encodeMessage ?m = Inr bs" "frame_message bs = Inr g" by blast
      then have "list_all2 sent_as (ms @ [?m]) (dr_written d @ [g])"
        using ms(1) v by (intro list_all2_appendI) (simp_all add: sent_as_def)
      then have "outgoing (?d\<lparr>dr_written := dr_written d @ [g]\<rparr>)"
        unfolding outgoing_def using ms(2-4) by (intro conjI exI [of _ "ms @ [?m]"]) simp_all
      then show ?thesis using g assms by (simp add: send_def driver_inv_def)
    next
      case False
      then have "send ?m ?d = destroy ?d" by (auto simp: send_def split: sum.split)
      then show ?thesis using driver_inv_update(2) [OF stated] by simp
    qed
    then show ?thesis using f c by (simp add: stateCheckpoint_def Let_def)
  qed
qed

end

lemma collect_length: "length (collect S k n i recs used) \<le> length recs + n"
proof (induction n arbitrary: i recs used)
  case (Suc n)
  show ?case
  proof (cases "sk_encodingAt S k i")
    case (Some e)
    have "length (collect S k n (i + 1) (recs @ [e]) u) \<le> Suc (length recs + n)" for u
      using Suc.IH [of "i + 1" "recs @ [e]" u] by simp
    then show ?thesis using Some by (simp add: Let_def)
  qed simp
qed simp

text \<open>What a session replies with: batches of records, none above the limit.\<close>

lemma receive_replies:
  assumes "receive C S s m now = Inr (s', out)" and "x \<in> set (oc_replies out)"
  shows "valid_message x \<and> \<not> is_EQUIVOCATION x \<and> \<not> is_CHECKPOINT x"
proof -
  have "\<exists>start n. m = WANT start n \<and> onWant S s start n = (s', out)"
  proof (cases m)
    case (RECORDS start recs)
    show ?thesis
      using assms RECORDS fold_records_replies [of C S now "(s, EMPTY)" recs]
      by (auto simp: receive_def onRecords_def EMPTY_def Let_def split: if_splits prod.splits)
  qed (use assms in \<open>auto simp: receive_def onHello_def onEquivocation_def EMPTY_def split: if_splits sum.splits\<close>)
  then obtain start n where m: "onWant S s start n = (s', out)" by blast
  have "length (collect S (sn_sink s) (nat n) start [] 0) \<le> nat n"
    using collect_length [of S "sn_sink s" "nat n" start "[]" 0] by simp
  then show ?thesis
    using m assms(2) by (auto simp: onWant_def EMPTY_def Let_def valid_message_def split: if_splits)
qed

context driver_world
begin

lemma inv_record:
  assumes "driver_inv C S ok df d"
    and "\<forall>x\<in>set (oc_replies result). valid_message x \<and> \<not> is_EQUIVOCATION x \<and> \<not> is_CHECKPOINT x"
  shows "driver_inv C S ok df (fst (record_result options now result d))"
proof -
  let ?d1 = "count (\<lambda>oc. oc\<lparr>po_applied := po_applied oc + oc_applied result,
            po_rejected := po_rejected oc + oc_rejected result,
            po_deferred := po_deferred oc + oc_deferred result,
            po_duplicates := po_duplicates oc + oc_duplicates result,
            po_equivocations := po_equivocations oc + length (oc_equivocations result)\<rparr>) d"
  have "driver_inv C S ok df ?d1" by (rule driver_inv_count [OF assms(1)]) simp
  then obtain d2 go where d2: "keep_evidence options (oc_equivocations result) ?d1 = (d2, go)" "driver_inv C S ok df d2"
    using inv_evidence [of df ?d1 "oc_equivocations result"]
    by (cases "keep_evidence options (oc_equivocations result) ?d1") auto
  let ?d3 = "count (\<lambda>oc. oc\<lparr>po_checkpoints := po_checkpoints oc + length (oc_checkpoints result)\<rparr>) d2"
  have "driver_inv C S ok df ?d3" by (rule driver_inv_count [OF d2(2)]) simp
  moreover have "driver_inv C S ok df (fold note_checkpoint ms d)" if "driver_inv C S ok df d" for ms d
    using that by (induction ms arbitrary: d) (simp_all add: inv_checkpoint)
  ultimately have "driver_inv C S ok df (fold send (oc_replies result) (fold note_checkpoint (oc_checkpoints result) ?d3))"
    using assms(2) by (intro driver_inv_sends)
  from inv_state [OF driver_inv_offer [OF this], of now options]
  show ?thesis
    using d2 driver_inv_pump by (auto simp: record_result_def Let_def split: prod.split bool.split)
qed

lemma inv_payload:
  assumes "driver_inv C S ok df d"
  shows "driver_inv C S ok df (fst (on_payload C S options now payload d))"
proof (cases "decodeMessage payload")
  case (Inl e)
  have "driver_inv C S ok df (count (\<lambda>oc. oc\<lparr>po_rejected := po_rejected oc + 1\<rparr>) d)"
    by (rule driver_inv_count [OF assms]) simp
  then show ?thesis using Inl driver_inv_update(2) [OF assms] by (cases e) (simp_all add: on_payload_def)
next
  case (Inr m)
  show ?thesis
  proof (cases "receive C S (dr_session d) m now")
    case (Inl e)
    then show ?thesis using Inr driver_inv_update(2) [OF assms] by (simp add: on_payload_def)
  next
    case r: (Inr x)
    obtain s result where x: "x = (s, result)" by force
    have conv: "conversation C S ok (dr_session d)" using assms by (simp add: driver_inv_def)
    from conversation.message [OF conv r [unfolded x]] have "driver_inv C S ok df (d\<lparr>dr_session := s\<rparr>)"
      using assms by (simp add: driver_inv_def outgoing_eq)
    then have "driver_inv C S ok df (fst (record_result options now result (d\<lparr>dr_session := s\<rparr>)))"
      using receive_replies [OF r [unfolded x]] by (intro inv_record) auto
    then show ?thesis
      using Inr r x driver_inv_update(2)
      by (cases "record_result options now result (d\<lparr>dr_session := s\<rparr>)") (auto simp: on_payload_def split: bool.split)
  qed
qed

lemma inv_payloads: "driver_inv C S ok df d \<Longrightarrow> driver_inv C S ok df (on_payloads C S options now ps d)"
proof (induction ps arbitrary: d)
  case (Cons p ps)
  from inv_payload [OF Cons.prems, of now p] Cons.IH show ?case
    by (cases "on_payload C S options now p d") (auto split: bool.split)
qed simp

lemma inv_tick:
  assumes "driver_inv C S ok df d"
  shows "driver_inv C S ok df (on_tick C S now d)"
proof -
  obtain s n where s: "retryDeferred C S (dr_session d) now = (s, n)" by (cases "retryDeferred C S (dr_session d) now")
  have conv: "conversation C S ok (dr_session d)" using assms by (simp add: driver_inv_def)
  from conversation.retry [OF conv, of now] s have "driver_inv C S ok df (d\<lparr>dr_session := s\<rparr>)"
    using assms by (simp add: driver_inv_def outgoing_eq)
  then have "driver_inv C S ok df (count (\<lambda>oc. oc\<lparr>po_applied := po_applied oc + n\<rparr>) (d\<lparr>dr_session := s\<rparr>))"
    by (rule driver_inv_count) simp
  from driver_inv_pump [OF this] show ?thesis by (simp add: on_tick_def s)
qed

lemma inv_opened:
  assumes "ok k" and "drivePeer S forks k = Some d"
  shows "driver_inv C S ok new_deframer d"
proof -
  obtain digest where digest: "sk_treeRoot S k = Some digest"
    using assms(2) by (cases "sk_treeRoot S k") (simp_all add: drivePeer_def session_open_def new_session_def)
  let ?s = "new_session k\<lparr>sn_helloSent := True\<rparr>"
  let ?d = "\<lparr>dr_session = ?s, dr_deframer = new_deframer, dr_outcome = no_outcome, dr_forks = forks,
             dr_offered = False, dr_stated = False, dr_written = [], dr_destroyed = False, dr_closed = False\<rparr>"
  have greeting: "session_open S (new_session k) = (?s, Inr (HELLO PROTOCOL_VERSION (sk_length S k) digest))"
    using digest by (simp add: session_open_def new_session_def)
  then have d: "d = send (HELLO PROTOCOL_VERSION (sk_length S k) digest) ?d"
    using assms(2) by (simp add: drivePeer_def)
  have "conversation C S ok ?s"
    using conversation.greet [OF conversation.start [of ok k, OF assms(1)], of C S] greeting by simp
  then have "driver_inv C S ok new_deframer ?d"
    by (simp add: driver_inv_def outgoing_def no_outcome_def)
  then show ?thesis
    unfolding d by (rule driver_inv_send) (simp_all add: valid_message_def root_length [OF assms(1) digest])
qed

text \<open>
  The deframer is in order as long as the stream has not been destroyed; afterwards no data comes.
\<close>

lemma connection_inv:
  "connection C S ok options d \<Longrightarrow>
    driver_inv C S ok (dr_deframer d) d \<and> (\<not> dr_destroyed d \<longrightarrow> deframer_ok (dr_deframer d) \<and>
      length (buffered (dr_deframer d)) \<le> 65539)"
proof (induction rule: connection.induct)
  case (opened k forks d)
  have "driver_inv C S ok new_deframer d" by (rule inv_opened [OF opened])
  then show ?case by (simp add: driver_inv_def new_deframer_ok)
next
  case (data d now chunk)
  then have inv: "driver_inv C S ok (dr_deframer d) d" and df: "deframer_ok (dr_deframer d)" by simp_all
  show ?case
  proof (cases "push chunk (dr_deframer d)")
    case (Inl e)
    then obtain x df' where e: "push chunk (dr_deframer d) = Inl (x, df')" by (cases e) simp
    have "driver_inv C S ok df' (destroy (d\<lparr>dr_deframer := df'\<rparr>))"
      by (intro driver_inv_update(2) driver_inv_update(4) [OF inv])
    then show ?thesis by (simp add: on_data_def e driver_inv_def) (simp add: destroy_def)
  next
    case (Inr x)
    then obtain ps df' where p: "push chunk (dr_deframer d) = Inr (ps, df')" by (cases x) simp
    have "deframer_ok df' \<and> length (buffered df') \<le> 65539"
      using push_spec [OF df, of chunk] p by (auto split: sum.splits)
    moreover have "driver_inv C S ok df' (on_payloads C S options now ps (d\<lparr>dr_deframer := df'\<rparr>))"
      by (rule inv_payloads [OF driver_inv_update(4) [OF inv]])
    ultimately show ?thesis by (simp add: on_data_def p driver_inv_def)
  qed
next
  case (tick d now)
  then have "driver_inv C S ok (dr_deframer d) (on_tick C S now d)" using inv_tick by simp
  then show ?case using tick by (simp add: driver_inv_def on_tick_keeps)
next
  case (failed d)
  then show ?case by (simp add: driver_inv_def outgoing_eq destroy_def)
next
  case (closes d)
  then show ?case by (simp add: driver_inv_def outgoing_eq)
next
  case (others d k forks)
  have same: "dr_deframer (set_world k (d\<lparr>dr_forks := forks\<rparr>)) = dr_deframer d"
    "dr_destroyed (set_world k (d\<lparr>dr_forks := forks\<rparr>)) = dr_destroyed d"
    by (simp_all add: set_world_def)
  have inv: "driver_inv C S ok (dr_deframer d) d" using others.IH by blast
  show ?case
    unfolding same using others.IH driver_inv_update(5) [OF driver_inv_update(1) [OF inv] others.hyps(2)] by blast
qed

end

subsection \<open>Connections of the registry\<close>

text \<open>The options \<open>cmdSync\<close> of registry/src/cli.ts drives its peers with.\<close>

definition storeOptions :: "crypto \<Rightarrow> Ledger Store DriverOptions" where
  "storeOptions C = \<lparr>do_ledger = Some (storeReader C), do_checkpoints = Some (store_checkpoint C)\<rparr>"

lemma tree_root_length: "hash_length_ok C \<Longrightarrow> tree_root C t = Inr digest \<Longrightarrow> length digest = 32"
  by (auto simp: tree_root_def treeHash_def hash_parts_def hash_length_ok_def errs)

lemma checkpoint_roots:
  assumes "hash_length_ok C" and "checkpointOf C es current records now = Inr c"
  shows "length (cp_treeRoot c) = 32 \<and> length (cp_indexRoot c) = 32"
proof -
  obtain t treeRoot index where "tree_root C t = Inr treeRoot" "indexRoot C current = Inr index"
    "cp_treeRoot c = treeRoot" "cp_indexRoot c = index"
    using assms(2) by (auto simp: checkpointOf_def Let_def split: sum.splits)
  moreover have "length index = 32" if "indexRoot C current = Inr index" for index
    using that assms(1) by (auto simp: indexRoot_def hash_length_ok_def errs)
  ultimately show ?thesis using tree_root_length [OF assms(1)] by simp
qed

lemma store_reader_ok:
  assumes "sink_ok C s" and "rd_record (storeReader C) s a b = (s', v)"
  shows "sink_ok C s' \<and> log_of s' = log_of s"
proof (cases "st_equivocation s")
  case None
  then show ?thesis using assms by (simp add: storeReader_def)
next
  case (Some x)
  obtain R L where x: "x = (R, L)" by force
  have h: "hash_length_ok C" and inv: "R = ledger_recorder C" "ledger_inv C L"
    using assms(1) Some x by (simp_all add: sink_ok_def store_ok_def ledger_watched)
  have "sink_ok C (s\<lparr>st_equivocation := Some (R, M)\<rparr>)" if "ledger_record C L a b Received True = Inr (M, out)" for M out
    using assms(1) h inv(1) ledger_record_inv [OF h inv(2) that]
    by (simp add: sink_ok_def store_ok_def ledger_watched store_inv_def log_signed_def)
  then show ?thesis
    using assms Some x by (auto simp: storeReader_def log_of_def split: sum.splits)
qed

interpretation store_driver: driver_world "sinkOver C" "sink_ok C" log_of C "storeOptions C" for C
proof unfold_locales
  fix s :: "Ledger Store" and digest R a b s' v f now c
  assume ok: "sink_ok C s"
  then have h: "hash_length_ok C" by (simp add: sink_ok_def)
  show "length digest = 32" if "sk_treeRoot (sinkOver C) s = Some digest"
    using that tree_root_length [OF h] by (auto simp: sinkOver_def store_treeRoot_def split: sum.splits)
  show "sink_ok C s' \<and> log_of s' = log_of s"
    if "do_ledger (storeOptions C) = Some R" "rd_record R s a b = (s', v)"
    using that store_reader_ok [OF ok] by (simp add: storeOptions_def)
  show "length (cp_treeRoot c) = 32 \<and> length (cp_indexRoot c) = 32"
    if "do_checkpoints (storeOptions C) = Some f" "f s now = Inr (Some c)"
    using that checkpoint_roots [OF h]
    by (fastforce simp: storeOptions_def store_checkpoint_def split: if_splits sum.splits prod.splits)
qed

text \<open>Frames that were sent as messages are delivered and decoded as these messages.\<close>

lemma sent_delivered:
  assumes "list_all2 sent_as ms fs" and "concat cs = concat fs"
  shows "\<exists>ps e. pushes cs new_deframer = Inr (ps, e) \<and> pending e = 0 \<and> mapE decodeMessage ps = Inr ms"
proof -
  have "\<exists>ps. mapE frame_message ps = Inr fs \<and> [] \<notin> set ps \<and> mapE decodeMessage ps = Inr ms"
    using assms(1)
  proof (induction rule: list_all2_induct)
    case Nil
    then show ?case by (intro exI [of _ "[]"]) simp
  next
    case (Cons m ms f fs)
    obtain bs where bs: "encodeMessage m = Inr bs" "frame_message bs = Inr f" "valid_message m"
      using Cons.hyps(1) by (auto simp: sent_as_def)
    have "encodeValue (CMap (message_map m)) 0 = Inr bs"
      using bs(1) by (auto simp: encodeMessage_def encode_def simp del: encodeValue.simps split: sum.splits if_splits)
    then have "bs \<noteq> []" by (rule encodeValue_not_Nil)
    moreover have "decodeMessage bs = Inr m" by (rule message_back [OF bs(1,3)])
    ultimately show ?case using Cons.IH bs(2) by (metis mapE.simps(2) set_ConsD sum.simps(6))
  qed
  then obtain ps where ps: "mapE frame_message ps = Inr fs" "[] \<notin> set ps" "mapE decodeMessage ps = Inr ms" by blast
  from frames_delivered [OF ps(1,2) assms(2)] ps(3) show ?thesis by blast
qed

subsection \<open>Properties\<close>

text \<open>
  C19. A connection is safe for the store. Whatever bytes a remote peer sends in whatever chunks, however
  the timer fires and other connections change the store in between: the store keeps its invariant,
  every entry of its log is signed, its ledger holds only verified evidence within its budgets; at
  most eight requests are in flight and 1,024 records held; and the deframer of a stream that is not
  destroyed holds less than a frame and its prefix.
\<close>

theorem connection_sound:
  assumes "connection C (sinkOver C) (sink_ok C) (storeOptions C) d"
  shows "let s = dr_session d; store = sn_sink s in
    store_inv C store \<and> log_signed C store \<and>
    (\<forall>R L. st_equivocation store = Some (R, L) \<longrightarrow> ledger_inv C L) \<and>
    length (sn_outstanding s) \<le> 8 \<and> length (sn_deferredQueue s) \<le> 1024 \<and>
    (\<not> dr_destroyed d \<longrightarrow> pending (dr_deframer d) < frameBytes SWARM_LIMITS + prefixBytes SWARM_LIMITS)"
proof -
  note inv = store_driver.connection_inv [OF assms]
  have conv: "conversation C (sinkOver C) (sink_ok C) (dr_session d)" using inv by (simp add: driver_inv_def)
  have s: "session_inv C (dr_session d)" by (rule conversation_inv [OF conv])
  have "sink_ok C (sn_sink (dr_session d))" by (rule store_sink.conversation_ok [OF conv])
  then show ?thesis
    using s inv
    by (auto simp: Let_def sink_ok_def store_ok_def ledger_watched session_inv_def queue_ok_def pending_def deframer_ok_def)
qed

text \<open>
  C20. A connection is understood. Everything it has written so far is, whatever chunks the network makes
  of it, delivered by a deframer as messages that all decode; at most 32 of them are evidence and at
  most one is a checkpoint, however much the other side sends.
\<close>

theorem connection_understood:
  assumes "connection C (sinkOver C) (sink_ok C) (storeOptions C) d"
  shows "\<exists>ms. (\<forall>cs. concat cs = concat (dr_written d) \<longrightarrow>
      (\<exists>ps e. pushes cs new_deframer = Inr (ps, e) \<and> pending e = 0 \<and> mapE decodeMessage ps = Inr ms)) \<and>
    length (filter is_EQUIVOCATION ms) \<le> perConnection EQUIVOCATION_LIMITS \<and>
    length (filter is_CHECKPOINT ms) \<le> 1 \<and> po_forwarded (dr_outcome d) \<le> perConnection EQUIVOCATION_LIMITS"
proof -
  obtain ms where "list_all2 sent_as ms (dr_written d)" "length (filter is_EQUIVOCATION ms) \<le> 32"
    "length (filter is_CHECKPOINT ms) \<le> 1" "po_forwarded (dr_outcome d) \<le> 32"
    using store_driver.connection_inv [OF assms] by (fastforce simp: driver_inv_def outgoing_def split: if_splits)
  then show ?thesis
    by (intro exI [of _ ms] conjI allI impI sent_delivered [where ms = ms]) (simp_all add: EQUIVOCATION_LIMITS_def)
qed

lemma sample_connection:
  obtains d where "drivePeer (sinkOver sample_crypto) None (new_store None :: Ledger Store) = Some d"
    "connection sample_crypto (sinkOver sample_crypto) (sink_ok sample_crypto) (storeOptions sample_crypto) d"
    "dr_written d \<noteq> []"
proof -
  let ?n = "new_store None :: Ledger Store"
  have "\<exists>digest. sk_treeRoot (sinkOver sample_crypto) ?n = Some digest"
    by (simp add: sinkOver_def store_treeRoot_def treeOf_def new_store_def empty_tree_def tree_root_def treeHash_def)
  then obtain digest where digest: "sk_treeRoot (sinkOver sample_crypto) ?n = Some digest" by blast
  have len: "sk_length (sinkOver sample_crypto) ?n = 0" by (simp add: sinkOver_def new_store_def)
  have l: "length digest = 32" by (rule store_driver.root_length [OF sink_ok_new digest])
  have "\<exists>bs. encodeMessage (HELLO 1 0 digest) = Inr bs \<and> length bs \<le> 65536"
    using l by (simp add: exec encodeMessage_def message_map_def)
  then obtain bs f where f: "encodeMessage (HELLO 1 0 digest) = Inr bs" "frame_message bs = Inr f"
    by (auto simp: frame_message_def)
  obtain d where d: "drivePeer (sinkOver sample_crypto) None ?n = Some d" "dr_written d = [f]"
    using f by (simp add: drivePeer_def session_open_def new_session_def digest len PROTOCOL_VERSION_def send_def)
  show thesis
    by (rule that [OF d(1) connection.opened [of "sink_ok sample_crypto", OF sink_ok_new d(1)]]) (simp add: d(2))
qed

theorem connection_sound_witness:
  "\<exists>d. store_inv sample_crypto (sn_sink (dr_session (on_data sample_crypto (sinkOver sample_crypto)
     (storeOptions sample_crypto) 7 [0, 0] d))) \<and> dr_written d \<noteq> []"
proof -
  obtain d where d: "drivePeer (sinkOver sample_crypto) None (new_store None :: Ledger Store) = Some d"
    "connection sample_crypto (sinkOver sample_crypto) (sink_ok sample_crypto) (storeOptions sample_crypto) d"
    "dr_written d \<noteq> []" by (rule sample_connection)
  have "\<not> dr_destroyed d \<and> \<not> dr_closed d"
    using d(1,3) by (auto simp: drivePeer_def send_def destroy_def split: prod.splits sum.splits)
  then have "connection sample_crypto (sinkOver sample_crypto) (sink_ok sample_crypto) (storeOptions sample_crypto)
      (on_data sample_crypto (sinkOver sample_crypto) (storeOptions sample_crypto) 7 [0, 0] d)"
    using d(2) by (intro connection.data) simp_all
  from connection_sound [OF this] d(3) show ?thesis by (auto simp: Let_def)
qed

theorem connection_understood_witness:
  "\<exists>d ps e ms. dr_written d \<noteq> [] \<and> pushes [concat (dr_written (d :: Ledger Store Driver))] new_deframer = Inr (ps, e) \<and>
     mapE decodeMessage ps = Inr ms"
proof -
  obtain d where d: "connection sample_crypto (sinkOver sample_crypto) (sink_ok sample_crypto) (storeOptions sample_crypto) d"
    "dr_written d \<noteq> []" by (rule sample_connection)
  from connection_understood [OF d(1)] show ?thesis
    using d(2) by (metis concat.simps append_Nil2)
qed

end
