(* ===== verification/Spec2Isabelle.thy ===== *)
theory Spec2Isabelle
  imports Converge Merkle Messages Log Ledger Keys Checkpoint Store Store_Safety Session Session_Safety Site_Order Proxy Gateway Blockx Blockstore Pins Mime Swarm
begin

text \<open>
  A model of the VayuWeb name registry, the TypeScript program under registry/src. A VayuWeb name
  is held by an Ed25519 key through a hash-linked chain of signed records; every node keeps the
  records in an append-only log, verifies each of them on its own, replicates the log with its
  peers, and decides races between registrations by a rule all peers compute alike.

  \<^bold>\<open>Parts and theories.\<close> The order is the order of the calls, from the bottom up.
  \<^item> \<open>Prelude\<close>: bytes, JavaScript strings, \<open>Map\<close> objects, results that may be an
    error, big-endian integers, and the collections \<open>exec\<close> (evaluation) and \<open>errs\<close>
    (inversion of results) the other theories extend. \<open>Utf8\<close>: \<open>TextEncoder\<close> and the
    fatal \<open>TextDecoder\<close>.
  \<^item> \<open>Cbor\<close> (cbor.ts): the deterministic encoder and the strict decoder.
    \<open>decode_canonical\<close>, \<open>isDeterministic_exact\<close> and \<open>decode_encode\<close> say that they
    are inverse to one another, up to the byte order mark the text decoder drops.
  \<^item> \<open>Namespace\<close> (namespace.generated.ts), \<open>Names\<close> (names.ts), \<open>Suites\<close>
    (suites.ts), \<open>Signature\<close> (signature.ts), \<open>Domain\<close> (domain.ts), \<open>Pow\<close>
    (pow.ts): labels and extensions, suites, strict signature verification, the two hash domains,
    proof of work.
  \<^item> \<open>Registry_Record\<close> (record.ts): the record and its parser, with every rejection code
    (\<open>parseRecord_exact\<close>). \<open>Lifecycle\<close> (lifecycle.ts): the phases of a term. \<open>Verify\<close>
    (verify.ts): the verifier; \<open>verify_accepts_exactly\<close> says what it accepts, the theorems after
    it what that means for who controls a name and for how long.
  \<^item> \<open>Converge\<close> (converge.ts): which of several conflicting registrations wins.
    \<open>Merkle\<close> (merkle.ts): the incremental tree over the log, inclusion proofs.
    \<open>Keys\<close> (keys.ts): the ordered keys of the index. \<open>Checkpoint\<close> (checkpoint.ts):
    comparison of logs between peers.
  \<^item> \<open>Messages\<close> (the codec and the evidence check of replicate.ts), \<open>Ledger\<close>
    (equivocation.ts): the signed contradictions a node keeps, with budgets, in memory and on disk.
  \<^item> \<open>Log\<close> (the file format and the counting search of store.ts), \<open>Store\<close> (the class
    Store), \<open>Store_Append\<close> (how one append changes the store), \<open>Store_Safety\<close> (the
    properties of a store that any sequence of appends reaches). The recorder of equivocations is the
    locale \<open>equivocation_recorder\<close>, interpreted on the ledger. \<open>Samples\<close> holds concrete registrations for
    the witnesses.
  \<^item> \<open>Session\<close>, \<open>Session_Safety\<close> (the class ReplicationSession of replicate.ts): one
    conversation with a peer. The store a session feeds is the locale \<open>replication_sink\<close>,
    interpreted on the model of the store; the relation \<open>conversation\<close> holds of the states that
    messages, timers and retries can reach.
  \<^item> \<open>Framing\<close> (the class Deframer of swarm.ts), \<open>Swarm\<close> (\<open>drivePeer\<close>): a connection from the
    bytes of its stream to the store. The relation \<open>connection\<close> holds of the states that chunks of
    bytes, the timer, failures and other connections can reach; what a connection needs of the store
    and the ledger is the locale \<open>driver_world\<close>, which extends \<open>replication_sink\<close> and is
    interpreted on the model of the store. \<open>deframer_refines\<close> says that the chunked deframer is one
    buffer.
  \<^item> \<open>Content\<close> (content.ts), \<open>Unixfs\<close> (unixfs.ts), \<open>Utf8_Lossy\<close> (the lenient
    \<open>TextDecoder\<close>), \<open>Fetch\<close> (fetch.ts), \<open>Site\<close>, \<open>Site_Order\<close> (properties of both): a
    site becomes blocks under one identifier and is fetched back from blocks that may be lies.
    \<open>Blockx\<close> (blockx.ts): the messages blocks are exchanged with. \<open>Blockstore\<close>
    (blockstore.ts): a tree is pulled out of a library's store before it is traversed. \<open>Pins\<close> (pins.ts): which sites a
    node keeps and what it reports of others. \<open>Mime\<close> (mime.ts): the types of files.
  \<^item> \<open>Cache\<close> (cache.ts), \<open>Resolve\<close> (resolve.ts), \<open>Json\<close> and \<open>Manifest\<close> (the site manifest of
    resolve.ts), \<open>Scan\<close> (scan.ts), \<open>Proxy\<close> (proxy.ts): the browsing side. A host becomes a name,
    the name a live record, the record an identifier, the identifier a page, and the page is scanned
    before it is served. The relation \<open>resolver_step\<close> has a flag for the host: in \<open>cmdServe\<close> of cli.ts
    the log is fixed and the control interface shares the cache; a log that grows belongs to another
    program that binds the proxy, without that interface.
  \<^item> \<open>Gateway\<close> (serve.ts): how a local request is read and answered. \<open>on_chunk\<close> is the listener of a
    socket, \<open>feed\<close> a sequence of its events, \<open>verdict_of\<close> the reader that sees all bytes at once;
    \<open>chunking_independent\<close> relates them, \<open>request_delivered\<close> says that a written request arrives.
    The relation \<open>serving\<close> holds of the states new sockets, data, timers, errors and closes can
    reach. The handler is an argument; \<open>proxy_respond\<close> is the one of the proxy.

  \<^bold>\<open>Correspondence.\<close> A definition has the name of the function or type it models; the operations
  of a class are prefixed with it where the name would clash (\<open>store_append\<close>, \<open>ledger_record\<close>).
  The fields of a class are a record that its operations take and return. A throw is \<open>Inl\<close> of a
  code, a return is \<open>Inr\<close>; messages of errors are left out. The clock stands still while one event
  of a connection is handled, and a stream gives no data after it was destroyed.

  \<^bold>\<open>Parameters.\<close> The code under node\_modules and the platform are not modelled: Ed25519,
  BLAKE2b, SHA-256 and Argon2id are the fields of the record \<open>crypto\<close> that the definitions take
  as an argument. What the properties need of them are named hypotheses: \<open>hash_length_ok\<close> (a hash has
  32 bytes), and the absence of a collision between the inputs at hand, or a conclusion that allows
  for a collision. Every property with such a hypothesis is applied to a concrete instance,
  \<open>sample_crypto\<close>. The content layer and the resolver of pointers behind the proxy, the store of
  blocks behind a fetch, the objects and promises of a block library and the order of \<open>localeCompare\<close> are arguments too. \<open>toLowerCase\<close> and the
  normalisation NFC act on the characters whose result is ASCII, the only ones the callers can tell
  apart.

  \<^bold>\<open>Bounds and fuel.\<close> Integers of the source are doubles that the code keeps below
  $2^{53}$; they are \<^typ>\<open>int\<close> and the checks against \<open>MAX_SAFE_INTEGER\<close> are written out.
  Bytes are 8-bit words, code units 16-bit words. Loops are recursive functions with a termination
  proof; the depth of the CBOR decoder is bounded by the code's own constant. The search for a proof
  of work is bounded by the limit on attempts its caller gives. The JSON parser takes twice the
  length of its text and two as fuel, more than it can use since each step but one reads a character;
  the loop that sends requests takes nine rounds, one more than the requests in flight, and
  \<open>pump_done\<close> shows that none is left to send.

  \<^bold>\<open>Not modelled.\<close> Files appear as their contents; creating directories and the failure of a
  write are left out. The dialling of sockets (egress.ts), the routes of the control socket (control.ts), the
  binding of listeners in serve.ts and the command line (cli.ts) are file and network I/O around the
  operations modelled here; of cli.ts the calls into these operations are modelled. vectors.ts generates the conformance vectors by calling the modelled
  code, and the acceptance scripts drive the program from outside.
\<close>

section \<open>Both wire formats\<close>

text \<open>
  C40. Messages from the network are of their types. Whatever bytes arrive, the decoder of the
  replication protocol gives a message whose numbers are safe and not negative, whose digests have 32
  bytes and whose batch has at most 256 records, and the decoder of the block exchange one whose
  numbers are safe and whose lists and entries keep their bounds; or each refuses with a code of its
  own, never with an exception of the CBOR layer below.
\<close>

theorem wire_typed:
  "(case decodeMessage bs of Inr m \<Rightarrow> typed_message m | Inl e \<Rightarrow> \<exists>code. e = REPLICATION code) \<and>
   (case decodeBlockMessage bs of Inr m \<Rightarrow> valid_block_message m | Inl e \<Rightarrow> \<exists>code. e = BX_EXCHANGE code)"
proof
  show "case decodeMessage bs of Inr m \<Rightarrow> typed_message m | Inl e \<Rightarrow> \<exists>code. e = REPLICATION code"
    using decodeMessage_typed [of bs] by (cases "decodeMessage bs") (auto, metis message_error.exhaust)
  show "case decodeBlockMessage bs of Inr m \<Rightarrow> valid_block_message m | Inl e \<Rightarrow> \<exists>code. e = BX_EXCHANGE code"
    using decodeBlockMessage_error [of bs] decodeBlockMessage_valid [of bs]
    by (cases "decodeBlockMessage bs") (auto, metis block_error.exhaust)
qed

end
